(* ===== verification/Prelude.thy ===== *)
theory Prelude
  imports Main "HOL-Library.Word"
begin

unbundle bit_operations_syntax

text \<open>
  Shared vocabulary of the development: the machine types of the Rust sources, byte buffers and
  the range reads and writes they are used through, little-endian encoding, and the three-way
  outcome of a Rust call (a value, an error value, a panic).

  The model follows the release profile of \<^verbatim>\<open>Cargo.toml\<close>, which leaves overflow checks off:
  unchecked machine arithmetic wraps (it is written on \<open>'a word\<close>), while an index or a slice range
  that leaves its buffer panics. A \<open>usize\<close> is 64 bits wide and is read as a \<open>nat\<close>; the checked
  operations on it are written out with their bound.
\<close>

section \<open>Machine types\<close>

type_synonym u8 = "8 word"
type_synonym u16 = "16 word"
type_synonym u32 = "32 word"
type_synonym u64 = "64 word"
type_synonym bytes = "u8 list"

section \<open>Outcomes of a call\<close>

datatype ('a, 'e) res = Ok 'a | Err 'e | Panic

fun rbind :: "('a, 'e) res \<Rightarrow> ('a \<Rightarrow> ('b, 'e) res) \<Rightarrow> ('b, 'e) res" where
  "rbind (Ok x) f = f x"
| "rbind (Err e) f = Err e"
| "rbind Panic f = Panic"

fun map_err :: "('e \<Rightarrow> 'f) \<Rightarrow> ('a, 'e) res \<Rightarrow> ('a, 'f) res" where
  "map_err g (Ok x) = Ok x"
| "map_err g (Err e) = Err (g e)"
| "map_err g Panic = Panic"

fun ok_or :: "'e \<Rightarrow> 'a option \<Rightarrow> ('a, 'e) res" where
  "ok_or e None = Err e"
| "ok_or e (Some x) = Ok x"

fun or_panic :: "'a option \<Rightarrow> ('a, 'e) res" where
  "or_panic None = Panic"
| "or_panic (Some x) = Ok x"

fun is_ok :: "('a, 'e) res \<Rightarrow> bool" where
  "is_ok (Ok x) = True"
| "is_ok (Err e) = False"
| "is_ok Panic = False"

text \<open>A fallible map over a list, stopping at the first failure, as \<open>collect\<close> into a \<open>Result\<close> does.\<close>

fun mapM :: "('a \<Rightarrow> ('b, 'e) res) \<Rightarrow> 'a list \<Rightarrow> ('b list, 'e) res" where
  "mapM f [] = Ok []"
| "mapM f (x # xs) = rbind (f x) (\<lambda>y. rbind (mapM f xs) (\<lambda>ys. Ok (y # ys)))"

text \<open>A fallible loop over a list of indices with an accumulated state.\<close>

fun foldM :: "('a \<Rightarrow> 's \<Rightarrow> ('s, 'e) res) \<Rightarrow> 'a list \<Rightarrow> 's \<Rightarrow> ('s, 'e) res" where
  "foldM f [] s = Ok s"
| "foldM f (x # xs) s = rbind (f x s) (foldM f xs)"

named_theorems res_conv \<open>inversion of successful computations\<close>

lemma rbind_cong [fundef_cong]:
  assumes "m = m'" and "\<And>x. m' = Ok x \<Longrightarrow> f x = f' x"
  shows "rbind m f = rbind m' f'"
  using assms by (cases m') auto

lemma rbind_Ok_conv [res_conv]: "rbind m f = Ok y \<longleftrightarrow> (\<exists>x. m = Ok x \<and> f x = Ok y)"
  by (cases m) auto

lemma rbind_Err_conv: "rbind m f = Err e \<longleftrightarrow> m = Err e \<or> (\<exists>x. m = Ok x \<and> f x = Err e)"
  by (cases m) auto

lemma rbind_Panic_conv: "rbind m f = Panic \<longleftrightarrow> m = Panic \<or> (\<exists>x. m = Ok x \<and> f x = Panic)"
  by (cases m) auto

lemma rbind_assoc: "rbind (rbind m f) g = rbind m (\<lambda>x. rbind (f x) g)"
  by (cases m) auto

lemma map_err_rbind: "map_err g (rbind m f) = rbind (map_err g m) (\<lambda>x. map_err g (f x))"
  by (cases m) auto

lemma map_err_Ok_conv [res_conv]: "map_err g m = Ok y \<longleftrightarrow> m = Ok y"
  by (cases m) auto

lemma map_err_Panic_conv: "map_err g m = Panic \<longleftrightarrow> m = Panic"
  by (cases m) auto

lemma ok_or_Ok_conv [res_conv]: "ok_or e x = Ok y \<longleftrightarrow> x = Some y"
  by (cases x) auto

lemma ok_or_not_Panic [simp]: "ok_or e x \<noteq> Panic"
  by (cases x) auto

lemma or_panic_Ok_conv [res_conv]: "or_panic x = Ok y \<longleftrightarrow> x = Some y"
  by (cases x) auto

lemma or_panic_not_Err [simp]: "or_panic x \<noteq> Err e"
  by (cases x) auto

lemma is_ok_conv: "is_ok r \<longleftrightarrow> (\<exists>x. r = Ok x)"
  by (cases r) auto

lemma if_Err_Ok_conv [res_conv]: "(if b then Err e else m) = Ok y \<longleftrightarrow> \<not> b \<and> m = Ok y"
  by auto

lemma mapM_Ok_length: "mapM f xs = Ok ys \<Longrightarrow> length ys = length xs"
  by (induction xs arbitrary: ys) (auto simp: rbind_Ok_conv)

lemma mapM_Ok_nth: "mapM f xs = Ok ys \<Longrightarrow> i < length xs \<Longrightarrow> f (xs ! i) = Ok (ys ! i)"
  by (induction xs arbitrary: ys i) (auto simp: rbind_Ok_conv nth_Cons split: nat.splits)

lemma mapM_Ok_iff: "(\<exists>ys. mapM f xs = Ok ys) \<longleftrightarrow> (\<forall>x\<in>set xs. \<exists>y. f x = Ok y)"
  by (induction xs) (auto simp: rbind_Ok_conv)

lemma mapM_not_Panic: "(\<And>x. x \<in> set xs \<Longrightarrow> f x \<noteq> Panic) \<Longrightarrow> mapM f xs \<noteq> Panic"
  by (induction xs) (auto simp: rbind_Panic_conv)

lemma upt_4: "[0..<4] = [0, 1, 2, 3 :: nat]"
  by (simp add: upt_rec)

lemma mapM_Ok_map: "(\<And>x. x \<in> set xs \<Longrightarrow> f x = Ok (g x)) \<Longrightarrow> mapM f xs = Ok (map g xs)"
  by (induction xs) auto

lemma mapM_Ok_set: "mapM f xs = Ok ys \<Longrightarrow> y \<in> set ys \<Longrightarrow> \<exists>x\<in>set xs. f x = Ok y"
  by (induction xs arbitrary: ys) (auto simp: rbind_Ok_conv)

lemma foldM_append: "foldM f (xs @ ys) s = rbind (foldM f xs s) (foldM f ys)"
  by (induction xs arbitrary: s) (simp_all add: rbind_assoc cong: rbind_cong)

lemma foldM_inv:
  assumes "foldM f xs s = Ok t" and "P s"
    and "\<And>x s t. x \<in> set xs \<Longrightarrow> P s \<Longrightarrow> f x s = Ok t \<Longrightarrow> P t"
  shows "P t"
  using assms by (induction xs arbitrary: s) (auto simp: rbind_Ok_conv)

lemma foldM_total:
  assumes "P s" and "\<And>x s. x \<in> set xs \<Longrightarrow> P s \<Longrightarrow> \<exists>s'. f x s = Ok s' \<and> P s'"
  shows "\<exists>s'. foldM f xs s = Ok s' \<and> P s'"
  using assms
proof (induction xs arbitrary: s)
  case (Cons x xs)
  then obtain s' where "f x s = Ok s'" "P s'" by force
  then show ?case using Cons by force
qed simp

lemma foldM_not_Panic: "(\<And>x s. x \<in> set xs \<Longrightarrow> f x s \<noteq> Panic) \<Longrightarrow> foldM f xs s \<noteq> Panic"
  by (induction xs arbitrary: s) (auto simp: rbind_Panic_conv)

lemma foldM_cong:
  "(\<And>x st. x \<in> set xs \<Longrightarrow> f x st = g x st) \<Longrightarrow> foldM f xs st = foldM g xs st"
proof (induction xs arbitrary: st)
  case (Cons x xs)
  then show ?case by (cases "g x st") auto
qed simp

text \<open>A result that is never a panic and whose value, if any, satisfies a predicate.\<close>

definition ok_with :: "('s \<Rightarrow> bool) \<Rightarrow> ('s, 'e) res \<Rightarrow> bool" where
  "ok_with P r = (case r of Ok s \<Rightarrow> P s | Err e \<Rightarrow> True | Panic \<Rightarrow> False)"

lemma ok_with_simps [simp]: "ok_with P (Ok s) = P s" "ok_with P (Err e)" "\<not> ok_with P Panic"
  by (simp_all add: ok_with_def)

lemma ok_with_rbind: "ok_with Q r \<Longrightarrow> (\<And>x. r = Ok x \<Longrightarrow> Q x \<Longrightarrow> ok_with P (f x)) \<Longrightarrow> ok_with P (rbind r f)"
  by (cases r) auto

lemma ok_with_ok_or [simp]: "ok_with (\<lambda>_. True) (ok_or e x)"
  by (cases x) auto

lemma ok_with_guard: "(\<not> c \<Longrightarrow> ok_with P r) \<Longrightarrow> ok_with P (if c then Err e else r)"
  by simp

lemma ok_with_not_Panic: "ok_with P r \<Longrightarrow> r \<noteq> Panic"
  by auto

lemma ok_with_OkD: "ok_with P r \<Longrightarrow> r = Ok s \<Longrightarrow> P s"
  by simp

lemma ok_with_foldM:
  "P s \<Longrightarrow> (\<And>x s. x \<in> set xs \<Longrightarrow> P s \<Longrightarrow> ok_with P (f x s)) \<Longrightarrow> ok_with P (foldM f xs s)"
proof (induction xs arbitrary: s)
  case (Cons x xs)
  then have "ok_with P (f x s)" by simp
  then show ?case by (auto intro!: ok_with_rbind Cons.IH Cons.prems(2))
qed simp

section \<open>Machine integers read as numbers\<close>

definition usize_limit :: nat where
  "usize_limit = 2 ^ 64"

text \<open>\<open>usize::checked_add\<close>, \<open>usize::checked_mul\<close> and \<open>usize::checked_sub\<close>.\<close>

definition chk_add :: "nat \<Rightarrow> nat \<Rightarrow> nat option" where
  "chk_add a b = (if a + b < usize_limit then Some (a + b) else None)"

definition chk_mul :: "nat \<Rightarrow> nat \<Rightarrow> nat option" where
  "chk_mul a b = (if a * b < usize_limit then Some (a * b) else None)"

definition chk_sub :: "nat \<Rightarrow> nat \<Rightarrow> nat option" where
  "chk_sub a b = (if b \<le> a then Some (a - b) else None)"

text \<open>\<open>checked_add\<close>, \<open>checked_sub\<close> and \<open>saturating_add\<close> on a machine word.\<close>

definition chk_add_w :: "'a::len word \<Rightarrow> 'a word \<Rightarrow> 'a word option" where
  "chk_add_w a b = (if unat a + unat b < 2 ^ LENGTH('a) then Some (a + b) else None)"

definition chk_sub_w :: "'a::len word \<Rightarrow> 'a word \<Rightarrow> 'a word option" where
  "chk_sub_w a b = (if b \<le> a then Some (a - b) else None)"

definition sat_add_w :: "'a::len word \<Rightarrow> 'a word \<Rightarrow> 'a word" where
  "sat_add_w a b = (if unat a + unat b < 2 ^ LENGTH('a) then a + b else - 1)"

lemma chk_add_Some_conv [res_conv]: "chk_add a b = Some c \<longleftrightarrow> c = a + b \<and> a + b < usize_limit"
  by (auto simp: chk_add_def)

lemma chk_mul_Some_conv [res_conv]: "chk_mul a b = Some c \<longleftrightarrow> c = a * b \<and> a * b < usize_limit"
  by (auto simp: chk_mul_def)

lemma chk_sub_Some_conv [res_conv]: "chk_sub a b = Some c \<longleftrightarrow> b \<le> a \<and> c = a - b"
  by (auto simp: chk_sub_def)

lemma unat_bound: "unat (w :: 'a::len word) < 2 ^ LENGTH('a)"
  by (rule unsigned_less)

lemma unat_u8_bound [simp]: "unat (b :: u8) < 256"
  using unat_bound [of b] by simp

lemma unat_add_no_wrap:
  fixes a b :: "'a::len word"
  shows "unat a + unat b < 2 ^ LENGTH('a) \<Longrightarrow> unat (a + b) = unat a + unat b"
  by (simp add: unat_word_ariths)

lemma chk_add_w_Some_conv [res_conv]:
  fixes a b c :: "'a::len word"
  shows "chk_add_w a b = Some c \<longleftrightarrow> c = a + b \<and> unat a + unat b < 2 ^ LENGTH('a)"
  by (auto simp: chk_add_w_def)

lemma chk_add_w_unat:
  fixes a b c :: "'a::len word"
  shows "chk_add_w a b = Some c \<Longrightarrow> unat c = unat a + unat b"
  by (auto simp: chk_add_w_def unat_word_ariths split: if_splits)

lemma chk_sub_w_Some_conv [res_conv]: "chk_sub_w a b = Some c \<longleftrightarrow> b \<le> a \<and> c = a - b"
  by (auto simp: chk_sub_w_def)

lemma unat_sub_le: "(b :: 'a::len word) \<le> a \<Longrightarrow> unat (a - b) = unat a - unat b"
  by (simp add: unat_sub_if' word_le_nat_alt)

lemma unat_and_not_mask:
  fixes w :: "'a::len word"
  shows "unat (w AND NOT (mask k)) = unat w div 2 ^ k * 2 ^ k"
proof -
  have "w AND NOT (mask k) = push_bit k (drop_bit k w)"
    by (rule bit_word_eqI) (auto simp: bit_simps)
  then have "unat (w AND NOT (mask k)) = take_bit LENGTH('a) (push_bit k (drop_bit k (unat w)))"
    by (simp only: unsigned_push_bit_eq unsigned_drop_bit_eq) (simp only: take_bit_nat_eq_self [OF unat_bound])
  also have "\<dots> = unat w div 2 ^ k * 2 ^ k"
  proof -
    have "unat w div 2 ^ k * 2 ^ k \<le> unat w" by (rule div_times_less_eq_dividend)
    then have "unat w div 2 ^ k * 2 ^ k < 2 ^ LENGTH('a)" using unat_bound [of w] by (rule le_less_trans)
    then show ?thesis by (simp add: push_bit_eq_mult drop_bit_eq_div take_bit_nat_eq_self)
  qed
  finally show ?thesis .
qed

text \<open>A conversion to a narrower word commutes with the wrapping operations.\<close>

lemma ucast_down_add:
  fixes v w :: "'a::len word"
  assumes "LENGTH('b::len) \<le> LENGTH('a)"
  shows "(ucast (v + w) :: 'b word) = ucast v + ucast w"
    and "(ucast (v - w) :: 'b word) = ucast v - ucast w"
  using assms ucast_down_wi [where 'a = 'a and 'b = 'b, of "uint v + uint w"] ucast_down_wi [where 'a = 'a and 'b = 'b, of "uint v - uint w"]
  by (simp_all add: is_down)

lemma ucast_down_of_nat:
  assumes "LENGTH('b::len) \<le> LENGTH('a::len)"
  shows "(ucast (word_of_nat n :: 'a word) :: 'b word) = word_of_nat n"
  using assms ucast_down_wi [where 'a = 'a and 'b = 'b, of "int n"] by (simp add: is_down)

text \<open>\<open>wrapping_shl\<close> and \<open>wrapping_shr\<close> mask the amount to the width; so does an unchecked shift
  in the release profile.\<close>

definition shl32 :: "u32 \<Rightarrow> u32 \<Rightarrow> u32" where
  "shl32 w n = push_bit (unat (n AND 31)) w"

definition shr32 :: "u32 \<Rightarrow> u32 \<Rightarrow> u32" where
  "shr32 w n = drop_bit (unat (n AND 31)) w"

text \<open>Exclusive or is a group operation in which every element is its own inverse.\<close>

lemma xor_xor_cancel [simp]: "(a XOR (a XOR b) :: 'a::len word) = b"
  by (rule bit_word_eqI) (auto simp: bit_simps)

lemma xor_cancel_right [simp]: "((a XOR b) XOR b :: 'a::len word) = a"
  by (rule bit_word_eqI) (auto simp: bit_simps)

lemma xor_left_inject: "(a XOR b :: 'a::len word) = a XOR c \<longleftrightarrow> b = c"
  by (metis xor_xor_cancel)

lemma xor_right_inject: "(b XOR a :: 'a::len word) = c XOR a \<longleftrightarrow> b = c"
  by (metis xor_cancel_right)

lemma xor_eq_0_conv: "(a XOR b :: 'a::len word) = 0 \<longleftrightarrow> a = b"
  by (metis xor_left_inject xor_self_eq)

section \<open>Byte ranges\<close>

text \<open>\<open>window xs off n\<close> is \<open>xs[off..off+n]\<close> where that range exists; \<open>patch xs off bs\<close> is \<open>xs\<close> after
  \<open>copy_from_slice\<close> of \<open>bs\<close> onto \<open>xs[off..off+len(bs)]\<close>.\<close>

definition window :: "'a list \<Rightarrow> nat \<Rightarrow> nat \<Rightarrow> 'a list" where
  "window xs off n = take n (drop off xs)"

definition patch :: "'a list \<Rightarrow> nat \<Rightarrow> 'a list \<Rightarrow> 'a list" where
  "patch xs off bs = take off xs @ bs @ drop (off + length bs) xs"

text \<open>\<open>data.get(off..off+n)\<close>: \<open>None\<close> when the range leaves the slice. An unchecked \<open>off + n\<close> that wraps
  gives a range whose end lies before its start, which \<open>get\<close> refuses as well, so no bound on
  \<open>off\<close> is needed.\<close>

definition get_range :: "'a list \<Rightarrow> nat \<Rightarrow> nat \<Rightarrow> 'a list option" where
  "get_range xs off n = (if off + n \<le> length xs then Some (window xs off n) else None)"

text \<open>\<open>&data[off..off+n]\<close> and \<open>data[i]\<close>, which panic out of range.\<close>

definition idx_range :: "'a list \<Rightarrow> nat \<Rightarrow> nat \<Rightarrow> ('a list, 'e) res" where
  "idx_range xs off n = or_panic (get_range xs off n)"

definition idx :: "'a list \<Rightarrow> nat \<Rightarrow> ('a, 'e) res" where
  "idx xs i = (if i < length xs then Ok (xs ! i) else Panic)"

text \<open>\<open>data[off..off+len(bs)].copy_from_slice(bs)\<close> and \<open>data[i] = b\<close>.\<close>

definition put :: "'a list \<Rightarrow> nat \<Rightarrow> 'a list \<Rightarrow> ('a list, 'e) res" where
  "put xs off bs = (if off + length bs \<le> length xs then Ok (patch xs off bs) else Panic)"

definition set_at :: "'a list \<Rightarrow> nat \<Rightarrow> 'a \<Rightarrow> ('a list, 'e) res" where
  "set_at xs i b = (if i < length xs then Ok (xs[i := b]) else Panic)"

named_theorems ranges \<open>laws of window and patch\<close>

lemma length_window [ranges]: "off + n \<le> length xs \<Longrightarrow> length (window xs off n) = n"
  by (simp add: window_def)

lemma nth_window [ranges]: "i < n \<Longrightarrow> off + n \<le> length xs \<Longrightarrow> window xs off n ! i = xs ! (off + i)"
  by (simp add: window_def)

lemma window_0 [simp]: "window xs off 0 = []"
  by (simp add: window_def)

lemma window_all [simp]: "window xs 0 (length xs) = xs"
  by (simp add: window_def)

lemma window_window:
  "b + m \<le> n \<Longrightarrow> window (window xs a n) b m = window xs (a + b) m"
  by (simp add: window_def drop_take min_absorb1 add.commute)

lemma length_patch [ranges]:
  "off + length bs \<le> length xs \<Longrightarrow> length (patch xs off bs) = length xs"
  by (simp add: patch_def)

lemma nth_patch:
  "off + length bs \<le> length xs \<Longrightarrow> i < length xs \<Longrightarrow>
     patch xs off bs ! i = (if off \<le> i \<and> i < off + length bs then bs ! (i - off) else xs ! i)"
  by (auto simp: patch_def nth_append)

lemma patch_Nil [simp]: "patch xs off [] = xs"
  by (simp add: patch_def)

lemma patch_single: "i < length xs \<Longrightarrow> patch xs i [b] = xs[i := b]"
  by (simp add: patch_def upd_conv_take_nth_drop)

lemma window_patch_same [ranges]:
  "off + length bs \<le> length xs \<Longrightarrow> n = length bs \<Longrightarrow> window (patch xs off bs) off n = bs"
  by (simp add: window_def patch_def)

lemma nth_window_gen: "i < length (window xs off n) \<Longrightarrow> window xs off n ! i = xs ! (off + i)"
  by (auto simp: window_def)

lemma window_patch_disjoint [ranges]:
  assumes "off + length bs \<le> length xs" and "a + n \<le> off \<or> off + length bs \<le> a"
  shows "window (patch xs off bs) a n = window xs a n"
proof (rule nth_equalityI)
  show "length (window (patch xs off bs) a n) = length (window xs a n)"
    using assms by (simp add: window_def length_patch)
  fix i assume i: "i < length (window (patch xs off bs) a n)"
  then have "a + i < length xs" "i < n"
    using assms by (auto simp: window_def length_patch)
  then show "window (patch xs off bs) a n ! i = window xs a n ! i"
    using assms by (auto simp: window_def length_patch nth_patch)
qed

lemma patch_window: "off + n \<le> length xs \<Longrightarrow> patch xs off (window xs off n) = xs"
proof (rule nth_equalityI)
  assume b: "off + n \<le> length xs"
  show "length (patch xs off (window xs off n)) = length xs"
    using b by (simp add: length_patch length_window)
  fix i assume "i < length (patch xs off (window xs off n))"
  then have i: "i < length xs" using b by (simp add: length_patch length_window)
  with b show "patch xs off (window xs off n) ! i = xs ! i"
    by (auto simp: nth_patch length_window nth_window)
qed

lemma patch_twice: 
  assumes "off + length bs \<le> length xs" "length cs = length bs" 
  shows "patch (patch xs off bs) off cs = patch xs off cs"
  using assms by (simp add: patch_def)

lemma window_append_split:
  "window xs off (m + n) = window xs off m @ window xs (off + m) n"
  by (simp add: window_def take_add add.commute)

lemma window_pre: "window (pre @ xs) (length pre + k) n = window xs k n"
  by (simp add: window_def)

lemma window_mid: "window (xs @ ys @ zs) (length xs) (length ys) = ys"
  by (simp add: window_def)

lemma get_range_Some_conv [res_conv]:
  "get_range xs off n = Some ys \<longleftrightarrow> off + n \<le> length xs \<and> ys = window xs off n"
  by (auto simp: get_range_def)

lemma idx_range_Ok_conv [res_conv]:
  "idx_range xs off n = Ok ys \<longleftrightarrow> off + n \<le> length xs \<and> ys = window xs off n"
  by (auto simp: idx_range_def get_range_def)

lemma idx_Ok_conv [res_conv]: "idx xs i = Ok y \<longleftrightarrow> i < length xs \<and> y = xs ! i"
  by (auto simp: idx_def)

lemma put_Ok_conv [res_conv]:
  "put xs off bs = Ok ys \<longleftrightarrow> off + length bs \<le> length xs \<and> ys = patch xs off bs"
  by (auto simp: put_def)

lemma set_at_Ok_conv [res_conv]:
  "set_at xs i b = Ok ys \<longleftrightarrow> i < length xs \<and> ys = xs[i := b]"
  by (auto simp: set_at_def)

lemma idx_range_in: "off + n \<le> length xs \<Longrightarrow> idx_range xs off n = Ok (window xs off n)"
  by (simp add: res_conv)

lemma idx_in: "i < length xs \<Longrightarrow> idx xs i = Ok (xs ! i)"
  by (simp add: res_conv)

lemma put_in: "off + length bs \<le> length xs \<Longrightarrow> put xs off bs = Ok (patch xs off bs)"
  by (simp add: res_conv)

lemma set_at_in: "i < length xs \<Longrightarrow> set_at xs i b = Ok (xs[i := b])"
  by (simp add: res_conv)

lemma no_Err_ranges [simp]:
  "idx_range xs off n \<noteq> Err e" "idx xs i \<noteq> Err e" "put xs off bs \<noteq> Err e" "set_at xs i b \<noteq> Err e"
  by (auto simp: idx_range_def idx_def put_def set_at_def)

section \<open>Little-endian encoding\<close>

fun from_le :: "u8 list \<Rightarrow> 'a::len word" where
  "from_le [] = 0"
| "from_le (b # bs) = ucast b OR push_bit 8 (from_le bs)"

fun to_le :: "nat \<Rightarrow> 'a::len word \<Rightarrow> u8 list" where
  "to_le 0 w = []"
| "to_le (Suc n) w = ucast w # to_le n (drop_bit 8 w)"

lemma length_to_le [simp]: "length (to_le n w) = n"
  by (induction n arbitrary: w) auto

lemma bit_from_le:
  "bit (from_le bs :: 'a::len word) i \<longleftrightarrow>
     i < LENGTH('a) \<and> i div 8 < length bs \<and> bit (bs ! (i div 8)) (i mod 8)"
proof (induction bs arbitrary: i)
  case Nil
  then show ?case by simp
next
  case (Cons b bs)
  show ?case
  proof (cases "i < 8")
    case True
    then show ?thesis by (auto simp: bit_simps)
  next
    case False
    then have "i div 8 = Suc ((i - 8) div 8)" "i mod 8 = (i - 8) mod 8"
      by (simp_all add: div_if mod_if)
    with False show ?thesis
      by (auto simp: bit_simps Cons.IH dest: bit_imp_le_length)
  qed
qed

lemma nth_to_le: "k < n \<Longrightarrow> to_le n w ! k = ucast (drop_bit (8 * k) w)"
proof (induction n arbitrary: w k)
  case (Suc n)
  then show ?case by (cases k) (auto simp: drop_bit_drop_bit add.commute)
qed simp

lemma from_le_to_le:
  fixes w :: "'a::len word"
  assumes "LENGTH('a) \<le> 8 * n"
  shows "from_le (to_le n w) = w"
proof (rule bit_word_eqI)
  fix i assume i: "i < LENGTH('a)"
  then have "i div 8 < n" using assms by auto
  with i show "bit (from_le (to_le n w) :: 'a word) i \<longleftrightarrow> bit w i"
    by (simp add: bit_from_le nth_to_le bit_simps)
qed

lemma to_le_from_le:
  assumes "length bs = n" and "8 * n \<le> LENGTH('a)"
  shows "to_le n (from_le bs :: 'a::len word) = bs"
proof (rule nth_equalityI)
  show "length (to_le n (from_le bs :: 'a word)) = length bs"
    using assms by simp
  fix k assume "k < length (to_le n (from_le bs :: 'a word))"
  then have k: "k < n" by simp
  show "to_le n (from_le bs :: 'a word) ! k = bs ! k"
  proof (rule bit_word_eqI)
    fix i assume i: "i < LENGTH(8)"
    have "8 * k + i < LENGTH('a)" using k i assms by simp
    moreover have "(8 * k + i) div 8 = k" "(8 * k + i) mod 8 = i" using i by simp_all
    ultimately show "bit (to_le n (from_le bs :: 'a word) ! k) i \<longleftrightarrow> bit (bs ! k) i"
      using k i assms by (simp add: nth_to_le bit_from_le bit_simps)
  qed
qed

text \<open>The readers of two, four and eight bytes, in the two forms the code has: \<open>get_le\<close> answers
  \<open>None\<close> out of range, \<open>idx_le\<close> panics. \<open>put_le\<close> stores.\<close>

definition get_le :: "nat \<Rightarrow> bytes \<Rightarrow> nat \<Rightarrow> 'a::len word option" where
  "get_le n data off = map_option from_le (get_range data off n)"

definition idx_le :: "nat \<Rightarrow> bytes \<Rightarrow> nat \<Rightarrow> ('a::len word, 'e) res" where
  "idx_le n data off = or_panic (get_le n data off)"

definition put_le :: "nat \<Rightarrow> bytes \<Rightarrow> nat \<Rightarrow> 'a::len word \<Rightarrow> (bytes, 'e) res" where
  "put_le n data off w = put data off (to_le n w)"

lemma get_le_Some_conv [res_conv]:
  "get_le n data off = Some w \<longleftrightarrow> off + n \<le> length data \<and> w = from_le (window data off n)"
  by (auto simp: get_le_def get_range_def)

lemma idx_le_Ok_conv [res_conv]:
  "idx_le n data off = Ok w \<longleftrightarrow> off + n \<le> length data \<and> w = from_le (window data off n)"
  by (auto simp: idx_le_def get_le_def get_range_def)

lemma put_le_Ok_conv [res_conv]:
  "put_le n data off w = Ok ys \<longleftrightarrow> off + n \<le> length data \<and> ys = patch data off (to_le n w)"
  by (auto simp: put_le_def res_conv)

lemma no_Err_le [simp]: "idx_le n data off \<noteq> Err e" "put_le n data off w \<noteq> Err e"
  by (simp_all add: idx_le_def put_le_def)

lemma get_le_in: "off + n \<le> length data \<Longrightarrow> get_le n data off = Some (from_le (window data off n))"
  by (simp add: res_conv)

lemma get_le_None_conv: "get_le n data off = None \<longleftrightarrow> length data < off + n"
  by (auto simp: get_le_def get_range_def)

lemma idx_le_in: "off + n \<le> length data \<Longrightarrow> idx_le n data off = Ok (from_le (window data off n))"
  by (simp add: res_conv)

lemma put_le_in: "off + n \<le> length data \<Longrightarrow> put_le n data off w = Ok (patch data off (to_le n w))"
  by (simp add: res_conv)

section \<open>Computations that may not return\<close>

text \<open>\<open>None\<close> stands for a run that never returns, \<open>Some\<close> for the outcome of one that does. The errors of the
  Android, ELF and metadata crates are represented by the fixed part of their message.\<close>

type_synonym err = string

type_synonym 'a may = "('a, err) res option"

definition may_bind :: "'a may \<Rightarrow> ('a \<Rightarrow> 'b may) \<Rightarrow> 'b may" where
  "may_bind m f = (case m of None \<Rightarrow> None | Some (Ok x) \<Rightarrow> f x | Some (Err e) \<Rightarrow> Some (Err e) | Some Panic \<Rightarrow> Some Panic)"

fun may_fold :: "('a \<Rightarrow> 's \<Rightarrow> 's may) \<Rightarrow> 'a list \<Rightarrow> 's \<Rightarrow> 's may" where
  "may_fold f [] s = Some (Ok s)"
| "may_fold f (x # xs) s = may_bind (f x s) (may_fold f xs)"

lemma may_bind_simps [simp]:
  "may_bind None f = None" "may_bind (Some (Ok x)) f = f x"
  "may_bind (Some (Err e)) f = Some (Err e)" "may_bind (Some Panic) f = Some Panic"
  by (simp_all add: may_bind_def)

lemma may_bind_Ok_conv: "may_bind m f = Some (Ok y) \<longleftrightarrow> (\<exists>x. m = Some (Ok x) \<and> f x = Some (Ok y))"
  by (auto simp: may_bind_def split: option.splits res.splits)

lemma may_bind_Panic_conv:
  "may_bind m f = Some Panic \<longleftrightarrow> m = Some Panic \<or> (\<exists>x. m = Some (Ok x) \<and> f x = Some Panic)"
  by (auto simp: may_bind_def split: option.splits res.splits)

lemma may_bind_None_conv: "may_bind m f = None \<longleftrightarrow> m = None \<or> (\<exists>x. m = Some (Ok x) \<and> f x = None)"
  by (auto simp: may_bind_def split: option.splits res.splits)

lemma may_fold_inv:
  assumes "may_fold f xs s = Some (Ok t)" and "P s"
    and "\<And>x s t. x \<in> set xs \<Longrightarrow> P s \<Longrightarrow> f x s = Some (Ok t) \<Longrightarrow> P t"
  shows "P t"
  using assms by (induction xs arbitrary: s) (auto simp: may_bind_Ok_conv)

lemma may_fold_not_Panic:
  assumes "\<And>x s. x \<in> set xs \<Longrightarrow> f x s \<noteq> Some Panic"
  shows "may_fold f xs s \<noteq> Some Panic"
  using assms by (induction xs arbitrary: s) (auto simp: may_bind_Panic_conv)

lemma may_fold_append: "may_fold f (xs @ ys) s = may_bind (may_fold f xs s) (may_fold f ys)"
proof (induction xs arbitrary: s)
  case (Cons x xs)
  then show ?case by (simp add: may_bind_def split: option.split res.split)
qed simp

end
