(* ===== verification/Crc32.thy ===== *)
theory Crc32
  imports Prelude
begin

unbundle bit_operations_syntax

text \<open>
  \<^verbatim>\<open>senbei-crypto/src/windows/crc32.rs\<close>: the reflected CRC-32 with its table built at compile time.
  The table-driven loop is proved equal to shifting bit by bit, chaining is proved to be
  concatenation, and the checksum is proved to tell any two messages apart that differ in one
  window of at most four bytes.
\<close>

section \<open>The table and the loop\<close>

definition crc_shift :: "u32 \<Rightarrow> u32" where
  "crc_shift c = (if c AND 1 \<noteq> 0 then 0xEDB88320 XOR drop_bit 1 c else drop_bit 1 c)"

definition build_table :: "u32 list" where
  "build_table = map (\<lambda>i. (crc_shift ^^ 8) (word_of_nat i)) [0..<256]"

definition crc_byte :: "u32 \<Rightarrow> u8 \<Rightarrow> u32" where
  "crc_byte crc b = build_table ! unat ((crc XOR ucast b) AND 0xFF) XOR drop_bit 8 crc"

definition append :: "u32 \<Rightarrow> bytes \<Rightarrow> u32" where
  "append initial data = NOT (foldl crc_byte (NOT initial) data)"

definition compute :: "bytes \<Rightarrow> u32" where
  "compute data = append 0 data"

section \<open>Shifting is linear and injective\<close>

lemma crc_shift_even: "even c \<Longrightarrow> crc_shift c = drop_bit 1 c"
  by (simp add: crc_shift_def and_one_eq even_iff_mod_2_eq_zero)

lemma crc_shift_odd: "odd c \<Longrightarrow> crc_shift c = 0xEDB88320 XOR drop_bit 1 c"
  by (simp add: crc_shift_def and_one_eq odd_iff_mod_2_eq_one)

lemma crc_shift_xor: "crc_shift (x XOR y) = crc_shift x XOR crc_shift y"
proof -
  have par: "even (x XOR y) \<longleftrightarrow> (even x \<longleftrightarrow> even y)"
    by (simp add: even_xor_iff)
  show ?thesis
    by (cases "even x"; cases "even y")
      (simp_all add: par crc_shift_even crc_shift_odd drop_bit_xor ac_simps xor.left_commute)
qed

lemma crc_shifts_xor: "(crc_shift ^^ n) (x XOR y) = (crc_shift ^^ n) x XOR (crc_shift ^^ n) y"
  by (induction n) (simp_all add: crc_shift_xor)

lemma crc_shift_0 [simp]: "crc_shift 0 = 0"
  by (simp add: crc_shift_even)

lemma crc_shifts_0 [simp]: "(crc_shift ^^ n) 0 = 0"
  by (induction n) simp_all

lemma crc_shift_eq_0: "crc_shift z = 0 \<Longrightarrow> z = 0"
proof (cases "even z")
  case True
  assume "crc_shift z = 0"
  with True have d: "drop_bit 1 z = 0" by (simp add: crc_shift_even)
  show "z = 0"
  proof (rule bit_word_eqI)
    fix i
    have "bit (drop_bit 1 z) (i - 1) = bit z i" if "0 < i" using that by (simp add: bit_simps)
    with d True show "bit z i \<longleftrightarrow> bit (0::u32) i"
      by (cases i) (auto simp: bit_0)
  qed
next
  case False
  assume "crc_shift z = 0"
  with False have "bit (0xEDB88320 XOR drop_bit 1 z) 31 = False"
    by (simp add: crc_shift_odd)
  moreover have "bit (0xEDB88320 :: u32) 31" by simp
  moreover have "\<not> bit (drop_bit 1 z) 31" by (auto simp: bit_simps dest: bit_imp_le_length)
  ultimately show "z = 0" by (simp add: bit_simps)
qed

lemma crc_shifts_inj: "(crc_shift ^^ n) x = (crc_shift ^^ n) y \<Longrightarrow> x = y"
proof -
  assume "(crc_shift ^^ n) x = (crc_shift ^^ n) y"
  then have z: "(crc_shift ^^ n) (x XOR y) = 0" by (simp add: crc_shifts_xor)
  have "(crc_shift ^^ n) w = 0 \<Longrightarrow> w = 0" for w
    by (induction n) (auto dest: crc_shift_eq_0)
  with z have "x XOR y = 0" by blast
  then show "x = y" by (simp add: xor_eq_0_conv)
qed

lemma crc_shifts_high:
  assumes "take_bit n z = 0"
  shows "(crc_shift ^^ n) z = drop_bit n z"
  using assms
proof (induction n arbitrary: z)
  case 0
  then show ?case by simp
next
  case (Suc n)
  have bits: "\<not> bit z i" if "i < Suc n" for i
  proof -
    have "bit (take_bit (Suc n) z) i = bit z i" using that by (simp add: bit_simps)
    with Suc.prems show ?thesis by simp
  qed
  from bits [of 0] have "even z" by (simp add: bit_0)
  moreover have "take_bit n (drop_bit 1 z) = 0"
    by (rule bit_word_eqI) (auto simp: bit_simps bits)
  ultimately have "(crc_shift ^^ Suc n) z = drop_bit n (drop_bit 1 z)"
    by (simp add: funpow_Suc_right crc_shift_even Suc.IH del: funpow.simps)
  then show ?case by (simp add: drop_bit_drop_bit)
qed

section \<open>One byte is eight shifts\<close>

lemma crc_byte_shifts: "crc_byte crc b = (crc_shift ^^ 8) (crc XOR ucast b)"
proof -
  let ?z = "crc XOR ucast b" and ?hi = "(crc XOR ucast b) AND NOT 0xFF"
  have ff: "(0xFF :: u32) = mask 8" by (simp add: mask_eq_exp_minus_1)
  have "unat (?z AND 0xFF) < 256"
    using word_and_le1 [of ?z "0xFF"] by (simp add: word_le_nat_alt)
  then have tab: "build_table ! unat (?z AND 0xFF) = (crc_shift ^^ 8) (?z AND 0xFF)"
    by (simp add: build_table_def)
  have lo: "take_bit 8 ?hi = 0"
    unfolding ff by (rule bit_word_eqI) (auto simp: bit_simps)
  have hi: "drop_bit 8 ?hi = drop_bit 8 crc"
    unfolding ff by (rule bit_word_eqI) (auto simp: bit_simps dest: bit_imp_le_length)
  have split: "?z = (?z AND 0xFF) XOR ?hi"
    by (rule bit_word_eqI) (auto simp: bit_simps)
  have "(crc_shift ^^ 8) ?z = (crc_shift ^^ 8) (?z AND 0xFF) XOR (crc_shift ^^ 8) ?hi"
    by (subst split) (rule crc_shifts_xor)
  also have "\<dots> = crc_byte crc b"
    by (simp only: crc_shifts_high [OF lo] hi crc_byte_def tab)
  finally show ?thesis by simp
qed

text \<open>The bit-serial reference: every byte is added to the register and shifted out bit by bit.\<close>

fun crc_serial :: "u32 \<Rightarrow> bytes \<Rightarrow> u32" where
  "crc_serial r [] = r"
| "crc_serial r (b # bs) = crc_serial ((crc_shift ^^ 8) (r XOR ucast b)) bs"

lemma foldl_crc_byte: "foldl crc_byte r bs = crc_serial r bs"
  by (induction bs arbitrary: r) (simp_all add: crc_byte_shifts)

lemma crc_serial_append: "crc_serial r (xs @ ys) = crc_serial (crc_serial r xs) ys"
  by (induction xs arbitrary: r) simp_all

lemma crc_serial_inj: "crc_serial r bs = crc_serial s bs \<Longrightarrow> r = s"
proof (induction bs arbitrary: r s)
  case (Cons b bs)
  then have "(crc_shift ^^ 8) (r XOR ucast b) = (crc_shift ^^ 8) (s XOR ucast b)"
    by simp
  then have "r XOR ucast b = s XOR ucast b" by (rule crc_shifts_inj)
  then show ?case by (simp add: xor_right_inject)
qed simp

text \<open>Up to four bytes shift out of the register together, as one little-endian word.\<close>

lemma crc_serial_word:
  "length bs \<le> 4 \<Longrightarrow> crc_serial r bs = (crc_shift ^^ (8 * length bs)) (r XOR from_le bs)"
proof (induction bs arbitrary: r)
  case (Cons b bs)
  let ?w = "from_le bs :: u32"
  have fits: "drop_bit 8 (push_bit 8 ?w) = ?w"
  proof (rule bit_word_eqI)
    fix i assume "i < LENGTH(32)"
    with Cons.prems show "bit (drop_bit 8 (push_bit 8 ?w)) i \<longleftrightarrow> bit ?w i"
      by (auto simp: bit_simps bit_from_le)
  qed
  have hi: "(crc_shift ^^ 8) (push_bit 8 ?w) = ?w"
    by (subst crc_shifts_high) (simp_all only: fits take_bit_push_bit, simp)
  have or_xor: "ucast b OR push_bit 8 ?w = ucast b XOR push_bit 8 ?w"
    by (rule bit_word_eqI) (auto simp: bit_simps dest: bit_imp_le_length)
  have "(crc_shift ^^ 8) (r XOR from_le (b # bs)) = (crc_shift ^^ 8) (r XOR ucast b) XOR ?w"
    by (simp only: from_le.simps or_xor xor.assoc [symmetric] crc_shifts_xor [of _ "r XOR _"] hi)
  then have "(crc_shift ^^ (8 * length bs)) ((crc_shift ^^ 8) (r XOR from_le (b # bs)))
      = crc_serial ((crc_shift ^^ 8) (r XOR ucast b)) bs"
    using Cons.IH [of "(crc_shift ^^ 8) (r XOR ucast b)"] Cons.prems by simp
  moreover have "8 * length (b # bs) = 8 * length bs + 8" by simp
  ultimately show ?case by (simp only: funpow_add o_apply crc_serial.simps)
qed simp

section \<open>Properties\<close>

text \<open>The table-driven loop computes the bit-serial CRC-32 of its input.\<close>

theorem append_is_serial: "append initial data = NOT (crc_serial (NOT initial) data)"
  by (simp add: append_def foldl_crc_byte)

text \<open>Chaining: continuing a checksum over more data is the checksum of the concatenation.\<close>

theorem append_append: "append (append initial xs) ys = append initial (xs @ ys)"
  by (simp add: append_def)

text \<open>C11. A change confined to a window of at most four bytes (a burst of up to 32 bits) always
  changes the checksum.\<close>

theorem append_detects_burst:
  assumes "bs \<noteq> cs" and "length bs = length cs" and "length bs \<le> 4"
  shows "append initial (xs @ bs @ ys) \<noteq> append initial (xs @ cs @ ys)"
proof
  assume eq: "append initial (xs @ bs @ ys) = append initial (xs @ cs @ ys)"
  let ?r = "crc_serial (NOT initial) xs"
  have "crc_serial (crc_serial ?r bs) ys = crc_serial (crc_serial ?r cs) ys"
    using eq by (simp add: append_def foldl_crc_byte crc_serial_append del: foldl_append)
  then have "crc_serial ?r bs = crc_serial ?r cs" by (rule crc_serial_inj)
  then have "(crc_shift ^^ (8 * length cs)) (?r XOR from_le bs)
      = (crc_shift ^^ (8 * length cs)) (?r XOR from_le cs)"
    using assms(2,3) by (simp only: crc_serial_word)
  then have "?r XOR from_le bs = ?r XOR from_le cs" by (rule crc_shifts_inj)
  then have "(from_le bs :: u32) = from_le cs" by (simp only: xor_left_inject)
  then have "to_le (length cs) (from_le bs :: u32) = to_le (length cs) (from_le cs :: u32)"
    by simp
  then show False
    using assms by (simp add: to_le_from_le)
qed

theorem append_detects_burst_witness:
  "append 0 ([7] @ [1, 2] @ [9]) \<noteq> append 0 ([7] @ [1, 3] @ [9])"
  using append_detects_burst [of "[1, 2]" "[1, 3]" 0 "[7]" "[9]"] by simp

end
