(* ===== verification/Bytecode.thy ===== *)
theory Bytecode
  imports Prelude
begin

unbundle bit_operations_syntax

text \<open>
  \<^verbatim>\<open>senbei-crypto/src/windows/bytecode.rs\<close>: the one-byte instruction programs of the custom
  decryptor stages. \<open>generate\<close> compiles the machine code of a stage to a list of operations,
  \<open>apply\<close> interprets it, and \<open>OpsLut\<close> is the 256-entry table the hot paths use instead.
\<close>

section \<open>Operations and their interpreter\<close>

datatype op = Add u8 | Sub u8 | Xor u8 | Rol u32 | Ror u32 | Inc | Dec

fun apply_op :: "op \<Rightarrow> u8 \<Rightarrow> u8" where
  "apply_op (Add n) x = x + n"
| "apply_op (Sub n) x = x - n"
| "apply_op (Xor n) x = x XOR n"
| "apply_op (Rol n) x = word_rotl (unat (n AND 7)) x"
| "apply_op (Ror n) x = word_rotr (unat (n AND 7)) x"
| "apply_op Inc x = x + 1"
| "apply_op Dec x = x - 1"

fun apply_ops :: "op list \<Rightarrow> u8 \<Rightarrow> u8" where
  "apply_ops [] x = x"
| "apply_ops (op # ops) x = apply_ops ops (apply_op op x)"

section \<open>The translation table\<close>

record ops_lut =
  lut_t :: "u8 list"

definition lut_new :: "op list \<Rightarrow> ops_lut" where
  "lut_new ops = \<lparr>lut_t = map (\<lambda>i. apply_ops ops (word_of_nat i)) [0..<256]\<rparr>"

definition map_region :: "ops_lut \<Rightarrow> bytes \<Rightarrow> nat \<Rightarrow> nat \<Rightarrow> (bytes, 'e) res" where
  "map_region lut d off n =
     rbind (idx_range d off n) (\<lambda>region.
       Ok (patch d off (map (\<lambda>b. lut_t lut ! unat b) region)))"

section \<open>The compiler\<close>

text \<open>\<open>next\<close> reads the byte under the cursor; the cursor is modelled by the bytes that remain. The
  two \<open>ModRM\<close> forms accept register operand 0 only (\<open>mod = 3\<close>, \<open>rm = 0\<close>).\<close>

definition modrm_ok :: "u8 \<Rightarrow> bool" where
  "modrm_ok mb \<longleftrightarrow> drop_bit 6 mb AND 3 = 3 \<and> mb AND 7 = 0"

definition modrm_reg :: "u8 \<Rightarrow> u8" where
  "modrm_reg mb = drop_bit 3 mb AND 7"

fun gen_ops :: "bytes \<Rightarrow> op list \<Rightarrow> op list option" where
  "gen_ops [] ops = None"
| "gen_ops (b # rest) ops =
     (if b = 4 then (case rest of [] \<Rightarrow> None | n # rest' \<Rightarrow> gen_ops rest' (ops @ [Add n]))
      else if b = 44 then (case rest of [] \<Rightarrow> None | n # rest' \<Rightarrow> gen_ops rest' (ops @ [Sub n]))
      else if b = 52 then (case rest of [] \<Rightarrow> None | n # rest' \<Rightarrow> gen_ops rest' (ops @ [Xor n]))
      else if b = 144 then gen_ops rest ops
      else if b = 192 then
        (case rest of [] \<Rightarrow> None | mb # rest' \<Rightarrow>
          if \<not> modrm_ok mb then None
          else (case rest' of [] \<Rightarrow> None | imm # rest'' \<Rightarrow>
            if modrm_reg mb = 0 then gen_ops rest'' (ops @ [Rol (ucast imm)])
            else if modrm_reg mb = 1 then gen_ops rest'' (ops @ [Ror (ucast imm)])
            else None))
      else if b = 254 then
        (case rest of [] \<Rightarrow> None | mb # rest' \<Rightarrow>
          if \<not> modrm_ok mb then None
          else if modrm_reg mb = 0 then gen_ops rest' (ops @ [Inc])
          else if modrm_reg mb = 1 then gen_ops rest' (ops @ [Dec])
          else None)
      else if b = 195 then Some ops
      else None)"

definition generate :: "bytes \<Rightarrow> u32 \<Rightarrow> op list option" where
  "generate data offset = gen_ops (drop (unat offset) data) []"

section \<open>The table agrees with the interpreter\<close>

lemma lut_nth: "lut_t (lut_new ops) ! unat b = apply_ops ops b"
  by (simp add: lut_new_def)

lemma map_region_eq:
  "map_region (lut_new ops) d off n =
     (if off + n \<le> length d then Ok (patch d off (map (apply_ops ops) (window d off n))) else Panic)"
  by (simp add: map_region_def idx_range_def get_range_def lut_nth)

lemma map_region_length: "map_region lut d off n = Ok d' \<Longrightarrow> length d' = length d"
  by (auto simp: map_region_def res_conv length_patch length_window)

section \<open>Every program is invertible\<close>

fun inv_op :: "op \<Rightarrow> op" where
  "inv_op (Add n) = Sub n"
| "inv_op (Sub n) = Add n"
| "inv_op (Xor n) = Xor n"
| "inv_op (Rol n) = Ror n"
| "inv_op (Ror n) = Rol n"
| "inv_op Inc = Dec"
| "inv_op Dec = Inc"

lemma inv_op_apply [simp]: "apply_op (inv_op op) (apply_op op x) = x"
  by (cases op) simp_all

lemma apply_ops_append: "apply_ops (xs @ ys) x = apply_ops ys (apply_ops xs x)"
  by (induction xs arbitrary: x) simp_all

lemma apply_ops_inverse: "apply_ops (map inv_op (rev ops)) (apply_ops ops x) = x"
  by (induction ops arbitrary: x) (simp_all add: apply_ops_append)

section \<open>The code the compiler accepts\<close>

text \<open>The encodings of the operation list: each operation in its one accepted form, with any number
  of one-byte no-ops in between.\<close>

inductive encodes :: "bytes \<Rightarrow> op list \<Rightarrow> bool" where
  enc_Nil: "encodes [] []"
| enc_nop: "encodes code ops \<Longrightarrow> encodes (144 # code) ops"
| enc_Add: "encodes code ops \<Longrightarrow> encodes (4 # n # code) (Add n # ops)"
| enc_Sub: "encodes code ops \<Longrightarrow> encodes (44 # n # code) (Sub n # ops)"
| enc_Xor: "encodes code ops \<Longrightarrow> encodes (52 # n # code) (Xor n # ops)"
| enc_Rol: "encodes code ops \<Longrightarrow> encodes (192 # 0xC0 # n # code) (Rol (ucast n) # ops)"
| enc_Ror: "encodes code ops \<Longrightarrow> encodes (192 # 0xC8 # n # code) (Ror (ucast n) # ops)"
| enc_Inc: "encodes code ops \<Longrightarrow> encodes (254 # 0xC0 # code) (Inc # ops)"
| enc_Dec: "encodes code ops \<Longrightarrow> encodes (254 # 0xC8 # code) (Dec # ops)"

lemma modrm_split:
  "mb = push_bit 6 (drop_bit 6 mb AND 3) OR push_bit 3 (drop_bit 3 mb AND 7) OR (mb AND (7 :: u8))"
    (is "_ = ?rhs")
proof (rule bit_word_eqI)
  have m: "(7::u8) = mask 3" "(3::u8) = mask 2" by (simp_all add: mask_eq_exp_minus_1)
  fix i assume "i < LENGTH(8)"
  then consider "i < 3" | "3 \<le> i" "i < 6" | "6 \<le> i" "i < 8" by fastforce
  then show "bit mb i \<longleftrightarrow> bit ?rhs i"
    unfolding m by cases (auto simp: bit_simps)
qed

lemma modrm_fields:
  assumes "modrm_ok mb" shows "mb = push_bit 6 3 OR push_bit 3 (modrm_reg mb)"
proof -
  have "drop_bit 6 mb AND 3 = 3" "mb AND 7 = 0" using assms by (simp_all add: modrm_ok_def)
  then show ?thesis using modrm_split [of mb] by (simp only: modrm_reg_def or.right_neutral)
qed

lemma modrm_0: "modrm_ok mb \<and> modrm_reg mb = 0 \<longleftrightarrow> mb = 0xC0"
proof
  assume "modrm_ok mb \<and> modrm_reg mb = 0"
  then have "mb = push_bit 6 3 OR push_bit 3 0" using modrm_fields [of mb] by metis
  then show "mb = 0xC0" by simp
qed (simp add: modrm_ok_def modrm_reg_def)

lemma modrm_1: "modrm_ok mb \<and> modrm_reg mb = 1 \<longleftrightarrow> mb = 0xC8"
proof
  assume "modrm_ok mb \<and> modrm_reg mb = 1"
  then have "mb = push_bit 6 3 OR push_bit 3 1" using modrm_fields [of mb] by metis
  then show "mb = 0xC8" by simp
qed (simp add: modrm_ok_def modrm_reg_def)

lemma gen_ops_complete: "encodes code ops \<Longrightarrow> gen_ops (code @ 195 # rest) acc = Some (acc @ ops)"
proof (induction arbitrary: acc rule: encodes.induct)
  case (enc_Rol code ops n)
  then show ?case using modrm_0 [of "0xC0"] by simp
next
  case (enc_Ror code ops n)
  then show ?case using modrm_1 [of "0xC8"] by simp
next
  case (enc_Inc code ops)
  then show ?case using modrm_0 [of "0xC0"] by simp
next
  case (enc_Dec code ops)
  then show ?case using modrm_1 [of "0xC8"] by simp
qed simp_all

lemma modrm_0D: "modrm_ok mb \<Longrightarrow> modrm_reg mb = 0 \<Longrightarrow> mb = 0xC0"
  using modrm_0 by blast

lemma modrm_1D: "modrm_ok mb \<Longrightarrow> modrm_reg mb = 1 \<Longrightarrow> mb = 0xC8"
  using modrm_1 by blast

definition parsed :: "bytes \<Rightarrow> op list \<Rightarrow> op list \<Rightarrow> bool" where
  "parsed data acc ops \<longleftrightarrow>
     (\<exists>code rest new. data = code @ 195 # rest \<and> ops = acc @ new \<and> encodes code new)"

lemma parsed_step:
  assumes "parsed data (acc @ os) ops"
    and "\<And>code new. encodes code new \<Longrightarrow> encodes (p @ code) (os @ new)"
  shows "parsed (p @ data) acc ops"
proof -
  from assms(1) obtain code rest new
    where "data = code @ 195 # rest" "ops = (acc @ os) @ new" "encodes code new"
    by (auto simp: parsed_def)
  with assms(2) show ?thesis
    unfolding parsed_def by (metis append.assoc)
qed

lemma parsed_plain:
  "parsed data acc ops \<Longrightarrow> parsed (144 # data) acc ops"
  "parsed data (acc @ [Add n]) ops \<Longrightarrow> parsed (4 # n # data) acc ops"
  "parsed data (acc @ [Sub n]) ops \<Longrightarrow> parsed (44 # n # data) acc ops"
  "parsed data (acc @ [Xor n]) ops \<Longrightarrow> parsed (52 # n # data) acc ops"
  using parsed_step [where p = "[144]" and os = "[]"]
    parsed_step [where p = "[4, n]" and os = "[Add n]"]
    parsed_step [where p = "[44, n]" and os = "[Sub n]"]
    parsed_step [where p = "[52, n]" and os = "[Xor n]"]
  by (simp_all add: encodes.intros)

lemma parsed_forms:
  "parsed data (acc @ [Rol (ucast n)]) ops \<Longrightarrow> parsed (192 # 0xC0 # n # data) acc ops"
  "parsed data (acc @ [Ror (ucast n)]) ops \<Longrightarrow> parsed (192 # 0xC8 # n # data) acc ops"
  "parsed data (acc @ [Inc]) ops \<Longrightarrow> parsed (254 # 0xC0 # data) acc ops"
  "parsed data (acc @ [Dec]) ops \<Longrightarrow> parsed (254 # 0xC8 # data) acc ops"
  using parsed_step [where p = "[192, 0xC0, n]" and os = "[Rol (ucast n)]"]
    parsed_step [where p = "[192, 0xC8, n]" and os = "[Ror (ucast n)]"]
    parsed_step [where p = "[254, 0xC0]" and os = "[Inc]"]
    parsed_step [where p = "[254, 0xC8]" and os = "[Dec]"]
  by (simp_all add: encodes.intros)

lemma parsed_modrm:
  "modrm_ok mb \<Longrightarrow> modrm_reg mb = 0 \<Longrightarrow> parsed data (acc @ [Rol (ucast n)]) ops \<Longrightarrow>
     parsed (192 # mb # n # data) acc ops"
  "modrm_ok mb \<Longrightarrow> modrm_reg mb = 1 \<Longrightarrow> parsed data (acc @ [Ror (ucast n)]) ops \<Longrightarrow>
     parsed (192 # mb # n # data) acc ops"
  "modrm_ok mb \<Longrightarrow> modrm_reg mb = 0 \<Longrightarrow> parsed data (acc @ [Inc]) ops \<Longrightarrow>
     parsed (254 # mb # data) acc ops"
  "modrm_ok mb \<Longrightarrow> modrm_reg mb = 1 \<Longrightarrow> parsed data (acc @ [Dec]) ops \<Longrightarrow>
     parsed (254 # mb # data) acc ops"
  by (metis parsed_forms modrm_0D modrm_1D)+

lemma parsed_stop: "parsed (195 # rest) ops ops"
  unfolding parsed_def by (rule exI [of _ "[]"]) (auto intro: encodes.intros)

lemma gen_ops_sound: "gen_ops data acc = Some ops \<Longrightarrow> parsed data acc ops"
proof (induction data acc rule: gen_ops.induct)
  case (2 b data acc)
  show ?case
    using "2.prems" "2.IH"
    by (auto split: if_splits list.splits simp: parsed_stop parsed_plain intro: parsed_modrm)
qed simp

section \<open>Properties\<close>

text \<open>The compiler accepts exactly the encodings: it returns \<open>ops\<close> if and only if the bytes at the
  offset are some encoding of \<open>ops\<close>, no-ops included, followed by the return byte 195; on every
  other input it returns \<open>None\<close>, and it never reads out of range.\<close>

theorem generate_iff:
  "generate data offset = Some ops \<longleftrightarrow>
     (\<exists>code rest. drop (unat offset) data = code @ 195 # rest \<and> encodes code ops)"
proof
  assume "generate data offset = Some ops"
  then have "parsed (drop (unat offset) data) [] ops"
    unfolding generate_def by (rule gen_ops_sound)
  then show "\<exists>code rest. drop (unat offset) data = code @ 195 # rest \<and> encodes code ops"
    by (auto simp: parsed_def)
next
  assume "\<exists>code rest. drop (unat offset) data = code @ 195 # rest \<and> encodes code ops"
  then show "generate data offset = Some ops"
    by (auto simp: generate_def gen_ops_complete)
qed

text \<open>Translating a region through the precomputed table is interpreting the program on every byte
  of the region and on no other byte; the only failure is a region outside the buffer.\<close>

theorem map_region_interprets:
  "map_region (lut_new ops) d off n =
     (if off + n \<le> length d
      then Ok (take off d @ map (apply_ops ops) (window d off n) @ drop (off + n) d)
      else Panic)"
  by (simp add: map_region_eq patch_def length_window)

text \<open>No program loses information: running the reversed program of inverse operations over the
  region restores the buffer.\<close>

theorem map_region_roundtrip:
  assumes "map_region (lut_new ops) d off n = Ok d'"
  shows "map_region (lut_new (map inv_op (rev ops))) d' off n = Ok d"
proof -
  let ?enc = "map (apply_ops ops) (window d off n)"
  from assms have b: "off + n \<le> length d" and d': "d' = patch d off ?enc"
    by (auto simp: map_region_eq split: if_splits)
  have "map (apply_ops (map inv_op (rev ops))) ?enc = window d off n"
    by (simp add: apply_ops_inverse o_def)
  then show ?thesis
    using b by (simp add: map_region_eq d' ranges patch_twice patch_window)
qed

theorem map_region_roundtrip_witness:
  "map_region (lut_new [Add 3, Rol 1]) [1, 2, 3 :: u8] 1 2 \<noteq> (Panic :: (bytes, unit) res) \<and>
   (\<exists>d'. map_region (lut_new [Add 3, Rol 1]) [1, 2, 3 :: u8] 1 2 = (Ok d' :: (bytes, unit) res) \<and>
     map_region (lut_new (map inv_op (rev [Add 3, Rol 1]))) d' 1 2
       = (Ok [1, 2, 3] :: (bytes, unit) res))"
proof -
  obtain d' where d': "map_region (lut_new [Add 3, Rol 1]) [1, 2, 3 :: u8] 1 2
      = (Ok d' :: (bytes, unit) res)"
    by (simp add: map_region_eq)
  from map_region_roundtrip [OF this] d' show ?thesis by auto
qed

end
