(* ===== verification/ByteMachine.thy ===== *)
theory ByteMachine
  imports Bytecode
begin

unbundle bit_operations_syntax

text \<open>The byte programs are x86 machine code on the register \<open>al\<close>. Here the instructions are executed as the processor manual
  describes them, on numbers below 256, and the compiler with its lookup table is proved to do what the machine does.\<close>

section \<open>The machine\<close>

text \<open>Rotation by one bit; the processor takes a rotation count modulo 32.\<close>

definition rol1 :: "nat \<Rightarrow> nat" where "rol1 al = (2 * al + al div 128) mod 256"
definition ror1 :: "nat \<Rightarrow> nat" where "ror1 al = al div 2 + 128 * (al mod 2)"

text \<open>Fetch and execute until \<open>ret\<close> (\<^verbatim>\<open>0xC3\<close>): \<open>add\<close>, \<open>sub\<close>, \<open>xor\<close> with an immediate, \<open>nop\<close>, \<open>rol\<close> and \<open>ror\<close> by an immediate,
  \<open>inc\<close> and \<open>dec\<close>. Any other instruction, or the end of the code, is a fault.\<close>

fun run_code :: "bytes \<Rightarrow> nat \<Rightarrow> nat option" where
  "run_code [] al = None"
| "run_code (b # code) al =
     (if b = 0x04 then (case code of [] \<Rightarrow> None | n # rest \<Rightarrow> run_code rest ((al + unat n) mod 256))
      else if b = 0x2C then (case code of [] \<Rightarrow> None | n # rest \<Rightarrow> run_code rest ((al + 256 - unat n) mod 256))
      else if b = 0x34 then (case code of [] \<Rightarrow> None | n # rest \<Rightarrow> run_code rest (al XOR unat n))
      else if b = 0x90 then run_code code al
      else if b = 0xC0 then (case code of [] \<Rightarrow> None | modrm # rest \<Rightarrow> (case rest of [] \<Rightarrow> None | n # rest' \<Rightarrow>
        if modrm = 0xC0 then run_code rest' ((rol1 ^^ (unat n mod 32)) al)
        else if modrm = 0xC8 then run_code rest' ((ror1 ^^ (unat n mod 32)) al)
        else None))
      else if b = 0xFE then (case code of [] \<Rightarrow> None | modrm # rest \<Rightarrow>
        if modrm = 0xC0 then run_code rest ((al + 1) mod 256)
        else if modrm = 0xC8 then run_code rest ((al + 255) mod 256)
        else None)
      else if b = 0xC3 then Some al
      else None)"

section \<open>Each operation is its instruction\<close>

lemma rol1_word: "unat (word_rotl 1 x) = rol1 (unat x)" for x :: u8
proof -
  have "list_all (\<lambda>k. unat (word_rotl 1 (word_of_nat k :: u8)) = rol1 k) [0..<256]" by code_simp
  then have "\<forall>k\<in>set [0..<256]. unat (word_rotl 1 (word_of_nat k :: u8)) = rol1 k" by (simp only: list_all_iff)
  moreover have "unat x \<in> set [0..<256]" using unat_bound [of x] by simp
  ultimately have "unat (word_rotl 1 (word_of_nat (unat x) :: u8)) = rol1 (unat x)" by (rule bspec)
  then show ?thesis by simp
qed

lemma ror1_rol1: "al < 256 \<Longrightarrow> ror1 (rol1 al) = al"
proof -
  assume "al < 256"
  then obtain q r where al: "al = 128 * q + r" "q < 2" "r < 128"
    using that [of "al div 128" "al mod 128"] by simp
  then have "rol1 al = (256 * q + (2 * r + q)) mod 256" by (simp add: rol1_def algebra_simps)
  also have "\<dots> = (2 * r + q) mod 256" by (simp only: mod_mult_self4)
  also have "\<dots> = 2 * r + q" using al by simp
  finally show ?thesis using al by (simp add: ror1_def)
qed

lemma ror1_word: "unat (word_rotr 1 x) = ror1 (unat x)" for x :: u8
proof -
  have "unat x = rol1 (unat (word_rotr 1 x))" using rol1_word [of "word_rotr 1 x"] by simp
  then show ?thesis using ror1_rol1 [of "unat (word_rotr 1 x)"] unat_bound [of "word_rotr 1 x"] by simp
qed

lemma word_rotr_add: "word_rotr (m + n) x = word_rotr m (word_rotr n x)" for x :: u8
  using word_rotr_word_rotr_eq [of m n x] by simp

lemma word_rotl_add: "word_rotl (m + n) x = word_rotl m (word_rotl n x)" for x :: u8
proof -
  have "word_rotr (n + m) (word_rotl m (word_rotl n x)) = x" by (simp only: word_rotr_add word_rot_lr)
  then have "word_rotl (n + m) x = word_rotl m (word_rotl n x)" by (metis word_rot_rl)
  then show ?thesis by (simp only: add.commute)
qed

lemma word_rot_none: "word_rotl 0 x = x" "word_rotr 0 x = x" for x :: u8
  by (rule bit_word_eqI, simp add: bit_word_rotl_iff bit_word_rotr_iff)+

lemma rol_word: "unat (word_rotl k x) = (rol1 ^^ k) (unat x)" for x :: u8
proof (induction k)
  case (Suc k)
  have "word_rotl (Suc k) x = word_rotl 1 (word_rotl k x)" using word_rotl_add [of 1 k x] by simp
  then show ?case using rol1_word [of "word_rotl k x"] Suc by simp
qed (simp add: word_rot_none)

lemma ror_word: "unat (word_rotr k x) = (ror1 ^^ k) (unat x)" for x :: u8
proof (induction k)
  case (Suc k)
  have "word_rotr (Suc k) x = word_rotr 1 (word_rotr k x)" using word_rotr_add [of 1 k x] by simp
  then show ?case using ror1_word [of "word_rotr k x"] Suc by simp
qed (simp add: word_rot_none)

text \<open>The code masks the count to three bits, the processor to five.\<close>

lemma rot_mod: "word_rotl (k mod 8) x = word_rotl (k mod 32) x" "word_rotr (k mod 8) x = word_rotr (k mod 32) x" for x :: u8
proof -
  have m: "k mod 8 mod LENGTH(8) = k mod 32 mod LENGTH(8)" by (simp add: mod_mod_cancel)
  show "word_rotr (k mod 8) x = word_rotr (k mod 32) x" using m by transfer (simp only:)
  show "word_rotl (k mod 8) x = word_rotl (k mod 32) x" using m by transfer (simp only:)
qed

lemma imm_count: "unat ((ucast n :: u32) AND 7) = unat n mod 8" for n :: u8
proof -
  have "(ucast n :: u32) AND 7 = take_bit 3 (ucast n)" by (simp add: take_bit_eq_mask mask_eq_exp_minus_1)
  moreover have "unat (ucast n :: u32) = unat n"
  proof -
    have "unat n < 2 ^ 32" by (rule less_le_trans [OF unsigned_less [of n]]) simp
    then show ?thesis by (simp add: unsigned_ucast_eq take_bit_nat_eq_self)
  qed
  ultimately have "unat ((ucast n :: u32) AND 7) = take_bit 3 (unat n)" by (simp only: unsigned_take_bit_eq)
  then show ?thesis by (simp only: take_bit_eq_mod) simp
qed

lemma sub_step: "(unat x + 256 - unat n) mod 256 = unat (x - n)" for x n :: u8
proof (cases "n \<le> x")
  case True
  then have "unat x + 256 - unat n = unat x - unat n + 256" by (simp add: word_le_nat_alt)
  moreover have "unat x - unat n < 256" using less_imp_diff_less [OF unsigned_less [of x]] by simp
  moreover have "unat (x - n) = unat x - unat n" using True by (simp add: unat_sub)
  ultimately show ?thesis by (simp only: mod_add_self2 mod_less)
next
  case False
  then have "unat x + 256 - unat n < 256" by (simp add: word_le_nat_alt)
  moreover have "unat (x - n) = unat x + 256 - unat n" using False by (simp add: unat_sub_if' word_le_nat_alt)
  ultimately show ?thesis by (simp only: mod_less)
qed

lemma op_steps:
  fixes x n :: u8
  shows "(unat x + unat n) mod 256 = unat (apply_op (Add n) x)"
    and "(unat x + 256 - unat n) mod 256 = unat (apply_op (Sub n) x)"
    and "unat x XOR unat n = unat (apply_op (Xor n) x)"
    and "(rol1 ^^ (unat n mod 32)) (unat x) = unat (apply_op (Rol (ucast n)) x)"
    and "(ror1 ^^ (unat n mod 32)) (unat x) = unat (apply_op (Ror (ucast n)) x)"
    and "Suc (unat x) mod 256 = unat (apply_op Inc x)"
    and "(unat x + 255) mod 256 = unat (apply_op Dec x)"
proof -
  show "(unat x + unat n) mod 256 = unat (apply_op (Add n) x)" by (simp add: unat_word_ariths)
  show "(unat x + 256 - unat n) mod 256 = unat (apply_op (Sub n) x)"
    by (simp only: sub_step apply_op.simps)
  show "unat x XOR unat n = unat (apply_op (Xor n) x)" by (simp add: unsigned_xor_eq)
  show "(rol1 ^^ (unat n mod 32)) (unat x) = unat (apply_op (Rol (ucast n)) x)"
    by (simp only: apply_op.simps imm_count rot_mod rol_word)
  show "(ror1 ^^ (unat n mod 32)) (unat x) = unat (apply_op (Ror (ucast n)) x)"
    by (simp only: apply_op.simps imm_count rot_mod ror_word)
  show "Suc (unat x) mod 256 = unat (apply_op Inc x)" by (simp add: unat_word_ariths)
  show "(unat x + 255) mod 256 = unat (apply_op Dec x)"
    using sub_step [of x 1] by (simp add: add.commute)
qed

section \<open>The compiled program is the machine code\<close>

definition compiled_for :: "bytes \<Rightarrow> op list \<Rightarrow> bool" where
  "compiled_for code acc \<longleftrightarrow>
     (case gen_ops code acc of
        None \<Rightarrow> \<forall>x. run_code code (unat (x :: u8)) = None
      | Some ops \<Rightarrow> \<exists>new. ops = acc @ new \<and> (\<forall>x. run_code code (unat x) = Some (unat (apply_ops new x))))"

text \<open>One more instruction in front: the compiler appends its operation, the machine executes it.\<close>

lemma compiled_step:
  assumes "compiled_for code (acc @ [op])"
    and "gen_ops code' acc = gen_ops code (acc @ [op])"
    and "\<And>x. run_code code' (unat x) = run_code code (unat (apply_op op x))"
  shows "compiled_for code' acc"
  using assms unfolding compiled_for_def by (auto split: option.splits)

lemma compiled_fault:
  assumes "gen_ops code acc = None" and "\<And>x :: u8. run_code code (unat x) = None"
  shows "compiled_for code acc"
  using assms by (simp add: compiled_for_def)

lemma modrm_forms: "mb \<noteq> 0xC0 \<Longrightarrow> mb \<noteq> 0xC8 \<Longrightarrow> modrm_ok mb \<Longrightarrow> modrm_reg mb \<noteq> 0 \<and> modrm_reg mb \<noteq> 1"
  "modrm_ok 0xC0" "modrm_reg 0xC0 = 0" "modrm_ok 0xC8" "modrm_reg 0xC8 = 1"
  using modrm_0 [of mb] modrm_1 [of mb] modrm_0 [of "0xC0"] modrm_1 [of "0xC8"] by auto

lemma compiled: "compiled_for code acc"
proof (induction code acc rule: gen_ops.induct)
  case (1 ops)
  show ?case by (rule compiled_fault) simp_all
next
  case (2 b rest ops)
  consider (imm) "b = 0x04 \<or> b = 0x2C \<or> b = 0x34" | (nop) "b = 0x90" | (rot) "b = 0xC0" | (unary) "b = 0xFE"
    | (ret) "b = 0xC3" | (other) "b \<notin> {0x04, 0x2C, 0x34, 0x90, 0xC0, 0xFE, 0xC3}"
    by blast
  then show ?case
  proof cases
    case imm
    show ?thesis
    proof (cases rest)
      case Nil then show ?thesis using imm by (intro compiled_fault) auto
    next
      case (Cons n rest')
      from imm show ?thesis
      proof (elim disjE)
        assume b: "b = 0x04"
        show ?thesis by (rule compiled_step [where op = "Add n" and code = rest'])
            (use b Cons "2.IH"(1) in \<open>simp_all add: op_steps(1)\<close>)
      next
        assume b: "b = 0x2C"
        show ?thesis by (rule compiled_step [where op = "Sub n" and code = rest'])
            (use b Cons "2.IH"(2) in \<open>simp_all add: op_steps(2)\<close>)
      next
        assume b: "b = 0x34"
        show ?thesis by (rule compiled_step [where op = "Xor n" and code = rest'])
            (use b Cons "2.IH"(3) in \<open>simp_all add: op_steps(3)\<close>)
      qed
    qed
  next
    case nop
    then show ?thesis using "2.IH"(4) by (auto simp: compiled_for_def split: option.splits)
  next
    case rot
    show ?thesis
    proof (cases "\<exists>mb n code. rest = mb # n # code \<and> (mb = 0xC0 \<or> mb = 0xC8)")
      case True
      then obtain mb n code where r: "rest = mb # n # code" and "mb = 0xC0 \<or> mb = 0xC8" by blast
      then show ?thesis
      proof (elim disjE)
        assume mb: "mb = 0xC0"
        show ?thesis by (rule compiled_step [where op = "Rol (ucast n)" and code = code])
            (use rot r mb "2.IH"(5) in \<open>simp_all add: modrm_forms op_steps(4) del: apply_op.simps\<close>)
      next
        assume mb: "mb = 0xC8"
        show ?thesis by (rule compiled_step [where op = "Ror (ucast n)" and code = code])
            (use rot r mb "2.IH"(6) in \<open>simp_all add: modrm_forms op_steps(5) del: apply_op.simps\<close>)
      qed
    next
      case False
      with rot show ?thesis by (intro compiled_fault) (auto simp: modrm_forms(1) split: list.splits)
    qed
  next
    case unary
    show ?thesis
    proof (cases "\<exists>mb code. rest = mb # code \<and> (mb = 0xC0 \<or> mb = 0xC8)")
      case True
      then obtain mb code where r: "rest = mb # code" and "mb = 0xC0 \<or> mb = 0xC8" by blast
      then show ?thesis
      proof (elim disjE)
        assume mb: "mb = 0xC0"
        show ?thesis by (rule compiled_step [where op = Inc and code = code])
            (use unary r mb "2.IH"(7) in \<open>simp_all add: modrm_forms op_steps(6) del: apply_op.simps\<close>)
      next
        assume mb: "mb = 0xC8"
        show ?thesis by (rule compiled_step [where op = Dec and code = code])
            (use unary r mb "2.IH"(8) in \<open>simp_all add: modrm_forms op_steps(7) del: apply_op.simps\<close>)
      qed
    next
      case False
      with unary show ?thesis by (intro compiled_fault) (auto simp: modrm_forms(1) split: list.splits)
    qed
  next
    case ret
    then show ?thesis by (simp add: compiled_for_def)
  next
    case other
    then show ?thesis by (intro compiled_fault) auto
  qed
qed

section \<open>Properties\<close>

text \<open>C12. Compiling a stage's byte program and running the table over a region is executing the program's machine code on every byte of the region,
  and on no other byte: where the compiler accepts, the machine runs to its \<open>ret\<close> on every byte and the bytes it leaves are the new region, or
  the region does not lie in the buffer and nothing is translated; where the compiler refuses, the machine faults on every byte.\<close>

theorem compiled_region_executes:
  "case generate data pc of
     None \<Rightarrow> run_code (drop (unat pc) data) (unat (b :: u8)) = None
   | Some ops \<Rightarrow>
       if off + n \<le> length d
       then \<exists>region. map (\<lambda>x. run_code (drop (unat pc) data) (unat x)) (window d off n) = map (\<lambda>y. Some (unat y)) region \<and>
              map_region (lut_new ops) d off n = Ok (take off d @ region @ drop (off + n) d)
       else map_region (lut_new ops) d off n = Panic"
proof -
  have c: "compiled_for (drop (unat pc) data) []" by (rule compiled)
  show ?thesis
  proof (cases "generate data pc")
    case None
    with c show ?thesis by (simp add: generate_def compiled_for_def)
  next
    case (Some ops)
    with c have "\<And>x. run_code (drop (unat pc) data) (unat x) = Some (unat (apply_ops ops x))"
      by (simp add: generate_def compiled_for_def)
    with Some show ?thesis
      by (auto simp: map_region_interprets intro: exI [of _ "map (apply_ops ops) (window d off n)"])
  qed
qed

end
