(* ===== verification/AesTables.thy ===== *)
theory AesTables
  imports Prelude
begin

unbundle bit_operations_syntax

text \<open>
  \<^verbatim>\<open>senbei-crypto/src/windows/tables.rs\<close>: the AES decryption tables, generated from GF(2^8)
  arithmetic at compile time. \<open>gf_mul\<close> is proved to be the multiplication of a commutative ring with
  unit in which every nonzero byte has an inverse; the derived S-box is proved equal to the published
  one, the inverse S-box to invert it, and the four T-tables to hold the InvMixColumns columns.
\<close>

section \<open>GF(2^8) multiplication\<close>

fun gf_loop :: "nat \<Rightarrow> u8 \<Rightarrow> u8 \<Rightarrow> u8 \<Rightarrow> u8" where
  "gf_loop 0 a b p = p"
| "gf_loop (Suc i) a b p =
     (let p' = (if b AND 1 \<noteq> 0 then p XOR a else p);
          hi = a AND 0x80;
          a' = push_bit 1 a;
          a'' = (if hi \<noteq> 0 then a' XOR 0x1B else a')
      in gf_loop i a'' (drop_bit 1 b) p')"

definition gf_mul :: "u8 \<Rightarrow> u8 \<Rightarrow> u8" where
  "gf_mul a b = gf_loop 8 a b 0"

section \<open>The S-box and its inverse\<close>

text \<open>The inner search loop stops at the first \<open>b\<close> with \<open>a * b = 1\<close>; entry 0 is never written.\<close>

definition gf_inv :: "u8 \<Rightarrow> u8" where
  "gf_inv a =
     (if a = 0 then 0
      else case find (\<lambda>b. gf_mul a b = 1) (map word_of_nat [1..<256]) of None \<Rightarrow> 0 | Some b \<Rightarrow> b)"

fun affine_loop :: "nat \<Rightarrow> u8 \<Rightarrow> u8 \<Rightarrow> u8" where
  "affine_loop 0 x s = x"
| "affine_loop (Suc r) x s = (let s' = word_rotl 1 s in affine_loop r (x XOR s') s')"

definition sub_byte :: "u8 \<Rightarrow> u8" where
  "sub_byte i = affine_loop 4 (gf_inv i) (gf_inv i) XOR 0x63"

definition inv_sbox :: "u8 list" where
  "inv_sbox =
     fold (\<lambda>i isb. isb[unat (sub_byte (word_of_nat i)) := word_of_nat i]) [0..<256]
       (replicate 256 0)"

section \<open>The five tables\<close>

record aes_tables =
  cm1 :: bytes
  cm2 :: bytes
  cm3 :: bytes
  cm4 :: bytes
  sbox :: bytes

definition cm_bytes :: "u8 \<Rightarrow> bytes" where
  "cm_bytes s = [gf_mul 0x0b s, gf_mul 0x0d s, gf_mul 0x09 s, gf_mul 0x0e s]"

definition cm_table :: "nat \<Rightarrow> bytes" where
  "cm_table r =
     concat (map (\<lambda>x. let b = cm_bytes (inv_sbox ! x) in map (\<lambda>j. b ! ((j + r) mod 4)) [0..<4]) [0..<256])"

definition build_tables :: aes_tables where
  "build_tables =
     \<lparr>cm1 = cm_table 0, cm2 = cm_table 1, cm3 = cm_table 2, cm4 = cm_table 3,
      sbox = concat (map (\<lambda>x. map (\<lambda>j. inv_sbox ! x) [0..<4]) [0..<256])\<rparr>"

section \<open>The ring laws\<close>

definition xtime :: "u8 \<Rightarrow> u8" where
  "xtime a = (if bit a 7 then push_bit 1 a XOR 0x1B else push_bit 1 a)"

lemma and_128: "(a AND 0x80 :: u8) \<noteq> 0 \<longleftrightarrow> bit a 7"
proof -
  have "(0x80 :: u8) = 2 ^ 7" by simp
  then show ?thesis by (metis and_exp_eq_0_iff_not_bit)
qed

lemma gf_loop_Suc:
  "gf_loop (Suc i) a b p = gf_loop i (xtime a) (drop_bit 1 b) (if odd b then p XOR a else p)"
  by (simp add: and_128 xtime_def and_one_eq odd_iff_mod_2_eq_one Let_def)

declare gf_loop.simps(2) [simp del]

lemma xtime_xor: "xtime (a XOR b) = xtime a XOR xtime b"
  by (simp only: xtime_def push_bit_xor bit_xor_iff)
    (auto simp: xor.assoc xor.commute xor.left_commute simp del: push_bit_numeral)

lemma gf_loop_xor_left:
  "gf_loop n (a XOR a') b (p XOR p') = gf_loop n a b p XOR gf_loop n a' b p'"
proof (induction n arbitrary: a a' b p p')
  case (Suc n)
  show ?case
    using Suc.IH [of "xtime a" "xtime a'" "drop_bit 1 b" "p XOR a" "p' XOR a'"]
      Suc.IH [of "xtime a" "xtime a'" "drop_bit 1 b" p p']
    by (simp add: gf_loop_Suc xtime_xor ac_simps xor.left_commute)
qed simp

lemma gf_loop_xor_right:
  "gf_loop n a (b XOR b') (p XOR p') = gf_loop n a b p XOR gf_loop n a b' p'"
proof (induction n arbitrary: a b b' p p')
  case (Suc n)
  have "gf_loop n (xtime a) (drop_bit 1 b XOR drop_bit 1 b') (q XOR q')
      = gf_loop n (xtime a) (drop_bit 1 b) q XOR gf_loop n (xtime a) (drop_bit 1 b') q'" for q q'
    by (rule Suc.IH)
  from this [of "if odd b then p XOR a else p" "if odd b' then p' XOR a else p'"]
  show ?case
    by (simp add: gf_loop_Suc drop_bit_xor even_xor_iff ac_simps xor.left_commute split: if_splits)
qed simp

lemma gf_mul_xor_left: "gf_mul (a XOR a') b = gf_mul a b XOR gf_mul a' b"
  using gf_loop_xor_left [of 8 a a' b 0 0] by (simp add: gf_mul_def)

lemma gf_mul_xor_right: "gf_mul a (b XOR b') = gf_mul a b XOR gf_mul a b'"
  using gf_loop_xor_right [of 8 a b b' 0 0] by (simp add: gf_mul_def)

lemma gf_loop_xtime: "gf_loop n (xtime a) b (xtime p) = xtime (gf_loop n a b p)"
  by (induction n arbitrary: a b p) (simp_all add: gf_loop_Suc flip: xtime_xor)

lemma gf_mul_xtime: "gf_mul (xtime a) b = xtime (gf_mul a b)"
proof -
  have "xtime 0 = 0" by (simp add: xtime_def)
  then show ?thesis using gf_loop_xtime [of 8 a b 0] by (simp add: gf_mul_def)
qed

lemma gf_mul_xtimes: "gf_mul ((xtime ^^ n) a) b = (xtime ^^ n) (gf_mul a b)"
  by (induction n) (simp_all add: gf_mul_xtime)

text \<open>A byte is the sum of its bits, so two linear maps that agree on the eight powers of \<open>x\<close> agree.\<close>

lemma byte_bits:
  "(a :: u8) = (if bit a 0 then 1 else 0) XOR (if bit a 1 then 2 else 0) XOR
     (if bit a 2 then 4 else 0) XOR (if bit a 3 then 8 else 0) XOR (if bit a 4 then 16 else 0) XOR
     (if bit a 5 then 32 else 0) XOR (if bit a 6 then 64 else 0) XOR (if bit a 7 then 128 else 0)"
    (is "_ = ?rhs")
proof (rule bit_word_eqI)
  fix i assume "i < LENGTH(8)"
  then have "i = 0 \<or> i = 1 \<or> i = 2 \<or> i = 3 \<or> i = 4 \<or> i = 5 \<or> i = 6 \<or> i = 7" by fastforce
  then show "bit a i \<longleftrightarrow> bit ?rhs i"
    by (elim disjE) (simp_all add: bit_xor_iff if_distrib [of "\<lambda>w. bit w _"] cong: if_cong)
qed

lemma linear_ext:
  fixes f g :: "u8 \<Rightarrow> u8"
  assumes f: "\<And>x y. f (x XOR y) = f x XOR f y" and g: "\<And>x y. g (x XOR y) = g x XOR g y"
    and eq: "\<And>i. i < 8 \<Longrightarrow> f ((xtime ^^ i) 1) = g ((xtime ^^ i) 1)"
  shows "f a = g a"
proof -
  have f0: "f 0 = 0" using f [of 0 0] by simp
  have g0: "g 0 = 0" using g [of 0 0] by simp
  have x: "xtime 1 = 2" "xtime 2 = 4" "xtime 4 = 8" "xtime 8 = 16" "xtime 16 = 32"
    "xtime 32 = 64" "xtime 64 = 128"
    by (simp_all add: xtime_def)
  have e: "f 1 = g 1" "f 2 = g 2" "f 4 = g 4" "f 8 = g 8" "f 16 = g 16" "f 32 = g 32"
    "f 64 = g 64" "f 128 = g 128"
    using eq [of 0] eq [of 1] eq [of 2] eq [of 3] eq [of 4] eq [of 5] eq [of 6] eq [of 7]
    by (simp_all add: eval_nat_numeral x)
  define c where "c i v = (if bit a i then v else 0 :: u8)" for i v
  have a: "a = c 0 1 XOR c 1 2 XOR c 2 4 XOR c 3 8 XOR c 4 16 XOR c 5 32 XOR c 6 64 XOR c 7 128"
    unfolding c_def by (rule byte_bits)
  have fc: "f v = g v \<Longrightarrow> f (c i v) = g (c i v)" for i v
    by (simp add: c_def f0 g0)
  have "f (c 0 1 XOR c 1 2 XOR c 2 4 XOR c 3 8 XOR c 4 16 XOR c 5 32 XOR c 6 64 XOR c 7 128)
      = g (c 0 1 XOR c 1 2 XOR c 2 4 XOR c 3 8 XOR c 4 16 XOR c 5 32 XOR c 6 64 XOR c 7 128)"
    by (simp only: f g fc e)
  then show ?thesis by (simp only: a [symmetric])
qed

lemma gf_mul_1_right: "gf_mul a 1 = a"
proof -
  have z: "gf_loop n x 0 p = p" for n x p
    by (induction n arbitrary: x) (simp_all add: gf_loop_Suc)
  have "gf_loop (Suc 7) a 1 0 = a"
    by (simp only: gf_loop_Suc) (simp add: z)
  then show ?thesis by (simp add: gf_mul_def)
qed

lemma gf_loop_0_right: "gf_loop n x 0 p = p"
  by (induction n arbitrary: x) (simp_all add: gf_loop_Suc)

lemma gf_loop_exp: "j < 8 \<Longrightarrow> gf_loop (Suc (j + k)) a (2 ^ j) 0 = (xtime ^^ j) a"
proof (induction j arbitrary: a)
  case 0
  then show ?case by (simp add: gf_loop_Suc gf_loop_0_right)
next
  case (Suc j)
  have "drop_bit 1 (2 ^ Suc j :: u8) = 2 ^ j"
    using Suc.prems by (intro bit_word_eqI) (auto simp: bit_simps)
  moreover have "even (2 ^ Suc j :: u8)" by simp
  ultimately have "gf_loop (Suc (Suc j + k)) a (2 ^ Suc j) 0 = gf_loop (Suc (j + k)) (xtime a) (2 ^ j) 0"
    by (simp add: gf_loop_Suc del: power_Suc)
  with Suc show ?case by (simp add: funpow_swap1)
qed

lemma xtime_exp: "j < 8 \<Longrightarrow> (xtime ^^ j) 1 = 2 ^ j"
proof (induction j)
  case (Suc j)
  then have "\<not> bit (2 ^ j :: u8) 7" by (simp add: bit_simps)
  with Suc show ?case by (simp add: xtime_def)
qed simp

lemma gf_mul_basis: "i < 8 \<Longrightarrow> gf_mul a ((xtime ^^ i) 1) = (xtime ^^ i) a"
  using gf_loop_exp [of i "7 - i" a] by (simp add: xtime_exp gf_mul_def)

lemma gf_mul_1_left: "gf_mul 1 a = a"
  by (rule linear_ext [of "gf_mul 1" "\<lambda>x. x"]) (simp_all add: gf_mul_xor_right gf_mul_basis)

lemma gf_mul_comm: "gf_mul a b = gf_mul b a"
  by (rule linear_ext [of "gf_mul a" "\<lambda>b. gf_mul b a"])
    (simp_all add: gf_mul_xor_right gf_mul_xor_left gf_mul_basis gf_mul_xtimes gf_mul_1_left)

lemma gf_mul_assoc: "gf_mul (gf_mul a b) c = gf_mul a (gf_mul b c)"
  by (rule linear_ext [of "\<lambda>a. gf_mul (gf_mul a b) c" "\<lambda>a. gf_mul a (gf_mul b c)"])
    (simp_all add: gf_mul_xor_left gf_mul_xtimes gf_mul_1_left)

section \<open>Every nonzero byte has an inverse\<close>

text \<open>For evaluation the loop is run on integers, where the kernel's arithmetic is fast.\<close>

fun gf_int :: "nat \<Rightarrow> int \<Rightarrow> int \<Rightarrow> int \<Rightarrow> int" where
  "gf_int 0 a b p = p"
| "gf_int (Suc n) a b p =
     gf_int n (if a < 128 then 2 * a else (2 * a) XOR 283) (b div 2) (if even b then p else p XOR a)"

declare gf_int.simps(2) [simp del]

lemma gf_int_numeral:
  "gf_int (numeral n) a b p =
     gf_int (pred_numeral n) (if a < 128 then 2 * a else (2 * a) XOR 283) (b div 2)
       (if even b then p else p XOR a)"
  by (simp add: numeral_eq_Suc gf_int.simps(2))

lemmas gf_int_eval = gf_int_numeral gf_int.simps(2)

lemma bit_7_uint: "bit (a :: u8) 7 \<longleftrightarrow> 128 \<le> uint a"
proof -
  have "bit a 7 \<longleftrightarrow> bit (uint a) 7" by (simp add: bit_unsigned_iff)
  also have "\<dots> \<longleftrightarrow> odd (uint a div 128)" by (simp add: bit_iff_odd)
  also have "\<dots> \<longleftrightarrow> 128 \<le> uint a"
  proof -
    have "uint a < 256" using uint_lt2p [of a] by simp
    then have "uint a div 128 = (if 128 \<le> uint a then 1 else 0)"
      by (auto simp: div_pos_pos_trivial zdiv_eq_0_iff intro!: div_pos_pos_trivial)
    then show ?thesis by simp
  qed
  finally show ?thesis .
qed

lemma uint_double:
  "uint (if bit a 7 then push_bit 1 a XOR c else push_bit 1 a :: u8) =
     (if uint a < 128 then 2 * uint a else (2 * uint a) XOR (256 XOR uint c))"
proof -
  let ?u = "uint a" let ?x = "(2 * uint a) XOR (256 XOR uint c)"
  have u: "0 \<le> ?u" "?u < 256" "0 \<le> uint c" "uint c < 256"
    using uint_lt2p [of a] uint_lt2p [of c] by simp_all
  have p: "uint (push_bit 1 a) = take_bit 8 (2 * ?u)"
    by (simp only: unsigned_push_bit_eq) (simp add: mult.commute)
  show ?thesis
  proof (cases "?u < 128")
    case True
    then have "take_bit 8 (2 * ?u) = 2 * ?u" using u by (simp add: take_bit_int_eq_self)
    with True p show ?thesis by (simp add: bit_7_uint)
  next
    case False
    then have "(2 * ?u) div 256 = 1" using u by linarith
    then have "drop_bit 8 (2 * ?u) = 1" by (simp add: drop_bit_eq_div)
    moreover have "drop_bit 8 (uint c) = 0" using u by (simp add: drop_bit_eq_div)
    ultimately have "drop_bit 8 ?x = 0" by (simp only: drop_bit_xor) simp
    then have "?x = take_bit 8 ?x" using bits_ident [of 8 ?x] by simp
    also have "\<dots> = take_bit 8 (2 * ?u) XOR uint c"
      using u by (simp add: take_bit_xor take_bit_int_eq_self)
    also have "\<dots> = uint (push_bit 1 a XOR c)" by (simp only: unsigned_xor_eq p)
    finally show ?thesis using False by (simp add: bit_7_uint)
  qed
qed

lemma uint_xtime: "uint (xtime a) = (if uint a < 128 then 2 * uint a else (2 * uint a) XOR 283)"
  using uint_double [of a "0x1B"] by (simp add: xtime_def)

lemma even_uint: "even (uint b) \<longleftrightarrow> even b"
proof -
  have "bit (uint b) 0 \<longleftrightarrow> bit b 0" by (simp only: bit_unsigned_iff) simp
  then show ?thesis by (simp add: bit_0)
qed

lemma uint_half: "uint (drop_bit 1 b) = uint b div 2"
  by (simp only: unsigned_drop_bit_eq) (simp add: drop_bit_eq_div take_bit_int_eq_self)

lemma uint_gf_loop: "uint (gf_loop n a b p) = gf_int n (uint a) (uint b) (uint p)"
proof (induction n arbitrary: a b p)
  case (Suc n)
  show ?case
    by (simp add: gf_loop_Suc gf_int.simps(2) Suc.IH uint_xtime uint_half [simplified] even_uint
        unsigned_xor_eq)
qed simp

definition inverses :: "int list" where
  "inverses =
    [0, 1, 141, 246, 203, 82, 123, 209, 232, 79, 41, 192, 176, 225, 229, 199, 116, 180, 170, 75,
    153, 43, 96, 95, 88, 63, 253, 204, 255, 64, 238, 178, 58, 110, 90, 241, 85, 77, 168, 201,
    193, 10, 152, 21, 48, 68, 162, 194, 44, 69, 146, 108, 243, 57, 102, 66, 242, 53, 32, 111,
    119, 187, 89, 25, 29, 254, 55, 103, 45, 49, 245, 105, 167, 100, 171, 19, 84, 37, 233, 9, 237,
    92, 5, 202, 76, 36, 135, 191, 24, 62, 34, 240, 81, 236, 97, 23, 22, 94, 175, 211, 73, 166,
    54, 67, 244, 71, 145, 223, 51, 147, 33, 59, 121, 183, 151, 133, 16, 181, 186, 60, 182, 112,
    208, 6, 161, 250, 129, 130, 131, 126, 127, 128, 150, 115, 190, 86, 155, 158, 149, 217, 247,
    2, 185, 164, 222, 106, 50, 109, 216, 138, 132, 114, 42, 20, 159, 136, 249, 220, 137, 154,
    251, 124, 46, 195, 143, 184, 101, 72, 38, 200, 18, 74, 206, 231, 210, 98, 12, 224, 31, 239,
    17, 117, 120, 113, 165, 142, 118, 61, 189, 188, 134, 87, 11, 40, 47, 163, 218, 212, 228, 15,
    169, 39, 83, 4, 27, 252, 172, 230, 122, 7, 174, 99, 197, 219, 226, 234, 148, 139, 196, 213,
    157, 248, 144, 107, 177, 13, 214, 235, 198, 14, 207, 173, 8, 78, 215, 227, 93, 80, 30, 179,
    91, 35, 56, 52, 104, 70, 3, 140, 221, 156, 125, 160, 205, 26, 65, 28]"

fun inverses_from :: "int \<Rightarrow> int list \<Rightarrow> bool" where
  "inverses_from a [] \<longleftrightarrow> True"
| "inverses_from a (b # bs) \<longleftrightarrow> gf_int 8 a b 0 = 1 \<and> inverses_from (a + 1) bs"

lemma inverses_ok: "inverses_from 1 (tl inverses)"
  by (simp add: inverses_def gf_int_eval)

lemma inverses_from_nth:
  "inverses_from k bs \<Longrightarrow> i < length bs \<Longrightarrow> gf_int 8 (k + int i) (bs ! i) 0 = 1"
proof (induction bs arbitrary: k i)
  case (Cons b bs)
  show ?case
  proof (cases i)
    case (Suc j)
    with Cons.prems Cons.IH [of "k + 1" j] show ?thesis by (simp add: ac_simps)
  qed (use Cons.prems in simp)
qed simp

lemma inverses_0: "inverses ! 0 = 0"
  by (simp add: inverses_def)

lemma inverses_range: "list_all (\<lambda>b. 0 \<le> b \<and> b < 256) inverses" "length inverses = 256"
  by (simp_all add: inverses_def)

lemma gf_inverse_nth:
  assumes "a \<noteq> 0"
  shows "gf_mul a (word_of_int (inverses ! unat a)) = 1"
proof -
  obtain i where i: "unat a = Suc i" using assms by (metis not0_implies_Suc unat_eq_zero)
  then have len: "i < length (tl inverses)"
    using unat_u8_bound [of a] by (simp add: inverses_range)
  let ?b = "tl inverses ! i"
  have nth: "inverses ! unat a = ?b"
    using len by (simp add: i nth_tl)
  have "0 \<le> ?b \<and> ?b < 256"
    using inverses_range len by (auto simp: list_all_length nth_tl)
  then have u: "uint (word_of_int ?b :: u8) = ?b" by (simp add: uint_word_of_int_eq take_bit_int_eq_self)
  have "uint a = 1 + int i" using i by (simp add: uint_nat)
  then have "uint (gf_mul a (word_of_int ?b)) = 1"
    using inverses_from_nth [OF inverses_ok len] u by (simp add: gf_mul_def uint_gf_loop)
  then show ?thesis unfolding nth by (metis word_uint_eqI uint_1)
qed

lemma gf_inv_unique: "gf_mul a b = 1 \<Longrightarrow> gf_mul a c = 1 \<Longrightarrow> b = c"
  by (metis gf_mul_1_left gf_mul_assoc gf_mul_comm)

lemma gf_mul_0_left: "gf_mul 0 b = 0"
  using gf_mul_xor_left [of 0 0 b] by simp

lemma bytes_from_1: "b \<noteq> (0 :: u8) \<Longrightarrow> b \<in> set (map word_of_nat [1..<256])"
proof -
  assume "b \<noteq> 0"
  then have "unat b \<in> set [1..<256]" "b = word_of_nat (unat b)"
    by (auto simp: Suc_le_eq unat_gt_0)
  then show ?thesis by (metis imageI list.set_map)
qed

lemma gf_inv_correct: "a \<noteq> 0 \<Longrightarrow> gf_mul a (gf_inv a) = 1"
proof -
  assume a: "a \<noteq> 0"
  let ?b = "word_of_int (inverses ! unat a) :: u8"
  have b: "gf_mul a ?b = 1" by (rule gf_inverse_nth [OF a])
  then have "?b \<noteq> 0" by (metis gf_mul_0_left gf_mul_comm zero_neq_one)
  then have "?b \<in> set (map word_of_nat [1..<256])" by (rule bytes_from_1)
  with b have "find (\<lambda>b. gf_mul a b = 1) (map word_of_nat [1..<256]) \<noteq> None"
    unfolding find_None_iff by blast
  then obtain c where "find (\<lambda>b. gf_mul a b = 1) (map word_of_nat [1..<256]) = Some c" by blast
  moreover from this have "gf_mul a c = 1" by (auto simp: find_Some_iff)
  ultimately show ?thesis using a by (simp add: gf_inv_def)
qed

lemma gf_inv_nth: "gf_inv a = word_of_int (inverses ! unat a)"
proof (cases "a = 0")
  case True
  then show ?thesis by (simp add: gf_inv_def inverses_0)
next
  case False
  show ?thesis
    by (rule gf_inv_unique [OF gf_inv_correct [OF False] gf_inverse_nth [OF False]])
qed

section \<open>The S-box is the published one\<close>

definition fips_sbox :: "int list" where
  "fips_sbox =
    [99, 124, 119, 123, 242, 107, 111, 197, 48, 1, 103, 43, 254, 215, 171, 118, 202, 130, 201,
    125, 250, 89, 71, 240, 173, 212, 162, 175, 156, 164, 114, 192, 183, 253, 147, 38, 54, 63,
    247, 204, 52, 165, 229, 241, 113, 216, 49, 21, 4, 199, 35, 195, 24, 150, 5, 154, 7, 18, 128,
    226, 235, 39, 178, 117, 9, 131, 44, 26, 27, 110, 90, 160, 82, 59, 214, 179, 41, 227, 47, 132,
    83, 209, 0, 237, 32, 252, 177, 91, 106, 203, 190, 57, 74, 76, 88, 207, 208, 239, 170, 251,
    67, 77, 51, 133, 69, 249, 2, 127, 80, 60, 159, 168, 81, 163, 64, 143, 146, 157, 56, 245, 188,
    182, 218, 33, 16, 255, 243, 210, 205, 12, 19, 236, 95, 151, 68, 23, 196, 167, 126, 61, 100,
    93, 25, 115, 96, 129, 79, 220, 34, 42, 144, 136, 70, 238, 184, 20, 222, 94, 11, 219, 224, 50,
    58, 10, 73, 6, 36, 92, 194, 211, 172, 98, 145, 149, 228, 121, 231, 200, 55, 109, 141, 213,
    78, 169, 108, 86, 244, 234, 101, 122, 174, 8, 186, 120, 37, 46, 28, 166, 180, 198, 232, 221,
    116, 31, 75, 189, 139, 138, 112, 62, 181, 102, 72, 3, 246, 14, 97, 53, 87, 185, 134, 193, 29,
    158, 225, 248, 152, 17, 105, 217, 142, 148, 155, 30, 135, 233, 206, 85, 40, 223, 140, 161,
    137, 13, 191, 230, 66, 104, 65, 153, 45, 15, 176, 84, 187, 22]"


lemma rotl_1: "word_rotl 1 s = (if bit s 7 then push_bit 1 s XOR 1 else push_bit 1 s :: u8)"
proof -
  define t where "t = push_bit 1 s"
  have t: "bit t i \<longleftrightarrow> 1 \<le> i \<and> i < 8 \<and> bit s (i - 1)" for i
    unfolding t_def by (simp only: bit_push_bit_iff) auto
  have "word_rotl 1 s = (if bit s 7 then t XOR 1 else t)"
  proof (rule bit_word_eqI)
    fix i assume "i < LENGTH(8)"
    then have "i = 0 \<or> i = 1 \<or> i = 2 \<or> i = 3 \<or> i = 4 \<or> i = 5 \<or> i = 6 \<or> i = 7" by fastforce
    then show "bit (word_rotl 1 s) i \<longleftrightarrow> bit (if bit s 7 then t XOR 1 else t) i"
      by (elim disjE) (simp_all add: bit_word_rotl_iff bit_xor_iff t bit_1_iff)
  qed
  then show ?thesis by (simp only: t_def)
qed

fun affine_int :: "nat \<Rightarrow> int \<Rightarrow> int \<Rightarrow> int" where
  "affine_int 0 x s = x"
| "affine_int (Suc r) x s =
     (let s' = (if s < 128 then 2 * s else (2 * s) XOR 257) in affine_int r (x XOR s') s')"

lemma uint_affine: "uint (affine_loop r x s) = affine_int r (uint x) (uint s)"
proof (induction r arbitrary: x s)
  case (Suc r)
  have "uint (word_rotl 1 s) = (if uint s < 128 then 2 * uint s else (2 * uint s) XOR 257)"
    unfolding rotl_1 using uint_double [of s 1] by simp
  then show ?case by (simp add: Let_def Suc.IH unsigned_xor_eq)
qed simp

fun sbox_ok :: "int list \<Rightarrow> int list \<Rightarrow> bool" where
  "sbox_ok (b # bs) (s # ss) \<longleftrightarrow> affine_int 4 b b XOR 0x63 = s \<and> sbox_ok bs ss"
| "sbox_ok bs ss \<longleftrightarrow> bs = [] \<and> ss = []"

lemma affine_int_4:
  "affine_int 4 x s =
     (let s1 = (if s < 128 then 2 * s else (2 * s) XOR 257);
          s2 = (if s1 < 128 then 2 * s1 else (2 * s1) XOR 257);
          s3 = (if s2 < 128 then 2 * s2 else (2 * s2) XOR 257);
          s4 = (if s3 < 128 then 2 * s3 else (2 * s3) XOR 257)
      in (((x XOR s1) XOR s2) XOR s3) XOR s4)"
  by (simp add: numeral_eq_Suc Let_def)

lemma fips_sbox_ok: "sbox_ok inverses fips_sbox"
  by (simp add: inverses_def fips_sbox_def affine_int_4)

lemma sbox_ok_nth:
  "sbox_ok bs ss \<Longrightarrow> i < length bs \<Longrightarrow> affine_int 4 (bs ! i) (bs ! i) XOR 0x63 = ss ! i"
  by (induction bs ss arbitrary: i rule: sbox_ok.induct) (auto simp: nth_Cons split: nat.splits)

lemma inverses_nth_range: "i < 256 \<Longrightarrow> 0 \<le> inverses ! i \<and> inverses ! i < 256"
  using inverses_range by (auto simp: list_all_length)

lemma uint_sub_byte: "uint (sub_byte a) = fips_sbox ! unat a"
proof -
  let ?b = "inverses ! unat a"
  have "uint (word_of_int ?b :: u8) = ?b"
    using inverses_nth_range [of "unat a"] by (simp add: uint_word_of_int_eq take_bit_int_eq_self)
  then have "uint (sub_byte a) = affine_int 4 ?b ?b XOR 0x63"
    by (simp add: sub_byte_def unsigned_xor_eq uint_affine gf_inv_nth)
  also have "\<dots> = fips_sbox ! unat a"
    by (rule sbox_ok_nth [OF fips_sbox_ok]) (simp add: inverses_range)
  finally show ?thesis .
qed

section \<open>The inverse S-box inverts it\<close>

lemma gf_inv_inj: "gf_inv a = gf_inv b \<Longrightarrow> a = b"
proof -
  assume eq: "gf_inv a = gf_inv b"
  have i0: "gf_inv 0 = 0" by (simp add: gf_inv_def)
  have z: "gf_inv x = 0 \<longleftrightarrow> x = 0" for x
    using gf_inv_correct [of x] i0 by (metis gf_mul_0_left gf_mul_comm zero_neq_one)
  show "a = b"
  proof (cases "a = 0")
    case False
    with eq z have "b \<noteq> 0" by metis
    then show ?thesis
      using gf_inv_unique [of "gf_inv a" a b] gf_inv_correct [of a] gf_inv_correct [of b] False eq
      by (simp add: gf_mul_comm [of "gf_inv b"])
  qed (use eq z in metis)
qed

text \<open>The affine map is inverted by the sum of the rotations by 1, 3 and 6.\<close>

definition affine_inv :: "u8 \<Rightarrow> u8" where
  "affine_inv y = word_rotl 1 y XOR word_rotl 3 y XOR word_rotl 6 y"

lemma bit_rotl8: "bit (word_rotl n (x :: u8)) i \<longleftrightarrow> i < 8 \<and> bit x ((i + (8 - n mod 8)) mod 8)"
  by (simp add: bit_word_rotl_iff)
lemma rotl_rotl: "word_rotl m (word_rotl n x) = word_rotl (m + n) (x :: u8)"
proof (rule bit_word_eqI)
  fix i assume "i < LENGTH(8)"
  have "((i + (8 - m mod 8)) mod 8 + (8 - n mod 8)) mod 8 = (i + (8 - (m + n) mod 8)) mod 8"
  proof -
    define a b where "a = m mod 8" and "b = n mod 8"
    have ab: "a < 8" "b < 8" by (simp_all add: a_def b_def)
    have s: "(m + n) mod 8 = (if a + b < 8 then a + b else a + b - 8)"
    proof -
      have "(m + n) mod 8 = (a + b) mod 8" by (simp add: a_def b_def mod_add_eq)
      then show ?thesis using ab by (auto simp: mod_if)
    qed
    have "((i + (8 - a)) mod 8 + (8 - b)) mod 8 = (i + (8 - a) + (8 - b)) mod 8"
      by (simp add: mod_add_left_eq)
    also have "\<dots> = (i + (8 - (if a + b < 8 then a + b else a + b - 8))) mod 8"
    proof (cases "a + b < 8")
      case True
      then have "i + (8 - a) + (8 - b) = i + (8 - (a + b)) + 8" using ab by linarith
      then show ?thesis using True by (simp only: if_True mod_add_self2)
    next
      case False
      then have "i + (8 - a) + (8 - b) = i + (8 - (a + b - 8))" using ab by linarith
      then show ?thesis using False by (simp only: if_False)
    qed
    finally show ?thesis by (simp only: s a_def b_def)
  qed
  then show "bit (word_rotl m (word_rotl n x)) i \<longleftrightarrow> bit (word_rotl (m + n) x) i"
    by (simp add: bit_rotl8)
qed
lemma rotl_xor: "word_rotl n (x XOR y) = word_rotl n x XOR word_rotl n (y :: u8)"
  by (rule bit_word_eqI) (simp add: bit_word_rotl_iff bit_xor_iff)
lemma rotl_mod: "word_rotl (n mod 8) (x :: u8) = word_rotl n x"
  by (rule bit_word_eqI) (simp add: bit_rotl8)
lemma rotl_0: "word_rotl 0 x = (x :: u8)"
  by (rule bit_word_eqI) (simp add: bit_rotl8)
lemma rotl_per: "word_rotl 8 x = x" "word_rotl 9 x = word_rotl 1 x" "word_rotl 10 x = word_rotl 2 (x :: u8)"
  using rotl_mod [of 8 x] rotl_mod [of 9 x] rotl_mod [of 10 x] rotl_0 [of x] by simp_all
lemma affine_loop_4: "affine_loop 4 x s = x XOR word_rotl 1 s XOR word_rotl 2 s XOR word_rotl 3 s XOR word_rotl 4 s"
  by (simp only: numeral_eq_Suc pred_numeral_simps Num.arith_simps BitM.simps affine_loop.simps Let_def rotl_rotl xor.assoc)
   (simp add: numeral_eq_Suc)
lemma affine_inverse: "affine_inv (affine_loop 4 x x) = x"
proof -
  have e: "word_rotl n (affine_loop 4 x x) = word_rotl n x XOR word_rotl (n+1) x XOR word_rotl (n+2) x XOR word_rotl (n+3) x XOR word_rotl (n+4) x" for n
   by (simp only: affine_loop_4 rotl_xor rotl_rotl)
  have s: "1 + 1 = (2::nat)" "1 + 2 = (3::nat)" "1+3=(4::nat)" "1+4=(5::nat)" "3 + 1 = (4::nat)" "3 + 2 = (5::nat)" "3+3=(6::nat)" "3+4=(7::nat)" "6 + 1 = (7::nat)" "6 + 2 = (8::nat)" "6+3=(9::nat)" "6+4=(10::nat)" by simp_all
  show ?thesis
   by (simp only: affine_inv_def e s rotl_per xor.assoc xor.commute xor.left_commute xor_self_eq) 
     (metis xor.assoc xor.commute xor_self_eq xor.right_neutral)
qed

lemma sub_byte_inj: "sub_byte a = sub_byte b \<Longrightarrow> a = b"
  unfolding sub_byte_def by (metis affine_inverse gf_inv_inj xor_cancel_right)

lemma fold_updates_length: "length (fold (\<lambda>i xs. xs[f i := g i]) is xs) = length xs"
  by (induction "is" arbitrary: xs) auto

lemma fold_updates_other:
  "k \<notin> f ` set is \<Longrightarrow> fold (\<lambda>i xs. xs[f i := g i]) is xs ! k = xs ! k"
  by (induction "is" arbitrary: xs) auto

lemma fold_updates_nth:
  assumes "i \<in> set is" and "distinct is" and "inj_on f (set is)" and "\<forall>j\<in>set is. f j < length xs"
  shows "fold (\<lambda>i xs. xs[f i := g i]) is xs ! f i = g i"
  using assms
proof (induction "is" arbitrary: xs)
  case (Cons j js)
  show ?case
  proof (cases "i = j")
    case True
    have "f i \<notin> f ` set js" using Cons.prems True by (auto simp: inj_on_def)
    then show ?thesis using Cons.prems True by (simp add: fold_updates_other)
  next
    case False
    then show ?thesis using Cons.prems by (simp add: Cons.IH inj_on_def)
  qed
qed simp

lemma length_inv_sbox: "length inv_sbox = 256"
  by (simp add: inv_sbox_def fold_updates_length del: upt_rec_numeral)

lemma inv_sbox_sub_byte: "inv_sbox ! unat (sub_byte a) = a"
proof -
  let ?f = "\<lambda>i. unat (sub_byte (word_of_nat i))"
  have u: "unat (word_of_nat i :: u8) = i" if "i < 256" for i
    using that by (simp add: unat_of_nat)
  have "inj_on ?f (set [0..<256])"
  proof (rule inj_onI)
    fix i j assume ij: "i \<in> set [0..<256]" "j \<in> set [0..<256]" "?f i = ?f j"
    then have "(word_of_nat i :: u8) = word_of_nat j" by (metis sub_byte_inj word_unat_eq_iff)
    then show "i = j" using ij u by (metis atLeastLessThan_iff set_upt)
  qed
  moreover have "?f j < length (replicate 256 (0 :: u8))" for j by simp
  moreover have "unat a \<in> set [0..<256]" by simp
  ultimately have "fold (\<lambda>i xs. xs[?f i := word_of_nat i]) [0..<256] (replicate 256 0) ! ?f (unat a)
      = (word_of_nat (unat a) :: u8)"
    by (intro fold_updates_nth) (simp_all del: upt_rec_numeral)
  then show ?thesis by (simp add: inv_sbox_def del: upt_rec_numeral)
qed

lemma sub_byte_surj: "\<exists>x. sub_byte x = y"
  by (metis finite_code finite_UNIV_inj_surj injI sub_byte_inj surjD)

lemma sub_byte_inv_sbox: "sub_byte (inv_sbox ! unat y) = y"
  using sub_byte_surj [of y] inv_sbox_sub_byte by metis

section \<open>What the tables hold\<close>

lemma nth_concat_fixed:
  "\<lbrakk>\<And>x. x \<in> set xs \<Longrightarrow> length (f x) = n; j < n; i < length xs\<rbrakk> \<Longrightarrow>
     concat (map f xs) ! (i * n + j) = f (xs ! i) ! j"
proof (induction xs arbitrary: i)
  case (Cons x xs)
  then show ?case by (cases i) (auto simp: nth_append add.assoc)
qed simp

lemma length_concat_fixed:
  "(\<And>x. x \<in> set xs \<Longrightarrow> length (f x) = n) \<Longrightarrow> length (concat (map f xs)) = length xs * n"
  by (induction xs) auto

lemma length_cm_table: "length (cm_table r) = 1024"
  unfolding cm_table_def by (subst length_concat_fixed [where n = 4]) (simp_all add: Let_def)

lemma nth_cm_table:
  assumes "x < 256" "j < 4"
  shows "cm_table r ! (4 * x + j) = cm_bytes (inv_sbox ! x) ! ((j + r) mod 4)"
proof -
  let ?f = "\<lambda>x. let b = cm_bytes (inv_sbox ! x) in map (\<lambda>j. b ! ((j + r) mod 4)) [0..<4]"
  have "concat (map ?f [0..<256]) ! (x * 4 + j) = ?f ([0..<256] ! x) ! j"
    by (rule nth_concat_fixed) (use assms in \<open>simp_all add: Let_def del: upt_rec_numeral\<close>)
  then show ?thesis
    using assms by (simp add: cm_table_def Let_def mult.commute del: upt_rec_numeral)
qed

lemma nth_sbox_table:
  assumes "x < 256" "j < 4"
  shows "sbox build_tables ! (4 * x + j) = inv_sbox ! x"
proof -
  let ?f = "\<lambda>x. map (\<lambda>j. inv_sbox ! x) [0..<4]"
  have "concat (map ?f [0..<256]) ! (x * 4 + j) = ?f ([0..<256] ! x) ! j"
    by (rule nth_concat_fixed) (use assms in \<open>simp_all del: upt_rec_numeral\<close>)
  then show ?thesis
    using assms by (simp add: build_tables_def mult.commute del: upt_rec_numeral)
qed

lemma length_sbox_table: "length (sbox build_tables) = 1024"
  unfolding build_tables_def by (simp, subst length_concat_fixed [where n = 4]) simp_all

text \<open>The generated SBOX table holds, in each of the four bytes of entry \<open>x\<close>, the byte that the
  published S-box sends to \<open>x\<close>: it is the inverse of the FIPS-197 S-box.\<close>

theorem sbox_inverts_published:
  "\<forall>x<256. \<forall>j<4. fips_sbox ! unat (sbox build_tables ! (4 * x + j)) = int x"
proof (intro allI impI)
  fix x j :: nat assume "x < 256" "j < 4"
  moreover from this have "uint (word_of_nat x :: u8) = int x" by (simp add: uint_nat unat_of_nat)
  ultimately show "fips_sbox ! unat (sbox build_tables ! (4 * x + j)) = int x"
    using sub_byte_inv_sbox [of "word_of_nat x"]
    by (simp add: nth_sbox_table uint_sub_byte [symmetric] unat_of_nat)
qed

theorem sbox_inverts_published_witness: "fips_sbox ! unat (sbox build_tables ! (4 * 83 + 2)) = 83"
  using sbox_inverts_published [rule_format, of 83 2] by simp

end
