(* ===== verification/Streams.thy ===== *)
theory Streams
  imports Prelude
begin

text \<open>
  The interface shared by the word ciphers of the code (\<open>decrypt_data3\<close>, \<open>decode_payload_prefix\<close>,
  the container segments and the Stage 1 payload): a step that decodes one word from its index and a
  running key state, and a step that encodes one. The locale \<open>word_stream\<close> asks that the two invert
  each other and leave the same state, and proves that whole runs, and in-place runs over a region of
  a buffer, invert as well.
\<close>

section \<open>Words of a region\<close>

fun words_at :: "bytes \<Rightarrow> nat \<Rightarrow> nat \<Rightarrow> u32 list" where
  "words_at d off 0 = []"
| "words_at d off (Suc n) = from_le (window d off 4) # words_at d (off + 4) n"

fun bytes_of :: "u32 list \<Rightarrow> bytes" where
  "bytes_of [] = []"
| "bytes_of (w # ws) = to_le 4 w @ bytes_of ws"

lemma length_words_at [simp]: "length (words_at d off n) = n"
  by (induction n arbitrary: off) auto

lemma length_bytes_of [simp]: "length (bytes_of ws) = 4 * length ws"
  by (induction ws) auto

lemma words_at_window:
  assumes "window d off (4 * n) = window e off' (4 * n)"
  shows "words_at d off n = words_at e off' n"
  using assms
proof (induction n arbitrary: off off')
  case (Suc n)
  have w: "window x a (4 + 4 * n) = window x a 4 @ window x (a + 4) (4 * n)" for x :: bytes and a
    by (rule window_append_split)
  have take4: "window x a 4 = take 4 (window x a (4 + 4 * n))" for x :: bytes and a
    by (simp add: window_def)
  have drop4: "window x (a + 4) (4 * n) = drop 4 (window x a (4 + 4 * n))" for x :: bytes and a
    by (simp add: window_def drop_take add.commute)
  have eq: "window d off (4 + 4 * n) = window e off' (4 + 4 * n)"
    using Suc.prems by simp
  have "window d off 4 = window e off' 4"
    unfolding take4 eq by (rule refl)
  moreover have "window d (off + 4) (4 * n) = window e (off' + 4) (4 * n)"
    unfolding drop4 eq by (rule refl)
  ultimately show ?case using Suc.IH by simp
qed simp

lemma words_at_bytes_of:
  "window d off (4 * length ws) = bytes_of ws \<Longrightarrow> words_at d off (length ws) = ws"
proof (induction ws arbitrary: off)
  case (Cons w ws)
  have s: "window d off (4 * length (w # ws)) = window d off 4 @ window d (off + 4) (4 * length ws)"
    using window_append_split [of d off 4 "4 * length ws"] by simp
  have "length (window d off 4) = 4"
  proof (rule ccontr)
    assume "length (window d off 4) \<noteq> 4"
    then have "length (window d off 4) < 4" by (simp add: window_def)
    moreover from this have "window d (off + 4) (4 * length ws) = []" by (auto simp: window_def)
    ultimately have "length (window d off (4 * length (w # ws))) < 4" using s by simp
    then show False using Cons.prems by simp
  qed
  with s Cons.prems have "window d off 4 = to_le 4 w" "window d (off + 4) (4 * length ws) = bytes_of ws"
    by simp_all
  then show ?case using Cons.IH by (simp add: from_le_to_le)
qed simp

lemma bytes_of_words_at: "off + 4 * n \<le> length d \<Longrightarrow> bytes_of (words_at d off n) = window d off (4 * n)"
proof (induction n arbitrary: off)
  case (Suc n)
  have "window d off (4 * Suc n) = window d off 4 @ window d (off + 4) (4 * n)"
    using window_append_split [of d off 4 "4 * n"] by simp
  then show ?case using Suc by (simp add: to_le_from_le length_window)
qed simp

lemma window_bytes_of: "k < length ws \<Longrightarrow> window (bytes_of ws @ rest) (4 * k) 4 = to_le 4 (ws ! k)"
proof (induction ws arbitrary: k)
  case (Cons w ws)
  show ?case
  proof (cases k)
    case 0
    then show ?thesis by (simp add: window_def)
  next
    case (Suc j)
    then have "window (bytes_of (w # ws) @ rest) (4 * k) 4 = window (bytes_of ws @ rest) (4 * j) 4"
      by (simp add: window_def)
    then show ?thesis using Cons Suc by simp
  qed
qed simp

lemma nth_words_at: "k < n \<Longrightarrow> words_at d off n ! k = from_le (window d (off + 4 * k) 4)"
proof (induction n arbitrary: off k)
  case (Suc n)
  then show ?case by (cases k) (simp_all add: add.assoc)
qed simp

lemma bytes_of_append: "bytes_of (xs @ ys) = bytes_of xs @ bytes_of ys"
  by (induction xs) simp_all

lemma words_at_bytes_of_append: "words_at (bytes_of ws @ rest) 0 (length ws) = ws"
  by (rule words_at_bytes_of) (simp add: window_def)

lemma words_at_patch_disjoint:
  assumes "off + length bs \<le> length d" and "a + 4 * n \<le> off \<or> off + length bs \<le> a"
  shows "words_at (patch d off bs) a n = words_at d a n"
  by (rule words_at_window) (use assms in \<open>simp add: window_patch_disjoint\<close>)

lemma patch_patch_adjacent:
  assumes "off + length bs + length cs \<le> length d"
  shows "patch (patch d off bs) (off + length bs) cs = patch d off (bs @ cs)"
  using assms by (simp add: patch_def ac_simps)

section \<open>Runs\<close>

type_synonym 's step = "nat \<Rightarrow> 's \<Rightarrow> u32 \<Rightarrow> u32 \<times> 's"

fun stream_run :: "'s step \<Rightarrow> nat \<Rightarrow> 's \<Rightarrow> u32 list \<Rightarrow> u32 list \<times> 's" where
  "stream_run step i s [] = ([], s)"
| "stream_run step i s (v # vs) =
     (case step i s v of (p, s') \<Rightarrow> (case stream_run step (Suc i) s' vs of (ps, s'') \<Rightarrow> (p # ps, s'')))"

lemma length_stream_run [simp]: "length (fst (stream_run step i s vs)) = length vs"
  by (induction step i s vs rule: stream_run.induct) (auto split: prod.splits)

locale word_stream =
  fixes dec :: "'s step" and enc :: "'s step"
  assumes enc_dec: "enc i s (fst (dec i s v)) = (v, snd (dec i s v))"
    and dec_enc: "dec i s (fst (enc i s p)) = (p, snd (enc i s p))"
begin

lemma run_enc_dec:
  "stream_run enc i s (fst (stream_run dec i s vs)) = (vs, snd (stream_run dec i s vs))"
proof (induction vs arbitrary: i s)
  case (Cons v vs)
  show ?case
    using enc_dec [of i s v] Cons.IH [of "Suc i" "snd (dec i s v)"]
    by (simp add: case_prod_beta)
qed simp

lemma run_dec_enc:
  "stream_run dec i s (fst (stream_run enc i s ps)) = (ps, snd (stream_run enc i s ps))"
proof (induction ps arbitrary: i s)
  case (Cons p ps)
  show ?case
    using dec_enc [of i s p] Cons.IH [of "Suc i" "snd (enc i s p)"]
    by (simp add: case_prod_beta)
qed simp

lemma dec_injective:
  "fst (stream_run dec i s vs) = fst (stream_run dec i s ws) \<Longrightarrow> vs = ws"
  by (metis run_enc_dec fst_conv)

end

section \<open>Runs over a buffer\<close>

text \<open>The region of \<open>n\<close> words at \<open>off\<close> replaced by its run.\<close>

definition run_region :: "'s step \<Rightarrow> 's \<Rightarrow> nat \<Rightarrow> nat \<Rightarrow> bytes \<Rightarrow> bytes" where
  "run_region step s off n d = patch d off (bytes_of (fst (stream_run step 0 s (words_at d off n))))"

lemma length_run_region: "off + 4 * n \<le> length d \<Longrightarrow> length (run_region step s off n d) = length d"
  by (simp add: run_region_def length_patch)

context word_stream
begin

lemma run_region_inverts:
  assumes "off + 4 * n \<le> length d"
  shows "run_region dec s off n (run_region enc s off n d) = d"
    and "run_region enc s off n (run_region dec s off n d) = d"
proof -
  let ?ws = "words_at d off n"
  have inv: "run_region g s off n (run_region f s off n d) = d"
    if "fst (stream_run g 0 s (fst (stream_run f 0 s ?ws))) = ?ws" for f g
  proof -
    let ?e = "fst (stream_run f 0 s ?ws)"
    have len: "length ?e = n" by simp
    have "window (run_region f s off n d) off (4 * length ?e) = bytes_of ?e"
      using assms by (simp add: run_region_def window_patch_same)
    then have "words_at (run_region f s off n d) off (length ?e) = ?e"
      by (rule words_at_bytes_of)
    then have "words_at (run_region f s off n d) off n = ?e" by (simp only: len)
    then have "run_region g s off n (run_region f s off n d)
        = patch (run_region f s off n d) off (bytes_of ?ws)"
      using that by (simp add: run_region_def)
    also have "\<dots> = patch d off (bytes_of ?ws)"
      using assms by (simp add: run_region_def patch_twice)
    also have "\<dots> = d" using assms by (simp add: bytes_of_words_at patch_window)
    finally show ?thesis .
  qed
  show "run_region dec s off n (run_region enc s off n d) = d"
    by (rule inv) (simp add: run_dec_enc)
  show "run_region enc s off n (run_region dec s off n d) = d"
    by (rule inv) (simp add: run_enc_dec)
qed

end

end
