(* ===== verification/Primitives.thy ===== *)
theory Primitives
  imports Crc32 Streams
begin

unbundle bit_operations_syntax

text \<open>
  \<^verbatim>\<open>senbei-crypto/src/windows/primitives.rs\<close>, the byte accessors and the small ciphers of the PE
  pipelines, with the error types of \<^verbatim>\<open>windows/mod.rs\<close>. Offsets are \<open>u32\<close> and wrap as in the source;
  an access outside its buffer panics, the \<open>try_\<close> accessors answer an error value instead.

  The ciphers that walk a region word by word share the locale \<open>word_stream\<close>: a decoding and an
  encoding step that invert each other with the same key update. The locale proves once that a whole
  run inverts, and each cipher of the code is an interpretation of it.
\<close>

section \<open>Errors\<close>

definition MAX_IMAGE_SIZE :: nat where
  "MAX_IMAGE_SIZE = 2 ^ 30"

datatype buffer_operation = Read | CopySource | CopyDestination | ZeroFill

datatype buf_error =
  BufferRangeOutOfBounds (operation: buffer_operation) (offset: nat) (size_of: nat) (buffer_len: nat)

section \<open>Accessors\<close>

definition get_u16 :: "bytes \<Rightarrow> u32 \<Rightarrow> (u16, 'e) res" where
  "get_u16 d off = idx_le 2 d (unat off)"

definition get_u32 :: "bytes \<Rightarrow> u32 \<Rightarrow> (u32, 'e) res" where
  "get_u32 d off = idx_le 4 d (unat off)"

definition get_u64 :: "bytes \<Rightarrow> u32 \<Rightarrow> (u64, 'e) res" where
  "get_u64 d off = idx_le 8 d (unat off)"

definition write_u16 :: "bytes \<Rightarrow> u32 \<Rightarrow> u32 \<Rightarrow> (bytes, 'e) res" where
  "write_u16 d off v = put_le 2 d (unat off) (ucast v :: u16)"

definition write_u32 :: "bytes \<Rightarrow> u32 \<Rightarrow> u32 \<Rightarrow> (bytes, 'e) res" where
  "write_u32 d off v = put_le 4 d (unat off) v"

definition try_u32 :: "bytes \<Rightarrow> nat \<Rightarrow> (u32, buf_error) res" where
  "try_u32 d off =
     (let e = BufferRangeOutOfBounds Read off 4 (length d) in
      rbind (ok_or e (chk_add off 4)) (\<lambda>stop. ok_or e (get_le 4 d off)))"

definition try_i32 :: "bytes \<Rightarrow> nat \<Rightarrow> (32 word, buf_error) res" where
  "try_i32 d off = try_u32 d off"

definition try_copy_from_slice :: "bytes \<Rightarrow> nat \<Rightarrow> nat \<Rightarrow> bytes \<Rightarrow> nat \<Rightarrow> (bytes, buf_error) res" where
  "try_copy_from_slice dst dst_off dst_len src src_off =
     (let de = BufferRangeOutOfBounds CopyDestination dst_off dst_len (length dst);
          se = BufferRangeOutOfBounds CopySource src_off dst_len (length src) in
      rbind (ok_or de (chk_add dst_off dst_len)) (\<lambda>dst_end.
      rbind (ok_or se (chk_add src_off dst_len)) (\<lambda>src_end.
        if length dst < dst_end then Err de
        else if length src < src_end then Err se
        else put dst dst_off (window src src_off dst_len))))"

section \<open>The LFSR keystream\<close>

text \<open>The inner loop over \<open>k = 0..8\<close> collects one byte; the state is 15 bits wide.\<close>

definition lfsr_shift :: "u32 \<Rightarrow> u32" where
  "lfsr_shift state =
     (let s = push_bit 1 state in if s AND 0x8000 \<noteq> 0 then s XOR 0x8003 else s)"

fun lfsr_bits :: "nat \<Rightarrow> nat \<Rightarrow> u32 \<Rightarrow> u8 \<Rightarrow> u8 \<times> u32" where
  "lfsr_bits 0 k state b = (b, state)"
| "lfsr_bits (Suc n) k state b =
     lfsr_bits n (Suc k) (lfsr_shift state) (b OR ucast (push_bit k (state AND 1)))"

fun lfsr_fill :: "nat \<Rightarrow> u32 \<Rightarrow> bytes" where
  "lfsr_fill 0 state = []"
| "lfsr_fill (Suc n) state = (case lfsr_bits 8 0 state 0 of (b, state') \<Rightarrow> b # lfsr_fill n state')"

definition lfsr_keystream :: "nat \<Rightarrow> bytes" where
  "lfsr_keystream n = lfsr_fill n 1"

section \<open>Checksums over descriptors\<close>

text \<open>\<open>offset + length\<close> wraps in \<open>u32\<close>; a range whose end lies before its start panics.\<close>

definition calculate_checksum :: "bytes \<Rightarrow> u32 \<Rightarrow> (u32, 'e) res" where
  "calculate_checksum d pos =
     rbind (get_u32 d pos) (\<lambda>off.
     rbind (get_u32 d (pos + 4)) (\<lambda>len.
       if off \<le> off + len then
         rbind (idx_range d (unat off) (unat (off + len) - unat off)) (\<lambda>bs. Ok (compute bs XOR len))
       else Panic))"

definition calculate_checksum2 :: "bytes \<Rightarrow> bytes \<Rightarrow> u32 \<Rightarrow> u32 \<Rightarrow> (u32, buf_error) res" where
  "calculate_checksum2 d clean pos start =
     rbind (get_u32 d pos) (\<lambda>off.
     rbind (get_u32 d (pos + 4)) (\<lambda>len.
       case chk_add (unat off) (unat len) of
         Some stop \<Rightarrow>
           if stop \<le> length clean then Ok (Crc32.append start (window clean (unat off) (unat len)))
           else Err (BufferRangeOutOfBounds Read (unat off) (unat len) (length clean))
       | None \<Rightarrow> Err (BufferRangeOutOfBounds Read (unat off) (unat len) (length clean))))"

section \<open>The word ciphers\<close>

text \<open>The loop \<open>for i in 0..words\<close> over a region that starts at \<open>base\<close>: \<open>step i s v\<close> gives the word to
  store and the next key state. The byte offset is a \<open>u32\<close>, and the steps read the index as one.\<close>

definition word_body ::
  "'s step \<Rightarrow> u32 \<Rightarrow> nat \<Rightarrow> bytes \<times> 's \<Rightarrow> (bytes \<times> 's, 'e) res" where
  "word_body step base i ds =
     (let off = base + word_of_nat i * 4 in
      rbind (get_u32 (fst ds) off) (\<lambda>v.
        let r = step i (snd ds) v in
        rbind (write_u32 (fst ds) off (fst r)) (\<lambda>d'. Ok (d', snd r))))"

definition data3_step :: "u32 \<Rightarrow> u32 step" where
  "data3_step shift i key v =
     (word_rotr (unat shift) (v XOR key) - word_of_nat i, key + word_of_nat i)"

definition decrypt_data3 :: "bytes \<Rightarrow> u32 \<Rightarrow> u32 \<Rightarrow> u32 \<Rightarrow> (bytes, 'e) res" where
  "decrypt_data3 d pos key shift =
     rbind (get_u32 d pos) (\<lambda>base.
     rbind (get_u32 d (pos + 4)) (\<lambda>len.
     rbind (foldM (word_body (data3_step shift) base) [0..<unat (drop_bit 2 len)] (d, key)) (\<lambda>r.
       Ok (fst r))))"

definition data1_body :: "bytes \<Rightarrow> nat \<Rightarrow> u32 list \<times> u32 \<Rightarrow> (u32 list \<times> u32, 'e) res" where
  "data1_body file i st =
     (let w = word_of_nat i; off = w * 4 + 4 in
      rbind (get_u32 file (4096 + off)) (\<lambda>cell.
        Ok ((fst st)[Suc i := snd st XOR cell], (w * w) XOR (snd st + cell - w))))"

definition decrypt_data1 :: "bytes \<Rightarrow> u32 list \<Rightarrow> (u32 list, 'e) res" where
  "decrypt_data1 file info =
     rbind (get_u32 file 4096) (\<lambda>k.
     rbind (foldM (data1_body file) [0..<7] (info[0 := k], k)) (\<lambda>r. Ok (fst r)))"

definition prefix_step :: "u32 step" where
  "prefix_step i key cell =
     (let w = word_of_nat i in (key XOR cell, (w * w) XOR (key + cell + w)))"

definition prefix_body ::
  "bytes \<Rightarrow> u32 \<Rightarrow> u32 \<Rightarrow> nat \<Rightarrow> bytes \<times> u32 \<Rightarrow> (bytes \<times> u32, 'e) res" where
  "prefix_body input source dst_offset i ds =
     (let off = word_of_nat i * 4 in
      rbind (get_u32 input (source + off)) (\<lambda>cell.
        let r = prefix_step i (snd ds) cell in
        rbind (write_u32 (fst ds) (dst_offset + off) (fst r)) (\<lambda>d'. Ok (d', snd r))))"

definition decode_payload_prefix ::
  "bytes \<Rightarrow> u32 \<Rightarrow> bytes \<Rightarrow> u32 \<Rightarrow> u32 \<Rightarrow> u32 \<Rightarrow> (bytes, 'e) res" where
  "decode_payload_prefix input source dst dst_offset key0 sz =
     rbind (foldM (prefix_body input source dst_offset) [0..<unat (drop_bit 2 sz)] (dst, key0 + NOT sz))
       (\<lambda>r. Ok (fst r))"

section \<open>The byte ciphers\<close>

definition data6_body :: "bytes \<Rightarrow> nat \<Rightarrow> nat \<Rightarrow> bytes \<Rightarrow> (bytes, 'e) res" where
  "data6_body ks p i d = rbind (idx d (p + i)) (\<lambda>b. set_at d (p + i) (b XOR ks ! i))"

definition decrypt_data6 :: "bytes \<Rightarrow> u32 \<Rightarrow> (bytes, 'e) res" where
  "decrypt_data6 d pos =
     rbind (idx d (unat (pos + 95))) (\<lambda>n.
       foldM (data6_body (lfsr_keystream 256) (unat pos)) [0..<unat n] d)"

text \<open>The loop of \<open>decrypt_data7\<close> has no counter bound: it ends at a zero byte, or panics at the end of
  the buffer. \<open>None\<close> stands for a loop that never returns.\<close>

definition data7_byte :: "u8 \<Rightarrow> u8 \<Rightarrow> u8" where
  "data7_byte key b = (let b' = word_rotr 4 b - key in if b' = 0 then 0 - key else b')"

partial_function (option) data7_loop :: "bytes \<Rightarrow> u32 \<Rightarrow> u8 \<Rightarrow> u32 \<Rightarrow> (bytes, 'e) res option" where
  "data7_loop d pos key i =
     (let j = unat (pos + i) in
      if length d \<le> j then Some Panic
      else if d ! j = 0 then Some (Ok d)
      else data7_loop (d[j := data7_byte key (d ! j)]) pos (key + 67) (i + 1))"

definition decrypt_data7 :: "bytes \<Rightarrow> u32 \<Rightarrow> u8 \<Rightarrow> (bytes, 'e) res option" where
  "decrypt_data7 d pos key = data7_loop d pos key 0"

section \<open>In-place runs are stream runs\<close>

text \<open>A buffer of at most 4 GiB, so that an offset inside it does not wrap.\<close>

lemma word_offset:
  fixes base :: u32
  assumes "unat base + 4 * i + 4 \<le> n" and "n \<le> 2 ^ 32"
  shows "unat (base + word_of_nat i * 4) = unat base + 4 * i"
proof -
  have i: "4 * i < 2 ^ 32" and b: "unat base + 4 * i < 2 ^ 32" using assms by linarith+
  have "unat (word_of_nat i * 4 :: u32) = 4 * i"
    using i by (simp add: unat_word_ariths unat_of_nat)
  then show ?thesis using b by (simp add: unat_add_no_wrap)
qed

lemma word_loop:
  assumes "unat base + 4 * (a + n) \<le> length d" and "length d \<le> 2 ^ 32"
  shows "(foldM (word_body step base) [a..<a + n] (d, s) :: (bytes \<times> 's, 'e) res) =
     Ok (patch d (unat base + 4 * a) (bytes_of (fst (stream_run step a s (words_at d (unat base + 4 * a) n)))),
         snd (stream_run step a s (words_at d (unat base + 4 * a) n)))"
  using assms
proof (induction n arbitrary: a d s)
  case (Suc n)
  let ?o = "unat base + 4 * a"
  let ?v = "from_le (window d ?o 4) :: u32"
  obtain p s' where step: "step a s ?v = (p, s')" by force
  let ?d = "patch d ?o (to_le 4 p)"
  have o: "unat (base + word_of_nat a * 4) = ?o"
    by (rule word_offset [of _ _ "length d"]) (use Suc.prems in simp_all)
  have body: "word_body step base a (d, s) = Ok (?d, s')"
    using Suc.prems by (simp add: word_body_def get_u32_def write_u32_def o idx_le_in put_le_in step Let_def)
  have len: "length ?d = length d" using Suc.prems by (simp add: length_patch)
  have upt: "[a..<a + Suc n] = a # [Suc a..<Suc a + n]" by (simp add: upt_conv_Cons)
  have rest: "words_at ?d (?o + 4) n = words_at d (?o + 4) n"
    by (rule words_at_patch_disjoint) (use Suc.prems in simp_all)
  have adj: "patch ?d (?o + 4) bs = patch d ?o (to_le 4 p @ bs)"
    if "length bs = 4 * n" for bs
    using patch_patch_adjacent [of ?o "to_le 4 p" bs d] that Suc.prems by (simp add: add.assoc)
  have off: "unat base + 4 * Suc a = ?o + 4" by simp
  have "(foldM (word_body step base) [Suc a..<Suc a + n] (?d, s') :: (bytes \<times> 's, 'e) res) =
      Ok (patch ?d (?o + 4) (bytes_of (fst (stream_run step (Suc a) s' (words_at d (?o + 4) n)))),
          snd (stream_run step (Suc a) s' (words_at d (?o + 4) n)))"
  proof -
    have "unat base + 4 * (Suc a + n) \<le> length ?d" "length ?d \<le> 2 ^ 32"
      using Suc.prems by (simp_all add: len)
    from Suc.IH [OF this, of s'] show ?thesis by (simp only: off rest)
  qed
  then show ?case
    unfolding upt foldM.simps body rbind.simps
    by (simp only: adj length_bytes_of length_stream_run length_words_at words_at.simps
        stream_run.simps step prod.case case_prod_beta fst_conv snd_conv bytes_of.simps)
qed simp

lemma word_loop_0:
  assumes "unat base + 4 * n \<le> length d" and "length d \<le> 2 ^ 32"
  shows "foldM (word_body step base) [0..<n] (d, s) =
     Ok (run_region step s (unat base) n d, snd (stream_run step 0 s (words_at d (unat base) n)))"
  using word_loop [of base 0 n d step s] assms by (simp add: run_region_def)

lemma decrypt_data3_run:
  assumes "get_u32 d pos = (Ok base :: (u32, 'e) res)" "get_u32 d (pos + 4) = (Ok len :: (u32, 'e) res)"
    and "unat base + 4 * (unat len div 4) \<le> length d" and "length d \<le> 2 ^ 32"
  shows "decrypt_data3 d pos key shift =
     (Ok (run_region (data3_step shift) key (unat base) (unat len div 4) d) :: (bytes, 'e) res)"
proof -
  have "unat (drop_bit 2 len) = unat len div 4" by (simp add: drop_bit_eq_div unat_div)
  then show ?thesis
    unfolding decrypt_data3_def using assms by (simp add: word_loop_0)
qed

text \<open>The inverse steps: what a packer of the protected program has to apply.\<close>

definition data3_enc :: "u32 \<Rightarrow> u32 step" where
  "data3_enc shift i key p =
     (word_rotl (unat shift) (p + word_of_nat i) XOR key, key + word_of_nat i)"

definition prefix_enc :: "u32 step" where
  "prefix_enc i key p =
     (let w = word_of_nat i; cell = key XOR p in (cell, (w * w) XOR (key + cell + w)))"

interpretation data3: word_stream "data3_step shift" "data3_enc shift"
  by unfold_locales (simp_all add: data3_step_def data3_enc_def word_rot_gal word_rot_gal')

interpretation prefix: word_stream prefix_step prefix_enc
  by unfold_locales (simp_all add: prefix_step_def prefix_enc_def Let_def)

lemma prefix_loop:
  assumes "unat source + 4 * (a + n) \<le> length input" and "length input \<le> 2 ^ 32"
    and "unat dst_offset + 4 * (a + n) \<le> length dst" and "length dst \<le> 2 ^ 32"
  shows "(foldM (prefix_body input source dst_offset) [a..<a + n] (dst, s) :: (bytes \<times> u32, 'e) res) =
     Ok (patch dst (unat dst_offset + 4 * a)
           (bytes_of (fst (stream_run prefix_step a s (words_at input (unat source + 4 * a) n)))),
         snd (stream_run prefix_step a s (words_at input (unat source + 4 * a) n)))"
  using assms
proof (induction n arbitrary: a dst s)
  case (Suc n)
  let ?o = "unat dst_offset + 4 * a" and ?i = "unat source + 4 * a"
  let ?v = "from_le (window input ?i 4) :: u32"
  obtain p s' where step: "prefix_step a s ?v = (p, s')" by force
  let ?d = "patch dst ?o (to_le 4 p)"
  have o: "unat (dst_offset + word_of_nat a * 4) = ?o"
    by (rule word_offset [of _ _ "length dst"]) (use Suc.prems in simp_all)
  have i: "unat (source + word_of_nat a * 4) = ?i"
    by (rule word_offset [of _ _ "length input"]) (use Suc.prems in simp_all)
  have body: "prefix_body input source dst_offset a (dst, s) = Ok (?d, s')"
    using Suc.prems
    by (simp add: prefix_body_def get_u32_def write_u32_def o i idx_le_in put_le_in step Let_def)
  have len: "length ?d = length dst" using Suc.prems by (simp add: length_patch)
  have upt: "[a..<a + Suc n] = a # [Suc a..<Suc a + n]" by (simp add: upt_conv_Cons)
  have adj: "patch ?d (?o + 4) bs = patch dst ?o (to_le 4 p @ bs)" if "length bs = 4 * n" for bs
    using patch_patch_adjacent [of ?o "to_le 4 p" bs dst] that Suc.prems by (simp add: add.assoc)
  have off: "unat dst_offset + 4 * Suc a = ?o + 4" "unat source + 4 * Suc a = ?i + 4" by simp_all
  have "(foldM (prefix_body input source dst_offset) [Suc a..<Suc a + n] (?d, s') :: (bytes \<times> u32, 'e) res) =
      Ok (patch ?d (?o + 4) (bytes_of (fst (stream_run prefix_step (Suc a) s' (words_at input (?i + 4) n)))),
          snd (stream_run prefix_step (Suc a) s' (words_at input (?i + 4) n)))"
  proof -
    have "unat source + 4 * (Suc a + n) \<le> length input" "length input \<le> 2 ^ 32"
      "unat dst_offset + 4 * (Suc a + n) \<le> length ?d" "length ?d \<le> 2 ^ 32"
      using Suc.prems by (simp_all add: len)
    from Suc.IH [OF this, of s'] show ?thesis by (simp only: off)
  qed
  then show ?case
    unfolding upt foldM.simps body rbind.simps
    by (simp only: adj length_bytes_of length_stream_run length_words_at words_at.simps
        stream_run.simps step prod.case case_prod_beta fst_conv snd_conv bytes_of.simps)
qed simp

section \<open>The byte ciphers on strings\<close>

lemma lfsr_fill_length [simp]: "length (lfsr_fill n st) = n"
  by (induction n arbitrary: st) (auto split: prod.splits)

lemma length_lfsr_keystream [simp]: "length (lfsr_keystream n) = n"
  by (simp add: lfsr_keystream_def)

lemma data6_loop:
  assumes "p + n \<le> length d" and "n \<le> 256" and ks: "256 \<le> length ks"
  shows "(foldM (data6_body ks p) [0..<n] d :: (bytes, 'e) res) =
     Ok (patch d p (map2 (XOR) (window d p n) (take n ks)))"
  using assms(1,2)
proof (induction n)
  case (Suc n)
  let ?f = "\<lambda>n. map2 (XOR) (window d p n) (take n ks)"
  have len: "length (?f m) = m" if "m \<le> Suc n" for m
    using that Suc.prems ks by (simp add: length_window)
  have nth: "patch d p (?f n) ! (p + n) = d ! (p + n)"
    using Suc.prems len [of n] by (simp add: nth_patch)
  have w: "window d p (Suc n) = window d p n @ [d ! (p + n)]"
    using Suc.prems by (simp add: window_def take_Suc_conv_app_nth)
  have f: "?f (Suc n) = ?f n @ [d ! (p + n) XOR ks ! n]"
    using Suc.prems ks by (simp add: w take_Suc_conv_app_nth length_window)
  have "(patch d p (?f n))[p + n := d ! (p + n) XOR ks ! n]
      = patch (patch d p (?f n)) (p + length (?f n)) [d ! (p + n) XOR ks ! n]"
    using Suc.prems len [of n] by (simp add: patch_single length_patch)
  also have "\<dots> = patch d p (?f (Suc n))"
    unfolding f by (rule patch_patch_adjacent) (use Suc.prems len [of n] in simp)
  finally have upd: "(patch d p (?f n))[p + n := d ! (p + n) XOR ks ! n] = patch d p (?f (Suc n))" .
  have "length (patch d p (?f n)) = length d" using Suc.prems len [of n] by (simp add: length_patch)
  then show ?case
    using Suc.prems Suc.IH nth upd
    by (simp add: foldM_append data6_body_def idx_def set_at_def)
qed simp

definition data7_enc :: "u8 \<Rightarrow> u8 \<Rightarrow> u8" where
  "data7_enc key p = (if p = - key then word_rotr 4 key else word_rotr 4 (p + key))"

lemma rotr_4_twice: "word_rotr 4 (word_rotr 4 x) = (x :: u8)"
proof (rule bit_word_eqI)
  fix i assume "i < LENGTH(8)"
  then have "((i + 4) mod 8 + 4) mod 8 = i" by (simp add: mod_simps)
  with \<open>i < LENGTH(8)\<close> show "bit (word_rotr 4 (word_rotr 4 x)) i \<longleftrightarrow> bit x i"
    by (simp add: bit_word_rotr_iff)
qed

lemma rotr_4_eq_0: "word_rotr 4 x = 0 \<longleftrightarrow> x = (0 :: u8)"
  by (metis rotr_4_twice word_rotx_0)

lemma data7_enc_byte:
  assumes "p \<noteq> 0"
  shows "data7_enc key p \<noteq> 0" and "data7_byte key (data7_enc key p) = p"
proof -
  have k: "p = - key \<Longrightarrow> key \<noteq> 0" using assms(1) by auto
  have s: "p \<noteq> - key \<Longrightarrow> p + key \<noteq> 0" by (simp add: eq_neg_iff_add_eq_0)
  show "data7_enc key p \<noteq> 0" using k s by (auto simp: data7_enc_def rotr_4_eq_0)
  show "data7_byte key (data7_enc key p) = p"
    using k s assms(1) by (auto simp: data7_enc_def data7_byte_def rotr_4_twice Let_def)
qed

lemma data7_byte_nonzero: "b \<noteq> 0 \<Longrightarrow> data7_byte key b \<noteq> 0"
  by (auto simp: data7_byte_def Let_def rotr_4_eq_0)

fun roll :: "(u8 \<Rightarrow> u8 \<Rightarrow> u8) \<Rightarrow> u8 \<Rightarrow> bytes \<Rightarrow> bytes" where
  "roll f key [] = []"
| "roll f key (b # bs) = f key b # roll f (key + 67) bs"

lemma length_roll [simp]: "length (roll f key bs) = length bs"
  by (induction bs arbitrary: key) auto

lemma roll_enc: "0 \<notin> set s \<Longrightarrow> 0 \<notin> set (roll data7_enc key s) \<and> roll data7_byte key (roll data7_enc key s) = s"
  by (induction s arbitrary: key) (auto simp: data7_enc_byte)

lemma data7_loop_string:
  assumes "length (xs @ es @ ys) < 2 ^ 32" and "0 \<notin> set es" and "pos + i = word_of_nat (length xs)"
    and "ys = [] \<or> hd ys = 0"
  shows "(data7_loop (xs @ es @ ys) pos key i :: (bytes, 'e) res option) =
    Some (if ys = [] then Panic else Ok (xs @ roll data7_byte key es @ ys))"
  using assms
proof (induction es arbitrary: xs key i)
  case Nil
  have j: "unat (pos + i) = length xs" using Nil.prems by (simp add: unat_of_nat)
  show ?case
    using Nil.prems(4) by (subst data7_loop.simps) (auto simp: j Let_def nth_append hd_conv_nth)
next
  case (Cons e es)
  let ?e = "data7_byte key e"
  have j: "unat (pos + i) = length xs" using Cons.prems by (simp add: unat_of_nat)
  have i: "pos + (i + 1) = word_of_nat (length (xs @ [?e]))"
    using Cons.prems(3) by (simp add: add.assoc [symmetric])
  have "(data7_loop (xs @ (e # es) @ ys) pos key i :: (bytes, 'e) res option) = data7_loop ((xs @ [?e]) @ es @ ys) pos (key + 67) (i + 1)"
    using Cons.prems(2) by (subst data7_loop.simps) (simp add: j Let_def)
  also have "\<dots> = Some (if ys = [] then Panic else Ok ((xs @ [?e]) @ roll data7_byte (key + 67) es @ ys))"
    by (rule Cons.IH [OF _ _ i]) (use Cons.prems in simp_all)
  finally show ?case by simp
qed

lemma data7_returns:
  assumes "length d < 2 ^ 32"
  shows "\<exists>r. decrypt_data7 d pos key = Some r"
proof (cases "length d \<le> unat pos")
  case True
  then show ?thesis unfolding decrypt_data7_def by (subst data7_loop.simps) simp
next
  case False
  let ?rest = "drop (unat pos) d"
  let ?es = "takeWhile (\<lambda>b. b \<noteq> 0) ?rest" and ?ys = "dropWhile (\<lambda>b. b \<noteq> 0) ?rest"
  have "d = take (unat pos) d @ ?es @ ?ys" by simp
  moreover have "data7_loop (take (unat pos) d @ ?es @ ?ys) pos key 0
      = Some (if ?ys = [] then Panic else Ok (take (unat pos) d @ roll data7_byte key ?es @ ?ys))"
  proof (rule data7_loop_string)
    show "0 \<notin> set ?es" by (auto dest: set_takeWhileD)
    show "?ys = [] \<or> hd ?ys = 0" using hd_dropWhile [of "\<lambda>b. b \<noteq> 0" ?rest] by auto
    show "pos + 0 = word_of_nat (length (take (unat pos) d))" using False by simp
  qed (use assms in simp)
  ultimately show ?thesis unfolding decrypt_data7_def by metis
qed

section \<open>Properties\<close>

lemma get_u32_patch_outside:
  assumes "off + length bs \<le> length d" and "unat p + 4 \<le> off \<or> off + length bs \<le> unat p"
  shows "(get_u32 (patch d off bs) p :: (u32, 'e) res) = get_u32 d p"
  using assms by (auto simp: get_u32_def idx_le_def get_le_def get_range_def length_patch window_patch_disjoint)

text \<open>\<open>decrypt_data3\<close> inverts its cipher in place: on a buffer whose region holds the encryption of
  a plaintext it restores the plaintext and changes nothing else, whatever the rotation.\<close>

theorem decrypt_data3_inverts:
  fixes d plain :: bytes and base len :: u32
  assumes "d = run_region (data3_enc shift) key (unat base) (unat len div 4) plain"
    and "get_u32 d pos = (Ok base :: (u32, 'e) res)" and "get_u32 d (pos + 4) = (Ok len :: (u32, 'e) res)"
    and "unat base + 4 * (unat len div 4) \<le> length plain" and "length plain \<le> 2 ^ 32"
  shows "decrypt_data3 d pos key shift = (Ok plain :: (bytes, 'e) res)"
proof -
  have "length d = length plain" using assms by (simp add: length_run_region)
  then show ?thesis
    using decrypt_data3_run [OF assms(2,3)] assms(1,4,5) by (simp add: data3.run_region_inverts)
qed

theorem decrypt_data3_inverts_witness:
  "decrypt_data3 (run_region (data3_enc 19) 7 8 2 [8, 0, 0, 0, 8, 0, 0, 0, 1, 2, 3, 4, 5, 6, 7, 9]) 0 7 19 =
     (Ok [8, 0, 0, 0, 8, 0, 0, 0, 1, 2, 3, 4, 5, 6, 7, 9] :: (bytes, unit) res)"
proof (rule decrypt_data3_inverts [of _ 19 7 8 8])
  let ?p = "[8, 0, 0, 0, 8, 0, 0, 0, 1, 2, 3, 4, 5, 6, 7, 9] :: bytes"
  have "get_u32 (run_region (data3_enc 19) 7 8 2 ?p) q = (get_u32 ?p q :: (u32, unit) res)"
    if "unat q + 4 \<le> 8" for q
    unfolding run_region_def by (rule get_u32_patch_outside) (use that in simp_all)
  from this [of 0] this [of 4]
  show "get_u32 (run_region (data3_enc 19) 7 8 2 ?p) 0 = (Ok 8 :: (u32, unit) res)"
    and "get_u32 (run_region (data3_enc 19) 7 8 2 ?p) (0 + 4) = (Ok 8 :: (u32, unit) res)"
    by (simp_all add: get_u32_def idx_le_def get_le_def get_range_def window_def)
qed simp_all

text \<open>\<open>decode_payload_prefix\<close> decodes what its inverse recurrence encodes: if the input holds the
  encoding of the words \<open>ps\<close>, the destination receives exactly \<open>ps\<close> and keeps every other byte; an
  unaligned tail of \<open>sz\<close> is left alone.\<close>

theorem decode_payload_prefix_inverts:
  fixes source dst_offset sz :: u32
  assumes "words_at input (unat source) (length ps) = fst (stream_run prefix_enc 0 (key0 + NOT sz) ps)"
    and "length ps = unat sz div 4"
    and "unat source + 4 * length ps \<le> length input" and "length input \<le> 2 ^ 32"
    and "unat dst_offset + 4 * length ps \<le> length dst" and "length dst \<le> 2 ^ 32"
  shows "decode_payload_prefix input source dst dst_offset key0 sz =
    (Ok (patch dst (unat dst_offset) (bytes_of ps)) :: (bytes, 'e) res)"
proof -
  have n: "unat (drop_bit 2 sz) = length ps" using assms(2) by (simp add: drop_bit_eq_div unat_div)
  have "(foldM (prefix_body input source dst_offset) [0..<0 + length ps] (dst, key0 + NOT sz) ::
      (bytes \<times> u32, 'e) res) = Ok (patch dst (unat dst_offset + 4 * 0) (bytes_of ps),
        snd (stream_run prefix_enc 0 (key0 + NOT sz) ps))"
    by (subst prefix_loop) (use assms in \<open>simp_all add: prefix.run_dec_enc\<close>)
  then show ?thesis by (simp add: decode_payload_prefix_def n)
qed

theorem decode_payload_prefix_inverts_witness:
  "decode_payload_prefix [11, 22, 9, 0, 0, 0] 2 [1, 1, 1, 1, 1] 1 (- 3 - NOT 4) 4 =
    (Ok (patch [1, 1, 1, 1, 1] (unat (1 :: u32)) (bytes_of [(- 3) XOR 9])) :: (bytes, unit) res)"
  by (rule decode_payload_prefix_inverts)
    (simp_all add: window_def prefix_enc_def Let_def xor.commute)

text \<open>The string cipher never loses the terminator: decrypting an encrypted string of nonzero
  bytes returns, gives the string back, keeps the zero behind it and every byte around it.\<close>

theorem decrypt_data7_inverts:
  assumes "0 \<notin> set s" and "length (xs @ s @ 0 # ys) < 2 ^ 32"
  shows "decrypt_data7 (xs @ roll data7_enc key s @ 0 # ys) (word_of_nat (length xs)) key =
    Some (Ok (xs @ s @ 0 # ys) :: (bytes, 'e) res)"
  using data7_loop_string [of xs "roll data7_enc key s" "0 # ys" "word_of_nat (length xs)" 0 key]
    roll_enc [OF assms(1), of key] assms(2)
  by (simp add: decrypt_data7_def)

theorem decrypt_data7_inverts_witness:
  "decrypt_data7 ([5] @ roll data7_enc 200 [56, 77] @ 0 # [9]) (word_of_nat (length [5 :: u8])) 200 =
    Some (Ok ([5] @ [56, 77] @ 0 # [9]) :: (bytes, unit) res)"
  by (rule decrypt_data7_inverts) simp_all

text \<open>The checked copy never panics: it succeeds exactly when both ranges lie in their buffers, and
  then replaces the destination range by the source range; otherwise it reports the destination
  first, then the source.\<close>

theorem try_copy_from_slice_spec:
  "try_copy_from_slice dst dst_off n src src_off =
     (if dst_off + n < usize_limit \<and> src_off + n < usize_limit then
        if length dst < dst_off + n then Err (BufferRangeOutOfBounds CopyDestination dst_off n (length dst))
        else if length src < src_off + n then Err (BufferRangeOutOfBounds CopySource src_off n (length src))
        else Ok (patch dst dst_off (window src src_off n))
      else if usize_limit \<le> dst_off + n
        then Err (BufferRangeOutOfBounds CopyDestination dst_off n (length dst))
      else Err (BufferRangeOutOfBounds CopySource src_off n (length src)))"
  by (auto simp: try_copy_from_slice_def chk_add_def Let_def put_def length_window)

text \<open>Decrypting a bytecode block twice restores it, as long as its length byte at offset 95 lies
  behind the block it measures.\<close>

theorem decrypt_data6_involution:
  fixes pos :: u32
  assumes "unat pos + 95 < length d" and "length d \<le> 2 ^ 32" and "unat (d ! (unat pos + 95)) \<le> 95"
  shows "rbind (decrypt_data6 d pos) (\<lambda>d'. decrypt_data6 d' pos) = (Ok d :: (bytes, 'e) res)"
proof -
  let ?p = "unat pos" and ?n = "unat (d ! (unat pos + 95))" and ?ks = "lfsr_keystream 256"
  let ?x = "\<lambda>d. map2 (XOR) (window d ?p ?n) (take ?n ?ks)"
  let ?d = "patch d ?p (?x d)"
  have o: "unat (pos + 95) = ?p + 95" using assms by (simp add: unat_add_no_wrap)
  have len: "length (?x d) = ?n" using assms by (simp add: length_window)
  have one: "decrypt_data6 e pos = (Ok (patch e ?p (?x e)) :: (bytes, 'e) res)"
    if "length e = length d" "e ! (?p + 95) = d ! (?p + 95)" for e
    using data6_loop [of ?p ?n e ?ks] that assms by (simp add: decrypt_data6_def o idx_def)
  have "window ?d ?p ?n = ?x d" using assms len by (intro window_patch_same) simp_all
  moreover have "map2 (XOR) (map2 (XOR) w k) k = w" if "length w = length k" for w k :: bytes
    using that by (induction w k rule: list_induct2) auto
  ultimately have "?x ?d = window d ?p ?n" using assms by (simp add: length_window)
  then have "patch ?d ?p (?x ?d) = d"
    using assms len by (simp add: patch_twice length_window patch_window)
  moreover have "?d ! (?p + 95) = d ! (?p + 95)" using assms len by (simp add: nth_patch)
  ultimately show ?thesis using one [of d] one [of ?d] assms len by (simp add: length_patch)
qed

theorem decrypt_data6_involution_witness:
  "rbind (decrypt_data6 (replicate 95 7 @ [3]) 0) (\<lambda>d'. decrypt_data6 d' 0) =
    (Ok (replicate 95 7 @ [3]) :: (bytes, unit) res)"
  by (rule decrypt_data6_involution) (simp_all add: nth_append)

end
