(* ===== verification/Aes.thy ===== *)
theory Aes
  imports AesTables Primitives
begin

unbundle bit_operations_syntax

text \<open>
  \<^verbatim>\<open>senbei-crypto/src/windows/primitives.rs\<close>, the AES part: \<open>aes_round\<close> on a block with the key
  schedule in the same buffer, \<open>aes_round_ks\<close> with the schedule in a snapshot, the two CBC loops and
  the snapshot itself. The table-driven round is proved to compute the FIPS-197 inverse cipher: on a
  block encrypted by the cipher as published it gives the plaintext block back.

  The two round functions have the same body and differ in where a round-key word comes from; the
  shared body is \<open>aes_core\<close>, with the reader of a round-key word as its first argument. The loop
  bound of a round is a \<open>u32\<close>, the running index never wraps because it stays below it.
\<close>

section \<open>The round\<close>

definition swap_bytes :: "u32 \<Rightarrow> u32" where
  "swap_bytes w = from_le (rev (to_le 4 w))"

text \<open>\<open>get_u32(&TABLE, ((n >> sh) & 0xFF) * 4)\<close>; the index is at most 1020, the table has 1024 bytes.\<close>

definition table32 :: "bytes \<Rightarrow> u32 \<Rightarrow> nat \<Rightarrow> u32" where
  "table32 tab n sh = from_le (window tab (unat ((drop_bit sh n AND 0xFF) * 4)) 4)"

type_synonym aes_state = "u32 \<times> u32 \<times> u32 \<times> u32"

definition mix_word :: "u32 \<Rightarrow> u32 \<Rightarrow> u32 \<Rightarrow> u32 \<Rightarrow> u32 \<Rightarrow> u32" where
  "mix_word x0 x1 x2 x3 k =
     table32 (cm2 build_tables) x1 16 XOR table32 (cm3 build_tables) x2 8
     XOR table32 (cm1 build_tables) x0 24 XOR table32 (cm4 build_tables) x3 0 XOR k"

fun aes_mix :: "aes_state \<Rightarrow> aes_state \<Rightarrow> aes_state" where
  "aes_mix (n0, n1, n2, n3) (k0, k1, k2, k3) =
     (mix_word n0 n3 n2 n1 k0, mix_word n1 n0 n3 n2 k1, mix_word n2 n1 n0 n3 k2, mix_word n3 n2 n1 n0 k3)"

definition sub_word :: "u32 \<Rightarrow> u32 \<Rightarrow> u32 \<Rightarrow> u32 \<Rightarrow> u32" where
  "sub_word x0 x1 x2 x3 =
     (table32 (sbox build_tables) x0 24 AND 0xFF000000) OR (table32 (sbox build_tables) x1 16 AND 0x00FF0000)
     OR (table32 (sbox build_tables) x2 8 AND 0x0000FF00) OR (table32 (sbox build_tables) x3 0 AND 0x000000FF)"

fun aes_sub :: "aes_state \<Rightarrow> aes_state" where
  "aes_sub (n0, n1, n2, n3) =
     (sub_word n0 n3 n2 n1, sub_word n1 n0 n3 n2, sub_word n2 n1 n0 n3, sub_word n3 n2 n1 n0)"

fun xor4 :: "aes_state \<Rightarrow> aes_state \<Rightarrow> aes_state" where
  "xor4 (a0, a1, a2, a3) (b0, b1, b2, b3) = (a0 XOR b0, a1 XOR b1, a2 XOR b2, a3 XOR b3)"

definition read4 :: "(u32 \<Rightarrow> (u32, 'e) res) \<Rightarrow> u32 \<Rightarrow> (aes_state, 'e) res" where
  "read4 k off =
     rbind (k off) (\<lambda>a. rbind (k (off + 4)) (\<lambda>b. rbind (k (off + 8)) (\<lambda>c. rbind (k (off + 12)) (\<lambda>e.
       Ok (a, b, c, e)))))"

fun write4 :: "bytes \<Rightarrow> u32 \<Rightarrow> aes_state \<Rightarrow> (bytes, 'e) res" where
  "write4 d pos (a, b, c, e) =
     rbind (write_u32 d pos (swap_bytes a)) (\<lambda>d.
     rbind (write_u32 d (pos + 4) (swap_bytes b)) (\<lambda>d.
     rbind (write_u32 d (pos + 8) (swap_bytes c)) (\<lambda>d. write_u32 d (pos + 12) (swap_bytes e))))"

definition aes_core :: "(u32 \<Rightarrow> (u32, 'e) res) \<Rightarrow> bytes \<Rightarrow> u32 \<Rightarrow> u32 \<Rightarrow> (bytes, 'e) res" where
  "aes_core k d pos round =
     rbind (read4 (\<lambda>off. rbind (get_u32 d off) (\<lambda>w. Ok (swap_bytes w))) pos) (\<lambda>n.
     rbind (read4 k 0) (\<lambda>k0.
     rbind (foldM (\<lambda>r n. rbind (read4 k (word_of_nat r * 16)) (\<lambda>kr. Ok (aes_mix n kr)))
              [1..<unat round] (xor4 n k0)) (\<lambda>n.
     rbind (read4 k (round * 16)) (\<lambda>last. write4 d pos (xor4 (aes_sub n) last)))))"

definition aes_round :: "bytes \<Rightarrow> u32 \<Rightarrow> u32 \<Rightarrow> u32 \<Rightarrow> (bytes, 'e) res" where
  "aes_round d pos key_offset round = aes_core (\<lambda>off. get_u32 d (key_offset + off)) d pos round"

definition aes_round_ks :: "bytes \<Rightarrow> bytes \<Rightarrow> u32 \<Rightarrow> u32 \<Rightarrow> (bytes, 'e) res" where
  "aes_round_ks ks d pos round = aes_core (\<lambda>off. get_u32 ks off) d pos round"

section \<open>The CBC loops\<close>

text \<open>\<open>for j in 0..16 { d[pi + j] ^= prev[j] }\<close>.\<close>

definition xor_prev :: "bytes \<Rightarrow> nat \<Rightarrow> bytes \<Rightarrow> (bytes, 'e) res" where
  "xor_prev d pi prev =
     rbind (idx_range d pi 16) (\<lambda>cur. put d pi (map2 (XOR) cur prev))"

definition cbc_body ::
  "(bytes \<Rightarrow> u32 \<Rightarrow> (bytes, 'e) res) \<Rightarrow> u32 \<Rightarrow> nat \<Rightarrow> bytes \<times> bytes \<Rightarrow> (bytes \<times> bytes, 'e) res" where
  "cbc_body block pos i st =
     (let p = pos + word_of_nat i * 16 in
      rbind (idx_range (fst st) (unat p) 16) (\<lambda>cur.
      rbind (block (fst st) p) (\<lambda>d.
      rbind (xor_prev d (unat p) (snd st)) (\<lambda>d. Ok (d, cur)))))"

definition aes_decrypt :: "bytes \<Rightarrow> u32 \<Rightarrow> u32 \<Rightarrow> u32 \<Rightarrow> (bytes, 'e) res" where
  "aes_decrypt d pos sz key_offset =
     rbind (get_u16 d (key_offset + 2)) (\<lambda>round.
     rbind (foldM (cbc_body (\<lambda>d p. aes_round d p (key_offset + 4) (ucast round)) pos)
              [0..<unat (drop_bit 4 sz)] (d, replicate 16 0)) (\<lambda>r. Ok (fst r)))"

definition aes_decrypt_ks :: "bytes \<Rightarrow> bytes \<Rightarrow> u32 \<Rightarrow> u32 \<Rightarrow> (bytes, 'e) res" where
  "aes_decrypt_ks ks d pos sz =
     rbind (idx_le 2 ks 2 :: (u16, 'e) res) (\<lambda>round.
     if length ks < 4 then Panic else
     rbind (foldM (cbc_body (\<lambda>d p. aes_round_ks (drop 4 ks) d p (ucast round)) pos)
              [0..<unat (drop_bit 4 sz)] (d, replicate 16 0)) (\<lambda>r. Ok (fst r)))"

definition aes_schedule_snapshot :: "bytes \<Rightarrow> u32 \<Rightarrow> bytes option" where
  "aes_schedule_snapshot d key_offset =
     (let base = unat key_offset in
      case get_le 2 d (base + 2) :: u16 option of
        None \<Rightarrow> None
      | Some w \<Rightarrow>
          let round = unat w in
          if 64 < round then None
          else (case chk_add base (4 + (round + 1) * 16) of
                  None \<Rightarrow> None
                | Some stop \<Rightarrow> if length d < stop then None else Some (window d base (stop - base))))"

section \<open>The published cipher\<close>

text \<open>The state of FIPS-197: rows and columns are indexed modulo 4.\<close>

type_synonym mtx = "4 \<Rightarrow> 4 \<Rightarrow> u8"

definition sub_bytes :: "mtx \<Rightarrow> mtx" where
  "sub_bytes m = (\<lambda>r c. word_of_int (fips_sbox ! unat (m r c)))"

definition shift_rows :: "mtx \<Rightarrow> mtx" where
  "shift_rows m = (\<lambda>r c. m r (c + r))"

definition mix_columns :: "mtx \<Rightarrow> mtx" where
  "mix_columns m = (\<lambda>r c. gf_mul 2 (m r c) XOR gf_mul 3 (m (r + 1) c) XOR m (r + 2) c XOR m (r + 3) c)"

definition add_round_key :: "mtx \<Rightarrow> mtx \<Rightarrow> mtx" where
  "add_round_key m k = (\<lambda>r c. m r c XOR k r c)"

fun cipher_rounds :: "(nat \<Rightarrow> mtx) \<Rightarrow> nat \<Rightarrow> mtx \<Rightarrow> mtx" where
  "cipher_rounds w 0 m = add_round_key m (w 0)"
| "cipher_rounds w (Suc i) m =
     add_round_key (mix_columns (shift_rows (sub_bytes (cipher_rounds w i m)))) (w (Suc i))"

definition fips_cipher :: "(nat \<Rightarrow> mtx) \<Rightarrow> nat \<Rightarrow> mtx \<Rightarrow> mtx" where
  "fips_cipher w nr m = add_round_key (shift_rows (sub_bytes (cipher_rounds w (nr - 1) m))) (w nr)"

definition inv_sub_bytes :: "mtx \<Rightarrow> mtx" where
  "inv_sub_bytes m = (\<lambda>r c. inv_sbox ! unat (m r c))"

definition inv_shift_rows :: "mtx \<Rightarrow> mtx" where
  "inv_shift_rows m = (\<lambda>r c. m r (c - r))"

definition inv_mix_columns :: "mtx \<Rightarrow> mtx" where
  "inv_mix_columns m = (\<lambda>r c. gf_mul 0x0e (m r c) XOR gf_mul 0x0b (m (r + 1) c)
     XOR gf_mul 0x0d (m (r + 2) c) XOR gf_mul 0x09 (m (r + 3) c))"

text \<open>The schedule of the equivalent inverse cipher (FIPS-197, 5.3.5).\<close>

definition inv_key :: "(nat \<Rightarrow> mtx) \<Rightarrow> nat \<Rightarrow> nat \<Rightarrow> mtx" where
  "inv_key w nr i = (if i = 0 then w nr else if i < nr then inv_mix_columns (w (nr - i)) else w 0)"

section \<open>The inverse transformations invert\<close>

lemma sub_bytes_eq: "sub_bytes m = (\<lambda>r c. sub_byte (m r c))"
  by (simp add: sub_bytes_def uint_sub_byte [symmetric])

lemma inv_sub_bytes: "inv_sub_bytes (sub_bytes m) = m"
  by (simp add: inv_sub_bytes_def sub_bytes_eq inv_sbox_sub_byte)

lemma inv_shift_rows: "inv_shift_rows (shift_rows m) = m"
  by (simp add: inv_shift_rows_def shift_rows_def)

lemma inv_shift_sub_commute: "inv_shift_rows (inv_sub_bytes m) = inv_sub_bytes (inv_shift_rows m)"
  by (simp add: inv_shift_rows_def inv_sub_bytes_def)

lemma add_round_key_twice [simp]: "add_round_key (add_round_key m k) k = m"
  by (simp add: add_round_key_def)

lemma gf_mul_uint: "gf_mul a b = word_of_int (gf_int 8 (uint a) (uint b) 0)"
  using uint_gf_loop [of 8 a b 0] by (metis gf_mul_def unsigned_0 word_of_int_uint)

lemma gf_consts:
  "gf_mul 0x0e 2 = 0x1c" "gf_mul 0x0e 3 = 0x12"
  "gf_mul 0x0b 2 = 0x16" "gf_mul 0x0b 3 = 0x1d"
  "gf_mul 0x0d 2 = 0x1a" "gf_mul 0x0d 3 = 0x17"
  "gf_mul 0x09 2 = 0x12" "gf_mul 0x09 3 = 0x1b"
  by (simp_all add: gf_mul_uint gf_int_eval)

lemma exhaust_4: "x = 0 \<or> x = 1 \<or> x = 2 \<or> x = (3 :: 4)"
proof (cases x)
  case (of_int z)
  then have "z = 0 \<or> z = 1 \<or> z = 2 \<or> z = 3" by auto
  then show ?thesis using of_int by auto
qed

lemma mod4_simps: "(1::4)+1 = 2" "(2::4)+1=3" "(3::4)+1=0" "(4::4) = 0" "(5::4) = 1" "(6::4) = 2"
 "- (1::4) = 3" "-(2::4) = 2" "-(3::4) = 1" "(0::4)-1 = 3"
  by simp_all

lemma inv_mix_columns: "inv_mix_columns (mix_columns m) = m"
proof (intro ext)
  fix r c :: 4
  let ?x0 = "m r c" and ?x1 = "m (r + 1) c" and ?x2 = "m (r + 2) c" and ?x3 = "m (r + 3) c"
  have s: "r + 1 + 1 = r + 2" "r + 1 + 2 = r + 3" "r + 1 + 3 = r" "r + 2 + 1 = r + 3" "r + 2 + 2 = r"
    "r + 2 + 3 = r + 1" "r + 3 + 1 = r" "r + 3 + 2 = r + 1" "r + 3 + 3 = r + 2"
    by (simp_all add: add.assoc)
  have m: "gf_mul a (gf_mul b x) = gf_mul (gf_mul a b) x" for a b x by (simp add: gf_mul_assoc)
  have col: "(gf_mul a x XOR gf_mul b x) = gf_mul (a XOR b) x" for a b x by (simp add: gf_mul_xor_left)
  show "inv_mix_columns (mix_columns m) r c = m r c"
    unfolding inv_mix_columns_def mix_columns_def s gf_mul_xor_right m gf_consts
  proof -
    have a0: "gf_mul 0x1c ?x0 XOR gf_mul 0x0b ?x0 XOR gf_mul 0x0d ?x0 XOR gf_mul 0x1b ?x0 = ?x0"
      by (simp add: col gf_mul_1_left)
    have a1: "gf_mul 0x12 ?x1 XOR gf_mul 0x16 ?x1 XOR gf_mul 0x0d ?x1 XOR gf_mul 0x09 ?x1 = 0"
      by (simp add: col gf_mul_0_left)
    have a2: "gf_mul 0x0e ?x2 XOR gf_mul 0x1d ?x2 XOR gf_mul 0x1a ?x2 XOR gf_mul 0x09 ?x2 = 0"
      by (simp add: col gf_mul_0_left)
    have a3: "gf_mul 0x0e ?x3 XOR gf_mul 0x0b ?x3 XOR gf_mul 0x17 ?x3 XOR gf_mul 0x12 ?x3 = 0"
      by (simp add: col gf_mul_0_left)
    show "(gf_mul 28 ?x0 XOR gf_mul 18 ?x1 XOR gf_mul 14 ?x2 XOR gf_mul 14 ?x3) XOR 
    (gf_mul 22 ?x1 XOR gf_mul 29 ?x2 XOR gf_mul 11 ?x3 XOR gf_mul 11 ?x0) XOR
    (gf_mul 26 ?x2 XOR gf_mul 23 ?x3 XOR gf_mul 13 ?x0 XOR gf_mul 13 ?x1) XOR 
    (gf_mul 18 ?x3 XOR gf_mul 27 ?x0 XOR gf_mul 9 ?x1 XOR gf_mul 9 ?x2) = ?x0"
      (is "?lhs = _")
    proof -
      have "?lhs =
          (gf_mul 0x1c ?x0 XOR gf_mul 0x0b ?x0 XOR gf_mul 0x0d ?x0 XOR gf_mul 0x1b ?x0)
          XOR (gf_mul 0x12 ?x1 XOR gf_mul 0x16 ?x1 XOR gf_mul 0x0d ?x1 XOR gf_mul 0x09 ?x1)
          XOR (gf_mul 0x0e ?x2 XOR gf_mul 0x1d ?x2 XOR gf_mul 0x1a ?x2 XOR gf_mul 0x09 ?x2)
          XOR (gf_mul 0x0e ?x3 XOR gf_mul 0x0b ?x3 XOR gf_mul 0x17 ?x3 XOR gf_mul 0x12 ?x3)"
        by (simp only: xor.assoc xor.commute xor.left_commute)
      then show ?thesis by (simp only: a0 a1 a2 a3) simp
    qed
  qed
qed

section \<open>The bytes of a table word\<close>

definition byte_at :: "nat \<Rightarrow> u32 \<Rightarrow> u8" where
  "byte_at k w = ucast (drop_bit (8 * k) w)"

lemma byte_at_xor: "byte_at k (a XOR b) = byte_at k a XOR byte_at k b"
  unfolding byte_at_def by (rule bit_word_eqI) (auto simp: bit_simps)

lemma byte_at_or: "byte_at k (a OR b) = byte_at k a OR byte_at k b"
  unfolding byte_at_def by (rule bit_word_eqI) (auto simp: bit_simps)

lemma byte_at_from_le: "k < 4 \<Longrightarrow> length bs = 4 \<Longrightarrow> byte_at k (from_le bs) = bs ! k"
  using nth_to_le [of k 4 "from_le bs :: u32"] to_le_from_le [of bs 4, where 'a = 32]
  by (simp add: byte_at_def)

lemma byte_at_eqI: "(\<And>k. k < 4 \<Longrightarrow> byte_at k a = byte_at k b) \<Longrightarrow> a = b"
proof -
  assume eq: "\<And>k. k < 4 \<Longrightarrow> byte_at k a = byte_at k b"
  have "to_le 4 a = to_le 4 b"
    by (rule nth_equalityI) (use eq in \<open>simp_all add: nth_to_le byte_at_def\<close>)
  moreover have "from_le (to_le 4 w) = w" for w :: u32 by (rule from_le_to_le) simp
  ultimately show "a = b" by metis
qed

lemma and_255: "(w AND 0xFF :: u32) = take_bit 8 w"
  by (simp add: take_bit_eq_mask mask_eq_exp_minus_1)

lemma and_push_255: "(w AND push_bit n 0xFF :: u32) = push_bit n (take_bit 8 (drop_bit n w))"
proof (rule bit_word_eqI)
  fix i assume "i < LENGTH(32)"
  have m: "(0xFF :: u32) = mask 8" by (simp add: mask_eq_exp_minus_1)
  show "bit (w AND push_bit n 0xFF) i \<longleftrightarrow> bit (push_bit n (take_bit 8 (drop_bit n w))) i"
    unfolding m bit_and_iff bit_push_bit_iff bit_mask_iff bit_take_bit_iff bit_drop_bit_eq by auto
qed

lemma unat_table_index:
  "unat ((drop_bit sh n AND 0xFF) * (4 :: u32)) = 4 * unat (ucast (drop_bit sh n) :: u8)"
proof -
  have m: "drop_bit sh n AND 0xFF = (ucast (ucast (drop_bit sh n) :: u8) :: u32)"
  proof (rule bit_word_eqI)
    fix i assume "i < LENGTH(32)"
    then show "bit (drop_bit sh n AND 0xFF) i \<longleftrightarrow> bit (ucast (ucast (drop_bit sh n) :: u8) :: u32) i"
      unfolding and_255 by (auto simp: bit_simps)
  qed
  have "unat (ucast b :: u32) = unat b" for b :: u8
  proof -
    have "unat b < 2 ^ 32" by (rule less_le_trans [OF unat_u8_bound]) simp
    then show ?thesis by (simp add: unsigned_ucast_eq take_bit_nat_eq_self)
  qed
  then have "unat (ucast (ucast (drop_bit sh n) :: u8) :: u32) = unat (ucast (drop_bit sh n) :: u8)" .
  moreover have "4 * unat (ucast (drop_bit sh n) :: u8) < 4294967296"
    using unat_u8_bound [of "ucast (drop_bit sh n)"] by linarith
  ultimately show ?thesis unfolding m by (simp add: unat_word_ariths mult.commute)
qed

lemma byte_at_table32:
  assumes "k < 4" and "length tab = 1024"
  shows "byte_at k (table32 tab n sh) = tab ! (4 * unat (ucast (drop_bit sh n) :: u8) + k)"
proof -
  have "unat (ucast (drop_bit sh n) :: u8) < 256" by simp
  then have "4 * unat (ucast (drop_bit sh n) :: u8) + 4 \<le> length tab" using assms by linarith
  then show ?thesis
    using assms by (simp add: table32_def unat_table_index byte_at_from_le length_window nth_window)
qed

lemma byte_at_cm:
  assumes "k < 4"
  shows "byte_at k (table32 (cm_table q) n (8 * j)) = cm_bytes (inv_sbox ! unat (byte_at j n)) ! ((k + q) mod 4)"
  unfolding byte_at_def [of j] using assms by (simp add: byte_at_table32 length_cm_table nth_cm_table)

lemma byte_at_sbox:
  assumes "k < 4"
  shows "byte_at k (table32 (sbox build_tables) n (8 * j)) = inv_sbox ! unat (byte_at j n)"
  unfolding byte_at_def [of j] using assms by (simp add: byte_at_table32 length_sbox_table nth_sbox_table)

lemma byte_at_and_mask: "byte_at k (w AND push_bit (8 * j) 0xFF) = (if k = j \<and> j < 4 then byte_at k w else 0)"
proof (rule bit_word_eqI)
  fix i assume i: "i < LENGTH(8)"
  have "8 * j \<le> 8 * k + i \<and> 8 * k + i - 8 * j < 8 \<longleftrightarrow> k = j" using i by auto
  then show "bit (byte_at k (w AND push_bit (8 * j) 0xFF)) i
      \<longleftrightarrow> bit (if k = j \<and> j < 4 then byte_at k w else 0) i"
    using i by (auto simp: byte_at_def bit_simps and_push_255)
qed

section \<open>Words and columns\<close>

definition col_word :: "mtx \<Rightarrow> 4 \<Rightarrow> u32" where
  "col_word m c = from_le [m 3 c, m 2 c, m 1 c, m 0 c]"

definition unmat :: "mtx \<Rightarrow> aes_state" where
  "unmat m = (col_word m 0, col_word m 1, col_word m 2, col_word m 3)"

lemma byte_at_col_word:
  "byte_at 0 (col_word m c) = m 3 c" "byte_at (Suc 0) (col_word m c) = m 2 c"
  "byte_at 2 (col_word m c) = m 1 c" "byte_at 3 (col_word m c) = m 0 c"
  unfolding col_word_def by (simp_all add: byte_at_from_le del: from_le.simps)

lemma less_4_cases: "k < 4 \<Longrightarrow> k = 0 \<or> k = Suc 0 \<or> k = 2 \<or> k = (3 :: nat)"
  by auto

lemma word_eq_col:
  assumes "byte_at 0 w = m 3 c" "byte_at (Suc 0) w = m 2 c" "byte_at 2 w = m 1 c" "byte_at 3 w = m 0 c"
  shows "w = col_word m c"
  using assms by (intro byte_at_eqI) (auto dest!: less_4_cases simp: byte_at_col_word)

lemma byte_at_mix_word:
  assumes "k < 4"
  shows "byte_at k (mix_word x0 x1 x2 x3 kw) =
    cm_bytes (inv_sbox ! unat (byte_at 2 x1)) ! ((k + 1) mod 4)
    XOR cm_bytes (inv_sbox ! unat (byte_at (Suc 0) x2)) ! ((k + 2) mod 4)
    XOR cm_bytes (inv_sbox ! unat (byte_at 3 x0)) ! (k mod 4)
    XOR cm_bytes (inv_sbox ! unat (byte_at 0 x3)) ! ((k + 3) mod 4) XOR byte_at k kw"
  using byte_at_cm [OF assms, of 1 x1 2] byte_at_cm [OF assms, of 2 x2 1]
    byte_at_cm [OF assms, of 0 x0 3] byte_at_cm [OF assms, of 3 x3 0]
  by (simp add: mix_word_def byte_at_xor build_tables_def)

lemma mix_word_col:
  "mix_word (col_word m c) (col_word m (c - 1)) (col_word m (c - 2)) (col_word m (c - 3)) (col_word k c)
     = col_word (add_round_key (inv_mix_columns (inv_shift_rows (inv_sub_bytes m))) k) c"
proof (rule word_eq_col)
  have s: "c - (1 :: 4) = c + 3" "c - (2 :: 4) = c + 2" "c - (3 :: 4) = c + 1"
    by (simp_all add: algebra_simps)
  have q: "(4 :: 4) = 0" "(5 :: 4) = 1" "(6 :: 4) = 2" by simp_all
  note def = add_round_key_def inv_mix_columns_def inv_shift_rows_def inv_sub_bytes_def
    byte_at_mix_word byte_at_col_word cm_bytes_def s q
  show "byte_at 0 (mix_word (col_word m c) (col_word m (c - 1)) (col_word m (c - 2)) (col_word m (c - 3)) (col_word k c))
     = add_round_key (inv_mix_columns (inv_shift_rows (inv_sub_bytes m))) k 3 c"
    by (simp add: def) (simp add: xor.assoc xor.commute xor.left_commute)
  show "byte_at (Suc 0) (mix_word (col_word m c) (col_word m (c - 1)) (col_word m (c - 2)) (col_word m (c - 3)) (col_word k c))
     = add_round_key (inv_mix_columns (inv_shift_rows (inv_sub_bytes m))) k 2 c"
    by (simp add: def) (simp add: xor.assoc xor.commute xor.left_commute)
  show "byte_at 2 (mix_word (col_word m c) (col_word m (c - 1)) (col_word m (c - 2)) (col_word m (c - 3)) (col_word k c))
     = add_round_key (inv_mix_columns (inv_shift_rows (inv_sub_bytes m))) k 1 c"
    by (simp add: def) (simp add: xor.assoc xor.commute xor.left_commute)
  show "byte_at 3 (mix_word (col_word m c) (col_word m (c - 1)) (col_word m (c - 2)) (col_word m (c - 3)) (col_word k c))
     = add_round_key (inv_mix_columns (inv_shift_rows (inv_sub_bytes m))) k 0 c"
    by (simp add: def) (simp add: xor.assoc xor.commute xor.left_commute)
qed

lemma aes_mix_unmat:
  "aes_mix (unmat m) (unmat k) = unmat (add_round_key (inv_mix_columns (inv_shift_rows (inv_sub_bytes m))) k)"
proof -
  have c: "(0 :: 4) - 1 = 3" "(0 :: 4) - 2 = 2" "(0 :: 4) - 3 = 1" "(1 :: 4) - 1 = 0" "(1 :: 4) - 2 = 3"
    "(1 :: 4) - 3 = 2" "(2 :: 4) - 1 = 1" "(2 :: 4) - 2 = 0" "(2 :: 4) - 3 = 3" "(3 :: 4) - 1 = 2"
    "(3 :: 4) - 2 = 1" "(3 :: 4) - 3 = 0"
    by simp_all
  show ?thesis
    unfolding unmat_def aes_mix.simps
    using mix_word_col [of m 0 k] mix_word_col [of m 1 k] mix_word_col [of m 2 k] mix_word_col [of m 3 k]
    by (simp only: c)
qed

lemma byte_at_sub_word:
  "byte_at 0 (sub_word x0 x1 x2 x3) = inv_sbox ! unat (byte_at 0 x3)"
  "byte_at (Suc 0) (sub_word x0 x1 x2 x3) = inv_sbox ! unat (byte_at (Suc 0) x2)"
  "byte_at 2 (sub_word x0 x1 x2 x3) = inv_sbox ! unat (byte_at 2 x1)"
  "byte_at 3 (sub_word x0 x1 x2 x3) = inv_sbox ! unat (byte_at 3 x0)"
proof -
  have m: "sub_word x0 x1 x2 x3 =
      (table32 (sbox build_tables) x0 (8 * 3) AND push_bit (8 * 3) 0xFF)
      OR (table32 (sbox build_tables) x1 (8 * 2) AND push_bit (8 * 2) 0xFF)
      OR (table32 (sbox build_tables) x2 (8 * 1) AND push_bit (8 * 1) 0xFF)
      OR (table32 (sbox build_tables) x3 (8 * 0) AND push_bit (8 * 0) 0xFF)"
    by (simp add: sub_word_def)
  have "byte_at k (sub_word x0 x1 x2 x3) =
      (if k = 3 then inv_sbox ! unat (byte_at 3 x0) else 0) OR (if k = 2 then inv_sbox ! unat (byte_at 2 x1) else 0)
      OR (if k = 1 then inv_sbox ! unat (byte_at 1 x2) else 0) OR (if k = 0 then inv_sbox ! unat (byte_at 0 x3) else 0)"
    if "k < 4" for k
    unfolding m byte_at_or byte_at_and_mask byte_at_sbox [OF that] by simp
  from this [of 0] this [of 1] this [of 2] this [of 3]
  show "byte_at 0 (sub_word x0 x1 x2 x3) = inv_sbox ! unat (byte_at 0 x3)"
    "byte_at (Suc 0) (sub_word x0 x1 x2 x3) = inv_sbox ! unat (byte_at (Suc 0) x2)"
    "byte_at 2 (sub_word x0 x1 x2 x3) = inv_sbox ! unat (byte_at 2 x1)"
    "byte_at 3 (sub_word x0 x1 x2 x3) = inv_sbox ! unat (byte_at 3 x0)"
    by simp_all
qed

lemma sub_word_col:
  "sub_word (col_word m c) (col_word m (c - 1)) (col_word m (c - 2)) (col_word m (c - 3))
     = col_word (inv_shift_rows (inv_sub_bytes m)) c"
  by (rule word_eq_col) (simp_all add: byte_at_sub_word byte_at_col_word inv_shift_rows_def inv_sub_bytes_def)

lemma aes_sub_unmat: "aes_sub (unmat m) = unmat (inv_shift_rows (inv_sub_bytes m))"
proof -
  have c: "(0 :: 4) - 1 = 3" "(0 :: 4) - 2 = 2" "(0 :: 4) - 3 = 1" "(1 :: 4) - 1 = 0" "(1 :: 4) - 2 = 3"
    "(1 :: 4) - 3 = 2" "(2 :: 4) - 1 = 1" "(2 :: 4) - 2 = 0" "(2 :: 4) - 3 = 3" "(3 :: 4) - 1 = 2"
    "(3 :: 4) - 2 = 1" "(3 :: 4) - 3 = 0"
    by simp_all
  show ?thesis
    unfolding unmat_def aes_sub.simps
    using sub_word_col [of m 0] sub_word_col [of m 1] sub_word_col [of m 2] sub_word_col [of m 3]
    by (simp only: c)
qed

lemma xor4_unmat: "xor4 (unmat m) (unmat k) = unmat (add_round_key m k)"
proof -
  have "col_word m c XOR col_word k c = col_word (add_round_key m k) c" for c
    by (rule word_eq_col) (simp_all add: byte_at_xor byte_at_col_word add_round_key_def)
  then show ?thesis by (simp add: unmat_def)
qed

section \<open>The decryption of one block\<close>

lemma mix_columns_of_inv: "mix_columns (inv_mix_columns m) = m"
proof (intro ext)
  fix r c :: 4
  let ?x0 = "m r c" and ?x1 = "m (r + 1) c" and ?x2 = "m (r + 2) c" and ?x3 = "m (r + 3) c"
  have s: "r + 1 + 1 = r + 2" "r + 1 + 2 = r + 3" "r + 1 + 3 = r" "r + 2 + 1 = r + 3" "r + 2 + 2 = r"
    "r + 2 + 3 = r + 1" "r + 3 + 1 = r" "r + 3 + 2 = r + 1" "r + 3 + 3 = r + 2"
    by (simp_all add: add.assoc)
  have m: "gf_mul a (gf_mul b x) = gf_mul (gf_mul a b) x" for a b x by (simp add: gf_mul_assoc)
  have c': "gf_mul 2 0x0e = 0x1c" "gf_mul 2 0x0b = 0x16" "gf_mul 2 0x0d = 0x1a" "gf_mul 2 0x09 = 0x12"
    "gf_mul 3 0x0e = 0x12" "gf_mul 3 0x0b = 0x1d" "gf_mul 3 0x0d = 0x17" "gf_mul 3 0x09 = 0x1b"
    using gf_consts by (simp_all only: gf_mul_comm)
  have col: "(gf_mul a x XOR gf_mul b x) = gf_mul (a XOR b) x" for a b x by (simp add: gf_mul_xor_left)
  have a0: "gf_mul 0x1c ?x0 XOR gf_mul 0x1b ?x0 XOR gf_mul 0x0d ?x0 XOR gf_mul 0x0b ?x0 = ?x0"
    by (simp add: col gf_mul_1_left)
  have a1: "gf_mul 0x16 ?x1 XOR gf_mul 0x12 ?x1 XOR gf_mul 0x09 ?x1 XOR gf_mul 0x0d ?x1 = 0"
    by (simp add: col gf_mul_0_left)
  have a2: "gf_mul 0x1a ?x2 XOR gf_mul 0x1d ?x2 XOR gf_mul 0x0e ?x2 XOR gf_mul 0x09 ?x2 = 0"
    by (simp add: col gf_mul_0_left)
  have a3: "gf_mul 0x12 ?x3 XOR gf_mul 0x17 ?x3 XOR gf_mul 0x0b ?x3 XOR gf_mul 0x0e ?x3 = 0"
    by (simp add: col gf_mul_0_left)
  have "mix_columns (inv_mix_columns m) r c =
    (gf_mul 0x1c ?x0 XOR gf_mul 0x1b ?x0 XOR gf_mul 0x0d ?x0 XOR gf_mul 0x0b ?x0) XOR
    (gf_mul 0x16 ?x1 XOR gf_mul 0x12 ?x1 XOR gf_mul 0x09 ?x1 XOR gf_mul 0x0d ?x1) XOR
    (gf_mul 0x1a ?x2 XOR gf_mul 0x1d ?x2 XOR gf_mul 0x0e ?x2 XOR gf_mul 0x09 ?x2) XOR
    (gf_mul 0x12 ?x3 XOR gf_mul 0x17 ?x3 XOR gf_mul 0x0b ?x3 XOR gf_mul 0x0e ?x3)"
    unfolding inv_mix_columns_def mix_columns_def s gf_mul_xor_right m c'
    by (simp only: xor.assoc xor.commute xor.left_commute)
  then show "mix_columns (inv_mix_columns m) r c = m r c" unfolding a0 a1 a2 a3 by simp
qed

lemma inv_mix_columns_xor:
  "inv_mix_columns (add_round_key a b) = add_round_key (inv_mix_columns a) (inv_mix_columns b)"
  by (intro ext)
    (simp add: inv_mix_columns_def add_round_key_def gf_mul_xor_right xor.assoc xor.commute xor.left_commute)

text \<open>After \<open>i\<close> rounds of decryption the state is the substituted state of cipher round \<open>nr - 1 - i\<close>.\<close>

lemma decrypt_step:
  assumes "0 < i"
  shows "add_round_key (inv_mix_columns (inv_shift_rows (inv_sub_bytes
      (shift_rows (sub_bytes (cipher_rounds w i m)))))) (inv_mix_columns (w i))
    = shift_rows (sub_bytes (cipher_rounds w (i - 1) m))"
proof -
  obtain j where i: "i = Suc j" using assms by (cases i) auto
  have "inv_shift_rows (inv_sub_bytes (shift_rows (sub_bytes x))) = x" for x
    by (simp only: inv_shift_sub_commute inv_shift_rows inv_sub_bytes)
  then show ?thesis
    by (simp add: i inv_mix_columns_xor [symmetric] inv_mix_columns)
qed

section \<open>The round as a function of the block\<close>

definition state_of :: "bytes \<Rightarrow> aes_state" where
  "state_of bs =
     (swap_bytes (from_le (window bs 0 4)), swap_bytes (from_le (window bs 4 4)),
      swap_bytes (from_le (window bs 8 4)), swap_bytes (from_le (window bs 12 4)))"

fun state_bytes :: "aes_state \<Rightarrow> bytes" where
  "state_bytes (a, b, c, e) =
     to_le 4 (swap_bytes a) @ to_le 4 (swap_bytes b) @ to_le 4 (swap_bytes c) @ to_le 4 (swap_bytes e)"

lemma length_state_bytes [simp]: "length (state_bytes s) = 16"
  by (cases s) simp

definition block_fn :: "(nat \<Rightarrow> aes_state) \<Rightarrow> nat \<Rightarrow> bytes \<Rightarrow> bytes" where
  "block_fn kw nr bs =
     state_bytes (xor4 (aes_sub (fold (\<lambda>r n. aes_mix n (kw r)) [1..<nr] (xor4 (state_of bs) (kw 0)))) (kw nr))"

lemma length_block_fn [simp]: "length (block_fn kw nr bs) = 16"
  by (simp add: block_fn_def)

lemma unat_add_offset:
  fixes p :: u32
  assumes "unat p + n \<le> 2 ^ 32" and "j < n"
  shows "unat (p + word_of_nat j) = unat p + j"
proof -
  have "unat (word_of_nat j :: u32) = j" using assms by (simp add: unat_of_nat)
  then show ?thesis using assms by (simp add: unat_add_no_wrap)
qed

lemma get_u32_block:
  fixes p :: u32
  assumes "unat p + 16 \<le> length d" and "length d \<le> 2 ^ 32"
  shows "get_u32 d p = Ok (from_le (window (window d (unat p) 16) 0 4))"
    "get_u32 d (p + 4) = Ok (from_le (window (window d (unat p) 16) 4 4))"
    "get_u32 d (p + 8) = Ok (from_le (window (window d (unat p) 16) 8 4))"
    "get_u32 d (p + 12) = Ok (from_le (window (window d (unat p) 16) 12 4))"
  using assms unat_add_offset [of p 16 4] unat_add_offset [of p 16 8] unat_add_offset [of p 16 12]
  by (simp_all add: get_u32_def idx_le_in window_window)

lemma read4_block:
  fixes p :: u32
  assumes "unat p + 16 \<le> length d" and "length d \<le> 2 ^ 32"
  shows "read4 (\<lambda>off. rbind (get_u32 d off) (\<lambda>w. Ok (swap_bytes w))) p = Ok (state_of (window d (unat p) 16))"
  by (simp add: read4_def state_of_def get_u32_block [OF assms])

lemma write4_block:
  fixes p :: u32
  assumes "unat p + 16 \<le> length d" and "length d \<le> 2 ^ 32"
  shows "write4 d p s = Ok (patch d (unat p) (state_bytes s))"
proof -
  obtain a b c e where s: "s = (a, b, c, e)" by (cases s)
  let ?d1 = "patch d (unat p) (to_le 4 (swap_bytes a))"
  let ?d2 = "patch d (unat p) (to_le 4 (swap_bytes a) @ to_le 4 (swap_bytes b))"
  let ?d3 = "patch d (unat p) (to_le 4 (swap_bytes a) @ to_le 4 (swap_bytes b) @ to_le 4 (swap_bytes c))"
  have o: "unat (p + 4) = unat p + 4" "unat (p + 8) = unat p + 8" "unat (p + 12) = unat p + 12"
    using assms unat_add_offset [of p 16 4] unat_add_offset [of p 16 8] unat_add_offset [of p 16 12] by simp_all
  have 1: "write_u32 d p (swap_bytes a) = Ok ?d1"
    using assms by (simp add: write_u32_def put_le_in)
  have 2: "write_u32 ?d1 (p + 4) (swap_bytes b) = Ok ?d2"
    using assms patch_patch_adjacent [of "unat p" "to_le 4 (swap_bytes a)" "to_le 4 (swap_bytes b)" d]
    by (simp add: write_u32_def o put_le_in length_patch)
  have 3: "write_u32 ?d2 (p + 8) (swap_bytes c) = Ok ?d3"
    using assms patch_patch_adjacent [of "unat p" "to_le 4 (swap_bytes a) @ to_le 4 (swap_bytes b)" "to_le 4 (swap_bytes c)" d]
    by (simp add: write_u32_def o put_le_in length_patch)
  have 4: "write_u32 ?d3 (p + 12) (swap_bytes e) = Ok (patch d (unat p) (state_bytes s))"
    using assms patch_patch_adjacent [of "unat p" "to_le 4 (swap_bytes a) @ to_le 4 (swap_bytes b) @ to_le 4 (swap_bytes c)" "to_le 4 (swap_bytes e)" d]
    by (simp add: write_u32_def o put_le_in length_patch s)
  show ?thesis unfolding s write4.simps by (simp only: 1 2 3 4 [unfolded s] rbind.simps)
qed

lemma aes_rounds_fold:
  assumes "\<And>r. r \<in> set rs \<Longrightarrow> read4 k (word_of_nat r * 16) = (Ok (kw r) :: (aes_state, 'e) res)"
  shows "foldM (\<lambda>r n. rbind (read4 k (word_of_nat r * 16)) (\<lambda>kr. Ok (aes_mix n kr))) rs n =
    (Ok (fold (\<lambda>r n. aes_mix n (kw r)) rs n) :: (aes_state, 'e) res)"
  using assms by (induction rs arbitrary: n) simp_all

lemma aes_core_block:
  fixes p round :: u32
  assumes keys: "\<And>i. i \<le> unat round \<Longrightarrow> read4 k (word_of_nat i * 16) = (Ok (kw i) :: (aes_state, 'e) res)"
    and "unat p + 16 \<le> length d" and "length d \<le> 2 ^ 32"
  shows "aes_core k d p round = Ok (patch d (unat p) (block_fn kw (unat round) (window d (unat p) 16)))"
proof -
  have k0: "read4 k 0 = Ok (kw 0)" using keys [of 0] by simp
  have kn: "read4 k (round * 16) = Ok (kw (unat round))" using keys [of "unat round"] by simp
  have f: "foldM (\<lambda>r n. rbind (read4 k (word_of_nat r * 16)) (\<lambda>kr. Ok (aes_mix n kr))) [1..<unat round] n =
      Ok (fold (\<lambda>r n. aes_mix n (kw r)) [1..<unat round] n)" for n
    by (rule aes_rounds_fold) (use keys in simp)
  show ?thesis
    unfolding aes_core_def read4_block [OF assms(2,3)] rbind.simps k0 kn f
    by (simp add: write4_block [OF assms(2,3)] block_fn_def)
qed

section \<open>Blocks of the published cipher\<close>

definition block_bytes :: "mtx \<Rightarrow> bytes" where
  "block_bytes m = concat (map (\<lambda>c. [m 0 c, m 1 c, m 2 c, m 3 c]) [0, 1, 2, 3])"

definition key_bytes :: "mtx \<Rightarrow> bytes" where
  "key_bytes m = concat (map (\<lambda>c. [m 3 c, m 2 c, m 1 c, m 0 c]) [0, 1, 2, 3])"

lemma length_block_bytes [simp]: "length (block_bytes m) = 16" "length (key_bytes m) = 16"
  by (simp_all add: block_bytes_def key_bytes_def)

lemma swap_swap: "length bs = 4 \<Longrightarrow> swap_bytes (from_le bs) = from_le (rev bs)"
  by (simp add: swap_bytes_def to_le_from_le)

lemma state_of_block_bytes: "state_of (block_bytes m) = unmat m"
  by (simp add: state_of_def unmat_def col_word_def block_bytes_def window_def swap_swap del: from_le.simps)

lemma state_bytes_unmat: "state_bytes (unmat m) = block_bytes m"
  by (simp add: unmat_def col_word_def block_bytes_def swap_swap to_le_from_le del: from_le.simps to_le.simps)

lemma block_fn_cipher:
  assumes "0 < nr"
  shows "block_fn (\<lambda>i. unmat (inv_key w nr i)) nr (block_bytes (fips_cipher w nr m)) = block_bytes m"
proof -
  let ?x = "\<lambda>i. shift_rows (sub_bytes (cipher_rounds w i m))"
  let ?step = "\<lambda>r n. aes_mix n (unmat (inv_key w nr r))"
  have start: "xor4 (unmat (fips_cipher w nr m)) (unmat (inv_key w nr 0)) = unmat (?x (nr - 1))"
    by (simp add: xor4_unmat fips_cipher_def inv_key_def)
  have loop: "fold ?step [1..<1 + j] (unmat (?x (nr - 1))) = unmat (?x (nr - 1 - j))" if "j < nr" for j
    using that
  proof (induction j)
    case (Suc j)
    have "aes_mix (unmat (?x (nr - 1 - j))) (unmat (inv_key w nr (Suc j))) = unmat (?x (nr - 1 - Suc j))"
      using decrypt_step [of "nr - 1 - j" w m] Suc.prems
      by (simp add: aes_mix_unmat inv_key_def)
    with Suc show ?case by simp
  qed simp
  have n: "fold ?step [1..<nr] (unmat (?x (nr - 1))) = unmat (?x 0)"
    using loop [of "nr - 1"] assms by simp
  have x: "inv_shift_rows (inv_sub_bytes (?x 0)) = cipher_rounds w 0 m"
    by (simp only: inv_shift_sub_commute inv_shift_rows inv_sub_bytes)
  have k: "inv_key w nr nr = w 0" using assms by (simp add: inv_key_def)
  show ?thesis
    unfolding block_fn_def state_of_block_bytes start n
    unfolding aes_sub_unmat x k xor4_unmat
    by (simp add: state_bytes_unmat)
qed

section \<open>Where the schedule comes from\<close>

definition kw_at :: "bytes \<Rightarrow> nat \<Rightarrow> nat \<Rightarrow> aes_state" where
  "kw_at ks off i =
     (let w = window ks (off + 16 * i) 16 in
      (from_le (window w 0 4), from_le (window w 4 4), from_le (window w 8 4), from_le (window w 12 4)))"

lemma read4_schedule:
  fixes key :: u32
  assumes "unat key + 16 * (i + 1) \<le> length ks" and "length ks \<le> 2 ^ 32"
  shows "read4 (\<lambda>off. get_u32 ks (key + off)) (word_of_nat i * 16) = Ok (kw_at ks (unat key) i)"
proof -
  have "16 * i < (2 :: nat) ^ 32" using assms by simp
  then have "unat (word_of_nat i * 16 :: u32) = 16 * i" by (simp add: unat_word_ariths unat_of_nat)
  then have o: "unat (key + word_of_nat i * 16) = unat key + 16 * i"
    using assms by (simp add: unat_add_no_wrap)
  have "unat (key + word_of_nat i * 16) + 16 \<le> length ks" using assms o by simp
  note g = get_u32_block [OF this assms(2)]
  show ?thesis
    unfolding read4_def kw_at_def Let_def by (simp add: add.assoc [symmetric] g [unfolded o])
qed

section \<open>Chained blocks\<close>

fun blocks_at :: "bytes \<Rightarrow> nat \<Rightarrow> nat \<Rightarrow> bytes list" where
  "blocks_at d off 0 = []"
| "blocks_at d off (Suc n) = window d off 16 # blocks_at d (off + 16) n"

lemma length_blocks_at [simp]: "length (blocks_at d off n) = n"
  by (induction n arbitrary: off) auto

lemma blocks_at_lengths: "off + 16 * n \<le> length d \<Longrightarrow> \<forall>c\<in>set (blocks_at d off n). length c = 16"
proof (induction n arbitrary: off)
  case (Suc n)
  have "length (window d off 16) = 16" using Suc.prems by (simp add: length_window)
  moreover have "off + 16 + 16 * n \<le> length d" using Suc.prems by simp
  ultimately show ?case using Suc.IH by simp
qed simp

fun cbc_dec :: "(bytes \<Rightarrow> bytes) \<Rightarrow> bytes \<Rightarrow> bytes list \<Rightarrow> bytes list" where
  "cbc_dec f prev [] = []"
| "cbc_dec f prev (c # cs) = map2 (XOR) (f c) prev # cbc_dec f c cs"

text \<open>The interface of a block decryption that works inside a buffer: on a \<open>safe\<close> region it replaces a
  block by a function of it, and overwriting the region changes neither that function nor safety.\<close>

locale block_in_buffer =
  fixes block :: "bytes \<Rightarrow> u32 \<Rightarrow> (bytes, 'e) res"
    and fn :: "bytes \<Rightarrow> bytes \<Rightarrow> bytes"
    and safe :: "bytes \<Rightarrow> nat \<Rightarrow> nat \<Rightarrow> bool"
  assumes safe_bounds: "safe d off m \<Longrightarrow> off + m \<le> length d \<and> length d \<le> 2 ^ 32"
    and block_fn: "\<lbrakk>safe d off m; off \<le> unat p; unat p + 16 \<le> off + m\<rbrakk> \<Longrightarrow>
      block d p = Ok (patch d (unat p) (fn d (window d (unat p) 16)))"
    and stable: "\<lbrakk>safe d off m; off \<le> q; q + length bs \<le> off + m\<rbrakk> \<Longrightarrow>
      safe (patch d q bs) off m \<and> fn (patch d q bs) = fn d"
    and length_fn: "length (fn d bs) = 16"
begin

lemma length_cbc_dec: "\<lbrakk>length prev = 16; \<forall>c\<in>set cs. length c = 16\<rbrakk> \<Longrightarrow>
    length (concat (cbc_dec (fn d) prev cs)) = 16 * length cs"
  by (induction cs arbitrary: prev) (auto simp: length_fn)

lemma cbc_body_step:
  assumes "safe d off m" and "off = unat pos" and "16 * (i + 1) \<le> m" and "length prev = 16"
  shows "cbc_body block pos i (d, prev) =
    Ok (patch d (off + 16 * i) (map2 (XOR) (fn d (window d (off + 16 * i) 16)) prev), window d (off + 16 * i) 16)"
proof -
  have b: "off + m \<le> length d" "length d \<le> 2 ^ 32" using safe_bounds [OF assms(1)] by auto
  have "16 * i < (2 :: nat) ^ 32" using b assms by simp
  then have "unat (word_of_nat i * 16 :: u32) = 16 * i" by (simp add: unat_word_ariths unat_of_nat)
  then have o: "unat (pos + word_of_nat i * 16) = off + 16 * i"
    using assms b by (simp add: unat_add_no_wrap)
  let ?q = "off + 16 * i" let ?f = "fn d (window d ?q 16)"
  have len: "length ?f = 16" by (rule length_fn)
  have "block d (pos + word_of_nat i * 16) = Ok (patch d ?q ?f)"
    using block_fn [OF assms(1), of "pos + word_of_nat i * 16"] assms by (simp add: o)
  moreover have "xor_prev (patch d ?q ?f) ?q prev = (Ok (patch d ?q (map2 (XOR) ?f prev)) :: (bytes, 'e) res)"
    using assms b len
    by (simp add: xor_prev_def idx_range_in put_in length_patch window_patch_same patch_twice)
  moreover have "idx_range d ?q 16 = (Ok (window d ?q 16) :: (bytes, 'e) res)"
    using assms b by (simp add: idx_range_in)
  ultimately show ?thesis by (simp add: cbc_body_def o)
qed

lemma cbc_loop:
  assumes "safe d (unat pos) m" and "16 * (i + n) \<le> m" and "length prev = 16"
  shows "\<exists>last. foldM (cbc_body block pos) [i..<i + n] (d, prev) =
    Ok (patch d (unat pos + 16 * i) (concat (cbc_dec (fn d) prev (blocks_at d (unat pos + 16 * i) n))), last)"
  using assms
proof (induction n arbitrary: i d prev)
  case (Suc n)
  let ?q = "unat pos + 16 * i"
  let ?c = "window d ?q 16"
  let ?p = "map2 (XOR) (fn d ?c) prev"
  let ?d = "patch d ?q ?p"
  have b: "unat pos + m \<le> length d" "length d \<le> 2 ^ 32" using safe_bounds [OF Suc.prems(1)] by auto
  have len: "length ?p = 16" using Suc.prems length_fn by simp
  have q16: "?q + 16 + 16 * n \<le> length d" using Suc.prems b by simp
  have body: "cbc_body block pos i (d, prev) = Ok (?d, ?c)"
    by (rule cbc_body_step [OF Suc.prems(1) refl]) (use Suc.prems in simp_all)
  have st: "safe ?d (unat pos) m" "fn ?d = fn d"
    using stable [OF Suc.prems(1), of ?q ?p] Suc.prems len by auto
  have rest: "blocks_at ?d (?q + 16) n = blocks_at d (?q + 16) n"
  proof -
    have "blocks_at ?d x k = blocks_at d x k" if "?q + 16 \<le> x" for x k
      using that q16 len by (induction k arbitrary: x) (simp_all add: window_patch_disjoint)
    then show ?thesis by simp
  qed
  note cs = blocks_at_lengths
  have upt: "[i..<i + Suc n] = i # [Suc i..<Suc i + n]" by (simp add: upt_conv_Cons)
  have c16: "length ?c = 16" using q16 by (simp add: length_window)
  have off: "unat pos + 16 * Suc i = ?q + 16" by simp
  have m: "16 * (Suc i + n) \<le> m" using Suc.prems by simp
  obtain last where IH: "foldM (cbc_body block pos) [Suc i..<Suc i + n] (?d, ?c) =
      Ok (patch ?d (?q + 16) (concat (cbc_dec (fn d) ?c (blocks_at d (?q + 16) n))), last)"
    using Suc.IH [OF st(1) m c16] unfolding off st(2) rest by blast
  let ?tail = "concat (cbc_dec (fn d) ?c (blocks_at d (?q + 16) n))"
  have "length ?tail = 16 * n"
    using length_cbc_dec [OF c16 cs [OF q16], of d] by simp
  then have "patch ?d (?q + 16) ?tail = patch d ?q (?p @ ?tail)"
    using patch_patch_adjacent [of ?q ?p ?tail d] len q16 by simp
  then show ?case unfolding upt using body IH by simp
qed simp

end

text \<open>The two round functions of the code provide the interface, each with its own place for the
  schedule: \<open>rounds + 1\<close> round keys at \<open>kp\<close> of the same buffer, or of a snapshot.\<close>

definition sched_fn :: "u32 \<Rightarrow> nat \<Rightarrow> bytes \<Rightarrow> bytes \<Rightarrow> bytes" where
  "sched_fn rounds kp ks = block_fn (kw_at ks kp) (unat rounds)"

definition buffer_safe :: "u32 \<Rightarrow> u32 \<Rightarrow> bytes \<Rightarrow> nat \<Rightarrow> nat \<Rightarrow> bool" where
  "buffer_safe rounds kp d off m \<longleftrightarrow>
     off + m \<le> length d \<and> length d \<le> 2 ^ 32 \<and> unat kp + 16 * (unat rounds + 1) \<le> length d \<and>
     (off + m \<le> unat kp \<or> unat kp + 16 * (unat rounds + 1) \<le> off)"

definition snapshot_safe :: "u32 \<Rightarrow> bytes \<Rightarrow> bytes \<Rightarrow> nat \<Rightarrow> nat \<Rightarrow> bool" where
  "snapshot_safe rounds ks d off m \<longleftrightarrow>
     off + m \<le> length d \<and> length d \<le> 2 ^ 32 \<and> 16 * (unat rounds + 1) \<le> length ks \<and> length ks \<le> 2 ^ 32"

lemma kw_at_cong:
  assumes "\<And>i. i \<le> n \<Longrightarrow> window ks (kp + 16 * i) 16 = window ks' (kp' + 16 * i) 16" and "i \<le> n"
  shows "kw_at ks kp i = kw_at ks' kp' i"
  using assms by (simp add: kw_at_def)

lemma block_fn_cong:
  assumes "\<And>i. i \<le> n \<Longrightarrow> kw i = kw' i"
  shows "block_fn kw n bs = block_fn kw' n bs"
proof -
  have "fold (\<lambda>r n. aes_mix n (kw r)) [1..<n] s = fold (\<lambda>r n. aes_mix n (kw' r)) [1..<n] s" for s
    by (rule fold_cong) (use assms in auto)
  then show ?thesis using assms by (simp add: block_fn_def)
qed

interpretation in_buffer: block_in_buffer
  "\<lambda>d p. aes_round d p kp rounds" "sched_fn rounds (unat kp)" "buffer_safe rounds kp"
proof (unfold_locales)
  fix d off m
  assume "buffer_safe rounds kp d off m"
  then show "off + m \<le> length d \<and> length d \<le> 2 ^ 32" by (simp add: buffer_safe_def)
next
  fix d off m and p :: u32
  assume s: "buffer_safe rounds kp d off m" and p: "off \<le> unat p" "unat p + 16 \<le> off + m"
  have "read4 (\<lambda>off. get_u32 d (kp + off)) (word_of_nat i * 16) = Ok (kw_at d (unat kp) i)"
    if "i \<le> unat rounds" for i
    by (rule read4_schedule) (use s that in \<open>auto simp: buffer_safe_def\<close>)
  then show "aes_round d p kp rounds = Ok (patch d (unat p) (sched_fn rounds (unat kp) d (window d (unat p) 16)))"
    unfolding aes_round_def sched_fn_def by (rule aes_core_block) (use s p in \<open>auto simp: buffer_safe_def\<close>)
next
  fix d off m q and bs :: bytes
  assume s: "buffer_safe rounds kp d off m" and q: "off \<le> q" "q + length bs \<le> off + m"
  then have len: "length (patch d q bs) = length d" by (simp add: buffer_safe_def length_patch)
  have "window (patch d q bs) (unat kp + 16 * i) 16 = window d (unat kp + 16 * i) 16"
    if "i \<le> unat rounds" for i
    by (rule window_patch_disjoint) (use s q that in \<open>auto simp: buffer_safe_def\<close>)
  then have "sched_fn rounds (unat kp) (patch d q bs) = sched_fn rounds (unat kp) d"
    by (intro ext) (auto simp: sched_fn_def intro!: block_fn_cong kw_at_cong [where n = "unat rounds"])
  then show "buffer_safe rounds kp (patch d q bs) off m
      \<and> sched_fn rounds (unat kp) (patch d q bs) = sched_fn rounds (unat kp) d"
    using s by (simp add: buffer_safe_def len)
qed (simp add: sched_fn_def)

interpretation in_snapshot: block_in_buffer
  "\<lambda>d p. aes_round_ks ks d p rounds" "\<lambda>d. sched_fn rounds 0 ks" "snapshot_safe rounds ks"
proof (unfold_locales)
  fix d off m
  assume "snapshot_safe rounds ks d off m"
  then show "off + m \<le> length d \<and> length d \<le> 2 ^ 32" by (simp add: snapshot_safe_def)
next
  fix d off m and p :: u32
  assume s: "snapshot_safe rounds ks d off m" and p: "off \<le> unat p" "unat p + 16 \<le> off + m"
  have "read4 (\<lambda>off. get_u32 ks off) (word_of_nat i * 16) = Ok (kw_at ks 0 i)"
    if "i \<le> unat rounds" for i
    using read4_schedule [of 0 i ks] s that by (simp add: snapshot_safe_def)
  then show "aes_round_ks ks d p rounds = Ok (patch d (unat p) (sched_fn rounds 0 ks (window d (unat p) 16)))"
    unfolding aes_round_ks_def sched_fn_def by (rule aes_core_block) (use s p in \<open>auto simp: snapshot_safe_def\<close>)
next
  fix d off m q and bs :: bytes
  assume "snapshot_safe rounds ks d off m" and "off \<le> q" "q + length bs \<le> off + m"
  then show "snapshot_safe rounds ks (patch d q bs) off m \<and> sched_fn rounds 0 ks = sched_fn rounds 0 ks"
    by (simp add: snapshot_safe_def length_patch)
qed (simp add: sched_fn_def)

section \<open>Properties\<close>

lemma kw_at_key_bytes: "window ks (kp + 16 * i) 16 = key_bytes m \<Longrightarrow> kw_at ks kp i = unmat m"
  by (simp add: kw_at_def unmat_def col_word_def key_bytes_def window_def del: from_le.simps)

lemma sched_fn_cipher:
  assumes "0 < unat rounds" and "\<And>i. i \<le> unat rounds \<Longrightarrow> window ks (kp + 16 * i) 16 = key_bytes (inv_key w (unat rounds) i)"
  shows "sched_fn rounds kp ks (block_bytes (fips_cipher w (unat rounds) m)) = block_bytes m"
proof -
  have "sched_fn rounds kp ks bs = block_fn (\<lambda>i. unmat (inv_key w (unat rounds) i)) (unat rounds) bs" for bs
    unfolding sched_fn_def by (rule block_fn_cong) (use assms in \<open>simp add: kw_at_key_bytes\<close>)
  then show ?thesis using assms(1) by (simp add: block_fn_cipher)
qed

fun cbc_enc :: "(mtx \<Rightarrow> mtx) \<Rightarrow> mtx \<Rightarrow> mtx list \<Rightarrow> mtx list" where
  "cbc_enc e prev [] = []"
| "cbc_enc e prev (m # ms) = (let c = e (add_round_key m prev) in c # cbc_enc e c ms)"

lemma length_cbc_enc [simp]: "length (cbc_enc e prev ms) = length ms"
  by (induction ms arbitrary: prev) (auto simp: Let_def)

lemma xor_block_bytes: "map2 (XOR) (block_bytes a) (block_bytes b) = block_bytes (add_round_key a b)"
  by (simp add: block_bytes_def add_round_key_def)

lemma cbc_dec_enc:
  assumes "\<And>m. f (block_bytes (e m)) = block_bytes m"
  shows "cbc_dec f (block_bytes prev) (map block_bytes (cbc_enc e prev ms)) = map block_bytes ms"
  by (induction ms arbitrary: prev) (simp_all add: Let_def assms xor_block_bytes)

lemma blocks_at_concat:
  assumes "window d off (16 * length bs) = concat bs" and "\<forall>b\<in>set bs. length b = 16"
  shows "blocks_at d off (length bs) = bs"
  using assms
proof (induction bs arbitrary: off)
  case (Cons b bs)
  have s: "window d off (16 * length (b # bs)) = window d off 16 @ window d (off + 16) (16 * length bs)"
    using window_append_split [of d off 16 "16 * length bs"] by simp
  have tot: "length (concat bs) = 16 * length bs" using Cons.prems(2)
    by (induction bs) auto
  have "length (window d (off + 16) (16 * length bs)) \<le> 16 * length bs" by (simp add: window_def)
  moreover have "length (window d off 16) \<le> 16" by (simp add: window_def)
  moreover have "length (window d off 16) + length (window d (off + 16) (16 * length bs)) = 16 + 16 * length bs"
    using arg_cong [OF Cons.prems(1), of length] Cons.prems(2) unfolding s by (simp add: tot)
  ultimately have "length (window d off 16) = length b" using Cons.prems(2) by simp
  then have "window d off 16 = b" "window d (off + 16) (16 * length bs) = concat bs"
    using Cons.prems(1) unfolding s by simp_all
  then show ?case using Cons by simp
qed simp

lemma zero_block: "replicate 16 0 = block_bytes (\<lambda>r c. 0)"
  by (simp add: block_bytes_def numeral_eq_Suc)

lemma unat_drop_bit_4: "unat (drop_bit 4 (sz :: u32)) = unat sz div 16"
  by (simp add: drop_bit_eq_div unat_div)

lemma aes_decrypt_region:
  assumes "get_u16 d (key + 2) = (Ok r :: (u16, 'e) res)"
    and "buffer_safe (ucast r) (key + 4) d (unat pos) (16 * (unat sz div 16))"
  shows "aes_decrypt d pos sz key =
    (Ok (patch d (unat pos) (concat (cbc_dec (sched_fn (ucast r) (unat (key + 4)) d) (replicate 16 0)
       (blocks_at d (unat pos) (unat sz div 16))))) :: (bytes, 'e) res)"
proof -
  obtain last where "foldM (cbc_body (\<lambda>d p. aes_round d p (key + 4) (ucast r)) pos) [0..<0 + unat sz div 16]
      (d, replicate 16 0) = (Ok (patch d (unat pos + 16 * 0) (concat (cbc_dec (sched_fn (ucast r) (unat (key + 4)) d)
       (replicate 16 0) (blocks_at d (unat pos + 16 * 0) (unat sz div 16)))), last) :: (bytes \<times> bytes, 'e) res)"
    using in_buffer.cbc_loop [OF assms(2), of 0 "unat sz div 16" "replicate 16 0"] by auto
  then show ?thesis by (simp add: aes_decrypt_def assms(1) unat_drop_bit_4)
qed

lemma aes_decrypt_ks_region:
  assumes "get_le 2 ks 2 = Some (r :: u16)"
    and "snapshot_safe (ucast r) (drop 4 ks) d (unat pos) (16 * (unat sz div 16))"
  shows "aes_decrypt_ks ks d pos sz =
    (Ok (patch d (unat pos) (concat (cbc_dec (sched_fn (ucast r) 0 (drop 4 ks)) (replicate 16 0)
       (blocks_at d (unat pos) (unat sz div 16))))) :: (bytes, 'e) res)"
proof -
  have "4 \<le> length ks" using assms(1) by (simp add: res_conv)
  moreover obtain last where "foldM (cbc_body (\<lambda>d p. aes_round_ks (drop 4 ks) d p (ucast r)) pos) [0..<0 + unat sz div 16]
      (d, replicate 16 0) = (Ok (patch d (unat pos + 16 * 0) (concat (cbc_dec (sched_fn (ucast r) 0 (drop 4 ks))
       (replicate 16 0) (blocks_at d (unat pos + 16 * 0) (unat sz div 16)))), last) :: (bytes \<times> bytes, 'e) res)"
    using in_snapshot.cbc_loop [OF assms(2), of 0 "unat sz div 16" "replicate 16 0"] by auto
  ultimately show ?thesis using assms(1) by (simp add: aes_decrypt_ks_def idx_le_def unat_drop_bit_4)
qed

text \<open>C1. \<open>aes_round\<close> is the inverse cipher of FIPS-197: when the schedule in the buffer is the one of the
  equivalent inverse cipher, a block encrypted by the published cipher (S-box, ShiftRows, MixColumns,
  round keys \<open>w\<close>, any number of rounds) is replaced by its plaintext and nothing else changes.\<close>

theorem aes_round_inverts_fips:
  fixes pos key rounds :: u32
  assumes "0 < unat rounds"
    and "\<forall>i\<le>unat rounds. window d (unat key + 16 * i) 16 = key_bytes (inv_key w (unat rounds) i)"
    and "unat key + 16 * (unat rounds + 1) \<le> length d" and "length d \<le> 2 ^ 32"
    and "unat pos + 16 \<le> length d" and "window d (unat pos) 16 = block_bytes (fips_cipher w (unat rounds) m)"
  shows "aes_round d pos key rounds = (Ok (patch d (unat pos) (block_bytes m)) :: (bytes, 'e) res)"
proof -
  have "read4 (\<lambda>off. get_u32 d (key + off)) (word_of_nat i * 16) = (Ok (kw_at d (unat key) i) :: (aes_state, 'e) res)"
    if "i \<le> unat rounds" for i
    by (rule read4_schedule) (use assms that in auto)
  then have "aes_round d pos key rounds
      = (Ok (patch d (unat pos) (sched_fn rounds (unat key) d (window d (unat pos) 16))) :: (bytes, 'e) res)"
    unfolding aes_round_def sched_fn_def by (rule aes_core_block) (use assms in auto)
  then show ?thesis using sched_fn_cipher [of rounds d "unat key" w m] assms by simp
qed

text \<open>C2. \<open>aes_decrypt\<close> inverts CBC encryption in place: a region that holds the CBC encryption (zero
  initial vector) of the blocks \<open>ms\<close> under the published cipher is replaced by \<open>ms\<close>; the schedule and
  every byte outside the region stay as they are.\<close>

theorem aes_decrypt_inverts_cbc:
  fixes pos sz key :: u32 and rounds :: u16
  assumes "get_u16 d (key + 2) = (Ok rounds :: (u16, 'e) res)" and "0 < unat rounds"
    and "\<forall>i\<le>unat rounds. window d (unat (key + 4) + 16 * i) 16 = key_bytes (inv_key w (unat rounds) i)"
    and "unat (key + 4) + 16 * (unat rounds + 1) \<le> length d" and "length d \<le> 2 ^ 32"
    and "unat sz div 16 = length ms" and "unat pos + 16 * length ms \<le> length d"
    and "unat pos + 16 * length ms \<le> unat (key + 4) \<or> unat (key + 4) + 16 * (unat rounds + 1) \<le> unat pos"
    and "window d (unat pos) (16 * length ms)
      = concat (map block_bytes (cbc_enc (fips_cipher w (unat rounds)) (\<lambda>r c. 0) ms))"
  shows "aes_decrypt d pos sz key = (Ok (patch d (unat pos) (concat (map block_bytes ms))) :: (bytes, 'e) res)"
proof -
  have r: "unat (ucast rounds :: u32) = unat rounds"
    using unat_bound [of rounds] by (simp add: unsigned_ucast_eq take_bit_nat_eq_self)
  let ?cs = "map block_bytes (cbc_enc (fips_cipher w (unat rounds)) (\<lambda>r c. 0) ms)"
  have "blocks_at d (unat pos) (length ?cs) = ?cs"
    by (rule blocks_at_concat) (use assms in auto)
  then have cs: "blocks_at d (unat pos) (unat sz div 16) = ?cs" using assms by simp
  have "buffer_safe (ucast rounds) (key + 4) d (unat pos) (16 * (unat sz div 16))"
    using assms by (simp add: buffer_safe_def r)
  note run = aes_decrypt_region [OF assms(1) this]
  have "cbc_dec (sched_fn (ucast rounds) (unat (key + 4)) d) (block_bytes (\<lambda>r c. 0)) ?cs = map block_bytes ms"
    by (rule cbc_dec_enc) (use sched_fn_cipher [of "ucast rounds" d "unat (key + 4)" w] assms in \<open>simp add: r\<close>)
  then show ?thesis using run by (simp add: cs zero_block)
qed

theorem aes_round_inverts_fips_witness:
  "aes_round (key_bytes (inv_key (\<lambda>i r c. 7) 1 0) @ key_bytes (inv_key (\<lambda>i r c. 7) 1 1)
      @ block_bytes (fips_cipher (\<lambda>i r c. 7) 1 (\<lambda>r c. 5))) 32 0 1 =
    (Ok (patch (key_bytes (inv_key (\<lambda>i r c. 7) 1 0) @ key_bytes (inv_key (\<lambda>i r c. 7) 1 1)
      @ block_bytes (fips_cipher (\<lambda>i r c. 7) 1 (\<lambda>r c. 5))) (unat (32 :: u32)) (block_bytes (\<lambda>r c. 5)))
      :: (bytes, unit) res)"
proof (rule aes_round_inverts_fips [where w = "\<lambda>i r c. 7"])
  show "\<forall>i\<le>unat (1 :: u32). window (key_bytes (inv_key (\<lambda>i r c. 7) 1 0) @ key_bytes (inv_key (\<lambda>i r c. 7) 1 1)
      @ block_bytes (fips_cipher (\<lambda>i r c. 7) 1 (\<lambda>r c. 5))) (unat (0 :: u32) + 16 * i) 16
      = key_bytes (inv_key (\<lambda>i r c. 7) (unat (1 :: u32)) i)"
    by (auto simp: le_Suc_eq window_def)
qed (simp_all add: window_def)

theorem aes_decrypt_inverts_cbc_witness:
  "aes_decrypt ([0, 0, 1, 0] @ key_bytes (inv_key (\<lambda>i r c. 7) 1 0) @ key_bytes (inv_key (\<lambda>i r c. 7) 1 1)
      @ concat (map block_bytes (cbc_enc (fips_cipher (\<lambda>i r c. 7) 1) (\<lambda>r c. 0) [\<lambda>r c. 5, \<lambda>r c. 6]))) 36 33 0 =
    (Ok (patch ([0, 0, 1, 0] @ key_bytes (inv_key (\<lambda>i r c. 7) 1 0) @ key_bytes (inv_key (\<lambda>i r c. 7) 1 1)
      @ concat (map block_bytes (cbc_enc (fips_cipher (\<lambda>i r c. 7) 1) (\<lambda>r c. 0) [\<lambda>r c. 5, \<lambda>r c. 6])))
      (unat (36 :: u32)) (concat (map block_bytes [\<lambda>r c. 5, \<lambda>r c. 6]))) :: (bytes, unit) res)"
    (is "aes_decrypt ?d _ _ _ = _")
proof (rule aes_decrypt_inverts_cbc [where w = "\<lambda>i r c. 7" and rounds = 1])
  show "get_u16 ?d (0 + 2) = (Ok 1 :: (u16, unit) res)"
    by (simp add: get_u16_def idx_le_def get_le_def get_range_def window_def Let_def)
  show "\<forall>i\<le>unat (1 :: u16). window ?d (unat (0 + 4 :: u32) + 16 * i) 16
      = key_bytes (inv_key (\<lambda>i r c. 7) (unat (1 :: u16)) i)"
    by (auto simp: le_Suc_eq window_def)
qed (simp_all add: window_def Let_def)

text \<open>Decrypting with a snapshot of the schedule is decrypting with the schedule in the buffer, for
  every schedule (of the published cipher or not): whenever the snapshot is taken, the region lies in
  the buffer and does not meet the schedule, both calls give the same buffer.\<close>

theorem aes_decrypt_ks_agrees:
  fixes pos sz key :: u32
  assumes "aes_schedule_snapshot d key = Some ks" and "length d \<le> 2 ^ 32"
    and "unat pos + unat sz \<le> length d"
    and "unat pos + unat sz \<le> unat key \<or> unat key + length ks \<le> unat pos"
  shows "aes_decrypt_ks ks d pos sz = (aes_decrypt d pos sz key :: (bytes, 'e) res)"
proof -
  obtain r :: u16 where r: "get_le 2 d (unat key + 2) = Some r" and r64: "unat r \<le> 64"
    and ks: "ks = window d (unat key) (4 + (unat r + 1) * 16)"
    and b: "unat key + (4 + (unat r + 1) * 16) \<le> length d"
    using assms(1)
    by (auto simp: aes_schedule_snapshot_def Let_def chk_add_def split: option.splits if_splits)
  have lks: "length ks = 4 + (unat r + 1) * 16" using b by (simp add: ks length_window)
  have o: "unat (key + 2) = unat key + 2" "unat (key + 4) = unat key + 4"
    using unat_add_offset [of key "4 + (unat r + 1) * 16" 2] unat_add_offset [of key "4 + (unat r + 1) * 16" 4]
      b assms(2) by simp_all
  have g: "get_u16 d (key + 2) = (Ok r :: (u16, 'e) res)"
    using r by (simp add: get_u16_def idx_le_def o)
  have ur: "unat (ucast r :: u32) = unat r"
    using unat_bound [of r] by (simp add: unsigned_ucast_eq take_bit_nat_eq_self)
  have sz: "16 * (unat sz div 16) \<le> unat sz" by simp
  have safe: "buffer_safe (ucast r) (key + 4) d (unat pos) (16 * (unat sz div 16))"
    using assms(2-4) b sz lks unfolding buffer_safe_def ur o by linarith
  have g2: "get_le 2 ks 2 = Some r"
    using r b unfolding ks by (simp add: res_conv length_window window_window)
  have safe2: "snapshot_safe (ucast r) (drop 4 ks) d (unat pos) (16 * (unat sz div 16))"
    using assms(2-4) b sz lks r64 unfolding snapshot_safe_def ur by simp
  have w: "window (drop 4 ks) (0 + 16 * i) 16 = window d (unat (key + 4) + 16 * i) 16" if "i \<le> unat r" for i
  proof -
    have "window (drop 4 ks) (0 + 16 * i) 16 = window ks (4 + 16 * i) 16"
      by (simp add: window_def add.commute)
    also have "\<dots> = window d (unat key + (4 + 16 * i)) 16"
      unfolding ks by (rule window_window) (use that in simp)
    finally show ?thesis by (simp add: o add.assoc)
  qed
  have "sched_fn (ucast r) 0 (drop 4 ks) bs = sched_fn (ucast r) (unat (key + 4)) d bs" for bs
    unfolding sched_fn_def ur by (rule block_fn_cong, rule kw_at_cong [where n = "unat r"]) (use w in auto)
  then have "sched_fn (ucast r) 0 (drop 4 ks) = sched_fn (ucast r) (unat (key + 4)) d" by (rule ext)
  then show ?thesis
    by (simp add: aes_decrypt_region [OF g safe] aes_decrypt_ks_region [OF g2 safe2])
qed

theorem aes_decrypt_ks_agrees_witness:
  "aes_decrypt_ks ([9, 9, 1, 0] @ replicate 32 7) ([9, 9, 1, 0] @ replicate 32 7 @ replicate 16 3) 36 16 =
    (aes_decrypt ([9, 9, 1, 0] @ replicate 32 7 @ replicate 16 3) 36 16 0 :: (bytes, unit) res)"
proof (rule aes_decrypt_ks_agrees)
  show "aes_schedule_snapshot ([9, 9, 1, 0] @ replicate 32 7 @ replicate 16 3) 0 = Some ([9, 9, 1, 0] @ replicate 32 7)"
    by (simp add: aes_schedule_snapshot_def get_le_def get_range_def window_def chk_add_def usize_limit_def)
qed simp_all

end
