(* ===== verification/Decompress.thy ===== *)
theory Decompress
  imports Primitives
begin

unbundle bit_operations_syntax

text \<open>
  \<^verbatim>\<open>senbei-crypto/src/windows/primitives.rs\<close>, the Huffman/LZ decompressor of the PE payloads:
  \<open>decompress_detailed\<close>, its boolean wrapper \<open>decompress\<close>, the table snapshot and
  \<open>decompress_tbl\<close>, which reads the table from the snapshot.

  The two decompressors have the same loop and differ in how a table entry is read and in what a
  failure is turned into. The loop is written once, with the two readers of the table and the
  embedding \<open>fail\<close> of a failure as arguments: \<open>decompress_detailed\<close> reads the buffer it writes to and
  keeps the failure, \<open>decompress_tbl\<close> reads the snapshot and answers \<open>false\<close>. A failure comes with the
  buffer as the call leaves it.

  The thread-local scratch buffer is the argument \<open>stale\<close>, with whatever an earlier call left there.
  \<open>bit_pos\<close> is an \<open>i32\<close> between 0 and 262 and is a \<open>nat\<close> here; \<open>src_consumed\<close> is the bit pattern of
  its \<open>i32\<close>.
\<close>

section \<open>Failures\<close>

datatype decompression_failure =
    SourceTooLarge u32 nat
  | InvalidCodeLength u8
  | HuffmanTraversalLimit
  | PendingLengthOverflow u32
  | OutputOverflow u32 u32 u32
  | RunFillBeforeOutput u32 u32
  | InvalidRunFillWidth u32
  | InvalidBackReference u32 u32
  | NoProgress
  | OutputSizeMismatch u32 u32 u32 u32

section \<open>One symbol\<close>

type_synonym 'e reader16 = "bytes \<Rightarrow> u32 \<Rightarrow> (u16, 'e) res"
type_synonym 'e reader8 = "bytes \<Rightarrow> u32 \<Rightarrow> (u8, 'e) res"

definition child :: "u16 \<Rightarrow> u32 \<Rightarrow> u32 \<Rightarrow> u32" where
  "child t word msk = ucast (t AND 0x7FFF) + (if word AND msk \<noteq> 0 then 1 else 0)"

text \<open>The walk below the root table; the first argument is what is left of the 64 levels.\<close>

fun walk ::
  "(decompression_failure \<Rightarrow> 'e) \<Rightarrow> 'e reader16 \<Rightarrow> bytes \<Rightarrow> u32 \<Rightarrow> nat \<Rightarrow> u32 \<Rightarrow> u8 \<Rightarrow> u16 \<Rightarrow> (u16 \<times> u8, 'e) res"
where
  "walk fail rd16 d word n msk b2 t2 =
     (if t2 AND 0x8000 \<noteq> 0 then Ok (t2 AND 0x7FFF, b2)
      else case n of
             0 \<Rightarrow> Err (fail HuffmanTraversalLimit)
           | Suc n' \<Rightarrow>
               let msk' = push_bit 1 msk in
               rbind (rd16 d (child t2 word msk')) (walk fail rd16 d word n' msk' (b2 + 1)))"

declare walk.simps [simp del]

definition symbol ::
  "(decompression_failure \<Rightarrow> 'e) \<Rightarrow> 'e reader16 \<Rightarrow> 'e reader8 \<Rightarrow> bytes \<Rightarrow> u32 \<Rightarrow> (u16 \<times> u8, 'e) res"
where
  "symbol fail rd16 rd8 d word =
     rbind (rd16 d (word AND 0xFF)) (\<lambda>tab.
       if tab AND 0x8000 \<noteq> 0 then
         rbind (rd8 d (word AND 0xFF)) (\<lambda>bits. Ok (tab AND 0x7FFF, bits))
       else
         rbind (rd8 d (word AND 0xFF)) (\<lambda>b2.
           if 32 \<le> b2 then Err (fail (InvalidCodeLength b2))
           else let msk = push_bit (unat b2) 1 in
             rbind (rd16 d (child tab word msk)) (walk fail rd16 d word 64 msk (b2 + 1))))"

section \<open>What a symbol emits\<close>

text \<open>The result is the buffer, the pending length and the number of bytes written.\<close>

definition fill_loop :: "(u32 \<Rightarrow> bytes \<Rightarrow> (bytes, 'e) res) \<Rightarrow> u32 \<Rightarrow> bytes \<Rightarrow> (bytes, 'e) res" where
  "fill_loop body n d = foldM (\<lambda>k d. body (word_of_nat k) d) [0..<unat n] d"

definition emit_literal :: "u32 \<Rightarrow> u32 \<Rightarrow> u32 \<Rightarrow> bytes \<Rightarrow> (bytes \<times> u32 \<times> u32, 'e) res" where
  "emit_literal dest pending payload d =
     rbind (set_at d (unat dest) (ucast payload)) (\<lambda>d'. Ok (d', pending, 1))"

definition emit_pending ::
  "(decompression_failure \<Rightarrow> 'e) \<Rightarrow> u32 \<Rightarrow> u32 \<Rightarrow> bytes \<Rightarrow> (bytes \<times> u32 \<times> u32, 'e) res" where
  "emit_pending fail pending payload d =
     (if 256 \<le> pending then Err (fail (PendingLengthOverflow pending))
      else Ok (d, if pending = 0 then payload else push_bit 8 pending OR payload, 0))"

definition emit_fill ::
  "(decompression_failure \<Rightarrow> 'e) \<Rightarrow> u32 \<Rightarrow> u32 \<Rightarrow> u32 \<Rightarrow> u32 \<Rightarrow> u32 \<Rightarrow> bytes \<Rightarrow> (bytes \<times> u32 \<times> u32, 'e) res"
where
  "emit_fill fail d_size dest written pending payload d =
     (let p = (if pending = 0 then 1 else pending); step = p * payload in
      if d_size < step + written then Err (fail (OutputOverflow written step d_size))
      else if payload = 1 then
        (if dest < 1 then Err (fail (RunFillBeforeOutput payload dest))
         else rbind (idx d (unat dest - 1)) (\<lambda>v.
              rbind (fill_loop (\<lambda>k d. set_at d (unat (dest + k)) v) p d) (\<lambda>d'. Ok (d', 0, step))))
      else if payload = 2 then
        (if dest < 2 then Err (fail (RunFillBeforeOutput payload dest))
         else rbind (get_u16 d (dest - 2)) (\<lambda>v.
              rbind (fill_loop (\<lambda>k d. write_u16 d (dest + k * 2) (ucast v)) p d) (\<lambda>d'. Ok (d', 0, step))))
      else if payload = 4 then
        (if dest < 4 then Err (fail (RunFillBeforeOutput payload dest))
         else rbind (get_u32 d (dest - 4)) (\<lambda>v.
              rbind (fill_loop (\<lambda>k d. write_u32 d (dest + k * 4) v) p d) (\<lambda>d'. Ok (d', 0, step))))
      else Err (fail (InvalidRunFillWidth payload)))"

definition emit_copy ::
  "(decompression_failure \<Rightarrow> 'e) \<Rightarrow> u32 \<Rightarrow> u32 \<Rightarrow> u32 \<Rightarrow> u32 \<Rightarrow> u32 \<Rightarrow> bytes \<Rightarrow> (bytes \<times> u32 \<times> u32, 'e) res"
where
  "emit_copy fail d_size dest written pending payload d =
     (let back = pending + payload in
      if d_size < written + payload \<or> written < back then
        (if written < back then Err (fail (InvalidBackReference back written))
         else Err (fail (OutputOverflow written payload d_size)))
      else
        rbind (fill_loop (\<lambda>k d. rbind (idx d (unat (dest + k - back))) (\<lambda>b. set_at d (unat (dest + k)) b)) payload d)
          (\<lambda>d'. Ok (d', 0, payload)))"

definition emit ::
  "(decompression_failure \<Rightarrow> 'e) \<Rightarrow> u32 \<Rightarrow> u32 \<Rightarrow> u32 \<Rightarrow> u32 \<Rightarrow> u16 \<Rightarrow> bytes \<Rightarrow> (bytes \<times> u32 \<times> u32, 'e) res"
where
  "emit fail d_size dest written pending tab d =
     (let mode = (ucast tab :: u32) AND 0x300; payload = (ucast tab :: u32) AND 0xFF in
      if mode = 0 then emit_literal dest pending payload d
      else if mode = 0x100 then emit_pending fail pending payload d
      else if mode = 0x200 then emit_fill fail d_size dest written pending payload d
      else emit_copy fail d_size dest written pending payload d)"

section \<open>The loop\<close>

record lz =
  buffer :: bytes
  dest :: u32
  bit_pos :: nat
  buf_off :: u32
  src_consumed :: u32
  pending :: u32
  written :: u32

definition lz_step ::
  "(decompression_failure \<Rightarrow> 'e) \<Rightarrow> 'e reader16 \<Rightarrow> 'e reader8 \<Rightarrow> bytes \<Rightarrow> u32 \<Rightarrow> lz \<Rightarrow> (lz, 'e) res"
where
  "lz_step fail rd16 rd8 buf d_size s =
     rbind (get_u32 buf (buf_off s)) (\<lambda>w.
     rbind (symbol fail rd16 rd8 (buffer s) (drop_bit (bit_pos s) w)) (\<lambda>(tab, bits).
       let bp = bit_pos s + unat bits; advance = bp div 8 in
       rbind (emit fail d_size (dest s) (written s) (pending s) tab (buffer s)) (\<lambda>(d', pending', step).
         if bits = 0 \<and> step = 0 then Err (fail NoProgress)
         else Ok \<lparr>buffer = d', dest = dest s + step, bit_pos = bp mod 8,
                  buf_off = buf_off s + word_of_nat advance,
                  src_consumed = src_consumed s + word_of_nat advance,
                  pending = pending', written = written s + step\<rparr>)))"

text \<open>No failure leaves an iteration after a write, so the buffer of a failure is the one the iteration
  started with. \<open>None\<close> stands for a loop that never ends.\<close>

partial_function (option) lz_loop ::
  "(decompression_failure \<Rightarrow> 'e) \<Rightarrow> 'e reader16 \<Rightarrow> 'e reader8 \<Rightarrow> bytes \<Rightarrow> u32 \<Rightarrow> u32 \<Rightarrow> lz \<Rightarrow>
   (lz, 'e \<times> bytes) res option"
where
  "lz_loop fail rd16 rd8 buf s_size d_size s =
     (if src_consumed s < s_size \<and> written s < d_size then
        (case lz_step fail rd16 rd8 buf d_size s of
           Ok s' \<Rightarrow> lz_loop fail rd16 rd8 buf s_size d_size s'
         | Err e \<Rightarrow> Some (Err (e, buffer s))
         | Panic \<Rightarrow> Some Panic)
      else Some (Ok s))"

definition fill_scratch :: "bytes \<Rightarrow> bytes \<Rightarrow> bytes" where
  "fill_scratch stale source =
     (let n = length source; grown = stale @ replicate (n + 3 - length stale) 0;
          zeroed = grown[n := 0, n + 1 := 0, n + 2 := 0]
      in patch zeroed 0 source)"

definition lz_finish :: "(decompression_failure \<Rightarrow> 'e) \<Rightarrow> u32 \<Rightarrow> u32 \<Rightarrow> lz \<Rightarrow> (bytes, 'e \<times> bytes) res" where
  "lz_finish fail s_size d_size s =
     (let consumed = src_consumed s + (if bit_pos s \<noteq> 0 then 1 else 0) in
      if written s \<noteq> d_size
      then Err (fail (OutputSizeMismatch (written s) d_size (if consumed <s 0 then 0 else consumed) s_size), buffer s)
      else Ok (buffer s))"

definition lz_decompress ::
  "(decompression_failure \<Rightarrow> 'e) \<Rightarrow> 'e reader16 \<Rightarrow> 'e reader8 \<Rightarrow> bytes \<Rightarrow>
   bytes \<Rightarrow> u32 \<Rightarrow> u32 \<Rightarrow> u32 \<Rightarrow> u32 \<Rightarrow> (bytes, 'e \<times> bytes) res option"
where
  "lz_decompress fail rd16 rd8 stale d src dst s_size d_size =
     (if MAX_IMAGE_SIZE < unat s_size then Some (Err (fail (SourceTooLarge s_size MAX_IMAGE_SIZE), d))
      else case get_range d (unat src) (unat s_size) of
             None \<Rightarrow> Some Panic
           | Some source \<Rightarrow>
               map_option (\<lambda>r. rbind r (lz_finish fail s_size d_size))
                 (lz_loop fail rd16 rd8 (fill_scratch stale source) s_size d_size
                    \<lparr>buffer = d, dest = dst, bit_pos = 0, buf_off = 0, src_consumed = 0,
                     pending = 0, written = 0\<rparr>))"

section \<open>The two decompressors\<close>

definition buf16 :: "u32 \<Rightarrow> 'e reader16" where
  "buf16 key_offset d i = get_u16 d (key_offset + i * 3)"

definition buf8 :: "u32 \<Rightarrow> 'e reader8" where
  "buf8 key_offset d i = idx d (unat (key_offset + i * 3) + 2)"

definition decompress_detailed ::
  "bytes \<Rightarrow> bytes \<Rightarrow> u32 \<Rightarrow> u32 \<Rightarrow> u32 \<Rightarrow> u32 \<Rightarrow> u32 \<Rightarrow> (bytes, decompression_failure \<times> bytes) res option"
where
  "decompress_detailed stale d src dst key_offset s_size d_size =
     lz_decompress (\<lambda>f. f) (buf16 key_offset) (buf8 key_offset) stale d src dst s_size d_size"

text \<open>The boolean forms: the buffer is left as it is at the time of the answer.\<close>

fun to_bool :: "(bytes, 'e \<times> bytes) res \<Rightarrow> (bytes \<times> bool, 'f) res" where
  "to_bool (Ok d) = Ok (d, True)"
| "to_bool (Err (e, d)) = Ok (d, False)"
| "to_bool Panic = Panic"

definition decompress ::
  "bytes \<Rightarrow> bytes \<Rightarrow> u32 \<Rightarrow> u32 \<Rightarrow> u32 \<Rightarrow> u32 \<Rightarrow> u32 \<Rightarrow> (bytes \<times> bool, unit) res option"
where
  "decompress stale d src dst key_offset s_size d_size =
     map_option to_bool (decompress_detailed stale d src dst key_offset s_size d_size)"

definition tab16 :: "bytes \<Rightarrow> unit reader16" where
  "tab16 tab d i = rbind (ok_or () (get_range tab (unat i * 3) 3)) (\<lambda>b. Ok (from_le (take 2 b)))"

definition tab8 :: "bytes \<Rightarrow> unit reader8" where
  "tab8 tab d i = (if unat i * 3 + 2 < length tab then Ok (tab ! (unat i * 3 + 2)) else Err ())"

definition decompress_tbl ::
  "bytes \<Rightarrow> bytes \<Rightarrow> bytes \<Rightarrow> u32 \<Rightarrow> u32 \<Rightarrow> u32 \<Rightarrow> u32 \<Rightarrow> (bytes \<times> bool, unit) res option"
where
  "decompress_tbl stale tab d src dst s_size d_size =
     map_option to_bool (lz_decompress (\<lambda>f. ()) (tab16 tab) (tab8 tab) stale d src dst s_size d_size)"

section \<open>The table snapshot\<close>

text \<open>The depth-first walk over the table, the top of the stack first. The flags have 65536 entries, so
  \<open>idx >= 0x1_0000\<close> is an index outside them. The 16-bit read is in range: the wrapped offset is at
  most the offset just checked.\<close>

lemma count_visited:
  "n < length vs \<Longrightarrow> \<not> vs ! n \<Longrightarrow> length (filter Not (vs[n := True])) < length (filter Not vs)"
proof (induction vs arbitrary: n)
  case (Cons v vs)
  then show ?case by (cases n) auto
qed simp

function snap_loop :: "bytes \<Rightarrow> u32 \<Rightarrow> bool list \<Rightarrow> u32 list \<Rightarrow> u32 \<Rightarrow> u32 option" where
  "snap_loop d key visited [] max_idx = Some max_idx"
| "snap_loop d key visited (i # stack) max_idx =
     (if length visited \<le> unat i \<or> visited ! unat i then snap_loop d key visited stack max_idx
      else if length d < unat key + unat i * 3 + 3 then None
      else
        let t = from_le (window d (unat (key + i * 3)) 2) :: u16 in
        if t AND 0x8000 = 0 then
          let c = ucast (t AND 0x7FFF) in
          snap_loop d key (visited[unat i := True]) ((c + 1) # c # stack) (max (max max_idx c) (c + 1))
        else snap_loop d key (visited[unat i := True]) stack max_idx)"
  by pat_completeness auto
termination
  by (relation "measures [\<lambda>(d, key, vs, st, m). length (filter Not vs), \<lambda>(d, key, vs, st, m). length st]")
    (auto simp: count_visited)

definition huffman_table_snapshot :: "bytes \<Rightarrow> u32 \<Rightarrow> bytes option" where
  "huffman_table_snapshot d key_offset =
     (case snap_loop d key_offset (replicate 0x10000 False) (rev (map word_of_nat [0..<256])) 255 of
        None \<Rightarrow> None
      | Some m \<Rightarrow>
          let n = (unat m + 1) * 3 in
          if length d < unat key_offset + n then None else Some (window d (unat key_offset) n))"

section \<open>What one symbol writes\<close>

text \<open>\<open>step\<close> bytes at \<open>D\<close> and nothing else.\<close>

definition emitted :: "bytes \<Rightarrow> nat \<Rightarrow> bytes \<Rightarrow> nat \<Rightarrow> bool" where
  "emitted d D d' n \<longleftrightarrow> length d' = length d \<and> (n = 0 \<or> D + n \<le> length d) \<and>
     (\<forall>i<length d. i < D \<or> D + n \<le> i \<longrightarrow> d' ! i = d ! i)"

lemma emitted_patch:
  "D + length bs \<le> length d \<Longrightarrow> emitted d D (patch d D bs) (length bs)"
  by (auto simp: emitted_def length_patch nth_patch)

lemma emitted_same: "emitted d D d 0"
  by (simp add: emitted_def)

lemma emitted_trans:
  "emitted d D e m \<Longrightarrow> emitted e (D + m) f n \<Longrightarrow> D + m \<le> length d \<Longrightarrow> emitted d D f (m + n)"
  by (auto simp: emitted_def)

lemma fill_loop_emitted:
  fixes dst n :: u32 and w :: nat
  assumes step: "\<And>k e e'. length e = length d \<Longrightarrow> body k e = Ok e' \<Longrightarrow>
      \<exists>bs. length bs = w \<and> unat (dst + k * word_of_nat w) + w \<le> length d
         \<and> e' = patch e (unat (dst + k * word_of_nat w)) bs"
    and "fill_loop body n d = Ok d'" and L: "length d < 2 ^ 32" and "0 < w"
  shows "emitted d (unat dst) d' (unat n * w)"
proof -
  have "emitted d (unat dst) e (m * w)"
    if "foldM (\<lambda>k d. body (word_of_nat k) d) [0..<m] d = Ok e" "m < 2 ^ 32" for m e
    using that
  proof (induction m arbitrary: e)
    case 0
    then show ?case by (simp add: emitted_same)
  next
    case (Suc m)
    from Suc.prems obtain c where c: "foldM (\<lambda>k d. body (word_of_nat k) d) [0..<m] d = Ok c"
      and e: "body (word_of_nat m) c = Ok e"
      by (auto simp: foldM_append res_conv)
    have em: "emitted d (unat dst) c (m * w)" using Suc.IH [OF c] Suc.prems by simp
    then have len: "length c = length d" by (simp add: emitted_def)
    let ?q = "unat (dst + word_of_nat m * word_of_nat w)"
    obtain bs where bs: "length bs = w" "?q + w \<le> length d" "e = patch c ?q bs"
      using step [OF len e] by auto
    have q: "?q = unat dst + m * w"
    proof (cases "m * w = 0")
      case True
      have "word_of_nat m * word_of_nat w = (word_of_nat (m * w) :: u32)" by (rule of_nat_mult [symmetric])
      then have "word_of_nat m * word_of_nat w = (0 :: u32)" unfolding True by simp
      then show ?thesis using True by simp
    next
      case False
      then have b: "unat dst + m * w \<le> length d" using em by (auto simp: emitted_def)
      have "word_of_nat m * word_of_nat w = (word_of_nat (m * w) :: u32)" by (rule of_nat_mult [symmetric])
      moreover have "unat (word_of_nat (m * w) :: u32) = m * w"
        unfolding unat_of_nat by (rule mod_less) (use b L in simp)
      ultimately have "unat (word_of_nat m * word_of_nat w :: u32) = m * w" by simp
      then show ?thesis using b L by (simp add: unat_add_no_wrap)
    qed
    have "emitted c (unat dst + m * w) e w"
      using emitted_patch [of "unat dst + m * w" bs c] bs len by (simp add: q)
    then have "emitted d (unat dst) e (m * w + w)"
      by (rule emitted_trans [OF em]) (use bs q in simp)
    then show ?case by (simp add: add.commute)
  qed
  then show ?thesis
    using assms(2) unsigned_less [of n] by (simp add: fill_loop_def)
qed

lemma and_mask_bounds:
  "unat ((x :: u32) AND 0xFF) < 256"
proof -
  have "x AND 0xFF = take_bit 8 x" by (simp add: take_bit_eq_mask mask_eq_exp_minus_1)
  moreover have "unat (take_bit 8 x) < 2 ^ 8" unfolding unsigned_take_bit_eq by (rule take_bit_nat_less_exp)
  ultimately show ?thesis by simp
qed

lemma write_u16_patch:
  assumes "write_u16 e off v = Ok e'"
  shows "\<exists>bs. length bs = 2 \<and> unat off + 2 \<le> length e \<and> e' = patch e (unat off) bs"
  using assms by (auto simp: write_u16_def res_conv intro!: exI [of _ "to_le 2 (ucast v :: u16)"])

lemma write_u32_patch:
  assumes "write_u32 e off v = Ok e'"
  shows "\<exists>bs. length bs = 4 \<and> unat off + 4 \<le> length e \<and> e' = patch e (unat off) bs"
  using assms by (auto simp: write_u32_def res_conv intro!: exI [of _ "to_le 4 v"])

lemma set_at_patch:
  assumes "set_at e n v = Ok e'"
  shows "\<exists>bs. length bs = 1 \<and> n + 1 \<le> length e \<and> e' = patch e n bs"
  using assms by (auto simp: res_conv patch_single intro!: exI [of _ "[v]"])

lemma unat_mult_small:
  fixes a b :: u32
  assumes "unat a < 2 ^ 16" "unat b < 2 ^ 16"
  shows "unat (a * b) = unat a * unat b"
proof -
  have "unat a * unat b < 2 ^ 16 * 2 ^ 16" by (rule mult_strict_mono) (use assms in auto)
  then show ?thesis by (simp add: unat_word_ariths)
qed

lemma emit_fill_ok:
  assumes ok: "emit_fill fail d_size dst wr pend payload d = Ok (d', p', step)"
    and L: "length d < 2 ^ 32" and pend: "unat pend < 2 ^ 16"
  shows "emitted d (unat dst) d' (unat step) \<and> p' = 0 \<and> step + wr \<le> d_size"
proof -
  define p where "p = (if pend = 0 then 1 else pend)"
  have p: "unat p < 2 ^ 16" using pend by (simp add: p_def)
  have le: "step + wr \<le> d_size" and st: "step = p * payload" and p': "p' = 0"
    and pl: "payload = 1 \<or> payload = 2 \<or> payload = 4"
    using ok by (auto simp: emit_fill_def Let_def p_def res_conv not_less split: if_splits)
  have u: "unat (p * payload) = unat p * unat payload"
    by (rule unat_mult_small) (use p pl in auto)
  from pl have "emitted d (unat dst) d' (unat p * unat payload)"
  proof (elim disjE)
    assume pl: "payload = 1"
    then obtain v where "fill_loop (\<lambda>k d. set_at d (unat (dst + k)) v) p d = (Ok d' :: (bytes, 'a) res)"
      using ok by (auto simp: emit_fill_def Let_def p_def [symmetric] res_conv split: if_splits)
    then have "emitted d (unat dst) d' (unat p * 1)"
      by (rule fill_loop_emitted [rotated]) (use L in \<open>auto dest!: set_at_patch\<close>)
    then show ?thesis using pl by simp
  next
    assume pl: "payload = 2"
    then obtain v where "fill_loop (\<lambda>k d. write_u16 d (dst + k * 2) v) p d = (Ok d' :: (bytes, 'a) res)"
      using ok by (auto simp: emit_fill_def Let_def p_def [symmetric] res_conv split: if_splits)
    then have "emitted d (unat dst) d' (unat p * 2)"
      by (rule fill_loop_emitted [rotated]) (use L in \<open>auto dest!: write_u16_patch\<close>)
    then show ?thesis using pl by simp
  next
    assume pl: "payload = 4"
    then obtain v where "fill_loop (\<lambda>k d. write_u32 d (dst + k * 4) v) p d = (Ok d' :: (bytes, 'a) res)"
      using ok by (auto simp: emit_fill_def Let_def p_def [symmetric] res_conv split: if_splits)
    then have "emitted d (unat dst) d' (unat p * 4)"
      by (rule fill_loop_emitted [rotated]) (use L in \<open>auto dest!: write_u32_patch\<close>)
    then show ?thesis using pl by simp
  qed
  then show ?thesis using le p' by (simp add: st u)
qed

lemma emit_copy_ok:
  assumes ok: "emit_copy fail d_size dst wr pend payload d = Ok (d', p', step)"
    and L: "length d < 2 ^ 32"
  shows "emitted d (unat dst) d' (unat step) \<and> p' = 0 \<and> wr + step \<le> d_size"
proof -
  have "fill_loop (\<lambda>k d. rbind (idx d (unat (dst + k - (pend + payload))))
      (\<lambda>b. set_at d (unat (dst + k)) b)) payload d = (Ok d' :: (bytes, 'a) res)"
    using ok by (auto simp: emit_copy_def Let_def res_conv split: if_splits)
  then have "emitted d (unat dst) d' (unat payload * 1)"
    by (rule fill_loop_emitted [rotated]) (use L in \<open>auto simp: rbind_Ok_conv dest!: set_at_patch\<close>)
  then show ?thesis
    using ok by (auto simp: emit_copy_def Let_def res_conv not_less split: if_splits)
qed

lemma pending_bound:
  fixes pend payload :: u32
  assumes "pend < 256" and "unat payload < 256"
  shows "unat (push_bit 8 pend OR payload) < 2 ^ 16"
proof -
  have "take_bit 8 pend = pend" "take_bit 8 payload = payload"
    using assms by (simp_all add: word_less_nat_alt unsigned_take_bit_eq take_bit_nat_eq_self word_unat_eq_iff)
  moreover have "push_bit 8 (take_bit 8 pend) OR take_bit 8 payload
      = take_bit 16 (push_bit 8 (take_bit 8 pend) OR take_bit 8 payload)"
    by (rule bit_word_eqI) (auto simp: bit_or_iff bit_push_bit_iff bit_take_bit_iff)
  ultimately have "push_bit 8 pend OR payload = take_bit 16 (push_bit 8 pend OR payload)" by simp
  moreover have "unat (take_bit 16 w) < 2 ^ 16" for w :: u32
    unfolding unsigned_take_bit_eq by (rule take_bit_nat_less_exp)
  ultimately show ?thesis by metis
qed

lemma emit_ok:
  assumes ok: "emit fail d_size dst wr pend tab d = Ok (d', p', step)"
    and L: "length d < 2 ^ 32" and pend: "unat pend < 2 ^ 16"
    and wr: "unat wr \<le> unat dst" "wr < d_size"
  shows "emitted d (unat dst) d' (unat step)" and "unat p' < 2 ^ 16"
    and "unat wr + unat step \<le> unat d_size"
proof -
  let ?pl = "(ucast tab :: u32) AND 0xFF"
  have pl: "unat ?pl < 256" by (rule and_mask_bounds)
  consider "emit_literal dst pend ?pl d = (Ok (d', p', step) :: (bytes \<times> u32 \<times> u32, 'a) res)"
    | "emit_pending fail pend ?pl d = Ok (d', p', step)"
    | "emit_fill fail d_size dst wr pend ?pl d = Ok (d', p', step)"
    | "emit_copy fail d_size dst wr pend ?pl d = Ok (d', p', step)"
    using ok by (auto simp: emit_def Let_def split: if_splits)
  then have "emitted d (unat dst) d' (unat step) \<and> unat p' < 2 ^ 16 \<and> (step = 1 \<or> wr + step \<le> d_size)"
  proof cases
    case 1
    then obtain bs where "length bs = 1" "unat dst + 1 \<le> length d" "d' = patch d (unat dst) bs"
      and st: "step = 1" "p' = pend"
      by (auto simp: emit_literal_def rbind_Ok_conv dest!: set_at_patch)
    then have "emitted d (unat dst) d' 1" using emitted_patch [of "unat dst" bs d] by simp
    then show ?thesis using st pend by simp
  next
    case 2
    then have st: "d' = d" "step = 0"
      and p': "p' = (if pend = 0 then ?pl else push_bit 8 pend OR ?pl)" "pend < 256"
      by (auto simp: emit_pending_def split: if_splits)
    have "unat p' < 2 ^ 16" using p' pl pending_bound [of pend ?pl] by auto
    then show ?thesis using st wr by (auto simp: emitted_same)
  next
    case 3
    then show ?thesis using emit_fill_ok [OF 3 L pend] by (auto simp: add.commute)
  next
    case 4
    then show ?thesis using emit_copy_ok [OF 4 L] by auto
  qed
  then show em: "emitted d (unat dst) d' (unat step)" and "unat p' < 2 ^ 16"
    and "unat wr + unat step \<le> unat d_size"
  proof (safe)
    assume em: "emitted d (unat dst) d' (unat step)" and le: "wr + step \<le> d_size"
    have "unat wr + unat step < 2 ^ 32"
      using em L wr unsigned_less [of wr] by (auto simp: emitted_def)
    then show "unat wr + unat step \<le> unat d_size"
      using le by (simp add: word_le_nat_alt unat_add_no_wrap)
  qed (use wr in \<open>auto simp: word_less_nat_alt\<close>)
qed

section \<open>The loop ends, and writes where it should\<close>

definition lz_inv :: "bytes \<Rightarrow> u32 \<Rightarrow> u32 \<Rightarrow> u32 \<Rightarrow> lz \<Rightarrow> bool" where
  "lz_inv d0 dst0 s_size d_size s \<longleftrightarrow>
     emitted d0 (unat dst0) (buffer s) (unat (written s)) \<and> dest s = dst0 + written s
     \<and> written s \<le> d_size \<and> unat (pending s) < 2 ^ 16 \<and> bit_pos s < 8
     \<and> unat (src_consumed s) \<le> unat s_size + 32"

definition lz_todo :: "u32 \<Rightarrow> u32 \<Rightarrow> lz \<Rightarrow> nat" where
  "lz_todo s_size d_size s =
     (8 * unat s_size - (8 * unat (src_consumed s) + bit_pos s)) + (unat d_size - unat (written s))"

lemma lz_step_OkE:
  assumes "lz_step fail rd16 rd8 buf d_size s = Ok s'"
  obtains tab and bits :: u8 and d' p' st
    where "emit fail d_size (dest s) (written s) (pending s) tab (buffer s) = Ok (d', p', st)"
      and "\<not> (bits = 0 \<and> st = 0)"
      and "s' = \<lparr>buffer = d', dest = dest s + st, bit_pos = (bit_pos s + unat bits) mod 8,
                  buf_off = buf_off s + word_of_nat ((bit_pos s + unat bits) div 8),
                  src_consumed = src_consumed s + word_of_nat ((bit_pos s + unat bits) div 8),
                  pending = p', written = written s + st\<rparr>"
proof -
  obtain w tab bits where 3: "get_u32 buf (buf_off s) = (Ok w :: (u32, 'a) res)"
      and 1: "symbol fail rd16 rd8 (buffer s) (drop_bit (bit_pos s) w) = Ok (tab, bits)"
    using assms by (auto simp: lz_step_def rbind_Ok_conv)
  obtain d' p' st where 2: "emit fail d_size (dest s) (written s) (pending s) tab (buffer s) = Ok (d', p', st)"
    using assms by (auto simp: lz_step_def 1 3 Let_def rbind_Ok_conv)
  show ?thesis
    using assms 1 2 3 by (intro that [OF 2, of bits]) (simp_all add: lz_step_def Let_def split: if_splits)
qed

lemma lz_step_inv:
  assumes step: "lz_step fail rd16 rd8 buf d_size s = Ok s'"
    and inv: "lz_inv d0 dst0 s_size d_size s"
    and L: "length d0 < 2 ^ 32" and sz: "unat s_size \<le> 2 ^ 30"
    and more: "src_consumed s < s_size" "written s < d_size"
  shows "lz_inv d0 dst0 s_size d_size s' \<and> lz_todo s_size d_size s' < lz_todo s_size d_size s"
proof -
  have em: "emitted d0 (unat dst0) (buffer s) (unat (written s))" and ds: "dest s = dst0 + written s"
    and wl: "written s \<le> d_size" and pend: "unat (pending s) < 2 ^ 16" and bp8: "bit_pos s < 8"
    using inv by (auto simp: lz_inv_def)
  from step obtain tab and bits :: u8 and d' p' st
    where e: "emit fail d_size (dest s) (written s) (pending s) tab (buffer s) = Ok (d', p', st)"
      and prog: "\<not> (bits = 0 \<and> st = 0)"
      and s': "s' = \<lparr>buffer = d', dest = dest s + st, bit_pos = (bit_pos s + unat bits) mod 8,
                  buf_off = buf_off s + word_of_nat ((bit_pos s + unat bits) div 8),
                  src_consumed = src_consumed s + word_of_nat ((bit_pos s + unat bits) div 8),
                  pending = p', written = written s + st\<rparr>"
    by (rule lz_step_OkE)
  have len: "length (buffer s) = length d0" using em by (simp add: emitted_def)
  have ud: "unat (dest s) = unat dst0 + unat (written s)"
    using em L by (auto simp: ds emitted_def unat_add_no_wrap unat_eq_zero)
  note eo = emit_ok [OF e]
  have L': "length (buffer s) < 2 ^ 32" using L len by simp
  have wd: "unat (written s) \<le> unat (dest s)" using ud by simp
  note em' = eo(1) [OF L' pend wd more(2)] and pend' = eo(2) [OF L' pend wd more(2)]
    and wr' = eo(3) [OF L' pend wd more(2)]
  have uw: "unat (written s + st) = unat (written s) + unat st"
    using wr' unat_bound [of d_size] by (simp add: unat_add_no_wrap)
  let ?a = "(bit_pos s + unat bits) div 8"
  have "bit_pos s + unat bits \<le> 263" using bp8 unat_u8_bound [of bits] by linarith
  then have a: "?a \<le> 32" using div_le_mono [of "bit_pos s + unat bits" 263 8] by simp
  have ua: "unat (word_of_nat ?a :: u32) = ?a" using a by (simp add: unat_of_nat)
  have sc: "unat (src_consumed s) < unat s_size" using more by (simp add: word_less_nat_alt)
  have us: "unat (src_consumed s + word_of_nat ?a) = unat (src_consumed s) + ?a"
    using sc a sz by (simp add: ua unat_add_no_wrap)
  have tot: "emitted d0 (unat dst0) d' (unat (written s) + unat st)"
  proof (cases "unat st = 0")
    case True
    then have "d' = buffer s \<or> True" by simp
    have "emitted (buffer s) (unat dst0 + unat (written s)) d' 0" using em' True ud by simp
    then show ?thesis
      using em True unfolding emitted_def by (auto simp: True)
  next
    case False
    then have "unat dst0 + unat (written s) \<le> length d0" using em' len ud by (auto simp: emitted_def)
    then show ?thesis by (intro emitted_trans [OF em]) (use em' ud in simp_all)
  qed
  have inv': "lz_inv d0 dst0 s_size d_size s'"
    using tot pend' uw wr' us sc a
    by (simp add: lz_inv_def s' ds add.assoc word_le_nat_alt)
  have bits8: "8 * ?a + (bit_pos s + unat bits) mod 8 = bit_pos s + unat bits" by simp
  have "0 < unat bits + unat st"
    using prog by (auto simp: unat_gt_0 unat_eq_zero)
  moreover have "8 * unat (src_consumed s) + bit_pos s < 8 * unat s_size" using sc bp8 by linarith
  moreover have "8 * (unat (src_consumed s) + ?a) + (bit_pos s + unat bits) mod 8
      = 8 * unat (src_consumed s) + bit_pos s + unat bits"
    by (simp only: distrib_left add.assoc bits8)
  moreover have "unat (written s) < unat d_size" using more by (simp add: word_less_nat_alt)
  ultimately have "lz_todo s_size d_size s' < lz_todo s_size d_size s"
    using wr' unfolding lz_todo_def s' lz.select_convs us uw by linarith
  then show ?thesis using inv' by blast
qed

lemma lz_loop_returns:
  assumes "lz_inv d0 dst0 s_size d_size s" and "length d0 < 2 ^ 32" and "unat s_size \<le> 2 ^ 30"
  shows "\<exists>r. lz_loop fail rd16 rd8 buf s_size d_size s = Some r
    \<and> (\<forall>s'. r = Ok s' \<longrightarrow> lz_inv d0 dst0 s_size d_size s')
    \<and> (\<forall>e d'. r = Err (e, d') \<longrightarrow> (\<exists>n\<le>unat d_size. emitted d0 (unat dst0) d' n))"
  using assms(1)
proof (induction "lz_todo s_size d_size s" arbitrary: s rule: less_induct)
  case less
  show ?case
  proof (cases "src_consumed s < s_size \<and> written s < d_size")
    case False
    then show ?thesis using less.prems by (subst lz_loop.simps) auto
  next
    case more: True
    show ?thesis
    proof (cases "lz_step fail rd16 rd8 buf d_size s")
      case (Ok s')
      have "lz_inv d0 dst0 s_size d_size s'" "lz_todo s_size d_size s' < lz_todo s_size d_size s"
        using lz_step_inv [OF Ok less.prems assms(2,3)] more by auto
      from less.hyps [OF this(2,1)] show ?thesis
        by (subst lz_loop.simps) (simp add: more Ok)
    next
      case (Err e)
      have "unat (written s) \<le> unat d_size" "emitted d0 (unat dst0) (buffer s) (unat (written s))"
        using less.prems by (auto simp: lz_inv_def word_le_nat_alt)
      then show ?thesis by (subst lz_loop.simps) (auto simp: more Err)
    next
      case Panic
      then show ?thesis by (subst lz_loop.simps) (simp add: more)
    qed
  qed
qed

lemma lz_start: "lz_inv d dst s_size d_size
    \<lparr>buffer = d, dest = dst, bit_pos = 0, buf_off = 0, src_consumed = 0, pending = 0, written = 0\<rparr>"
  by (simp add: lz_inv_def emitted_same)

lemma lz_decompress_returns:
  assumes "length d < 2 ^ 32"
  shows "\<exists>r. lz_decompress fail rd16 rd8 stale d src dst s_size d_size = Some r
    \<and> (\<forall>d'. r = Ok d' \<longrightarrow> emitted d (unat dst) d' (unat d_size))
    \<and> (\<forall>e d'. r = Err (e, d') \<longrightarrow> (\<exists>n\<le>unat d_size. emitted d (unat dst) d' n))"
proof (cases "MAX_IMAGE_SIZE < unat s_size \<or> get_range d (unat src) (unat s_size) = None")
  case True
  then show ?thesis by (auto simp: lz_decompress_def intro!: exI [of _ 0] emitted_same)
next
  case False
  then obtain source where so: "get_range d (unat src) (unat s_size) = Some source" by auto
  have sz: "unat s_size \<le> 2 ^ 30" using False by (simp add: MAX_IMAGE_SIZE_def)
  obtain r where r: "lz_loop fail rd16 rd8 (fill_scratch stale source) s_size d_size
      \<lparr>buffer = d, dest = dst, bit_pos = 0, buf_off = 0, src_consumed = 0, pending = 0, written = 0\<rparr> = Some r"
    and ok: "\<And>s'. r = Ok s' \<Longrightarrow> lz_inv d dst s_size d_size s'"
    and er: "\<And>e d'. r = Err (e, d') \<Longrightarrow> \<exists>n\<le>unat d_size. emitted d (unat dst) d' n"
    using lz_loop_returns [OF lz_start [of d dst s_size d_size] assms sz, of fail rd16 rd8 "fill_scratch stale source"] by blast
  have fin: "\<exists>n\<le>unat d_size. emitted d (unat dst) (buffer s') n" if "r = Ok s'" for s'
    using ok [OF that] by (auto simp: lz_inv_def word_le_nat_alt)
  have "lz_decompress fail rd16 rd8 stale d src dst s_size d_size = Some (rbind r (lz_finish fail s_size d_size))"
    using False so r by (simp add: lz_decompress_def)
  moreover have "emitted d (unat dst) d' (unat d_size)" if "rbind r (lz_finish fail s_size d_size) = Ok d'" for d'
    using that ok by (auto simp: rbind_Ok_conv lz_finish_def Let_def lz_inv_def split: if_splits)
  moreover have "\<exists>n\<le>unat d_size. emitted d (unat dst) d' n"
    if "rbind r (lz_finish fail s_size d_size) = Err (e, d')" for e d'
    using that er fin by (auto simp: rbind_Err_conv lz_finish_def Let_def split: if_splits)
  ultimately show ?thesis by blast
qed

section \<open>Two runs of the loop\<close>

fun map_fail :: "('e \<Rightarrow> 'f) \<Rightarrow> ('a, 'e \<times> bytes) res \<Rightarrow> ('a, 'f \<times> bytes) res" where
  "map_fail g (Ok x) = Ok x"
| "map_fail g (Err (e, d)) = Err (g e, d)"
| "map_fail g Panic = Panic"

lemma lz_loop_simulation:
  assumes "lz_inv d0 dst0 s_size d_size s" and "length d0 < 2 ^ 32" and "unat s_size \<le> 2 ^ 30"
    and "P s"
    and step: "\<And>s. lz_inv d0 dst0 s_size d_size s \<Longrightarrow> P s \<Longrightarrow> src_consumed s < s_size \<Longrightarrow>
      lz_step fail' rd16' rd8' buf' d_size s = map_err g (lz_step fail rd16 rd8 buf d_size s)"
    and pres: "\<And>s s'. P s \<Longrightarrow> lz_step fail rd16 rd8 buf d_size s = Ok s' \<Longrightarrow> P s'"
  shows "lz_loop fail' rd16' rd8' buf' s_size d_size s
    = map_option (map_fail g) (lz_loop fail rd16 rd8 buf s_size d_size s)"
  using assms(1,4)
proof (induction "lz_todo s_size d_size s" arbitrary: s rule: less_induct)
  case less
  note unf = lz_loop.simps [of fail' rd16' rd8' buf' s_size d_size s]
    lz_loop.simps [of fail rd16 rd8 buf s_size d_size s]
  show ?case
  proof (cases "src_consumed s < s_size \<and> written s < d_size")
    case False
    then show ?thesis by (auto simp: unf)
  next
    case more: True
    then have sim: "lz_step fail' rd16' rd8' buf' d_size s = map_err g (lz_step fail rd16 rd8 buf d_size s)"
      using step [OF less.prems] by simp
    show ?thesis
    proof (cases "lz_step fail rd16 rd8 buf d_size s")
      case (Ok s')
      have "lz_inv d0 dst0 s_size d_size s'" "lz_todo s_size d_size s' < lz_todo s_size d_size s"
        using lz_step_inv [OF Ok less.prems(1) assms(2,3)] more by auto
      from less.hyps [OF this(2,1) pres [OF less.prems(2) Ok]] show ?thesis
        by (simp add: unf more Ok sim)
    qed (simp_all add: unf more sim)
  qed
qed

lemma lz_decompress_simulation:
  assumes "length d < 2 ^ 32"
    and start: "P \<lparr>buffer = d, dest = dst, bit_pos = 0, buf_off = 0, src_consumed = 0, pending = 0, written = 0\<rparr>"
    and step: "\<And>s source. lz_inv d dst s_size d_size s \<Longrightarrow> P s \<Longrightarrow> src_consumed s < s_size \<Longrightarrow>
      length source = unat s_size \<Longrightarrow>
      lz_step (\<lambda>f. g (fail f)) rd16' rd8' (fill_scratch stale' source) d_size s
        = map_err g (lz_step fail rd16 rd8 (fill_scratch stale source) d_size s)"
    and pres: "\<And>s s' source. P s \<Longrightarrow> lz_step fail rd16 rd8 (fill_scratch stale source) d_size s = Ok s' \<Longrightarrow> P s'"
  shows "lz_decompress (\<lambda>f. g (fail f)) rd16' rd8' stale' d src dst s_size d_size
    = map_option (map_fail g) (lz_decompress fail rd16 rd8 stale d src dst s_size d_size)"
proof (cases "MAX_IMAGE_SIZE < unat s_size \<or> get_range d (unat src) (unat s_size) = None")
  case True
  then show ?thesis by (auto simp: lz_decompress_def)
next
  case False
  then obtain source where so: "get_range d (unat src) (unat s_size) = Some source" by auto
  then have len: "length source = unat s_size" by (simp add: res_conv length_window)
  have sz: "unat s_size \<le> 2 ^ 30" using False by (simp add: MAX_IMAGE_SIZE_def)
  have fin: "rbind (map_fail g r) (lz_finish (\<lambda>f. g (fail f)) s_size d_size)
      = map_fail g (rbind r (lz_finish fail s_size d_size))" for r
    by (cases r) (auto simp: lz_finish_def Let_def)
  show ?thesis
    using False so
    by (simp add: lz_decompress_def option.map_comp comp_def fin
        lz_loop_simulation [OF lz_start assms(1) sz, where P = P and g = g, OF start step [OF _ _ _ len] pres])
qed
lemma take_fill_scratch: "take (length source + 3) (fill_scratch stale source) = source @ [0, 0, 0]"
proof -
  let ?n = "length source"
  let ?grown = "stale @ replicate (?n + 3 - length stale) 0"
  let ?z = "?grown[?n := 0, ?n + 1 := 0, ?n + 2 := 0]"
  have len: "?n + 3 \<le> length ?grown" by simp
  have nth: "?z ! i = 0" if "?n \<le> i" "i < ?n + 3" for i
  proof -
    have "i = ?n \<or> i = ?n + 1 \<or> i = ?n + 2" using that by auto
    then show ?thesis using len by (auto simp: nth_list_update)
  qed
  show ?thesis
  proof (rule nth_equalityI)
    show "length (take (?n + 3) (fill_scratch stale source)) = length (source @ [0, 0, 0])"
      using len by (simp add: fill_scratch_def Let_def length_patch)
    fix i assume "i < length (take (?n + 3) (fill_scratch stale source))"
    then have i: "i < ?n + 3" by simp
    have "fill_scratch stale source ! i = (if i < ?n then source ! i else ?z ! i)"
      using len i unfolding fill_scratch_def Let_def by (subst nth_patch) simp_all
    also have "\<dots> = (source @ [0, 0, 0]) ! i"
    proof (cases "i < ?n")
      case False
      then have "i - ?n = 0 \<or> i - ?n = 1 \<or> i - ?n = 2" using i by linarith
      then show ?thesis using nth [of i] False i by (auto simp: nth_append)
    qed (simp add: nth_append)
    finally show "take (?n + 3) (fill_scratch stale source) ! i = (source @ [0, 0, 0]) ! i"
      using i by simp
  qed
qed

lemma window_take: "off + n \<le> m \<Longrightarrow> window (take m xs) off n = window xs off n"
  by (simp add: window_def drop_take)

lemma get_u32_scratch:
  assumes "unat off < length source"
  shows "(get_u32 (fill_scratch stale source) off :: (u32, 'e) res) = get_u32 (source @ [0, 0, 0]) off"
proof -
  let ?f = "fill_scratch stale source"
  have t: "take (length source + 3) ?f = source @ [0, 0, 0]" by (rule take_fill_scratch)
  have "length (take (length source + 3) ?f) = length source + 3" unfolding t by simp
  then have len: "length source + 3 \<le> length ?f" by (simp add: min_def split: if_splits)
  have "window (source @ [0, 0, 0]) (unat off) 4 = window ?f (unat off) 4"
    unfolding t [symmetric] using assms by (simp add: window_take)
  then show ?thesis using assms len by (simp add: get_u32_def idx_le_in)
qed

lemma lz_step_consumed:
  "lz_step fail rd16 rd8 buf d_size s = Ok s' \<Longrightarrow> buf_off s = src_consumed s \<Longrightarrow> buf_off s' = src_consumed s'"
  by (erule lz_step_OkE) simp

section \<open>The table as a graph\<close>

definition node16 :: "bytes \<Rightarrow> nat \<Rightarrow> u32 \<Rightarrow> u16" where
  "node16 d off i = from_le (window d (off + unat i * 3) 2)"

definition node_child :: "u16 \<Rightarrow> u32" where
  "node_child t = ucast (t AND 0x7FFF)"

text \<open>The nodes a walk can reach: the 256 roots, and the two children of every inner node.\<close>

inductive table_node :: "bytes \<Rightarrow> nat \<Rightarrow> u32 \<Rightarrow> bool" for d :: bytes and off :: nat where
  root: "unat i < 256 \<Longrightarrow> table_node d off i"
| left: "table_node d off i \<Longrightarrow> node16 d off i AND 0x8000 = 0 \<Longrightarrow> table_node d off (node_child (node16 d off i))"
| right: "table_node d off i \<Longrightarrow> node16 d off i AND 0x8000 = 0 \<Longrightarrow> table_node d off (node_child (node16 d off i) + 1)"

lemma table_node_child:
  "table_node d off i \<Longrightarrow> node16 d off i AND 0x8000 = 0 \<Longrightarrow> table_node d off (child (node16 d off i) word msk)"
  using table_node.left table_node.right by (auto simp: child_def node_child_def)

text \<open>The interface of a table reader: on an \<open>intact\<close> buffer it answers with the entries of the table
  for every node of the graph.\<close>

locale table_reader =
  fixes rd16 :: "'e reader16" and rd8 :: "'e reader8" and tab :: bytes and off :: nat
    and intact :: "bytes \<Rightarrow> bool"
  assumes entry16: "intact d \<Longrightarrow> table_node tab off i \<Longrightarrow> rd16 d i = Ok (node16 tab off i)"
    and entry8: "intact d \<Longrightarrow> table_node tab off i \<Longrightarrow> rd8 d i = Ok (tab ! (off + unat i * 3 + 2))"
begin

lemma walk_pure:
  assumes "intact d" and "t2 = node16 tab off i" and "table_node tab off i"
  shows "walk fail rd16 d word n msk b2 t2 = walk fail (\<lambda>d i. Ok (node16 tab off i)) [] word n msk b2 t2"
  using assms(2,3)
proof (induction n arbitrary: msk b2 t2 i)
  case (Suc n)
  show ?case
  proof (cases "t2 AND 0x8000 = 0")
    case True
    let ?c = "child t2 word (push_bit 1 msk)"
    have c: "table_node tab off ?c" using Suc.prems True table_node_child by simp
    have "walk fail rd16 d word n (push_bit 1 msk) (b2 + 1) (node16 tab off ?c)
        = walk fail (\<lambda>d i. Ok (node16 tab off i)) [] word n (push_bit 1 msk) (b2 + 1) (node16 tab off ?c)"
      by (rule Suc.IH [OF refl c])
    then show ?thesis
      using True entry16 [OF assms(1) c]
      by (subst (1 2) walk.simps) (simp only: if_False not_True_eq_False nat.case Let_def rbind.simps simp_thms)
  qed (subst (1 2) walk.simps, simp)
qed (subst (1 2) walk.simps, simp)

lemma symbol_pure:
  assumes "intact d"
  shows "symbol fail rd16 rd8 d word
    = symbol fail (\<lambda>d i. Ok (node16 tab off i)) (\<lambda>d i. Ok (tab ! (off + unat i * 3 + 2))) [] word"
proof -
  have "unat (word AND 0xFF) < 256" by (rule and_mask_bounds)
  then have r: "table_node tab off (word AND 0xFF)" by (rule table_node.root)
  let ?t = "node16 tab off (word AND 0xFF)"
  have "walk fail rd16 d word 64 msk b2 (node16 tab off (child ?t word m))
      = walk fail (\<lambda>d i. Ok (node16 tab off i)) [] word 64 msk b2 (node16 tab off (child ?t word m))"
    "rd16 d (child ?t word m) = Ok (node16 tab off (child ?t word m))"
    if "?t AND 0x8000 = 0" for msk b2 m
    using walk_pure [OF assms refl table_node_child [OF r that]] entry16 [OF assms table_node_child [OF r that]]
    by auto
  then show ?thesis
    by (simp add: symbol_def entry16 [OF assms r] entry8 [OF assms r] Let_def)
qed

end

definition table_kept :: "bytes \<Rightarrow> nat \<Rightarrow> u32 \<Rightarrow> bytes \<Rightarrow> bool" where
  "table_kept tab off key e \<longleftrightarrow> length e < 2 ^ 32 \<and>
     (\<forall>i. table_node tab off i \<longrightarrow> unat key + unat i * 3 + 3 \<le> length e
        \<and> window e (unat key + unat i * 3) 3 = window tab (off + unat i * 3) 3)"

definition table_inside :: "bytes \<Rightarrow> bool" where
  "table_inside tab \<longleftrightarrow> (\<forall>i. table_node tab 0 i \<longrightarrow> unat i * 3 + 3 \<le> length tab)"

lemma unat_entry:
  fixes key i :: u32
  assumes "unat key + unat i * 3 + 3 \<le> n" and "n \<le> 2 ^ 32"
  shows "unat (key + i * 3) = unat key + unat i * 3"
proof -
  have "unat (i * 3) = unat i * 3" using assms by (simp add: unat_word_ariths)
  then show ?thesis using assms by (simp add: unat_add_no_wrap)
qed

lemma window_2_3: "window xs q 2 = take 2 (window xs q 3)"
  by (simp add: window_def)

interpretation buffer_table: table_reader "buf16 key" "buf8 key" tab off "table_kept tab off key"
proof unfold_locales
  fix e i
  assume k: "table_kept tab off key e" and n: "table_node tab off i"
  then have b: "unat key + unat i * 3 + 3 \<le> length e" "length e \<le> 2 ^ 32"
    and w: "window e (unat key + unat i * 3) 3 = window tab (off + unat i * 3) 3"
    by (auto simp: table_kept_def)
  note u = unat_entry [OF b]
  show "buf16 key e i = Ok (node16 tab off i)"
    using b by (simp add: buf16_def get_u16_def u idx_le_in node16_def window_2_3 w)
  have "e ! (unat key + unat i * 3 + 2) = window e (unat key + unat i * 3) 3 ! 2"
    using b by (simp add: nth_window)
  also have "\<dots> = window tab (off + unat i * 3) 3 ! 2" by (simp only: w)
  also have "\<dots> = tab ! (off + unat i * 3 + 2)"
  proof -
    have "length (window tab (off + unat i * 3) 3) = 3" using b by (simp add: w [symmetric] length_window)
    then show ?thesis by (simp add: nth_window_gen)
  qed
  finally show "buf8 key e i = Ok (tab ! (off + unat i * 3 + 2))"
    using b by (simp add: buf8_def u idx_in)
qed

interpretation snapshot_table: table_reader "tab16 tab" "tab8 tab" tab 0 "\<lambda>e. table_inside tab"
proof unfold_locales
  fix i assume "table_inside tab" "table_node tab 0 i"
  then have b: "unat i * 3 + 3 \<le> length tab" by (simp add: table_inside_def)
  show "tab16 tab d i = Ok (node16 tab 0 i)" for d
    using b by (simp add: tab16_def get_range_def node16_def window_2_3)
  show "tab8 tab d i = Ok (tab ! (0 + unat i * 3 + 2))" for d
    using b by (simp add: tab8_def)
qed

section \<open>The snapshot holds the reachable table\<close>

definition marked :: "bool list \<Rightarrow> u32 set" where
  "marked vs = {j. unat j < length vs \<and> vs ! unat j}"

definition node_children :: "bytes \<Rightarrow> nat \<Rightarrow> u32 \<Rightarrow> u32 set" where
  "node_children d off i =
     (if node16 d off i AND 0x8000 = 0 then {node_child (node16 d off i), node_child (node16 d off i) + 1} else {})"

definition snap_inv :: "bytes \<Rightarrow> nat \<Rightarrow> u32 set \<Rightarrow> u32 set \<Rightarrow> u32 \<Rightarrow> bool" where
  "snap_inv d off V todo m \<longleftrightarrow>
     (\<forall>i\<in>V. off + unat i * 3 + 3 \<le> length d \<and> i \<le> m \<and> node_children d off i \<subseteq> todo \<union> V) \<and> (\<forall>i\<in>todo. i \<le> m)"

lemma marked_update: "unat i < length vs \<Longrightarrow> marked (vs[unat i := True]) = insert i (marked vs)"
  by (auto simp: marked_def nth_list_update word_unat_eq_iff)

lemma snap_inv_skip: "snap_inv d off V (insert i T) m \<Longrightarrow> i \<in> V \<Longrightarrow> snap_inv d off V T m"
  unfolding snap_inv_def by blast

lemma snap_inv_mark:
  assumes "snap_inv d off V (insert i T) m" and "off + unat i * 3 + 3 \<le> length d"
    and "node_children d off i = C" and "\<forall>c\<in>C. c \<le> m'" and "m \<le> m'"
  shows "snap_inv d off (insert i V) (C \<union> T) m'"
  using assms unfolding snap_inv_def by (auto intro: order_trans)

lemma snap_loop_closed:
  assumes "snap_loop d key vs st mx = Some m" and "snap_inv d (unat key) (marked vs) (set st) mx"
    and "length d < 2 ^ 32" and "\<forall>i\<in>set st. unat i < length vs" and "length vs = 0x10000"
  shows "\<exists>V. set st \<union> marked vs \<subseteq> V \<and> snap_inv d (unat key) V {} m"
  using assms
proof (induction d key vs st mx rule: snap_loop.induct)
  case (1 d key vs m')
  then show ?case by auto
next
  case (2 d key vs i st mx)
  have il: "unat i < length vs" using "2.prems" by simp
  show ?case
  proof (cases "vs ! unat i")
    case True
    then have "i \<in> marked vs" using il by (simp add: marked_def)
    moreover have "snap_inv d (unat key) (marked vs) (set st) mx"
      by (rule snap_inv_skip [of _ _ _ i]) (use "2.prems"(2) \<open>i \<in> marked vs\<close> in simp_all)
    moreover have "snap_loop d key vs st mx = Some m" using "2.prems"(1) True by simp
    ultimately show ?thesis using "2.IH"(1) "2.prems" True by auto
  next
    case False
    let ?vs = "vs[unat i := True]"
    have fits: "unat key + unat i * 3 + 3 \<le> length d"
      using "2.prems"(1) False il by (auto split: if_splits)
    then have u: "unat (key + i * 3) = unat key + unat i * 3"
      by (rule unat_entry) (use "2.prems"(3) in simp)
    define t where "t = node16 d (unat key) i"
    have t: "from_le (window d (unat (key + i * 3)) 2) = t"
      by (simp add: node16_def u t_def)
    have nv: "\<not> (length vs \<le> unat i \<or> vs ! unat i)" "\<not> length d < unat key + unat i * 3 + 3"
      using False il fits by auto
    show ?thesis
    proof (cases "t AND 0x8000 = 0")
      case leaf: False
      have rec: "snap_loop d key ?vs st mx = Some m"
        using "2.prems"(1) nv leaf by (simp add: t)
      have "snap_inv d (unat key) (insert i (marked vs)) ({} \<union> set st) mx"
        by (rule snap_inv_mark [where m = mx]) (use "2.prems"(2) fits leaf in \<open>simp_all add: node_children_def t_def\<close>)
      then have "snap_inv d (unat key) (marked ?vs) (set st) mx" using il by (simp add: marked_update)
      from "2.IH"(3) [OF nv t [symmetric] leaf rec this] obtain V
        where "set st \<union> marked ?vs \<subseteq> V" "snap_inv d (unat key) V {} m"
        using "2.prems" by auto
      then show ?thesis using il by (auto simp: marked_update)
    next
      case inner: True
      define c where "c = node_child t"
      have c: "ucast (t AND 0x7FFF) = c" by (simp add: c_def node_child_def)
      let ?m = "max (max mx c) (c + 1)"
      have rec: "snap_loop d key ?vs ((c + 1) # c # st) ?m = Some m"
        using "2.prems"(1) nv inner by (simp add: t c)
      have small: "unat c < 2 ^ 15"
      proof -
        have "t AND 0x7FFF = take_bit 15 t" by (simp add: take_bit_eq_mask mask_eq_exp_minus_1)
        moreover have "unat (take_bit 15 t) < 2 ^ 15"
          unfolding unsigned_take_bit_eq by (rule take_bit_nat_less_exp)
        ultimately have "unat (t AND 0x7FFF) < 2 ^ 15" by simp
        moreover have "unat (ucast x :: u32) = unat x" for x :: u16
          using unat_bound [of x] by (simp add: unsigned_ucast_eq take_bit_nat_eq_self)
        ultimately show ?thesis by (simp add: c_def node_child_def)
      qed
      then have c1: "unat (c + 1) = unat c + 1" by (simp add: unat_add_no_wrap)
      have "snap_inv d (unat key) (insert i (marked vs)) ({c, c + 1} \<union> set st) ?m"
        by (rule snap_inv_mark [where m = mx])
          (use "2.prems"(2) fits inner in \<open>simp_all add: node_children_def t_def [symmetric] c_def [symmetric] le_max_iff_disj\<close>)
      then have inv: "snap_inv d (unat key) (marked ?vs) (set ((c + 1) # c # st)) ?m"
        using il by (simp add: marked_update insert_commute)
      have bnd: "\<forall>j\<in>set ((c + 1) # c # st). unat j < length ?vs"
        using "2.prems"(4,5) small c1 by simp
      obtain V where "set ((c + 1) # c # st) \<union> marked ?vs \<subseteq> V" "snap_inv d (unat key) V {} m"
        using "2.IH"(2) [OF nv t [symmetric] inner c [symmetric] rec inv] bnd "2.prems"(3,5) by auto
      then show ?thesis using il by (auto simp: marked_update)
    qed
  qed
qed

lemma node16_window: "off + unat i * 3 + 3 \<le> off + n \<Longrightarrow> node16 (window d off n) 0 i = node16 d off i"
  by (simp add: node16_def window_window)

lemma table_snapshot_ok:
  assumes "huffman_table_snapshot d key = Some tab" and "length d < 2 ^ 32"
  shows "tab = window d (unat key) (length tab)" and "unat key + length tab \<le> length d"
    and "table_node d (unat key) i \<Longrightarrow> unat i * 3 + 3 \<le> length tab"
    and "table_node tab 0 i \<longleftrightarrow> table_node d (unat key) i"
proof -
  obtain m where m: "snap_loop d key (replicate 0x10000 False) (rev (map word_of_nat [0..<256])) 255 = Some m"
    and fit: "unat key + (unat m + 1) * 3 \<le> length d"
    and tab: "tab = window d (unat key) ((unat m + 1) * 3)"
    using assms(1) by (auto simp: huffman_table_snapshot_def Let_def not_less split: option.splits if_splits)
  have len: "length tab = (unat m + 1) * 3" using fit by (simp add: tab length_window)
  show "tab = window d (unat key) (length tab)" using tab len by simp
  show "unat key + length tab \<le> length d" using fit len by simp
  have roots: "set (rev (map word_of_nat [0..<256])) = {i :: u32. unat i < 256}"
  proof (intro set_eqI iffI)
    fix i :: u32 assume "i \<in> {i. unat i < 256}"
    then have "i = word_of_nat (unat i)" "unat i \<in> set [0..<256]" by simp_all
    then show "i \<in> set (rev (map word_of_nat [0..<256]))" by (metis image_eqI set_map set_rev)
  next
    fix i :: u32 assume "i \<in> set (rev (map word_of_nat [0..<256]))"
    then show "i \<in> {i. unat i < 256}" by (auto simp: unat_of_nat simp del: upt_rec_numeral)
  qed
  have mk: "marked (replicate 0x10000 False) = {}" by (auto simp: marked_def)
  have "snap_inv d (unat key) {} {i. unat i < 256} 255"
    by (auto simp: snap_inv_def word_le_nat_alt)
  then obtain V where V: "{i. unat i < 256} \<subseteq> V" "snap_inv d (unat key) V {} m"
    using snap_loop_closed [OF m] assms(2) unfolding roots mk by (auto simp: roots)
  have fits: "unat i * 3 + 3 \<le> length tab" if "i \<in> V" for i
  proof -
    have "unat i \<le> unat m" using V(2) that by (auto simp: snap_inv_def word_le_nat_alt)
    then show ?thesis using len by simp
  qed
  have n16: "node16 tab 0 i = node16 d (unat key) i" if "i \<in> V" for i
    unfolding tab by (rule node16_window) (use fits [OF that] len in simp)
  have inV: "i \<in> V" if "table_node d (unat key) i" for i
    using that
  proof induction
    case (root i)
    then show ?case using V(1) by auto
  qed (use V(2) in \<open>auto simp: snap_inv_def node_children_def\<close>)
  then show "table_node d (unat key) i \<Longrightarrow> unat i * 3 + 3 \<le> length tab" using fits by blast
  show "table_node tab 0 i \<longleftrightarrow> table_node d (unat key) i"
  proof
    assume "table_node tab 0 i"
    then show "table_node d (unat key) i"
    proof induction
      case (left i)
      then show ?case using n16 [OF inV [OF left.IH]] table_node.left by simp
    next
      case (right i)
      then show ?case using n16 [OF inV [OF right.IH]] table_node.right by simp
    qed (rule table_node.root)
  next
    assume "table_node d (unat key) i"
    then show "table_node tab 0 i"
    proof induction
      case (left i)
      then show ?case using n16 [OF inV [OF left.hyps(1)]] table_node.left [of tab 0 i] by simp
    next
      case (right i)
      then show ?case using n16 [OF inV [OF right.hyps(1)]] table_node.right [of tab 0 i] by simp
    qed (rule table_node.root)
  qed
qed

lemma symbol_map_err:
  "symbol (\<lambda>f. g (fail f)) (\<lambda>d i. Ok (t16 i)) (\<lambda>d i. Ok (t8 i)) d word
    = map_err g (symbol fail (\<lambda>d i. Ok (t16 i)) (\<lambda>d i. Ok (t8 i)) d word)"
proof -
  have "walk (\<lambda>f. g (fail f)) (\<lambda>d i. Ok (t16 i)) d word n msk b2 t2
      = map_err g (walk fail (\<lambda>d i. Ok (t16 i)) d word n msk b2 t2)" for n msk b2 t2
  proof (induction n arbitrary: msk b2 t2)
    case 0
    show ?case by (subst (1 2) walk.simps) simp
  next
    case (Suc n)
    show ?case using Suc.IH by (subst (1 2) walk.simps) (simp add: Let_def)
  qed
  then show ?thesis by (simp add: symbol_def Let_def)
qed

lemma emit_map_err: "emit (\<lambda>f. g (fail f)) d_size dst wr pend tab d = map_err g (emit fail d_size dst wr pend tab d)"
proof -
  note rb = map_err_rbind
  have fl: "map_err g (fill_loop body n d) = fill_loop (\<lambda>k d. map_err g (body k d)) n d" for body n d
  proof -
    have "map_err g (foldM (\<lambda>k. body (word_of_nat k)) xs d) = foldM (\<lambda>k d. map_err g (body (word_of_nat k) d)) xs d" for xs
      by (induction xs arbitrary: d) (simp_all add: rb cong: rbind_cong)
    then show ?thesis by (simp add: fill_loop_def)
  qed
  have prim: "map_err g (idx d i) = idx d i" "map_err g (set_at d i b) = set_at d i b"
    "map_err g (get_u16 d o1) = get_u16 d o1" "map_err g (get_u32 d o1) = get_u32 d o1"
    "map_err g (write_u16 d o1 v) = write_u16 d o1 v" "map_err g (write_u32 d o1 v) = write_u32 d o1 v"
    for d :: bytes and i b o1 v
    by (simp_all add: idx_def set_at_def get_u16_def get_u32_def idx_le_def get_le_def get_range_def
        write_u16_def write_u32_def put_le_def put_def)
  note if_map = if_distrib [of "map_err g"]
  have 1: "emit_literal dst pend pl d = map_err g (emit_literal dst pend pl d)" for pl
    by (simp add: emit_literal_def rb prim)
  have 2: "emit_pending (\<lambda>f. g (fail f)) pend pl d = map_err g (emit_pending fail pend pl d)" for pl
    by (simp add: emit_pending_def if_map)
  have 3: "emit_fill (\<lambda>f. g (fail f)) d_size dst wr pend pl d = map_err g (emit_fill fail d_size dst wr pend pl d)" for pl
    by (simp add: emit_fill_def Let_def if_map rb fl prim)
  have 4: "emit_copy (\<lambda>f. g (fail f)) d_size dst wr pend pl d = map_err g (emit_copy fail d_size dst wr pend pl d)" for pl
    by (simp add: emit_copy_def Let_def if_map rb fl prim)
  show ?thesis
    unfolding emit_def Let_def if_map 1 [symmetric] 2 [symmetric] 3 [symmetric] 4 [symmetric] by (rule refl)
qed

lemma window_emitted:
  assumes "emitted d D e n" and "a + k \<le> D \<or> D + n \<le> a" and "a + k \<le> length d"
  shows "window e a k = window d a k"
proof (rule nth_equalityI)
  show len: "length (window e a k) = length (window d a k)"
    using assms(1) by (simp add: window_def emitted_def)
  fix i assume "i < length (window e a k)"
  then have "i < k" "a + i < length d" using assms(3) by (auto simp: len length_window)
  then show "window e a k ! i = window d a k ! i"
    using assms unfolding emitted_def by (auto simp: nth_window)
qed

lemma map_err_id: "map_err (\<lambda>f. f) r = r"
  by (cases r) simp_all

lemma map_fail_id: "map_fail (\<lambda>f. f) r = r"
proof (cases r)
  case (Err e)
  then show ?thesis by (cases e) simp
qed simp_all

lemma map_fail_ident: "map_fail (\<lambda>f. f) = (\<lambda>r. r)"
  by (rule ext) (rule map_fail_id)

lemma rbind_map_err:
  "m' = map_err g m \<Longrightarrow> (\<And>x. f' x = map_err g (f x)) \<Longrightarrow> rbind m' f' = map_err g (rbind m f)"
  by (cases m) simp_all

lemma lz_step_map_err:
  assumes "(get_u32 buf' (buf_off s) :: (u32, 'f) res) = map_err g (get_u32 buf (buf_off s))"
    and "\<And>w. symbol (\<lambda>f. g (fail f)) rd16' rd8' (buffer s) w = map_err g (symbol fail rd16 rd8 (buffer s) w)"
  shows "lz_step (\<lambda>f. g (fail f)) rd16' rd8' buf' d_size s = map_err g (lz_step fail rd16 rd8 buf d_size s)"
proof -
  have emit: "rbind (emit (\<lambda>f. g (fail f)) d_size (dest s) (written s) (pending s) tab (buffer s)) k'
      = map_err g (rbind (emit fail d_size (dest s) (written s) (pending s) tab (buffer s)) k)"
    if "\<And>x. k' x = map_err g (k x)" for tab k k'
    by (rule rbind_map_err [OF emit_map_err that])
  show ?thesis
    unfolding lz_step_def
    by (intro rbind_map_err assms) (auto simp: Let_def intro!: emit)
qed

lemma get_u32_map_err: "map_err g (get_u32 b o1) = get_u32 b o1"
  by (simp add: get_u32_def idx_le_def get_le_def get_range_def)

lemma to_bool_map_fail: "to_bool (map_fail g r) = to_bool r"
proof (cases r)
  case (Err e)
  then show ?thesis by (cases e) simp
qed simp_all

section \<open>Properties\<close>

text \<open>C10. Decompression always ends (on a buffer below 4 GiB), whatever the table and the stream are:
  cyclic tables, symbols without bits and runs of any length included.\<close>

theorem decompress_detailed_returns:
  assumes "length d < 2 ^ 32"
  shows "\<exists>r. decompress_detailed stale d src dst key_offset s_size d_size = Some r"
  using lz_decompress_returns [where fail = "\<lambda>f. f" and ?rd16.0 = "buf16 key_offset" and ?rd8.0 = "buf8 key_offset"
      and d = d and stale = stale and src = src and dst = dst and s_size = s_size and d_size = d_size] assms
  unfolding decompress_detailed_def by blast

theorem decompress_detailed_returns_witness:
  "\<exists>r. decompress_detailed [] (replicate 800 255) 0 4 8 4 100 = Some r"
  by (rule decompress_detailed_returns) simp

text \<open>A successful decompression writes \<open>d_size\<close> bytes at the destination, inside the buffer, and
  nothing else: the length and every byte outside the destination range are unchanged.\<close>

theorem decompress_detailed_frame:
  assumes "decompress_detailed stale d src dst key_offset s_size d_size = Some (Ok d')" and "length d < 2 ^ 32"
  shows "length d' = length d \<and> (d_size = 0 \<or> unat dst + unat d_size \<le> length d)
    \<and> (\<forall>i<length d. i < unat dst \<or> unat dst + unat d_size \<le> i \<longrightarrow> d' ! i = d ! i)"
proof -
  have "emitted d (unat dst) d' (unat d_size)"
    using lz_decompress_returns [where fail = "\<lambda>f. f" and ?rd16.0 = "buf16 key_offset" and ?rd8.0 = "buf8 key_offset"
      and d = d and stale = stale and src = src and dst = dst and s_size = s_size and d_size = d_size] assms
    unfolding decompress_detailed_def by fastforce
  then show ?thesis by (auto simp: emitted_def unat_eq_zero)
qed

text \<open>A failed decompression, too, changes no byte before the destination nor at or after
  \<open>dst + d_size\<close>.\<close>

theorem decompress_detailed_failure_frame:
  assumes "decompress_detailed stale d src dst key_offset s_size d_size = Some (Err (e, d'))" and "length d < 2 ^ 32"
  shows "length d' = length d
    \<and> (\<forall>i<length d. i < unat dst \<or> unat dst + unat d_size \<le> i \<longrightarrow> d' ! i = d ! i)"
proof -
  obtain n where "n \<le> unat d_size" "emitted d (unat dst) d' n"
    using lz_decompress_returns [where fail = "\<lambda>f. f" and ?rd16.0 = "buf16 key_offset" and ?rd8.0 = "buf8 key_offset"
      and d = d and stale = stale and src = src and dst = dst and s_size = s_size and d_size = d_size] assms
    unfolding decompress_detailed_def by fastforce
  then show ?thesis by (auto simp: emitted_def)
qed

text \<open>The scratch buffer that is shared between calls has no influence: whatever an earlier call left
  in it, the same call gives the same result.\<close>

theorem decompress_detailed_scratch:
  assumes "length d < 2 ^ 32"
  shows "decompress_detailed stale d src dst key_offset s_size d_size
    = decompress_detailed stale' d src dst key_offset s_size d_size"
proof -
  have step: "lz_step (\<lambda>f. f) (buf16 key_offset) (buf8 key_offset) (fill_scratch stale source) d_size s
      = map_err (\<lambda>f. f) (lz_step (\<lambda>f. f) (buf16 key_offset) (buf8 key_offset) (fill_scratch stale' source) d_size s)"
    if "buf_off s = src_consumed s" "src_consumed s < s_size" "length source = unat s_size" for s source
    using that by (simp add: map_err_id lz_step_def get_u32_scratch word_less_nat_alt)
  show ?thesis
    unfolding decompress_detailed_def
    using lz_decompress_simulation [OF assms, where fail = "\<lambda>f. f" and g = "\<lambda>f. f" and stale = stale'
        and P = "\<lambda>s. buf_off s = src_consumed s" and rd16' = "buf16 key_offset" and rd8' = "buf8 key_offset"
        and ?rd16.0 = "buf16 key_offset" and ?rd8.0 = "buf8 key_offset" and stale' = stale
        and s_size = s_size and d_size = d_size and dst = dst and src = src]
    by (simp add: step map_fail_ident option.map_ident lz_step_consumed)
qed

text \<open>C3. Decompressing with a snapshot of the table is decompressing with the table in the buffer: if
  the snapshot is taken and the output range does not meet it, both calls return the same answer and
  leave the same buffer, also for corrupt tables and streams.\<close>

theorem decompress_tbl_agrees:
  assumes "huffman_table_snapshot d key = Some tab" and L: "length d < 2 ^ 32"
    and disj: "unat dst + unat d_size \<le> unat key \<or> unat key + length tab \<le> unat dst"
  shows "decompress_tbl stale tab d src dst s_size d_size = decompress stale' d src dst key s_size d_size"
proof -
  note snap = table_snapshot_ok [OF assms(1) L]
  have inside: "table_inside tab" using snap(3,4) by (auto simp: table_inside_def)
  have kept: "table_kept tab 0 key e" if "emitted d (unat dst) e n" "n \<le> unat d_size" for e n
    unfolding table_kept_def
  proof (intro conjI allI impI)
    have len: "length e = length d" using that by (simp add: emitted_def)
    then show "length e < 2 ^ 32" using L by simp
    fix i assume "table_node tab 0 i"
    then have i: "unat i * 3 + 3 \<le> length tab" using snap(3,4) by blast
    then show "unat key + unat i * 3 + 3 \<le> length e" using snap(2) len by simp
    have "window e (unat key + unat i * 3) 3 = window d (unat key + unat i * 3) 3"
      by (rule window_emitted [OF that(1)]) (use i disj that(2) snap(2) in auto)
    also have "\<dots> = window (window d (unat key) (length tab)) (0 + unat i * 3) 3"
      using i by (simp add: window_window)
    finally show "window e (unat key + unat i * 3) 3 = window tab (0 + unat i * 3) 3"
      using snap(1) by simp
  qed
  have step: "lz_step (\<lambda>f. ()) (tab16 tab) (tab8 tab) (fill_scratch stale source) d_size s
      = map_err (\<lambda>f. ()) (lz_step (\<lambda>f. f) (buf16 key) (buf8 key) (fill_scratch stale' source) d_size s)"
    if inv: "lz_inv d dst s_size d_size s" and off: "buf_off s = src_consumed s"
      and more: "src_consumed s < s_size" and len: "length source = unat s_size" for s source
  proof -
    have k: "table_kept tab 0 key (buffer s)"
      using inv kept by (auto simp: lz_inv_def word_le_nat_alt)
    have o: "unat (buf_off s) < length source" using off more len by (simp add: word_less_nat_alt)
    have sym: "symbol (\<lambda>f. ()) (tab16 tab) (tab8 tab) (buffer s) w
        = map_err (\<lambda>f. ()) (symbol (\<lambda>f. f) (buf16 key) (buf8 key) (buffer s) w)" for w
      unfolding buffer_table.symbol_pure [OF k] snapshot_table.symbol_pure [OF inside]
      by (rule symbol_map_err)
    show ?thesis
      by (rule lz_step_map_err [OF _ sym]) (simp add: get_u32_scratch [OF o] get_u32_map_err)
  qed
  have "lz_decompress (\<lambda>f. ()) (tab16 tab) (tab8 tab) stale d src dst s_size d_size
      = map_option (map_fail (\<lambda>f. ()))
         (lz_decompress (\<lambda>f. f) (buf16 key) (buf8 key) stale' d src dst s_size d_size)"
    by (rule lz_decompress_simulation [OF L, where P = "\<lambda>s. buf_off s = src_consumed s"])
      (use step in \<open>auto intro: lz_step_consumed\<close>)
  then show ?thesis
    by (simp add: decompress_tbl_def decompress_def decompress_detailed_def option.map_comp comp_def to_bool_map_fail)
qed

lemma snap_loop_leaves:
  "\<lbrakk>\<forall>i\<in>set st. unat i < length vs \<and> unat key + unat i * 3 + 3 \<le> length d
      \<and> (from_le (window d (unat (key + i * 3)) 2) :: u16) AND 0x8000 \<noteq> 0\<rbrakk> \<Longrightarrow>
   snap_loop d key vs st mx = Some mx"
proof (induction st arbitrary: vs)
  case (Cons i st)
  then show ?case by (auto simp: Let_def not_le)
qed simp

theorem decompress_tbl_agrees_witness:
  "decompress_tbl [] (replicate 768 255) (replicate 800 255) 0 768 4 32
    = decompress [9, 9] (replicate 800 255) 0 768 0 4 32"
proof (rule decompress_tbl_agrees)
  have w: "window (replicate 800 (255 :: u8)) q 2 = [255, 255]" if "q + 2 \<le> 800" for q
    using that by (simp add: window_def numeral_2_eq_2)
  have "snap_loop (replicate 800 255) 0 (replicate 0x10000 False) (rev (map word_of_nat [0..<256])) 255 = Some 255"
  proof (rule snap_loop_leaves, intro ballI conjI)
    fix i :: u32 assume "i \<in> set (rev (map word_of_nat [0..<256]))"
    then have i: "unat i < 256" by (auto simp: unat_of_nat simp del: upt_rec_numeral)
    then show "unat i < length (replicate 0x10000 False)" by simp
    show fits: "unat (0 :: u32) + unat i * 3 + 3 \<le> length (replicate 800 (255 :: u8))" using i by simp
    have "unat (0 + i * 3) = unat (0 :: u32) + unat i * 3" by (rule unat_entry [OF fits]) simp
    then show "(from_le (window (replicate 800 255) (unat (0 + i * 3)) 2) :: u16) AND 0x8000 \<noteq> 0"
      using i by (simp add: w)
  qed
  then show "huffman_table_snapshot (replicate 800 255) 0 = Some (replicate 768 255)"
    by (simp add: huffman_table_snapshot_def window_def)
qed simp_all

definition tiny :: bytes where
  "tiny = [0x41, 0x80, 8, 0, 0]"

definition tiny_bad :: bytes where
  "tiny_bad = [0, 0x83, 8, 0, 7]"

lemmas lz_eval = get_range_def window_def Let_def lz_step_def get_u32_def get_u16_def idx_le_def get_le_def
  symbol_def buf16_def buf8_def idx_def emit_def emit_literal_def emit_copy_def fill_loop_def set_at_def

lemma fill_scratch_zero: "fill_scratch [] [0] = [0, 0, 0, 0]"
  by (simp add: fill_scratch_def patch_def numeral_eq_Suc)

lemma tiny_step:
  "lz_step (\<lambda>f. f) (buf16 0) (buf8 0) [0, 0, 0, 0] 1
     \<lparr>buffer = tiny, dest = 4, bit_pos = 0, buf_off = 0, src_consumed = 0, pending = 0, written = 0\<rparr>
   = Ok \<lparr>buffer = tiny[4 := 0x41], dest = 5, bit_pos = 0, buf_off = 1, src_consumed = 1, pending = 0, written = 1\<rparr>"
  by (simp add: lz_eval tiny_def)

lemma tiny_bad_step:
  "lz_step (\<lambda>f. f) (buf16 0) (buf8 0) [0, 0, 0, 0] 1
     \<lparr>buffer = tiny_bad, dest = 4, bit_pos = 0, buf_off = 0, src_consumed = 0, pending = 0, written = 0\<rparr>
   = Ok \<lparr>buffer = tiny_bad, dest = 4, bit_pos = 0, buf_off = 1, src_consumed = 1, pending = 0, written = 0\<rparr>"
  by (simp add: lz_eval tiny_bad_def)

lemma tiny_runs:
  "decompress_detailed [] tiny 3 4 0 1 1 = Some (Ok (tiny[4 := 0x41]))"
  "decompress_detailed [] tiny_bad 3 4 0 1 1 = Some (Err (OutputSizeMismatch 0 1 1 1, tiny_bad))"
proof -
  have r: "get_range tiny (unat (3 :: u32)) (unat (1 :: u32)) = Some [0]"
    "get_range tiny_bad (unat (3 :: u32)) (unat (1 :: u32)) = Some [0]"
    by (simp_all add: get_range_def window_def tiny_def tiny_bad_def)
  show "decompress_detailed [] tiny 3 4 0 1 1 = Some (Ok (tiny[4 := 0x41]))"
    unfolding decompress_detailed_def lz_decompress_def r
    by (simp add: MAX_IMAGE_SIZE_def fill_scratch_zero lz_loop.simps tiny_step lz_finish_def)
  show "decompress_detailed [] tiny_bad 3 4 0 1 1 = Some (Err (OutputSizeMismatch 0 1 1 1, tiny_bad))"
    unfolding decompress_detailed_def lz_decompress_def r
    by (simp add: MAX_IMAGE_SIZE_def fill_scratch_zero lz_loop.simps tiny_bad_step lz_finish_def word_sless_alt)
qed

theorem decompress_detailed_frame_witness:
  "length (tiny[4 := 0x41]) = length tiny \<and> (tiny[4 := 0x41]) ! 3 = tiny ! 3"
  using decompress_detailed_frame [OF tiny_runs(1)] by (simp add: tiny_def)

theorem decompress_detailed_failure_frame_witness:
  "decompress_detailed [] tiny_bad 3 4 0 1 1 = Some (Err (OutputSizeMismatch 0 1 1 1, tiny_bad))
    \<and> length tiny_bad = 5 \<and> tiny_bad ! 3 = 0"
  using decompress_detailed_failure_frame [OF tiny_runs(2)] tiny_runs(2) by (simp add: tiny_bad_def)

theorem decompress_detailed_scratch_witness:
  "decompress_detailed [1, 2, 3, 4, 5] tiny 3 4 0 1 1 = decompress_detailed [] tiny 3 4 0 1 1"
  by (rule decompress_detailed_scratch) (simp add: tiny_def)

end
