(* ===== verification/Gf32.thy ===== *)
theory Gf32
  imports Prelude
begin

unbundle bit_operations_syntax

text \<open>
  \<^verbatim>\<open>senbei-crypto/src/android/protector.rs\<close>, \<open>gf32_mul_fixed\<close>: multiplication by a fixed element of
  GF(2)[x] modulo a polynomial of degree 32. It is linear, commutes with doubling, and is proved to
  be a bijection of the 32-bit words.
\<close>

section \<open>The loop\<close>

definition gf32_double :: "u32 \<Rightarrow> u32" where
  "gf32_double v = (if drop_bit 31 v \<noteq> 0 then push_bit 1 v XOR 0x579357eb else push_bit 1 v)"

lemma drop_bit_1_less: "m \<noteq> 0 \<Longrightarrow> unat (drop_bit 1 m) < unat (m :: u32)"
  by (simp add: drop_bit_eq_div unat_div unat_gt_0)

function gf32_loop :: "u32 \<Rightarrow> u32 \<Rightarrow> u32 \<Rightarrow> u32" where
  "gf32_loop multiplier v r =
     (if multiplier = 0 then r
      else gf32_loop (drop_bit 1 multiplier) (gf32_double v) (if multiplier AND 1 \<noteq> 0 then r XOR v else r))"
  by pat_completeness auto
termination by (relation "measure (\<lambda>(m, v, r). unat m)") (use drop_bit_1_less in auto)

declare gf32_loop.simps [simp del]

definition gf32_mul_fixed :: "u32 \<Rightarrow> u32" where
  "gf32_mul_fixed v = gf32_loop 0x94511dd2 v 0"

section \<open>The transform is a bijection\<close>

lemma drop_31: "drop_bit 31 v \<noteq> 0 \<longleftrightarrow> bit (v :: u32) 31"
proof -
  have "drop_bit 31 v = (if bit v 31 then 1 else 0)"
  proof (rule bit_word_eqI)
    fix n assume "n < LENGTH(32)"
    show "bit (drop_bit 31 v) n \<longleftrightarrow> bit (if bit v 31 then 1 else 0 :: u32) n"
    proof (cases "n = 0")
      case False
      then have "\<not> bit v (31 + n)" using bit_imp_le_length [of v "31 + n"] by auto
      then show ?thesis using False by (simp add: bit_simps)
    qed (simp add: bit_simps)
  qed
  then show ?thesis by simp
qed

lemma gf32_double_bit: "gf32_double v = (if bit v 31 then push_bit 1 v XOR 0x579357eb else push_bit 1 v)"
  by (simp only: gf32_double_def drop_31)

lemma gf32_double_xor: "gf32_double (a XOR b) = gf32_double a XOR gf32_double b"
  by (simp only: gf32_double_bit push_bit_xor bit_xor_iff)
    (auto simp: xor.assoc xor.commute xor.left_commute simp del: push_bit_numeral)

lemma gf32_loop_step:
  "m \<noteq> 0 \<Longrightarrow> gf32_loop m v r = gf32_loop (drop_bit 1 m) (gf32_double v) (if odd m then r XOR v else r)"
  by (subst gf32_loop.simps) (simp add: and_one_eq odd_iff_mod_2_eq_one)

lemma gf32_loop_xor: "gf32_loop m (a XOR b) (r XOR s) = gf32_loop m a r XOR gf32_loop m b s"
proof (induction m a r arbitrary: b s rule: gf32_loop.induct)
  case (1 m v r)
  show ?case
  proof (cases "m = 0")
    case True
    then show ?thesis by (simp add: gf32_loop.simps)
  next
    case False
    let ?r = "if odd m then r XOR v else r" and ?s = "if odd m then s XOR b else s"
    have "(if odd m then (r XOR s) XOR (v XOR b) else r XOR s) = ?r XOR ?s"
      by (simp add: ac_simps)
    moreover have "gf32_loop (drop_bit 1 m) (gf32_double v XOR gf32_double b) (?r XOR ?s)
        = gf32_loop (drop_bit 1 m) (gf32_double v) ?r XOR gf32_loop (drop_bit 1 m) (gf32_double b) ?s"
      using 1 [OF False, of "gf32_double b" ?s] by (simp add: and_one_eq odd_iff_mod_2_eq_one)
    ultimately show ?thesis
      using False by (simp only: gf32_loop_step gf32_double_xor not_False_eq_True)
  qed
qed

lemma gf32_mul_xor: "gf32_mul_fixed (a XOR b) = gf32_mul_fixed a XOR gf32_mul_fixed b"
  using gf32_loop_xor [of _ a b 0 0] by (simp add: gf32_mul_fixed_def)

lemma gf32_loop_double: "gf32_loop m (gf32_double v) (gf32_double r) = gf32_double (gf32_loop m v r)"
proof (induction m v r rule: gf32_loop.induct)
  case (1 m v r)
  show ?case
  proof (cases "m = 0")
    case False
    let ?r = "if odd m then r XOR v else r"
    have "(if odd m then gf32_double r XOR gf32_double v else gf32_double r) = gf32_double ?r"
      by (simp add: gf32_double_xor)
    moreover have "gf32_loop (drop_bit 1 m) (gf32_double (gf32_double v)) (gf32_double ?r)
        = gf32_double (gf32_loop (drop_bit 1 m) (gf32_double v) ?r)"
      using 1 [OF False] by (simp add: and_one_eq odd_iff_mod_2_eq_one)
    ultimately show ?thesis using False by (simp only: gf32_loop_step not_False_eq_True)
  qed (simp add: gf32_loop.simps)
qed

lemma gf32_mul_double: "gf32_mul_fixed (gf32_double v) = gf32_double (gf32_mul_fixed v)"
proof -
  have "gf32_double 0 = 0" by (simp add: gf32_double_bit)
  then show ?thesis using gf32_loop_double [of _ v 0] by (simp add: gf32_mul_fixed_def)
qed

text \<open>The multiplier has the inverse \<open>0xdc49cd06\<close>; the product is computed on integers.\<close>

fun gf32_int :: "nat \<Rightarrow> int \<Rightarrow> int \<Rightarrow> int \<Rightarrow> int" where
  "gf32_int 0 m v r = r"
| "gf32_int (Suc n) m v r =
     gf32_int n (m div 2) (if 2147483648 \<le> v then (2 * v) XOR 0x1579357eb else 2 * v)
       (if odd m then r XOR v else r)"

lemma gf32_int_numeral:
  "gf32_int (numeral k) m v r =
     gf32_int (pred_numeral k) (m div 2) (if 2147483648 \<le> v then (2 * v) XOR 0x1579357eb else 2 * v)
       (if odd m then r XOR v else r)"
  by (simp add: numeral_eq_Suc)

lemma bit_31_uint: "bit (v :: u32) 31 \<longleftrightarrow> 2147483648 \<le> uint v"
proof -
  have "bit v 31 \<longleftrightarrow> bit (uint v) 31" by (simp add: bit_unsigned_iff)
  also have "\<dots> \<longleftrightarrow> odd (uint v div 2147483648)" by (simp add: bit_iff_odd)
  also have "\<dots> \<longleftrightarrow> 2147483648 \<le> uint v"
  proof -
    have "uint v < 4294967296" using uint_lt2p [of v] by simp
    then have "uint v div 2147483648 = (if 2147483648 \<le> uint v then 1 else 0)"
      by (auto simp: zdiv_eq_0_iff intro!: div_pos_pos_trivial)
    then show ?thesis by simp
  qed
  finally show ?thesis .
qed

lemma uint_gf32_double:
  "uint (gf32_double v) = (if 2147483648 \<le> uint v then (2 * uint v) XOR 0x1579357eb else 2 * uint v)"
proof -
  let ?u = "uint v" let ?c = "0x579357eb :: u32"
  let ?x = "(2 * ?u) XOR (4294967296 XOR uint ?c)"
  have u: "0 \<le> ?u" "?u < 4294967296" "uint ?c < 4294967296"
    using uint_lt2p [of v] by simp_all
  have p: "uint (push_bit 1 v) = take_bit 32 (2 * ?u)"
    by (simp only: unsigned_push_bit_eq) (simp add: mult.commute)
  show ?thesis
  proof (cases "?u < 2147483648")
    case True
    then have "take_bit 32 (2 * ?u) = 2 * ?u" using u by (simp add: take_bit_int_eq_self)
    with True p show ?thesis by (simp add: gf32_double_bit bit_31_uint)
  next
    case False
    then have "(2 * ?u) div 4294967296 = 1" using u by linarith
    then have "drop_bit 32 (2 * ?u) = 1" by (simp add: drop_bit_eq_div)
    moreover have "drop_bit 32 (uint ?c) = 0" by (simp add: drop_bit_eq_div)
    ultimately have "drop_bit 32 ?x = 0" by (simp only: drop_bit_xor) simp
    then have "?x = take_bit 32 ?x" using bits_ident [of 32 ?x] by simp
    also have "\<dots> = take_bit 32 (2 * ?u) XOR uint ?c"
      by (simp add: take_bit_xor take_bit_int_eq_self)
    also have "\<dots> = uint (push_bit 1 v XOR ?c)" by (simp only: unsigned_xor_eq p)
    finally show ?thesis using False by (simp add: gf32_double_bit bit_31_uint)
  qed
qed

lemma uint_gf32_loop: "uint m < 2 ^ n \<Longrightarrow> uint (gf32_loop m v r) = gf32_int n (uint m) (uint v) (uint r)"
proof (induction n arbitrary: m v r)
  case 0
  then have "uint m = 0" using uint_ge_0 [of m] by (simp only: power_0)
  then have "m = 0" by (simp add: uint_0_iff)
  then show ?case by (simp add: gf32_loop.simps)
next
  case (Suc n)
  have half: "uint (drop_bit 1 m) = uint m div 2"
    by (simp add: drop_bit_eq_div uint_div)
  have ev: "even (uint m) \<longleftrightarrow> even m"
  proof -
    have "bit (uint m) 0 \<longleftrightarrow> bit m 0" by (simp only: bit_unsigned_iff) simp
    then show ?thesis by (simp add: bit_0)
  qed
  have z: "gf32_int n 0 x y = y" for n x y by (induction n arbitrary: x) simp_all
  show ?case
  proof (cases "m = 0")
    case True
    then show ?thesis by (simp add: gf32_loop.simps z)
  next
    case False
    have "uint (drop_bit 1 m) < 2 ^ n" using Suc.prems half by simp
    from Suc.IH [OF this] show ?thesis
      using False by (simp only: gf32_loop_step gf32_int.simps(2) half uint_gf32_double ev
          if_distrib [of uint] unsigned_xor_eq not_False_eq_True)
  qed
qed

lemma gf32_eval: "gf32_mul_fixed v = word_of_int (gf32_int 32 0x94511dd2 (uint v) 0)"
proof -
  have "uint (gf32_mul_fixed v) = gf32_int 32 0x94511dd2 (uint v) 0"
    unfolding gf32_mul_fixed_def by (subst uint_gf32_loop [where n = 32]) simp_all
  then show ?thesis by (metis word_of_int_uint)
qed

lemma gf32_inverse: "gf32_mul_fixed 0xdc49cd06 = 1"
proof -
  have "uint (gf32_mul_fixed 0xdc49cd06) = gf32_int 32 0x94511dd2 0xdc49cd06 0"
    unfolding gf32_mul_fixed_def by (subst uint_gf32_loop [where n = 32]) simp_all
  also have "\<dots> = 1" by (simp add: gf32_int_numeral gf32_int.simps(2))
  finally show ?thesis by (simp add: word_uint_eq_iff)
qed

section \<open>Division\<close>

definition gf32_div :: "u32 \<Rightarrow> u32" where
  "gf32_div v = gf32_loop 0xdc49cd06 v 0"

lemma gf32_div_xor: "gf32_div (a XOR b) = gf32_div a XOR gf32_div b"
  using gf32_loop_xor [of _ a b 0 0] by (simp add: gf32_div_def)

lemma gf32_div_double: "gf32_div (gf32_double v) = gf32_double (gf32_div v)"
proof -
  have "gf32_double 0 = 0" by (simp add: gf32_double_bit)
  then show ?thesis using gf32_loop_double [of _ v 0] by (simp add: gf32_div_def)
qed

lemma gf32_div_1: "gf32_div 1 = 0xdc49cd06"
proof -
  have "uint (gf32_div 1) = gf32_int 32 0xdc49cd06 1 0"
    unfolding gf32_div_def by (subst uint_gf32_loop [where n = 32]) simp_all
  also have "\<dots> = 0xdc49cd06" by (simp add: gf32_int_numeral gf32_int.simps(2))
  finally show ?thesis by (simp add: word_uint_eq_iff)
qed

text \<open>A linear map that commutes with doubling is the identity as soon as it fixes 1.\<close>

lemma gf32_linear_id:
  assumes xor: "\<And>a b. g (a XOR b) = g a XOR g b" and dbl: "\<And>v. g (gf32_double v) = gf32_double (g v)"
    and one: "g 1 = 1"
  shows "g w = w"
proof -
  have z: "g 0 = 0" using xor [of 0 0] by simp
  have pow: "j < 32 \<Longrightarrow> g (2 ^ j) = 2 ^ j" for j
  proof (induction j)
    case (Suc j)
    have "\<not> bit (2 ^ j :: u32) 31" using Suc.prems by (simp add: bit_exp_iff)
    then have "gf32_double (2 ^ j) = 2 ^ Suc j"
      by (simp add: gf32_double_bit push_bit_eq_mult mult.commute del: push_bit_numeral)
    then show ?case using Suc dbl [of "2 ^ j"] by simp
  qed (simp add: one)
  have "n \<le> 32 \<Longrightarrow> g (take_bit n w) = take_bit n w" for n
  proof (induction n)
    case (Suc n)
    have t: "take_bit (Suc n) w = take_bit n w XOR (if bit w n then 2 ^ n else 0)"
      by (rule bit_word_eqI) (auto simp: bit_simps less_Suc_eq)
    show ?case unfolding t xor using Suc by (simp add: pow z)
  qed (simp add: z)
  from this [of 32] show ?thesis using take_bit_length_eq [of w] by simp
qed

lemma gf32_mul_div [simp]: "gf32_mul_fixed (gf32_div w) = w"
  by (rule gf32_linear_id [where g = "\<lambda>w. gf32_mul_fixed (gf32_div w)"])
    (simp_all only: gf32_div_xor gf32_mul_xor gf32_div_double gf32_mul_double gf32_div_1 gf32_inverse)

lemma gf32_bij: "bij gf32_mul_fixed"
proof -
  have "surj gf32_mul_fixed" unfolding surj_def using gf32_mul_div by metis
  then show ?thesis using finite_UNIV_surj_inj [of gf32_mul_fixed] by (simp add: bij_def)
qed

end
