(* ===== verification/Protector.thy ===== *)
theory Protector
  imports Gf32 Streams Aes
begin

unbundle bit_operations_syntax

text \<open>
  \<^verbatim>\<open>senbei-crypto/src/android/protector.rs\<close>, first part: the static
  configuration of module 0x9B, the 0x9D descriptor, the container header with its encrypted tree
  and segment table, and the segment transform.

  An error is represented by the fixed part of its message. The AES-256 block decryption of the
  \<open>aes\<close> crate is an argument, from the key and a 16-byte block to a 16-byte block. A failed
  reservation of memory is not modelled.
\<close>

section \<open>Ranges and limits\<close>

record output_limit =
  max_output_bytes :: u64

definition limit_check :: "output_limit \<Rightarrow> nat \<Rightarrow> (unit, err) res" where
  "limit_check l bytes =
     (if unat (max_output_bytes l) < bytes then Err ''exceeds the output ceiling'' else Ok ())"

definition byte_range :: "bytes \<Rightarrow> nat \<Rightarrow> nat \<Rightarrow> (bytes, err) res" where
  "byte_range data off sz =
     rbind (ok_or ''byte range overflow'' (chk_add off sz)) (\<lambda>stop.
       ok_or ''byte range is out of bounds'' (get_range data off sz))"

definition read_u16 :: "bytes \<Rightarrow> nat \<Rightarrow> (u16, err) res" where
  "read_u16 data off = rbind (byte_range data off 2) (\<lambda>b. Ok (from_le b))"

definition read_u32 :: "bytes \<Rightarrow> nat \<Rightarrow> (u32, err) res" where
  "read_u32 data off = rbind (byte_range data off 4) (\<lambda>b. Ok (from_le b))"

definition align_up :: "nat \<Rightarrow> nat \<Rightarrow> (nat, err) res" where
  "align_up v alignment =
     rbind (ok_or ''zero alignment'' (chk_sub alignment 1)) (\<lambda>mask.
     rbind (ok_or ''alignment overflow'' (chk_add v mask)) (\<lambda>w.
       Ok (unat ((word_of_nat w :: u64) AND NOT (word_of_nat mask)))))"

section \<open>The static configuration of module 0x9B\<close>

definition xtime8 :: "u8 \<Rightarrow> u8" where
  "xtime8 v = push_bit 1 v XOR (if v AND 0x80 \<noteq> 0 then 0x1b else 0)"

fun mix_column :: "bytes \<Rightarrow> bytes" where
  "mix_column [a, b, c, d] =
     [xtime8 a XOR (xtime8 b XOR b) XOR c XOR d, a XOR xtime8 b XOR (xtime8 c XOR c) XOR d,
      a XOR b XOR xtime8 c XOR (xtime8 d XOR d), (xtime8 a XOR a) XOR b XOR c XOR xtime8 d]"
| "mix_column _ = []"

definition mix_columns_block :: "bytes \<Rightarrow> bytes" where
  "mix_columns_block block = concat (map (\<lambda>c. mix_column (window block (4 * c) 4)) [0..<4])"

record module9b_config =
  header_seed :: u32
  container_seed :: u32
  aes_key :: bytes
  cfg_skip_aes :: bool
  schedule_offset :: nat

definition marker_offsets :: "bytes \<Rightarrow> nat list" where
  "marker_offsets img =
     filter (\<lambda>off. window img off 4 = [0x00, 0x01, 0x0e, 0x00]) [0..<length img - 3]"

text \<open>Round key \<open>r\<close> of the schedule with the bytes of each word reversed.\<close>

definition round_key :: "bytes \<Rightarrow> nat \<Rightarrow> bytes" where
  "round_key schedule r = concat (map (\<lambda>w. rev (window schedule (16 * r + 4 * w) 4)) [0..<4])"

definition parse_inner :: "bytes \<Rightarrow> bool \<Rightarrow> (module9b_config, err) res" where
  "parse_inner img has_skip_aes =
     (case marker_offsets img of
        [] \<Rightarrow> Err ''cannot locate the 0x9B AES-256 schedule''
      | off # others \<Rightarrow>
         if off < 8 \<or> others \<noteq> [] then Err ''cannot uniquely locate the 0x9B AES-256 schedule''
         else
         rbind (read_u32 img (off - 8)) (\<lambda>hseed.
         rbind (read_u32 img (off - 4)) (\<lambda>ssize.
           if ssize \<noteq> 0 \<and> ssize \<noteq> 0xf4 then Err ''unexpected 0x9B AES schedule size''
           else
         rbind (read_u16 img off) (\<lambda>bits.
         rbind (read_u16 img (off + 2)) (\<lambda>rounds.
           if (bits, rounds) \<noteq> (0x100, 14) then Err ''unexpected AES schedule header''
           else
         rbind (byte_range img (off + 4) (15 * 16)) (\<lambda>schedule.
         let key = round_key schedule 14 @ mix_columns_block (round_key schedule 13) in
         rbind (ok_or ''container seed offset overflow'' (chk_add off 0x100)) (\<lambda>seed_off.
         rbind (if has_skip_aes then
                  rbind (ok_or ''skip-AES offset overflow'' (chk_add off 0x240)) (\<lambda>so.
                    if so < length img then Ok (img ! so \<noteq> 0)
                    else Err ''module static configuration exceeds its image'')
                else Ok False) (\<lambda>skip.
         rbind (if has_skip_aes then read_u32 img seed_off else Ok hseed) (\<lambda>cseed.
           Ok \<lparr>header_seed = hseed, container_seed = cseed, aes_key = key, cfg_skip_aes = skip,
               schedule_offset = off\<rparr>)))))))))"

definition parse_config :: "bytes \<Rightarrow> (module9b_config, err) res" where
  "parse_config img = parse_inner img True"

definition parse_embedded :: "bytes \<Rightarrow> (module9b_config, err) res" where
  "parse_embedded img = parse_inner img False"

section \<open>The 0x9D descriptor\<close>

definition RECORD_SIZE :: nat where
  "RECORD_SIZE = 0x5c"

record protected_descriptor =
  command_id :: u32
  flags :: u32
  outer_offset :: u32
  outer_expected_size :: u32
  auxiliary_offset :: u32
  auxiliary_expected_size :: u32

definition descriptor_base0 :: "u32 \<Rightarrow> u32" where
  "descriptor_base0 seed = (seed + 0xd3e87144) * seed"

definition descriptor_base1 :: "u32 \<Rightarrow> u32" where
  "descriptor_base1 seed = descriptor_base0 seed + seed * 0x0bd9418d"

definition descriptor_word :: "u32 \<Rightarrow> nat \<Rightarrow> u32 \<Rightarrow> u32" where
  "descriptor_word seed index cipher =
     (cipher - shl32 (descriptor_base0 seed) (if odd index then 4 else 0))
       XOR shr32 (descriptor_base1 seed) ((seed + word_of_nat index * 4) AND 7)"

definition descriptor_decrypt :: "bytes \<Rightarrow> u32 \<Rightarrow> (protected_descriptor, err) res" where
  "descriptor_decrypt data seed =
     (if length data < RECORD_SIZE then Err ''0x9D descriptor is truncated''
      else
      rbind (mapM (\<lambda>index. rbind (read_u32 data (index * 4)) (\<lambda>cipher. Ok (descriptor_word seed index cipher)))
               [0..<RECORD_SIZE div 4]) (\<lambda>words.
        if \<exists>w\<in>set (drop 6 words). w \<noteq> 0
        then Err ''unexpected nonzero reserved words in the 0x9D descriptor''
        else
          let d = \<lparr>command_id = words ! 0, flags = words ! 1, outer_offset = words ! 2,
                   outer_expected_size = words ! 3, auxiliary_offset = words ! 4,
                   auxiliary_expected_size = words ! 5\<rparr> in
          if command_id d \<noteq> 0x9d \<or> unat (outer_offset d) \<noteq> RECORD_SIZE
          then Err ''unexpected decrypted 0x9D descriptor''
          else Ok d))"

section \<open>The container header\<close>

record encoded_segment =
  seg_offset :: u32
  seg_size :: u32

record container_header =
  hdr_start :: nat
  output_size :: u32
  hdr_skip_aes :: bool
  tree :: bytes
  segments :: "encoded_segment list"

definition header_state :: "u32 \<Rightarrow> u32" where
  "header_state seed = (let sq = seed * seed in shr32 sq 17 XOR shl32 sq 11)"

definition header_output_size :: "u32 \<Rightarrow> u32 \<Rightarrow> u32" where
  "header_output_size state raw0 =
     shl32 0xa21dfb3a (state AND 7) + state * 0xf87b337c + gf32_mul_fixed raw0"

definition header_flag_word :: "u32 \<Rightarrow> u32 \<Rightarrow> u32" where
  "header_flag_word state raw1 =
     gf32_mul_fixed raw1 XOR (state + 0xbd19c63c + shr32 0x416e2af2 (state AND 0x0d))"

definition header_tree_size :: "u32 \<Rightarrow> u32 \<Rightarrow> nat" where
  "header_tree_size state raw2 =
     unat (shl32 0x643a3a3b (state AND 0x0b) - (state XOR 0x3b2bf538) + gf32_mul_fixed raw2)"

text \<open>The loops \<open>for offset in (0..n).step_by(4)\<close> over the whole words of a buffer.\<close>

definition map_words :: "(nat \<Rightarrow> u32 \<Rightarrow> u32) \<Rightarrow> nat \<Rightarrow> bytes \<Rightarrow> (bytes, err) res" where
  "map_words f n buf =
     foldM (\<lambda>k b. rbind (read_u32 b (4 * k)) (\<lambda>v. put b (4 * k) (to_le 4 (f (4 * k) v)))) [0..<n] buf"

definition tree_byte :: "u32 \<Rightarrow> nat \<Rightarrow> u8 \<Rightarrow> u8" where
  "tree_byte state index b =
     (let tree_state = (state + 0xf1cb5b81) * state;
          tree_delta = tree_state - 0x23b32203 * state;
          i = word_of_nat index :: u32;
          left = gf32_mul_fixed (shl32 tree_state (i AND 0x1b));
          right = shr32 tree_delta (i AND 0x17);
          adjustment = shr32 (left - right) (i AND 0x1f)
      in b + ucast adjustment)"

definition table_word :: "u32 \<Rightarrow> nat \<Rightarrow> u32 \<Rightarrow> u32" where
  "table_word state off v =
     (let table_state = (state + 0xb31f451c) * state;
          table_xor = shl32 table_state 3;
          table_add = table_state - 0x822fe82d * state
      in gf32_mul_fixed (v XOR table_xor) + shr32 table_add ((word_of_nat off AND 7) + 5))"

definition parse_segment :: "bytes \<Rightarrow> nat \<Rightarrow> bytes \<Rightarrow> nat \<Rightarrow> (encoded_segment, err) res" where
  "parse_segment data start table index =
     rbind (read_u32 table (index * 8)) (\<lambda>off.
     rbind (read_u32 table (index * 8 + 4)) (\<lambda>sz.
       let absolute = Option.bind (chk_add start (unat off)) (\<lambda>v. chk_add v (unat sz)) in
       if sz = 0 \<or> (case absolute of None \<Rightarrow> True | Some stop \<Rightarrow> length data < stop)
       then Err ''container segment lies outside 0x9D''
       else Ok \<lparr>seg_offset = off, seg_size = sz\<rparr>))"

definition parse_header :: "bytes \<Rightarrow> nat \<Rightarrow> u32 \<Rightarrow> (container_header, err) res" where
  "parse_header data start seed =
     rbind (byte_range data start 12) (\<lambda>_.
     let state = header_state seed in
     rbind (read_u32 data start) (\<lambda>raw0.
     rbind (read_u32 data (start + 4)) (\<lambda>raw1.
     rbind (read_u32 data (start + 8)) (\<lambda>raw2.
     let flag_word = header_flag_word state raw1;
         segment_count = unat (flag_word AND 0xff);
         skip_aes = (drop_bit 8 flag_word AND 0xff = 1);
         tree_size = header_tree_size state raw2 in
     if segment_count = 0 \<or> 0x1b00 < tree_size then Err ''invalid container fields''
     else
     rbind (ok_or ''tree offset overflow'' (chk_add start 12)) (\<lambda>tree_start.
     rbind (byte_range data tree_start tree_size) (\<lambda>raw_tree.
     rbind (map_words (\<lambda>_. gf32_mul_fixed) (tree_size div 4) raw_tree) (\<lambda>mixed.
     let tree' = map (\<lambda>(i, b). tree_byte state i b) (enumerate 0 mixed) in
     rbind (align_up (12 + tree_size) 4) (\<lambda>table_rel.
     rbind (ok_or ''segment table offset overflow'' (chk_add start table_rel)) (\<lambda>table_start.
     rbind (ok_or ''segment table size overflow'' (chk_mul segment_count 8)) (\<lambda>table_size.
     rbind (byte_range data table_start table_size) (\<lambda>raw_table.
     rbind (map_words (table_word state) (table_size div 4) raw_table) (\<lambda>table.
     rbind (mapM (parse_segment data start table) [0..<segment_count]) (\<lambda>segs.
       Ok \<lparr>hdr_start = start, output_size = header_output_size state raw0, hdr_skip_aes = skip_aes,
           tree = tree', segments = segs\<rparr>)))))))))))))"

definition encoded_end :: "container_header \<Rightarrow> (nat, err) res" where
  "encoded_end h =
     rbind (mapM (\<lambda>s. ok_or ''encoded segment end overflow''
               (Option.bind (chk_add (hdr_start h) (unat (seg_offset s))) (\<lambda>v. chk_add v (unat (seg_size s)))))
             (segments h)) (\<lambda>ends.
       if ends = [] then Err ''container has no encoded segments'' else Ok (Max (set ends)))"

section \<open>The segment transform\<close>

type_synonym seg_state = "u32 \<times> u32 \<times> u32"

definition seg_next :: "nat \<Rightarrow> seg_state \<Rightarrow> seg_state" where
  "seg_next index st =
     (let (state, left, right) = st; i = word_of_nat index :: u32;
          left' = shr32 (state + 0x72f6fcbe + (left + 0x4f8b1bca) * left) ((i * i) AND 0x0f);
          right' = shl32 (state - 0x71b6a98d + (right - 0x1605a81c) * right) (i AND 7)
      in (left' XOR right', left', right'))"

definition seg_step :: "seg_state step" where
  "seg_step index st v =
     (let st' = seg_next index st; state = fst st'; i = word_of_nat index :: u32;
          a = v + 0xb43b9baf * (i AND 0x0d);
          b = a XOR (0xaf57f7fb * (i AND 3))
      in ((b - state) XOR state, st'))"

definition seg_start :: "u32 \<Rightarrow> seg_state" where
  "seg_start seed = (seed, 0xe34eac63, 0x07b48238)"

text \<open>\<open>as_chunks_mut::<4>\<close> visits the whole words, \<open>as_chunks_mut::<16>\<close> the whole blocks.\<close>

definition seg_words :: "bytes \<Rightarrow> u32 \<Rightarrow> (bytes, err) res" where
  "seg_words data seed =
     (if 2 ^ 32 < length data div 4 then Err ''segment word index exceeds u32''
      else Ok (run_region seg_step (seg_start seed) 0 (length data div 4) data))"

definition seg_aes :: "(bytes \<Rightarrow> bytes) \<Rightarrow> bytes \<Rightarrow> bytes" where
  "seg_aes dec data =
     patch data 0 (concat (cbc_dec dec (replicate 16 0) (blocks_at data 0 (length data div 16))))"

definition transform_segment ::
  "(bytes \<Rightarrow> bytes \<Rightarrow> bytes) \<Rightarrow> bytes \<Rightarrow> u32 \<Rightarrow> bytes \<Rightarrow> bool \<Rightarrow> (bytes, err) res" where
  "transform_segment aes256 data seed key decrypt_aes =
     rbind (seg_words data seed) (\<lambda>t. Ok (if decrypt_aes then seg_aes (aes256 key) t else t))"

section \<open>Reads in range\<close>

lemma read_u32_in: "off + 4 \<le> length d \<Longrightarrow> off + 4 < usize_limit \<Longrightarrow> read_u32 d off = Ok (from_le (window d off 4))"
  by (simp add: read_u32_def byte_range_def chk_add_def get_range_def)

lemma read_u16_in: "off + 2 \<le> length d \<Longrightarrow> off + 2 < usize_limit \<Longrightarrow> read_u16 d off = Ok (from_le (window d off 2))"
  by (simp add: read_u16_def byte_range_def chk_add_def get_range_def)

lemma byte_range_in: "off + n \<le> length d \<Longrightarrow> off + n < usize_limit \<Longrightarrow> byte_range d off n = Ok (window d off n)"
  by (simp add: byte_range_def chk_add_def get_range_def)

lemma align_up_pow2:
  assumes "v + 2 ^ k \<le> usize_limit"
  shows "align_up v (2 ^ k) = Ok ((v + (2 ^ k - 1)) div 2 ^ k * 2 ^ k)"
proof -
  have p: "0 < (2 :: nat) ^ k" by simp
  have s: "v + (2 ^ k - 1) < usize_limit" using assms p by linarith
  have u: "unat (word_of_nat (v + (2 ^ k - 1)) :: u64) = v + (2 ^ k - 1)"
    using s by (simp add: unat_of_nat usize_limit_def)
  have m: "word_of_nat (2 ^ k - 1) = (mask k :: u64)"
    by (simp add: mask_eq_exp_minus_1 of_nat_diff)
  have "chk_sub (2 ^ k) 1 = Some (2 ^ k - 1)" "chk_add v (2 ^ k - 1) = Some (v + (2 ^ k - 1))"
    using s p by (simp_all add: chk_sub_def chk_add_def)
  then show ?thesis
    unfolding align_up_def by (simp only: rbind.simps ok_or.simps m unat_and_not_mask u)
qed

section \<open>The recovered AES key\<close>

lemma xtime8_xtime: "xtime8 v = xtime v"
  by (simp add: xtime8_def xtime_def and_128)

lemma xtime_gf: "gf_mul 2 v = xtime v" "gf_mul 3 v = xtime v XOR v"
proof -
  have two: "(2 :: u8) = xtime 1" by (simp add: xtime_def)
  show t: "gf_mul 2 v = xtime v" unfolding two gf_mul_xtime by (simp add: gf_mul_1_left)
  have three: "(3 :: u8) = 2 XOR 1" by simp
  show "gf_mul 3 v = xtime v XOR v" unfolding three gf_mul_xor_left t by (simp add: gf_mul_1_left)
qed

lemma mix_columns_block: "mix_columns_block (block_bytes m) = block_bytes (mix_columns m)"
  by (simp add: mix_columns_block_def upt_4 block_bytes_def window_def mix_columns_def xtime8_xtime xtime_gf
      mod4_simps ac_simps)

lemma round_key_bytes:
  assumes "window schedule (16 * r) 16 = key_bytes m"
  shows "round_key schedule r = block_bytes m"
proof -
  have "window schedule (16 * r + 4 * k) 4 = window (key_bytes m) (4 * k) 4" if "k < 4" for k
    using that window_window [of "4 * k" 4 16 schedule "16 * r"] by (simp add: assms)
  then have "round_key schedule r = concat (map (\<lambda>k. rev (window (key_bytes m) (4 * k) 4)) [0..<4])"
    unfolding round_key_def by (intro arg_cong [of _ _ concat] map_cong) auto
  also have "\<dots> = block_bytes m"
    by (simp add: upt_4 key_bytes_def block_bytes_def window_def)
  finally show ?thesis .
qed

lemma recovered_key:
  assumes "\<forall>i\<le>14. window schedule (16 * i) 16 = key_bytes (inv_key w 14 i)"
  shows "round_key schedule 14 @ mix_columns_block (round_key schedule 13)
    = block_bytes (w 0) @ block_bytes (w 1)"
proof -
  have "round_key schedule 14 = block_bytes (inv_key w 14 14)"
    "round_key schedule 13 = block_bytes (inv_key w 14 13)"
    using assms [rule_format, of 14] assms [rule_format, of 13] by (auto simp: round_key_bytes)
  then show ?thesis by (simp add: mix_columns_block inv_key_def mix_columns_of_inv)
qed

text \<open>C9. When an image holds one marker followed by the decryption schedule of an AES-256 key, whatever the
  expanded key is, the parser returns that key: its first half is the last round key, its second half
  is un-mixed from the round before, and the seeds and the AES switch are read from their offsets.\<close>

theorem parse_config_recovers_key:
  assumes "marker_offsets img = [off]" and "8 \<le> off" and "off + 0x241 \<le> length img"
    and "length img < usize_limit"
    and "from_le (window img (off - 4) 4) \<in> {0, 0xf4 :: u32}"
    and "\<forall>i\<le>14. window img (off + 4 + 16 * i) 16 = key_bytes (inv_key w 14 i)"
  shows "parse_config img = Ok \<lparr>header_seed = from_le (window img (off - 8) 4),
      container_seed = from_le (window img (off + 0x100) 4),
      aes_key = block_bytes (w 0) @ block_bytes (w 1),
      cfg_skip_aes = (img ! (off + 0x240) \<noteq> 0), schedule_offset = off\<rparr>"
proof -
  have "off \<in> set (marker_offsets img)" by (simp add: assms(1))
  then have m: "window img off 4 = [0x00, 0x01, 0x0e, 0x00]" by (simp add: marker_offsets_def)
  then have "window img off 2 = [0, 1]" "window img (off + 2) 2 = [0x0e, 0]"
    using window_window [of 0 2 4 img off] window_window [of 2 2 4 img off] by (simp_all add: window_def)
  then have b: "read_u16 img off = Ok 0x100" "read_u16 img (off + 2) = Ok 14"
    using assms(3,4) by (simp_all add: read_u16_in)
  let ?s = "window img (off + 4) 240"
  have "window ?s (16 * i) 16 = key_bytes (inv_key w 14 i)" if "i \<le> 14" for i
    using that assms(6) window_window [of "16 * i" 16 240 img "off + 4"] by simp
  then have k: "round_key ?s 14 @ mix_columns_block (round_key ?s 13) = block_bytes (w 0) @ block_bytes (w 1)"
    by (intro recovered_key) simp
  have r: "read_u32 img (off - 8) = Ok (from_le (window img (off - 8) 4))"
    "read_u32 img (off - 4) = Ok (from_le (window img (off - 4) 4))"
    "read_u32 img (off + 0x100) = Ok (from_le (window img (off + 0x100) 4))"
    "byte_range img (off + 4) 240 = Ok ?s"
    using assms(2,3,4) by (simp_all add: read_u32_in byte_range_in)
  have c: "chk_add off 0x100 = Some (off + 0x100)" "chk_add off 0x240 = Some (off + 0x240)"
    using assms(3,4) by (simp_all add: chk_add_def)
  show ?thesis
    unfolding parse_config_def parse_inner_def Let_def
    using assms(1,2,3,5) b k r c by auto
qed

theorem parse_config_recovers_key_witness:
  "parse_config ([1, 2, 3, 4, 0xf4, 0, 0, 0, 0, 1, 0x0e, 0] @ replicate 0x23c 0 @ [7])
   = Ok \<lparr>header_seed = 0x04030201, container_seed = 0, aes_key = replicate 32 0, cfg_skip_aes = True,
         schedule_offset = 8\<rparr>"
proof -
  let ?pre = "[1, 2, 3, 4, 0xf4, 0, 0, 0, 0, 1, 0x0e, 0] :: bytes"
  let ?img = "?pre @ replicate 0x23c 0 @ [7]"
  let ?w = "\<lambda>i r c. 0 :: u8"
  have z: "key_bytes (inv_key ?w 14 i) = replicate 16 0" for i
    by (simp add: key_bytes_def inv_key_def inv_mix_columns_def gf_mul_0_left gf_mul_comm [of _ 0] numeral_eq_Suc)
  have w: "window (?pre @ xs) (12 + n) m = window xs n m" for xs n m
    unfolding window_def add.commute [of 12] drop_drop [symmetric] by simp
  have w0: "window (replicate 0x23c 0 @ [7 :: u8]) n m = replicate m 0" if "n + m \<le> 0x23c" for n m
    using that by (simp add: window_def)
  have far: "window ?img off 4 \<noteq> [0x00, 0x01, 0x0e, 0x00]" if "12 \<le> off" for off
  proof
    assume eq: "window ?img off 4 = [0x00, 0x01, 0x0e, 0x00]"
    have "set (window ?img off 4) = set (window (replicate 0x23c 0 @ [7 :: u8]) (off - 12) 4)"
      using w [of "replicate 0x23c 0 @ [7]" "off - 12" 4] that by simp
    also have "\<dots> \<subseteq> set (replicate 0x23c 0 @ [7])"
      unfolding window_def by (meson set_drop_subset set_take_subset subset_trans)
    finally show False unfolding eq by auto
  qed
  have "filter (\<lambda>off. window ?img off 4 = [0x00, 0x01, 0x0e, 0x00]) [12..<length ?img - 3] = []"
    by (intro filter_False ballI far) (simp only: set_upt atLeastLessThan_iff)
  moreover have "[0..<length ?img - 3] = [0..<12] @ [12..<length ?img - 3]"
  proof -
    have len: "length ?img - 3 = 12 + 570" by simp
    show ?thesis unfolding len by (rule upt_add_eq_append) (rule le0)
  qed
  moreover have "filter (\<lambda>off. window ?img off 4 = [0x00, 0x01, 0x0e, 0x00]) [0..<12] = [8]"
    by (simp add: upt_rec window_def numeral_3_eq_3)
  ultimately have mk: "marker_offsets ?img = [8]"
    unfolding marker_offsets_def by (simp only: filter_append append_Nil2)
  have sched: "\<forall>i\<le>14. window ?img (8 + 4 + 16 * i) 16 = key_bytes (inv_key ?w 14 i)"
  proof (intro allI impI)
    fix i :: nat assume i: "i \<le> 14"
    have "8 + 4 + 16 * i = 12 + 16 * i" by simp
    then have "window ?img (8 + 4 + 16 * i) 16 = replicate 16 0"
      using i by (simp only: w) (rule w0, simp)
    then show "window ?img (8 + 4 + 16 * i) 16 = key_bytes (inv_key ?w 14 i)" by (simp only: z)
  qed
  have "parse_config ?img = Ok \<lparr>header_seed = from_le (window ?img (8 - 8) 4),
      container_seed = from_le (window ?img (8 + 0x100) 4),
      aes_key = block_bytes (?w 0) @ block_bytes (?w 1),
      cfg_skip_aes = (?img ! (8 + 0x240) \<noteq> 0), schedule_offset = 8\<rparr>"
  proof (rule parse_config_recovers_key [OF mk])
    show "from_le (window ?img (8 - 4) 4) \<in> {0, 0xf4 :: u32}" by (simp add: window_def)
    show "\<forall>i\<le>14. window ?img (8 + 4 + 16 * i) 16 = key_bytes (inv_key ?w 14 i)" by (rule sched)
  qed (simp_all add: usize_limit_def)
  moreover have "window ?img (8 + 0x100) 4 = replicate 4 0"
    using w [of "replicate 0x23c 0 @ [7]" 252 4] by (simp add: w0)
  moreover have "from_le (window ?img (8 - 8) 4) = (0x04030201 :: u32)" by (simp add: window_def)
  moreover have "?img ! (8 + 0x240) = 7" by (simp add: nth_append)
  moreover have "from_le (replicate 4 0) = (0 :: u32)" by (simp add: numeral_eq_Suc)
  moreover have "block_bytes (?w 0) @ block_bytes (?w 1) = replicate 32 0"
    by (simp add: block_bytes_def numeral_eq_Suc)
  ultimately show ?thesis by (simp only:) simp
qed

section \<open>The descriptor\<close>

definition descriptor_encrypt :: "u32 \<Rightarrow> nat \<Rightarrow> u32 \<Rightarrow> u32" where
  "descriptor_encrypt seed index word =
     (word XOR shr32 (descriptor_base1 seed) ((seed + word_of_nat index * 4) AND 7))
       + shl32 (descriptor_base0 seed) (if odd index then 4 else 0)"

lemma descriptor_word_encrypt [simp]: "descriptor_word seed i (descriptor_encrypt seed i w) = w"
  by (simp add: descriptor_word_def descriptor_encrypt_def)

text \<open>Encrypting the words of any descriptor with well-formed command, record size and reserved words, and
  decrypting the record, gives the descriptor back, whatever follows the record in the file.\<close>

theorem descriptor_decrypt_inverts:
  assumes "command_id d = 0x9d" and "outer_offset d = 0x5c" and "length rest < 2 ^ 32"
  shows "descriptor_decrypt
      (bytes_of (map (\<lambda>(i, w). descriptor_encrypt seed i w)
         (enumerate 0 ([command_id d, flags d, outer_offset d, outer_expected_size d,
            auxiliary_offset d, auxiliary_expected_size d] @ replicate 17 0))) @ rest) seed = Ok d"
proof -
  let ?ws = "[command_id d, flags d, outer_offset d, outer_expected_size d,
            auxiliary_offset d, auxiliary_expected_size d] @ replicate 17 0"
  let ?cs = "map (\<lambda>(i, w). descriptor_encrypt seed i w) (enumerate 0 ?ws)"
  let ?data = "bytes_of ?cs @ rest"
  let ?f = "\<lambda>index. rbind (read_u32 ?data (index * 4)) (\<lambda>cipher. Ok (descriptor_word seed index cipher) :: (u32, err) res)"
  have l: "length ?ws = 23" by simp
  have ld: "length ?data = 92 + length rest" by simp
  have f: "?f i = Ok (?ws ! i)" if "i < 23" for i
  proof -
    have lc: "length ?cs = 23" using l by (simp only: length_map length_enumerate)
    have "window ?data (i * 4) 4 = to_le 4 (?cs ! i)"
      using window_bytes_of [of i ?cs rest] that lc by (simp only: mult.commute)
    then have "read_u32 ?data (i * 4) = Ok (?cs ! i)"
      using that assms(3) ld by (simp add: read_u32_in from_le_to_le usize_limit_def del: append.simps list.map)
    moreover have "?cs ! i = descriptor_encrypt seed i (?ws ! i)"
      using that l by (subst nth_map) (simp_all add: nth_enumerate_eq del: append.simps)
    ultimately show ?thesis by (simp only: rbind.simps descriptor_word_encrypt)
  qed
  have "mapM ?f [0..<23] = Ok (map ((!) ?ws) [0..<23])"
    by (rule mapM_Ok_map) (use f in \<open>simp only: set_upt atLeastLessThan_iff\<close>)
  also have "map ((!) ?ws) [0..<23] = ?ws" using map_nth [of ?ws] by (simp only: l)
  finally have m: "mapM ?f [0..<RECORD_SIZE div 4] = Ok ?ws" by (simp add: RECORD_SIZE_def del: append.simps upt_Suc)
  have "length ?data \<ge> RECORD_SIZE" using ld by (simp only: RECORD_SIZE_def)
  then show ?thesis
    unfolding descriptor_decrypt_def m
    using assms(1,2) by (simp add: RECORD_SIZE_def)
qed

theorem descriptor_decrypt_inverts_witness:
  "descriptor_decrypt
      (bytes_of (map (\<lambda>(i, w). descriptor_encrypt 12345 i w)
         (enumerate 0 ([0x9d, 1, 0x5c, 100, 200, 300] @ replicate 17 0))) @ [9]) 12345
    = Ok \<lparr>command_id = 0x9d, flags = 1, outer_offset = 0x5c, outer_expected_size = 100,
          auxiliary_offset = 200, auxiliary_expected_size = 300\<rparr>"
  using descriptor_decrypt_inverts [of "\<lparr>command_id = 0x9d, flags = 1, outer_offset = 0x5c,
      outer_expected_size = 100, auxiliary_offset = 200, auxiliary_expected_size = 300\<rparr>" "[9]" 12345]
  by (simp only: protected_descriptor.simps) simp

section \<open>The container header\<close>

lemma map_words_length:
  assumes "map_words f n buf = Ok b" shows "length b = length buf"
  using assms unfolding map_words_def
  by (rule foldM_inv [where P = "\<lambda>b. length b = length buf"])
    (auto simp: res_conv length_patch)

lemma map_words_total:
  "4 * n \<le> length buf \<Longrightarrow> length buf < usize_limit \<Longrightarrow> \<exists>b. map_words f n buf = Ok b"
proof (induction n)
  case 0
  then show ?case by (simp add: map_words_def)
next
  case (Suc n)
  then obtain b where b: "map_words f n buf = Ok b" by auto
  have "length b = length buf" by (rule map_words_length [OF b])
  then show ?case
    using Suc.prems b by (simp add: map_words_def foldM_append read_u32_in put_in)
qed

lemma parse_segment_Ok:
  assumes "parse_segment data start table i = Ok s"
  shows "seg_size s \<noteq> 0" and "start + unat (seg_offset s) + unat (seg_size s) \<le> length data"
    and "start + unat (seg_offset s) + unat (seg_size s) < usize_limit"
  using assms by (auto simp: parse_segment_def Let_def rbind_Ok_conv bind_eq_Some_conv chk_add_Some_conv
      split: if_splits option.splits)

lemma drop_8_255: "unat ((w :: u32) AND 0xff) \<le> 255"
proof -
  have "w AND 0xff \<le> 0xff" by (rule word_and_le1)
  then show ?thesis by (simp add: word_le_nat_alt)
qed

lemma encoded_end_bounded:
  assumes "segments h \<noteq> []"
    and "\<And>s. s \<in> set (segments h) \<Longrightarrow> seg_size s \<noteq> 0
      \<and> hdr_start h + unat (seg_offset s) + unat (seg_size s) \<le> n
      \<and> hdr_start h + unat (seg_offset s) + unat (seg_size s) < usize_limit"
  shows "\<exists>e. encoded_end h = Ok e \<and> hdr_start h < e \<and> e \<le> n"
proof -
  let ?g = "\<lambda>s. hdr_start h + unat (seg_offset s) + unat (seg_size s)"
  have "mapM (\<lambda>s. ok_or ''encoded segment end overflow''
      (Option.bind (chk_add (hdr_start h) (unat (seg_offset s))) (\<lambda>v. chk_add v (unat (seg_size s)))))
      (segments h) = Ok (map ?g (segments h))"
    using assms(2) by (intro mapM_Ok_map) (fastforce simp: chk_add_def)
  then have e: "encoded_end h = Ok (Max (?g ` set (segments h)))" using assms(1) by (simp add: encoded_end_def)
  have "Max (?g ` set (segments h)) \<in> ?g ` set (segments h)" using assms(1) by (intro Max_in) auto
  then obtain s where s: "s \<in> set (segments h)" "Max (?g ` set (segments h)) = ?g s" by auto
  then have "0 < unat (seg_size s)" using assms(2) [OF s(1)] by (simp add: unat_gt_0)
  then show ?thesis using e s assms(2) [OF s(1)] by auto
qed

text \<open>C8. A parsed container header is within bounds: it sits inside the data, has between one and 255
  segments, each of them non-empty and inside the data, a Huffman tree of at most 0x1b00 bytes, and the
  end of its furthest segment is defined, lies behind the start and inside the data.\<close>

theorem parse_header_bounds:
  assumes "parse_header data start seed = Ok h"
  shows "hdr_start h = start \<and> start + 12 + length (tree h) \<le> length data
    \<and> length (tree h) \<le> 0x1b00 \<and> segments h \<noteq> [] \<and> length (segments h) \<le> 255
    \<and> (\<forall>s\<in>set (segments h). seg_size s \<noteq> 0 \<and> start + unat (seg_offset s) + unat (seg_size s) \<le> length data)
    \<and> (\<exists>e. encoded_end h = Ok e \<and> start < e \<and> e \<le> length data)"
proof -
  note conv = res_conv byte_range_def Let_def
  let ?st = "header_state seed"
  let ?n = "unat (header_flag_word ?st (from_le (window data (start + 4) 4)) AND 0xff)"
  let ?ts = "header_tree_size ?st (from_le (window data (start + 8) 4))"
  obtain mixed table where n: "?n \<noteq> 0"
    and ts: "?ts \<le> 0x1b00" "start + 12 + ?ts \<le> length data"
    and mixed: "map_words (\<lambda>_. gf32_mul_fixed) (?ts div 4) (window data (start + 12) ?ts) = Ok mixed"
    and segs: "mapM (parse_segment data start table) [0..<?n] = Ok (segments h)"
    and h: "tree h = map (\<lambda>(i, b). tree_byte ?st i b) (enumerate 0 mixed)" "hdr_start h = start"
    using assms unfolding parse_header_def read_u32_def by (auto simp: conv split: if_splits)
  have len: "length (tree h) = ?ts"
    using map_words_length [OF mixed] ts(2) by (simp add: h length_window)
  have ls: "length (segments h) = ?n" using mapM_Ok_length [OF segs] by simp
  have ne: "segments h \<noteq> []" "length (segments h) \<le> 255"
    using ls n drop_8_255 by auto
  have seg: "seg_size s \<noteq> 0 \<and> start + unat (seg_offset s) + unat (seg_size s) \<le> length data
      \<and> start + unat (seg_offset s) + unat (seg_size s) < usize_limit" if "s \<in> set (segments h)" for s
    using mapM_Ok_set [OF segs that] parse_segment_Ok by blast
  have "\<exists>e. encoded_end h = Ok e \<and> hdr_start h < e \<and> e \<le> length data"
    by (rule encoded_end_bounded [OF ne(1)]) (use seg in \<open>simp add: h(2)\<close>)
  then show ?thesis using len ts ne seg h(2) by auto
qed


text \<open>The smallest container: one segment of eight bytes behind the table, no tree.\<close>

lemma parse_header_sample:
  "parse_header [0, 0, 0, 0, 46, 178, 23, 189, 3, 27, 94, 189, 132, 3, 36, 205, 161, 207, 182, 68] 0 0
    = Ok \<lparr>hdr_start = 0, output_size = 0xa21dfb3a, hdr_skip_aes = False, tree = [],
          segments = [\<lparr>seg_offset = 12, seg_size = 8\<rparr>]\<rparr>"
proof -
  let ?d = "[0, 0, 0, 0, 46, 178, 23, 189, 3, 27, 94, 189, 132, 3, 36, 205, 161, 207, 182, 68] :: bytes"
  have gf: "gf32_mul_fixed 0 = 0" "gf32_mul_fixed 0xbd17b22e = 0xfe87f12f" "gf32_mul_fixed 0xbd5e1b03 = 0xd6f1bafd"
    "gf32_mul_fixed 0xcd240384 = 12" "gf32_mul_fixed 0x44b6cfa1 = 8"
    by (simp_all add: gf32_eval gf32_int_numeral gf32_int.simps(2))
  show ?thesis
    by (simp add: parse_header_def byte_range_def read_u32_def chk_add_def chk_mul_def chk_sub_def usize_limit_def get_range_def
        window_def header_state_def header_flag_word_def header_tree_size_def header_output_size_def gf shl32_def shr32_def
        map_words_def align_up_def table_word_def parse_segment_def put_def patch_def Let_def upt_rec from_le_to_le)
qed

theorem parse_header_bounds_witness:
  "\<exists>e. encoded_end \<lparr>hdr_start = 0, output_size = 0xa21dfb3a, hdr_skip_aes = False, tree = [],
          segments = [\<lparr>seg_offset = 12, seg_size = 8\<rparr>]\<rparr> = Ok e \<and> 0 < e \<and> e \<le> 20"
  using parse_header_bounds [OF parse_header_sample] by (simp add: numeral_eq_Suc)

section \<open>The segment transform inverts\<close>

definition seg_enc :: "seg_state step" where
  "seg_enc index st p =
     (let st' = seg_next index st; state = fst st'; i = word_of_nat index :: u32;
          b = (p XOR state) + state;
          a = b XOR (0xaf57f7fb * (i AND 3))
      in (a - 0xb43b9baf * (i AND 0x0d), st'))"

interpretation segment: word_stream seg_step seg_enc
  by unfold_locales (simp_all add: seg_step_def seg_enc_def Let_def)

text \<open>CBC encryption of a sequence of 16-byte blocks with an arbitrary block function.\<close>

fun cbc_enc_blocks :: "(bytes \<Rightarrow> bytes) \<Rightarrow> bytes \<Rightarrow> bytes list \<Rightarrow> bytes list" where
  "cbc_enc_blocks e prev [] = []"
| "cbc_enc_blocks e prev (m # ms) = (let c = e (map2 (XOR) m prev) in c # cbc_enc_blocks e c ms)"

lemma length_cbc_enc_blocks [simp]: "length (cbc_enc_blocks e prev ms) = length ms"
  by (induction ms arbitrary: prev) (simp_all add: Let_def)

lemma map2_xor_cancel: "length a = length b \<Longrightarrow> map2 (XOR) (map2 (XOR) a b) b = (a :: bytes)"
  by (induction a b rule: list_induct2) simp_all

lemma cbc_blocks_roundtrip:
  assumes "\<And>b. length b = 16 \<Longrightarrow> length (e b) = 16 \<and> f (e b) = b"
    and "length prev = 16" and "\<forall>m\<in>set ms. length m = 16"
  shows "cbc_dec f prev (cbc_enc_blocks e prev ms) = ms
    \<and> (\<forall>c\<in>set (cbc_enc_blocks e prev ms). length c = 16)"
  using assms(2,3)
proof (induction ms arbitrary: prev)
  case (Cons m ms)
  let ?c = "e (map2 (XOR) m prev)"
  have l: "length (map2 (XOR) m prev) = 16" using Cons.prems by simp
  have "length ?c = 16" "f ?c = map2 (XOR) m prev" using assms(1) [OF l] by auto
  then show ?case
    using Cons.IH [of ?c] Cons.prems by (simp add: Let_def map2_xor_cancel)
qed simp

text \<open>What a packer does to a segment: CBC over the whole blocks, then the word cipher.\<close>

definition seg_cbc :: "(bytes \<Rightarrow> bytes) \<Rightarrow> bytes \<Rightarrow> bytes" where
  "seg_cbc e data =
     patch data 0 (concat (cbc_enc_blocks e (replicate 16 0) (blocks_at data 0 (length data div 16))))"

definition pack_segment :: "(bytes \<Rightarrow> bytes) \<Rightarrow> bytes \<Rightarrow> u32 \<Rightarrow> bool \<Rightarrow> bytes" where
  "pack_segment e data seed aes =
     (let t = (if aes then seg_cbc e data else data)
      in run_region seg_enc (seg_start seed) 0 (length data div 4) t)"

lemma length_concat_blocks: "\<forall>c\<in>set cs. length c = 16 \<Longrightarrow> length (concat cs) = 16 * length cs"
  by (induction cs) auto

lemma concat_blocks_at: "off + 16 * n \<le> length d \<Longrightarrow> concat (blocks_at d off n) = window d off (16 * n)"
proof (induction n arbitrary: off)
  case (Suc n)
  then show ?case using window_append_split [of d off 16 "16 * n"] by simp
qed simp

lemma seg_aes_cbc:
  assumes inv: "\<And>b. length b = 16 \<Longrightarrow> length (e b) = 16 \<and> f (e b) = b"
  shows "length (seg_cbc e data) = length data" and "seg_aes f (seg_cbc e data) = data"
proof -
  let ?n = "length data div 16"
  let ?bs = "blocks_at data 0 ?n"
  let ?cs = "cbc_enc_blocks e (replicate 16 0) ?bs"
  have n: "0 + 16 * ?n \<le> length data" by simp
  have "\<forall>m\<in>set ?bs. length m = 16" by (rule blocks_at_lengths [OF n])
  then have "cbc_dec f (replicate 16 0) ?cs = ?bs \<and> (\<forall>c\<in>set ?cs. length c = 16)"
    by (intro cbc_blocks_roundtrip inv) (simp_all only: length_replicate)
  then have dec: "cbc_dec f (replicate 16 0) ?cs = ?bs" and l16: "\<forall>c\<in>set ?cs. length c = 16"
    by (rule conjunct1, rule conjunct2)
  have lc: "length (concat ?cs) = 16 * ?n" using length_concat_blocks [OF l16] by simp
  show len: "length (seg_cbc e data) = length data"
    unfolding seg_cbc_def by (rule length_patch) (use lc in simp)
  have "window (seg_cbc e data) 0 (16 * length ?cs) = concat ?cs"
    unfolding seg_cbc_def by (rule window_patch_same) (use lc in simp_all)
  then have "blocks_at (seg_cbc e data) 0 (length ?cs) = ?cs"
    by (rule blocks_at_concat) (rule l16)
  then have "seg_aes f (seg_cbc e data) = patch (seg_cbc e data) 0 (concat ?bs)"
    using dec by (simp add: seg_aes_def len)
  also have "\<dots> = patch data 0 (concat ?bs)"
    unfolding seg_cbc_def using lc by (intro patch_twice) (simp_all add: concat_blocks_at length_window)
  also have "\<dots> = data" using patch_window [OF n] by (simp add: concat_blocks_at)
  finally show "seg_aes f (seg_cbc e data) = data" .
qed

text \<open>The segment transform undoes the packing of a segment, with and without AES, including a last partial
  word or block.\<close>

lemma transform_inverts:
  assumes "\<And>b. length b = 16 \<Longrightarrow> length (aes_enc b) = 16 \<and> aes256 key (aes_enc b) = b"
    and "length data < 2 ^ 32"
  shows "transform_segment aes256 (pack_segment aes_enc data seed aes) seed key aes = Ok data"
proof -
  let ?t = "if aes then seg_cbc aes_enc data else data"
  have len: "length ?t = length data" using seg_aes_cbc(1) [OF assms(1)] by simp
  have "seg_words (pack_segment aes_enc data seed aes) seed = Ok ?t"
    using len assms(2) segment.run_region_inverts(1) [of 0 "length data div 4" ?t "seg_start seed"]
    by (simp add: seg_words_def pack_segment_def length_run_region)
  then show ?thesis using seg_aes_cbc(2) [OF assms(1)] by (simp add: transform_segment_def)
qed

end
