(* ===== verification/HuffmanLz.thy ===== *)
theory HuffmanLz
  imports Protector
begin

unbundle bit_operations_syntax

text \<open>
  \<^verbatim>\<open>senbei-crypto/src/android/protector.rs\<close>, second part: the Huffman/LZ decoder of the writer streams
  and the container decoder built on it.

  The walk of the tree below the 16-bit lookup has no bound of its own, so its model is a
  \<open>partial_function\<close> into \<open>option\<close>: \<open>None\<close> stands for a run that never returns, \<open>Some\<close> for the outcome
  of one that does. The loop over the symbols consumes a bit or fails in every turn and is total.
\<close>

section \<open>The tree\<close>

record huffman_decoder =
  dec_tree :: bytes
  lookup_symbols :: "u16 list"
  lookup_bits :: "u8 list"

definition node_raw :: "bytes \<Rightarrow> u16" where
  "node_raw node = ucast (node ! 0) OR push_bit 8 (ucast (node ! 1))"

definition entry :: "bytes \<Rightarrow> nat \<Rightarrow> (u16 \<times> bool \<times> u8, err) res" where
  "entry t index =
     rbind (ok_or ''Huffman node offset overflow'' (chk_mul index 3)) (\<lambda>off.
     rbind (byte_range t off 3) (\<lambda>node.
       Ok (node_raw node AND 0x7fff, node_raw node AND 0x8000 \<noteq> 0, node ! 2)))"

definition branch32 :: "u32 \<Rightarrow> u32 \<Rightarrow> nat" where
  "branch32 w msk = (if w AND msk \<noteq> 0 then 1 else 0)"

function decode_walk :: "bytes \<Rightarrow> u32 \<Rightarrow> u16 \<Rightarrow> u32 \<Rightarrow> u8 \<Rightarrow> (u16 \<times> u8, err) res" where
  "decode_walk t w value msk bits =
     rbind (entry t (unat value + branch32 w msk)) (\<lambda>(next, leaf, extra).
       if leaf then Ok (next, bits)
       else
       rbind (ok_or ''Huffman bit count overflow'' (chk_add_w bits 1)) (\<lambda>bits'.
         if 31 < bits' then Err ''Huffman code exceeds the native 32-bit window''
         else decode_walk t w next (shl32 msk 1) bits'))"
  by pat_completeness auto
termination
  by (relation "measure (\<lambda>(t, w, value, msk, bits). 256 - unat bits)")
    (auto simp: res_conv unat_add_no_wrap intro!: diff_less_mono2)

declare decode_walk.simps [simp del]

definition decode_symbol :: "bytes \<Rightarrow> u32 \<Rightarrow> (u16 \<times> u8, err) res" where
  "decode_symbol t w =
     rbind (entry t (unat (w AND 0xff))) (\<lambda>(value, leaf, extra).
       if leaf then (if extra = 0 then Err ''zero-width Huffman leaf'' else Ok (value, extra))
       else
       rbind (ok_or ''Huffman bit count overflow'' (chk_add_w extra 1)) (\<lambda>bits.
         decode_walk t w value (shl32 1 (ucast extra)) bits))"

definition lookup_entry :: "bytes \<Rightarrow> nat \<Rightarrow> (u16 \<times> u8, err) res" where
  "lookup_entry t w =
     rbind (decode_symbol t (word_of_nat w)) (\<lambda>(symbol, bits). Ok (if bits \<le> 16 then (symbol, bits) else (0, 0)))"

definition new_decoder :: "bytes \<Rightarrow> (huffman_decoder, err) res" where
  "new_decoder t =
     (if length t < 256 * 3 \<or> length t mod 3 \<noteq> 0 then Err ''invalid Huffman tree size''
      else
      rbind (mapM (lookup_entry t) [0..<0x10000]) (\<lambda>es.
        Ok \<lparr>dec_tree = t, lookup_symbols = map fst es, lookup_bits = map snd es\<rparr>))"

text \<open>The walk below the lookup inside \<open>decode_limited\<close>. In the release profile the mask is shifted out
  of its 64 bits and the bit count wraps.\<close>

partial_function (option) raw_walk :: "bytes \<Rightarrow> u64 \<Rightarrow> u16 \<Rightarrow> u64 \<Rightarrow> u8 \<Rightarrow> (u16 \<times> u8) may" where
  "raw_walk t buf raw msk bits =
     (case rbind (ok_or ''Huffman node overflow''
                (chk_mul (unat (raw AND 0x7fff) + (if buf AND msk \<noteq> 0 then 1 else 0)) 3))
             (\<lambda>off. byte_range t off 3) of
        Err e \<Rightarrow> Some (Err e)
      | Panic \<Rightarrow> Some Panic
      | Ok node \<Rightarrow>
          if node_raw node AND 0x8000 \<noteq> 0 then Some (Ok (node_raw node AND 0x7fff, bits))
          else raw_walk t buf (node_raw node) (push_bit 1 msk) (bits + 1))"

definition slow_symbol :: "bytes \<Rightarrow> u64 \<Rightarrow> (u16 \<times> u8) may" where
  "slow_symbol t buf =
     may_bind (Some (byte_range t (unat (buf AND 0xff) * 3) 3)) (\<lambda>node.
       if node_raw node AND 0x8000 \<noteq> 0 then Some (Ok (node_raw node AND 0x7fff, node ! 2))
       else raw_walk t buf (node_raw node) (push_bit (unat (node ! 2 AND 63)) 1) (node ! 2 + 1))"

definition next_symbol :: "huffman_decoder \<Rightarrow> u64 \<Rightarrow> (u16 \<times> u8) may" where
  "next_symbol d buf =
     (let key = unat (buf AND 0xffff) in
      may_bind (Some (idx (lookup_bits d) key)) (\<lambda>bits.
        if bits \<noteq> 0 then may_bind (Some (idx (lookup_symbols d) key)) (\<lambda>symbol. Some (Ok (symbol, bits)))
        else slow_symbol (dec_tree d) buf))"

section \<open>The symbol loop\<close>

record hstate =
  source_pos :: nat
  bit_buffer :: u64
  available :: u8
  consumed_bits :: nat
  out_buf :: bytes
  output_pos :: nat
  prefix :: nat

function refill :: "bytes \<Rightarrow> nat \<Rightarrow> u64 \<Rightarrow> u8 \<Rightarrow> nat \<times> u64 \<times> u8" where
  "refill src pos buf av =
     (if av < 24 \<and> pos < length src
      then refill src (Suc pos) (buf OR push_bit (unat av) (ucast (src ! pos))) (av + 8)
      else (pos, buf, av))"
  by pat_completeness auto
termination by (relation "measure (\<lambda>(src, pos, buf, av). length src - pos)") auto

declare refill.simps [simp del]

text \<open>\<open>chunk.copy_from_slice(&pattern)\<close> over the \<open>n\<close> chunks of the size of the pattern.\<close>

fun repeat_pattern :: "nat \<Rightarrow> nat \<Rightarrow> bytes \<Rightarrow> bytes \<Rightarrow> (bytes, err) res" where
  "repeat_pattern 0 pos pattern out = Ok out"
| "repeat_pattern (Suc n) pos pattern out =
     rbind (put out pos pattern) (repeat_pattern n (pos + length pattern) pattern)"

definition emit_symbol :: "nat \<Rightarrow> u16 \<Rightarrow> bytes \<Rightarrow> nat \<Rightarrow> nat \<Rightarrow> (bytes \<times> nat \<times> nat, err) res" where
  "emit_symbol osize symbol out pos pre =
     (let kind = symbol AND 0x300; value = unat (symbol AND 0xff) in
      if kind = 0 then rbind (set_at out pos (word_of_nat value)) (\<lambda>out'. Ok (out', pos + 1, pre))
      else if kind = 0x100 then
        (if 0xff < pre then Err ''compressed prefix exceeds 16 bits''
         else Ok (out, pos, if pre = 0 then value else value OR push_bit 8 pre))
      else if kind = 0x200 then
        (let pre' = (if pre = 0 then 1 else pre) in
         rbind (ok_or ''repeat count overflow'' (chk_mul value pre')) (\<lambda>count.
           if value \<notin> {1, 2, 4} \<or> pos < value
             \<or> (case chk_add pos count of None \<Rightarrow> True | Some stop \<Rightarrow> osize < stop)
           then Err ''invalid compressed repeated-pattern command''
           else
           rbind (idx_range out (pos - value) value) (\<lambda>pattern.
           rbind (repeat_pattern (count div value) pos pattern out) (\<lambda>out'. Ok (out', pos + count, 0)))))
      else
        rbind (ok_or ''back-reference distance overflow'' (chk_add pre value)) (\<lambda>distance.
          if pos < distance \<or> (case chk_add pos value of None \<Rightarrow> True | Some stop \<Rightarrow> osize < stop)
          then Err ''invalid compressed back-reference''
          else
          rbind (idx_range out (pos - distance) value) (\<lambda>run.
          rbind (put out pos run) (\<lambda>out'. Ok (out', pos + value, 0)))))"

definition h_step :: "huffman_decoder \<Rightarrow> bytes \<Rightarrow> nat \<Rightarrow> hstate \<Rightarrow> hstate may" where
  "h_step d src osize st =
     (let (pos, buf, av) = refill src (source_pos st) (bit_buffer st) (available st) in
      may_bind (next_symbol d buf) (\<lambda>(symbol, bits).
        if bits = 0 \<or> av < bits then Some (Err ''compressed stream ends inside a Huffman code'')
        else
        Some (rbind (ok_or ''consumed bit count overflow'' (chk_add (consumed_bits st) (unat bits))) (\<lambda>used.
          rbind (emit_symbol osize symbol (out_buf st) (output_pos st) (prefix st)) (\<lambda>(out', opos, pre).
            Ok \<lparr>source_pos = pos, bit_buffer = drop_bit (unat bits) buf, available = av - bits,
                consumed_bits = used, out_buf = out', output_pos = opos, prefix = pre\<rparr>)))))"

definition left_over :: "bytes \<Rightarrow> hstate \<Rightarrow> nat" where
  "left_over src st = 8 * (length src - source_pos st) + unat (available st)"

lemma refill_left:
  "refill src pos buf av = (pos', buf', av') \<Longrightarrow>
     8 * (length src - pos') + unat av' = 8 * (length src - pos) + unat av"
proof (induction src pos buf av rule: refill.induct)
  case (1 src pos buf av)
  show ?case
  proof (cases "av < 24 \<and> pos < length src")
    case True
    then have "unat av < 24" by (simp add: word_less_nat_alt)
    then have "unat (av + 8) = unat av + 8" by (simp add: unat_word_ariths)
    then show ?thesis using 1 True by (subst (asm) (2) refill.simps) auto
  next
    case False
    then show ?thesis using 1 by (subst (asm) (2) refill.simps) auto
  qed
qed

lemma h_step_decreases: "h_step d src n st = Some (Ok st') \<Longrightarrow> left_over src st' < left_over src st"
proof -
  assume step: "h_step d src n st = Some (Ok st')"
  obtain pos buf av where r: "refill src (source_pos st) (bit_buffer st) (available st) = (pos, buf, av)"
    by (metis prod_cases3)
  from step r obtain bits where b: "bits \<noteq> 0" "bits \<le> av" "source_pos st' = pos" "available st' = av - bits"
    by (auto simp: h_step_def may_bind_Ok_conv res_conv split: if_splits prod.splits)
  have "0 < unat bits" "unat bits \<le> unat av" using b by (simp_all add: unat_gt_0 word_le_nat_alt)
  then have "unat (av - bits) < unat av" using b by (simp add: unat_sub_le)
  then show ?thesis using refill_left [OF r] b by (simp add: left_over_def)
qed

function h_loop :: "huffman_decoder \<Rightarrow> bytes \<Rightarrow> nat \<Rightarrow> hstate \<Rightarrow> hstate may" where
  "h_loop d src osize st =
     (if osize \<le> output_pos st then Some (Ok st)
      else (case h_step d src osize st of
              None \<Rightarrow> None
            | Some (Err e) \<Rightarrow> Some (Err e)
            | Some Panic \<Rightarrow> Some Panic
            | Some (Ok st') \<Rightarrow> h_loop d src osize st'))"
  by pat_completeness auto
termination
  by (relation "measure (\<lambda>(d, src, n, st). left_over src st)") (auto dest: h_step_decreases)

declare h_loop.simps [simp del]

definition limit_opt :: "output_limit option \<Rightarrow> nat \<Rightarrow> (unit, err) res" where
  "limit_opt limit n = (case limit of None \<Rightarrow> Ok () | Some l \<Rightarrow> limit_check l n)"

definition decode_limited :: "huffman_decoder \<Rightarrow> bytes \<Rightarrow> nat \<Rightarrow> output_limit option \<Rightarrow> bytes may" where
  "decode_limited d src osize limit =
     may_bind (Some (limit_opt limit osize)) (\<lambda>_.
     may_bind (h_loop d src osize
         \<lparr>source_pos = 0, bit_buffer = 0, available = 0, consumed_bits = 0,
          out_buf = replicate osize 0, output_pos = 0, prefix = 0\<rparr>) (\<lambda>st.
       if (consumed_bits st + 7) div 8 \<noteq> length src
       then Some (Err ''compressed input consumption mismatch'')
       else Some (Ok (out_buf st))))"

definition decode :: "huffman_decoder \<Rightarrow> bytes \<Rightarrow> nat \<Rightarrow> bytes may" where
  "decode d src osize = decode_limited d src osize None"

end
