(* ===== verification/Container.thy ===== *)
theory Container
  imports HuffmanLz
begin

unbundle bit_operations_syntax

text \<open>
  \<^verbatim>\<open>senbei-crypto/src/android/protector.rs\<close>, third part: \<open>decode_container\<close>, which parses the header,
  builds the Huffman decoder, and lets the writers of every segment fill a flat output of the declared
  size.
\<close>

section \<open>Writers\<close>

record writer_table =
  wt_base :: nat
  wt_count :: nat
  wt_offset :: nat
  wt_data :: nat

definition read_writer_table :: "bytes \<Rightarrow> (writer_table, err) res" where
  "read_writer_table t =
     (if length t < 16 then Err ''decoded segment is shorter than its header''
      else
      rbind (read_u32 t 0) (\<lambda>base.
      rbind (read_u32 t 4) (\<lambda>count.
      rbind (read_u32 t 8) (\<lambda>table.
      rbind (read_u32 t 12) (\<lambda>dat.
      rbind (ok_or ''writer table size overflow'' (chk_mul (unat count) 16)) (\<lambda>table_size.
      rbind (ok_or ''writer table end overflow'' (chk_add (unat table) table_size)) (\<lambda>table_end.
        if length t < table_end \<or> length t < unat dat then Err ''decoded segment has invalid writer offsets''
        else Ok \<lparr>wt_base = unat base, wt_count = unat count, wt_offset = unat table, wt_data = unat dat\<rparr>)))))))"

text \<open>One writer: the source and the target range it is checked against.\<close>

definition writer_ranges ::
  "output_limit option \<Rightarrow> bytes \<Rightarrow> writer_table \<Rightarrow> nat \<Rightarrow> nat \<Rightarrow> nat \<Rightarrow> (bytes \<times> nat \<times> nat \<times> nat, err) res" where
  "writer_ranges limit t wt out_len i cursor =
     rbind (ok_or ''writer record offset overflow''
              (Option.bind (chk_mul i 16) (\<lambda>k. chk_add (wt_offset wt) k))) (\<lambda>rec.
     rbind (read_u32 t rec) (\<lambda>oo.
     rbind (read_u32 t (rec + 4)) (\<lambda>os.
     rbind (read_u32 t (rec + 8)) (\<lambda>es.
     rbind (read_u32 t (rec + 12)) (\<lambda>reserved.
     rbind (ok_or ''writer data end overflow'' (chk_add cursor (unat es))) (\<lambda>encoded_stop.
       if reserved \<noteq> 0 \<or> length t < encoded_stop then Err ''writer has invalid bounds''
       else
     rbind (idx_range t cursor (unat es)) (\<lambda>source.
     rbind (limit_opt limit (unat es)) (\<lambda>_.
     rbind (limit_opt limit (unat os)) (\<lambda>_.
     rbind (ok_or ''writer target offset overflow'' (chk_add (wt_base wt) (unat oo))) (\<lambda>target.
     rbind (ok_or ''writer target end overflow'' (chk_add target (unat os))) (\<lambda>target_stop.
       if out_len < target_stop then Err ''writer target is outside the container''
       else Ok (source, target, unat os, encoded_stop))))))))))))"

definition run_writer ::
  "huffman_decoder \<Rightarrow> output_limit option \<Rightarrow> bytes \<Rightarrow> writer_table \<Rightarrow> nat \<Rightarrow> bytes \<times> nat \<Rightarrow> (bytes \<times> nat) may" where
  "run_writer d limit t wt i st =
     (let (out, cursor) = st in
      may_bind (Some (writer_ranges limit t wt (length out) i cursor)) (\<lambda>(source, target, osize, encoded_stop).
      may_bind (if length source = osize then Some (Ok source) else decode_limited d source osize limit) (\<lambda>decoded.
        if length out < target + osize then Some (Err ''writer target is out of range'')
        else if length decoded \<noteq> osize then Some Panic
        else Some (Ok (patch out target decoded, encoded_stop)))))"

section \<open>Segments\<close>

definition run_segment ::
  "(bytes \<Rightarrow> bytes \<Rightarrow> bytes) \<Rightarrow> bytes \<Rightarrow> module9b_config \<Rightarrow> container_header \<Rightarrow> huffman_decoder \<Rightarrow> output_limit option
    \<Rightarrow> encoded_segment \<Rightarrow> bytes \<Rightarrow> bytes may" where
  "run_segment aes256 data cfg h d limit s out =
     may_bind (Some (
       rbind (ok_or ''encoded segment start overflow'' (chk_add (hdr_start h) (unat (seg_offset s)))) (\<lambda>start.
       rbind (byte_range data start (unat (seg_size s))) (\<lambda>encoded.
       rbind (limit_opt limit (unat (seg_size s))) (\<lambda>_.
       rbind (transform_segment aes256 encoded (container_seed cfg) (aes_key cfg)
                (\<not> (cfg_skip_aes cfg \<or> hdr_skip_aes h))) (\<lambda>t.
       rbind (read_writer_table t) (\<lambda>wt. Ok (t, wt)))))))) (\<lambda>(t, wt).
     may_bind (may_fold (run_writer d limit t wt) [0..<wt_count wt] (out, wt_data wt)) (\<lambda>(out', cursor).
       Some (Ok out')))"

definition decode_container_inner ::
  "(bytes \<Rightarrow> bytes \<Rightarrow> bytes) \<Rightarrow> bytes \<Rightarrow> module9b_config \<Rightarrow> nat \<Rightarrow> output_limit option \<Rightarrow> bytes may" where
  "decode_container_inner aes256 data cfg expected_size limit =
     may_bind (Some (parse_header data 0 (container_seed cfg))) (\<lambda>h.
       if unat (output_size h) \<noteq> expected_size then Some (Err ''container output size mismatch'')
       else
       may_bind (Some (limit_opt limit (unat (output_size h)))) (\<lambda>_.
       may_bind (Some (limit_opt limit expected_size)) (\<lambda>_.
       may_bind (Some (new_decoder (tree h))) (\<lambda>d.
         may_fold (run_segment aes256 data cfg h d limit) (segments h) (replicate expected_size 0)))))"

definition decode_container ::
  "(bytes \<Rightarrow> bytes \<Rightarrow> bytes) \<Rightarrow> bytes \<Rightarrow> module9b_config \<Rightarrow> nat \<Rightarrow> bytes may" where
  "decode_container aes256 data cfg expected_size = decode_container_inner aes256 data cfg expected_size None"

definition decode_container_with_limit ::
  "(bytes \<Rightarrow> bytes \<Rightarrow> bytes) \<Rightarrow> bytes \<Rightarrow> module9b_config \<Rightarrow> nat \<Rightarrow> output_limit \<Rightarrow> bytes may" where
  "decode_container_with_limit aes256 data cfg expected_size limit =
     decode_container_inner aes256 data cfg expected_size (Some limit)"

end
