(* ===== verification/HeaderCodec.thy ===== *)
theory HeaderCodec
  imports Protector
begin

unbundle bit_operations_syntax

text \<open>
  The packing of a container header, written from the parser in \<^verbatim>\<open>senbei-crypto/src/android/protector.rs\<close>
  with division in place of the fixed multiplication, and the proof that parsing inverts it.
\<close>

section \<open>Packing a header\<close>

lemma map_words_run:
  assumes "4 * n \<le> length buf" and "length buf < usize_limit"
  shows "map_words f n buf
    = Ok (bytes_of (map (\<lambda>k. f (4 * k) (words_at buf 0 n ! k)) [0..<n]) @ drop (4 * n) buf)"
  using assms
proof (induction n)
  case 0
  then show ?case by (simp add: map_words_def)
next
  case (Suc n)
  let ?w = "\<lambda>n. map (\<lambda>k. f (4 * k) (words_at buf 0 n ! k)) [0..<n]"
  let ?b = "bytes_of (?w n) @ drop (4 * n) buf"
  let ?v = "from_le (window buf (4 * n) 4) :: u32"
  have win: "window ?b (4 * n) 4 = window buf (4 * n) 4" by (simp add: window_def)
  have w: "?w (Suc n) = ?w n @ [f (4 * n) ?v]"
    by (simp add: nth_words_at del: words_at.simps)
  have len: "length ?b = length buf" using Suc.prems by simp
  have "patch ?b (4 * n) (to_le 4 (f (4 * n) ?v)) = bytes_of (?w (Suc n)) @ drop (4 * Suc n) buf"
    unfolding w bytes_of_append by (simp add: patch_def add.commute)
  then show ?case
    using Suc len win by (simp add: map_words_def foldM_append read_u32_in put_in del: words_at.simps)
qed

lemma map_words_inverse:
  assumes "\<And>k v. f (4 * k) (g (4 * k) v) = v" and "4 * n \<le> length buf" and "length buf < usize_limit"
  shows "map_words f n (bytes_of (map (\<lambda>k. g (4 * k) (words_at buf 0 n ! k)) [0..<n]) @ drop (4 * n) buf) = Ok buf"
proof -
  let ?ws = "map (\<lambda>k. g (4 * k) (words_at buf 0 n ! k)) [0..<n]"
  let ?e = "bytes_of ?ws @ drop (4 * n) buf"
  have ws: "words_at ?e 0 n = ?ws" using words_at_bytes_of_append [of ?ws "drop (4 * n) buf"] by simp
  have "map_words f n ?e = Ok (bytes_of (map (\<lambda>k. f (4 * k) (words_at ?e 0 n ! k)) [0..<n]) @ drop (4 * n) ?e)"
    by (rule map_words_run) (use assms(2,3) in simp_all)
  also have "map (\<lambda>k. f (4 * k) (words_at ?e 0 n ! k)) [0..<n] = map (\<lambda>k. words_at buf 0 n ! k) [0..<n]"
    unfolding ws using assms(1) by simp
  also have "\<dots> = words_at buf 0 n" using map_nth [of "words_at buf 0 n"] by simp
  finally show ?thesis using assms(2) by (simp add: bytes_of_words_at window_def)
qed

definition tree_adjust :: "u32 \<Rightarrow> nat \<Rightarrow> u8" where
  "tree_adjust state index = tree_byte state index 0"

lemma tree_byte_adjust: "tree_byte state i b = b + tree_adjust state i"
  by (simp add: tree_adjust_def tree_byte_def Let_def)

definition pack_tree :: "u32 \<Rightarrow> bytes \<Rightarrow> bytes" where
  "pack_tree state t =
     (let mixed = map (\<lambda>(i, b). b - tree_adjust state i) (enumerate 0 t); n = length t div 4
      in bytes_of (map (\<lambda>k. gf32_div (words_at mixed 0 n ! k)) [0..<n]) @ drop (4 * n) mixed)"

definition table_unword :: "u32 \<Rightarrow> nat \<Rightarrow> u32 \<Rightarrow> u32" where
  "table_unword state off w =
     (let table_state = (state + 0xb31f451c) * state;
          table_xor = shl32 table_state 3;
          table_add = table_state - 0x822fe82d * state
      in gf32_div (w - shr32 table_add ((word_of_nat off AND 7) + 5)) XOR table_xor)"

lemma table_word_unword: "table_word state off (table_unword state off w) = w"
  by (simp add: table_word_def table_unword_def Let_def)

definition table_words :: "encoded_segment list \<Rightarrow> u32 list" where
  "table_words segs = concat (map (\<lambda>s. [seg_offset s, seg_size s]) segs)"

definition pack_table :: "u32 \<Rightarrow> encoded_segment list \<Rightarrow> bytes" where
  "pack_table state segs =
     bytes_of (map (\<lambda>k. table_unword state (4 * k) (table_words segs ! k)) [0..<2 * length segs])"

definition pack_header :: "u32 \<Rightarrow> u32 \<Rightarrow> u32 \<Rightarrow> bytes \<Rightarrow> encoded_segment list \<Rightarrow> bytes" where
  "pack_header seed osize flag_word t segs =
     (let state = header_state seed in
      bytes_of [gf32_div (osize - header_output_size state 0), gf32_div (flag_word XOR header_flag_word state 0),
        gf32_div (word_of_nat (length t) - word_of_nat (header_tree_size state 0))]
      @ pack_tree state t @ replicate ((4 - length t mod 4) mod 4) 0 @ pack_table state segs)"

lemma length_pack_tree [simp]: "length (pack_tree state t) = length t"
  by (simp add: pack_tree_def Let_def)

lemma length_pack_table [simp]: "length (pack_table state segs) = 8 * length segs"
  by (simp add: pack_table_def)

lemma length_table_words [simp]: "length (table_words segs) = 2 * length segs"
  by (induction segs) (simp_all add: table_words_def)

lemma unpack_tree:
  assumes "length t < usize_limit"
  shows "\<exists>mixed. map_words (\<lambda>_. gf32_mul_fixed) (length t div 4) (pack_tree state t) = Ok mixed
    \<and> map (\<lambda>(i, b). tree_byte state i b) (enumerate 0 mixed) = t"
proof -
  let ?m = "map (\<lambda>(i, b). b - tree_adjust state i) (enumerate 0 t)"
  have "map_words (\<lambda>_. gf32_mul_fixed) (length t div 4) (pack_tree state t) = Ok ?m"
    unfolding pack_tree_def Let_def
    using map_words_inverse [where f = "\<lambda>_. gf32_mul_fixed" and g = "\<lambda>_. gf32_div" and buf = ?m and n = "length t div 4"]
      assms by simp
  moreover have "map (\<lambda>(i, b). tree_byte state i b) (enumerate 0 ?m) = t"
    by (rule nth_equalityI) (simp_all add: nth_enumerate_eq tree_byte_adjust)
  ultimately show ?thesis by blast
qed

lemma unpack_table:
  assumes "length segs \<le> 255"
  shows "map_words (table_word state) (2 * length segs) (pack_table state segs) = Ok (bytes_of (table_words segs))"
proof -
  let ?buf = "bytes_of (table_words segs)"
  have w: "words_at ?buf 0 (2 * length segs) = table_words segs"
    using words_at_bytes_of_append [of "table_words segs" "[]"] by simp
  show ?thesis
    using map_words_inverse [where f = "table_word state" and g = "table_unword state" and buf = ?buf and n = "2 * length segs"]
      assms by (simp add: w pack_table_def table_word_unword usize_limit_def)
qed

lemma nth_table_words: "k < length segs \<Longrightarrow> table_words segs ! (2 * k) = seg_offset (segs ! k)
    \<and> table_words segs ! (2 * k + 1) = seg_size (segs ! k)"
proof (induction segs arbitrary: k)
  case (Cons s segs)
  show ?case
  proof (cases k)
    case (Suc j)
    then show ?thesis using Cons by (simp add: table_words_def)
  qed (simp add: table_words_def)
qed simp

lemma read_table_word:
  assumes "k < 2 * length segs" and "length segs \<le> 255"
  shows "read_u32 (bytes_of (table_words segs)) (4 * k) = Ok (table_words segs ! k)"
proof -
  have "window (bytes_of (table_words segs)) (4 * k) 4 = to_le 4 (table_words segs ! k)"
    using window_bytes_of [of k "table_words segs" "[]"] assms by simp
  then show ?thesis using assms by (simp add: read_u32_in from_le_to_le usize_limit_def)
qed

lemma parse_segment_table:
  assumes "k < length segs" and "length segs \<le> 255" and "seg_size (segs ! k) \<noteq> 0"
    and "start + unat (seg_offset (segs ! k)) + unat (seg_size (segs ! k)) \<le> length data" and "length data < usize_limit"
  shows "parse_segment data start (bytes_of (table_words segs)) k = Ok (segs ! k)"
proof -
  have "read_u32 (bytes_of (table_words segs)) (k * 8) = Ok (seg_offset (segs ! k))"
    "read_u32 (bytes_of (table_words segs)) (k * 8 + 4) = Ok (seg_size (segs ! k))"
    using read_table_word [of "2 * k" segs] read_table_word [of "2 * k + 1" segs] nth_table_words [of k segs] assms(1,2)
    by (simp_all add: mult.commute add.commute)
  then show ?thesis using assms(3-5) by (simp add: parse_segment_def chk_add_def)
qed


lemma gf32_mul_0: "gf32_mul_fixed 0 = 0"
  using gf32_mul_xor [of 0 0] by simp

lemma header_fields:
  "header_output_size state (gf32_div (osize - header_output_size state 0)) = osize"
  "header_flag_word state (gf32_div (flag_word XOR header_flag_word state 0)) = flag_word"
  "n < 2 ^ 32 \<Longrightarrow> header_tree_size state (gf32_div (word_of_nat n - word_of_nat (header_tree_size state 0))) = n"
proof -
  show "header_output_size state (gf32_div (osize - header_output_size state 0)) = osize"
    unfolding header_output_size_def gf32_mul_div gf32_mul_0 by simp
  show "header_flag_word state (gf32_div (flag_word XOR header_flag_word state 0)) = flag_word"
    unfolding header_flag_word_def gf32_mul_div gf32_mul_0 by simp
  assume n: "n < 2 ^ 32"
  have "header_tree_size state (gf32_div (word_of_nat n - word_of_nat (header_tree_size state 0))) = unat (word_of_nat n :: u32)"
    unfolding header_tree_size_def gf32_mul_div gf32_mul_0 by simp
  also have "\<dots> = n" using n by (simp add: unat_of_nat)
  finally show "header_tree_size state (gf32_div (word_of_nat n - word_of_nat (header_tree_size state 0))) = n" .
qed

lemma align_4: "n \<le> 0x1b00 \<Longrightarrow> align_up (12 + n) 4 = Ok (12 + n + (4 - n mod 4) mod 4)"
proof -
  assume n: "n \<le> 0x1b00"
  have "align_up (12 + n) (2 ^ 2) = Ok ((12 + n + (2 ^ 2 - 1)) div 2 ^ 2 * 2 ^ 2)"
    by (rule align_up_pow2) (use n in \<open>simp add: usize_limit_def\<close>)
  moreover have "(12 + n + (2 ^ 2 - 1)) div 2 ^ 2 * 2 ^ 2 = 12 + n + (4 - n mod 4) mod 4"
  proof -
    obtain q r where n: "n = 4 * q + r" "r < 4" by (metis mult_div_mod_eq mod_less_divisor zero_less_numeral)
    then have "r = 0 \<or> r = 1 \<or> r = 2 \<or> r = 3" by auto
    moreover have m: "n mod 4 = r" using n by simp
    ultimately show ?thesis unfolding m using n(1) by (elim disjE) simp_all
  qed
  ultimately show ?thesis by simp
qed

text \<open>The header parser inverts the packing, for every seed, offset and data behind the header.\<close>

lemma parse_header_inverts:
  assumes "segs \<noteq> []" and "length segs \<le> 255" and "unat (flag_word AND 0xff) = length segs" and "length t \<le> 0x1b00"
    and "\<forall>s\<in>set segs. seg_size s \<noteq> 0 \<and> length pre + unat (seg_offset s) + unat (seg_size s)
        \<le> length (pre @ pack_header seed osize flag_word t segs @ rest)"
    and "length (pre @ pack_header seed osize flag_word t segs @ rest) < usize_limit"
  shows "parse_header (pre @ pack_header seed osize flag_word t segs @ rest) (length pre) seed
    = Ok \<lparr>hdr_start = length pre, output_size = osize, hdr_skip_aes = (drop_bit 8 flag_word AND 0xff = 1),
          tree = t, segments = segs\<rparr>"
proof -
  let ?st = "header_state seed" and ?n = "length t" and ?start = "length pre"
  let ?fs = "[gf32_div (osize - header_output_size ?st 0), gf32_div (flag_word XOR header_flag_word ?st 0),
        gf32_div (word_of_nat ?n - word_of_nat (header_tree_size ?st 0))]"
  let ?pad = "replicate ((4 - ?n mod 4) mod 4) 0 :: bytes"
  let ?tr = "pack_tree ?st t" and ?tb = "pack_table ?st segs"
  let ?h = "bytes_of ?fs @ ?tr @ ?pad @ ?tb"
  let ?data = "pre @ ?h @ rest"
  have data: "pre @ pack_header seed osize flag_word t segs @ rest = ?data" by (simp add: pack_header_def Let_def)
  have lim: "length ?data < usize_limit" using assms(6) unfolding data .
  have len: "length ?data = ?start + 12 + ?n + length ?pad + 8 * length segs + length rest" by simp
  have f: "window ?data (?start + 4 * k) 4 = to_le 4 (?fs ! k)" if "k < 3" for k
    using window_bytes_of [of k ?fs "?tr @ ?pad @ ?tb @ rest"] that by (simp add: window_pre)
  have rd: "read_u32 ?data ?start = Ok (?fs ! 0)" "read_u32 ?data (?start + 4) = Ok (?fs ! 1)"
    "read_u32 ?data (?start + 8) = Ok (?fs ! 2)"
    using f [of 0] f [of 1] f [of 2] lim len by (simp_all add: read_u32_in from_le_to_le del: bytes_of.simps append.simps nth_Cons_0 nth_Cons_Suc)
  have fields: "header_output_size ?st (?fs ! 0) = osize" "header_flag_word ?st (?fs ! 1) = flag_word"
    "header_tree_size ?st (?fs ! 2) = ?n"
    using assms(4) by (simp_all only: nth_Cons_0 nth_Cons_Suc numeral_2_eq_2 One_nat_def header_fields(1,2))
      (simp add: header_fields(3) [of ?n])
  have w12: "byte_range ?data ?start 12 = Ok (window ?data ?start 12)" using lim len by (intro byte_range_in) simp_all
  have tw: "byte_range ?data (?start + 12) ?n = Ok ?tr"
  proof -
    have "window ?data (length (pre @ bytes_of ?fs)) (length ?tr) = ?tr"
      using window_mid [of "pre @ bytes_of ?fs" ?tr "?pad @ ?tb @ rest"] by (simp only: append_assoc)
    then show ?thesis using lim len by (subst byte_range_in) (simp_all add: add.commute)
  qed
  have bw: "byte_range ?data (?start + (12 + ?n + (4 - ?n mod 4) mod 4)) (length segs * 8) = Ok ?tb"
  proof -
    have "window ?data (length (pre @ bytes_of ?fs @ ?tr @ ?pad)) (length ?tb) = ?tb"
      using window_mid [of "pre @ bytes_of ?fs @ ?tr @ ?pad" ?tb rest] by (simp only: append_assoc)
    then show ?thesis using lim len by (subst byte_range_in) (simp_all add: ac_simps)
  qed
  obtain mixed where mixed: "map_words (\<lambda>_. gf32_mul_fixed) (?n div 4) ?tr = Ok mixed"
      "map (\<lambda>(i, b). tree_byte ?st i b) (enumerate 0 mixed) = t"
    using unpack_tree [of t ?st] assms(4) by (auto simp: usize_limit_def)
  have segs: "mapM (parse_segment ?data ?start (bytes_of (table_words segs))) [0..<length segs] = Ok segs"
  proof -
    have "mapM (parse_segment ?data ?start (bytes_of (table_words segs))) [0..<length segs] = Ok (map ((!) segs) [0..<length segs])"
      using assms(2,5) lim unfolding data by (intro mapM_Ok_map parse_segment_table) auto
    then show ?thesis by (simp only: map_nth)
  qed
  have tws: "length segs * 8 div 4 = 2 * length segs" by simp
  have c: "chk_add ?start 12 = Some (?start + 12)" "chk_mul (length segs) 8 = Some (length segs * 8)"
    "chk_add ?start (12 + ?n + (4 - ?n mod 4) mod 4) = Some (?start + (12 + ?n + (4 - ?n mod 4) mod 4))"
    using lim len by (simp_all add: chk_add_def chk_mul_def)
  have ok: "\<not> (length segs = 0 \<or> 0x1b00 < ?n)" using assms(1,4) by simp
  show ?thesis
    unfolding data parse_header_def Let_def w12 rd rbind.simps fields assms(3) if_not_P [OF ok] c ok_or.simps tw mixed
      align_4 [OF assms(4)] bw tws unpack_table [OF assms(2)] segs by (rule refl)
qed

end
