(* ===== verification/HuffmanStream.thy ===== *)
theory HuffmanStream
  imports HuffmanLz
begin

unbundle bit_operations_syntax

text \<open>
  What the Huffman/LZ decoder of \<^verbatim>\<open>senbei-crypto/src/android/protector.rs\<close> computes: the specification
  of an LZ machine that reads codes off one natural number, the refinement of it by the buffered
  decoder, and a tree on which the decoder does not return.
\<close>

section \<open>The bit stream specification\<close>

fun le_nat :: "bytes \<Rightarrow> nat" where
  "le_nat [] = 0"
| "le_nat (b # bs) = unat b + 256 * le_nat bs"

text \<open>What one symbol does to the output written so far.\<close>

definition lz_apply :: "nat \<Rightarrow> u16 \<Rightarrow> bytes \<Rightarrow> nat \<Rightarrow> (bytes \<times> nat, err) res" where
  "lz_apply n symbol out pre =
     (let kind = symbol AND 0x300; value = unat (symbol AND 0xff); reps = (if pre = 0 then 1 else pre) in
      if kind = 0 then Ok (out @ [word_of_nat value], pre)
      else if kind = 0x100 then
        (if 0xff < pre then Err ''compressed prefix exceeds 16 bits''
         else Ok (out, if pre = 0 then value else value OR push_bit 8 pre))
      else if kind = 0x200 then
        (if value \<notin> {1, 2, 4} \<or> length out < value \<or> n < length out + value * reps
         then Err ''invalid compressed repeated-pattern command''
         else Ok (out @ concat (replicate reps (window out (length out - value) value)), 0))
      else
        (if length out < pre + value \<or> n < length out + value then Err ''invalid compressed back-reference''
         else Ok (out @ window out (length out - (pre + value)) value, 0)))"

lemma less_left: "b \<noteq> 0 \<Longrightarrow> \<not> n < unat (b :: u8) \<Longrightarrow> n - unat b < n"
proof -
  assume "b \<noteq> 0" "\<not> n < unat b"
  moreover from this have "0 < unat b" by (simp add: unat_gt_0)
  ultimately show ?thesis by linarith
qed

function huff_spec :: "(nat \<Rightarrow> u16 \<times> u8) \<Rightarrow> nat \<Rightarrow> nat \<Rightarrow> nat \<Rightarrow> bytes \<Rightarrow> nat \<Rightarrow> (bytes \<times> nat, err) res" where
  "huff_spec code n stream left out pre =
     (if n \<le> length out then Ok (out, left)
      else if snd (code (stream mod 65536)) = 0 \<or> left < unat (snd (code (stream mod 65536)))
      then Err ''compressed stream ends inside a Huffman code''
      else
      rbind (lz_apply n (fst (code (stream mod 65536))) out pre) (\<lambda>(out', pre').
        huff_spec code n (stream div 2 ^ unat (snd (code (stream mod 65536))))
          (left - unat (snd (code (stream mod 65536)))) out' pre'))"
  by pat_completeness auto
termination
  by (relation "measure (\<lambda>(code, n, stream, left, out, pre). left)") (auto dest: less_left)

declare huff_spec.simps [simp del]

section \<open>The buffer holds the stream\<close>

lemma unat_or_push:
  assumes "unat (w :: u64) < 2 ^ k" and "k < 56"
  shows "unat (w OR push_bit k (ucast (b :: u8))) = unat w + 2 ^ k * unat b"
proof -
  have b: "unat (push_bit k (ucast b) :: u64) = push_bit k (unat b)"
  proof -
    have "unat b * 2 ^ k < 256 * 2 ^ k" using unat_u8_bound [of b] by simp
    also have "(256 :: nat) * 2 ^ k = 2 ^ (8 + k)" by (simp add: power_add)
    also have "\<dots> \<le> 2 ^ 64" using assms(2) by (intro power_increasing) simp_all
    finally have "take_bit 64 (push_bit k (unat b)) = push_bit k (unat b)"
      by (simp add: take_bit_nat_eq_self push_bit_eq_mult)
    then show ?thesis by (simp add: unsigned_push_bit_eq unsigned_ucast_eq take_bit_nat_eq_self less_le_trans [OF unat_u8_bound])
  qed
  have "unat w AND push_bit k (unat b) = 0"
  proof (rule bit_eqI)
    fix i
    have "take_bit k (unat w) = unat w" using assms(1) by (simp add: take_bit_nat_eq_self)
    then have "bit (unat w) i \<Longrightarrow> i < k" by (metis bit_take_bit_iff)
    then show "bit (unat w AND push_bit k (unat b)) i = bit 0 i" by (auto simp: bit_simps)
  qed
  then have "unat w OR push_bit k (unat b) = unat w + push_bit k (unat b)" by (simp add: disjunctive_add_eq_or)
  then show ?thesis unfolding unsigned_or_eq b by (simp add: push_bit_eq_mult mult.commute)
qed

definition stream_of :: "bytes \<Rightarrow> nat \<Rightarrow> u64 \<Rightarrow> u8 \<Rightarrow> nat" where
  "stream_of src pos buf av = unat buf + 2 ^ unat av * le_nat (drop pos src)"

definition buffer_ok :: "bytes \<Rightarrow> nat \<Rightarrow> u64 \<Rightarrow> u8 \<Rightarrow> bool" where
  "buffer_ok src pos buf av \<longleftrightarrow> pos \<le> length src \<and> unat av \<le> 31 \<and> unat buf < 2 ^ unat av"

lemma refill_stream:
  assumes "buffer_ok src pos buf av" and "refill src pos buf av = (pos', buf', av')"
  shows "buffer_ok src pos' buf' av' \<and> stream_of src pos' buf' av' = stream_of src pos buf av
    \<and> (24 \<le> unat av' \<or> pos' = length src)"
  using assms
proof (induction src pos buf av rule: refill.induct)
  case (1 src pos buf av)
  show ?case
  proof (cases "av < 24 \<and> pos < length src")
    case True
    then have av: "unat av < 24" by (simp add: word_less_nat_alt)
    then have av8: "unat (av + 8) = unat av + 8" by (simp add: unat_word_ariths)
    let ?buf = "buf OR push_bit (unat av) (ucast (src ! pos))"
    have u: "unat ?buf = unat buf + 2 ^ unat av * unat (src ! pos)"
      using 1(2) av by (intro unat_or_push) (auto simp: buffer_ok_def)
    have "unat ?buf < 2 ^ unat av + 2 ^ unat av * unat (src ! pos)"
      using 1(2) by (simp add: u buffer_ok_def)
    also have "\<dots> = 2 ^ unat av * Suc (unat (src ! pos))" by simp
    also have "\<dots> \<le> 2 ^ unat av * 256"
      using unat_u8_bound [of "src ! pos"] by (intro mult_le_mono2) linarith
    finally have "buffer_ok src (Suc pos) ?buf (av + 8)"
      using True av av8 by (simp add: buffer_ok_def power_add)
    moreover have "stream_of src (Suc pos) ?buf (av + 8) = stream_of src pos buf av"
      using True av8 by (simp add: stream_of_def u Cons_nth_drop_Suc [symmetric] power_add algebra_simps)
    moreover have "refill src (Suc pos) ?buf (av + 8) = (pos', buf', av')"
      using 1(3) True by (subst (asm) refill.simps) simp
    ultimately show ?thesis using 1(1) True by metis
  next
    case False
    then show ?thesis using 1(2,3) by (subst (asm) refill.simps) (auto simp: buffer_ok_def word_less_nat_alt)
  qed
qed

lemma stream_key:
  assumes "buffer_ok src pos buf av" and "24 \<le> unat av \<or> pos = length src"
  shows "unat (buf AND 0xffff) = stream_of src pos buf av mod 65536"
proof -
  have "buf AND 0xffff = take_bit 16 buf" by (simp add: take_bit_eq_mask mask_eq_exp_minus_1)
  then have l: "unat (buf AND 0xffff) = unat buf mod 65536"
    by (simp only: unsigned_take_bit_eq) (simp add: take_bit_eq_mod)
  show ?thesis
  proof (cases "pos = length src")
    case True
    then show ?thesis by (simp add: l stream_of_def)
  next
    case False
    then have "16 \<le> unat av" using assms(2) by simp
    then have "(65536 :: nat) dvd 2 ^ unat av" using le_imp_power_dvd [of 16 "unat av" "2 :: nat"] by simp
    then show ?thesis by (auto simp: l stream_of_def mult.assoc elim!: dvdE)
  qed
qed

lemma stream_shift:
  assumes "buffer_ok src pos buf av" and "b \<le> av"
  shows "buffer_ok src pos (drop_bit (unat b) buf) (av - b)"
    and "stream_of src pos (drop_bit (unat b) buf) (av - b) = stream_of src pos buf av div 2 ^ unat b"
proof -
  have le: "unat b \<le> unat av" "unat (av - b) = unat av - unat b"
    using assms(2) by (simp_all add: word_le_nat_alt unat_sub_le)
  have d: "unat (drop_bit (unat b) buf) = unat buf div 2 ^ unat b" 
    by (subst unsigned_drop_bit_eq) (simp only: take_bit_nat_eq_self [OF unat_bound] drop_bit_eq_div)
  have p: "(2 :: nat) ^ unat av = 2 ^ unat b * 2 ^ (unat av - unat b)" using le(1) by (simp flip: power_add)
  have "unat buf div 2 ^ unat b < 2 ^ (unat av - unat b)"
    using assms(1) by (simp add: buffer_ok_def p div_less_iff_less_mult mult.commute)
  then show "buffer_ok src pos (drop_bit (unat b) buf) (av - b)"
    using assms(1) le by (auto simp: buffer_ok_def d)
  show "stream_of src pos (drop_bit (unat b) buf) (av - b) = stream_of src pos buf av div 2 ^ unat b"
    by (simp add: stream_of_def d le(2) p mult.assoc)
qed


section \<open>Symbols\<close>

lemma and_255_le: "unat ((w :: u16) AND 0xff) \<le> 255"
proof -
  have "w AND 0xff \<le> 0xff" by (rule word_and_le1)
  then show ?thesis by (simp add: word_le_nat_alt)
qed

lemma or_push_8: "v < 256 \<Longrightarrow> p < 256 \<Longrightarrow> v OR push_bit 8 p < (65536 :: nat)"
proof -
  assume a: "v < 256" "p < 256"
  have "take_bit 16 (v OR push_bit 8 p) = take_bit 16 v OR push_bit 8 (take_bit 8 p)"
    by (simp add: take_bit_or take_bit_push_bit)
  also have "\<dots> = v OR push_bit 8 p" using a by (simp add: take_bit_nat_eq_self)
  finally show ?thesis using take_bit_nat_less_exp [of 16 "v OR push_bit 8 p"] by simp
qed

lemma repeat_pattern_run:
  assumes "pos + n * length p \<le> length out"
  shows "repeat_pattern n pos p out = Ok (patch out pos (concat (replicate n p)))"
  using assms
proof (induction n arbitrary: pos out)
  case (Suc n)
  have "length (concat (replicate n p)) = n * length p" by (induction n) simp_all
  then show ?case using Suc by (simp add: put_in length_patch patch_patch_adjacent add.commute add.left_commute)
qed simp

lemma take_patch: "pos \<le> length out \<Longrightarrow> pos + length bs \<le> length out \<Longrightarrow>
    take (pos + length bs) (patch out pos bs) = take pos out @ bs"
  by (simp add: patch_def)

lemma chk_add_beyond:
  "n < usize_limit \<Longrightarrow> (case chk_add a b of None \<Rightarrow> True | Some stop \<Rightarrow> n < stop) \<longleftrightarrow> n < a + b"
  by (simp add: chk_add_def)

text \<open>The fixed buffer with its write position refines the growing output.\<close>

lemma emit_symbol_refines:
  assumes "length buf = n" and "pos < n" and "n < usize_limit" and "pre < 65536"
  shows "(case lz_apply n symbol (take pos buf) pre of
      Ok (out, pre') \<Rightarrow> \<exists>buf'. emit_symbol n symbol buf pos pre = Ok (buf', length out, pre')
        \<and> take (length out) buf' = out \<and> length buf' = n \<and> length out \<le> n \<and> pre' < 65536
    | Err e \<Rightarrow> emit_symbol n symbol buf pos pre = Err e
    | Panic \<Rightarrow> False)"
proof -
  let ?v = "unat (symbol AND 0xff)" and ?k = "symbol AND 0x300"
  define r where "r = (if pre = 0 then 1 else pre)"
  note emit = emit_symbol_def Let_def r_def [symmetric] chk_add_beyond [OF assms(3)]
  note spec = lz_apply_def Let_def r_def [symmetric]
  have v: "?v \<le> 255" by (rule and_255_le)
  have lt: "length (take pos buf) = pos" using assms by simp
  have win: "window (take pos buf) (pos - d) m = window buf (pos - d) m" if "m \<le> d" "d \<le> pos" for d m
    using that by (simp add: window_def take_drop min_absorb2)
  consider "?k = 0" | "?k = 0x100" | "?k = 0x200" | "?k \<noteq> 0" "?k \<noteq> 0x100" "?k \<noteq> 0x200" by blast
  then show ?thesis
  proof cases
    case 1
    then show ?thesis using assms
      by (simp add: lz_apply_def emit_symbol_def set_at_in take_Suc_conv_app_nth Let_def)
  next
    case 2
    then show ?thesis using assms v
      by (auto simp: lz_apply_def emit_symbol_def Let_def lt min_absorb2 intro!: or_push_8)
  next
    case 3
    have c: "chk_mul ?v r = Some (?v * r)"
    proof -
      have "?v * r \<le> 255 * 65536" using v assms(4) by (intro mult_le_mono) (auto simp: r_def)
      then show ?thesis by (simp add: chk_mul_def usize_limit_def)
    qed
    show ?thesis
    proof (cases "?v \<notin> {1, 2, 4} \<or> pos < ?v \<or> n < pos + ?v * r")
      case True
      then show ?thesis unfolding emit spec by (simp add: lt c 3 del: length_take)
    next
      case False
      then have f: "?v \<in> {1, 2, 4}" "?v \<le> pos" "pos + ?v * r \<le> n" by auto
      let ?p = "window buf (pos - ?v) ?v"
      let ?rep = "concat (replicate r ?p)"
      have lp: "length ?p = ?v" using f assms by (simp add: length_window)
      have lr: "length ?rep = ?v * r" by (simp add: length_concat sum_list_replicate lp)
      have "?v * r div ?v = r" using f(1) by auto
      then have rp: "repeat_pattern (?v * r div ?v) pos ?p buf = Ok (patch buf pos ?rep)"
        using f(3) lp assms(1) by (simp add: repeat_pattern_run mult.commute)
      have ix: "idx_range buf (pos - ?v) ?v = (Ok ?p :: (bytes, err) res)" using f assms by (intro idx_range_in) simp
      have e: "emit_symbol n symbol buf pos pre = Ok (patch buf pos ?rep, pos + ?v * r, 0)"
        using 3 False unfolding emit c ok_or.simps rbind.simps rp ix by simp
      have l: "lz_apply n symbol (take pos buf) pre = Ok (take pos buf @ ?rep, 0)"
        using 3 False unfolding spec lt by (simp add: win [of ?v ?v] f)
      show ?thesis
        unfolding e l using lr f assms take_patch [of pos buf ?rep] by (simp add: length_patch)
    qed
  next
    case 4
    have c: "chk_add pre ?v = Some (pre + ?v)" using v assms(4) by (simp add: chk_add_def usize_limit_def)
    show ?thesis
    proof (cases "pos < pre + ?v \<or> n < pos + ?v")
      case True
      then show ?thesis unfolding emit spec by (simp add: lt c 4 del: length_take)
    next
      case False
      let ?p = "window buf (pos - (pre + ?v)) ?v"
      have lp: "length ?p = ?v" using False assms by (simp add: length_window)
      have ix: "idx_range buf (pos - (pre + ?v)) ?v = (Ok ?p :: (bytes, err) res)"
        using False assms by (intro idx_range_in) simp
      have pt: "put buf pos ?p = (Ok (patch buf pos ?p) :: (bytes, err) res)"
        using False lp assms by (intro put_in) simp
      have e: "emit_symbol n symbol buf pos pre = Ok (patch buf pos ?p, pos + ?v, 0)"
        using 4 False unfolding emit c ok_or.simps rbind.simps ix pt by simp
      have l: "lz_apply n symbol (take pos buf) pre = Ok (take pos buf @ ?p, 0)"
        using 4 False unfolding spec lt by (simp add: win [of ?v "pre + ?v"])
      show ?thesis
        unfolding e l using lp False assms take_patch [of pos buf ?p] by (simp add: length_patch)
    qed
  qed
qed


section \<open>The loop\<close>

definition full_lookup :: "huffman_decoder \<Rightarrow> bool" where
  "full_lookup d \<longleftrightarrow> length (lookup_bits d) = 65536 \<and> length (lookup_symbols d) = 65536
     \<and> (\<forall>b\<in>set (lookup_bits d). b \<noteq> 0 \<and> b \<le> 16)"

definition code_of :: "huffman_decoder \<Rightarrow> nat \<Rightarrow> u16 \<times> u8" where
  "code_of d key = (lookup_symbols d ! key, lookup_bits d ! key)"

definition state_ok :: "bytes \<Rightarrow> nat \<Rightarrow> hstate \<Rightarrow> bool" where
  "state_ok src n st \<longleftrightarrow> buffer_ok src (source_pos st) (bit_buffer st) (available st)
     \<and> consumed_bits st + left_over src st = 8 * length src \<and> length (out_buf st) = n \<and> output_pos st \<le> n
     \<and> prefix st < 65536"

definition state_stream :: "bytes \<Rightarrow> hstate \<Rightarrow> nat" where
  "state_stream src st = stream_of src (source_pos st) (bit_buffer st) (available st)"

definition written :: "hstate \<Rightarrow> bytes" where
  "written st = take (output_pos st) (out_buf st)"

lemma next_symbol_full:
  assumes "full_lookup d" and "unat (buf AND 0xffff) = key" and "key < 65536"
  shows "next_symbol d buf = Some (Ok (code_of d key)) \<and> snd (code_of d key) \<noteq> 0 \<and> snd (code_of d key) \<le> 16"
proof -
  have "lookup_bits d ! key \<noteq> 0" "lookup_bits d ! key \<le> 16" using assms by (auto simp: full_lookup_def)
  then show ?thesis using assms by (simp add: next_symbol_def Let_def idx_in full_lookup_def code_of_def)
qed

lemma h_step_refines:
  assumes full: "full_lookup d" and ok: "state_ok src n st" and pos: "output_pos st < n"
    and lim: "n < usize_limit" "8 * length src < usize_limit"
  defines "c \<equiv> code_of d (state_stream src st mod 65536)"
  shows "if left_over src st < unat (snd c)
    then h_step d src n st = Some (Err ''compressed stream ends inside a Huffman code'')
    else (case lz_apply n (fst c) (written st) (prefix st) of
        Ok (out, pre) \<Rightarrow> \<exists>st'. h_step d src n st = Some (Ok st') \<and> state_ok src n st' \<and> written st' = out
          \<and> length out = output_pos st' \<and> prefix st' = pre \<and> left_over src st' = left_over src st - unat (snd c)
          \<and> state_stream src st' = state_stream src st div 2 ^ unat (snd c)
      | Err e \<Rightarrow> h_step d src n st = Some (Err e)
      | Panic \<Rightarrow> False)"
proof -
  obtain p buf av where r: "refill src (source_pos st) (bit_buffer st) (available st) = (p, buf, av)"
    by (metis prod_cases3)
  have b: "buffer_ok src (source_pos st) (bit_buffer st) (available st)" using ok by (simp add: state_ok_def)
  note rs = refill_stream [OF b r]
  have left: "8 * (length src - p) + unat av = left_over src st" using refill_left [OF r] by (simp add: left_over_def)
  have "unat (buf AND 0xffff) = state_stream src st mod 65536"
    using stream_key [of src p buf av] rs by (simp add: state_stream_def)
  from next_symbol_full [OF full this]
  have ns: "next_symbol d buf = Some (Ok c)" and c: "snd c \<noteq> 0" "snd c \<le> 16"
    by (simp_all add: c_def)
  have c16: "unat (snd c) \<le> 16" using c(2) by (simp add: word_le_nat_alt)
  have short: "av < snd c \<longleftrightarrow> left_over src st < unat (snd c)"
    using rs c16 left by (auto simp: word_less_nat_alt)
  show ?thesis
  proof (cases "av < snd c")
    case True
    then show ?thesis using short c by (simp add: h_step_def r ns case_prod_beta)
  next
    case False
    then have le: "snd c \<le> av" by simp
    have used: "chk_add (consumed_bits st) (unat (snd c)) = Some (consumed_bits st + unat (snd c))"
      using ok False short lim by (simp add: state_ok_def chk_add_def)
    note sh = stream_shift [OF conjunct1 [OF rs] le]
    have un: "unat (av - snd c) = unat av - unat (snd c)" "unat (snd c) \<le> unat av"
      using le by (simp_all add: unat_sub_le word_le_nat_alt)
    have em: "length (out_buf st) = n" "prefix st < 65536" using ok by (simp_all add: state_ok_def)
    note ref = emit_symbol_refines [OF em(1) pos lim(1) em(2), of "fst c"]
    show ?thesis
    proof (cases "lz_apply n (fst c) (written st) (prefix st)")
      case (Ok x)
      then obtain out pre where x: "lz_apply n (fst c) (written st) (prefix st) = Ok (out, pre)" by (cases x) auto
      then obtain buf' where e: "emit_symbol n (fst c) (out_buf st) (output_pos st) (prefix st) = Ok (buf', length out, pre)"
          "take (length out) buf' = out" "length buf' = n" "length out \<le> n" "pre < 65536"
        using ref by (auto simp: written_def)
      let ?st = "\<lparr>source_pos = p, bit_buffer = drop_bit (unat (snd c)) buf, available = av - snd c,
          consumed_bits = consumed_bits st + unat (snd c), out_buf = buf', output_pos = length out, prefix = pre\<rparr>"
      have "h_step d src n st = Some (Ok ?st)"
        using False c by (simp add: h_step_def r ns case_prod_beta used e(1))
      moreover have "left_over src ?st = left_over src st - unat (snd c)"
        using left un by (simp add: left_over_def)
      moreover from this have "state_ok src n ?st"
        using sh(1) ok e False short by (simp add: state_ok_def)
      moreover have "state_stream src ?st = state_stream src st div 2 ^ unat (snd c)"
        using sh(2) rs by (simp add: state_stream_def)
      ultimately show ?thesis using False short x e by (auto simp: written_def intro!: exI [of _ ?st])
    next
      case (Err e)
      then show ?thesis using False short c ref by (simp add: h_step_def r ns case_prod_beta used written_def)
    next
      case Panic
      then show ?thesis using ref by (simp add: written_def)
    qed
  qed
qed

lemma h_loop_refines:
  assumes "full_lookup d" and "state_ok src n st" and "n < usize_limit" and "8 * length src < usize_limit"
  shows "case huff_spec (code_of d) n (state_stream src st) (left_over src st) (written st) (prefix st) of
      Ok (out, left) \<Rightarrow> \<exists>st'. h_loop d src n st = Some (Ok st') \<and> out_buf st' = out \<and> length out = n
        \<and> consumed_bits st' + left = 8 * length src
    | Err e \<Rightarrow> h_loop d src n st = Some (Err e)
    | Panic \<Rightarrow> False"
  using assms
proof (induction "left_over src st" arbitrary: st rule: less_induct)
  case less
  note ok = \<open>state_ok src n st\<close>
  have len: "length (written st) = output_pos st" using ok by (simp add: written_def state_ok_def)
  show ?case
  proof (cases "n \<le> output_pos st")
    case True
    then have "written st = out_buf st" "output_pos st = n" using ok by (auto simp: written_def state_ok_def)
    then show ?thesis
      using True ok by (subst huff_spec.simps, subst h_loop.simps) (auto simp: state_ok_def)
  next
    case False
    let ?c = "code_of d (state_stream src st mod 65536)"
    have c: "snd ?c \<noteq> 0" using \<open>full_lookup d\<close> by (auto simp: full_lookup_def code_of_def)
    note step = h_step_refines [OF less.prems(1,2) _ less.prems(3,4)]
    show ?thesis
    proof (cases "left_over src st < unat (snd ?c)")
      case True
      then have "h_step d src n st = Some (Err ''compressed stream ends inside a Huffman code'')"
        using step False by simp
      then show ?thesis using True False len by (subst huff_spec.simps, subst h_loop.simps) simp
    next
      case left: False
      show ?thesis
      proof (cases "lz_apply n (fst ?c) (written st) (prefix st)")
        case (Ok x)
        then obtain out pre where x: "lz_apply n (fst ?c) (written st) (prefix st) = Ok (out, pre)" by (cases x) auto
        then obtain st' where st': "h_step d src n st = Some (Ok st')" "state_ok src n st'" "written st' = out"
            "prefix st' = pre" "left_over src st' = left_over src st - unat (snd ?c)"
            "state_stream src st' = state_stream src st div 2 ^ unat (snd ?c)"
          using step False left by auto
        have "left_over src st' < left_over src st" by (rule h_step_decreases [OF st'(1)])
        then have ih: "case huff_spec (code_of d) n (state_stream src st') (left_over src st') (written st') (prefix st') of
              Ok (out, left) \<Rightarrow> \<exists>st''. h_loop d src n st' = Some (Ok st'') \<and> out_buf st'' = out \<and> length out = n
                \<and> consumed_bits st'' + left = 8 * length src
            | Err e \<Rightarrow> h_loop d src n st' = Some (Err e) | Panic \<Rightarrow> False"
          using less.hyps less.prems st'(2) by blast
        have sp: "huff_spec (code_of d) n (state_stream src st) (left_over src st) (written st) (prefix st)
            = huff_spec (code_of d) n (state_stream src st') (left_over src st') (written st') (prefix st')"
          using False left len c x st' by (subst huff_spec.simps) simp
        have lp: "h_loop d src n st = h_loop d src n st'"
          using False st'(1) by (subst h_loop.simps) simp
        show ?thesis unfolding sp lp by (rule ih)
      next
        case (Err e)
        then have "h_step d src n st = Some (Err e)" using step False left by simp
        then show ?thesis using Err left False len c by (subst huff_spec.simps, subst h_loop.simps) simp
      next
        case Panic
        then show ?thesis using step False left by simp
      qed
    qed
  qed
qed


section \<open>Decoders built by the code\<close>

lemma new_decoder_lookup:
  assumes "new_decoder t = Ok d"
  shows "length (lookup_bits d) = 65536" and "length (lookup_symbols d) = 65536"
    and "\<forall>b\<in>set (lookup_bits d). b \<le> 16"
proof -
  obtain es where es: "mapM (lookup_entry t) [0..<0x10000] = Ok es"
      "d = \<lparr>dec_tree = t, lookup_symbols = map fst es, lookup_bits = map snd es\<rparr>"
    using assms by (auto simp: new_decoder_def rbind_Ok_conv simp del: upt_Suc split: if_splits)
  have len: "length es = 65536" using mapM_Ok_length [OF es(1)] by (simp only: length_upt)
  show "length (lookup_bits d) = 65536" "length (lookup_symbols d) = 65536" using len es(2) by simp_all
  have "snd e \<le> 16" if e: "e \<in> set es" for e
  proof -
    obtain w where "lookup_entry t w = Ok e" using mapM_Ok_set [OF es(1) e] by blast
    then show ?thesis by (auto simp: lookup_entry_def rbind_Ok_conv split: if_splits prod.splits)
  qed
  then show "\<forall>b\<in>set (lookup_bits d). b \<le> 16" using es(2) by auto
qed

lemma new_decoder_full:
  "new_decoder t = Ok d \<Longrightarrow> 0 \<notin> set (lookup_bits d) \<Longrightarrow> full_lookup d"
  using new_decoder_lookup [of t d] unfolding full_lookup_def by metis

lemma new_decoder_total:
  assumes "768 \<le> length t" and "length t mod 3 = 0" and "\<And>w. w < 65536 \<Longrightarrow> lookup_entry t w = Ok (g w)"
  shows "new_decoder t = Ok \<lparr>dec_tree = t, lookup_symbols = map (fst \<circ> g) [0..<0x10000],
    lookup_bits = map (snd \<circ> g) [0..<0x10000]\<rparr>"
proof -
  have "mapM (lookup_entry t) [0..<0x10000] = Ok (map g [0..<0x10000])"
    by (rule mapM_Ok_map) (use assms(3) in \<open>simp only: set_upt atLeastLessThan_iff\<close>)
  moreover have "\<not> (length t < 256 * 3 \<or> length t mod 3 \<noteq> 0)" using assms(1,2) by simp
  ultimately show ?thesis unfolding new_decoder_def by (simp only: if_False rbind.simps map_map)
qed

lemma node_at:
  assumes "window t (i * 3) 3 = node" and "length t = 3 * n" and "i < n" and "3 * n < usize_limit"
  shows "entry t i = Ok (node_raw node AND 0x7fff, node_raw node AND 0x8000 \<noteq> 0, node ! 2)"
    and "byte_range t (i * 3) 3 = Ok node"
proof -
  show r: "byte_range t (i * 3) 3 = Ok node" using assms byte_range_in [of "i * 3" 3 t] by simp
  show "entry t i = Ok (node_raw node AND 0x7fff, node_raw node AND 0x8000 \<noteq> 0, node ! 2)"
    using assms(3,4) by (simp add: entry_def chk_mul_def r)
qed

lemma window_replicate:
  "i < n \<Longrightarrow> length node = 3 \<Longrightarrow> window (concat (replicate n node) @ rest) (i * 3) 3 = node"
proof (induction i arbitrary: n)
  case 0
  then show ?case by (cases n) (simp_all add: window_def)
next
  case (Suc i)
  then obtain m where m: "n = Suc m" by (cases n) auto
  have "window (node @ concat (replicate m node) @ rest) (length node + i * 3) 3 = window (concat (replicate m node) @ rest) (i * 3) 3"
    by (rule window_pre)
  then show ?case using Suc m by simp
qed

lemma low_byte_less: "unat ((w :: u32) AND 0xff) < 256"
proof -
  have "w AND 0xff \<le> 0xff" by (rule word_and_le1)
  then show ?thesis by (simp add: word_le_nat_alt)
qed

lemma length_concat_replicate: "length (concat (replicate n xs)) = n * length xs"
  by (induction n) simp_all

lemma leaf_A: "node_raw [0x41, 0x80, 8] AND 0x7fff = 0x41" "node_raw [0x41, 0x80, 8] AND 0x8000 \<noteq> 0"
  by (simp_all add: node_raw_def)

lemma decode_symbol_leaf:
  assumes "entry t (unat (w AND 0xff)) = Ok (0x41, True, 8)"
  shows "decode_symbol t w = Ok (0x41, 8)"
  using assms by (simp add: decode_symbol_def)

section \<open>A flat tree\<close>

text \<open>Every byte is a leaf of eight bits for the literal \<open>A\<close>.\<close>

definition flat_tree :: bytes where
  "flat_tree = concat (replicate 256 [0x41, 0x80, 8])"

lemma flat_decoder:
  "new_decoder flat_tree = Ok \<lparr>dec_tree = flat_tree, lookup_symbols = map (fst \<circ> (\<lambda>_. (0x41, 8 :: u8))) [0..<0x10000],
     lookup_bits = map (snd \<circ> (\<lambda>_. (0x41 :: u16, 8))) [0..<0x10000]\<rparr>"
proof (rule new_decoder_total)
  have len: "length flat_tree = 3 * 256" unfolding flat_tree_def length_concat_replicate by simp
  then show "768 \<le> length flat_tree" "length flat_tree mod 3 = 0" by simp_all
  fix w :: nat
  have "window flat_tree (unat ((word_of_nat w :: u32) AND 0xff) * 3) 3 = [0x41, 0x80, 8]"
    using window_replicate [OF low_byte_less [of "word_of_nat w"], of "[0x41, 0x80, 8]" "[]"]
    unfolding flat_tree_def by simp
  note e = node_at(1) [OF this len low_byte_less]
  have "entry flat_tree (unat ((word_of_nat w :: u32) AND 0xff)) = Ok (0x41, True, 8)"
    by (subst e) (simp_all add: leaf_A usize_limit_def)
  then show "lookup_entry flat_tree w = Ok (0x41, 8)"
    by (simp add: lookup_entry_def decode_symbol_leaf)
qed


text \<open>C5. A decoder whose tree has no code longer than the lookup is the abstract LZ machine over the bit stream: the 64-bit window with
  its refills, the fixed output buffer and its copies, and the consumption check amount to reading
  codes off the source as one number, and the call always returns.\<close>

theorem decode_limited_refines:
  assumes "new_decoder t = Ok d" and "0 \<notin> set (lookup_bits d)" and "n < usize_limit" and "8 * length src < usize_limit"
  shows "decode_limited d src n None = Some (rbind (huff_spec (code_of d) n (le_nat src) (8 * length src) [] 0)
    (\<lambda>(out, left). if left < 8 then Ok out else Err ''compressed input consumption mismatch''))"
proof -
  let ?st = "\<lparr>source_pos = 0, bit_buffer = 0, available = 0, consumed_bits = 0,
          out_buf = replicate n 0, output_pos = 0, prefix = 0\<rparr>"
  have st: "state_ok src n ?st" "left_over src ?st = 8 * length src" "state_stream src ?st = le_nat src" "written ?st = []"
    by (simp_all add: state_ok_def buffer_ok_def left_over_def state_stream_def stream_of_def written_def)
  note ref = h_loop_refines [OF new_decoder_full [OF assms(1,2)] st(1) assms(3,4), unfolded st(2-4), simplified]
  show ?thesis
  proof (cases "huff_spec (code_of d) n (le_nat src) (8 * length src) [] 0")
    case (Ok x)
    then obtain out left where x: "huff_spec (code_of d) n (le_nat src) (8 * length src) [] 0 = Ok (out, left)"
      by (cases x) auto
    then obtain st' where st': "h_loop d src n ?st = Some (Ok st')" "out_buf st' = out"
        "consumed_bits st' + left = 8 * length src" using ref by auto
    then have "(consumed_bits st' + 7) div 8 \<noteq> length src \<longleftrightarrow> \<not> left < 8" by auto
    then show ?thesis using st' x by (simp add: decode_limited_def limit_opt_def)
  next
    case (Err e)
    then show ?thesis using ref by (simp add: decode_limited_def limit_opt_def)
  next
    case Panic
    then show ?thesis using ref by simp
  qed
qed

theorem decode_limited_refines_witness:
  "\<exists>d. new_decoder flat_tree = Ok d \<and> decode_limited d [1, 2, 3] 3 None = Some (Ok [0x41, 0x41, 0x41])"
proof -
  let ?d = "\<lparr>dec_tree = flat_tree, lookup_symbols = map (fst \<circ> (\<lambda>_. (0x41, 8 :: u8))) [0..<0x10000],
     lookup_bits = map (snd \<circ> (\<lambda>_. (0x41 :: u16, 8))) [0..<0x10000]\<rparr>"
  have c: "code_of ?d (k mod 65536) = (0x41, 8)" for k
    by (simp add: code_of_def del: upt_Suc)
  have step: "huff_spec (code_of ?d) n N L out 0 = huff_spec (code_of ?d) n (N div 256) (L - 8) (out @ [0x41]) 0"
    if "length out < n" "8 \<le> L" for n N L out
    using that by (subst huff_spec.simps) (simp add: c lz_apply_def Let_def)
  have stop: "huff_spec (code_of ?d) n N L out 0 = Ok (out, L)" if "n \<le> length out" for n N L out
    using that by (subst huff_spec.simps) simp
  have "0 \<notin> set (lookup_bits ?d)" by (auto simp del: upt_Suc)
  from decode_limited_refines [OF flat_decoder this, of 3 "[1, 2, 3]"]
  have "decode_limited ?d [1, 2, 3] 3 None = Some (Ok [0x41, 0x41, 0x41])"
    by (simp add: usize_limit_def step stop)
  then show ?thesis using flat_decoder by blast
qed


section \<open>A tree on which decoding never returns\<close>

text \<open>The root of byte 0 skips 16 bits; then bit 0 leads to a leaf and bit 1 to a node that points to itself.
  Every 16-bit word finds the leaf, so the tree is accepted.\<close>

definition looping_tree :: bytes where
  "looping_tree = [0, 1, 16] @ concat (replicate 255 [0x41, 0x80, 8]) @ [0x42, 0x80, 0, 1, 1, 0]"

lemma length_looping: "length looping_tree = 3 * 258"
  unfolding looping_tree_def length_append length_concat_replicate by simp

lemma looping_window:
  "window looping_tree (0 * 3) 3 = [0, 1, 16]"
  "0 < i \<Longrightarrow> i < 256 \<Longrightarrow> window looping_tree (i * 3) 3 = [0x41, 0x80, 8]"
  "window looping_tree (256 * 3) 3 = [0x42, 0x80, 0]"
  "window looping_tree (257 * 3) 3 = [1, 1, 0]"
proof -
  let ?c = "concat (replicate 255 [0x41, 0x80, 8]) :: bytes"
  have c: "length ?c = 765" unfolding length_concat_replicate by simp
  show "window looping_tree (0 * 3) 3 = [0, 1, 16]" by (simp add: looping_tree_def window_def)
  have "window looping_tree (length ([0, 1, 16 :: u8] @ ?c) + k) 3 = window [0x42, 0x80, 0, 1, 1, 0] k 3" for k
    unfolding looping_tree_def append_assoc [symmetric] by (rule window_pre)
  moreover have "length ([0, 1, 16 :: u8] @ ?c) = 768" using c by (simp only: length_append) simp
  ultimately have tail: "window looping_tree (768 + k) 3 = window [0x42, 0x80, 0, 1, 1, 0] k 3" for k by simp
  show "window looping_tree (256 * 3) 3 = [0x42, 0x80, 0]" using tail [of 0] by (simp add: window_def)
  show "window looping_tree (257 * 3) 3 = [1, 1, 0]" using tail [of 3] by (simp add: window_def)
  assume i: "0 < i" "i < 256"
  then obtain j where j: "i = Suc j" "j < 255" by (cases i) auto
  have "window looping_tree (length [0, 1, 16 :: u8] + j * 3) 3 = window (?c @ [0x42, 0x80, 0, 1, 1, 0]) (j * 3) 3"
    unfolding looping_tree_def by (rule window_pre)
  also have "\<dots> = [0x41, 0x80, 8]" using j by (intro window_replicate) simp_all
  finally have "window looping_tree (length [0, 1, 16 :: u8] + j * 3) 3 = [0x41, 0x80, 8]" .
  moreover have "length [0, 1, 16 :: u8] + j * 3 = i * 3" using j by simp
  ultimately show "window looping_tree (i * 3) 3 = [0x41, 0x80, 8]" by (simp only:)
qed

lemmas looping_node = node_at [OF _ length_looping]

lemma looping_entry:
  "entry looping_tree 0 = Ok (256, False, 16)"
  "0 < i \<Longrightarrow> i < 256 \<Longrightarrow> entry looping_tree i = Ok (0x41, True, 8)"
  "entry looping_tree 256 = Ok (0x42, True, 0)"
  using looping_node(1) [OF looping_window(1)] looping_node(1) [OF looping_window(2), of i]
    looping_node(1) [OF looping_window(3)]
  by (simp_all add: node_raw_def usize_limit_def)

lemma bit_17th: "bit (0x10000 :: 'a::len word) i \<Longrightarrow> i = 16"
proof -
  have "(0x10000 :: 'a word) = 2 ^ 16" by simp
  then show "bit (0x10000 :: 'a word) i \<Longrightarrow> i = 16" by (simp only: bit_exp_iff)
qed

lemma looping_symbol:
  assumes "w < 65536"
  shows "lookup_entry looping_tree w = Ok (if (word_of_nat w :: u32) AND 0xff = 0 then (0, 0) else (0x41, 8))"
proof (cases "(word_of_nat w :: u32) AND 0xff = 0")
  case True
  have "\<not> bit (word_of_nat w :: u32) 16"
  proof -
    have "unat (word_of_nat w :: u32) = w" using assms by (simp add: unat_of_nat)
    moreover have "bit (word_of_nat w :: u32) 16 \<longleftrightarrow> bit (unat (word_of_nat w :: u32)) 16"
      by (simp only: bit_unsigned_iff) simp
    ultimately have "bit (word_of_nat w :: u32) 16 \<longleftrightarrow> bit w 16" by simp
    also have "\<dots> \<longleftrightarrow> odd (w div 65536)" by (simp add: bit_iff_odd)
    finally show ?thesis using assms by simp
  qed
  then have b: "(word_of_nat w :: u32) AND 0x10000 = 0"
    by (intro bit_word_eqI) (auto simp only: bit_and_iff bit_0_eq bot_fun_def bot_bool_def dest: bit_17th)
  have "decode_walk looping_tree (word_of_nat w) 256 (shl32 1 16) 17 = Ok (0x42, 17)"
    using b by (subst decode_walk.simps) (simp add: shl32_def branch32_def looping_entry)
  then have "decode_symbol looping_tree (word_of_nat w) = Ok (0x42, 17)"
    by (simp add: decode_symbol_def True looping_entry chk_add_w_def)
  then show ?thesis by (simp add: lookup_entry_def True)
next
  case False
  have "0 < unat ((word_of_nat w :: u32) AND 0xff)" using False by (simp add: unat_gt_0)
  then have "decode_symbol looping_tree (word_of_nat w) = Ok (0x41, 8)"
    by (intro decode_symbol_leaf looping_entry low_byte_less)
  then show ?thesis using False by (simp add: lookup_entry_def)
qed

definition stuck :: "bytes \<Rightarrow> u64 \<Rightarrow> u16 \<Rightarrow> u64 \<Rightarrow> bool" where
  "stuck t buf raw msk \<longleftrightarrow> t = looping_tree \<and> buf = 0x10000 \<and> raw = 257 \<and> (\<exists>k\<ge>17. msk = push_bit k 1)"

lemma stuck_step:
  assumes "stuck t buf raw msk"
  shows "buf AND msk = 0" and "stuck t buf 257 (push_bit 1 msk)" and "byte_range t (257 * 3) 3 = Ok [1, 1, 0]"
proof -
  obtain k where k: "17 \<le> k" "msk = push_bit k 1" using assms by (auto simp: stuck_def)
  have "0x10000 AND push_bit k (1 :: u64) = 0"
    using k by (intro bit_word_eqI)
      (auto simp only: bit_and_iff bit_push_bit_iff bit_0_eq bot_fun_def bot_bool_def dest!: bit_17th)
  then show "buf AND msk = 0" using assms k by (simp add: stuck_def)
  have "push_bit 1 msk = push_bit (Suc k) 1" using k by (simp add: push_bit_push_bit)
  then show "stuck t buf 257 (push_bit 1 msk)" using assms k(1) unfolding stuck_def by (metis le_SucI)
  show "byte_range t (257 * 3) 3 = Ok [1, 1, 0]"
    using assms looping_node(2) [OF looping_window(4)] by (simp add: stuck_def usize_limit_def)
qed

lemma raw_walk_stuck: "raw_walk t buf raw msk bits = Some r \<Longrightarrow> \<not> stuck t buf raw msk"
proof -
  assume run: "raw_walk t buf raw msk bits = Some r"
  show "\<not> stuck t buf raw msk"
  proof (rule raw_walk.raw_induct [where P = "\<lambda>t buf raw msk bits r. \<not> stuck t buf raw msk", OF _ run])
    fix walk :: "bytes \<Rightarrow> u64 \<Rightarrow> u16 \<Rightarrow> u64 \<Rightarrow> u8 \<Rightarrow> (u16 \<times> u8) may"
      and t :: bytes and buf msk :: u64 and raw :: u16 and bits :: u8 and r
    assume ih: "\<And>t buf raw msk bits r. walk t buf raw msk bits = Some r \<Longrightarrow> \<not> stuck t buf raw msk"
      and body: "(case rbind (ok_or ''Huffman node overflow''
                (chk_mul (unat (raw AND 0x7fff) + (if buf AND msk \<noteq> 0 then 1 else 0)) 3))
             (\<lambda>off. byte_range t off 3) of
        Ok node \<Rightarrow>
          if node_raw node AND 0x8000 \<noteq> 0 then Some (Ok (node_raw node AND 0x7fff, bits))
          else walk t buf (node_raw node) (push_bit 1 msk) (bits + 1)
      | Err e \<Rightarrow> Some (Err e) | Panic \<Rightarrow> Some Panic) = Some r"
    show "\<not> stuck t buf raw msk"
    proof
      assume st: "stuck t buf raw msk"
      then have "raw = 257" by (simp add: stuck_def)
      then have "walk t buf 257 (push_bit 1 msk) (bits + 1) = Some r"
        using body stuck_step [OF st] by (simp add: chk_mul_def usize_limit_def node_raw_def)
      from ih [OF this] show False using stuck_step(2) [OF st] by contradiction
    qed
  qed
qed

text \<open>C6. Decoding need not return: the decoder accepts a tree on which a three-byte source for a single byte of
  output sends the walk below the lookup round a node that points to itself for ever. The walk that
  builds the lookup bounds its bit count, this one does not.\<close>

theorem decode_limited_may_hang:
  "\<exists>d. new_decoder looping_tree = Ok d \<and> decode_limited d [0, 0, 1] 1 None = None"
proof -
  let ?g = "\<lambda>w. if (word_of_nat w :: u32) AND 0xff = 0 then (0 :: u16, 0 :: u8) else (0x41, 8)"
  let ?d = "\<lparr>dec_tree = looping_tree, lookup_symbols = map (fst \<circ> ?g) [0..<0x10000],
    lookup_bits = map (snd \<circ> ?g) [0..<0x10000]\<rparr>"
  have d: "new_decoder looping_tree = Ok ?d"
    by (rule new_decoder_total) (use length_looping looping_symbol in simp_all)
  have b0: "lookup_bits ?d ! 0 = 0" "length (lookup_bits ?d) = 65536"
    by (simp_all del: upt_Suc)
  have buf: "refill [0, 0, 1] 0 0 0 = (3, 0x10000, 24)"
    by (simp add: refill.simps)
  have "raw_walk looping_tree 0x10000 256 (push_bit 16 1) 17 = None"
  proof -
    have "byte_range looping_tree (257 * 3) 3 = Ok [1, 1, 0]"
      by (rule looping_node(2) [OF looping_window(4)]) (simp_all add: usize_limit_def)
    then have "raw_walk looping_tree 0x10000 256 (push_bit 16 1) 17 = raw_walk looping_tree 0x10000 257 (push_bit 17 1) 18"
      by (subst raw_walk.simps) (simp add: chk_mul_def usize_limit_def node_raw_def)
    also have "\<dots> = None"
    proof -
      have "stuck looping_tree 0x10000 257 (push_bit 17 1)" by (auto simp: stuck_def)
      then show ?thesis using raw_walk_stuck by (metis not_Some_eq)
    qed
    finally show ?thesis .
  qed
  moreover have "byte_range looping_tree (0 * 3) 3 = Ok [0, 1, 16]"
    by (rule looping_node(2) [OF looping_window(1)]) (simp_all add: usize_limit_def)
  ultimately have "slow_symbol looping_tree 0x10000 = None"
    by (simp add: slow_symbol_def node_raw_def)
  then have "next_symbol ?d 0x10000 = None"
    using b0 by (simp add: next_symbol_def idx_in del: upt_Suc)
  then have "decode_limited ?d [0, 0, 1] 1 None = None"
    by (simp add: decode_limited_def limit_opt_def h_loop.simps h_step_def buf del: upt_Suc)
  then show ?thesis using d by blast
qed

end
