(* ===== verification/ContainerProps.thy ===== *)
theory ContainerProps
  imports Container HuffmanStream HeaderCodec
begin

unbundle bit_operations_syntax

text \<open>
  Properties of the container decoder: it does not panic, its output has the declared size, and it inverts
  the packing of a container.
\<close>

section \<open>No panic below the container\<close>

named_theorems no_panic \<open>operations that never panic\<close>

lemma byte_range_no_panic [no_panic]: "byte_range data off n \<noteq> Panic"
  by (simp add: byte_range_def rbind_Panic_conv)

lemma read_no_panic [no_panic]: "read_u16 data off \<noteq> Panic" "read_u32 data off \<noteq> Panic"
  by (simp_all add: read_u16_def read_u32_def rbind_Panic_conv no_panic)

lemma read_u32_Ok_bound: "read_u32 data off = Ok v \<Longrightarrow> off + 4 \<le> length data"
  by (auto simp: read_u32_def byte_range_def res_conv)

lemma map_words_no_panic [no_panic]: "map_words f n buf \<noteq> Panic"
  unfolding map_words_def
  by (rule foldM_not_Panic) (auto simp: rbind_Panic_conv no_panic put_def dest!: read_u32_Ok_bound)

lemma align_up_no_panic [no_panic]: "align_up v a \<noteq> Panic"
  by (simp add: align_up_def rbind_Panic_conv)

lemma parse_segment_no_panic [no_panic]: "parse_segment data start table i \<noteq> Panic"
  by (simp add: parse_segment_def Let_def rbind_Panic_conv no_panic)

lemma parse_header_no_panic [no_panic]: "parse_header data start seed \<noteq> Panic"
  by (simp add: parse_header_def Let_def rbind_Panic_conv no_panic mapM_not_Panic)

lemma limit_no_panic [no_panic]: "limit_opt limit n \<noteq> Panic"
  by (simp add: limit_opt_def limit_check_def split: option.split)

lemma transform_segment_no_panic [no_panic]: "transform_segment aes256 data seed key b \<noteq> Panic"
  by (simp add: transform_segment_def seg_words_def rbind_Panic_conv)

lemma entry_no_panic [no_panic]: "entry t i \<noteq> Panic"
  by (simp add: entry_def rbind_Panic_conv no_panic)

lemma decode_walk_no_panic [no_panic]: "decode_walk t w v msk bits \<noteq> Panic"
proof (induction t w v msk bits rule: decode_walk.induct)
  case (1 t w v msk bits)
  then show ?case by (subst decode_walk.simps) (auto simp: rbind_Panic_conv no_panic split: prod.splits)
qed

lemma new_decoder_no_panic [no_panic]: "new_decoder t \<noteq> Panic"
proof -
  have "lookup_entry t w \<noteq> Panic" for w
    by (auto simp: lookup_entry_def decode_symbol_def rbind_Panic_conv no_panic split: prod.splits)
  then have "mapM (lookup_entry t) [0..<0x10000] \<noteq> Panic" by (rule mapM_not_Panic)
  then show ?thesis unfolding new_decoder_def by (auto simp: rbind_Panic_conv simp del: upt_Suc)
qed

lemma raw_walk_no_panic: "raw_walk t buf raw msk bits = Some r \<Longrightarrow> r \<noteq> Panic"
proof -
  assume run: "raw_walk t buf raw msk bits = Some r"
  show "r \<noteq> Panic"
  proof (rule raw_walk.raw_induct [where P = "\<lambda>t buf raw msk bits r. r \<noteq> Panic", OF _ run])
    fix walk :: "bytes \<Rightarrow> u64 \<Rightarrow> u16 \<Rightarrow> u64 \<Rightarrow> u8 \<Rightarrow> (u16 \<times> u8) may"
      and t :: bytes and buf msk :: u64 and raw :: u16 and bits :: u8 and r
    let ?n = "rbind (ok_or ''Huffman node overflow''
                (chk_mul (unat (raw AND 0x7fff) + (if buf AND msk \<noteq> 0 then 1 else 0)) 3))
             (\<lambda>off. byte_range t off 3)"
    assume ih: "\<And>t buf raw msk bits r. walk t buf raw msk bits = Some r \<Longrightarrow> r \<noteq> Panic"
      and body: "(case ?n of
        Ok node \<Rightarrow>
          if node_raw node AND 0x8000 \<noteq> 0 then Some (Ok (node_raw node AND 0x7fff, bits))
          else walk t buf (node_raw node) (push_bit 1 msk) (bits + 1)
      | Err e \<Rightarrow> Some (Err e) | Panic \<Rightarrow> Some Panic) = Some r"
    have "?n \<noteq> Panic" by (simp add: rbind_Panic_conv no_panic)
    then show "r \<noteq> Panic" using body ih by (cases ?n) (auto split: if_splits)
  qed
qed

lemma next_symbol_no_panic:
  assumes "length (lookup_bits d) = 65536" and "length (lookup_symbols d) = 65536"
  shows "next_symbol d buf \<noteq> Some Panic"
proof -
  have "buf AND 0xffff = take_bit 16 buf" by (simp add: take_bit_eq_mask mask_eq_exp_minus_1)
  then have "unat (buf AND 0xffff) < 65536"
    by (simp only: unsigned_take_bit_eq) (simp add: take_bit_eq_mod)
  moreover have "slow_symbol t buf \<noteq> Some Panic" for t
    using raw_walk_no_panic by (fastforce simp: slow_symbol_def may_bind_Panic_conv no_panic split: if_splits)
  ultimately show ?thesis using assms by (auto simp: next_symbol_def Let_def may_bind_Panic_conv idx_in split: if_splits)
qed

definition output_ok :: "nat \<Rightarrow> hstate \<Rightarrow> bool" where
  "output_ok n st \<longleftrightarrow> length (out_buf st) = n \<and> output_pos st \<le> n \<and> prefix st < 65536"

lemma h_step_safe:
  assumes "length (lookup_bits d) = 65536" and "length (lookup_symbols d) = 65536" and "n < usize_limit"
    and "output_ok n st" and "output_pos st < n"
  shows "h_step d src n st \<noteq> Some Panic" and "h_step d src n st = Some (Ok st') \<Longrightarrow> output_ok n st'"
proof -
  obtain p buf av where r: "refill src (source_pos st) (bit_buffer st) (available st) = (p, buf, av)"
    by (metis prod_cases3)
  have em: "emit_symbol n s (out_buf st) (output_pos st) (prefix st) \<noteq> Panic"
    "emit_symbol n s (out_buf st) (output_pos st) (prefix st) = Ok (b, pos, pre) \<Longrightarrow> length b = n \<and> pos \<le> n \<and> pre < 65536"
    for s b pos pre
    using emit_symbol_refines [of "out_buf st" n "output_pos st" "prefix st" s] assms
    by (auto simp: output_ok_def split: res.splits prod.splits)
  show "h_step d src n st \<noteq> Some Panic"
    using next_symbol_no_panic [OF assms(1,2)] em
    by (auto simp: h_step_def r may_bind_Panic_conv rbind_Panic_conv split: if_splits prod.splits res.splits)
  show "output_ok n st'" if "h_step d src n st = Some (Ok st')"
    using that em
    by (fastforce simp: h_step_def r may_bind_Ok_conv rbind_Ok_conv output_ok_def split: if_splits prod.splits res.splits)
qed

lemma h_loop_safe:
  assumes "length (lookup_bits d) = 65536" and "length (lookup_symbols d) = 65536" and "n < usize_limit"
    and "output_ok n st"
  shows "h_loop d src n st \<noteq> Some Panic" and "h_loop d src n st = Some (Ok st') \<Longrightarrow> output_ok n st'"
proof -
  have "h_loop d src n st \<noteq> Some Panic \<and> (\<forall>st'. h_loop d src n st = Some (Ok st') \<longrightarrow> output_ok n st')"
    using assms
  proof (induction d src n st rule: h_loop.induct)
    case (1 d src n st)
    show ?case
    proof (cases "n \<le> output_pos st")
      case False
      note safe = h_step_safe [OF 1(2-5), of src]
      show ?thesis
      proof (cases "\<exists>st'. h_step d src n st = Some (Ok st')")
        case True
        then obtain st' where st': "h_step d src n st = Some (Ok st')" by blast
        then have "h_loop d src n st = h_loop d src n st'" using False by (subst h_loop.simps) simp
        then show ?thesis using 1(1) [OF False st'] 1(2-4) safe(2) False st' by auto
      next
        case none: False
        then have "h_loop d src n st \<noteq> Some (Ok st')" "h_loop d src n st \<noteq> Some Panic" for st'
          using False safe(1) by (subst h_loop.simps; auto split: option.split res.split)+
        then show ?thesis by blast
      qed
    next
      case True
      then show ?thesis using 1(5) by (subst (1 2) h_loop.simps) auto
    qed
  qed
  then show "h_loop d src n st \<noteq> Some Panic" "h_loop d src n st = Some (Ok st') \<Longrightarrow> output_ok n st'" by blast+
qed

lemma decode_limited_safe:
  assumes "new_decoder t = Ok d" and "n < usize_limit"
  shows "decode_limited d src n limit \<noteq> Some Panic"
    and "decode_limited d src n limit = Some (Ok out) \<Longrightarrow> length out = n"
proof -
  let ?st = "\<lparr>source_pos = 0, bit_buffer = 0, available = 0, consumed_bits = 0,
          out_buf = replicate n 0, output_pos = 0, prefix = 0\<rparr>"
  have "output_ok n ?st" by (simp add: output_ok_def)
  note safe = h_loop_safe [OF new_decoder_lookup(1,2) [OF assms(1)] assms(2) this, of src]
  show "decode_limited d src n limit \<noteq> Some Panic"
    using safe(1) by (auto simp: decode_limited_def may_bind_Panic_conv no_panic split: if_splits)
  show "decode_limited d src n limit = Some (Ok out) \<Longrightarrow> length out = n"
    using safe(2) by (auto simp: decode_limited_def may_bind_Ok_conv output_ok_def split: if_splits)
qed

section \<open>Every container decodes to its size\<close>

lemma read_writer_table_no_panic [no_panic]: "read_writer_table t \<noteq> Panic"
  by (simp add: read_writer_table_def rbind_Panic_conv no_panic)

lemma writer_ranges_no_panic [no_panic]: "writer_ranges limit t wt n i cursor \<noteq> Panic"
  by (auto simp: writer_ranges_def rbind_Panic_conv no_panic res_conv idx_range_def get_range_def)

lemma writer_ranges_Ok:
  assumes "writer_ranges limit t wt n i cursor = Ok (source, target, osize, stop)"
  shows "target + osize \<le> n" and "osize < usize_limit"
proof -
  obtain os :: u32 where "osize = unat os" "target + osize \<le> n"
    using assms by (auto simp: writer_ranges_def res_conv)
  then show "target + osize \<le> n" "osize < usize_limit"
    using unat_bound [of os] by (simp_all add: usize_limit_def)
qed

lemma run_writer_safe:
  assumes "new_decoder tr = Ok d"
  shows "run_writer d limit t wt i (out, cursor) \<noteq> Some Panic"
    and "run_writer d limit t wt i (out, cursor) = Some (Ok (out', cursor')) \<Longrightarrow> length out' = length out"
proof -
  note safe = decode_limited_safe [OF assms]
  show "run_writer d limit t wt i (out, cursor) \<noteq> Some Panic"
    using safe by (auto simp: run_writer_def may_bind_Panic_conv may_bind_Ok_conv no_panic writer_ranges_Ok
        split: if_splits)
  show "run_writer d limit t wt i (out, cursor) = Some (Ok (out', cursor')) \<Longrightarrow> length out' = length out"
    by (auto simp: run_writer_def may_bind_Ok_conv length_patch dest: writer_ranges_Ok split: if_splits)
qed

lemma run_segment_safe:
  assumes "new_decoder tr = Ok d"
  shows "run_segment aes256 data cfg h d limit s out \<noteq> Some Panic"
    and "run_segment aes256 data cfg h d limit s out = Some (Ok out') \<Longrightarrow> length out' = length out"
proof -
  note safe = run_writer_safe [OF assms]
  have np: "may_fold (run_writer d limit t wt) xs st \<noteq> Some Panic" for t wt xs st
    using safe(1) by (intro may_fold_not_Panic) (metis surj_pair)
  have len: "length (fst st') = length (fst st)"
    if "may_fold (run_writer d limit t wt) xs st = Some (Ok st')" for t wt xs st st'
    using that by (rule may_fold_inv [where P = "\<lambda>st'. length (fst st') = length (fst st)"])
      (simp, metis safe(2) surj_pair fst_conv)
  show "run_segment aes256 data cfg h d limit s out \<noteq> Some Panic"
    using np by (auto simp: run_segment_def may_bind_Panic_conv rbind_Panic_conv no_panic split: prod.splits)
  show "run_segment aes256 data cfg h d limit s out = Some (Ok out') \<Longrightarrow> length out' = length out"
    using len by (fastforce simp: run_segment_def may_bind_Ok_conv split: prod.splits)
qed

text \<open>C7. No container makes the decoder panic: for every byte string, configuration, expected size, ceiling and
  block cipher, if the call returns at all it returns a buffer or an error.\<close>

theorem decode_container_no_panic:
  "decode_container_inner aes256 data cfg expected_size limit \<noteq> Some Panic"
proof -
  have "may_fold (run_segment aes256 data cfg h d limit) segs out \<noteq> Some Panic"
    if "new_decoder tr = Ok d" for tr d h segs out
    using run_segment_safe(1) [OF that] by (intro may_fold_not_Panic) simp
  then show ?thesis
    by (auto simp: decode_container_inner_def may_bind_Panic_conv no_panic)
qed

section \<open>Packing a container\<close>

lemma nth_concat_const:
  "(\<And>x. length (f x) = m) \<Longrightarrow> i < length xs \<Longrightarrow> j < m \<Longrightarrow> concat (map f xs) ! (m * i + j) = f (xs ! i) ! j"
proof (induction xs arbitrary: i)
  case (Cons x xs)
  then show ?case by (cases i) (simp_all add: nth_append add.assoc)
qed simp

lemma window_concat:
  "i < length xss \<Longrightarrow> window (concat xss) (length (concat (take i xss))) (length (xss ! i)) = xss ! i"
proof (induction xss arbitrary: i)
  case (Cons xs xss)
  show ?case
  proof (cases i)
    case 0
    then show ?thesis by (simp add: window_def)
  next
    case (Suc j)
    then show ?thesis using Cons by (simp add: window_pre)
  qed
qed simp

definition writer_record :: "u32 \<times> bytes \<Rightarrow> u32 list" where
  "writer_record w = [fst w, word_of_nat (length (snd w)), word_of_nat (length (snd w)), 0]"

definition body_words :: "(u32 \<times> bytes) list \<Rightarrow> u32 list" where
  "body_words ws = [0, word_of_nat (length ws), 16, word_of_nat (16 + 16 * length ws)] @ concat (map writer_record ws)"

definition pack_body :: "(u32 \<times> bytes) list \<Rightarrow> bytes" where
  "pack_body ws = bytes_of (body_words ws) @ concat (map snd ws)"

definition pack_container ::
  "(bytes \<Rightarrow> bytes) \<Rightarrow> module9b_config \<Rightarrow> bytes \<Rightarrow> nat \<Rightarrow> (u32 \<times> bytes) list \<Rightarrow> bytes" where
  "pack_container aes_enc cfg t n ws =
     (let body = pack_segment aes_enc (pack_body ws) (container_seed cfg) (\<not> cfg_skip_aes cfg);
          start = 12 + length t + (4 - length t mod 4) mod 4 + 8
      in pack_header (container_seed cfg) (word_of_nat n) 1 t
           [\<lparr>seg_offset = word_of_nat start, seg_size = word_of_nat (length body)\<rparr>] @ body)"

definition write_all :: "(u32 \<times> bytes) list \<Rightarrow> bytes \<Rightarrow> bytes" where
  "write_all ws out = fold (\<lambda>w out. patch out (unat (fst w)) (snd w)) ws out"

lemma length_writer_record [simp]: "length (writer_record w) = 4"
  by (simp add: writer_record_def)

lemma length_body_words [simp]: "length (body_words ws) = 4 + 4 * length ws"
  by (simp add: body_words_def length_concat comp_def sum_list_triv)

lemma body_word:
  assumes "k < 4 + 4 * length ws" and "length (pack_body ws) < 2 ^ 32"
  shows "read_u32 (pack_body ws) (4 * k) = Ok (body_words ws ! k)"
proof -
  have "window (pack_body ws) (4 * k) 4 = to_le 4 (body_words ws ! k)"
    unfolding pack_body_def using assms(1) by (intro window_bytes_of) simp
  moreover have "4 * k + 4 \<le> length (pack_body ws)" using assms(1) by (simp add: pack_body_def)
  ultimately show ?thesis using assms(2) by (simp add: read_u32_in usize_limit_def from_le_to_le)
qed

lemma body_header: "body_words ws ! 0 = 0" "body_words ws ! 1 = word_of_nat (length ws)" "body_words ws ! 2 = 16"
  "body_words ws ! 3 = word_of_nat (16 + 16 * length ws)"
  by (simp_all add: body_words_def)

lemma body_record:
  assumes "i < length ws" and "j < 4"
  shows "body_words ws ! (4 + 4 * i + j) = writer_record (ws ! i) ! j"
proof -
  have "body_words ws ! (4 + 4 * i + j) = concat (map writer_record ws) ! (4 * i + j)"
    by (simp add: body_words_def nth_append)
  then show ?thesis using nth_concat_const [of writer_record 4 i ws j] assms by simp
qed

definition cursor_at :: "(u32 \<times> bytes) list \<Rightarrow> nat \<Rightarrow> nat" where
  "cursor_at ws i = 16 + 16 * length ws + length (concat (map snd (take i ws)))"

lemma cursor_step: "i < length ws \<Longrightarrow> cursor_at ws (Suc i) = cursor_at ws i + length (snd (ws ! i))"
  by (simp add: cursor_at_def take_Suc_conv_app_nth)

lemma cursor_le: "i \<le> length ws \<Longrightarrow> cursor_at ws i \<le> length (pack_body ws)"
proof -
  have "concat (map snd ws) = concat (map snd (take i ws)) @ concat (map snd (drop i ws))"
    by (metis append_take_drop_id concat_append map_append)
  then show ?thesis by (simp add: cursor_at_def pack_body_def)
qed

lemma window_body: "i < length ws \<Longrightarrow> window (pack_body ws) (cursor_at ws i) (length (snd (ws ! i))) = snd (ws ! i)"
proof -
  assume i: "i < length ws"
  have "cursor_at ws i = length (bytes_of (body_words ws)) + length (concat (map snd (take i ws)))"
    by (simp add: cursor_at_def)
  then show ?thesis
    using window_concat [of i "map snd ws"] i
    by (simp only: pack_body_def window_pre) (simp add: take_map)
qed

abbreviation "body_table ws \<equiv> \<lparr>wt_base = 0, wt_count = length ws, wt_offset = 16, wt_data = 16 + 16 * length ws\<rparr>"

lemma read_body_table:
  assumes "length (pack_body ws) < 2 ^ 32"
  shows "read_writer_table (pack_body ws) = Ok (body_table ws)"
proof -
  have len: "16 + 16 * length ws \<le> length (pack_body ws)" by (simp add: pack_body_def)
  then have u: "unat (word_of_nat (length ws) :: u32) = length ws"
    "unat (word_of_nat (16 + 16 * length ws) :: u32) = 16 + 16 * length ws"
    using assms by (simp_all only: unat_of_nat) (simp_all add: mod_less)
  have r: "read_u32 (pack_body ws) 0 = Ok 0" "read_u32 (pack_body ws) 4 = Ok (word_of_nat (length ws))"
    "read_u32 (pack_body ws) 8 = Ok 16" "read_u32 (pack_body ws) 12 = Ok (word_of_nat (16 + 16 * length ws))"
    using body_word [of 0 ws] body_word [of 1 ws] body_word [of 2 ws] body_word [of 3 ws] assms body_header [of ws]
    by simp_all
  show ?thesis
    using len assms by (simp add: read_writer_table_def r u chk_mul_def chk_add_def usize_limit_def del: of_nat_add of_nat_mult)
qed

lemma run_body_writer:
  assumes "length (pack_body ws) < 2 ^ 32" and "i < length ws"
    and "unat (fst (ws ! i)) + length (snd (ws ! i)) \<le> length out" and "length out < 2 ^ 32"
  shows "run_writer d None (pack_body ws) (body_table ws) i (out, cursor_at ws i)
    = Some (Ok (patch out (unat (fst (ws ! i))) (snd (ws ! i)), cursor_at ws (Suc i)))"
proof -
  let ?w = "ws ! i"
  have cur: "cursor_at ws i + length (snd ?w) \<le> length (pack_body ws)"
    using cursor_le [of "Suc i" ws] cursor_step [OF assms(2)] assms(2) by simp
  then have u: "unat (word_of_nat (length (snd ?w)) :: u32) = length (snd ?w)"
    using assms(1) by (simp add: unat_of_nat)
  have len: "16 + 16 * length ws \<le> length (pack_body ws)" by (simp add: pack_body_def)
  have r: "read_u32 (pack_body ws) (16 + i * 16 + 4 * j) = Ok (writer_record ?w ! j)" if "j < 4" for j
    using body_word [of "4 + 4 * i + j" ws] body_record [OF assms(2) that] that assms(1,2)
    by (simp add: algebra_simps)
  have rr: "read_u32 (pack_body ws) (16 + i * 16) = Ok (fst ?w)"
    "read_u32 (pack_body ws) (16 + i * 16 + 4) = Ok (word_of_nat (length (snd ?w)))"
    "read_u32 (pack_body ws) (16 + i * 16 + 8) = Ok (word_of_nat (length (snd ?w)))"
    "read_u32 (pack_body ws) (16 + i * 16 + 12) = Ok 0"
    using r [of 0] r [of 1] r [of 2] r [of 3] by (simp_all add: writer_record_def)
  have c: "Option.bind (chk_mul i 16) (\<lambda>k. chk_add 16 k) = Some (16 + i * 16)"
    "chk_add (cursor_at ws i) (length (snd ?w)) = Some (cursor_at ws i + length (snd ?w))"
    using assms(1,2) len cur by (simp_all add: chk_mul_def chk_add_def usize_limit_def)
  have s: "idx_range (pack_body ws) (cursor_at ws i) (length (snd ?w)) = (Ok (snd ?w) :: (bytes, err) res)"
    using cur window_body [OF assms(2)] by (simp add: idx_range_in)
  have t: "chk_add 0 (unat (fst ?w)) = Some (unat (fst ?w))"
    "chk_add (unat (fst ?w)) (length (snd ?w)) = Some (unat (fst ?w) + length (snd ?w))"
    using assms(3,4) by (simp_all add: chk_add_def usize_limit_def)
  have "writer_ranges None (pack_body ws) (body_table ws) (length out) i (cursor_at ws i)
      = Ok (snd ?w, unat (fst ?w), length (snd ?w), cursor_at ws (Suc i))"
    unfolding writer_ranges_def writer_table.select_convs c ok_or.simps rbind.simps rr u s t limit_opt_def option.case
      cursor_step [OF assms(2)]
    using cur assms(3) by simp
  then show ?thesis using assms(3) by (simp add: run_writer_def)
qed

lemma run_body:
  assumes "length (pack_body ws) < 2 ^ 32" and "length out < 2 ^ 32"
    and "\<forall>w\<in>set ws. unat (fst w) + length (snd w) \<le> length out"
  shows "may_fold (run_writer d None (pack_body ws) (body_table ws)) [0..<length ws] (out, 16 + 16 * length ws)
    = Some (Ok (write_all ws out, length (pack_body ws)))"
proof -
  have "may_fold (run_writer d None (pack_body ws) (body_table ws)) [0..<i] (out, cursor_at ws 0)
      = Some (Ok (write_all (take i ws) out, cursor_at ws i)) \<and> length (write_all (take i ws) out) = length out"
    if "i \<le> length ws" for i
    using that
  proof (induction i)
    case 0
    then show ?case by (simp add: write_all_def)
  next
    case (Suc i)
    let ?o = "write_all (take i ws) out"
    have w: "write_all (take (Suc i) ws) out = patch ?o (unat (fst (ws ! i))) (snd (ws ! i))"
      using Suc.prems by (simp add: write_all_def take_Suc_conv_app_nth)
    have b: "unat (fst (ws ! i)) + length (snd (ws ! i)) \<le> length ?o"
      using Suc assms(3) by simp
    show ?case
      using Suc b assms(1,2) by (simp add: may_fold_append run_body_writer w length_patch)
  qed
  from this [of "length ws"] show ?thesis by (simp add: cursor_at_def pack_body_def)
qed


lemma length_pack_header: "length (pack_header seed osize flag_word t segs)
    = 12 + length t + (4 - length t mod 4) mod 4 + 8 * length segs"
  by (simp add: pack_header_def Let_def)

lemma length_pack_segment:
  assumes "\<And>b. length b = 16 \<Longrightarrow> length (e b) = 16 \<and> f (e b) = b"
  shows "length (pack_segment e data seed aes) = length data"
  using seg_aes_cbc(1) [OF assms] by (simp add: pack_segment_def length_run_region Let_def)

lemma decode_packed_container:
  assumes inv: "\<And>b. length b = 16 \<Longrightarrow> length (aes_enc b) = 16 \<and> aes256 (aes_key cfg) (aes_enc b) = b"
    and tree: "new_decoder t = Ok d" "length t \<le> 0x1b00"
    and body: "length (pack_body ws) < 2 ^ 31" and n: "n < 2 ^ 32"
    and ws: "\<forall>w\<in>set ws. unat (fst w) + length (snd w) \<le> n"
  shows "decode_container aes256 (pack_container aes_enc cfg t n ws) cfg n = Some (Ok (write_all ws (replicate n 0)))"
proof -
  let ?seed = "container_seed cfg"
  let ?body = "pack_segment aes_enc (pack_body ws) ?seed (\<not> cfg_skip_aes cfg)"
  let ?start = "12 + length t + (4 - length t mod 4) mod 4 + 8"
  let ?seg = "\<lparr>seg_offset = word_of_nat ?start, seg_size = word_of_nat (length ?body)\<rparr>"
  let ?hd = "pack_header ?seed (word_of_nat n) 1 t [?seg]"
  have lb: "length ?body = length (pack_body ws)" by (rule length_pack_segment) (rule inv)
  have pos: "16 \<le> length (pack_body ws)" by (simp add: pack_body_def)
  have pad: "(4 - length t mod 4) mod 4 < 4" by simp
  have hd: "length ?hd = ?start" by (simp add: length_pack_header)
  have us: "unat (word_of_nat ?start :: u32) = ?start"
    using tree(2) pad by (simp only: unat_of_nat) (simp add: mod_less)
  have ub: "unat (word_of_nat (length ?body) :: u32) = length ?body"
    using body lb by (simp add: unat_of_nat)
  have un: "unat (word_of_nat n :: u32) = n" using n by (simp add: unat_of_nat)
  let ?h = "\<lparr>hdr_start = 0, output_size = word_of_nat n, hdr_skip_aes = False, tree = t, segments = [?seg]\<rparr>"
  have ld: "length (?hd @ ?body) = ?start + length ?body" using hd by simp
  have lim: "?start + length ?body < usize_limit" using body lb tree(2) pad by (simp add: usize_limit_def)
  have ne: "(word_of_nat (length ?body) :: u32) \<noteq> 0"
    using ub lb pos by (metis unat_0 not_numeral_le_zero)
  have "parse_header ([] @ ?hd @ ?body) (length ([] :: bytes)) ?seed
      = Ok \<lparr>hdr_start = length ([] :: bytes), output_size = word_of_nat n,
          hdr_skip_aes = (drop_bit 8 (1 :: u32) AND 0xff = 1), tree = t, segments = [?seg]\<rparr>"
  proof (rule parse_header_inverts)
    show "\<forall>s\<in>set [?seg]. seg_size s \<noteq> 0 \<and> length ([] :: bytes) + unat (seg_offset s) + unat (seg_size s)
        \<le> length ([] @ ?hd @ ?body)"
      using ld us ub ne by simp
    show "length ([] @ ?hd @ ?body) < usize_limit" using ld lim by simp
  qed (use tree(2) in simp_all)
  then have ph: "parse_header (?hd @ ?body) 0 ?seed = Ok ?h" by simp
  have br: "byte_range (?hd @ ?body) ?start (length ?body) = Ok ?body"
  proof -
    have "window (?hd @ ?body) ?start (length ?body) = ?body" using window_pre [of ?hd ?body 0] hd by simp
    then show ?thesis using ld lim by (simp add: byte_range_in)
  qed
  have ts: "transform_segment aes256 ?body ?seed (aes_key cfg) (\<not> cfg_skip_aes cfg) = Ok (pack_body ws)"
  proof (rule transform_inverts)
    show "length (pack_body ws) < 2 ^ 32" using body by simp
  qed (rule inv)
  have b32: "length (pack_body ws) < 2 ^ 32" using body by simp
  have start: "chk_add 0 ?start = Some ?start" using lim by (simp add: chk_add_def)
  have rs: "run_segment aes256 (?hd @ ?body) cfg ?h d None ?seg (replicate n 0) = Some (Ok (write_all ws (replicate n 0)))"
    unfolding run_segment_def container_header.select_convs encoded_segment.select_convs us ub start ok_or.simps rbind.simps br
      limit_opt_def option.case simp_thms ts read_body_table [OF b32]
    using run_body [OF b32, of "replicate n 0" d] n ws by simp
  show ?thesis
    unfolding decode_container_def decode_container_inner_def pack_container_def Let_def ph may_bind_simps
      container_header.select_convs un tree(1)
    using rs by (simp add: limit_opt_def)
qed

text \<open>C4. Decoding a container gives back what a packer put in: for every list of stored writers within the output,
  every seed, tree and block cipher whose decryption inverts its encryption, the decoded buffer is the
  zeroed output with the writers' bytes stored in order.\<close>

theorem decode_container_inverts:
  assumes "\<And>b. length b = 16 \<Longrightarrow> length (aes_enc b) = 16 \<and> aes256 (aes_key cfg) (aes_enc b) = b"
    and "new_decoder t = Ok d" and "length t \<le> 0x1b00"
    and "length (pack_body ws) < 2 ^ 31" and "n < 2 ^ 32"
    and "\<forall>w\<in>set ws. unat (fst w) + length (snd w) \<le> n"
  shows "decode_container aes256 (pack_container aes_enc cfg t n ws) cfg n = Some (Ok (write_all ws (replicate n 0)))"
  by (rule decode_packed_container) (fact assms)+

definition sample_config :: module9b_config where
  "sample_config = \<lparr>header_seed = 1, container_seed = 0x1234567, aes_key = replicate 32 0, cfg_skip_aes = False,
     schedule_offset = 8\<rparr>"

theorem decode_container_inverts_witness:
  "decode_container (\<lambda>k. map (\<lambda>x. x - 1))
     (pack_container (map (\<lambda>x. x + 1)) sample_config flat_tree 5 [(0, [1, 2]), (3, [7])]) sample_config 5
   = Some (Ok [1, 2, 0, 7, 0])"
proof -
  have len: "length flat_tree \<le> 0x1b00" unfolding flat_tree_def length_concat_replicate by simp
  have "decode_container (\<lambda>k. map (\<lambda>x. x - 1))
      (pack_container (map (\<lambda>x. x + 1)) sample_config flat_tree 5 [(0, [1, 2]), (3, [7])]) sample_config 5
    = Some (Ok (write_all [(0, [1, 2]), (3, [7])] (replicate 5 0)))"
    by (rule decode_container_inverts [OF _ flat_decoder len]) (simp_all add: comp_def pack_body_def)
  moreover have "replicate 5 (0 :: u8) = [0, 0, 0, 0, 0]" by (simp add: numeral_eq_Suc)
  ultimately show ?thesis by (simp add: write_all_def patch_def)
qed

text \<open>A decoded container has exactly the expected size, that size is the one its encrypted header declares, and
  it is within the ceiling whenever one is given.\<close>

theorem decode_container_size:
  assumes "decode_container_inner aes256 data cfg expected_size limit = Some (Ok out)"
  shows "length out = expected_size
    \<and> (\<exists>h. parse_header data 0 (container_seed cfg) = Ok h \<and> unat (output_size h) = expected_size)
    \<and> expected_size \<le> (case limit of None \<Rightarrow> 2 ^ 32 | Some l \<Rightarrow> unat (max_output_bytes l))"
proof -
  obtain h d where h: "parse_header data 0 (container_seed cfg) = Ok h" "unat (output_size h) = expected_size"
      and lim: "limit_opt limit expected_size = Ok ()" and d: "new_decoder (tree h) = Ok d"
      and run: "may_fold (run_segment aes256 data cfg h d limit) (segments h) (replicate expected_size 0) = Some (Ok out)"
    using assms by (auto simp: decode_container_inner_def may_bind_Ok_conv split: if_splits)
  have "length out = expected_size"
    using run by (rule may_fold_inv [where P = "\<lambda>b. length b = expected_size"]) (use run_segment_safe(2) [OF d] in auto)
  moreover have "expected_size \<le> (case limit of None \<Rightarrow> 2 ^ 32 | Some l \<Rightarrow> unat (max_output_bytes l))"
    using lim h(2) unat_bound [of "output_size h"]
    by (auto simp: limit_opt_def limit_check_def split: option.splits if_splits)
  ultimately show ?thesis using h by blast
qed

theorem decode_container_size_witness:
  "\<exists>h. parse_header (pack_container (\<lambda>b. b) sample_config flat_tree 5 []) 0 0x1234567 = Ok h
     \<and> unat (output_size h) = 5"
proof -
  have len: "length flat_tree \<le> 0x1b00" unfolding flat_tree_def length_concat_replicate by simp
  have "decode_container (\<lambda>k b. b) (pack_container (\<lambda>b. b) sample_config flat_tree 5 []) sample_config 5
    = Some (Ok (write_all [] (replicate 5 0)))"
    by (rule decode_packed_container [OF _ flat_decoder len]) (simp_all add: pack_body_def)
  from decode_container_size [OF this [unfolded decode_container_def]] show ?thesis
    by (simp add: sample_config_def)
qed

end
