(* ===== verification/ElfHash.thy ===== *)
theory ElfHash
  imports Streams
begin

unbundle bit_operations_syntax

text \<open>
  \<^verbatim>\<open>senbei-elf/src/hash.rs\<close>: the SysV and GNU hash functions and the dynamic symbol hash sections built
  with them. The search for the end of a chain follows indices found in the table, so its model is a
  \<open>partial_function\<close>; the construction is proved to return.
\<close>

section \<open>The hash functions\<close>

definition elf_hash_step :: "u32 \<Rightarrow> u8 \<Rightarrow> u32" where
  "elf_hash_step h b =
     (let v = push_bit 4 h + ucast b; high = v AND 0xf0000000 in
      if high \<noteq> 0 then (v XOR drop_bit 24 high) AND NOT high else v)"

definition elf_hash :: "bytes \<Rightarrow> u32" where
  "elf_hash name = foldl elf_hash_step 0 name"

definition gnu_hash :: "bytes \<Rightarrow> u32" where
  "gnu_hash name = foldl (\<lambda>v b. v * 33 + ucast b) 5381 name"

section \<open>The SysV table\<close>

partial_function (option) chain_end :: "u32 list \<Rightarrow> nat \<Rightarrow> nat may" where
  "chain_end links i =
     (if i < length links
      then (if links ! i = 0 then Some (Ok i) else chain_end links (unat (links ! i)))
      else Some Panic)"

definition sysv_insert :: "bytes list \<Rightarrow> nat \<Rightarrow> u32 list \<times> u32 list \<Rightarrow> (u32 list \<times> u32 list) may" where
  "sysv_insert names i t =
     (let (buckets, links) = t; b = unat (elf_hash (names ! i)) mod length names in
      if 2 ^ 32 \<le> i then Some (Err ''dynamic symbol index exceeds u32'')
      else if buckets ! b = 0 then Some (Ok (buckets[b := word_of_nat i], links))
      else may_bind (chain_end links (unat (buckets ! b))) (\<lambda>e. Some (Ok (buckets, links[e := word_of_nat i]))))"

definition build_sysv_hash :: "bytes list \<Rightarrow> bytes may" where
  "build_sysv_hash names =
     (if length names < 2 then Some (Err ''dynamic symbol table is unexpectedly empty'')
      else
      may_bind (may_fold (sysv_insert names) [1..<length names]
          (replicate (length names) 0, replicate (length names) 0)) (\<lambda>(buckets, links).
        if 2 ^ 32 \<le> length names then Some (Err ''SysV bucket count exceeds u32'')
        else Some (Ok (to_le 4 (word_of_nat (length names) :: u32) @ to_le 4 (word_of_nat (length names) :: u32)
               @ concat (map (to_le 4) (buckets @ links))))))"

section \<open>The GNU table\<close>

definition bloom_bits :: "u64 \<Rightarrow> u32 \<Rightarrow> u64" where
  "bloom_bits bloom h = (bloom OR push_bit (unat (h AND 63)) 1) OR push_bit (unat (drop_bit 5 h AND 63)) 1"

definition build_gnu_hash :: "bytes list \<Rightarrow> (bytes, err) res" where
  "build_gnu_hash names =
     (let hashes = map gnu_hash (drop 1 names) in
      if hashes = [] then Err ''GNU hash requires at least one dynamic symbol''
      else
      let bloom = foldl bloom_bits 0 hashes;
          links = map (\<lambda>h. h AND NOT 1) hashes;
          links' = butlast links @ [last links OR 1]
      in Ok (concat (map (to_le 4) [1, 1, 1, 5 :: u32]) @ to_le 8 bloom @ to_le 4 (1 :: u32)
             @ concat (map (to_le 4) links')))"

section \<open>Lookup as the dynamic linker does it\<close>

text \<open>The reader of the SysV table follows the ELF specification: the chain of the bucket of the hash is
  searched for the name, at most as many links as the table has.\<close>

definition table_word_at :: "bytes \<Rightarrow> nat \<Rightarrow> u32" where
  "table_word_at t k = from_le (window t (4 * k) 4)"

fun sysv_walk :: "(nat \<Rightarrow> u32) \<Rightarrow> bytes list \<Rightarrow> bytes \<Rightarrow> nat \<Rightarrow> nat \<Rightarrow> nat option" where
  "sysv_walk c names name 0 y = None"
| "sysv_walk c names name (Suc f) y =
     (if y = 0 then None else if names ! y = name then Some y else sysv_walk c names name f (unat (c y)))"

definition sysv_lookup :: "bytes \<Rightarrow> bytes list \<Rightarrow> bytes \<Rightarrow> nat option" where
  "sysv_lookup t names name =
     (let nb = unat (table_word_at t 0); nc = unat (table_word_at t 1) in
      sysv_walk (\<lambda>i. table_word_at t (2 + nb + i)) names name nc
        (unat (table_word_at t (2 + unat (elf_hash name) mod nb))))"

text \<open>The reader of the GNU table: Bloom filter, bucket, and a chain whose last hash has its lowest bit set.\<close>

function gnu_walk :: "bytes \<Rightarrow> bytes list \<Rightarrow> bytes \<Rightarrow> nat \<Rightarrow> nat option" where
  "gnu_walk t names name i =
     (if length names \<le> i then None
      else
      let c = table_word_at t (7 + (i - unat (table_word_at t 1))) in
      if c OR 1 = gnu_hash name OR 1 \<and> names ! i = name then Some i
      else if odd c then None
      else gnu_walk t names name (Suc i))"
  by pat_completeness auto
termination by (relation "measure (\<lambda>(t, names, name, i). length names - i)") auto

declare gnu_walk.simps [simp del]

definition gnu_lookup :: "bytes \<Rightarrow> bytes list \<Rightarrow> bytes \<Rightarrow> nat option" where
  "gnu_lookup t names name =
     (let h = gnu_hash name; shift = unat (table_word_at t 3); bloom = (from_le (window t 16 8) :: u64);
          nb = unat (table_word_at t 0);
          start = unat (table_word_at t (6 + unat h mod nb))
      in if bit bloom (unat h mod 64) \<and> bit bloom (unat (drop_bit shift h) mod 64) \<and> unat (table_word_at t 1) \<le> start
         then gnu_walk t names name start else None)"

section \<open>Chains\<close>

definition first_index :: "bytes list \<Rightarrow> bytes \<Rightarrow> nat option" where
  "first_index names name = find (\<lambda>i. names ! i = name) [1..<length names]"

fun linked :: "u32 list \<Rightarrow> nat list \<Rightarrow> bool" where
  "linked links [] = True"
| "linked links [x] = (links ! x = 0)"
| "linked links (x # y # zs) = (unat (links ! x) = y \<and> linked links (y # zs))"

lemma linked_update: "e \<notin> set xs \<Longrightarrow> linked (links[e := w]) xs = linked links xs"
  by (induction links xs rule: linked.induct) auto

lemma linked_end:
  "linked links xs \<Longrightarrow> xs \<noteq> [] \<Longrightarrow> \<forall>x\<in>set xs. 0 < x \<and> x < length links \<Longrightarrow> chain_end links (hd xs) = Some (Ok (last xs))"
proof (induction links xs rule: linked.induct)
  case (3 links x y zs)
  then have "links ! x \<noteq> 0" by (auto simp: unat_eq_0[symmetric])
  then show ?case using 3 by (subst chain_end.simps) simp
qed (simp_all add: chain_end.simps)

lemma linked_snoc:
  "linked links xs \<Longrightarrow> xs \<noteq> [] \<Longrightarrow> distinct xs \<Longrightarrow> \<forall>x\<in>set xs. x < length links \<Longrightarrow> i < 2 ^ 32 \<Longrightarrow> 0 < i
    \<Longrightarrow> i \<notin> set xs \<Longrightarrow> links ! i = 0 \<Longrightarrow> linked (links[last xs := word_of_nat i]) (xs @ [i])"
proof (induction links xs rule: linked.induct)
  case (2 links x)
  then show ?case by (auto simp: unat_of_nat)
next
  case (3 links x y zs)
  have "x \<noteq> last (y # zs)" using 3(4) by auto
  then show ?case using 3 by simp
qed simp

lemma linked_walk:
  assumes "linked links xs" and "\<And>x. x \<in> set xs \<Longrightarrow> 0 < x \<and> c x = links ! x" and "length xs \<le> f"
  shows "sysv_walk c names name f (if xs = [] then 0 else hd xs) = find (\<lambda>i. names ! i = name) xs"
  using assms
proof (induction links xs arbitrary: f rule: linked.induct)
  case (1 links)
  then show ?case by (cases f) simp_all
next
  case (2 links x)
  then obtain g where "f = Suc g" by (cases f) auto
  then show ?case using 2 by (cases g) auto
next
  case (3 links x y zs)
  then obtain g where g: "f = Suc g" by (cases f) auto
  have "sysv_walk c names name g y = find (\<lambda>i. names ! i = name) (y # zs)"
    using 3(1) [of g] 3(2-4) g by simp
  then show ?case using 3(2,3) g by auto
qed

section \<open>The construction\<close>

definition bucket_of :: "bytes list \<Rightarrow> nat \<Rightarrow> nat" where
  "bucket_of names i = unat (elf_hash (names ! i)) mod length names"

definition members :: "bytes list \<Rightarrow> nat \<Rightarrow> nat \<Rightarrow> nat list" where
  "members names k b = filter (\<lambda>i. bucket_of names i = b) [1..<k]"

definition table_inv :: "bytes list \<Rightarrow> nat \<Rightarrow> u32 list \<times> u32 list \<Rightarrow> bool" where
  "table_inv names k t \<longleftrightarrow> (case t of (buckets, links) \<Rightarrow>
     length buckets = length names \<and> length links = length names \<and> (\<forall>i. k \<le> i \<longrightarrow> i < length names \<longrightarrow> links ! i = 0)
     \<and> (\<forall>b<length names. linked links (members names k b)
          \<and> unat (buckets ! b) = (if members names k b = [] then 0 else hd (members names k b))))"

lemma table_invI:
  assumes "\<And>b. b < length names \<Longrightarrow> linked links (members names k b)
      \<and> unat (buckets ! b) = (if members names k b = [] then 0 else hd (members names k b))"
    and "\<And>i. k \<le> i \<Longrightarrow> i < length names \<Longrightarrow> links ! i = 0"
    and "length buckets = length names" and "length links = length names"
  shows "table_inv names k (buckets, links)"
  using assms unfolding table_inv_def by blast

lemma members_bounds: "x \<in> set (members names k b) \<Longrightarrow> 0 < x \<and> x < k \<and> bucket_of names x = b"
  by (auto simp: members_def)

lemma members_Suc: "0 < k \<Longrightarrow> members names (Suc k) b = (if bucket_of names k = b then members names k b @ [k] else members names k b)"
  by (simp add: members_def)

lemma sysv_insert_inv:
  assumes inv: "table_inv names k t" and k: "0 < k" "k < length names" "length names < 2 ^ 32"
  shows "\<exists>t'. sysv_insert names k t = Some (Ok t') \<and> table_inv names (Suc k) t'"
proof -
  obtain buckets links where t: "t = (buckets, links)" by (cases t)
  let ?b = "bucket_of names k" and ?m = "members names k"
  have bl: "?b < length names" unfolding bucket_of_def using k by (intro mod_less_divisor) linarith
  have len: "length buckets = length names" "length links = length names"
    and zero: "\<And>i. k \<le> i \<Longrightarrow> i < length names \<Longrightarrow> links ! i = 0"
    and lk: "\<And>b. b < length names \<Longrightarrow> linked links (?m b)"
    and bk: "\<And>b. b < length names \<Longrightarrow> unat (buckets ! b) = (if ?m b = [] then 0 else hd (?m b))"
    using inv by (auto simp: table_inv_def t)
  have uk: "unat (word_of_nat k :: u32) = k" using k by (simp add: unat_of_nat)
  have hdpos: "?m b \<noteq> [] \<Longrightarrow> 0 < hd (?m b)" for b using members_bounds [of "hd (?m b)" names k b] by simp
  show ?thesis
  proof (cases "?m ?b = []")
    case True
    then have "buckets ! ?b = 0" using bk [OF bl] by (simp add: unat_eq_0)
    then have ins: "sysv_insert names k t = Some (Ok (buckets[?b := word_of_nat k], links))"
      using k by (simp add: sysv_insert_def t bucket_of_def Let_def)
    have "table_inv names (Suc k) (buckets[?b := word_of_nat k], links)"
    proof (rule table_invI)
      fix b assume b: "b < length names"
      show "linked links (members names (Suc k) b)
        \<and> unat (buckets[?b := word_of_nat k] ! b) = (if members names (Suc k) b = [] then 0 else hd (members names (Suc k) b))"
      proof (cases "b = ?b")
        case b: True
        have "members names (Suc k) b = [k]" unfolding b members_Suc [OF k(1)] using True by simp
        moreover have "buckets[?b := word_of_nat k] ! b = word_of_nat k" unfolding b using bl len by simp
        ultimately show ?thesis using zero [of k] k uk by (simp only: linked.simps) simp
      next
        case False
        then have "members names (Suc k) b = ?m b" using k by (simp add: members_Suc)
        then show ?thesis using False lk [OF b] bk [OF b] by simp
      qed
    qed (use len zero in simp_all)
    then show ?thesis using ins by blast
  next
    case False
    let ?e = "last (?m ?b)"
    have e: "?e \<in> set (?m ?b)" using False by simp
    have bounds: "\<forall>x\<in>set (?m ?b). 0 < x \<and> x < length links" using members_bounds k len by fastforce
    have nz: "buckets ! ?b \<noteq> 0" using bk [OF bl] False hdpos [OF False] by (auto simp: unat_eq_0[symmetric])
    have ins: "sysv_insert names k t = Some (Ok (buckets, links[?e := word_of_nat k]))"
      using nz linked_end [OF lk [OF bl] False bounds] bk [OF bl] False k
      by (simp add: sysv_insert_def t bucket_of_def Let_def)
    have same: "linked (links[?e := word_of_nat k]) (?m ?b @ [k])"
    proof (rule linked_snoc [OF lk [OF bl] False])
      show "distinct (?m ?b)" by (simp add: members_def)
      show "\<forall>x\<in>set (?m ?b). x < length links" using bounds by blast
      show "k \<notin> set (?m ?b)" using members_bounds by blast
      show "links ! k = 0" using zero k(2) by blast
    qed (use k in linarith)+
    have other: "linked (links[?e := word_of_nat k]) (?m b)" if "b < length names" "b \<noteq> ?b" for b
    proof -
      have "?e \<notin> set (?m b)" using members_bounds [OF e] members_bounds [of ?e names k b] that(2) by auto
      then show ?thesis using lk [OF that(1)] linked_update by blast
    qed
    have "table_inv names (Suc k) (buckets, links[?e := word_of_nat k])"
    proof (rule table_invI)
      fix b assume b: "b < length names"
      show "linked (links[?e := word_of_nat k]) (members names (Suc k) b)
        \<and> unat (buckets ! b) = (if members names (Suc k) b = [] then 0 else hd (members names (Suc k) b))"
      proof (cases "b = ?b")
        case b: True
        have "members names (Suc k) b = ?m ?b @ [k]" unfolding b members_Suc [OF k(1)] by simp
        moreover have "unat (buckets ! b) = hd (?m ?b @ [k])" unfolding b bk [OF bl] using False by simp
        ultimately show ?thesis using same by simp
      next
        case nb: False
        then have "members names (Suc k) b = ?m b" using k by (simp add: members_Suc)
        then show ?thesis using other [OF b nb] bk [OF b] by simp
      qed
      fix i assume "Suc k \<le> i" "i < length names"
      then show "links[?e := word_of_nat k] ! i = 0" using zero [of i] members_bounds [OF e] by simp
    qed (use len in simp_all)
    then show ?thesis using ins by blast
  qed
qed

lemma sysv_fold_inv:
  assumes "length names < 2 ^ 32" and "0 < k" and "k \<le> length names"
  shows "\<exists>t. may_fold (sysv_insert names) [1..<k] (replicate (length names) 0, replicate (length names) 0) = Some (Ok t)
    \<and> table_inv names k t"
  using assms(2,3)
proof (induction k)
  case (Suc k)
  show ?case
  proof (cases "k = 0")
    case True
    then show ?thesis by (simp add: table_inv_def members_def)
  next
    case False
    then obtain t where t: "may_fold (sysv_insert names) [1..<k] (replicate (length names) 0, replicate (length names) 0) = Some (Ok t)"
        "table_inv names k t" using Suc by auto
    obtain t' where "sysv_insert names k t = Some (Ok t')" "table_inv names (Suc k) t'"
      using sysv_insert_inv [OF t(2)] False Suc.prems assms(1) by auto
    then show ?thesis using t False by (simp add: may_fold_append)
  qed
qed simp

lemma concat_to_le: "concat (map (to_le 4) ws) = bytes_of ws"
  by (induction ws) simp_all

lemma word_of_table: "k < length ws \<Longrightarrow> table_word_at (bytes_of ws @ rest) k = ws ! k"
  by (simp add: table_word_at_def window_bytes_of from_le_to_le)

lemma find_filter: "(\<And>x. x \<in> set xs \<Longrightarrow> P x \<Longrightarrow> Q x) \<Longrightarrow> find P (filter Q xs) = find P xs"
  by (induction xs) auto

lemma sysv_table:
  assumes "2 \<le> length names" and "length names < 2 ^ 32"
  shows "\<exists>t. build_sysv_hash names = Some (Ok t) \<and> (\<forall>name. sysv_lookup t names name = first_index names name)"
proof -
  let ?n = "length names"
  obtain buckets links where run: "may_fold (sysv_insert names) [1..<?n] (replicate ?n 0, replicate ?n 0) = Some (Ok (buckets, links))"
      and inv: "table_inv names ?n (buckets, links)"
    using sysv_fold_inv [of names ?n] assms by fastforce
  let ?ws = "[word_of_nat ?n, word_of_nat ?n] @ buckets @ links"
  have un: "unat (word_of_nat ?n :: u32) = ?n" using assms(2) by (simp add: unat_of_nat)
  have len: "length buckets = ?n" "length links = ?n" using inv by (simp_all add: table_inv_def)
  have t: "build_sysv_hash names = Some (Ok (bytes_of ?ws))"
    using assms run by (simp add: build_sysv_hash_def concat_to_le bytes_of_append)
  have w: "table_word_at (bytes_of ?ws) k = ?ws ! k" if "k < 2 + 2 * ?n" for k
    using word_of_table [of k ?ws "[]"] that len by simp
  have w01: "table_word_at (bytes_of ?ws) 0 = word_of_nat ?n" "table_word_at (bytes_of ?ws) 1 = word_of_nat ?n"
    using w [of 0] w [of 1] assms by simp_all
  have wb: "table_word_at (bytes_of ?ws) (2 + b) = buckets ! b" if "b < ?n" for b
    using w [of "2 + b"] that len by (simp add: nth_append)
  have wl: "table_word_at (bytes_of ?ws) (2 + ?n + i) = links ! i" if "i < ?n" for i
    using w [of "2 + ?n + i"] that len by (simp add: nth_append)
  have "sysv_lookup (bytes_of ?ws) names name = first_index names name" for name
  proof -
    let ?b = "unat (elf_hash name) mod ?n"
    let ?m = "members names ?n ?b"
    have b: "?b < ?n" using assms(1) by (intro mod_less_divisor) linarith
    have lk: "linked links ?m" "unat (buckets ! ?b) = (if ?m = [] then 0 else hd ?m)"
      using inv b by (auto simp: table_inv_def)
    have le: "length ?m \<le> ?n" unfolding members_def using length_filter_le [of _ "[1..<?n]"] by (rule le_trans) simp
    have "sysv_walk (\<lambda>i. table_word_at (bytes_of ?ws) (2 + ?n + i)) names name ?n (if ?m = [] then 0 else hd ?m)
        = find (\<lambda>i. names ! i = name) ?m"
    proof (rule linked_walk [OF lk(1)])
      fix x assume "x \<in> set ?m"
      then have "0 < x" "x < ?n" using members_bounds by blast+
      then show "0 < x \<and> table_word_at (bytes_of ?ws) (2 + ?n + x) = links ! x" using wl by simp
    qed (rule le)
    also have "\<dots> = first_index names name"
      unfolding members_def first_index_def by (rule find_filter) (simp add: bucket_of_def)
    finally show ?thesis unfolding sysv_lookup_def Let_def w01 un wb [OF b] lk(2) .
  qed
  then show ?thesis using t by blast
qed


section \<open>The GNU table\<close>

lemma and_63: "unat ((h :: u32) AND 63) = unat h mod 64"
proof -
  have "h AND 63 = take_bit 6 h" by (simp add: take_bit_eq_mask mask_eq_exp_minus_1)
  then show ?thesis by (simp only: unsigned_take_bit_eq) (simp add: take_bit_eq_mod)
qed

lemma bloom_bits_mono: "bit bloom i \<Longrightarrow> bit (foldl bloom_bits bloom hs) i"
  by (induction hs arbitrary: bloom) (simp_all add: bloom_bits_def bit_or_iff)

lemma bloom_bits_set:
  "h \<in> set hs \<Longrightarrow> bit (foldl bloom_bits bloom hs) (unat h mod 64) \<and> bit (foldl bloom_bits bloom hs) (unat (drop_bit 5 h) mod 64)"
proof (induction hs arbitrary: bloom)
  case (Cons k hs)
  have "bit (bloom_bits bloom h) (unat h mod 64)" "bit (bloom_bits bloom h) (unat (drop_bit 5 h) mod 64)"
    by (simp_all add: bloom_bits_def bit_or_iff bit_push_bit_iff bit_exp_iff and_63)
  then show ?case using Cons bloom_bits_mono by auto
qed simp

definition gnu_links :: "bytes list \<Rightarrow> u32 list" where
  "gnu_links names = (let l = map (\<lambda>h. h AND NOT 1) (map gnu_hash (drop 1 names)) in butlast l @ [last l OR 1])"

lemma or_1_cancel: "(h AND NOT 1) OR 1 = (h OR 1 :: u32)" "((h AND NOT 1) OR 1) OR 1 = (h OR 1 :: u32)"
  by (rule bit_word_eqI, auto simp: bit_simps)+

lemma odd_or_1: "\<not> odd (h AND NOT 1 :: u32)" "odd (h OR 1 :: u32)"
  by (simp_all add: even_and_iff even_or_iff)

lemma gnu_link:
  assumes "1 \<le> i" and "i < length names"
  shows "gnu_links names ! (i - 1) OR 1 = gnu_hash (names ! i) OR 1"
    and "odd (gnu_links names ! (i - 1)) \<longleftrightarrow> Suc i = length names"
proof -
  let ?l = "map (\<lambda>h. h AND NOT 1) (map gnu_hash (drop 1 names))"
  have l: "length ?l = length names - 1" "?l ! (i - 1) = gnu_hash (names ! i) AND NOT 1"
    using assms by simp_all
  have ne: "?l \<noteq> []" using assms by auto
  have e: "gnu_links names ! (i - 1) = (if Suc i = length names then ?l ! (i - 1) OR 1 else ?l ! (i - 1))"
  proof (cases "Suc i = length names")
    case True
    then have i: "i - 1 = length (butlast ?l)" "length ?l - 1 = i - 1" using assms l(1) by simp_all
    have "last ?l = ?l ! (i - 1)" using last_conv_nth [OF ne] unfolding i(2) .
    note i = i(1) this
    then show ?thesis using True i unfolding gnu_links_def Let_def by (metis nth_append_length)
  next
    case False
    then have "i - 1 < length (butlast ?l)" using assms l(1) by simp
    then show ?thesis using False unfolding gnu_links_def Let_def by (simp add: nth_append nth_butlast del: map_map)
  qed
  show "gnu_links names ! (i - 1) OR 1 = gnu_hash (names ! i) OR 1" unfolding e l by (simp only: or_1_cancel if_cancel split: if_split) simp
  show "odd (gnu_links names ! (i - 1)) \<longleftrightarrow> Suc i = length names" unfolding e l by (simp only: odd_or_1 split: if_split) simp
qed

lemma gnu_table:
  assumes "2 \<le> length names"
  shows "\<exists>t. build_gnu_hash names = Ok t \<and> (\<forall>name. gnu_lookup t names name = first_index names name)"
proof -
  let ?hs = "map gnu_hash (drop 1 names)"
  let ?bloom = "foldl bloom_bits 0 ?hs"
  define t where "t = bytes_of [1, 1, 1, 5] @ to_le 8 ?bloom @ bytes_of (1 # gnu_links names)"
  have ne: "?hs \<noteq> []" using assms by simp
  have ok: "build_gnu_hash names = Ok t"
    using ne by (simp add: t_def build_gnu_hash_def concat_to_le gnu_links_def Let_def bytes_of_append del: map_map)
  have len: "length (gnu_links names) = length names - 1" using assms by (simp add: gnu_links_def Let_def)
  have w: "table_word_at t 0 = 1" "table_word_at t 1 = 1" "table_word_at t 3 = 5"
    using word_of_table [of _ "[1, 1, 1, 5]" "to_le 8 ?bloom @ bytes_of (1 # gnu_links names)"]
    by (simp_all add: t_def del: bytes_of.simps)
  have b: "from_le (window t 16 8) = ?bloom"
    using window_pre [of "bytes_of [1, 1, 1, 5]" "to_le 8 ?bloom @ bytes_of (1 # gnu_links names)" 0 8]
    by (simp add: t_def window_def from_le_to_le)
  have hi: "table_word_at t (6 + k) = (1 # gnu_links names) ! k" if "k < length names" for k
  proof -
    have "window t (length (bytes_of [1, 1, 1, 5] @ to_le 8 ?bloom) + 4 * k) 4 = window (bytes_of (1 # gnu_links names)) (4 * k) 4"
      unfolding t_def append_assoc [symmetric] by (rule window_pre)
    moreover have "length (bytes_of [1, 1, 1, 5] @ to_le 8 ?bloom) + 4 * k = 4 * (6 + k)" by simp
    ultimately have "table_word_at t (6 + k) = table_word_at (bytes_of (1 # gnu_links names)) k"
      by (simp only: table_word_at_def)
    then show ?thesis using word_of_table [of k "1 # gnu_links names" "[]"] len that by simp
  qed
  have walk: "gnu_walk t names name i = find (\<lambda>j. names ! j = name) [i..<length names]" if "1 \<le> i" for name i
    using that
  proof (induction "length names - i" arbitrary: i)
    case 0
    then show ?case by (subst gnu_walk.simps) simp
  next
    case (Suc n)
    then have i: "i < length names" by simp
    have c: "table_word_at t (7 + (i - unat (table_word_at t 1))) = gnu_links names ! (i - 1)"
    proof -
      have "7 + (i - unat (1 :: u32)) = 6 + Suc (i - 1)" by simp
      then show ?thesis using hi [of "Suc (i - 1)"] i Suc.prems by (simp only: w) simp
    qed
    have "[i..<length names] = i # [Suc i..<length names]" using i by (simp add: upt_conv_Cons)
    then show ?case
      using Suc.hyps(1) [of "Suc i"] Suc.hyps(2) Suc.prems i gnu_link [OF Suc.prems i]
      unfolding gnu_walk.simps [of t names name i] Let_def c by auto
  qed
  have "gnu_lookup t names name = first_index names name" for name
  proof (cases "name \<in> set (drop 1 names)")
    case True
    then have "gnu_hash name \<in> set ?hs" by simp
    note bits = bloom_bits_set [OF this, of 0]
    have s: "table_word_at t (6 + unat (gnu_hash name) mod 1) = 1"
    proof -
      have "0 < length names" using assms by linarith
      from hi [OF this] show ?thesis by (simp del: One_nat_def)
    qed
    show ?thesis
      unfolding gnu_lookup_def Let_def w b using bits walk [of 1] s by (simp add: first_index_def)
  next
    case False
    have none: "first_index names name = None"
      unfolding first_index_def find_None_iff
    proof (rule notI)
      assume "\<exists>i. i \<in> set [1..<length names] \<and> names ! i = name"
      then obtain i where i: "1 \<le> i" "i < length names" "names ! i = name" by auto
      then have "drop 1 names ! (i - 1) = name" "i - 1 < length (drop 1 names)" by simp_all
      then have "name \<in> set (drop 1 names)" by (metis nth_mem)
      then show False using False by contradiction
    qed
    have s: "table_word_at t (6 + unat (gnu_hash name) mod 1) = 1"
    proof -
      have "0 < length names" using assms by linarith
      from hi [OF this] show ?thesis by (simp del: One_nat_def)
    qed
    show ?thesis
      unfolding gnu_lookup_def Let_def w b using walk [of 1] s none by (simp add: first_index_def)
  qed
  then show ?thesis using ok by blast
qed


section \<open>The interface of a symbol hash section\<close>

text \<open>What a dynamic linker relies on: the section can be built and its reader finds the first symbol of
  every name. The null symbol at index 0 is never found.\<close>

locale symbol_hash =
  fixes build :: "bytes list \<Rightarrow> bytes may" and lookup :: "bytes \<Rightarrow> bytes list \<Rightarrow> bytes \<Rightarrow> nat option"
  assumes first: "2 \<le> length names \<Longrightarrow> length names < 2 ^ 32 \<Longrightarrow>
    \<exists>t. build names = Some (Ok t) \<and> (\<forall>name. lookup t names name = first_index names name)"
begin

lemma finds:
  assumes "2 \<le> length names" and "length names < 2 ^ 32"
  shows "\<exists>t. build names = Some (Ok t)
    \<and> (\<forall>i name. lookup t names name = Some i \<longleftrightarrow>
         0 < i \<and> i < length names \<and> names ! i = name \<and> (\<forall>j. 0 < j \<and> j < i \<longrightarrow> names ! j \<noteq> name))"
proof -
  have f: "first_index names name = Some i \<longleftrightarrow>
      0 < i \<and> i < length names \<and> names ! i = name \<and> (\<forall>j. 0 < j \<and> j < i \<longrightarrow> names ! j \<noteq> name)" for i name
  proof -
    have "find P [1..<n] = Some i \<longleftrightarrow> 0 < i \<and> i < n \<and> P i \<and> (\<forall>j. 0 < j \<and> j < i \<longrightarrow> \<not> P j)" for P n
    proof (induction n)
      case (Suc n)
      have "find P (xs @ [x]) = (case find P xs of Some y \<Rightarrow> Some y | None \<Rightarrow> if P x then Some x else None)" for xs and x :: nat
        by (induction xs) auto
      moreover have "find P [1..<n] = None \<longleftrightarrow> (\<forall>j. 0 < j \<and> j < n \<longrightarrow> \<not> P j)"
        by (auto simp: find_None_iff)
      ultimately show ?case using Suc by (auto simp: less_Suc_eq split: option.splits)
    qed simp
    then show ?thesis unfolding first_index_def by simp
  qed
  obtain t where "build names = Some (Ok t)" "\<And>name. lookup t names name = first_index names name"
    using first [OF assms] by blast
  then show ?thesis by (intro exI [of _ t]) (simp add: f)
qed

end

interpretation sysv: symbol_hash build_sysv_hash sysv_lookup
  by unfold_locales (rule sysv_table)

interpretation gnu: symbol_hash "\<lambda>names. Some (build_gnu_hash names)" gnu_lookup
  by unfold_locales (use gnu_table in fastforce)

text \<open>For every symbol table the SysV hash section is built, whatever the names and their collisions, and the
  reader of the ELF specification finds exactly the first symbol of every name in it.\<close>

theorem sysv_hash_finds:
  assumes "2 \<le> length names" and "length names < 2 ^ 32"
  shows "\<exists>t. build_sysv_hash names = Some (Ok t)
    \<and> (\<forall>i name. sysv_lookup t names name = Some i \<longleftrightarrow>
         0 < i \<and> i < length names \<and> names ! i = name \<and> (\<forall>j. 0 < j \<and> j < i \<longrightarrow> names ! j \<noteq> name))"
  by (rule sysv.finds [OF assms])

theorem sysv_hash_finds_witness:
  "\<exists>t. build_sysv_hash [[], [97], [98], [97]] = Some (Ok t) \<and> sysv_lookup t [[], [97], [98], [97]] [97] = Some 1"
  using sysv_hash_finds [of "[[], [97], [98], [97]]"] by auto

text \<open>C15. The GNU hash section with its single bucket and its Bloom filter word is read back the same way: the
  filter never hides a symbol, and the reader finds exactly the first symbol of every name.\<close>

theorem gnu_hash_finds:
  assumes "2 \<le> length names" and "length names < 2 ^ 32"
  shows "\<exists>t. build_gnu_hash names = Ok t
    \<and> (\<forall>i name. gnu_lookup t names name = Some i \<longleftrightarrow>
         0 < i \<and> i < length names \<and> names ! i = name \<and> (\<forall>j. 0 < j \<and> j < i \<longrightarrow> names ! j \<noteq> name))"
  using gnu.finds [OF assms] by simp

theorem gnu_hash_finds_witness:
  "\<exists>t. build_gnu_hash [[], [97], [98], [97]] = Ok t \<and> gnu_lookup t [[], [97], [98], [97]] [98] = Some 2"
  using gnu_hash_finds [of "[[], [97], [98], [97]]"] by (auto simp: less_Suc_eq)

end
