(* ===== verification/Readers.thy ===== *)
theory Readers
  imports Prelude
begin

unbundle bit_operations_syntax

text \<open>
  The bounds-checked accessors that the ELF and metadata crates repeat: a checked slice, little-endian
  reads on it, checked table indices, the conversions that cannot fail with a 64-bit \<open>usize\<close>, alignment,
  and the standard library's check of a UTF-8 byte string.
\<close>

section \<open>Slices and reads\<close>

definition checked_slice :: "bytes \<Rightarrow> nat \<Rightarrow> nat \<Rightarrow> (bytes, err) res" where
  "checked_slice data off n =
     rbind (ok_or ''byte range overflow'' (chk_add off n)) (\<lambda>stop.
       ok_or ''byte range is out of bounds'' (get_range data off n))"

definition read_le :: "nat \<Rightarrow> bytes \<Rightarrow> nat \<Rightarrow> ('a::len word, err) res" where
  "read_le n data off = rbind (checked_slice data off n) (\<lambda>b. Ok (from_le b))"

definition checked_index :: "nat \<Rightarrow> nat \<Rightarrow> nat \<Rightarrow> (nat, err) res" where
  "checked_index base index stride =
     ok_or ''table index overflow'' (Option.bind (chk_mul index stride) (\<lambda>v. chk_add base v))"

text \<open>\<open>data.get_mut(a..b).ok_or(e)?.copy_from_slice(bs)\<close>.\<close>

definition put_or :: "err \<Rightarrow> bytes \<Rightarrow> nat \<Rightarrow> bytes \<Rightarrow> (bytes, err) res" where
  "put_or e xs off bs = (if off + length bs \<le> length xs then Ok (patch xs off bs) else Err e)"

definition is_power_of_two :: "'a::len word \<Rightarrow> bool" where
  "is_power_of_two w \<longleftrightarrow> w \<noteq> 0 \<and> w AND (w - 1) = 0"

lemma checked_slice_Ok_conv [res_conv]:
  "checked_slice data off n = Ok b \<longleftrightarrow> off + n \<le> length data \<and> off + n < usize_limit \<and> b = window data off n"
  by (auto simp: checked_slice_def res_conv)

lemma read_le_Ok_conv [res_conv]:
  "read_le n data off = Ok w \<longleftrightarrow> off + n \<le> length data \<and> off + n < usize_limit \<and> w = from_le (window data off n)"
  by (auto simp: read_le_def res_conv)

lemma checked_index_Ok_conv [res_conv]:
  "checked_index base i stride = Ok k \<longleftrightarrow> k = base + i * stride \<and> base + i * stride < usize_limit"
  by (auto simp: checked_index_def res_conv bind_eq_Some_conv)

lemma put_or_Ok_conv [res_conv]:
  "put_or e xs off bs = Ok ys \<longleftrightarrow> off + length bs \<le> length xs \<and> ys = patch xs off bs"
  by (auto simp: put_or_def)

named_theorems reads \<open>accessors inside their buffer\<close>

lemma checked_slice_in [reads]:
  "off + n \<le> length data \<Longrightarrow> off + n < usize_limit \<Longrightarrow> checked_slice data off n = Ok (window data off n)"
  by (simp add: res_conv)

lemma read_le_in [reads]:
  "off + n \<le> length data \<Longrightarrow> off + n < usize_limit \<Longrightarrow> read_le n data off = Ok (from_le (window data off n))"
  by (simp add: res_conv)

lemma checked_index_in [reads]:
  "base + i * stride < usize_limit \<Longrightarrow> checked_index base i stride = Ok (base + i * stride)"
  by (simp add: res_conv)

lemma put_or_in [reads]: "off + length bs \<le> length xs \<Longrightarrow> put_or e xs off bs = Ok (patch xs off bs)"
  by (simp add: put_or_def)

lemma checked_no_panic [simp]:
  "checked_slice data off n \<noteq> Panic" "read_le n data off \<noteq> Panic" "checked_index base i stride \<noteq> Panic"
  "put_or e xs off bs \<noteq> Panic"
  by (simp_all add: checked_slice_def read_le_def checked_index_def put_or_def rbind_Panic_conv)

section \<open>UTF-8\<close>

text \<open>\<open>std::str::from_utf8\<close>: the well-formed byte sequences of Unicode, table 3-7.\<close>

definition cont :: "u8 \<Rightarrow> bool" where
  "cont b \<longleftrightarrow> 0x80 \<le> b \<and> b \<le> 0xbf"

fun utf8_valid :: "bytes \<Rightarrow> bool" where
  "utf8_valid [] = True"
| "utf8_valid (a # bs) =
     (if a < 0x80 then utf8_valid bs
      else if 0xc2 \<le> a \<and> a \<le> 0xdf then
        (case bs of b # cs \<Rightarrow> cont b \<and> utf8_valid cs | _ \<Rightarrow> False)
      else if 0xe0 \<le> a \<and> a \<le> 0xef then
        (case bs of b # c # ds \<Rightarrow> cont b \<and> cont c \<and> (a = 0xe0 \<longrightarrow> 0xa0 \<le> b) \<and> (a = 0xed \<longrightarrow> b \<le> 0x9f) \<and> utf8_valid ds
         | _ \<Rightarrow> False)
      else if 0xf0 \<le> a \<and> a \<le> 0xf4 then
        (case bs of b # c # d # es \<Rightarrow> cont b \<and> cont c \<and> cont d \<and> (a = 0xf0 \<longrightarrow> 0x90 \<le> b) \<and> (a = 0xf4 \<longrightarrow> b \<le> 0x8f)
             \<and> utf8_valid es
         | _ \<Rightarrow> False)
      else False)"

end
