(* ===== verification/ElfLayout.thy ===== *)
theory ElfLayout
  imports Readers
begin

unbundle bit_operations_syntax

text \<open>
  \<^verbatim>\<open>senbei-elf/src/layout.rs\<close> and the prefix check of \<^verbatim>\<open>lib.rs\<close>: the ELF64 layout (load segments and
  section headers), its parser, address translation, and the installation of one more load segment
  into the program header table of an output buffer.

  A write through \<open>&mut [u8]\<close> returns the changed buffer; on an error the buffer is not returned, since
  every caller drops it.
\<close>

section \<open>Records\<close>

definition SHT_NOBITS :: u32 where "SHT_NOBITS = 8"
definition SHT_STRTAB :: u32 where "SHT_STRTAB = 3"
definition SHT_LOUSER :: u32 where "SHT_LOUSER = 0x80000000"
definition PT_LOAD :: u32 where "PT_LOAD = 1"
definition PT_NOTE :: u32 where "PT_NOTE = 4"
definition PT_PHDR :: u32 where "PT_PHDR = 6"
definition AARCH64_MACHINE :: u16 where "AARCH64_MACHINE = 183"

record load_segment =
  p_offset :: u64
  p_vaddr :: u64
  p_filesz :: u64
  p_memsz :: u64
  p_flags :: u32
  p_align :: u64

record section_header =
  sh_name :: u32
  sh_type :: u32
  sh_flags :: u64
  sh_addr :: u64
  sh_offset :: u64
  sh_size :: u64
  sh_link :: u32
  sh_info :: u32
  sh_addralign :: u64
  sh_entsize :: u64

record elf_layout =
  entrypoint :: u64
  program_header_offset :: nat
  program_header_size :: nat
  program_header_count :: nat
  program_headers :: "load_segment list"
  section_headers :: "section_header list"
  section_name_index :: nat
  private_section_index :: nat

text \<open>\<open>usize_from_u64\<close> cannot fail with a 64-bit \<open>usize\<close>.\<close>

definition usize_from_u64 :: "u64 \<Rightarrow> (nat, err) res" where
  "usize_from_u64 v = Ok (unat v)"

definition slice_u64 :: "bytes \<Rightarrow> u64 \<Rightarrow> u64 \<Rightarrow> (bytes, err) res" where
  "slice_u64 data off sz =
     rbind (usize_from_u64 off) (\<lambda>o'. rbind (usize_from_u64 sz) (\<lambda>s'. checked_slice data o' s'))"

definition align_up64 :: "u64 \<Rightarrow> u64 \<Rightarrow> (u64, err) res" where
  "align_up64 v a =
     (if \<not> is_power_of_two a then Err ''invalid alignment''
      else rbind (ok_or ''alignment overflow'' (chk_add_w v (a - 1))) (\<lambda>w. Ok (w AND NOT (a - 1))))"

definition is_aarch64_prefix :: "bytes \<Rightarrow> bool" where
  "is_aarch64_prefix data \<longleftrightarrow> get_range data 0 6 = Some [0x7f, 0x45, 0x4c, 0x46, 2, 1]
     \<and> (case get_range data 18 2 of None \<Rightarrow> False | Some b \<Rightarrow> from_le b = AARCH64_MACHINE)"

section \<open>Section headers\<close>

definition parse_section :: "bytes \<Rightarrow> nat \<Rightarrow> (section_header, err) res" where
  "parse_section data off =
     rbind (read_le 4 data off) (\<lambda>name. rbind (read_le 4 data (off + 4)) (\<lambda>ty.
     rbind (read_le 8 data (off + 8)) (\<lambda>fl. rbind (read_le 8 data (off + 0x10)) (\<lambda>ad.
     rbind (read_le 8 data (off + 0x18)) (\<lambda>of'. rbind (read_le 8 data (off + 0x20)) (\<lambda>sz.
     rbind (read_le 4 data (off + 0x28)) (\<lambda>li. rbind (read_le 4 data (off + 0x2c)) (\<lambda>inf.
     rbind (read_le 8 data (off + 0x30)) (\<lambda>al. rbind (read_le 8 data (off + 0x38)) (\<lambda>es.
       Ok \<lparr>sh_name = name, sh_type = ty, sh_flags = fl, sh_addr = ad, sh_offset = of', sh_size = sz,
           sh_link = li, sh_info = inf, sh_addralign = al, sh_entsize = es\<rparr>))))))))))"

definition encode_section :: "section_header \<Rightarrow> bytes" where
  "encode_section s =
     to_le 4 (sh_name s) @ to_le 4 (sh_type s) @ to_le 8 (sh_flags s) @ to_le 8 (sh_addr s)
     @ to_le 8 (sh_offset s) @ to_le 8 (sh_size s) @ to_le 4 (sh_link s) @ to_le 4 (sh_info s)
     @ to_le 8 (sh_addralign s) @ to_le 8 (sh_entsize s)"

section \<open>Section names\<close>

text \<open>The name at an offset of the string table: up to the next NUL.\<close>

definition name_at :: "bytes \<Rightarrow> nat \<Rightarrow> (bytes, err) res" where
  "name_at strings off =
     (if length strings \<le> off then Err ''name offset exceeds section-name table''
      else if 0 \<notin> set (drop off strings) then Err ''name is unterminated''
      else let name = takeWhile (\<lambda>b. b \<noteq> 0) (drop off strings) in
        if utf8_valid name then Ok name else Err ''name is not UTF-8'')"

definition section_name :: "bytes \<Rightarrow> nat \<times> section_header \<Rightarrow> (bytes, err) res" where
  "section_name strings e =
     rbind (name_at strings (unat (sh_name (snd e)))) (\<lambda>name.
       if fst e = 0 \<and> sh_name (snd e) \<noteq> 0 then Err ''ELF null section has a nonzero name offset'' else Ok name)"

definition section_names :: "elf_layout \<Rightarrow> bytes \<Rightarrow> (bytes list, err) res" where
  "section_names l data =
     (if length (section_headers l) \<le> section_name_index l then Err ''ELF section-name index is out of range''
      else
      let table = section_headers l ! section_name_index l in
      if sh_type table \<noteq> SHT_STRTAB then Err ''ELF section-name table has unexpected type''
      else
      rbind (slice_u64 data (sh_offset table) (sh_size table)) (\<lambda>strings.
        if strings = [] \<or> hd strings \<noteq> 0 then Err ''ELF section-name table does not start with NUL''
        else if last strings \<noteq> 0 then Err ''ELF section-name table is not NUL terminated''
        else mapM (section_name strings) (enumerate 0 (section_headers l))))"

section \<open>The parser\<close>

definition parse_load :: "bytes \<Rightarrow> nat \<Rightarrow> (load_segment, err) res" where
  "parse_load data off =
     rbind (read_le 4 data (off + 4)) (\<lambda>fl. rbind (read_le 8 data (off + 8)) (\<lambda>of'.
     rbind (read_le 8 data (off + 0x10)) (\<lambda>va. rbind (read_le 8 data (off + 0x20)) (\<lambda>fs.
     rbind (read_le 8 data (off + 0x28)) (\<lambda>ms. rbind (read_le 8 data (off + 0x30)) (\<lambda>al.
     rbind (ok_or ''PT_LOAD file range overflow'' (chk_add_w of' fs)) (\<lambda>file_end.
       if length data < unat file_end then Err ''PT_LOAD exceeds input file''
       else Ok \<lparr>p_offset = of', p_vaddr = va, p_filesz = fs, p_memsz = ms, p_flags = fl, p_align = al\<rparr>)))))))"

text \<open>The entry of the table at \<open>index\<close>: \<open>None\<close> for one that is not a load segment.\<close>

definition parse_phdr :: "bytes \<Rightarrow> nat \<Rightarrow> nat \<Rightarrow> nat \<Rightarrow> (load_segment option, err) res" where
  "parse_phdr data base sz index =
     rbind (checked_index base index sz) (\<lambda>off.
     rbind (read_le 4 data off) (\<lambda>ty.
       if ty \<noteq> PT_LOAD then Ok None else rbind (parse_load data off) (\<lambda>s. Ok (Some s))))"

definition somes :: "'a option list \<Rightarrow> 'a list" where
  "somes xs = map the (filter (\<lambda>x. x \<noteq> None) xs)"

definition find_private :: "bool \<Rightarrow> section_header list \<Rightarrow> (nat, err) res" where
  "find_private require_private shs =
     (case map fst (filter (\<lambda>e. sh_type (snd e) = SHT_LOUSER) (enumerate 0 shs)) of
        [index] \<Rightarrow> Ok index
      | [] \<Rightarrow> if require_private then Err ''unexpected number of SHT_LOUSER sections'' else Ok (usize_limit - 1)
      | _ \<Rightarrow> Err ''unexpected number of SHT_LOUSER sections'')"

definition parse_layout :: "bytes \<Rightarrow> bool \<Rightarrow> (elf_layout, err) res" where
  "parse_layout data require_private =
     rbind (checked_slice data 0 6) (\<lambda>ident.
       if ident \<noteq> [0x7f, 0x45, 0x4c, 0x46, 2, 1] then Err ''input is not a little-endian ELF64 file''
       else
     rbind (read_le 2 data 0x12) (\<lambda>machine.
       if machine \<noteq> AARCH64_MACHINE then Err ''input is not an AArch64 ELF''
       else
     rbind (read_le 8 data 0x18) (\<lambda>ep.
     rbind (rbind (read_le 8 data 0x20) usize_from_u64) (\<lambda>pho.
     rbind (rbind (read_le 8 data 0x28) usize_from_u64) (\<lambda>sho.
     rbind (read_le 2 data 0x36) (\<lambda>phs. rbind (read_le 2 data 0x38) (\<lambda>phc.
     rbind (read_le 2 data 0x3a) (\<lambda>shs. rbind (read_le 2 data 0x3c) (\<lambda>shc.
     rbind (read_le 2 data 0x3e) (\<lambda>sni.
       if phs \<noteq> (0x38 :: u16) \<or> shs \<noteq> (0x40 :: u16) then Err ''unexpected ELF program/section header size''
       else
     rbind (mapM (parse_phdr data pho (unat phs)) [0..<unat (phc :: u16)]) (\<lambda>entries.
       if somes entries = [] then Err ''input ELF contains no PT_LOAD segments''
       else
     rbind (mapM (\<lambda>index. rbind (checked_index sho index (unat shs)) (parse_section data)) [0..<unat (shc :: u16)]) (\<lambda>shds.
       if length shds \<le> unat (sni :: u16) then Err ''ELF section-name index is out of range''
       else
     rbind (find_private require_private shds) (\<lambda>private.
     let layout = \<lparr>entrypoint = ep, program_header_offset = pho, program_header_size = unat phs,
           program_header_count = unat phc, program_headers = somes entries, section_headers = shds,
           section_name_index = unat sni, private_section_index = private\<rparr> in
     rbind (section_names layout data) (\<lambda>_. Ok layout))))))))))))))"

section \<open>Queries\<close>

definition private_section :: "elf_layout \<Rightarrow> (section_header, err) res" where
  "private_section l =
     (if private_section_index l < length (section_headers l) then Ok (section_headers l ! private_section_index l)
      else Err ''ELF has no private section'')"

definition max_of :: "err \<Rightarrow> u64 list \<Rightarrow> (u64, err) res" where
  "max_of e xs = (if xs = [] then Err e else Ok (Max (set xs)))"

definition load_end :: "elf_layout \<Rightarrow> (u64, err) res" where
  "load_end l =
     rbind (mapM (\<lambda>s. ok_or ''PT_LOAD memory end overflow'' (chk_add_w (p_vaddr s) (p_memsz s))) (program_headers l))
       (max_of ''ELF has no PT_LOAD memory range'')"

definition file_load_end :: "elf_layout \<Rightarrow> (u64, err) res" where
  "file_load_end l =
     rbind (mapM (\<lambda>s. ok_or ''PT_LOAD file end overflow'' (chk_add_w (p_offset s) (p_filesz s))) (program_headers l))
       (max_of ''ELF has no PT_LOAD file range'')"

definition load_alignment :: "elf_layout \<Rightarrow> (u64, err) res" where
  "load_alignment l =
     rbind (max_of ''ELF has no PT_LOAD alignment'' (map p_align (program_headers l))) (\<lambda>a.
       if \<not> is_power_of_two a then Err ''invalid PT_LOAD alignment'' else Ok a)"

fun translate :: "load_segment list \<Rightarrow> u64 \<Rightarrow> u64 \<Rightarrow> (u64, err) res" where
  "translate [] off stop = Err ''file range is not in PT_LOAD''"
| "translate (s # ss) off stop =
     rbind (ok_or ''PT_LOAD file range overflow'' (chk_add_w (p_offset s) (p_filesz s))) (\<lambda>segment_end.
       if p_offset s \<le> off \<and> stop \<le> segment_end
       then ok_or ''virtual address overflow'' (chk_add_w (p_vaddr s) (off - p_offset s))
       else translate ss off stop)"

definition file_offset_to_virtual_address :: "elf_layout \<Rightarrow> u64 \<Rightarrow> u64 \<Rightarrow> (u64, err) res" where
  "file_offset_to_virtual_address l off sz =
     rbind (ok_or ''file range overflow'' (chk_add_w off sz)) (\<lambda>stop. translate (program_headers l) off stop)"

end
