(* ===== verification/ElfAppend.thy ===== *)
theory ElfAppend
  imports ElfLayout
begin

unbundle bit_operations_syntax

text \<open>
  \<^verbatim>\<open>senbei-elf/src/layout.rs\<close>, \<open>append_load_segment\<close> and what it uses: the reservation for a relocated
  program header table, the search for a redundant note header, the encoding of the new header and
  the update of PT_PHDR.
\<close>

definition header_reservation :: "elf_layout \<Rightarrow> (nat, err) res" where
  "header_reservation l =
     (if program_header_size l \<noteq> 0x38 then Err ''unexpected ELF program header size''
      else
      rbind (ok_or ''program header count overflow'' (chk_add (program_header_count l) 1)) (\<lambda>new_count.
      rbind (checked_index (program_header_offset l) (program_header_count l) (program_header_size l)) (\<lambda>off.
      rbind (ok_or ''new program header range overflow'' (chk_add off (program_header_size l))) (\<lambda>stop.
        let file_offsets = map sh_offset (filter (\<lambda>s. sh_type s \<noteq> SHT_NOBITS \<and> sh_size s \<noteq> 0) (section_headers l)) in
        if file_offsets = [] \<or> stop \<le> unat (Min (set file_offsets)) then Ok 0
        else ok_or ''relocated program header size overflow'' (chk_mul new_count (program_header_size l))))))"

fun has_header_type :: "elf_layout \<Rightarrow> bytes \<Rightarrow> u32 \<Rightarrow> nat list \<Rightarrow> (bool, err) res" where
  "has_header_type l data ty [] = Ok False"
| "has_header_type l data ty (i # is) =
     rbind (checked_index (program_header_offset l) i (program_header_size l)) (\<lambda>off.
     rbind (read_le 4 data off) (\<lambda>t. if t = ty then Ok True else has_header_type l data ty is))"

definition has_program_header_type :: "elf_layout \<Rightarrow> bytes \<Rightarrow> u32 \<Rightarrow> (bool, err) res" where
  "has_program_header_type l data ty = has_header_type l data ty [0..<program_header_count l]"

definition in_segment :: "u64 \<Rightarrow> u64 \<Rightarrow> load_segment \<Rightarrow> bool" where
  "in_segment off stop s \<longleftrightarrow> (case chk_add_w (p_offset s) (p_filesz s) of
     None \<Rightarrow> False | Some segment_end \<Rightarrow> p_offset s \<le> off \<and> stop \<le> segment_end)"

definition note_step :: "elf_layout \<Rightarrow> bytes \<Rightarrow> nat \<Rightarrow> nat \<times> (u64 \<times> nat) list \<Rightarrow> (nat \<times> (u64 \<times> nat) list, err) res" where
  "note_step l data i st =
     rbind (checked_index (program_header_offset l) i (program_header_size l)) (\<lambda>off.
     rbind (read_le 4 data off) (\<lambda>t.
       if t \<noteq> PT_NOTE then Ok st
       else
       rbind (read_le 8 data (off + 8)) (\<lambda>fo. rbind (read_le 8 data (off + 0x20)) (\<lambda>fs.
       rbind (ok_or ''PT_NOTE file range overflow'' (chk_add_w fo fs)) (\<lambda>stop.
         Ok (fst st + 1, if \<exists>s\<in>set (program_headers l). in_segment fo stop s then snd st @ [(fo, i)] else snd st))))))"

text \<open>\<open>max_by_key\<close> returns the last of the maximal elements.\<close>

fun max_by_key :: "(u64 \<times> nat) list \<Rightarrow> (u64 \<times> nat) option" where
  "max_by_key [] = None"
| "max_by_key (x # xs) = (case max_by_key xs of None \<Rightarrow> Some x | Some y \<Rightarrow> Some (if fst x \<le> fst y then y else x))"

definition reusable_note :: "elf_layout \<Rightarrow> bytes \<Rightarrow> (nat option, err) res" where
  "reusable_note l data =
     rbind (foldM (note_step l data) [0..<program_header_count l] (0, [])) (\<lambda>(count, candidates).
       if count < 2 then Ok None else Ok (map_option snd (max_by_key candidates)))"

definition encode_load :: "load_segment \<Rightarrow> bytes" where
  "encode_load s =
     to_le 4 PT_LOAD @ to_le 4 (p_flags s) @ to_le 8 (p_offset s) @ to_le 8 (p_vaddr s) @ to_le 8 (p_vaddr s)
     @ to_le 8 (p_filesz s) @ to_le 8 (p_memsz s) @ to_le 8 (p_align s)"

definition pt_phdr_step :: "nat \<Rightarrow> nat \<Rightarrow> (u64 \<times> u64) option \<Rightarrow> u64 \<Rightarrow> nat \<Rightarrow> bytes \<Rightarrow> (bytes, err) res" where
  "pt_phdr_step table_offset entry_size relocated table_size i out =
     rbind (checked_index table_offset i entry_size) (\<lambda>off.
     rbind (read_le 4 out off) (\<lambda>t.
       if t \<noteq> PT_PHDR then Ok out
       else
       rbind (case relocated of
           None \<Rightarrow> Ok out
         | Some (fo, va) \<Rightarrow>
             rbind (put_or ''PT_PHDR file offset exceeds output'' out (off + 8) (to_le 8 fo)) (\<lambda>out.
             rbind (put_or ''PT_PHDR virtual address exceeds output'' out (off + 0x10) (to_le 8 va)) (\<lambda>out.
               put_or ''PT_PHDR physical address exceeds output'' out (off + 0x18) (to_le 8 va)))) (\<lambda>out.
       rbind (put_or ''PT_PHDR file size exceeds output'' out (off + 0x20) (to_le 8 table_size)) (\<lambda>out.
         put_or ''PT_PHDR memory size exceeds output'' out (off + 0x28) (to_le 8 table_size)))))"

definition update_pt_phdr :: "bytes \<Rightarrow> nat \<Rightarrow> nat \<Rightarrow> nat \<Rightarrow> (u64 \<times> u64) option \<Rightarrow> u64 \<Rightarrow> (bytes, err) res" where
  "update_pt_phdr out table_offset old_count entry_size relocated table_size =
     foldM (pt_phdr_step table_offset entry_size relocated table_size) [0..<old_count] out"

section \<open>The checks of a new segment\<close>

definition check_overlap :: "load_segment \<Rightarrow> u64 \<Rightarrow> u64 \<Rightarrow> load_segment \<Rightarrow> unit \<Rightarrow> (unit, err) res" where
  "check_overlap s file_end mem_end e u =
     rbind (ok_or ''PT_LOAD file range overflow'' (chk_add_w (p_offset e) (p_filesz e))) (\<lambda>e_file_end.
       if p_offset s < e_file_end \<and> p_offset e < file_end then Err ''new PT_LOAD overlaps an existing file range''
       else
     rbind (ok_or ''PT_LOAD memory range overflow'' (chk_add_w (p_vaddr e) (p_memsz e))) (\<lambda>e_mem_end.
       if p_vaddr s < e_mem_end \<and> p_vaddr e < mem_end then Err ''new PT_LOAD overlaps an existing memory range''
       else Ok ()))"

definition check_segment :: "elf_layout \<Rightarrow> nat \<Rightarrow> load_segment \<Rightarrow> (unit, err) res" where
  "check_segment l out_len s =
     (if program_header_size l \<noteq> 0x38 then Err ''unexpected ELF program header size''
      else if p_filesz s = 0 then Err ''new PT_LOAD has no file contents''
      else if p_memsz s < p_filesz s then Err ''new PT_LOAD memory size is smaller than file size''
      else if \<not> is_power_of_two (p_align s) then Err ''invalid new PT_LOAD alignment''
      else if p_offset s mod p_align s \<noteq> p_vaddr s mod p_align s then Err ''new PT_LOAD offset and address are misaligned''
      else
      rbind (ok_or ''new PT_LOAD file range overflow'' (chk_add_w (p_offset s) (p_filesz s))) (\<lambda>file_end.
      rbind (ok_or ''new PT_LOAD memory range overflow'' (chk_add_w (p_vaddr s) (p_memsz s))) (\<lambda>mem_end.
        if out_len < unat file_end then Err ''new PT_LOAD exceeds output mapping''
        else foldM (check_overlap s file_end mem_end) (program_headers l) ())))"

section \<open>The three ways to install the header\<close>

definition install_in_place :: "elf_layout \<Rightarrow> bytes \<Rightarrow> bytes \<Rightarrow> nat \<Rightarrow> (bytes, err) res" where
  "install_in_place l header out new_table_size =
     rbind (checked_index (program_header_offset l) (program_header_count l) (program_header_size l)) (\<lambda>off.
     rbind (ok_or ''new program header range overflow'' (chk_add off (program_header_size l))) (\<lambda>stop.
     rbind (put_or ''new program header exceeds output'' out off header) (\<lambda>out.
       update_pt_phdr out (program_header_offset l) (program_header_count l) (program_header_size l) None
         (word_of_nat new_table_size))))"

definition install_over_note :: "elf_layout \<Rightarrow> bytes \<Rightarrow> bytes \<Rightarrow> nat \<Rightarrow> (bytes, err) res" where
  "install_over_note l header out note_index =
     rbind (checked_index (program_header_offset l) note_index (program_header_size l)) (\<lambda>off.
     rbind (ok_or ''reused program header range overflow'' (chk_add off (program_header_size l))) (\<lambda>stop.
       put_or ''reused program header exceeds output'' out off header))"

definition install_relocated ::
  "elf_layout \<Rightarrow> bytes \<Rightarrow> load_segment \<Rightarrow> bytes \<Rightarrow> nat \<Rightarrow> nat \<Rightarrow> nat \<Rightarrow> (bytes \<times> nat, err) res" where
  "install_relocated l header s out reservation old_size new_size =
     rbind (has_program_header_type l out PT_PHDR) (\<lambda>has.
       if \<not> has then Err ''cannot safely relocate program headers without PT_PHDR or a redundant PT_NOTE''
       else if reservation \<noteq> new_size then Err ''relocated program-header reservation has unexpected size''
       else if unat (p_filesz s) < reservation then Err ''new PT_LOAD is too small for relocated program headers''
       else
       rbind (usize_from_u64 (p_offset s)) (\<lambda>relocated.
       rbind (ok_or ''relocated program header range overflow'' (chk_add relocated new_size)) (\<lambda>relocated_end.
       rbind (checked_slice out relocated new_size) (\<lambda>_.
       rbind (checked_slice out (program_header_offset l) old_size) (\<lambda>old_table.
       rbind (put out relocated old_table) (\<lambda>out.
       rbind (if relocated_end - (relocated + old_size) = length header
              then put out (relocated + old_size) header else Panic) (\<lambda>out.
       rbind (put_or ''ELF header is truncated'' out 0x20 (to_le 8 (p_offset s))) (\<lambda>out.
       rbind (update_pt_phdr out relocated (program_header_count l) (program_header_size l)
                (Some (p_offset s, p_vaddr s)) (word_of_nat new_size)) (\<lambda>out.
         Ok (out, relocated))))))))))"

text \<open>The output, the offset of the table and the number of its entries after the installation.\<close>

definition install_header ::
  "elf_layout \<Rightarrow> load_segment \<Rightarrow> bytes \<Rightarrow> nat \<Rightarrow> nat \<Rightarrow> nat \<Rightarrow> nat \<Rightarrow> (bytes \<times> nat \<times> nat, err) res" where
  "install_header l s out reservation new_count old_size new_size =
     (if reservation = 0
      then rbind (install_in_place l (encode_load s) out new_size) (\<lambda>out.
             Ok (out, program_header_offset l, new_count))
      else rbind (reusable_note l out) (\<lambda>note.
        case note of
          Some i \<Rightarrow> rbind (install_over_note l (encode_load s) out i) (\<lambda>out.
                      Ok (out, program_header_offset l, program_header_count l))
        | None \<Rightarrow> rbind (install_relocated l (encode_load s) s out reservation old_size new_size) (\<lambda>(out, off).
                    Ok (out, off, new_count))))"

definition append_load_segment ::
  "elf_layout \<Rightarrow> bytes \<Rightarrow> load_segment \<Rightarrow> nat \<Rightarrow> (bytes \<times> elf_layout, err) res" where
  "append_load_segment l out s reserved =
     rbind (check_segment l (length out) s) (\<lambda>_.
     rbind (ok_or ''program header count overflow'' (chk_add (program_header_count l) 1)) (\<lambda>new_count.
       if 2 ^ 16 \<le> new_count then Err ''program header count exceeds u16''
       else
     rbind (header_reservation l) (\<lambda>reservation.
       if reserved \<noteq> reservation then Err ''program-header reservation mismatch''
       else
     rbind (ok_or ''program header table size overflow'' (chk_mul (program_header_count l) (program_header_size l))) (\<lambda>old_size.
     rbind (ok_or ''program header table size overflow'' (chk_mul new_count (program_header_size l))) (\<lambda>new_size.
     rbind (install_header l s out reservation new_count old_size new_size) (\<lambda>(out, off, count).
     rbind (if count = new_count
            then put_or ''ELF header is truncated'' out 0x38 (to_le 2 (word_of_nat new_count :: u16)) else Ok out) (\<lambda>out.
       Ok (out, l\<lparr>program_header_offset := off, program_header_count := count,
                  program_headers := program_headers l @ [s]\<rparr>))))))))"

end
