(* ===== verification/ElfProps.thy ===== *)
theory ElfProps
  imports ElfAppend "HOL-Library.Multiset"
begin

unbundle bit_operations_syntax

text \<open>
  Properties of the ELF layout: a parsed layout is well formed, appending a load segment keeps layout and
  file in step in all three ways of making room, and never overwrites a section in place.
\<close>

section \<open>Table entries\<close>

text \<open>What the parser makes of the 56 bytes of a program header.\<close>

definition entry_at :: "bytes \<Rightarrow> nat \<Rightarrow> (load_segment option, err) res" where
  "entry_at data off =
     rbind (read_le 4 data off) (\<lambda>ty. if ty \<noteq> PT_LOAD then Ok None else rbind (parse_load data off) (\<lambda>s. Ok (Some s)))"

definition type_at :: "bytes \<Rightarrow> nat \<Rightarrow> u32" where
  "type_at data off = from_le (window data off 4)"

definition decode_load :: "bytes \<Rightarrow> load_segment" where
  "decode_load w = \<lparr>p_offset = from_le (window w 8 8), p_vaddr = from_le (window w 0x10 8), p_filesz = from_le (window w 0x20 8),
     p_memsz = from_le (window w 0x28 8), p_flags = from_le (window w 4 4), p_align = from_le (window w 0x30 8)\<rparr>"

definition load_in_file :: "nat \<Rightarrow> load_segment \<Rightarrow> bool" where
  "load_in_file n s \<longleftrightarrow> unat (p_offset s) + unat (p_filesz s) < 2 ^ 64 \<and> unat (p_offset s) + unat (p_filesz s) \<le> n"

lemma parse_phdr_entry: "base + i * sz < usize_limit \<Longrightarrow> parse_phdr data base sz i = entry_at data (base + i * sz)"
  by (simp add: parse_phdr_def entry_at_def checked_index_in)

lemma window_in: "k + n \<le> 56 \<Longrightarrow> window data (off + k) n = window (window data off 56) k n"
  by (simp add: window_window)

lemma entry_at_eq:
  assumes "off + 56 \<le> length data" and "off + 56 < usize_limit"
  shows "entry_at data off =
    (if type_at data off \<noteq> PT_LOAD then Ok None
     else let s = decode_load (window data off 56) in
       if 2 ^ 64 \<le> unat (p_offset s) + unat (p_filesz s) then Err ''PT_LOAD file range overflow''
       else if length data < unat (p_offset s) + unat (p_filesz s) then Err ''PT_LOAD exceeds input file''
       else Ok (Some s))"
proof -
  have r: "read_le n data (off + k) = Ok (from_le (window (window data off 56) k n))" if "k + n \<le> 56" for k n
    using that assms window_in [of k n data off] by (subst read_le_in) simp_all
  have "read_le 4 data off = Ok (type_at data off)" using assms by (simp add: read_le_in type_at_def)
  then show ?thesis
    by (simp add: entry_at_def parse_load_def r decode_load_def Let_def chk_add_w_def unat_add_no_wrap)
qed

lemma entry_at_None:
  "off + 4 \<le> length data \<Longrightarrow> off + 4 < usize_limit \<Longrightarrow> type_at data off \<noteq> PT_LOAD \<Longrightarrow> entry_at data off = Ok None"
  by (simp add: entry_at_def read_le_in type_at_def)

lemma entry_at_Ok:
  assumes "entry_at data off = Ok e"
  shows "off + 4 \<le> length data" and "off + 4 < usize_limit"
    and "e = None \<longleftrightarrow> type_at data off \<noteq> PT_LOAD" and "e \<noteq> None \<Longrightarrow> off + 56 \<le> length data \<and> off + 56 < usize_limit"
  using assms by (auto simp: entry_at_def parse_load_def res_conv type_at_def split: if_splits)

lemma entry_at_moved:
  assumes "entry_at a off = Ok e" and "length b = length a"
    and "off' + 56 \<le> length b" and "off' + 56 < usize_limit"
    and "type_at b off' = type_at a off"
    and "type_at a off = PT_LOAD \<Longrightarrow> window b off' 56 = window a off 56"
  shows "entry_at b off' = Ok e"
proof (cases "type_at a off = PT_LOAD")
  case True
  then have "off + 56 \<le> length a" "off + 56 < usize_limit" using entry_at_Ok [OF assms(1)] by auto
  then show ?thesis using assms True by (simp add: entry_at_eq Let_def split: if_splits)
next
  case False
  then show ?thesis using assms entry_at_Ok [OF assms(1)] by (simp add: entry_at_None)
qed

lemma read_le_same:
  assumes "window b off 56 = window a off 56" and "length b = length a" and "k + n \<le> 56"
  shows "read_le n b (off + k) = (read_le n a (off + k) :: ('a::len word, err) res)"
proof -
  have "window b (off + k) n = window a (off + k) n"
    using assms(1,3) by (simp add: window_in)
  then show ?thesis using assms(2) by (simp add: read_le_def checked_slice_def get_range_def)
qed

lemma entry_at_same:
  assumes "window b off 56 = window a off 56" and "length b = length a"
  shows "entry_at b off = entry_at a off"
proof -
  have r: "read_le 4 b off = (read_le 4 a off :: (u32, err) res)" using read_le_same [OF assms, of 0 4] by simp
  have p: "parse_load b off = parse_load a off"
    by (simp add: parse_load_def read_le_same [OF assms] assms(2))
  show ?thesis unfolding entry_at_def r p by (rule refl)
qed

lemma length_encode_load [simp]: "length (encode_load s) = 56"
  by (simp add: encode_load_def)

lemma decode_encode_load: "decode_load (encode_load s) = s"
proof -
  have w: "window (encode_load s) 4 4 = to_le 4 (p_flags s)" "window (encode_load s) 8 8 = to_le 8 (p_offset s)"
    "window (encode_load s) 0x10 8 = to_le 8 (p_vaddr s)" "window (encode_load s) 0x20 8 = to_le 8 (p_filesz s)"
    "window (encode_load s) 0x28 8 = to_le 8 (p_memsz s)" "window (encode_load s) 0x30 8 = to_le 8 (p_align s)"
    by (simp_all add: encode_load_def window_def)
  show ?thesis unfolding decode_load_def w by (simp add: from_le_to_le)
qed

lemma type_encode_load: "from_le (window (encode_load s) 0 4) = PT_LOAD"
  by (simp add: encode_load_def window_def from_le_to_le)

lemma entry_of_encoded:
  assumes "window data off 56 = encode_load s" and "off + 56 \<le> length data" and "off + 56 < usize_limit"
    and "load_in_file (length data) s"
  shows "entry_at data off = Ok (Some s)"
proof -
  have "type_at data off = PT_LOAD"
    using assms(1) window_in [of 0 4 data off] type_encode_load [of s] by (simp add: type_at_def)
  then show ?thesis using assms by (simp add: entry_at_eq decode_encode_load load_in_file_def Let_def)
qed

section \<open>The update of PT_PHDR\<close>

text \<open>The writes stay behind the type field of PT_PHDR entries of the table.\<close>

definition phdr_frame :: "nat \<Rightarrow> nat \<Rightarrow> bytes \<Rightarrow> bytes \<Rightarrow> bool" where
  "phdr_frame base cnt a b \<longleftrightarrow> length b = length a
     \<and> (\<forall>off n. (\<forall>i<cnt. type_at a (base + i * 56) = PT_PHDR \<longrightarrow> off + n \<le> base + i * 56 + 4 \<or> base + i * 56 + 56 \<le> off)
          \<longrightarrow> window b off n = window a off n)"

lemma phdr_frame_refl: "phdr_frame base cnt a a"
  by (simp add: phdr_frame_def)

lemma phdr_frame_type:
  assumes "phdr_frame base cnt a b" and "j \<le> cnt"
  shows "type_at b (base + j * 56) = type_at a (base + j * 56)"
proof -
  have "base + j * 56 + 4 \<le> base + i * 56 + 4 \<or> base + i * 56 + 56 \<le> base + j * 56" for i
    by (cases "j \<le> i") (auto simp: not_le Suc_le_eq [symmetric] dest: mult_le_mono1 [where k = 56])
  then show ?thesis using assms by (simp add: phdr_frame_def type_at_def)
qed

lemma phdr_frame_window:
  assumes "phdr_frame base cnt a b" and "type_at a (base + j * 56) \<noteq> PT_PHDR"
  shows "window b (base + j * 56) 56 = window a (base + j * 56) 56"
proof -
  have "base + j * 56 + 56 \<le> base + i * 56 + 4 \<or> base + i * 56 + 56 \<le> base + j * 56" if "i \<noteq> j" for i
  proof (cases "j < i")
    case True
    then have "(j + 1) * 56 \<le> i * 56" by (intro mult_le_mono1) simp
    then show ?thesis by simp
  next
    case False
    then have "(i + 1) * 56 \<le> j * 56" using that by (intro mult_le_mono1) simp
    then show ?thesis by simp
  qed
  then show ?thesis using assms unfolding phdr_frame_def by metis
qed

lemma phdr_frame_outside:
  assumes "phdr_frame base cnt a b" and "off + n \<le> base \<or> base + cnt * 56 \<le> off"
  shows "window b off n = window a off n"
proof -
  have "off + n \<le> base + i * 56 + 4 \<or> base + i * 56 + 56 \<le> off" if "i < cnt" for i
  proof -
    have "(i + 1) * 56 \<le> cnt * 56" using that by (intro mult_le_mono1) simp
    then show ?thesis using assms(2) by auto
  qed
  then show ?thesis using assms(1) by (simp add: phdr_frame_def)
qed

lemma window_patch_frame:
  assumes "off + length bs \<le> length a" and "lo + n \<le> off \<or> off + length bs \<le> lo"
  shows "window (patch a off bs) lo n = window a lo n"
  by (rule window_patch_disjoint [OF assms])

lemma phdr_step_frame:
  assumes "pt_phdr_step base 56 relocated sz i a = Ok b" and "i < cnt"
  shows "phdr_frame base cnt a b"
proof (cases "type_at a (base + i * 56) = PT_PHDR")
  case False
  then have "b = a" using assms by (auto simp: pt_phdr_step_def res_conv type_at_def)
  then show ?thesis by (simp add: phdr_frame_refl)
next
  case True
  let ?o = "base + i * 56"
  have sub: "length b = length a \<and> (\<forall>lo n. lo + n \<le> ?o + 4 \<or> ?o + 56 \<le> lo \<longrightarrow> window b lo n = window a lo n)"
    using assms True
    by (auto simp: pt_phdr_step_def res_conv type_at_def length_patch window_patch_frame split: option.splits prod.splits)
  then show ?thesis using assms(2) True unfolding phdr_frame_def by blast
qed


lemma phdr_frame_trans:
  assumes "phdr_frame base cnt a b" and "phdr_frame base cnt b c"
  shows "phdr_frame base cnt a c"
proof -
  have "type_at b (base + i * 56) = type_at a (base + i * 56)" if "i < cnt" for i
    using phdr_frame_type [OF assms(1)] that by simp
  then show ?thesis using assms unfolding phdr_frame_def by metis
qed

lemma update_pt_phdr_frame:
  assumes "update_pt_phdr a base cnt 56 relocated sz = Ok b"
  shows "phdr_frame base cnt a b"
  using assms unfolding update_pt_phdr_def
proof (rule foldM_inv [where P = "\<lambda>b. phdr_frame base cnt a b"])
  fix i s t assume "i \<in> set [0..<cnt]" "phdr_frame base cnt a s" "pt_phdr_step base 56 relocated sz i s = Ok t"
  then show "phdr_frame base cnt a t" using phdr_step_frame phdr_frame_trans by (metis atLeastLessThan_iff set_upt)
qed (rule phdr_frame_refl)

section \<open>The table after the installation\<close>

definition table_at :: "bytes \<Rightarrow> nat \<Rightarrow> nat \<Rightarrow> (load_segment option list, err) res" where
  "table_at data base cnt = mapM (parse_phdr data base 56) [0..<cnt]"

lemma table_at_Ok_conv:
  assumes "base + cnt * 56 < usize_limit"
  shows "table_at data base cnt = Ok es \<longleftrightarrow> length es = cnt \<and> (\<forall>i<cnt. entry_at data (base + i * 56) = Ok (es ! i))"
proof -
  have e: "parse_phdr data base 56 i = entry_at data (base + i * 56)" if "i < cnt" for i
  proof -
    have "i * 56 \<le> cnt * 56" using that by simp
    then show ?thesis using assms by (intro parse_phdr_entry) simp
  qed
  show ?thesis
  proof
    assume t: "table_at data base cnt = Ok es"
    then have "length es = cnt" unfolding table_at_def by (auto dest: mapM_Ok_length)
    moreover have "entry_at data (base + i * 56) = Ok (es ! i)" if "i < cnt" for i
      using mapM_Ok_nth [OF t [unfolded table_at_def], of i] that e by simp
    ultimately show "length es = cnt \<and> (\<forall>i<cnt. entry_at data (base + i * 56) = Ok (es ! i))" by blast
  next
    assume r: "length es = cnt \<and> (\<forall>i<cnt. entry_at data (base + i * 56) = Ok (es ! i))"
    then have "table_at data base cnt = Ok (map ((!) es) [0..<cnt])"
      unfolding table_at_def by (intro mapM_Ok_map) (auto simp: e)
    then show "table_at data base cnt = Ok es" using r map_nth [of es] by simp
  qed
qed

lemma somes_append [simp]: "somes (xs @ ys) = somes xs @ somes ys"
  by (simp add: somes_def)

lemma somes_Some [simp]: "somes [Some s] = [s]" "somes [] = []"
  by (simp_all add: somes_def)

lemma mset_somes_update:
  assumes "i < length es" and "es ! i = None"
  shows "mset (somes (es[i := Some s])) = mset (somes es @ [s])"
proof -
  have es: "es = take i es @ None # drop (Suc i) es" using assms by (metis id_take_nth_drop)
  have "es[i := Some s] = take i es @ Some s # drop (Suc i) es" using assms(1) by (simp add: upd_conv_take_nth_drop)
  moreover have "somes es = somes (take i es) @ somes (drop (Suc i) es)"
    by (subst es) (simp add: somes_def)
  ultimately show ?thesis by (simp add: somes_def)
qed

lemma check_segment_in_file: "check_segment l n s = Ok () \<Longrightarrow> load_in_file n s"
  by (auto simp: check_segment_def load_in_file_def res_conv unat_add_no_wrap split: if_splits)

lemma reusable_note_type:
  assumes "reusable_note l data = Ok (Some i)"
  shows "i < program_header_count l \<and> type_at data (program_header_offset l + i * program_header_size l) = PT_NOTE
    \<and> program_header_offset l + i * program_header_size l < usize_limit"
proof -
  let ?P = "\<lambda>i. i < program_header_count l \<and> type_at data (program_header_offset l + i * program_header_size l) = PT_NOTE
    \<and> program_header_offset l + i * program_header_size l < usize_limit"
  have mk: "max_by_key xs = Some y \<Longrightarrow> y \<in> set xs" for xs y
    by (induction xs arbitrary: y) (auto split: option.splits if_splits)
  obtain n cs where run: "foldM (note_step l data) [0..<program_header_count l] (0, []) = Ok (n, cs)"
      and sel: "map_option snd (max_by_key cs) = Some i"
    using assms by (auto simp: reusable_note_def res_conv split: if_splits)
  have "\<forall>c\<in>set (snd (n, cs)). ?P (snd c)"
    using run
  proof (rule foldM_inv [where P = "\<lambda>st. \<forall>c\<in>set (snd st). ?P (snd c)"])
    fix j s t
    assume "j \<in> set [0..<program_header_count l]" "\<forall>c\<in>set (snd s). ?P (snd c)" "note_step l data j s = Ok t"
    then show "\<forall>c\<in>set (snd t). ?P (snd c)" by (auto simp: note_step_def res_conv type_at_def split: if_splits)
  qed simp
  moreover obtain y where "max_by_key cs = Some y" "snd y = i" using sel by auto
  ultimately show ?thesis using mk by fastforce
qed

lemma install_over_note_table:
  assumes "install_over_note l (encode_load s) out i = Ok out'" and "program_header_size l = 56" and "i < cnt"
    and "base = program_header_offset l" and "base + cnt * 56 < usize_limit" and "table_at out base cnt = Ok es"
    and "load_in_file (length out) s"
  shows "table_at out' base cnt = Ok (es[i := Some s]) \<and> length out' = length out
    \<and> base + i * 56 + 56 \<le> length out"
proof -
  have o': "out' = patch out (base + i * 56) (encode_load s)" "base + i * 56 + 56 \<le> length out" "base + i * 56 + 56 < usize_limit"
    using assms(1,2,4) by (auto simp: install_over_note_def res_conv)
  have len: "length out' = length out" using o' by (simp add: length_patch)
  have new: "entry_at out' (base + i * 56) = Ok (Some s)"
    using o' len assms(7) by (intro entry_of_encoded) (simp_all add: window_patch_same)
  have old: "entry_at out' (base + j * 56) = entry_at out (base + j * 56)" if "j \<noteq> i" "j < cnt" for j
  proof -
    have d: "base + j * 56 + 56 \<le> base + i * 56 \<or> base + i * 56 + 56 \<le> base + j * 56"
    proof (cases "j < i")
      case True
      then have "(j + 1) * 56 \<le> i * 56" by (intro mult_le_mono1) simp
      then show ?thesis by simp
    next
      case False
      then have "(i + 1) * 56 \<le> j * 56" using that by (intro mult_le_mono1) simp
      then show ?thesis by simp
    qed
    have "window out' (base + j * 56) 56 = window out (base + j * 56) 56"
      unfolding o'(1) by (rule window_patch_frame) (use o'(2) d in auto)
    then show ?thesis using len by (rule entry_at_same)
  qed
  have "table_at out' base cnt = Ok (es[i := Some s])"
    using assms(3,5,6) new old by (auto simp: table_at_Ok_conv nth_list_update)
  then show ?thesis using len o' by simp
qed


lemma install_in_place_table:
  assumes "install_in_place l (encode_load s) out sz = Ok out'" and "program_header_size l = 56"
    and "base = program_header_offset l" and "cnt = program_header_count l"
    and "base + cnt * 56 + 56 < usize_limit" and "table_at out base cnt = Ok es"
    and "load_in_file (length out) s"
  shows "table_at out' base (Suc cnt) = Ok (es @ [Some s]) \<and> length out' = length out
    \<and> base + cnt * 56 + 56 \<le> length out
    \<and> (\<forall>off n. off + n \<le> base \<or> base + cnt * 56 + 56 \<le> off \<longrightarrow> window out' off n = window out off n)"
proof -
  let ?m = "patch out (base + cnt * 56) (encode_load s)"
  have m: "update_pt_phdr ?m base cnt 56 None (word_of_nat sz) = Ok out'" "base + cnt * 56 + 56 \<le> length out"
    using assms(1-4) by (auto simp: install_in_place_def res_conv)
  note fr = update_pt_phdr_frame [OF m(1)]
  have len: "length ?m = length out" "length out' = length out" using m fr by (simp_all add: length_patch phdr_frame_def)
  have "\<forall>i<cnt. entry_at out (base + i * 56) = Ok (es ! i)" "length es = cnt"
    using assms(5,6) by (simp_all add: table_at_Ok_conv)
  note es = this
  have wm: "window ?m off n = window out off n" if "off + n \<le> base + cnt * 56 \<or> base + cnt * 56 + 56 \<le> off" for off n
    using m that by (intro window_patch_frame) simp_all
  have old: "entry_at out' (base + i * 56) = Ok (es ! i)" if i: "i < cnt" for i
  proof -
    have le: "base + i * 56 + 56 \<le> base + cnt * 56"
    proof -
      have "(i + 1) * 56 \<le> cnt * 56" using i by (intro mult_le_mono1) simp
      then show ?thesis by simp
    qed
    have tm: "type_at ?m (base + i * 56) = type_at out (base + i * 56)" unfolding type_at_def using le by (subst wm) simp_all
    have t: "type_at out' (base + i * 56) = type_at out (base + i * 56)" using phdr_frame_type [OF fr, of i] i tm by simp
    have w: "window out' (base + i * 56) 56 = window out (base + i * 56) 56" if "type_at out (base + i * 56) = PT_LOAD"
    proof -
      have "type_at ?m (base + i * 56) \<noteq> PT_PHDR" using that tm by (simp add: PT_LOAD_def PT_PHDR_def)
      from phdr_frame_window [OF fr this] show ?thesis using le wm by simp
    qed
    show ?thesis
      using entry_at_moved [OF es(1) [rule_format, OF i] len(2) _ _ t w] le m(2) assms(5) len by simp
  qed
  have "window ?m (base + cnt * 56) 56 = encode_load s" using m by (intro window_patch_same) simp_all
  moreover from this have "type_at ?m (base + cnt * 56) \<noteq> PT_PHDR"
    using window_in [of 0 4 ?m "base + cnt * 56"] type_encode_load [of s] by (simp add: type_at_def PT_LOAD_def PT_PHDR_def)
  ultimately have "window out' (base + cnt * 56) 56 = encode_load s" using phdr_frame_window [OF fr] by simp
  then have new: "entry_at out' (base + cnt * 56) = Ok (Some s)"
    using m len assms(5,7) by (intro entry_of_encoded) simp_all
  have "table_at out' base (Suc cnt) = Ok (es @ [Some s])"
    using assms(5) old new es(2) by (subst table_at_Ok_conv) (auto simp: nth_append less_Suc_eq)
  moreover have "window out' off n = window out off n" if "off + n \<le> base \<or> base + cnt * 56 + 56 \<le> off" for off n
    using phdr_frame_outside [OF fr, of off n] wm [of off n] that by auto
  ultimately show ?thesis using len m by simp
qed

lemma table_at_window:
  assumes "table_at a base cnt = Ok es" and "base + cnt * 56 < usize_limit" and "length b = length a"
    and "\<And>i. i < cnt \<Longrightarrow> base + i * 56 + 4 \<le> length a \<Longrightarrow> type_at b (base + i * 56) = type_at a (base + i * 56)"
    and "\<And>i. i < cnt \<Longrightarrow> window b (base + i * 56) 56 = window a (base + i * 56) 56"
  shows "table_at b base cnt = Ok es"
proof -
  have "entry_at b (base + i * 56) = Ok (es ! i)" if i: "i < cnt" for i
  proof -
    have a: "entry_at a (base + i * 56) = Ok (es ! i)" using assms(1,2) i by (simp add: table_at_Ok_conv)
    show ?thesis
    proof (cases "type_at a (base + i * 56) = PT_LOAD")
      case True
      then have "base + i * 56 + 56 \<le> length a \<and> base + i * 56 + 56 < usize_limit" using entry_at_Ok [OF a] by auto
      then show ?thesis using entry_at_moved [OF a assms(3)] assms(3-5) i entry_at_Ok [OF a] by simp
    next
      case False
      then show ?thesis using entry_at_Ok [OF a] assms(3,4) i by (simp add: entry_at_None)
    qed
  qed
  then show ?thesis using assms(1,2) by (simp add: table_at_Ok_conv)
qed


lemma install_relocated_table:
  assumes "install_relocated l (encode_load s) s out r (cnt * 56) ((cnt + 1) * 56) = Ok (out', rel)"
    and "program_header_size l = 56" and "base = program_header_offset l" and "cnt = program_header_count l"
    and "base + cnt * 56 + 56 < usize_limit" and "table_at out base cnt = Ok es"
    and "load_in_file (length out) s" and "0x40 \<le> unat (p_offset s)"
  shows "table_at out' rel (Suc cnt) = Ok (es @ [Some s]) \<and> length out' = length out \<and> rel = unat (p_offset s)
    \<and> rel + Suc cnt * 56 \<le> length out \<and> rel + Suc cnt * 56 < usize_limit
    \<and> from_le (window out' 0x20 8) = p_offset s"
proof -
  let ?a1 = "patch out rel (window out base (cnt * 56))"
  let ?a2 = "patch ?a1 (rel + cnt * 56) (encode_load s)"
  let ?a3 = "patch ?a2 0x20 (to_le 8 (p_offset s))"
  have rel: "rel = unat (p_offset s)" "rel + (cnt + 1) * 56 \<le> length out" "rel + (cnt + 1) * 56 < usize_limit"
      and tab: "base + cnt * 56 \<le> length out" and hd: "0x28 \<le> length out"
      and upd: "update_pt_phdr ?a3 rel cnt 56 (Some (p_offset s, p_vaddr s)) (word_of_nat ((cnt + 1) * 56)) = Ok out'"
    using assms(1-4) by (auto simp: install_relocated_def usize_from_u64_def res_conv length_patch length_window split: if_splits)
  have l1: "length ?a1 = length out" using rel tab by (simp add: length_patch length_window)
  have l2: "length ?a2 = length out" using rel l1 by (simp add: length_patch)
  have l3: "length ?a3 = length out" using hd l2 by (simp add: length_patch)
  note fr = update_pt_phdr_frame [OF upd]
  have len: "length out' = length out" using fr l3 by (simp add: phdr_frame_def)
  have es: "\<forall>i<cnt. entry_at out (base + i * 56) = Ok (es ! i)" "length es = cnt"
    using assms(5,6) by (simp_all add: table_at_Ok_conv)
  have w3: "window ?a3 off n = window ?a2 off n" if "0x28 \<le> off" for off n
    using hd l2 that by (intro window_patch_frame) simp_all
  have wnew: "window ?a3 (rel + cnt * 56) 56 = encode_load s"
    using assms(8) rel l1 by (subst w3) (simp_all add: window_patch_same)
  have wold: "window ?a3 (rel + i * 56) 56 = window out (base + i * 56) 56" if i: "i < cnt" for i
  proof -
    have le: "(i + 1) * 56 \<le> cnt * 56" using i by (intro mult_le_mono1) simp
    have "window ?a3 (rel + i * 56) 56 = window ?a2 (rel + i * 56) 56" using assms(8) rel by (intro w3) simp
    also have "\<dots> = window ?a1 (rel + i * 56) 56" using le rel l1 by (intro window_patch_frame) simp_all
    also have "\<dots> = window (window ?a1 rel (cnt * 56)) (i * 56) 56" using le by (simp add: window_window)
    also have "window ?a1 rel (cnt * 56) = window out base (cnt * 56)"
      using rel tab by (intro window_patch_same) (simp_all add: length_window)
    also have "window (window out base (cnt * 56)) (i * 56) 56 = window out (base + i * 56) 56"
      using le by (simp add: window_window)
    finally show ?thesis .
  qed
  have ty: "type_at d off = from_le (window (window d off 56) 0 4)" for d off
    using window_in [of 0 4 d off] by (simp add: type_at_def)
  have old: "entry_at out' (rel + i * 56) = Ok (es ! i)" if i: "i < cnt" for i
  proof -
    have le: "(i + 1) * 56 \<le> cnt * 56" using i by (intro mult_le_mono1) simp
    have t3: "type_at ?a3 (rel + i * 56) = type_at out (base + i * 56)" unfolding ty wold [OF i] by (rule refl)
    have t: "type_at out' (rel + i * 56) = type_at out (base + i * 56)" using phdr_frame_type [OF fr, of i] i t3 by simp
    have w: "window out' (rel + i * 56) 56 = window out (base + i * 56) 56" if "type_at out (base + i * 56) = PT_LOAD"
    proof -
      have "type_at ?a3 (rel + i * 56) \<noteq> PT_PHDR" using that t3 by (simp add: PT_LOAD_def PT_PHDR_def)
      from phdr_frame_window [OF fr this] show ?thesis using wold [OF i] by simp
    qed
    show ?thesis
      using entry_at_moved [OF es(1) [rule_format, OF i] len _ _ t w] le rel(2,3) len by simp
  qed
  have "type_at ?a3 (rel + cnt * 56) \<noteq> PT_PHDR"
    unfolding ty wnew type_encode_load by (simp add: PT_LOAD_def PT_PHDR_def)
  from phdr_frame_window [OF fr this] have "window out' (rel + cnt * 56) 56 = encode_load s" using wnew by simp
  then have new: "entry_at out' (rel + cnt * 56) = Ok (Some s)"
    using rel len assms(7) by (intro entry_of_encoded) simp_all
  have "table_at out' rel (Suc cnt) = Ok (es @ [Some s])"
    using rel(3) old new es(2) by (subst table_at_Ok_conv) (auto simp: nth_append less_Suc_eq)
  moreover have "window out' 0x20 8 = to_le 8 (p_offset s)"
  proof -
    have "window out' 0x20 8 = window ?a3 0x20 8"
      by (rule phdr_frame_outside [OF fr]) (use assms(8) rel in simp)
    also have "\<dots> = to_le 8 (p_offset s)" using hd l2 by (intro window_patch_same) simp_all
    finally show ?thesis .
  qed
  ultimately show ?thesis using len rel by (simp add: from_le_to_le)
qed

section \<open>Layout and file stay in step\<close>

text \<open>What parsing again would see: the location and length of the table in the ELF header, and the load
  segments of the table, in some order.\<close>

definition file_agrees :: "elf_layout \<Rightarrow> bytes \<Rightarrow> bool" where
  "file_agrees l data \<longleftrightarrow> program_header_size l = 0x38 \<and> 0x40 \<le> program_header_offset l \<and> 0x40 \<le> length data
     \<and> from_le (window data 0x20 8) = (word_of_nat (program_header_offset l) :: u64)
     \<and> from_le (window data 0x38 2) = (word_of_nat (program_header_count l) :: u16)
     \<and> (\<exists>es. mapM (parse_phdr data (program_header_offset l) (program_header_size l)) [0..<program_header_count l] = Ok es
          \<and> mset (somes es) = mset (program_headers l))"

lemma append_finish:
  assumes "table_at out base cnt = Ok es" and "0x40 \<le> base" and "base + cnt * 56 < usize_limit" and "0x40 \<le> length out"
  shows "table_at (patch out 0x38 (to_le 2 (c :: u16))) base cnt = Ok es"
    and "from_le (window (patch out 0x38 (to_le 2 c)) 0x38 2) = c"
    and "window (patch out 0x38 (to_le 2 c)) 0x20 8 = window out 0x20 8"
    and "length (patch out 0x38 (to_le 2 c)) = length out"
proof -
  let ?b = "patch out 0x38 (to_le 2 c)"
  show len: "length ?b = length out" using assms(4) by (simp add: length_patch)
  have w: "window ?b off n = window out off n" if "0x40 \<le> off" for off n
    using assms(4) that by (intro window_patch_frame) simp_all
  show "table_at ?b base cnt = Ok es"
    by (rule table_at_window [OF assms(1,3) len]) (use assms(2) in \<open>simp_all add: w type_at_def\<close>)
  show "from_le (window ?b 0x38 2) = c" using assms(4) by (simp add: window_patch_same from_le_to_le)
  show "window ?b 0x20 8 = window out 0x20 8" using assms(4) by (intro window_patch_frame) simp_all
qed

text \<open>C13. Appending a load segment keeps the layout in step with the file, in all three ways of making room (behind
  the table, over a redundant note, in the new segment): what the parser reads back from the ELF header
  and the table of the output is the updated layout, whose load segments are the old ones and the new
  one. The invariant holds again, so segments can be appended one after the other.\<close>

theorem append_load_segment_agrees:
  assumes "file_agrees l out" and "append_load_segment l out s reserved = Ok (out', l')"
    and "0x40 \<le> unat (p_offset s)"
  shows "file_agrees l' out' \<and> length out' = length out \<and> program_headers l' = program_headers l @ [s]"
proof -
  let ?base = "program_header_offset l" and ?cnt = "program_header_count l"
  obtain es where es: "table_at out ?base ?cnt = Ok es" "mset (somes es) = mset (program_headers l)"
    using assms(1) by (auto simp: file_agrees_def table_at_def)
  have base: "program_header_size l = 56" "0x40 \<le> ?base" "0x40 \<le> length out"
    "from_le (window out 0x20 8) = (word_of_nat ?base :: u64)" "from_le (window out 0x38 2) = (word_of_nat ?cnt :: u16)"
    using assms(1) by (simp_all add: file_agrees_def)
  obtain resv out1 off cnt' where chk: "check_segment l (length out) s = Ok ()" and resv: "header_reservation l = Ok resv"
      and inst: "install_header l s out resv (?cnt + 1) (?cnt * 56) ((?cnt + 1) * 56) = Ok (out1, off, cnt')"
      and fin: "(if cnt' = ?cnt + 1
            then put_or ''ELF header is truncated'' out1 0x38 (to_le 2 (word_of_nat (?cnt + 1) :: u16)) else Ok out1) = Ok out'"
      and l': "l' = l\<lparr>program_header_offset := off, program_header_count := cnt', program_headers := program_headers l @ [s]\<rparr>"
    using assms(2) base(1) by (auto simp: append_load_segment_def res_conv split: if_splits)
  have inf: "load_in_file (length out) s" by (rule check_segment_in_file [OF chk])
  have lim: "?base + ?cnt * 56 + 56 < usize_limit"
    using resv base(1) by (auto simp: header_reservation_def res_conv split: if_splits)
  have grown: ?thesis
    if t: "table_at out1 off (Suc ?cnt) = Ok (es @ [Some s])" "length out1 = length out" "0x40 \<le> off"
      "off + Suc ?cnt * 56 < usize_limit" "from_le (window out1 0x20 8) = (word_of_nat off :: u64)" and c: "cnt' = Suc ?cnt"
  proof -
    have o': "out' = patch out1 0x38 (to_le 2 (word_of_nat (Suc ?cnt) :: u16))" using fin c by (simp add: res_conv)
    note f = append_finish [OF t(1,3,4), of "word_of_nat (Suc ?cnt)", folded o']
    show ?thesis using f t base es(2) l' c by (simp add: file_agrees_def table_at_def)
  qed
  show ?thesis
  proof (cases "resv = 0")
    case True
    then have i: "install_in_place l (encode_load s) out ((?cnt + 1) * 56) = Ok out1" "off = ?base" "cnt' = Suc ?cnt"
      using inst by (auto simp: install_header_def res_conv)
    note t = install_in_place_table [OF i(1) base(1) refl refl lim es(1) inf]
    have "window out1 0x20 8 = window out 0x20 8" using t base(2) by simp
    then show ?thesis using t i lim base by (intro grown) simp_all
  next
    case False
    then obtain nt where note': "reusable_note l out = Ok nt"
      using inst by (auto simp: install_header_def res_conv)
    show ?thesis
    proof (cases nt)
      case None
      then have i: "install_relocated l (encode_load s) s out resv (?cnt * 56) ((?cnt + 1) * 56) = Ok (out1, off)" "cnt' = Suc ?cnt"
        using inst False note' by (auto simp: install_header_def res_conv)
      note t = install_relocated_table [OF i(1) base(1) refl refl lim es(1) inf assms(3)]
      show ?thesis
      proof (rule grown)
        show "table_at out1 off (Suc ?cnt) = Ok (es @ [Some s])" "length out1 = length out" using t by blast+
        show "0x40 \<le> off" using t assms(3) by (elim conjE) (simp only:)
        show "off + Suc ?cnt * 56 < usize_limit" using t by blast
        show "from_le (window out1 0x20 8) = (word_of_nat off :: u64)" using t by (elim conjE) (simp only: of_nat_unat ucast_id)
        show "cnt' = Suc ?cnt" by (rule i(2))
      qed
    next
      case (Some i)
      then have ins: "install_over_note l (encode_load s) out i = Ok out1" "off = ?base" "cnt' = ?cnt"
        using inst False note' by (auto simp: install_header_def res_conv)
      have ty: "i < ?cnt" "type_at out (?base + i * 56) = PT_NOTE" using reusable_note_type [of l out i] Some note' base(1) by auto
      note t = install_over_note_table [OF ins(1) base(1) ty(1) refl _ es(1) inf]
      have eq: "length es = ?cnt" "entry_at out (?base + i * 56) = Ok (es ! i)"
        using es(1) lim ty(1) by (simp_all add: table_at_Ok_conv)
      have "es ! i = None" using entry_at_Ok(3) [OF eq(2)] ty(2) by (simp add: PT_NOTE_def PT_LOAD_def)
      then have ms: "mset (somes (es[i := Some s])) = mset (program_headers l) + {#s#}"
        using mset_somes_update [of i es s] ty(1) eq(1) es(2) by simp
      have o1: "out1 = patch out (?base + i * 56) (encode_load s)" "out' = out1"
        using ins fin base(1) by (auto simp: install_over_note_def res_conv)
      have "window out1 0x20 8 = window out 0x20 8" "window out1 0x38 2 = window out 0x38 2"
        using o1 t lim base(2) by (simp_all add: window_patch_frame)
      then show ?thesis
        using t lim base ins o1 ms l' by (simp add: file_agrees_def table_at_def)
    qed
  qed
qed

section \<open>Witness\<close>

definition sample_load :: "u64 \<Rightarrow> u64 \<Rightarrow> load_segment" where
  "sample_load off sz = \<lparr>p_offset = off, p_vaddr = off, p_filesz = sz, p_memsz = sz, p_flags = 5, p_align = 1\<rparr>"

definition sample_section :: section_header where
  "sample_section = \<lparr>sh_name = 0, sh_type = 3, sh_flags = 0, sh_addr = 0, sh_offset = 184, sh_size = 1, sh_link = 0,
     sh_info = 0, sh_addralign = 1, sh_entsize = 0\<rparr>"

definition sample_layout :: elf_layout where
  "sample_layout = \<lparr>entrypoint = 0, program_header_offset = 64, program_header_size = 56, program_header_count = 1,
     program_headers = [sample_load 0 0], section_headers = [sample_section], section_name_index = 0, private_section_index = 0\<rparr>"

definition sample_file :: bytes where
  "sample_file = replicate 0x20 0 @ to_le 8 (64 :: u64) @ replicate 16 0 @ to_le 2 (1 :: u16) @ replicate 6 0
     @ encode_load (sample_load 0 0) @ replicate 65 0"

lemma sample_agrees: "file_agrees sample_layout sample_file"
proof -
  have len: "length sample_file = 185" by (simp add: sample_file_def)
  have w: "window sample_file 0x20 8 = to_le 8 (64 :: u64)" "window sample_file 0x38 2 = to_le 2 (1 :: u16)"
    "window sample_file 64 56 = encode_load (sample_load 0 0)"
    by (simp_all add: sample_file_def window_def)
  have "entry_at sample_file 64 = Ok (Some (sample_load 0 0))"
    by (rule entry_of_encoded [OF w(3)]) (simp_all add: len usize_limit_def load_in_file_def sample_load_def)
  then have "table_at sample_file 64 1 = Ok [Some (sample_load 0 0)]"
    by (subst table_at_Ok_conv) (simp_all add: usize_limit_def)
  then show ?thesis
    unfolding file_agrees_def w using len by (simp add: sample_layout_def table_at_def from_le_to_le)
qed

lemma sample_append:
  "\<exists>out' l'. append_load_segment sample_layout sample_file (sample_load 176 8) 0 = Ok (out', l')"
proof -
  have len: "length sample_file = 185" by (simp add: sample_file_def)
  let ?m = "patch sample_file 120 (encode_load (sample_load 176 8))"
  have chk: "check_segment sample_layout 185 (sample_load 176 8) = Ok ()"
    by (simp add: check_segment_def sample_layout_def sample_load_def is_power_of_two_def chk_add_w_def check_overlap_def)
  have res: "header_reservation sample_layout = Ok 0"
    by (simp add: header_reservation_def sample_layout_def sample_section_def SHT_NOBITS_def chk_add_def checked_index_def chk_mul_def usize_limit_def)
  have "window ?m 64 4 = to_le 4 PT_LOAD"
    by (subst window_patch_frame) (simp_all add: len, simp add: sample_file_def encode_load_def window_def)
  then have "read_le 4 ?m 64 = Ok PT_LOAD"
    using len by (subst read_le_in) (simp_all add: length_patch usize_limit_def from_le_to_le)
  then have "update_pt_phdr ?m 64 1 56 None 112 = Ok ?m"
    by (simp add: update_pt_phdr_def pt_phdr_step_def checked_index_def chk_mul_def chk_add_def usize_limit_def PT_LOAD_def PT_PHDR_def)
  then have ins: "install_in_place sample_layout (encode_load (sample_load 176 8)) sample_file 112 = Ok ?m"
    by (simp add: install_in_place_def sample_layout_def checked_index_def chk_mul_def chk_add_def usize_limit_def put_or_def len)
  have "length ?m = 185" using len by (simp add: length_patch)
  then show ?thesis
    using chk res ins
    by (simp add: append_load_segment_def len install_header_def sample_layout_def chk_add_def chk_mul_def usize_limit_def put_or_def)
qed

theorem append_load_segment_agrees_witness:
  "\<exists>out' l'. append_load_segment sample_layout sample_file (sample_load 176 8) 0 = Ok (out', l')
     \<and> file_agrees l' out' \<and> program_headers l' = [sample_load 0 0, sample_load 176 8]"
proof -
  obtain out' l' where r: "append_load_segment sample_layout sample_file (sample_load 176 8) 0 = Ok (out', l')"
    using sample_append by blast
  have "0x40 \<le> unat (p_offset (sample_load 176 8))" by (simp add: sample_load_def)
  from append_load_segment_agrees [OF sample_agrees r this] r show ?thesis by (auto simp: sample_layout_def)
qed

section \<open>Sections\<close>

text \<open>Installing the header behind the table overwrites no section of the file: when no relocation is asked for,
  every section with contents reads the same before and after.\<close>

theorem append_load_segment_keeps_sections:
  assumes "file_agrees l out" and "append_load_segment l out s 0 = Ok (out', l')"
    and "sec \<in> set (section_headers l)" and "sh_type sec \<noteq> SHT_NOBITS" and "sh_size sec \<noteq> 0"
  shows "slice_u64 out' (sh_offset sec) (sh_size sec) = slice_u64 out (sh_offset sec) (sh_size sec)"
proof -
  let ?base = "program_header_offset l" and ?cnt = "program_header_count l"
  obtain es where es: "table_at out ?base ?cnt = Ok es" using assms(1) by (auto simp: file_agrees_def table_at_def)
  have base: "program_header_size l = 56" "0x40 \<le> ?base" "0x40 \<le> length out" using assms(1) by (simp_all add: file_agrees_def)
  obtain out1 off cnt' where chk: "check_segment l (length out) s = Ok ()" and resv: "header_reservation l = Ok 0"
      and inst: "install_header l s out 0 (?cnt + 1) (?cnt * 56) ((?cnt + 1) * 56) = Ok (out1, off, cnt')"
      and fin: "(if cnt' = ?cnt + 1
            then put_or ''ELF header is truncated'' out1 0x38 (to_le 2 (word_of_nat (?cnt + 1) :: u16)) else Ok out1) = Ok out'"
    using assms(2) base(1) by (auto simp: append_load_segment_def res_conv split: if_splits)
  let ?offs = "sh_offset ` {s \<in> set (section_headers l). sh_type s \<noteq> SHT_NOBITS \<and> sh_size s \<noteq> 0}"
  have lim: "?base + ?cnt * 56 + 56 < usize_limit" and min: "?base + ?cnt * 56 + 56 \<le> unat (Min ?offs)"
  proof -
    have "?offs \<noteq> {}" using assms(3-5) by auto
    then show "?base + ?cnt * 56 + 56 < usize_limit" "?base + ?cnt * 56 + 56 \<le> unat (Min ?offs)"
      using resv base(1) by (auto simp: header_reservation_def res_conv Let_def filter_empty_conv split: if_splits)
  qed
  have "Min ?offs \<le> sh_offset sec" using assms(3-5) by (intro Min_le) auto
  then have sec: "?base + ?cnt * 56 + 56 \<le> unat (sh_offset sec)" using min by (simp add: word_le_nat_alt)
  have i: "install_in_place l (encode_load s) out ((?cnt + 1) * 56) = Ok out1" "cnt' = Suc ?cnt"
    using inst by (auto simp: install_header_def res_conv)
  note t = install_in_place_table [OF i(1) base(1) refl refl lim es check_segment_in_file [OF chk]]
  have o': "out' = patch out1 0x38 (to_le 2 (word_of_nat (Suc ?cnt) :: u16))" using fin i(2) by (simp add: res_conv)
  have len: "length out' = length out" using o' t base by (simp add: length_patch)
  have "window out' (unat (sh_offset sec)) n = window out (unat (sh_offset sec)) n" for n
  proof -
    have "window out' (unat (sh_offset sec)) n = window out1 (unat (sh_offset sec)) n"
      unfolding o' by (rule window_patch_frame) (use t base sec in auto)
    then show ?thesis using t sec by simp
  qed
  then show ?thesis by (simp add: slice_u64_def usize_from_u64_def checked_slice_def get_range_def len)
qed

section \<open>What the parser guarantees\<close>

lemma filter_enumerate:
  "map fst (filter (\<lambda>e. P (snd e)) (enumerate 0 xs)) = filter (\<lambda>i. P (xs ! i)) [0..<length xs]"
proof -
  have "enumerate 0 xs = map (\<lambda>i. (i, xs ! i)) [0..<length xs]"
    by (rule nth_equalityI) (simp_all add: nth_enumerate_eq)
  then show ?thesis by (simp add: filter_map comp_def)
qed

lemma find_private_Ok:
  "find_private b shs = Ok i \<Longrightarrow> (case filter (\<lambda>i. sh_type (shs ! i) = SHT_LOUSER) [0..<length shs] of
     [] \<Rightarrow> \<not> b \<and> i = usize_limit - 1 | [j] \<Rightarrow> i = j | _ \<Rightarrow> False)"
  using filter_enumerate [of "\<lambda>s. sh_type s = SHT_LOUSER" shs]
  by (auto simp: find_private_def split: list.splits if_splits)

lemma somes_Ok:
  assumes "mapM (parse_phdr data base sz) is = Ok es" and "s \<in> set (somes es)"
  shows "load_in_file (length data) s"
proof -
  have "Some s \<in> set es" using assms(2) by (auto simp: somes_def)
  then obtain i where "parse_phdr data base sz i = Ok (Some s)" using mapM_Ok_set [OF assms(1)] by blast
  then show ?thesis
    by (auto simp: parse_phdr_def parse_load_def load_in_file_def res_conv unat_add_no_wrap split: if_splits)
qed

lemma name_at_Ok: "name_at strings off = Ok n \<Longrightarrow> utf8_valid n \<and> 0 \<notin> set n"
  by (auto simp: name_at_def Let_def split: if_splits dest: set_takeWhileD)

lemma section_names_Ok:
  assumes "section_names l data = Ok names"
  shows "length names = length (section_headers l) \<and> (\<forall>n\<in>set names. utf8_valid n \<and> 0 \<notin> set n)"
proof -
  obtain strings where m: "mapM (section_name strings) (enumerate 0 (section_headers l)) = Ok names"
    using assms by (auto simp: section_names_def Let_def res_conv split: if_splits)
  have "utf8_valid n \<and> 0 \<notin> set n" if n: "n \<in> set names" for n
    using mapM_Ok_set [OF m n] name_at_Ok by (auto simp: section_name_def res_conv)
  then show ?thesis using mapM_Ok_length [OF m] by simp
qed

text \<open>C14. A parsed layout is well formed: it has load segments and all of them lie in the file, every section name is a
  valid string without NUL, the private section is the only one of its type, and the layout agrees with
  the file it was read from.\<close>

theorem parse_layout_sound:
  assumes "parse_layout data require_private = Ok l"
  shows "program_headers l \<noteq> [] \<and> (\<forall>s\<in>set (program_headers l). load_in_file (length data) s)
    \<and> (\<exists>names. section_names l data = Ok names \<and> length names = length (section_headers l)
         \<and> (\<forall>n\<in>set names. utf8_valid n \<and> 0 \<notin> set n))
    \<and> (case filter (\<lambda>i. sh_type (section_headers l ! i) = SHT_LOUSER) [0..<length (section_headers l)] of
         [] \<Rightarrow> \<not> require_private \<and> private_section_index l = usize_limit - 1
       | [j] \<Rightarrow> private_section_index l = j | _ \<Rightarrow> False)
    \<and> (0x40 \<le> program_header_offset l \<longrightarrow> file_agrees l data)"
proof -
  let ?pho = "unat (from_le (window data 0x20 8) :: u64)" and ?phc = "unat (from_le (window data 0x38 2) :: u16)"
  obtain es shds pidx names where len: "0x40 \<le> length data"
      and es: "mapM (parse_phdr data ?pho 0x38) [0..<?phc] = Ok es" "somes es \<noteq> []"
      and priv: "find_private require_private shds = Ok pidx" and names: "section_names l data = Ok names"
      and l: "program_header_offset l = ?pho" "program_header_size l = 0x38" "program_header_count l = ?phc"
        "program_headers l = somes es" "section_headers l = shds" "private_section_index l = pidx"
    using assms unfolding parse_layout_def Let_def usize_from_u64_def
    by (auto simp: res_conv simp del: upt_Suc split: if_splits)
  have "file_agrees l data" if "0x40 \<le> program_header_offset l"
    using that len es l by (auto simp: file_agrees_def)
  then show ?thesis
    using es(2) l somes_Ok [OF es(1)] names section_names_Ok [OF names] find_private_Ok [OF priv] by auto
qed


lemma parse_encoded_section:
  assumes "window data off 64 = encode_section s" and "off + 64 \<le> length data" and "off + 64 < usize_limit"
  shows "parse_section data off = Ok s"
proof -
  have r: "read_le n data (off + k) = Ok (from_le (window (encode_section s) k n))" if "k + n \<le> 64" for k n
  proof -
    have "window data (off + k) n = window (encode_section s) k n"
      using that window_window [of k n 64 data off] by (simp add: assms(1))
    then show ?thesis using that assms(2,3) by (subst read_le_in) simp_all
  qed
  have w: "window (encode_section s) 0 4 = to_le 4 (sh_name s)" "window (encode_section s) 4 4 = to_le 4 (sh_type s)"
    "window (encode_section s) 8 8 = to_le 8 (sh_flags s)" "window (encode_section s) 0x10 8 = to_le 8 (sh_addr s)"
    "window (encode_section s) 0x18 8 = to_le 8 (sh_offset s)" "window (encode_section s) 0x20 8 = to_le 8 (sh_size s)"
    "window (encode_section s) 0x28 4 = to_le 4 (sh_link s)" "window (encode_section s) 0x2c 4 = to_le 4 (sh_info s)"
    "window (encode_section s) 0x30 8 = to_le 8 (sh_addralign s)" "window (encode_section s) 0x38 8 = to_le 8 (sh_entsize s)"
    by (simp_all add: encode_section_def window_def)
  have "read_le 4 data off = (Ok (from_le (window (encode_section s) 0 4)) :: (u32, err) res)"
    using r [of 0 4] by simp
  then have "read_le 4 data off = Ok (sh_name s)" by (simp add: w(1) from_le_to_le)
  then show ?thesis by (simp add: parse_section_def r w from_le_to_le)
qed

definition sample_elf :: bytes where
  "sample_elf = [0x7f, 0x45, 0x4c, 0x46, 2, 1] @ replicate 12 0 @ to_le 2 AARCH64_MACHINE @ replicate 12 0 @ to_le 8 (64 :: u64)
     @ to_le 8 (120 :: u64) @ replicate 6 0 @ to_le 2 (0x38 :: u16) @ to_le 2 (1 :: u16) @ to_le 2 (0x40 :: u16)
     @ to_le 2 (1 :: u16) @ to_le 2 (0 :: u16) @ encode_load (sample_load 0 64) @ encode_section sample_section @ [0]"

lemma sample_elf_parse:
  "\<exists>l. parse_layout sample_elf False = Ok l \<and> program_header_offset l = 64 \<and> section_headers l = [sample_section]"
proof -
  have len: "length sample_elf = 185" by (simp add: sample_elf_def encode_section_def)
  have w: "window sample_elf 0 6 = [0x7f, 0x45, 0x4c, 0x46, 2, 1]" "window sample_elf 0x12 2 = to_le 2 AARCH64_MACHINE"
    "window sample_elf 0x18 8 = replicate 8 0"
    "window sample_elf 0x20 8 = to_le 8 (64 :: u64)" "window sample_elf 0x28 8 = to_le 8 (120 :: u64)"
    "window sample_elf 0x36 2 = to_le 2 (0x38 :: u16)" "window sample_elf 0x38 2 = to_le 2 (1 :: u16)"
    "window sample_elf 0x3a 2 = to_le 2 (0x40 :: u16)" "window sample_elf 0x3c 2 = to_le 2 (1 :: u16)"
    "window sample_elf 0x3e 2 = to_le 2 (0 :: u16)"
    "window sample_elf 64 56 = encode_load (sample_load 0 64)" "window sample_elf 120 64 = encode_section sample_section"
    "window sample_elf 184 (Suc 0) = [0]"
    by (simp_all add: sample_elf_def window_def encode_section_def del: to_le.simps)
  have e: "entry_at sample_elf 64 = Ok (Some (sample_load 0 64))"
    by (rule entry_of_encoded [OF w(11)]) (simp_all add: len usize_limit_def load_in_file_def sample_load_def)
  have s: "parse_section sample_elf 120 = Ok sample_section"
    by (rule parse_encoded_section [OF w(12)]) (simp_all add: len usize_limit_def)
  have p: "parse_phdr sample_elf 64 56 0 = Ok (Some (sample_load 0 64))"
    using e by (simp add: parse_phdr_entry usize_limit_def)
  show ?thesis
    by (simp add: parse_layout_def checked_slice_in read_le_in len usize_limit_def w from_le_to_le usize_from_u64_def p s
        checked_index_def chk_mul_def chk_add_def find_private_def sample_section_def SHT_LOUSER_def section_names_def
        SHT_STRTAB_def slice_u64_def section_name_def name_at_def Let_def)
qed

theorem parse_layout_sound_witness:
  "\<exists>l. parse_layout sample_elf False = Ok l \<and> program_headers l \<noteq> [] \<and> file_agrees l sample_elf"
proof -
  obtain l where l: "parse_layout sample_elf False = Ok l" "program_header_offset l = 64" using sample_elf_parse by blast
  show ?thesis using parse_layout_sound [OF l(1)] l by auto
qed

theorem append_load_segment_keeps_sections_witness:
  "\<exists>out' l'. append_load_segment sample_layout sample_file (sample_load 176 8) 0 = Ok (out', l')
     \<and> slice_u64 out' 184 1 = slice_u64 sample_file 184 1"
proof -
  obtain out' l' where r: "append_load_segment sample_layout sample_file (sample_load 176 8) 0 = Ok (out', l')"
    using sample_append by blast
  have "slice_u64 out' (sh_offset sample_section) (sh_size sample_section)
      = slice_u64 sample_file (sh_offset sample_section) (sh_size sample_section)"
    by (rule append_load_segment_keeps_sections [OF sample_agrees r])
      (simp_all add: sample_layout_def sample_section_def SHT_NOBITS_def)
  then show ?thesis using r by (simp add: sample_section_def)
qed

end
