(* ===== verification/MetaLayout.thy ===== *)
theory MetaLayout
  imports Readers
begin

unbundle bit_operations_syntax

text \<open>
  \<^verbatim>\<open>senbei-metadata/src/layout.rs\<close>: header offsets and record layouts of the known metadata versions, the
  compact record layout of version 39, and the identification of a header with its capabilities.
\<close>

section \<open>Fixed layouts\<close>

definition MAGIC :: u32 where "MAGIC = 0xFAB11BAF"

record header_layout =
  hl_magic :: nat
  hl_version :: nat
  hl_methods :: nat
  hl_types :: nat
  hl_images :: nat

definition HEADER :: header_layout where
  "HEADER = \<lparr>hl_magic = 0x00, hl_version = 0x04, hl_methods = 0x30, hl_types = 0xA0, hl_images = 0xA8\<rparr>"

record method_record =
  mr_stride :: nat
  mr_token :: nat

record type_record =
  tr_stride :: nat
  tr_method_start :: nat
  tr_method_count :: nat

record image_record =
  ir_stride :: nat
  ir_type_start :: nat
  ir_type_count :: nat

record fixed_layout =
  fl_method :: method_record
  fl_types :: type_record
  fl_images :: image_record

definition layout_v29 :: fixed_layout where
  "layout_v29 = \<lparr>fl_method = \<lparr>mr_stride = 0x20, mr_token = 0x14\<rparr>,
     fl_types = \<lparr>tr_stride = 0x58, tr_method_start = 0x24, tr_method_count = 0x40\<rparr>,
     fl_images = \<lparr>ir_stride = 0x28, ir_type_start = 0x08, ir_type_count = 0x0C\<rparr>\<rparr>"

definition layout_v31 :: fixed_layout where
  "layout_v31 = \<lparr>fl_method = \<lparr>mr_stride = 0x24, mr_token = 0x18\<rparr>,
     fl_types = fl_types layout_v29, fl_images = fl_images layout_v29\<rparr>"

record method_index_record =
  mi_stride :: nat
  mi_index :: nat

definition V24_1_METHOD_INDEX :: method_index_record where
  "V24_1_METHOD_INDEX = \<lparr>mi_stride = 0x34, mi_index = 0x14\<rparr>"

section \<open>Version 39\<close>

definition SECTION_HEADER_BASE :: nat where "SECTION_HEADER_BASE = 0x08"
definition SECTION_HEADER_STRIDE :: nat where "SECTION_HEADER_STRIDE = 0x0C"
definition SECTION_METHODS :: nat where "SECTION_METHODS = 5"
definition SECTION_PARAMETERS :: nat where "SECTION_PARAMETERS = 10"
definition SECTION_GENERIC_CONTAINERS :: nat where "SECTION_GENERIC_CONTAINERS = 14"
definition SECTION_INTERFACE_OFFSETS :: nat where "SECTION_INTERFACE_OFFSETS = 18"
definition SECTION_TYPES :: nat where "SECTION_TYPES = 19"
definition SECTION_IMAGES :: nat where "SECTION_IMAGES = 20"

record widths =
  w_type_definition :: nat
  w_type_index :: nat
  w_parameter :: nat
  w_generic_container :: nat

record records39 =
  method_stride :: nat
  method_token_offset :: nat
  type_stride :: nat
  type_method_start_offset :: nat
  type_method_count_offset :: nat
  image_stride :: nat

definition index_width :: "nat \<Rightarrow> nat" where
  "index_width n = (if n \<le> 0xff then 1 else if n \<le> 0xffff then 2 else 4)"

definition type_index_width :: "nat \<Rightarrow> nat \<Rightarrow> nat option" where
  "type_index_width interface_size interface_count =
     (if interface_count = 0 then Some 4
      else Option.bind (chk_sub (interface_size div interface_count) 4)
             (\<lambda>w. if w \<in> {1, 2, 4} then Some w else None))"

definition add_all :: "nat \<Rightarrow> nat list \<Rightarrow> nat option" where
  "add_all n ns = fold (\<lambda>k acc. Option.bind acc (\<lambda>v. chk_add v k)) ns (Some n)"

definition from_widths :: "widths \<Rightarrow> records39 option" where
  "from_widths w =
     Option.bind (add_all 20 [w_type_definition w, w_type_index w, w_parameter w, w_generic_container w]) (\<lambda>ms.
     Option.bind (chk_mul (w_type_index w) 3) (\<lambda>t3.
     Option.bind (add_all 68 [t3, w_generic_container w]) (\<lambda>ts.
     Option.bind (Option.bind (chk_mul (w_type_definition w) 2) (\<lambda>d2. chk_add 32 d2)) (\<lambda>is.
     Option.bind (add_all 16 [t3, w_generic_container w]) (\<lambda>st.
     Option.bind (chk_add st (7 * 4)) (\<lambda>ct.
     Option.bind (add_all 4 [w_type_definition w, w_type_index w, 4, w_parameter w, w_generic_container w]) (\<lambda>tok.
       Some \<lparr>method_stride = ms, method_token_offset = tok, type_stride = ts, type_method_start_offset = st,
             type_method_count_offset = ct, image_stride = is\<rparr>)))))))"

section \<open>Versions and capabilities\<close>

datatype metadata_version = V24 | V29 | V31 | V39 | Unknown u32

datatype layout_status = Known | ContextRequired | Unverified

record capabilities =
  seeded_method_tokens :: bool
  structural_method_tokens :: bool
  method_index_restore :: bool
  method_index_requires_context :: bool

record metadata_identity =
  raw_version :: u32
  id_version :: metadata_version
  id_layout :: layout_status
  id_capabilities :: capabilities

definition from_raw :: "u32 \<Rightarrow> metadata_version" where
  "from_raw v = (if v = 24 then V24 else if v = 29 then V29 else if v = 31 then V31 else if v = 39 then V39 else Unknown v)"

fun raw :: "metadata_version \<Rightarrow> u32" where
  "raw V24 = 24"
| "raw V29 = 29"
| "raw V31 = 31"
| "raw V39 = 39"
| "raw (Unknown v) = v"

fun layout_status_of :: "metadata_version \<Rightarrow> layout_status" where
  "layout_status_of V24 = ContextRequired"
| "layout_status_of V29 = Known"
| "layout_status_of V31 = Known"
| "layout_status_of V39 = Known"
| "layout_status_of (Unknown v) = Unverified"

definition NO_CAPABILITIES :: capabilities where
  "NO_CAPABILITIES = \<lparr>seeded_method_tokens = False, structural_method_tokens = False, method_index_restore = False,
     method_index_requires_context = False\<rparr>"

fun capabilities_of :: "metadata_version \<Rightarrow> capabilities" where
  "capabilities_of V24 = \<lparr>seeded_method_tokens = False, structural_method_tokens = False, method_index_restore = True,
     method_index_requires_context = True\<rparr>"
| "capabilities_of V29 = \<lparr>seeded_method_tokens = True, structural_method_tokens = False, method_index_restore = False,
     method_index_requires_context = False\<rparr>"
| "capabilities_of V31 = \<lparr>seeded_method_tokens = True, structural_method_tokens = True, method_index_restore = False,
     method_index_requires_context = False\<rparr>"
| "capabilities_of V39 = \<lparr>seeded_method_tokens = True, structural_method_tokens = False, method_index_restore = False,
     method_index_requires_context = False\<rparr>"
| "capabilities_of (Unknown v) = NO_CAPABILITIES"

definition identity_of :: "metadata_version \<Rightarrow> metadata_identity" where
  "identity_of v = \<lparr>raw_version = raw v, id_version = v, id_layout = layout_status_of v, id_capabilities = capabilities_of v\<rparr>"

definition identify :: "bytes \<Rightarrow> metadata_identity option" where
  "identify data =
     Option.bind (get_le 4 data (hl_magic HEADER)) (\<lambda>magic.
       if magic \<noteq> MAGIC then None
       else Option.bind (get_le 4 data (hl_version HEADER)) (\<lambda>version. Some (identity_of (from_raw version))))"

definition fixed_layout_of :: "u32 \<Rightarrow> fixed_layout option" where
  "fixed_layout_of version = (case from_raw version of V29 \<Rightarrow> Some layout_v29 | V31 \<Rightarrow> Some layout_v31 | _ \<Rightarrow> None)"

text \<open>\<^verbatim>\<open>senbei-metadata/src/common.rs\<close>\<close>

definition is_metadata :: "bytes \<Rightarrow> bool" where
  "is_metadata data = (case get_le 4 data 0 of None \<Rightarrow> False | Some w \<Rightarrow> w = MAGIC)"

section \<open>Formatting\<close>

definition hex_digit :: "nat \<Rightarrow> char" where
  "hex_digit d = ''0123456789ABCDEF'' ! d"

text \<open>\<open>format!("0x{:08X}", w)\<close>\<close>

definition hex_u32 :: "u32 \<Rightarrow> string" where
  "hex_u32 w = ''0x'' @ map (\<lambda>i. hex_digit (unat (drop_bit (4 * i) w) mod 16)) (rev [0..<8])"

section \<open>Lemmas\<close>

lemma identify_is_metadata: "identify data \<noteq> None \<longleftrightarrow> is_metadata data \<and> 8 \<le> length data"
proof (cases "get_le 4 data 0 :: u32 option")
  case None
  then show ?thesis by (simp add: identify_def is_metadata_def HEADER_def)
next
  case (Some w)
  have "(\<exists>v :: u32. get_le 4 data 4 = Some v) \<longleftrightarrow> 8 \<le> length data" by (auto simp: get_le_Some_conv)
  with Some show ?thesis
    by (cases "get_le 4 data 4 :: u32 option") (auto simp: identify_def is_metadata_def HEADER_def)
qed

lemma raw_from_raw [simp]: "raw (from_raw v) = v"
  by (simp add: from_raw_def)

lemma index_width_fits: "n < 2 ^ 32 \<Longrightarrow> k < n \<Longrightarrow> k < 256 ^ index_width n"
  by (auto simp: index_width_def)

text \<open>Every field of a compact record lies inside the record, whatever the widths.\<close>

lemma from_widths_inside:
  assumes "from_widths w = Some r"
  shows "method_token_offset r + 4 \<le> method_stride r" and "type_method_start_offset r + 4 \<le> type_stride r"
    and "type_method_count_offset r + 2 \<le> type_stride r"
  using assms by (auto simp: from_widths_def add_all_def bind_eq_Some_conv chk_add_Some_conv chk_mul_Some_conv)

lemma from_widths_total:
  assumes "w_type_definition w \<le> 4" and "w_type_index w \<le> 4" and "w_parameter w \<le> 4" and "w_generic_container w \<le> 4"
  shows "\<exists>r. from_widths w = Some r"
  using assms by (simp add: from_widths_def add_all_def chk_add_def chk_mul_def usize_limit_def)

end
