(* ===== verification/Columns.thy ===== *)
theory Columns
  imports Readers
begin

unbundle bit_operations_syntax

text \<open>
  Tables of fixed-size records in a byte buffer, and the passes that rewrite one 32-bit column of such a
  table: what a pass over the first records has done to the buffer. The token and index restorations of
  the metadata crate are passes of this kind.
\<close>

section \<open>Words of a buffer\<close>

definition word_at :: "bytes \<Rightarrow> nat \<Rightarrow> u32" where
  "word_at data off = from_le (window data off 4)"

definition half_at :: "bytes \<Rightarrow> nat \<Rightarrow> u16" where
  "half_at data off = from_le (window data off 2)"

lemma to_le_word_at: "a + 4 \<le> length xs \<Longrightarrow> to_le 4 (word_at xs a) = window xs a 4"
  unfolding word_at_def by (subst to_le_from_le) (simp_all add: length_window)

lemma word_at_eq_conv:
  assumes "a + 4 \<le> length xs" "b + 4 \<le> length ys"
  shows "word_at xs a = word_at ys b \<longleftrightarrow> window xs a 4 = window ys b 4"
proof
  assume "word_at xs a = word_at ys b"
  then have "to_le 4 (word_at xs a) = to_le 4 (word_at ys b)" by simp
  then show "window xs a 4 = window ys b 4" by (simp only: to_le_word_at [OF assms(1)] to_le_word_at [OF assms(2)])
qed (simp add: word_at_def)

lemma window_eq_outside:
  assumes "length ys = length xs" and "\<And>k. k < length xs \<Longrightarrow> a \<le> k \<Longrightarrow> k < a + n \<Longrightarrow> ys ! k = xs ! k"
  shows "window ys a n = window xs a n"
  using assms by (intro nth_equalityI) (auto simp: window_def)

lemma get_le_cong: "length xs = length ys \<Longrightarrow> window xs a n = window ys a n \<Longrightarrow> get_le n xs a = get_le n ys a"
  by (simp add: get_le_def get_range_def)

lemma entry_inside: "(k :: nat) < tbl div stride \<Longrightarrow> off + n \<le> stride \<Longrightarrow> k * stride + off + n \<le> tbl"
proof -
  assume k: "k < tbl div stride" and o: "off + n \<le> stride"
  have "(k + 1) * stride \<le> tbl div stride * stride" using k by (intro mult_right_mono) auto
  also have "\<dots> \<le> tbl" by simp
  finally show ?thesis using o by simp
qed

section \<open>Columns\<close>

record column =
  col_base :: nat
  col_stride :: nat
  col_field :: nat

definition cell :: "column \<Rightarrow> nat \<Rightarrow> nat" where
  "cell c j = col_base c + j * col_stride c + col_field c"

definition column_ok :: "column \<Rightarrow> bool" where
  "column_ok c \<longleftrightarrow> col_field c + 4 \<le> col_stride c"

lemma cell_Suc: "cell c (Suc n) = cell c n + col_stride c"
  by (simp add: cell_def)

lemma cell_less: "j < n \<Longrightarrow> cell c j + col_stride c \<le> cell c n"
proof -
  assume "j < n"
  then have "Suc j * col_stride c \<le> n * col_stride c" by (intro mult_right_mono) auto
  then show ?thesis by (simp add: cell_def)
qed

text \<open>The state of a pass after the records in \<open>S\<close>: their cells hold the new values, every other byte is as
  before, and the counter is the number of cells whose value changed.\<close>

definition cells_written :: "bytes \<Rightarrow> column \<Rightarrow> (nat \<Rightarrow> u32) \<Rightarrow> nat set \<Rightarrow> bytes \<Rightarrow> nat \<Rightarrow> bool" where
  "cells_written data c new S out changed \<longleftrightarrow> finite S \<and> length out = length data
     \<and> (\<forall>j\<in>S. window out (cell c j) 4 = to_le 4 (new j))
     \<and> (\<forall>k<length data. (\<forall>j\<in>S. k \<notin> {cell c j..<cell c j + 4}) \<longrightarrow> out ! k = data ! k)
     \<and> changed = card {j\<in>S. window data (cell c j) 4 \<noteq> to_le 4 (new j)}"

lemma cells_written_empty: "cells_written data c new {} data 0"
  by (simp add: cells_written_def)

lemma cells_written_length: "cells_written data c new S out r \<Longrightarrow> length out = length data"
  by (simp add: cells_written_def)

lemma cells_apart:
  assumes "column_ok c" and "i \<noteq> j" and "cell c i \<le> k" and "k < cell c i + 4"
  shows "k \<notin> {cell c j..<cell c j + 4}"
  using cell_less [of i j c] cell_less [of j i c] assms by (cases i j rule: linorder_cases) (auto simp: column_ok_def)

lemma cells_written_elsewhere:
  assumes w: "cells_written data c new S out r" and c: "column_ok c" and "j \<notin> S"
  shows "window out (cell c j) 4 = window data (cell c j) 4"
proof (rule window_eq_outside)
  show "length out = length data" by (rule cells_written_length [OF w])
  fix k assume k: "k < length data" "cell c j \<le> k" "k < cell c j + 4"
  have "k \<notin> {cell c i..<cell c i + 4}" if "i \<in> S" for i
    using that assms(3) by (intro cells_apart [OF c _ k(2,3)]) auto
  then show "out ! k = data ! k" using w k(1) by (simp add: cells_written_def)
qed

lemma cells_written_insert:
  assumes w: "cells_written data c new S out r" and c: "column_ok c" and j: "j \<notin> S" and fit: "cell c j + 4 \<le> length data"
  shows "cells_written data c new (insert j S) (patch out (cell c j) (to_le 4 (new j)))
           (r + (if window out (cell c j) 4 \<noteq> to_le 4 (new j) then 1 else 0))"
proof -
  let ?p = "cell c j" and ?t = "to_le 4 (new j)" let ?out = "patch out ?p ?t"
  have fit': "?p + length ?t \<le> length out" using fit cells_written_length [OF w] by simp
  have fin: "finite S" using w by (simp add: cells_written_def)
  have same: "window out ?p 4 = window data ?p 4" by (rule cells_written_elsewhere [OF w c j])
  have other: "window ?out (cell c i) 4 = to_le 4 (new i)" if "i \<in> S" for i
  proof -
    have "window ?out (cell c i) 4 = window out (cell c i) 4"
      using cell_less [of i j c] cell_less [of j i c] that j c
      by (intro window_patch_disjoint [OF fit']) (cases i j rule: linorder_cases; auto simp: column_ok_def)
    then show ?thesis using w that by (simp add: cells_written_def)
  qed
  have keep: "?out ! k = data ! k" if "k < length data" "\<forall>i\<in>insert j S. k \<notin> {cell c i..<cell c i + 4}" for k
  proof -
    have "?out ! k = out ! k" using fit' that cells_written_length [OF w] by (subst nth_patch) auto
    then show ?thesis using w that by (simp add: cells_written_def)
  qed
  have "{i \<in> insert j S. window data (cell c i) 4 \<noteq> to_le 4 (new i)}
      = (if window data ?p 4 \<noteq> ?t then insert j {i\<in>S. window data (cell c i) 4 \<noteq> to_le 4 (new i)}
         else {i\<in>S. window data (cell c i) 4 \<noteq> to_le 4 (new i)})" by auto
  then have "r + (if window out ?p 4 \<noteq> ?t then 1 else 0) = card {i \<in> insert j S. window data (cell c i) 4 \<noteq> to_le 4 (new i)}"
    using w j fin same by (simp add: cells_written_def)
  then show ?thesis
    unfolding cells_written_def using fin fit' other keep cells_written_length [OF w] by (simp add: ranges)
qed

text \<open>A cell that already holds its new value may be counted as written.\<close>

lemma cells_written_same:
  assumes w: "cells_written data c new S out r" and c: "column_ok c" and j: "j \<notin> S" and fit: "cell c j + 4 \<le> length data"
    and eq: "word_at data (cell c j) = new j"
  shows "cells_written data c new (insert j S) out r"
proof -
  have "window out (cell c j) 4 = to_le 4 (new j)"
    using cells_written_elsewhere [OF w c j] to_le_word_at [OF fit] eq by simp
  then show ?thesis
    using cells_written_insert [OF w c j fit] patch_window [of "cell c j" 4 out] fit cells_written_length [OF w] by simp
qed

text \<open>Writing only the cells that differ gives the same buffer.\<close>

lemma patch_unless_equal:
  "p + 4 \<le> length xs \<Longrightarrow> length bs = 4 \<Longrightarrow> (if window xs p 4 \<noteq> bs then patch xs p bs else xs) = patch xs p bs"
  using patch_window [of p 4 xs] by auto

lemma cells_written_cell:
  "cells_written data c new S out r \<Longrightarrow> j \<in> S \<Longrightarrow> word_at out (cell c j) = new j"
  by (simp add: cells_written_def word_at_def from_le_to_le)

lemma cells_written_inside:
  assumes "cells_written data c new S out r" and "j \<in> S"
  shows "cell c j + 4 \<le> length data"
proof -
  have "window out (cell c j) 4 = to_le 4 (new j)" "length out = length data" using assms by (simp_all add: cells_written_def)
  then have "length (window out (cell c j) 4) = 4" "length out = length data" by simp_all
  then show ?thesis by (auto simp: window_def min_def split: if_splits)
qed

lemma cells_written_kept:
  assumes "cells_written data c new S out r" and "column_ok c" and "j \<notin> S"
  shows "word_at out (cell c j) = word_at data (cell c j)"
  using cells_written_elsewhere [OF assms] by (simp add: word_at_def)

lemma cell_bounds:
  assumes "column_ok c" and "j < n"
  shows "col_base c \<le> cell c j \<and> cell c j + 4 \<le> col_base c + n * col_stride c"
proof -
  have "Suc j * col_stride c \<le> n * col_stride c" using assms(2) by (intro mult_right_mono) auto
  then show ?thesis using assms(1) by (auto simp: cell_def column_ok_def)
qed

lemma cells_written_outside:
  assumes w: "cells_written data c new S out r" and c: "column_ok c" and S: "S \<subseteq> {..<n}"
    and away: "a + m \<le> col_base c \<or> col_base c + n * col_stride c \<le> a"
  shows "window out a m = window data a m"
proof (rule window_eq_outside)
  show "length out = length data" by (rule cells_written_length [OF w])
  fix k assume k: "k < length data" "a \<le> k" "k < a + m"
  have "k \<notin> {cell c j..<cell c j + 4}" if "j \<in> S" for j
    using cell_bounds [OF c, of j n] S that away k by auto
  then show "out ! k = data ! k" using w k(1) by (simp add: cells_written_def)
qed

text \<open>The counter is the number of cells whose word changed.\<close>

lemma cells_written_changed:
  assumes w: "cells_written data c new S out r"
  shows "r = card {j\<in>S. word_at data (cell c j) \<noteq> word_at out (cell c j)}"
proof -
  have "window data (cell c j) 4 \<noteq> to_le 4 (new j) \<longleftrightarrow> word_at data (cell c j) \<noteq> word_at out (cell c j)" if "j \<in> S" for j
  proof -
    have "window out (cell c j) 4 = to_le 4 (new j)" using w that by (simp add: cells_written_def)
    then show ?thesis
      using cells_written_inside [OF w that] cells_written_length [OF w] by (simp add: word_at_eq_conv)
  qed
  then have "{j\<in>S. window data (cell c j) 4 \<noteq> to_le 4 (new j)} = {j\<in>S. word_at data (cell c j) \<noteq> word_at out (cell c j)}"
    by blast
  then show ?thesis using w by (simp add: cells_written_def)
qed

section \<open>Passes over a prefix of the records\<close>

definition column_written :: "bytes \<Rightarrow> column \<Rightarrow> (nat \<Rightarrow> u32 option) \<Rightarrow> nat \<Rightarrow> bytes \<Rightarrow> nat \<Rightarrow> bool" where
  "column_written data c new n out changed \<longleftrightarrow>
     cells_written data c (\<lambda>j. the (new j)) {j. j < n \<and> new j \<noteq> None} out changed"

lemma column_written_length: "column_written data c new n out r \<Longrightarrow> length out = length data"
  by (simp add: column_written_def cells_written_length)

lemma column_written_bytes:
  "column_written data c new n out r \<Longrightarrow> k < length data \<Longrightarrow>
     (\<And>j. j < n \<Longrightarrow> new j \<noteq> None \<Longrightarrow> k \<notin> {cell c j..<cell c j + 4}) \<Longrightarrow> out ! k = data ! k"
  by (simp add: column_written_def cells_written_def)

lemma column_written_0: "column_written data c new 0 data 0"
  by (simp add: column_written_def cells_written_empty)

lemma column_written_skip:
  "column_written data c new n out r \<Longrightarrow> new n = None \<Longrightarrow> column_written data c new (Suc n) out r"
proof -
  assume w: "column_written data c new n out r" and "new n = None"
  then have "{j. j < Suc n \<and> new j \<noteq> None} = {j. j < n \<and> new j \<noteq> None}" by (auto simp: less_Suc_eq)
  then show ?thesis using w by (simp add: column_written_def)
qed

lemma column_written_ahead:
  assumes "column_written data c new n out r" and "column_ok c"
  shows "window out (cell c n) 4 = window data (cell c n) 4"
  using cells_written_elsewhere [OF assms(1) [unfolded column_written_def] assms(2)] by simp

lemma column_written_write:
  assumes w: "column_written data c new n out r" and c: "column_ok c"
    and v: "new n = Some v" and fit: "cell c n + 4 \<le> length data"
  shows "column_written data c new (Suc n) (patch out (cell c n) (to_le 4 v))
           (r + (if window out (cell c n) 4 \<noteq> to_le 4 v then 1 else 0))"
proof -
  have "{j. j < Suc n \<and> new j \<noteq> None} = insert n {j. j < n \<and> new j \<noteq> None}" using v by (auto simp: less_Suc_eq)
  then show ?thesis
    using cells_written_insert [OF w [unfolded column_written_def] c _ fit] v by (simp add: column_written_def)
qed

lemma column_written_window:
  "column_written data c new n out r \<Longrightarrow> j < n \<Longrightarrow> new j = Some w \<Longrightarrow> window out (cell c j) 4 = to_le 4 w"
  by (auto simp: column_written_def cells_written_def)

lemma column_written_cell:
  "column_written data c new n out r \<Longrightarrow> j < n \<Longrightarrow> new j = Some w \<Longrightarrow> word_at out (cell c j) = w"
  unfolding column_written_def by (drule cells_written_cell [of _ _ _ _ _ _ j]) auto

lemma column_written_inside:
  "column_written data c new n out r \<Longrightarrow> j < n \<Longrightarrow> new j = Some w \<Longrightarrow> cell c j + 4 \<le> length data"
  unfolding column_written_def by (erule cells_written_inside) simp

lemma column_written_kept:
  "column_written data c new n out r \<Longrightarrow> column_ok c \<Longrightarrow> new j = None \<Longrightarrow> word_at out (cell c j) = word_at data (cell c j)"
  unfolding column_written_def by (erule cells_written_kept) auto

lemma column_written_outside:
  "column_written data c new n out r \<Longrightarrow> column_ok c \<Longrightarrow> a + m \<le> col_base c \<or> col_base c + n * col_stride c \<le> a \<Longrightarrow>
     window out a m = window data a m"
  unfolding column_written_def by (rule cells_written_outside) auto

lemma column_written_changed:
  assumes w: "column_written data c new n out r" and c: "column_ok c"
  shows "r = card {j. j < n \<and> word_at data (cell c j) \<noteq> word_at out (cell c j)}"
proof -
  have "new j \<noteq> None" if "word_at data (cell c j) \<noteq> word_at out (cell c j)" for j
    using column_written_kept [OF w c] that by metis
  then have "{j. j < n \<and> word_at data (cell c j) \<noteq> word_at out (cell c j)}
      = {j \<in> {j. j < n \<and> new j \<noteq> None}. word_at data (cell c j) \<noteq> word_at out (cell c j)}"
    by blast
  then show ?thesis using cells_written_changed [OF w [unfolded column_written_def]] by (simp only:)
qed

end
