(* ===== verification/Structural.thy ===== *)
theory Structural
  imports MetaLayout
begin

unbundle bit_operations_syntax

text \<open>
  \<^verbatim>\<open>senbei-metadata/src/structural.rs\<close>: the structural remap of version 31 method tokens. Every method
  is assigned to the image whose types list it, and its token becomes its 1-based position within the
  image's methods.
\<close>

section \<open>Constants and results\<close>

definition SUPPORTED_VERSION :: u32 where "SUPPORTED_VERSION = raw V31"
definition METHOD_STRIDE :: nat where "METHOD_STRIDE = mr_stride (fl_method layout_v31)"
definition METHOD_TOKEN_OFF :: nat where "METHOD_TOKEN_OFF = mr_token (fl_method layout_v31)"
definition TYPE_STRIDE :: nat where "TYPE_STRIDE = tr_stride (fl_types layout_v31)"
definition TYPE_METHOD_START_OFF :: nat where "TYPE_METHOD_START_OFF = tr_method_start (fl_types layout_v31)"
definition TYPE_METHOD_COUNT_OFF :: nat where "TYPE_METHOD_COUNT_OFF = tr_method_count (fl_types layout_v31)"
definition IMAGE_STRIDE :: nat where "IMAGE_STRIDE = ir_stride (fl_images layout_v31)"
definition IMAGE_TYPE_START_OFF :: nat where "IMAGE_TYPE_START_OFF = ir_type_start (fl_images layout_v31)"
definition IMAGE_TYPE_COUNT_OFF :: nat where "IMAGE_TYPE_COUNT_OFF = ir_type_count (fl_images layout_v31)"
definition METHOD_TOKEN_TABLE :: u32 where "METHOD_TOKEN_TABLE = 0x06000000"
definition NO_METHODS :: u32 where "NO_METHODS = 0xFFFFFFFF"

record report =
  rep_version :: u32
  rep_methods :: nat
  rep_remapped :: nat
  rep_modules :: nat

datatype md_error = NotMetadata | UnsupportedVersion u32 | Malformed

section \<open>The tables\<close>

definition rd_u32 :: "bytes \<Rightarrow> nat \<Rightarrow> (u32, md_error) res" where
  "rd_u32 data off = ok_or Malformed (get_le 4 data off)"

definition rd_u16 :: "bytes \<Rightarrow> nat \<Rightarrow> (u16, md_error) res" where
  "rd_u16 data off = ok_or Malformed (get_le 2 data off)"

definition table :: "bytes \<Rightarrow> nat \<Rightarrow> (nat \<times> nat, md_error) res" where
  "table data hdr_off =
     rbind (rd_u32 data hdr_off) (\<lambda>off. rbind (rd_u32 data (hdr_off + 4)) (\<lambda>size. Ok (unat off, unat size)))"

definition fits :: "bytes \<Rightarrow> nat \<Rightarrow> nat \<Rightarrow> bool" where
  "fits data off len = (case chk_add off len of None \<Rightarrow> False | Some stop \<Rightarrow> stop \<le> length data)"

section \<open>Ownership of methods\<close>

definition claim_method :: "nat \<Rightarrow> nat \<Rightarrow> nat \<Rightarrow> u32 list \<Rightarrow> (u32 list, md_error) res" where
  "claim_method method_count img m module_of =
     (if method_count \<le> m then Err Malformed
      else
      rbind (idx module_of m) (\<lambda>owner.
        if owner \<noteq> 0xFFFFFFFF then Err Malformed else set_at module_of m (word_of_nat img)))"

definition type_step ::
  "bytes \<Rightarrow> nat \<Rightarrow> nat \<Rightarrow> nat \<Rightarrow> nat \<Rightarrow> nat \<Rightarrow> u32 list \<times> u32 \<Rightarrow> (u32 list \<times> u32, md_error) res" where
  "type_step data t_off type_count method_count img t st =
     (let (module_of, first) = st in
      if type_count \<le> t then Err Malformed
      else
      let tb = t_off + t * TYPE_STRIDE in
      rbind (rd_u32 data (tb + TYPE_METHOD_START_OFF)) (\<lambda>ms.
      rbind (rd_u16 data (tb + TYPE_METHOD_COUNT_OFF)) (\<lambda>mc16.
        let mc = ucast mc16 :: u32 in
        if ms = NO_METHODS \<or> mc = 0 then Ok st
        else
        rbind (foldM (claim_method method_count img) [unat ms..<unat (sat_add_w ms mc)] module_of) (\<lambda>module_of'.
          Ok (module_of', min first ms)))))"

definition image_step ::
  "bytes \<Rightarrow> nat \<Rightarrow> nat \<Rightarrow> nat \<Rightarrow> nat \<Rightarrow> nat \<Rightarrow> u32 list \<times> u32 list \<Rightarrow> (u32 list \<times> u32 list, md_error) res" where
  "image_step data i_off t_off type_count method_count img st =
     (let (module_of, firsts) = st; ib = i_off + img * IMAGE_STRIDE in
      rbind (rd_u32 data (ib + IMAGE_TYPE_START_OFF)) (\<lambda>type_start.
      rbind (rd_u32 data (ib + IMAGE_TYPE_COUNT_OFF)) (\<lambda>type_cnt.
      rbind (foldM (type_step data t_off type_count method_count img)
               [unat type_start..<unat (sat_add_w type_start type_cnt)] (module_of, 0xFFFFFFFF)) (\<lambda>(module_of', first).
        Ok (module_of', firsts @ [first])))))"

section \<open>The rewrite\<close>

definition new_token :: "u32 list \<Rightarrow> nat \<Rightarrow> u32 \<Rightarrow> (u32, md_error) res" where
  "new_token module_first mi img =
     rbind (idx module_first (unat img)) (\<lambda>first.
       let local = word_of_nat mi - first in
       Ok (METHOD_TOKEN_TABLE OR ((local + 1) AND 0x00FFFFFF)))"

definition token_step ::
  "nat \<Rightarrow> u32 list \<Rightarrow> u32 list \<Rightarrow> nat \<Rightarrow> bytes \<times> nat \<Rightarrow> (bytes \<times> nat, md_error) res" where
  "token_step m_off module_first module_of mi st =
     (let (out, remapped) = st; img = module_of ! mi in
      if img = 0xFFFFFFFF then Err Malformed
      else
      rbind (new_token module_first mi img) (\<lambda>tok.
      let off = m_off + mi * METHOD_STRIDE + METHOD_TOKEN_OFF in
      rbind (idx_range out off 4) (\<lambda>old.
        if old \<noteq> to_le 4 tok
        then rbind (put out off (to_le 4 tok)) (\<lambda>out'. Ok (out', remapped + 1))
        else Ok st)))"

definition deobfuscate :: "bytes \<Rightarrow> (bytes \<times> report, md_error) res" where
  "deobfuscate data =
     (if get_le 4 data 0 \<noteq> Some MAGIC then Err NotMetadata
      else
      rbind (rd_u32 data 4) (\<lambda>version.
        if version \<noteq> SUPPORTED_VERSION then Err (UnsupportedVersion version)
        else
      rbind (table data (hl_methods HEADER)) (\<lambda>(m_off, m_size).
      rbind (table data (hl_types HEADER)) (\<lambda>(t_off, t_size).
      rbind (table data (hl_images HEADER)) (\<lambda>(i_off, i_size).
        if m_size mod METHOD_STRIDE \<noteq> 0 \<or> t_size mod TYPE_STRIDE \<noteq> 0 \<or> i_size mod IMAGE_STRIDE \<noteq> 0
        then Err Malformed
        else
        let method_count = m_size div METHOD_STRIDE; type_count = t_size div TYPE_STRIDE;
            image_count = i_size div IMAGE_STRIDE in
        if \<not> fits data m_off m_size \<or> \<not> fits data t_off t_size \<or> \<not> fits data i_off i_size then Err Malformed
        else
      rbind (foldM (image_step data i_off t_off type_count method_count) [0..<image_count]
               (replicate method_count 0xFFFFFFFF, [])) (\<lambda>(module_of, module_first).
      rbind (foldM (token_step m_off module_first module_of) [0..<method_count] (data, 0)) (\<lambda>(out, remapped).
        Ok (out, \<lparr>rep_version = version, rep_methods = method_count, rep_remapped = remapped,
                  rep_modules = length (filter (\<lambda>f. f \<noteq> 0xFFFFFFFF) module_first)\<rparr>))))))))"

end
