(* ===== verification/StructuralProps.thy ===== *)
theory StructuralProps
  imports Structural Columns
begin

unbundle bit_operations_syntax

text \<open>
  Correctness of the structural token remap of \<^verbatim>\<open>senbei-metadata/src/structural.rs\<close>: which method belongs
  to which image, what the written tokens are, when the transform is idempotent, and that it never panics.
\<close>

section \<open>Methods of types and images\<close>

definition type_methods :: "bytes \<Rightarrow> nat \<Rightarrow> nat set" where
  "type_methods data tb =
     (let ms = word_at data (tb + TYPE_METHOD_START_OFF); mc = ucast (half_at data (tb + TYPE_METHOD_COUNT_OFF)) :: u32
      in if ms = NO_METHODS \<or> mc = 0 then {} else {unat ms..<unat (sat_add_w ms mc)})"

definition image_types :: "bytes \<Rightarrow> nat \<Rightarrow> nat list" where
  "image_types data ib =
     [unat (word_at data (ib + IMAGE_TYPE_START_OFF))..<
      unat (sat_add_w (word_at data (ib + IMAGE_TYPE_START_OFF)) (word_at data (ib + IMAGE_TYPE_COUNT_OFF)))]"

definition image_methods :: "bytes \<Rightarrow> nat \<Rightarrow> nat \<Rightarrow> nat \<Rightarrow> nat set" where
  "image_methods data i_off t_off img =
     (\<Union>t\<in>set (image_types data (i_off + img * IMAGE_STRIDE)). type_methods data (t_off + t * TYPE_STRIDE))"

lemma rd_u32_Ok_conv: "rd_u32 data off = Ok w \<longleftrightarrow> off + 4 \<le> length data \<and> w = word_at data off"
  by (auto simp: rd_u32_def res_conv word_at_def)

lemma rd_u16_Ok_conv: "rd_u16 data off = Ok w \<longleftrightarrow> off + 2 \<le> length data \<and> w = half_at data off"
  by (auto simp: rd_u16_def res_conv half_at_def)

section \<open>Claiming methods\<close>

text \<open>A successful run over a range claims exactly that range, all of it unclaimed before.\<close>

lemma claim_range:
  assumes "foldM (claim_method n img) [a..<b] mo = Ok mo'" and "length mo = n"
  shows "length mo' = n \<and> (a < b \<longrightarrow> b \<le> n)
    \<and> (\<forall>m<n. mo' ! m = (if a \<le> m \<and> m < b then word_of_nat img else mo ! m))
    \<and> (\<forall>m. a \<le> m \<and> m < b \<longrightarrow> mo ! m = 0xFFFFFFFF)"
  using assms
proof (induction b arbitrary: mo')
  case (Suc b)
  show ?case
  proof (cases "a \<le> b")
    case True
    then obtain mid where mid: "foldM (claim_method n img) [a..<b] mo = Ok mid" and last: "claim_method n img b mid = Ok mo'"
      using Suc.prems(1) by (auto simp: foldM_append res_conv)
    note ih = Suc.IH [OF mid Suc.prems(2)]
    have l: "b < n" "mid ! b = 0xFFFFFFFF" "mo' = mid[b := word_of_nat img]"
      using last ih by (auto simp: claim_method_def res_conv split: if_splits)
    then have "mo ! b = 0xFFFFFFFF" using ih by auto
    then show ?thesis using ih l True by (auto simp: nth_list_update less_Suc_eq)
  next
    case False
    then show ?thesis using Suc.prems by auto
  qed
qed auto

lemma sat_add_gt: "ms \<noteq> NO_METHODS \<Longrightarrow> mc \<noteq> 0 \<Longrightarrow> unat ms < unat (sat_add_w ms (mc :: u32))"
proof -
  assume a: "ms \<noteq> NO_METHODS" "mc \<noteq> 0"
  have c: "0 < unat mc" using a(2) by (simp add: unat_gt_0)
  have "unat (- 1 :: u32) = 2 ^ 32 - 1" by (simp add: unsigned_minus_1_eq_mask mask_eq_exp_minus_1)
  moreover have "unat ms \<noteq> 2 ^ 32 - 1"
  proof
    assume "unat ms = 2 ^ 32 - 1"
    then have "unat ms = unat NO_METHODS" by (simp add: NO_METHODS_def)
    then show False using a(1) by (simp only: word_unat_eq_iff simp_thms)
  qed
  ultimately show ?thesis using c unat_bound [of ms] by (auto simp: sat_add_w_def unat_add_no_wrap)
qed

lemma type_methods_min:
  "type_methods data tb \<noteq> {} \<Longrightarrow> Min (type_methods data tb) = unat (word_at data (tb + TYPE_METHOD_START_OFF))"
  by (auto simp: type_methods_def Let_def intro!: Min_eqI split: if_splits)

definition owned_by :: "u32 list \<Rightarrow> u32 list \<Rightarrow> nat \<Rightarrow> nat \<Rightarrow> nat set \<Rightarrow> bool" where
  "owned_by mo mo' n img M \<longleftrightarrow> length mo' = n \<and> M \<subseteq> {..<n}
     \<and> (\<forall>m<n. mo' ! m = (if m \<in> M then word_of_nat img else mo ! m)) \<and> (\<forall>m\<in>M. mo ! m = 0xFFFFFFFF)"

lemma type_step_owned:
  assumes "type_step data t_off tc n img t (mo, first) = Ok (mo', first')" and "length mo = n"
  shows "owned_by mo mo' n img (type_methods data (t_off + t * TYPE_STRIDE)) \<and> t < tc
    \<and> (type_methods data (t_off + t * TYPE_STRIDE) = {} \<and> first' = first
       \<or> type_methods data (t_off + t * TYPE_STRIDE) \<noteq> {}
         \<and> unat first' = min (unat first) (Min (type_methods data (t_off + t * TYPE_STRIDE))))"
proof -
  let ?ms = "word_at data (t_off + t * TYPE_STRIDE + TYPE_METHOD_START_OFF)"
  let ?mc = "ucast (half_at data (t_off + t * TYPE_STRIDE + TYPE_METHOD_COUNT_OFF)) :: u32"
  have t: "t < tc" using assms(1) by (auto simp: type_step_def split: if_splits)
  show ?thesis
  proof (cases "?ms = NO_METHODS \<or> ?mc = 0")
    case True
    then have "mo' = mo" "first' = first"
      using assms(1) by (auto simp: type_step_def Let_def res_conv rd_u32_Ok_conv rd_u16_Ok_conv split: if_splits)
    then show ?thesis using True t assms(2) by (auto simp: type_methods_def Let_def owned_by_def)
  next
    case False
    then have run: "foldM (claim_method n img) [unat ?ms..<unat (sat_add_w ?ms ?mc)] mo = Ok mo'" and f: "first' = min first ?ms"
      using assms(1) by (auto simp: type_step_def Let_def res_conv rd_u32_Ok_conv rd_u16_Ok_conv split: if_splits)
    have tm: "type_methods data (t_off + t * TYPE_STRIDE) = {unat ?ms..<unat (sat_add_w ?ms ?mc)}"
      using False by (simp add: type_methods_def Let_def)
    have lt: "unat ?ms < unat (sat_add_w ?ms ?mc)" using False by (intro sat_add_gt) auto
    then have mn: "Min (type_methods data (t_off + t * TYPE_STRIDE)) = unat ?ms" unfolding tm by (intro Min_eqI) auto
    note c = claim_range [OF run assms(2)]
    have "unat first' = min (unat first) (unat ?ms)" by (simp add: f min_def word_le_nat_alt)
    then show ?thesis using c lt t mn unfolding tm owned_by_def by auto
  qed
qed


lemma owned_by_refl: "length mo = n \<Longrightarrow> owned_by mo mo n img {}"
  by (simp add: owned_by_def)

lemma owned_by_trans:
  "owned_by mo mo1 n img A \<Longrightarrow> owned_by mo1 mo2 n img B \<Longrightarrow> owned_by mo mo2 n img (A \<union> B)"
proof -
  assume a: "owned_by mo mo1 n img A" and b: "owned_by mo1 mo2 n img B"
  have "mo ! m = 0xFFFFFFFF" if "m \<in> B" for m
  proof -
    have "m < n" "mo1 ! m = 0xFFFFFFFF" using b that by (auto simp: owned_by_def)
    then show ?thesis using a by (cases "m \<in> A") (auto simp: owned_by_def)
  qed
  then show ?thesis using a b by (auto simp: owned_by_def)
qed

lemma finite_type_methods [simp]: "finite (type_methods data tb)"
  by (simp add: type_methods_def Let_def)

definition min_with :: "nat \<Rightarrow> nat set \<Rightarrow> nat" where
  "min_with k M = (if M = {} then k else min k (Min M))"

lemma min_with_Un: "finite A \<Longrightarrow> finite B \<Longrightarrow> min_with (min_with k A) B = min_with k (A \<union> B)"
  by (auto simp: min_with_def Min_Un min.assoc)

lemma types_owned:
  assumes "foldM (type_step data t_off tc n img) ts (mo, first) = Ok (mo', first')" and "length mo = n"
  shows "owned_by mo mo' n img (\<Union>t\<in>set ts. type_methods data (t_off + t * TYPE_STRIDE))
    \<and> unat first' = min_with (unat first) (\<Union>t\<in>set ts. type_methods data (t_off + t * TYPE_STRIDE))
    \<and> (\<forall>t\<in>set ts. t < tc)"
  using assms
proof (induction ts arbitrary: mo first)
  case Nil
  then show ?case by (simp add: owned_by_refl min_with_def)
next
  case (Cons t ts)
  then obtain mo1 first1 where s: "type_step data t_off tc n img t (mo, first) = Ok (mo1, first1)"
    and r: "foldM (type_step data t_off tc n img) ts (mo1, first1) = Ok (mo', first')"
    by (auto simp: res_conv)
  note o1 = type_step_owned [OF s Cons.prems(2)]
  then have "length mo1 = n" by (simp add: owned_by_def)
  note o2 = Cons.IH [OF r this]
  have f1: "unat first1 = min_with (unat first) (type_methods data (t_off + t * TYPE_STRIDE))"
    using o1 by (auto simp: min_with_def)
  show ?case using o1 o2 owned_by_trans [of mo mo1 n img _ mo'] by (simp add: f1 min_with_Un)
qed

section \<open>The ownership of the images\<close>

definition images_owned :: "bytes \<Rightarrow> nat \<Rightarrow> nat \<Rightarrow> nat \<Rightarrow> nat \<Rightarrow> u32 list \<Rightarrow> u32 list \<Rightarrow> bool" where
  "images_owned data i_off t_off n k mo firsts \<longleftrightarrow> length mo = n \<and> length firsts = k
     \<and> (\<forall>img<k. image_methods data i_off t_off img \<subseteq> {..<n}
          \<and> unat (firsts ! img) = min_with (unat (0xFFFFFFFF :: u32)) (image_methods data i_off t_off img)
          \<and> (\<forall>m\<in>image_methods data i_off t_off img. mo ! m = word_of_nat img))
     \<and> (\<forall>m<n. (\<forall>img<k. m \<notin> image_methods data i_off t_off img) \<longrightarrow> mo ! m = 0xFFFFFFFF)"

lemma image_step_owned:
  assumes s: "image_step data i_off t_off tc n k (mo, firsts) = Ok (mo', firsts')"
    and inv: "images_owned data i_off t_off n k mo firsts" and k: "k < 0xFFFFFFFF"
  shows "images_owned data i_off t_off n (Suc k) mo' firsts'"
proof -
  obtain first where run: "foldM (type_step data t_off tc n k) (image_types data (i_off + k * IMAGE_STRIDE)) (mo, 0xFFFFFFFF) = Ok (mo', first)"
    and f: "firsts' = firsts @ [first]"
    using s by (auto simp: image_step_def Let_def res_conv rd_u32_Ok_conv image_types_def)
  have n: "length mo = n" using inv by (simp add: images_owned_def)
  have o: "owned_by mo mo' n k (image_methods data i_off t_off k)"
    and mn: "unat first = min_with (unat (0xFFFFFFFF :: u32)) (image_methods data i_off t_off k)"
    using types_owned [OF run n] by (simp_all add: image_methods_def)
  have small: "word_of_nat img \<noteq> (0xFFFFFFFF :: u32)" if "img < k" for img
  proof
    assume "word_of_nat img = (0xFFFFFFFF :: u32)"
    then have "unat (word_of_nat img :: u32) = unat (0xFFFFFFFF :: u32)" by simp
    then show False using that k by (simp add: unat_of_nat)
  qed
  have disj: "m \<notin> image_methods data i_off t_off k" if "img < k" "m \<in> image_methods data i_off t_off img" for img m
    using o small [OF that(1)] inv that by (fastforce simp: owned_by_def images_owned_def)
  show ?thesis
    unfolding images_owned_def f
  proof (intro conjI allI impI ballI)
    show "length mo' = n" using o by (simp add: owned_by_def)
    show "length (firsts @ [first]) = Suc k" using inv by (simp add: images_owned_def)
  next
    fix img assume i: "img < Suc k"
    show "image_methods data i_off t_off img \<subseteq> {..<n}"
      using i inv o by (cases "img = k") (auto simp: owned_by_def images_owned_def)
    show "unat ((firsts @ [first]) ! img) = min_with (unat (0xFFFFFFFF :: u32)) (image_methods data i_off t_off img)"
      using i inv mn by (cases "img = k") (auto simp: images_owned_def nth_append)
    fix m assume m: "m \<in> image_methods data i_off t_off img"
    show "mo' ! m = word_of_nat img"
    proof (cases "img = k")
      case True
      then show ?thesis using o m by (auto simp: owned_by_def)
    next
      case False
      then have "img < k" using i by simp
      then have "m \<notin> image_methods data i_off t_off k" and "m < n" and "mo ! m = word_of_nat img"
        using m inv disj [of img m] by (auto simp: images_owned_def)
      then show ?thesis using o by (simp add: owned_by_def)
    qed
  next
    fix m assume m: "m < n" and no: "\<forall>img<Suc k. m \<notin> image_methods data i_off t_off img"
    then show "mo' ! m = 0xFFFFFFFF" using o inv by (auto simp: owned_by_def images_owned_def)
  qed
qed

lemma images_run_owned:
  "foldM (image_step data i_off t_off tc n) [0..<k] (replicate n 0xFFFFFFFF, []) = Ok (mo, firsts) \<Longrightarrow>
   k < 0xFFFFFFFF \<Longrightarrow> images_owned data i_off t_off n k mo firsts"
proof (induction k arbitrary: mo firsts)
  case 0
  then show ?case by (auto simp: images_owned_def)
next
  case (Suc k)
  then obtain mo1 f1 where "foldM (image_step data i_off t_off tc n) [0..<k] (replicate n 0xFFFFFFFF, []) = Ok (mo1, f1)"
    and "image_step data i_off t_off tc n k (mo1, f1) = Ok (mo, firsts)"
    by (auto simp: foldM_append res_conv)
  then show ?case using Suc image_step_owned by simp
qed


section \<open>Writing the tokens\<close>

definition token_column :: "nat \<Rightarrow> column" where
  "token_column m_off = \<lparr>col_base = m_off, col_stride = METHOD_STRIDE, col_field = METHOD_TOKEN_OFF\<rparr>"

lemma strides: "METHOD_STRIDE = 36" "METHOD_TOKEN_OFF = 24" "TYPE_STRIDE = 88" "TYPE_METHOD_START_OFF = 36"
  "TYPE_METHOD_COUNT_OFF = 64" "IMAGE_STRIDE = 40" "IMAGE_TYPE_START_OFF = 8" "IMAGE_TYPE_COUNT_OFF = 12"
  by (simp_all add: METHOD_STRIDE_def METHOD_TOKEN_OFF_def TYPE_STRIDE_def TYPE_METHOD_START_OFF_def
      TYPE_METHOD_COUNT_OFF_def IMAGE_STRIDE_def IMAGE_TYPE_START_OFF_def IMAGE_TYPE_COUNT_OFF_def layout_v31_def layout_v29_def)


definition tok_of :: "u32 list \<Rightarrow> u32 list \<Rightarrow> nat \<Rightarrow> u32" where
  "tok_of firsts mo mi = METHOD_TOKEN_TABLE OR ((word_of_nat mi - firsts ! unat (mo ! mi) + 1) AND 0x00FFFFFF)"

definition tokens_written :: "bytes \<Rightarrow> nat \<Rightarrow> u32 list \<Rightarrow> u32 list \<Rightarrow> nat \<Rightarrow> bytes \<Rightarrow> nat \<Rightarrow> bool" where
  "tokens_written data m_off firsts mo n out remapped \<longleftrightarrow> (\<forall>j<n. mo ! j \<noteq> 0xFFFFFFFF)
     \<and> column_written data (token_column m_off) (\<lambda>j. Some (tok_of firsts mo j)) n out remapped"

lemma token_column_ok [simp]: "column_ok (token_column m_off)"
  by (simp add: column_ok_def token_column_def strides)

lemma token_step_written:
  assumes s: "token_step m_off firsts mo n (out, r) = Ok (out', r')"
    and inv: "tokens_written data m_off firsts mo n out r"
  shows "tokens_written data m_off firsts mo (Suc n) out' r'"
proof -
  let ?p = "cell (token_column m_off) n" and ?t = "to_le 4 (tok_of firsts mo n)"
  have own: "mo ! n \<noteq> 0xFFFFFFFF" and fit: "?p + 4 \<le> length out"
    and res: "out' = (if window out ?p 4 \<noteq> ?t then patch out ?p ?t else out)"
      "r' = r + (if window out ?p 4 \<noteq> ?t then 1 else 0)"
    using s by (auto simp: token_step_def new_token_def Let_def res_conv cell_def token_column_def tok_of_def split: if_splits)
  have "out' = patch out ?p ?t" unfolding res(1) by (rule patch_unless_equal [OF fit]) simp
  moreover have cw: "column_written data (token_column m_off) (\<lambda>j. Some (tok_of firsts mo j)) n out r"
    using inv by (simp add: tokens_written_def)
  moreover have "?p + 4 \<le> length data" using fit column_written_length [OF cw] by simp
  ultimately have "column_written data (token_column m_off) (\<lambda>j. Some (tok_of firsts mo j)) (Suc n) out' r'"
    unfolding res(2) using column_written_write [OF cw token_column_ok refl] by simp
  then show ?thesis using inv own by (simp add: tokens_written_def less_Suc_eq)
qed

lemma tokens_run_written:
  "foldM (token_step m_off firsts mo) [0..<n] (data, 0) = Ok (out, r) \<Longrightarrow> tokens_written data m_off firsts mo n out r"
proof (induction n arbitrary: out r)
  case 0
  then show ?case by (simp add: tokens_written_def column_written_0)
next
  case (Suc n)
  then obtain o1 r1 where "foldM (token_step m_off firsts mo) [0..<n] (data, 0) = Ok (o1, r1)"
    and "token_step m_off firsts mo n (o1, r1) = Ok (out, r)"
    by (auto simp: foldM_append res_conv)
  then show ?case using Suc.IH token_step_written by blast
qed


section \<open>Correctness of the transform\<close>

definition method_table :: "bytes \<Rightarrow> nat \<times> nat" where
  "method_table data = (unat (word_at data 0x30), unat (word_at data 0x34) div METHOD_STRIDE)"

definition image_count :: "bytes \<Rightarrow> nat" where
  "image_count data = unat (word_at data 0xAC) div IMAGE_STRIDE"

definition methods_of_image :: "bytes \<Rightarrow> nat \<Rightarrow> nat set" where
  "methods_of_image data img = image_methods data (unat (word_at data 0xA8)) (unat (word_at data 0xA0)) img"

definition local_token :: "nat \<Rightarrow> nat set \<Rightarrow> u32" where
  "local_token m M = METHOD_TOKEN_TABLE OR ((word_of_nat (m - Min M) + 1) AND 0x00FFFFFF)"

lemma image_count_small: "image_count data < 0xFFFFFFFF"
  using unat_bound [of "word_at data 0xAC"] by (simp add: image_count_def strides)

lemma deobfuscate_run:
  assumes "deobfuscate data = Ok (out, rp)"
  shows "\<exists>mo firsts. images_owned data (unat (word_at data 0xA8)) (unat (word_at data 0xA0)) (snd (method_table data))
             (image_count data) mo firsts
           \<and> tokens_written data (fst (method_table data)) firsts mo (snd (method_table data)) out (rep_remapped rp)
           \<and> rep_methods rp = snd (method_table data)"
proof -
  from assms obtain mo firsts where
    im: "foldM (image_step data (unat (word_at data 0xA8)) (unat (word_at data 0xA0)) (unat (word_at data 0xA4) div TYPE_STRIDE)
           (snd (method_table data))) [0..<image_count data] (replicate (snd (method_table data)) 0xFFFFFFFF, []) = Ok (mo, firsts)"
    and tk: "foldM (token_step (fst (method_table data)) firsts mo) [0..<snd (method_table data)] (data, 0) = Ok (out, rep_remapped rp)"
    and rp: "rep_methods rp = snd (method_table data)"
    by (auto simp: deobfuscate_def Let_def res_conv rd_u32_Ok_conv table_def method_table_def image_count_def HEADER_def
        split: if_splits)
  show ?thesis using images_run_owned [OF im image_count_small] tokens_run_written [OF tk] rp by blast
qed

lemma tok_of_local:
  assumes inv: "images_owned data i_off t_off n k mo firsts" and img: "img < k" "k < 0xFFFFFFFF"
    and m: "m \<in> image_methods data i_off t_off img" and n: "n < 2 ^ 32"
  shows "tok_of firsts mo m = local_token m (image_methods data i_off t_off img)"
proof -
  let ?M = "image_methods data i_off t_off img"
  have fin: "finite ?M" by (simp add: image_methods_def)
  have ne: "?M \<noteq> {}" and mn: "m < n" using inv m img by (auto simp: images_owned_def)
  have le: "Min ?M \<le> m" using fin m by simp
  then have small: "Min ?M < 2 ^ 32" using mn n by simp
  have u: "unat (word_of_nat img :: u32) = img" using img by (simp add: unat_of_nat)
  have "unat (firsts ! img) = min (unat (0xFFFFFFFF :: u32)) (Min ?M)"
    using inv img ne by (simp add: images_owned_def min_with_def)
  then have "unat (firsts ! img) = Min ?M" using small by simp
  then have "firsts ! img = word_of_nat (Min ?M)" by (metis of_nat_unat ucast_id)
  moreover have "mo ! m = word_of_nat img" using inv img m by (simp add: images_owned_def)
  ultimately show ?thesis using le by (simp add: tok_of_def local_token_def u of_nat_diff)
qed


lemma word_of_nat_image_inj:
  assumes "(word_of_nat a :: u32) = word_of_nat b" "a < k" "b < k" "k < 0xFFFFFFFF"
  shows "a = b"
proof -
  have "(2 :: nat) ^ 32 = 4294967296" by simp
  then have "a < 2 ^ 32" "b < 2 ^ 32" using assms(2-) by linarith+
  then have "unat (word_of_nat a :: u32) = a" "unat (word_of_nat b :: u32) = b" by (simp_all add: unat_of_nat)
  moreover have "unat (word_of_nat a :: u32) = unat (word_of_nat b :: u32)" by (simp only: assms(1))
  ultimately show ?thesis by metis
qed

text \<open>C16. On success every method belongs to exactly one image, its token is its 1-based position among the
  methods of that image, every byte outside the tokens is unchanged, and the report counts the tokens that changed.\<close>

lemma deobfuscate_tokens:
  assumes "deobfuscate data = Ok (out, rp)"
  shows "let p = cell (token_column (fst (method_table data))); M = methods_of_image data in
    length out = length data
    \<and> (\<forall>m<rep_methods rp. \<exists>!img. img < image_count data \<and> m \<in> M img)
    \<and> (\<forall>img<image_count data. \<forall>m\<in>M img. m < rep_methods rp \<and> word_at out (p m) = local_token m (M img))
    \<and> (\<forall>k<length data. (\<forall>m<rep_methods rp. k \<notin> {p m..<p m + 4}) \<longrightarrow> out ! k = data ! k)
    \<and> rep_remapped rp = card {m. m < rep_methods rp \<and> word_at data (p m) \<noteq> word_at out (p m)}"
proof -
  define p where "p = cell (token_column (fst (method_table data)))"
  define M where "M = methods_of_image data"
  obtain mo firsts where own: "images_owned data (unat (word_at data 0xA8)) (unat (word_at data 0xA0)) (rep_methods rp)
             (image_count data) mo firsts"
    and wr: "tokens_written data (fst (method_table data)) firsts mo (rep_methods rp) out (rep_remapped rp)"
    using deobfuscate_run [OF assms(1)] by auto
  have n: "rep_methods rp < 2 ^ 32"
    using deobfuscate_run [OF assms(1)] unat_bound [of "word_at data 0x34"] by (auto simp: method_table_def strides)
  have cw: "column_written data (token_column (fst (method_table data))) (\<lambda>j. Some (tok_of firsts mo j)) (rep_methods rp) out (rep_remapped rp)"
    and owned: "\<And>m. m < rep_methods rp \<Longrightarrow> mo ! m \<noteq> 0xFFFFFFFF"
    using wr by (simp_all add: tokens_written_def)
  have lab: "mo ! m = word_of_nat img" "m < rep_methods rp" if "img < image_count data" "m \<in> M img" for img m
    using own that by (auto simp: images_owned_def M_def methods_of_image_def)
  have uniq: "\<exists>!img. img < image_count data \<and> m \<in> M img" if m: "m < rep_methods rp" for m
  proof -
    have "\<exists>img. img < image_count data \<and> m \<in> M img"
      using own owned [OF m] m unfolding images_owned_def M_def methods_of_image_def by blast
    moreover have "a = b" if "a < image_count data \<and> m \<in> M a" "b < image_count data \<and> m \<in> M b" for a b
      using word_of_nat_image_inj [OF _ _ _ image_count_small] lab that by metis
    ultimately show ?thesis by blast
  qed
  have tok: "word_at out (p m) = local_token m (M img)" if i: "img < image_count data" "m \<in> M img" for img m
  proof -
    have "word_at out (p m) = tok_of firsts mo m" unfolding p_def by (rule column_written_cell [OF cw lab(2) [OF i]]) simp
    then show ?thesis using tok_of_local [OF own i(1) image_count_small _ n] i(2) by (simp add: M_def methods_of_image_def)
  qed
  have "rep_remapped rp = card {m. m < rep_methods rp \<and> word_at data (p m) \<noteq> word_at out (p m)}"
    unfolding p_def by (rule column_written_changed [OF cw token_column_ok])
  moreover have "length out = length data"
    and "\<forall>k<length data. (\<forall>m<rep_methods rp. k \<notin> {p m..<p m + 4}) \<longrightarrow> out ! k = data ! k"
    using column_written_length [OF cw] column_written_bytes [OF cw] by (auto simp: p_def)
  ultimately show ?thesis unfolding Let_def p_def [symmetric] M_def [symmetric] using uniq tok lab(2) by blast
qed


section \<open>Running the transform again\<close>

definition tables_apart :: "bytes \<Rightarrow> bool" where
  "tables_apart data =
     (let m = unat (word_at data 0x30); me = m + unat (word_at data 0x34);
          apart = (\<lambda>off len. off + len \<le> m \<or> me \<le> off)
      in apart 0 0xB0 \<and> apart (unat (word_at data 0xA0)) (unat (word_at data 0xA4))
         \<and> apart (unat (word_at data 0xA8)) (unat (word_at data 0xAC)))"

lemma type_step_cong:
  assumes "length ys = length xs"
    and "\<And>a n. t_off \<le> a \<Longrightarrow> a + n \<le> t_off + t_size \<Longrightarrow> window ys a n = window xs a n"
  shows "type_step ys t_off (t_size div TYPE_STRIDE) mc img t st = type_step xs t_off (t_size div TYPE_STRIDE) mc img t st"
proof (cases "t < t_size div TYPE_STRIDE")
  case True
  have "window ys (t_off + t * TYPE_STRIDE + TYPE_METHOD_START_OFF) 4 = window xs (t_off + t * TYPE_STRIDE + TYPE_METHOD_START_OFF) 4"
    "window ys (t_off + t * TYPE_STRIDE + TYPE_METHOD_COUNT_OFF) 2 = window xs (t_off + t * TYPE_STRIDE + TYPE_METHOD_COUNT_OFF) 2"
    using entry_inside [OF True, of TYPE_METHOD_START_OFF 4] entry_inside [OF True, of TYPE_METHOD_COUNT_OFF 2]
    by (intro assms(2); simp add: strides)+
  then show ?thesis by (cases st) (simp add: type_step_def Let_def rd_u32_def rd_u16_def get_le_cong [OF assms(1)])
qed (simp add: type_step_def)

lemma image_step_cong:
  assumes "length ys = length xs"
    and "\<And>a n. t_off \<le> a \<Longrightarrow> a + n \<le> t_off + t_size \<Longrightarrow> window ys a n = window xs a n"
    and "\<And>a n. i_off \<le> a \<Longrightarrow> a + n \<le> i_off + i_size \<Longrightarrow> window ys a n = window xs a n"
    and "img < i_size div IMAGE_STRIDE"
  shows "image_step ys i_off t_off (t_size div TYPE_STRIDE) mc img st = image_step xs i_off t_off (t_size div TYPE_STRIDE) mc img st"
proof -
  have "window ys (i_off + img * IMAGE_STRIDE + IMAGE_TYPE_START_OFF) 4 = window xs (i_off + img * IMAGE_STRIDE + IMAGE_TYPE_START_OFF) 4"
    "window ys (i_off + img * IMAGE_STRIDE + IMAGE_TYPE_COUNT_OFF) 4 = window xs (i_off + img * IMAGE_STRIDE + IMAGE_TYPE_COUNT_OFF) 4"
    using entry_inside [OF assms(4), of IMAGE_TYPE_START_OFF 4] entry_inside [OF assms(4), of IMAGE_TYPE_COUNT_OFF 4]
    by (intro assms(3); simp add: strides)+
  moreover have "foldM (type_step ys t_off (t_size div TYPE_STRIDE) mc img) ts m = foldM (type_step xs t_off (t_size div TYPE_STRIDE) mc img) ts m" for ts m
    using type_step_cong [OF assms(1,2)] by (intro foldM_cong)
  ultimately show ?thesis by (cases st) (simp add: image_step_def Let_def rd_u32_def get_le_cong [OF assms(1)])
qed

lemma tokens_settled:
  assumes "tokens_written data m_off firsts mo n out r"
    and "\<And>j. j < n \<Longrightarrow> mo ! j \<noteq> 0xFFFFFFFF \<Longrightarrow> unat (mo ! j) < length firsts" and "k \<le> n"
  shows "foldM (token_step m_off firsts mo) [0..<k] (out, 0) = Ok (out, 0)"
  using assms(3)
proof (induction k)
  case (Suc k)
  let ?c = "column_written data (token_column m_off) (\<lambda>j. Some (tok_of firsts mo j)) n out r"
  have cw: ?c and k: "k < n" using assms(1) Suc.prems by (simp_all add: tokens_written_def)
  have "cell (token_column m_off) k + 4 \<le> length data" by (rule column_written_inside [OF cw k]) simp
  then have w: "window out (cell (token_column m_off) k) 4 = to_le 4 (tok_of firsts mo k)" "mo ! k \<noteq> 0xFFFFFFFF"
    and "cell (token_column m_off) k + 4 \<le> length out"
    using assms(1) k column_written_window [OF cw k] column_written_length [OF cw] by (simp_all add: tokens_written_def)
  then have "token_step m_off firsts mo k (out, 0) = Ok (out, 0)"
    using w assms(2) Suc.prems
    by (simp add: token_step_def new_token_def idx_in idx_range_in cell_def token_column_def Let_def tok_of_def)
  then show ?case using Suc by (simp add: foldM_append)
qed simp

lemma owner_index:
  assumes "images_owned data i_off t_off n (image_count data) mo firsts"
    and "j < n" "mo ! j \<noteq> 0xFFFFFFFF"
  shows "unat (mo ! j) < length firsts"
proof -
  obtain img where img: "img < length firsts" "mo ! j = word_of_nat img" and l: "length firsts = image_count data"
    using assms unfolding images_owned_def by metis
  then have "unat (word_of_nat img :: u32) = img"
    using image_count_small [of data] by (simp add: unat_of_nat)
  then show ?thesis using img by simp
qed

text \<open>When the method table does not overlap the header, the type table or the image table, running the
  transform on its own output returns that output and reports that no token changed.\<close>

lemma deobfuscate_idempotent:
  assumes "deobfuscate data = Ok (out, rp)" and "tables_apart data"
  shows "deobfuscate out = Ok (out, rp\<lparr>rep_remapped := 0\<rparr>)"
proof -
  let ?m = "unat (word_at data 0x30)" and ?ms = "unat (word_at data 0x34)"
  let ?t = "unat (word_at data 0xA0)" and ?ts = "unat (word_at data 0xA4)"
  let ?i = "unat (word_at data 0xA8)" and ?is = "unat (word_at data 0xAC)"
  from assms(1) obtain mo firsts where
    im: "foldM (image_step data ?i ?t (?ts div TYPE_STRIDE) (?ms div METHOD_STRIDE)) [0..<?is div IMAGE_STRIDE]
           (replicate (?ms div METHOD_STRIDE) 0xFFFFFFFF, []) = Ok (mo, firsts)"
    and tk: "foldM (token_step ?m firsts mo) [0..<?ms div METHOD_STRIDE] (data, 0) = Ok (out, rep_remapped rp)"
    and rp: "rp = \<lparr>rep_version = word_at data 4, rep_methods = ?ms div METHOD_STRIDE, rep_remapped = rep_remapped rp,
                  rep_modules = length (filter (\<lambda>f. f \<noteq> 0xFFFFFFFF) firsts)\<rparr>"
    and hd: "get_le 4 data 0 = Some MAGIC" "word_at data 4 = SUPPORTED_VERSION" "0xB0 \<le> length data"
    and sz: "?ms mod METHOD_STRIDE = 0" "?ts mod TYPE_STRIDE = 0" "?is mod IMAGE_STRIDE = 0"
    and ft: "fits data ?m ?ms" "fits data ?t ?ts" "fits data ?i ?is"
    by (auto simp: deobfuscate_def Let_def res_conv rd_u32_Ok_conv table_def HEADER_def split: if_splits)
  have own: "images_owned data ?i ?t (?ms div METHOD_STRIDE) (?is div IMAGE_STRIDE) mo firsts"
    using images_run_owned [OF im] image_count_small [of data] by (simp add: image_count_def)
  note wr = tokens_run_written [OF tk]
  then have cw: "column_written data (token_column ?m) (\<lambda>j. Some (tok_of firsts mo j)) (?ms div METHOD_STRIDE) out (rep_remapped rp)"
    by (simp add: tokens_written_def)
  then have len: "length out = length data" by (rule column_written_length)
  have same: "window out a n = window data a n" if "a + n \<le> ?m \<or> ?m + ?ms \<le> a" for a n
  proof (rule column_written_outside [OF cw token_column_ok])
    show "a + n \<le> col_base (token_column ?m) \<or> col_base (token_column ?m) + ?ms div METHOD_STRIDE * col_stride (token_column ?m) \<le> a"
      unfolding token_column_def column.select_convs using that div_times_less_eq_dividend [of ?ms METHOD_STRIDE] by linarith
  qed
  have apart: "window out a n = window data a n"
    if "off \<le> a" "a + n \<le> off + s" "off + s \<le> ?m \<or> ?m + ?ms \<le> off" for a n off s
    using that by (intro same) linarith
  have h: "window out a n = window data a n" if "a + n \<le> 0xB0" for a n
    using apart [of 0 a n "0xB0"] that assms(2) by (simp add: tables_apart_def Let_def)
  have words: "word_at out a = word_at data a" if "a + 4 \<le> 0xB0" for a using h [OF that] by (simp add: word_at_def)
  have im': "foldM (image_step out ?i ?t (?ts div TYPE_STRIDE) (?ms div METHOD_STRIDE)) [0..<?is div IMAGE_STRIDE]
           (replicate (?ms div METHOD_STRIDE) 0xFFFFFFFF, []) = Ok (mo, firsts)"
    unfolding im [symmetric]
  proof (rule foldM_cong, rule image_step_cong [OF len])
    fix a n assume "?t \<le> a" "a + n \<le> ?t + ?ts"
    then show "window out a n = window data a n" using apart assms(2) by (simp add: tables_apart_def Let_def)
  next
    fix a n assume "?i \<le> a" "a + n \<le> ?i + ?is"
    then show "window out a n = window data a n" using apart assms(2) by (simp add: tables_apart_def Let_def)
  qed simp
  have mag: "get_le 4 out 0 = Some MAGIC" using hd h [of 0 4] by (simp add: get_le_cong [OF len])
  have rd: "rd_u32 out a = Ok (word_at data a)" if "a + 4 \<le> 0xB0" for a
    using words [OF that] that hd(3) len by (simp add: rd_u32_Ok_conv)
  have tb: "table out a = Ok (unat (word_at data a), unat (word_at data (a + 4)))" if "a + 8 \<le> 0xB0" for a
    using that by (simp add: table_def rd)
  have ft': "fits out = fits data" unfolding fits_def len ..
  have ln: "length firsts = ?is div IMAGE_STRIDE" using own by (simp add: images_owned_def)
  have tk': "foldM (token_step ?m firsts mo) [0..<?ms div METHOD_STRIDE] (out, 0) = Ok (out, 0)"
    by (rule tokens_settled [OF wr owner_index [OF own [folded image_count_def]]]) auto
  have rp0: "rp\<lparr>rep_remapped := 0\<rparr> = \<lparr>rep_version = word_at data 4, rep_methods = ?ms div METHOD_STRIDE, rep_remapped = 0,
      rep_modules = length (filter (\<lambda>f. f \<noteq> 0xFFFFFFFF) firsts)\<rparr>"
    by (subst rp) simp
  show ?thesis
    unfolding rp0 using hd sz ft by (simp add: deobfuscate_def HEADER_def mag rd tb ft' im' tk')
qed



section \<open>Concrete metadata\<close>

text \<open>A file of one image, one type and one method whose method table starts at \<^verbatim>\<open>m_off\<close>.\<close>

definition one_method_file :: "u32 \<Rightarrow> bytes" where
  "one_method_file m_off =
     to_le 4 MAGIC @ to_le 4 SUPPORTED_VERSION @ replicate 40 0
     @ to_le 4 m_off @ to_le 4 (0x24 :: u32) @ replicate 72 0 @ [1, 0] @ replicate 30 0
     @ to_le 4 (0x40 :: u32) @ to_le 4 (0x58 :: u32) @ to_le 4 (0xB0 :: u32) @ to_le 4 (0x28 :: u32)
     @ replicate 12 0 @ [1, 0, 0, 0] @ replicate 60 0"

definition apart_file :: bytes where "apart_file = one_method_file 0xD8"
definition apart_result :: bytes where "apart_result = patch apart_file 0xF0 [1, 0, 0, 6]"
definition overlapping_file :: bytes where "overlapping_file = one_method_file 0x18"
definition overlapping_result :: bytes where "overlapping_result = patch overlapping_file 0x30 [1, 0, 0, 6]"

lemma file_lengths: "length apart_file = 252" "length overlapping_file = 252" "length overlapping_result = 252"
  by (simp_all add: apart_file_def overlapping_file_def one_method_file_def overlapping_result_def ranges)

lemma file_reads:
  "get_le 4 apart_file 0 = Some MAGIC" "get_le 4 overlapping_file 0 = Some MAGIC" "get_le 4 overlapping_result 0 = Some MAGIC"
  "map (rd_u32 apart_file) [4, 0x30, 0x34, 0xA0, 0xA4, 0xA8, 0xAC, 0xB8, 0xBC, 0x64]
     = map Ok [SUPPORTED_VERSION, 0xD8, 0x24, 0x40, 0x58, 0xB0, 0x28, 0, 1, 0]"
  "map (rd_u32 overlapping_file) [4, 0x30, 0x34, 0xA0, 0xA4, 0xA8, 0xAC, 0xB8, 0xBC, 0x64]
     = map Ok [SUPPORTED_VERSION, 0x18, 0x24, 0x40, 0x58, 0xB0, 0x28, 0, 1, 0]"
  "map (rd_u32 overlapping_result) [4, 0x30, 0x34, 0xA0, 0xA4, 0xA8, 0xAC]
     = map Ok [SUPPORTED_VERSION, 0x06000001, 0x24, 0x40, 0x58, 0xB0, 0x28]"
  "rd_u16 apart_file 0x80 = Ok 1" "rd_u16 overlapping_file 0x80 = Ok 1"
  "(idx_range apart_file 0xF0 4 :: (bytes, md_error) res) = Ok [0, 0, 0, 0]"
  "(idx_range overlapping_file 0x30 4 :: (bytes, md_error) res) = Ok [0x18, 0, 0, 0]"
  "to_le 4 (0x06000001 :: u32) = [1, 0, 0, 6]"
  by code_simp+

lemma fits_small: "off < 2 ^ 32 \<Longrightarrow> len < 2 ^ 32 \<Longrightarrow> fits data off len = (off + len \<le> length data)"
  by (simp add: fits_def chk_add_def usize_limit_def)

lemmas deobfuscate_eval = deobfuscate_def table_def HEADER_def fits_small file_lengths strides Let_def image_step_def
  type_step_def sat_add_w_def NO_METHODS_def claim_method_def set_at_def idx_def token_step_def new_token_def METHOD_TOKEN_TABLE_def

lemma file_puts:
  "put apart_file 0xF0 [1, 0, 0, 6] = Ok apart_result" "put overlapping_file 0x30 [1, 0, 0, 6] = Ok overlapping_result"
  by (simp_all add: put_in file_lengths apart_result_def overlapping_result_def)

lemma apart_run:
  "deobfuscate apart_file = Ok (apart_result, \<lparr>rep_version = SUPPORTED_VERSION, rep_methods = 1, rep_remapped = 1, rep_modules = 1\<rparr>)"
  using file_reads by (simp add: deobfuscate_eval file_puts)

lemma apart_tables: "tables_apart apart_file"
  using file_reads(4) by (simp add: tables_apart_def rd_u32_Ok_conv)

text \<open>C17. The transform is not idempotent on every file it accepts. There is a file whose method table overlaps the \<^verbatim>\<open>0xB0\<close>
  bytes of the header that name the tables, and which the transform accepts: it writes a token over the offset of the method table, so that
  its output has another method table, and the second run then refuses the output.\<close>

lemma deobfuscate_overlapping_tables:
  "\<exists>data out rp. \<not> tables_apart data \<and> unat (word_at data 0x30) < 0xB0 \<and> word_at data 0x34 \<noteq> 0 \<and>
     deobfuscate data = Ok (out, rp) \<and> word_at out 0x30 = METHOD_TOKEN_TABLE + 1 \<and> word_at out 0x30 \<noteq> word_at data 0x30 \<and>
     deobfuscate out = Err Malformed"
proof -
  obtain rp where "deobfuscate overlapping_file = Ok (overlapping_result, rp)"
    using file_reads by (simp add: deobfuscate_eval file_puts)
  moreover have "deobfuscate overlapping_result = Err Malformed"
    using file_reads by (simp add: deobfuscate_eval)
  moreover have "word_at overlapping_file 0x30 = 0x18" "word_at overlapping_file 0x34 = 0x24"
      "word_at overlapping_result 0x30 = 0x06000001"
    using file_reads(5,6) by (simp_all add: rd_u32_Ok_conv)
  ultimately show ?thesis
    by (intro exI [of _ overlapping_file] exI [of _ overlapping_result] exI [of _ rp])
      (simp add: tables_apart_def METHOD_TOKEN_TABLE_def)
qed


section \<open>The transform never panics\<close>


lemma rd_safe [simp]: "ok_with (\<lambda>_. True) (rd_u32 data off)" "ok_with (\<lambda>_. True) (rd_u16 data off)"
  by (simp_all add: rd_u32_def rd_u16_def)

lemma claims_safe:
  "length mo = n \<Longrightarrow> ok_with (\<lambda>mo'. length mo' = n) (foldM (claim_method n img) ms mo)"
  by (rule ok_with_foldM) (auto simp: claim_method_def idx_in set_at_in)

lemma type_step_safe:
  "length (fst st) = n \<Longrightarrow> ok_with (\<lambda>st. length (fst st) = n) (type_step data t_off tc n img t st)"
  unfolding type_step_def Let_def split_beta
  by (auto intro!: ok_with_rbind [OF rd_safe(1)] ok_with_rbind [OF rd_safe(2)] ok_with_rbind [OF claims_safe])

lemma image_step_safe:
  "length (fst st) = n \<Longrightarrow> ok_with (\<lambda>st. length (fst st) = n) (image_step data i_off t_off tc n img st)"
  unfolding image_step_def Let_def split_beta
  by (intro ok_with_rbind [OF rd_safe(1)] ok_with_rbind [OF ok_with_foldM [where P = "\<lambda>st. length (fst st) = n"]])
    (auto intro: type_step_safe)

lemma image_steps_safe:
  "ok_with (\<lambda>st. length (fst st) = n) (foldM (image_step data i_off t_off tc n) imgs (replicate n 0xFFFFFFFF, []))"
  by (rule ok_with_foldM) (auto intro: image_step_safe)

lemma token_step_safe:
  assumes "m_off + n * METHOD_STRIDE \<le> len" and "j < n" and "length (fst st) = len"
    and "mo ! j \<noteq> 0xFFFFFFFF \<Longrightarrow> unat (mo ! j) < length firsts"
  shows "ok_with (\<lambda>st. length (fst st) = len) (token_step m_off firsts mo j st)"
proof -
  have "(j + 1) * METHOD_STRIDE \<le> n * METHOD_STRIDE" using assms(2) by (intro mult_right_mono) auto
  then have "m_off + j * METHOD_STRIDE + METHOD_TOKEN_OFF + 4 \<le> length (fst st)" using assms(1,3) by (simp add: strides)
  then show ?thesis
    using assms(3,4) by (cases st) (simp add: token_step_def new_token_def Let_def idx_in idx_range_in put_in ranges)
qed

lemma table_safe:
  "ok_with (\<lambda>e. e = (unat (word_at data h), unat (word_at data (h + 4)))) (table data h)"
  unfolding table_def
  by (intro ok_with_rbind [OF rd_safe(1)]) (simp add: rd_u32_Ok_conv)

lemma fits_bound: "fits data off len \<Longrightarrow> off + len \<le> length data"
  by (simp add: fits_def chk_add_def split: if_splits)

lemma tokens_safe:
  assumes own: "images_owned data i_off t_off (ms div METHOD_STRIDE) (image_count data) mo firsts" and ft: "fits data m_off ms"
  shows "ok_with (\<lambda>st. length (fst st) = length data) (foldM (token_step m_off firsts mo) [0..<ms div METHOD_STRIDE] (data, 0))"
proof (rule ok_with_foldM)
  fix j and st :: "bytes \<times> nat" assume j: "j \<in> set [0..<ms div METHOD_STRIDE]" and st: "length (fst st) = length data"
  have le: "m_off + ms div METHOD_STRIDE * METHOD_STRIDE \<le> length data"
    using fits_bound [OF ft] div_times_less_eq_dividend [of ms METHOD_STRIDE] by linarith
  show "ok_with (\<lambda>st. length (fst st) = length data) (token_step m_off firsts mo j st)"
    using j by (intro token_step_safe [OF le _ st owner_index [OF own]]) auto
qed simp

text \<open>C18. The transform panics on no input: every index and every slice it uses is inside the file or its own
  vectors.\<close>

lemma deobfuscate_no_panic: "deobfuscate data \<noteq> Panic"
proof -
  let ?m = "unat (word_at data 0x30)" and ?ms = "unat (word_at data 0x34)"
  let ?t = "unat (word_at data 0xA0)" and ?ts = "unat (word_at data 0xA4)"
  let ?i = "unat (word_at data 0xA8)" and ?is = "unat (word_at data 0xAC)"
  have rest: "ok_with (\<lambda>_. True) (rbind (foldM (token_step ?m (snd st) (fst st)) [0..<?ms div METHOD_STRIDE] (data, 0)) (\<lambda>x. Ok (g x)))"
    if im: "foldM (image_step data ?i ?t (?ts div TYPE_STRIDE) (?ms div METHOD_STRIDE)) [0..<?is div IMAGE_STRIDE]
           (replicate (?ms div METHOD_STRIDE) 0xFFFFFFFF, []) = Ok st"
      and ft: "fits data ?m ?ms" for st and g :: "bytes \<times> nat \<Rightarrow> bytes \<times> report"
  proof -
    have own: "images_owned data ?i ?t (?ms div METHOD_STRIDE) (image_count data) (fst st) (snd st)"
      using images_run_owned [of data ?i ?t "?ts div TYPE_STRIDE" "?ms div METHOD_STRIDE" "?is div IMAGE_STRIDE"] im
        image_count_small [of data] by (simp add: image_count_def)
    show ?thesis by (intro ok_with_rbind [OF tokens_safe [OF own ft]]) (simp add: split_beta)
  qed
  have "ok_with (\<lambda>_. True) (deobfuscate data)"
    unfolding deobfuscate_def Let_def split_beta
    by (intro ok_with_guard ok_with_rbind [OF rd_safe(1)] ok_with_rbind [OF table_safe] ok_with_rbind [OF image_steps_safe])
      (simp add: HEADER_def rest)
  then show ?thesis by (rule ok_with_not_Panic)
qed

section \<open>Witnesses\<close>

lemma deobfuscate_tokens_witness:
  "length apart_result = length apart_file
   \<and> 1 = card {m. m < 1 \<and> word_at apart_file (cell (token_column (fst (method_table apart_file))) m)
                            \<noteq> word_at apart_result (cell (token_column (fst (method_table apart_file))) m)}"
  using deobfuscate_tokens [OF apart_run] unfolding Let_def report.select_convs by blast

lemma deobfuscate_idempotent_witness:
  "deobfuscate apart_result
     = Ok (apart_result, \<lparr>rep_version = SUPPORTED_VERSION, rep_methods = 1, rep_remapped = 0, rep_modules = 1\<rparr>)"
  using deobfuscate_idempotent [OF apart_run apart_tables] by simp

end
