(* ===== verification/MethodIndices.thy ===== *)
theory MethodIndices
  imports MetaLayout
begin

unbundle bit_operations_syntax

text \<open>
  \<^verbatim>\<open>senbei-metadata/src/android/method_indices.rs\<close>: the method indices of version 24.1 metadata are a
  permutation that the loader scrambles with a keyed five-round map and a table of 256 exceptions. The
  restoration finds the profile in the decoded module and accepts it only when the result is a complete
  permutation. The messages of the errors keep their fixed text.
\<close>

section \<open>Constants, results and errors\<close>

definition RAW_VERSION_24 :: u32 where "RAW_VERSION_24 = raw V24"
definition HDR_METHODS :: nat where "HDR_METHODS = hl_methods HEADER"
definition V24_1_METHOD_STRIDE :: nat where "V24_1_METHOD_STRIDE = mi_stride V24_1_METHOD_INDEX"
definition V24_1_METHOD_INDEX_OFFSET :: nat where "V24_1_METHOD_INDEX_OFFSET = mi_index V24_1_METHOD_INDEX"
definition V24_1_SELECTOR :: u32 where "V24_1_SELECTOR = 1"
definition EXCEPTION_COUNT :: nat where "EXCEPTION_COUNT = 256"

record method_index_report =
  mir_version :: u32
  mir_methods :: nat
  mir_active :: nat
  mir_changed :: nat
  mir_exceptions :: nat
  mir_seed :: string

datatype method_index_error =
  NotMetadata | UnsupportedVersion u32 | Malformed string | ProfileNotFound | AmbiguousProfile | Validation string

record profile =
  pr_seed :: u32
  pr_exceptions :: "u32 list"

type_synonym 'a mi_result = "('a, method_index_error) res"

section \<open>Reading and writing\<close>

definition mi_bytes :: "bytes \<Rightarrow> nat \<Rightarrow> nat \<Rightarrow> bytes mi_result" where
  "mi_bytes data off len =
     rbind (ok_or (Malformed ''byte range overflow'') (chk_add off len)) (\<lambda>stop.
       ok_or (Malformed ''byte range is out of bounds'') (get_range data off len))"

definition mi_read_u32 :: "bytes \<Rightarrow> nat \<Rightarrow> u32 mi_result" where
  "mi_read_u32 data off = rbind (mi_bytes data off 4) (\<lambda>b. Ok (from_le b))"

text \<open>A signed word is kept as its bits; \<open>sint\<close> reads it.\<close>

definition mi_read_i32 :: "bytes \<Rightarrow> nat \<Rightarrow> u32 mi_result" where
  "mi_read_i32 data off = rbind (mi_bytes data off 4) (\<lambda>b. Ok (from_le b))"

definition mi_write_i32 :: "bytes \<Rightarrow> nat \<Rightarrow> u32 \<Rightarrow> bytes mi_result" where
  "mi_write_i32 data off w =
     rbind (ok_or (Malformed ''method-index write is out of bounds'') (get_range data off 4)) (\<lambda>_.
       put data off (to_le 4 w))"

definition mi_method_table :: "bytes \<Rightarrow> (nat \<times> nat) mi_result" where
  "mi_method_table data =
     rbind (mi_read_u32 data 0) (\<lambda>magic.
       if magic \<noteq> MAGIC then Err NotMetadata
       else
     rbind (mi_read_u32 data 4) (\<lambda>version.
       if version \<noteq> RAW_VERSION_24 then Err (UnsupportedVersion version)
       else
     rbind (mi_read_u32 data HDR_METHODS) (\<lambda>off.
     rbind (mi_read_u32 data (HDR_METHODS + 4)) (\<lambda>len.
     rbind (mi_bytes data (unat off) (unat len)) (\<lambda>_.
       if unat len mod V24_1_METHOD_STRIDE \<noteq> 0
       then Err (Malformed ''method table size is not divisible by v24.1 stride'')
       else Ok (unat off, unat len div V24_1_METHOD_STRIDE))))))"

definition active_index :: "u32 \<Rightarrow> u32 option" where
  "active_index w = (if 0 \<le> sint w then Some w else None)"

definition method_indices :: "bytes \<Rightarrow> (nat \<times> u32 option list) mi_result" where
  "method_indices data =
     rbind (mi_method_table data) (\<lambda>(off, n).
     rbind (mapM (\<lambda>m. rbind (mi_read_i32 data (off + m * V24_1_METHOD_STRIDE + V24_1_METHOD_INDEX_OFFSET)) (\<lambda>w.
              Ok (active_index w))) [0..<n]) (\<lambda>indices.
       Ok (off, indices)))"

section \<open>Complete permutations\<close>

definition active_count :: "u32 option list \<Rightarrow> nat" where
  "active_count indices = length (filter (\<lambda>v. v \<noteq> None) indices)"

text \<open>\<open>iter().flatten()\<close> on a vector of options.\<close>

fun actives :: "'a option list \<Rightarrow> 'a list" where
  "actives [] = []"
| "actives (None # vs) = actives vs"
| "actives (Some v # vs) = v # actives vs"

fun mark_all :: "nat \<Rightarrow> u32 list \<Rightarrow> bool list \<Rightarrow> bool list option" where
  "mark_all n [] seen = Some seen"
| "mark_all n (v # vs) seen =
     (if n \<le> unat v \<or> seen ! unat v then None else mark_all n vs (seen[unat v := True]))"

definition is_complete_permutation :: "u32 option list \<Rightarrow> bool" where
  "is_complete_permutation indices =
     (let n = active_count indices in
      if n = 0 \<or> unat (- 1 :: u32) < n then False
      else case mark_all n (actives indices) (replicate n False) of
             None \<Rightarrow> False
           | Some seen \<Rightarrow> list_all id seen)"

section \<open>The keyed permutation\<close>

definition permutation_key :: "u32 \<Rightarrow> u32 \<Rightarrow> u32 mi_result" where
  "permutation_key seed n =
     (if n < 2 then Err (Validation ''method-index permutation requires at least two active methods'')
      else if (- 1) div 2 < n then Err (Validation ''active method count is too large for the permutation mirror'')
      else
      let half = n div 2 in
      if half = 0 then Err (Validation ''method-index permutation has a zero divisor'')
      else Ok (seed mod half + n div 4))"

definition permutation_round :: "u32 \<Rightarrow> u32 \<Rightarrow> u32 \<Rightarrow> u32" where
  "permutation_round v0 n key =
     (let mirror = n * 2 - 1;
          v1 = if v0 AND 1 \<noteq> 0 then mirror - v0 else v0;
          v2 = drop_bit 1 v1;
          v3 = if n \<le> v2 then mirror - v2 else v2;
          adjusted = uint v3 - uint key
      in if adjusted < 0 then word_of_int (adjusted + uint n) else word_of_int adjusted)"

definition transform_index :: "u32 \<Rightarrow> u32 \<Rightarrow> u32 \<Rightarrow> u32 mi_result" where
  "transform_index v n seed =
     rbind (permutation_key seed n) (\<lambda>key. Ok (((\<lambda>v. permutation_round v n key) ^^ 5) v))"

definition active_count_u32 :: "u32 option list \<Rightarrow> u32 mi_result" where
  "active_count_u32 indices =
     (if active_count indices < 2 ^ 32 then Ok (word_of_nat (active_count indices))
      else Err (Validation ''active method count exceeds u32''))"

definition transformed_values :: "u32 option list \<Rightarrow> u32 \<Rightarrow> u32 option list mi_result" where
  "transformed_values indices seed =
     rbind (active_count_u32 indices) (\<lambda>n.
       mapM (\<lambda>v. case v of None \<Rightarrow> Ok None | Some w \<Rightarrow> rbind (transform_index w n seed) (\<lambda>t. Ok (Some t))) indices)"

section \<open>Exceptions and profiles\<close>

fun mark_present :: "nat \<Rightarrow> u32 list \<Rightarrow> bool list \<Rightarrow> bool list option" where
  "mark_present n [] seen = Some seen"
| "mark_present n (v # vs) seen = (if n \<le> unat v then None else mark_present n vs (seen[unat v := True]))"

definition missing_values :: "u32 option list \<Rightarrow> u32 list option" where
  "missing_values indices =
     (let n = active_count indices in
      case mark_present n (actives indices) (replicate n False) of
        None \<Rightarrow> None
      | Some seen \<Rightarrow> Some (map word_of_nat (filter (\<lambda>i. \<not> seen ! i) [0..<n])))"

text \<open>The inner loop over one candidate table: the values read so far and the values already seen.\<close>

fun read_exceptions :: "bytes \<Rightarrow> nat \<Rightarrow> bool list \<Rightarrow> nat list \<Rightarrow> bool list \<Rightarrow> u32 list option mi_result" where
  "read_exceptions module off wanted [] seen = Ok (Some [])"
| "read_exceptions module off wanted (i # is) seen =
     rbind (mi_read_u32 module (off + i * 4)) (\<lambda>v.
       if length wanted \<le> unat v then Ok None
       else if \<not> wanted ! unat v \<or> seen ! unat v then Ok None
       else
       rbind (read_exceptions module off wanted is (seen[unat v := True])) (\<lambda>vs.
         Ok (map_option (\<lambda>vs. v # vs) vs)))"

definition steps_of_4 :: "nat \<Rightarrow> nat \<Rightarrow> nat list" where
  "steps_of_4 a b = map (\<lambda>k. a + 4 * k) [0..<(b - a + 3) div 4]"

fun search_table :: "bytes \<Rightarrow> u32 \<Rightarrow> bool list \<Rightarrow> nat list \<Rightarrow> u32 list option mi_result" where
  "search_table module n wanted [] = Ok None"
| "search_table module n wanted (off # offs) =
     rbind (mi_read_u32 module (off - 8)) (\<lambda>selector.
       if selector \<noteq> V24_1_SELECTOR then search_table module n wanted offs
       else
     rbind (mi_read_u32 module (off - 4)) (\<lambda>last.
       if last \<noteq> n - 1 then search_table module n wanted offs
       else
     rbind (read_exceptions module off wanted [0..<EXCEPTION_COUNT] (replicate (unat n) False)) (\<lambda>found.
       case found of
         Some vs \<Rightarrow> Ok (Some vs)
       | None \<Rightarrow> search_table module n wanted offs)))"

definition find_exception_table :: "bytes \<Rightarrow> u32 \<Rightarrow> u32 list \<Rightarrow> u32 list option" where
  "find_exception_table module n missing =
     (if length missing \<noteq> EXCEPTION_COUNT \<or> n = 0 then None
      else
      case mark_present (unat n) missing (replicate (unat n) False) of
        None \<Rightarrow> None
      | Some wanted \<Rightarrow>
          if length module < EXCEPTION_COUNT * 4 then None
          else case search_table module n wanted (steps_of_4 8 (length module - EXCEPTION_COUNT * 4 + 1)) of
                 Ok found \<Rightarrow> found
               | _ \<Rightarrow> None)"

text \<open>Replaces the leading active values and returns the replacements that are left.\<close>

fun replace_active :: "u32 option list \<Rightarrow> u32 list \<Rightarrow> u32 option list \<times> u32 list" where
  "replace_active [] es = ([], es)"
| "replace_active (None # vs) es = (let (rs, left) = replace_active vs es in (None # rs, left))"
| "replace_active (Some v # vs) [] = (Some v # vs, [])"
| "replace_active (Some v # vs) (e # es) = (let (rs, left) = replace_active vs es in (Some e # rs, left))"

definition profile_at :: "bytes \<Rightarrow> u32 option list \<Rightarrow> u32 \<Rightarrow> nat \<Rightarrow> profile list \<Rightarrow> profile list mi_result" where
  "profile_at module indices n off profiles =
     (case mi_read_u32 module (off + 4) of
        Ok version \<Rightarrow>
          if version \<noteq> RAW_VERSION_24 then Ok profiles
          else
          rbind (mi_read_u32 module off) (\<lambda>seed.
          rbind (transformed_values indices seed) (\<lambda>transformed.
            case missing_values transformed of
              None \<Rightarrow> Ok profiles
            | Some missing \<Rightarrow>
                (case find_exception_table module n missing of
                   None \<Rightarrow> Ok profiles
                 | Some exceptions \<Rightarrow>
                     let (candidate, left) = replace_active transformed exceptions in
                     if left = [] \<and> is_complete_permutation candidate
                     then Ok (profiles @ [\<lparr>pr_seed = seed, pr_exceptions = exceptions\<rparr>])
                     else Ok profiles)))
      | Err e \<Rightarrow> Ok profiles
      | Panic \<Rightarrow> Panic)"

definition profile_candidates :: "bytes \<Rightarrow> u32 option list \<Rightarrow> profile list mi_result" where
  "profile_candidates module indices =
     rbind (active_count_u32 indices) (\<lambda>n.
       if n \<le> word_of_nat EXCEPTION_COUNT
       then Err (Validation ''active method count is too small for the v24.1 exception table'')
       else
       rbind (foldM (profile_at module indices n) (steps_of_4 0 (length module - 8)) []) (\<lambda>profiles.
         Ok (remdups_adj (sort_key pr_seed profiles))))"

section \<open>The restoration\<close>

definition index_step ::
  "bytes \<Rightarrow> nat \<Rightarrow> u32 option list \<Rightarrow> nat \<Rightarrow> bytes \<times> nat \<Rightarrow> (bytes \<times> nat) mi_result" where
  "index_step data method_off restored m st =
     (case restored ! m of
        None \<Rightarrow> Ok st
      | Some v \<Rightarrow>
          let (out, changed) = st; off = method_off + m * V24_1_METHOD_STRIDE + V24_1_METHOD_INDEX_OFFSET in
          rbind (mi_read_i32 data off) (\<lambda>old.
            if 2 ^ 31 \<le> unat v then Err (Validation ''restored methodIndex exceeds i32'')
            else if old \<noteq> v
            then rbind (mi_write_i32 out off v) (\<lambda>out'. Ok (out', changed + 1))
            else Ok st))"

definition restore_method_indices_v24_1 :: "bytes \<Rightarrow> bytes \<Rightarrow> (bytes \<times> method_index_report) mi_result" where
  "restore_method_indices_v24_1 data module =
     rbind (method_indices data) (\<lambda>(method_off, indices).
       if is_complete_permutation indices
       then Ok (data, \<lparr>mir_version = RAW_VERSION_24, mir_methods = length indices, mir_active = active_count indices,
                      mir_changed = 0, mir_exceptions = 0, mir_seed = ''clean''\<rparr>)
       else
       rbind (profile_candidates module indices) (\<lambda>profiles.
       rbind (case profiles of [] \<Rightarrow> Err ProfileNotFound | [p] \<Rightarrow> Ok p | _ \<Rightarrow> Err AmbiguousProfile) (\<lambda>p.
       rbind (transformed_values indices (pr_seed p)) (\<lambda>transformed.
         let (restored, left) = replace_active transformed (pr_exceptions p) in
         if left \<noteq> [] then Err (Validation ''metadata has fewer active methods than the exception table'')
         else if \<not> is_complete_permutation restored
         then Err (Validation ''restored methodIndex values are not a complete permutation'')
         else
         rbind (foldM (index_step data method_off restored) [0..<length restored] (data, 0)) (\<lambda>(out, changed).
           Ok (out, \<lparr>mir_version = RAW_VERSION_24, mir_methods = length indices, mir_active = active_count indices,
                     mir_changed = changed, mir_exceptions = EXCEPTION_COUNT, mir_seed = hex_u32 (pr_seed p)\<rparr>))))))"

end
