(* ===== verification/Rounds.thy ===== *)
theory Rounds
  imports Prelude
begin

unbundle bit_operations_syntax

text \<open>
  The round that both metadata restorations repeat five times, as a permutation of the numbers below a count:
  the interface of a keyed round and what iterating it gives, the round on numbers, and the words that
  implement its first half.
\<close>

section \<open>Keyed rounds\<close>

locale keyed_rounds =
  fixes round :: "'k \<Rightarrow> 'a \<Rightarrow> 'a" and valid :: "'k \<Rightarrow> bool" and domain :: "'k \<Rightarrow> 'a set"
  assumes round_bij: "valid k \<Longrightarrow> bij_betw (round k) (domain k) (domain k)"
begin

lemma rounds_bij: "valid k \<Longrightarrow> bij_betw (round k ^^ n) (domain k) (domain k)"
proof (induction n)
  case 0
  show ?case using bij_betw_id [of "domain k"] by (simp add: id_def)
next
  case (Suc n)
  then have "bij_betw (round k \<circ> round k ^^ n) (domain k) (domain k)"
    using bij_betw_trans [OF _ round_bij] by blast
  then show ?case by (simp add: comp_def)
qed

end

section \<open>The round\<close>

text \<open>One round on numbers: fold the odd numbers over the even ones, halve, and rotate by the key.\<close>

definition fold_half :: "nat \<Rightarrow> nat \<Rightarrow> nat" where
  "fold_half n v = (if odd v then 2 * n - 1 - v else v) div 2"

definition round_nat :: "nat \<Rightarrow> nat \<Rightarrow> nat \<Rightarrow> nat" where
  "round_nat n key v = (let x = fold_half n v in if x < key then x + n - key else x - key)"

lemma fold_half_less: "v < n \<Longrightarrow> fold_half n v < n"
  by (auto simp: fold_half_def)

lemma fold_half_inj:
  assumes "a < n" "b < n" "fold_half n a = fold_half n b"
  shows "a = b"
proof -
  have e: "even (if odd v then 2 * n - 1 - v else v)" if "v < n" for v :: nat using that by auto
  have half: "x = y" if "even x" "even y" "x div 2 = y div 2" for x y :: nat using that by presburger
  have "(if odd a then 2 * n - 1 - a else a) = (if odd b then 2 * n - 1 - b else b)"
    by (rule half [OF e [OF assms(1)] e [OF assms(2)] assms(3) [unfolded fold_half_def]])
  then show ?thesis using assms(1,2) by (auto split: if_splits)
qed

lemma round_nat_bij:
  assumes "key < n"
  shows "bij_betw (round_nat n key) {..<n} {..<n}"
proof (rule bij_betw_imageI)
  show inj: "inj_on (round_nat n key) {..<n}"
  proof (rule inj_onI)
    fix a b assume a: "a \<in> {..<n}" and b: "b \<in> {..<n}" and eq: "round_nat n key a = round_nat n key b"
    then have "fold_half n a = fold_half n b"
      using fold_half_less [of a n] fold_half_less [of b n] assms by (auto simp: round_nat_def Let_def split: if_splits)
    then show "a = b" using a b by (auto intro: fold_half_inj)
  qed
  show "round_nat n key ` {..<n} = {..<n}"
    using inj assms fold_half_less by (intro endo_inj_surj) (fastforce simp: round_nat_def Let_def)+
qed

lemma odd_word: "(w :: u32) AND 1 \<noteq> 0 \<longleftrightarrow> odd (unat w)"
proof -
  have "odd (unat w) = odd w" using bit_unsigned_iff [of w 0] by (simp add: bit_0)
  then show ?thesis by (simp add: and_one_eq mod_2_eq_odd)
qed

text \<open>The first half of the round on words: the mirrored and halved value needs no second mirroring.\<close>

lemma fold_half_word:
  fixes v n :: u32
  assumes "v < n" "unat n < 2 ^ 31"
  shows "unat (drop_bit 1 (if v AND 1 \<noteq> 0 then n * 2 - 1 - v else v)) = fold_half (unat n) (unat v)"
    and "\<not> n \<le> drop_bit 1 (if v AND 1 \<noteq> 0 then n * 2 - 1 - v else v)"
proof -
  let ?x = "drop_bit 1 (if v AND 1 \<noteq> 0 then n * 2 - 1 - v else v)"
  have vn: "unat v < unat n" using assms by (simp add: word_less_nat_alt)
  have n2: "unat (n * 2) = 2 * unat n" using assms(2) by (simp add: unat_word_ariths)
  have m: "unat (n * 2 - 1) = 2 * unat n - 1" using n2 vn by (subst unat_sub) (simp_all add: word_le_nat_alt)
  have mv: "unat (n * 2 - 1 - v) = 2 * unat n - 1 - unat v" using m vn by (subst unat_sub) (simp_all add: word_le_nat_alt)
  show x: "unat ?x = fold_half (unat n) (unat v)"
    using mv odd_word [of v] by (simp add: fold_half_def drop_bit_Suc unat_div)
  then have "unat ?x < unat n" using fold_half_less [OF vn] by simp
  then show "\<not> n \<le> ?x" by (simp add: word_le_nat_alt)
qed

lemma word_round_bij:
  fixes n key :: u32
  assumes key: "key < n" and f: "\<And>v. v < n \<Longrightarrow> unat (f v) = round_nat (unat n) (unat key) (unat v)"
  shows "bij_betw f {v. v < n} {v :: u32. v < n}"
proof -
  have kn: "unat key < unat n" using key by (simp add: word_less_nat_alt)
  have inj: "inj_on f {v. v < n}"
  proof (rule inj_onI, clarify)
    fix a b :: u32
    assume a: "a < n" and b: "b < n" and eq: "f a = f b"
    have "round_nat (unat n) (unat key) (unat a) = round_nat (unat n) (unat key) (unat b)"
      using f [OF a] f [OF b] eq by simp
    then have "unat a = unat b"
      using round_nat_bij [OF kn] a b unfolding bij_betw_def inj_on_def word_less_nat_alt by blast
    then show "a = b" by (simp add: word_unat_eq_iff)
  qed
  have "f v < n" if "v < n" for v
    using f [OF that] bij_betwE [OF round_nat_bij [OF kn]] that by (simp add: word_less_nat_alt)
  then have "f ` {v. v < n} = {v. v < n}" using inj by (intro endo_inj_surj) auto
  then show ?thesis using inj by (simp add: bij_betw_def)
qed

text \<open>A key below the count, as both restorations derive it from the seed.\<close>

lemma seed_key_less:
  fixes n seed :: u32
  assumes "2 \<le> unat n"
  shows "seed mod (n div 2) + n div 4 < n" and "unat (seed mod (n div 2) + n div 4) = unat seed mod (unat n div 2) + unat n div 4"
proof -
  have half: "unat (n div 2) = unat n div 2" "unat (n div 4) = unat n div 4" by (simp_all add: unat_div)
  have less: "unat (seed mod (n div 2)) < unat n div 2" using assms half by (simp add: unat_mod)
  have "unat (seed mod (n div 2)) + unat (n div 4) < unat n" using less half assms by linarith
  then have key: "unat (seed mod (n div 2) + n div 4) = unat (seed mod (n div 2)) + unat n div 4"
    using half unat_bound [of n] by (subst unat_add_no_wrap) auto
  then show "seed mod (n div 2) + n div 4 < n" using less half assms by (simp add: word_less_nat_alt)
  show "unat (seed mod (n div 2) + n div 4) = unat seed mod (unat n div 2) + unat n div 4" using key half by (simp add: unat_mod)
qed

end
