(* ===== verification/MethodIndexProps.thy ===== *)
theory MethodIndexProps
  imports MethodIndices Columns Rounds "HOL-Library.Multiset"
begin

unbundle bit_operations_syntax

text \<open>
  Correctness of the method-index restoration of \<^verbatim>\<open>senbei-metadata/src/android/method_indices.rs\<close>: the keyed
  rounds are a permutation, the completeness check means what it says, and what a successful restoration
  leaves in the file.
\<close>

section \<open>The keyed permutation is a bijection\<close>

lemma permutation_round_nat:
  assumes "v < n" "key < n" "unat n < 2 ^ 31"
  shows "unat (permutation_round v n key) = round_nat (unat n) (unat key) (unat v)"
proof -
  let ?x = "drop_bit 1 (if v AND 1 \<noteq> 0 then n * 2 - 1 - v else v)"
  have vn: "unat v < unat n" "unat key < unat n" using assms by (simp_all add: word_less_nat_alt)
  note x = fold_half_word(1) [OF assms(1,3)]
  from fold_half_word(2) [OF assms(1,3)]
  have "permutation_round v n key = (let a = uint ?x - uint key in if a < 0 then word_of_int (a + uint n) else word_of_int a)"
    by (simp add: permutation_round_def Let_def)
  moreover have "uint ?x = int (fold_half (unat n) (unat v))" using x by (simp only: uint_nat)
  ultimately have run: "permutation_round v n key = (let a = int (fold_half (unat n) (unat v)) - int (unat key) in
      if a < 0 then word_of_int (a + int (unat n)) else word_of_int a)"
    by (simp only: uint_nat)
  have "permutation_round v n key = word_of_nat (round_nat (unat n) (unat key) (unat v))"
  proof (cases "fold_half (unat n) (unat v) < unat key")
    case True
    then have "int (fold_half (unat n) (unat v)) - int (unat key) + int (unat n) = int (round_nat (unat n) (unat key) (unat v))"
      using vn by (simp add: round_nat_def)
    moreover have "int (fold_half (unat n) (unat v)) - int (unat key) < 0" using True by linarith
    ultimately show ?thesis unfolding run Let_def by (simp only: if_True of_int_of_nat_eq)
  next
    case False
    then have "int (fold_half (unat n) (unat v)) - int (unat key) = int (round_nat (unat n) (unat key) (unat v))"
      by (simp add: round_nat_def)
    then show ?thesis unfolding run Let_def by simp
  qed
  moreover have "round_nat (unat n) (unat key) (unat v) < unat n"
    using round_nat_bij [OF vn(2)] vn(1) by (auto simp: bij_betw_def)
  ultimately show ?thesis using assms(3) by (simp add: unat_of_nat)
qed

lemma permutation_key_Ok:
  "permutation_key seed n = Ok key \<longleftrightarrow> 2 \<le> unat n \<and> unat n < 2 ^ 31 \<and> key = seed mod (n div 2) + n div 4"
proof -
  have max: "unat ((- 1 :: u32) div 2) = 2 ^ 31 - 1" by (simp add: unat_div unsigned_minus_1_eq_mask mask_eq_exp_minus_1)
  have "n div 2 \<noteq> 0" if "2 \<le> unat n"
  proof
    assume "n div 2 = 0"
    then have "unat (n div 2) = 0" by simp
    then show False using that by (simp add: unat_div)
  qed
  then show ?thesis
    unfolding permutation_key_def Let_def word_less_nat_alt max by auto
qed

lemma permutation_key_less: "permutation_key seed n = Ok key \<Longrightarrow> key < n"
  using seed_key_less(1) by (auto simp: permutation_key_Ok)

interpretation rounds: keyed_rounds "\<lambda>(n, key) v. permutation_round v n key"
  "\<lambda>(n, key). key < n \<and> unat n < 2 ^ 31" "\<lambda>(n, key). {v. v < n}"
  by unfold_locales (auto intro!: word_round_bij simp: permutation_round_nat)

text \<open>For every seed, the five rounds permute the indices below the number of active methods, and they
  fail exactly when that number is below 2 or too large for the mirror.\<close>

lemma transform_index_bij:
  "(2 \<le> unat n \<and> unat n < 2 ^ 31 \<and>
      (\<exists>f. (\<forall>v. transform_index v n seed = Ok (f v)) \<and> bij_betw f {v. v < n} {v. v < n}))
   \<or> (\<not> (2 \<le> unat n \<and> unat n < 2 ^ 31) \<and> (\<exists>e. \<forall>v. transform_index v n seed = Err (Validation e)))"
proof (cases "2 \<le> unat n \<and> unat n < 2 ^ 31")
  case True
  then obtain key where key: "permutation_key seed n = Ok key" by (simp add: permutation_key_Ok)
  have "bij_betw ((\<lambda>v. permutation_round v n key) ^^ 5) {v. v < n} {v. v < n}"
    using rounds.rounds_bij [of "(n, key)" 5] permutation_key_less [OF key] True by simp
  then show ?thesis using True by (auto simp: transform_index_def key)
next
  case False
  then have "permutation_key seed n \<noteq> Ok key" for key using permutation_key_Ok [of seed n key] by blast
  then have "\<exists>e. permutation_key seed n = Err (Validation e)"
    by (cases "permutation_key seed n") (auto simp: permutation_key_def Let_def split: if_splits)
  then show ?thesis using False by (auto simp: transform_index_def)
qed


section \<open>Complete permutations\<close>

lemma active_count_actives: "active_count ix = length (actives ix)"
  unfolding active_count_def by (induction ix rule: actives.induct) auto

lemma actives_append: "actives (xs @ ys) = actives xs @ actives ys"
  by (induction xs rule: actives.induct) auto

lemma set_actives: "v \<in> set (actives ix) \<longleftrightarrow> Some v \<in> set ix"
  by (induction ix rule: actives.induct) auto

lemma unat_eqD: "unat v = unat w \<Longrightarrow> v = w"
  by (simp add: word_unat_eq_iff)

lemma mark_all_Some:
  "length seen = n \<Longrightarrow> mark_all n vs seen = Some seen' \<longleftrightarrow>
     distinct vs \<and> (\<forall>v\<in>set vs. unat v < n \<and> \<not> seen ! unat v)
     \<and> length seen' = n \<and> (\<forall>i<n. seen' ! i \<longleftrightarrow> seen ! i \<or> i \<in> unat ` set vs)"
proof (induction vs arbitrary: seen)
  case Nil
  show ?case by (auto simp: Nil list_eq_iff_nth_eq)
next
  case (Cons v vs)
  show ?case
  proof (cases "n \<le> unat v \<or> seen ! unat v")
    case True
    then show ?thesis by auto
  next
    case False
    then have l: "length (seen[unat v := True]) = n" using Cons.prems by simp
    have dist: "(\<forall>w\<in>set vs. unat w < n \<and> \<not> seen[unat v := True] ! unat w) \<longleftrightarrow> v \<notin> set vs \<and> (\<forall>w\<in>set vs. unat w < n \<and> \<not> seen ! unat w)"
      using False Cons.prems by (auto simp: nth_list_update dest: unat_eqD)
    have mark: "(\<forall>i<n. seen' ! i \<longleftrightarrow> seen[unat v := True] ! i \<or> i \<in> unat ` set vs) \<longleftrightarrow> (\<forall>i<n. seen' ! i \<longleftrightarrow> seen ! i \<or> i \<in> unat ` set (v # vs))"
      using False Cons.prems by (auto simp: nth_list_update)
    show ?thesis using False Cons.IH [OF l] dist mark by auto
  qed
qed

lemma inj_on_unat [simp]: "inj_on unat S"
  by (auto simp: inj_on_def dest: unat_eqD)

lemma permutation_full:
  assumes "distinct vs" "\<forall>v\<in>set (vs :: u32 list). unat v < length vs"
  shows "unat ` set vs = {..<length vs}"
proof (rule card_subset_eq)
  show "card (unat ` set vs) = card {..<length vs}" using assms(1) by (simp add: card_image distinct_card)
qed (use assms(2) in auto)

text \<open>A vector is accepted as a complete permutation exactly when it has an active value and its active
  values are, in some order, the numbers below their count, each once.\<close>

lemma is_complete_permutation_spec:
  "is_complete_permutation ix \<longleftrightarrow>
     0 < active_count ix \<and> active_count ix < 2 ^ 32
     \<and> mset (map unat (actives ix)) = mset [0..<active_count ix]"
proof -
  let ?n = "length (actives ix)"
  have max: "unat (- 1 :: u32) = 2 ^ 32 - 1" by (simp add: unsigned_minus_1_eq_mask mask_eq_exp_minus_1)
  have ms: "mset (map unat (actives ix)) = mset [0..<?n] \<longleftrightarrow> distinct (actives ix) \<and> (\<forall>v\<in>set (actives ix). unat v < ?n)"
  proof
    assume m: "mset (map unat (actives ix)) = mset [0..<?n]"
    then have set: "set (map unat (actives ix)) = {0..<?n}" by (metis set_mset_mset set_upt)
    then have "distinct (map unat (actives ix))" by (intro card_distinct) simp
    with set show "distinct (actives ix) \<and> (\<forall>v\<in>set (actives ix). unat v < ?n)" by (auto simp: distinct_map)
  next
    assume d: "distinct (actives ix) \<and> (\<forall>v\<in>set (actives ix). unat v < ?n)"
    then show "mset (map unat (actives ix)) = mset [0..<?n]"
      using permutation_full [of "actives ix"]
      by (subst set_eq_iff_mset_eq_distinct [symmetric]) (auto simp: distinct_map)
  qed
  have all: "seen = replicate ?n True" if "mark_all ?n (actives ix) (replicate ?n False) = Some seen" "list_all id seen" for seen
    using that by (auto simp: mark_all_Some list_all_length intro: nth_equalityI)
  have "is_complete_permutation ix \<longleftrightarrow> 0 < ?n \<and> ?n < 2 ^ 32 \<and> mark_all ?n (actives ix) (replicate ?n False) = Some (replicate ?n True)"
    using all unfolding is_complete_permutation_def Let_def active_count_actives max
    by (auto split: option.splits simp: list_all_length)
  then show ?thesis
    using permutation_full [of "actives ix"] unfolding ms active_count_actives by (auto simp: mark_all_Some)
qed

section \<open>The restored file\<close>

definition index_column :: "nat \<Rightarrow> column" where
  "index_column off = \<lparr>col_base = off, col_stride = V24_1_METHOD_STRIDE, col_field = V24_1_METHOD_INDEX_OFFSET\<rparr>"

lemma index_strides: "V24_1_METHOD_STRIDE = 52" "V24_1_METHOD_INDEX_OFFSET = 20" "HDR_METHODS = 0x30" "EXCEPTION_COUNT = 256"
  by (simp_all add: V24_1_METHOD_STRIDE_def V24_1_METHOD_INDEX_OFFSET_def V24_1_METHOD_INDEX_def HDR_METHODS_def HEADER_def EXCEPTION_COUNT_def)

lemma index_column_ok [simp]: "column_ok (index_column off)"
  by (simp add: column_ok_def index_column_def index_strides)

lemma cell_index: "off + m * V24_1_METHOD_STRIDE + V24_1_METHOD_INDEX_OFFSET = cell (index_column off) m"
  by (simp add: cell_def index_column_def)

lemma mi_read_Ok_conv [res_conv]:
  "mi_read_u32 data off = Ok w \<longleftrightarrow> off + 4 \<le> length data \<and> off + 4 < usize_limit \<and> w = word_at data off"
  "mi_read_i32 data off = Ok w \<longleftrightarrow> off + 4 \<le> length data \<and> off + 4 < usize_limit \<and> w = word_at data off"
  by (auto simp: mi_read_u32_def mi_read_i32_def mi_bytes_def res_conv word_at_def)

lemma mi_write_Ok_conv [res_conv]:
  "mi_write_i32 data off w = Ok out \<longleftrightarrow> off + 4 \<le> length data \<and> out = patch data off (to_le 4 w)"
  by (auto simp: mi_write_i32_def res_conv)

text \<open>The values of the index column, and the column a restored vector stands for.\<close>

definition index_values :: "bytes \<Rightarrow> nat \<Rightarrow> nat \<Rightarrow> u32 option list" where
  "index_values data off n = map (\<lambda>m. active_index (word_at data (cell (index_column off) m))) [0..<n]"

lemma method_indices_Ok:
  assumes "method_indices data = Ok (off, ix)"
  shows "mi_method_table data = Ok (off, length ix) \<and> ix = index_values data off (length ix)"
proof -
  obtain n where t: "mi_method_table data = Ok (off, n)" and
    m: "mapM (\<lambda>m. rbind (mi_read_i32 data (cell (index_column off) m)) (\<lambda>w. Ok (active_index w))) [0..<n] = Ok ix"
    using assms by (auto simp: method_indices_def res_conv cell_index)
  have l: "length ix = n" using mapM_Ok_length [OF m] by simp
  moreover have "ix = index_values data off n"
  proof (rule nth_equalityI)
    fix i assume "i < length ix"
    then have i: "i < length [0..<n]" using l by simp
    show "ix ! i = index_values data off n ! i"
      using mapM_Ok_nth [OF m i] i by (auto simp: res_conv index_values_def)
  qed (simp add: l index_values_def)
  ultimately show ?thesis using t by simp
qed

lemma index_step_written:
  assumes s: "index_step data off restored n (out, r) = Ok (out', r')"
    and w: "column_written data (index_column off) (\<lambda>m. restored ! m) n out r"
  shows "column_written data (index_column off) (\<lambda>m. restored ! m) (Suc n) out' r' \<and> (\<forall>v. restored ! n = Some v \<longrightarrow> unat v < 2 ^ 31)"
proof (cases "restored ! n")
  case None
  then show ?thesis using s w column_written_skip [OF w] by (simp add: index_step_def)
next
  case (Some v)
  let ?p = "cell (index_column off) n"
  have len: "length out = length data" by (rule column_written_length [OF w])
  have same: "window out ?p 4 = window data ?p 4" by (rule column_written_ahead [OF w index_column_ok])
  have fit: "?p + 4 \<le> length data" and small: "unat v < 2 ^ 31"
    and out: "(out', r') = (if word_at data ?p \<noteq> v then (patch out ?p (to_le 4 v), r + 1) else (out, r))"
    using s Some by (auto simp: index_step_def Let_def res_conv cell_index split: if_splits)
  have eq: "word_at data ?p = v \<longleftrightarrow> window out ?p 4 = to_le 4 v"
    using to_le_word_at [OF fit] unfolding same word_at_def by (auto simp: from_le_to_le)
  have "patch out ?p (to_le 4 v) = out'" "r' = r + (if window out ?p 4 \<noteq> to_le 4 v then 1 else 0)"
    using out eq patch_window [of ?p 4 out] fit len by (auto split: if_splits)
  then show ?thesis using column_written_write [OF w index_column_ok Some fit] small Some by simp
qed

lemma index_run_written:
  "foldM (index_step data off restored) [0..<n] (data, 0) = Ok (out, r) \<Longrightarrow>
     column_written data (index_column off) (\<lambda>m. restored ! m) n out r \<and> (\<forall>m<n. \<forall>v. restored ! m = Some v \<longrightarrow> unat v < 2 ^ 31)"
proof (induction n arbitrary: out r)
  case 0
  then show ?case by (simp add: column_written_0)
next
  case (Suc n)
  then obtain o1 r1 where "foldM (index_step data off restored) [0..<n] (data, 0) = Ok (o1, r1)"
    and "index_step data off restored n (o1, r1) = Ok (out, r)"
    by (auto simp: foldM_append res_conv)
  then show ?case using Suc.IH index_step_written by (metis less_Suc_eq)
qed

lemma active_index_small: "unat v < 2 ^ 31 \<Longrightarrow> active_index v = Some v"
proof -
  assume "unat v < 2 ^ 31"
  then have "int (unat v) < int (2 ^ 31)" by (simp only: of_nat_less_iff)
  then have "uint v < 2 ^ 31" by simp
  then have "uint v div 2 ^ 31 = 0" by (intro div_pos_pos_trivial) simp_all
  then have "\<not> bit (uint v) 31" by (simp add: bit_iff_odd)
  then have "\<not> bit v 31" by (simp add: bit_uint_iff)
  then show ?thesis by (simp add: active_index_def sint_uint signed_take_bit_eq_if_positive bit_uint_iff)
qed

lemma transformed_shape:
  assumes "transformed_values ix seed = Ok tv"
  shows "length tv = length ix \<and> (\<forall>m<length ix. (tv ! m = None) = (ix ! m = None))"
proof -
  let ?f = "\<lambda>n v. case v of None \<Rightarrow> Ok None | Some w \<Rightarrow> rbind (transform_index w n seed) (\<lambda>t. Ok (Some t))"
  obtain n where m: "mapM (?f n) ix = Ok tv" using assms by (auto simp: transformed_values_def res_conv)
  have "(tv ! m = None) = (ix ! m = None)" if "m < length ix" for m
    using mapM_Ok_nth [OF m that] by (cases "ix ! m") (auto simp: res_conv eq_commute [of "Some _"])
  then show ?thesis using mapM_Ok_length [OF m] by simp
qed

lemma replace_active_shape:
  "length (fst (replace_active vs es)) = length vs \<and> (\<forall>m<length vs. (fst (replace_active vs es) ! m = None) = (vs ! m = None))"
  by (induction vs es rule: replace_active.induct) (auto simp: Let_def split_beta nth_Cons split: nat.splits)

text \<open>What a successful restoration did: either nothing, or a pass over the index column that made it the
  restored vector.\<close>

lemma restored_column:
  assumes run: "foldM (index_step data off restored) [0..<n] (data, 0) = Ok (out, r)" and n: "length restored = n"
    and shape: "\<forall>m<n. (restored ! m = None) = (index_values data off n ! m = None)"
  shows "index_values out off n = restored"
proof (rule nth_equalityI)
  note w = index_run_written [OF run]
  then have cw: "column_written data (index_column off) (\<lambda>m. restored ! m) n out r" by blast
  fix m assume "m < length (index_values out off n)"
  then have m: "m < n" by (simp add: index_values_def)
  show "index_values out off n ! m = restored ! m"
  proof (cases "restored ! m")
    case None
    then show ?thesis using column_written_kept [OF cw index_column_ok None] m shape [rule_format, OF m] by (simp add: index_values_def)
  next
    case (Some v)
    then show ?thesis using column_written_cell [OF cw m Some] w m by (simp add: index_values_def active_index_small)
  qed
qed (simp add: index_values_def n)

lemma restored_file:
  assumes "restore_method_indices_v24_1 data module = Ok (out, rp)"
  shows "\<exists>off. mi_method_table data = Ok (off, mir_methods rp)
    \<and> length out = length data
    \<and> is_complete_permutation (index_values out off (mir_methods rp))
    \<and> (\<forall>k<length data. (\<forall>m<mir_methods rp. index_values data off (mir_methods rp) ! m \<noteq> None
          \<longrightarrow> k \<notin> {cell (index_column off) m..<cell (index_column off) m + 4}) \<longrightarrow> out ! k = data ! k)
    \<and> mir_changed rp = card {m. m < mir_methods rp
          \<and> word_at data (cell (index_column off) m) \<noteq> word_at out (cell (index_column off) m)}"
proof -
  obtain off ix where ix: "method_indices data = Ok (off, ix)"
    using assms by (auto simp: restore_method_indices_v24_1_def res_conv)
  note t = method_indices_Ok [OF ix]
  show ?thesis
  proof (cases "is_complete_permutation ix")
    case True
    then have "out = data" "mir_methods rp = length ix" "mir_changed rp = 0"
      using assms ix by (auto simp: restore_method_indices_v24_1_def)
    then show ?thesis using True t by auto
  next
    case False
    then obtain tv c and pr :: profile where tv: "transformed_values ix (pr_seed pr) = Ok tv"
      and run: "foldM (index_step data off (fst (replace_active tv (pr_exceptions pr)))) [0..<length (fst (replace_active tv (pr_exceptions pr)))]
            (data, 0) = Ok (out, c)"
      and perm: "is_complete_permutation (fst (replace_active tv (pr_exceptions pr)))"
      and rp: "rp = \<lparr>mir_version = RAW_VERSION_24, mir_methods = length ix, mir_active = active_count ix, mir_changed = c,
                mir_exceptions = EXCEPTION_COUNT, mir_seed = hex_u32 (pr_seed pr)\<rparr>"
      using assms ix by (auto simp: restore_method_indices_v24_1_def res_conv Let_def split_beta split: if_splits)
    let ?r = "fst (replace_active tv (pr_exceptions pr))"
    have l: "length ?r = length ix" and sh: "\<forall>m<length ix. (?r ! m = None) = (index_values data off (length ix) ! m = None)"
      using transformed_shape [OF tv] replace_active_shape [of tv "pr_exceptions pr"] t by auto
    have cw: "column_written data (index_column off) (\<lambda>m. ?r ! m) (length ix) out (c)"
      using index_run_written [OF run] l by simp
    have "index_values out off (length ix) = ?r"
      using restored_column [of data off ?r "length ix" out c] run l sh by simp
    then show ?thesis
      using t perm rp column_written_changed [OF cw index_column_ok] column_written_length [OF cw]
        column_written_bytes [OF cw] sh by auto
  qed
qed


text \<open>C19. After a successful restoration the index column of the method table is a complete permutation, the
  inactive entries and every byte outside the active entries are unchanged, and the report counts the entries
  that changed.\<close>

lemma restore_method_indices_complete:
  assumes "restore_method_indices_v24_1 data module = Ok (out, rp)"
  shows "\<exists>off. mi_method_table data = Ok (off, mir_methods rp)
    \<and> length out = length data
    \<and> is_complete_permutation (index_values out off (mir_methods rp))
    \<and> (\<forall>k<length data. (\<forall>m<mir_methods rp. index_values data off (mir_methods rp) ! m \<noteq> None
          \<longrightarrow> k \<notin> {cell (index_column off) m..<cell (index_column off) m + 4}) \<longrightarrow> out ! k = data ! k)
    \<and> mir_changed rp = card {m. m < mir_methods rp
          \<and> word_at data (cell (index_column off) m) \<noteq> word_at out (cell (index_column off) m)}"
  by (rule restored_file [OF assms])

text \<open>When the method table lies after the header fields, restoring the restored file with any module
  reports it as clean and returns it unchanged.\<close>

lemma restore_method_indices_idempotent:
  assumes run: "restore_method_indices_v24_1 data module = Ok (out, rp)" and after: "0x38 \<le> unat (word_at data 0x30)"
  shows "\<exists>active. restore_method_indices_v24_1 out module' = Ok (out, \<lparr>mir_version = RAW_VERSION_24,
           mir_methods = mir_methods rp, mir_active = active, mir_changed = 0, mir_exceptions = 0, mir_seed = ''clean''\<rparr>)"
proof -
  let ?n = "mir_methods rp"
  obtain off where t: "mi_method_table data = Ok (off, ?n)" and len: "length out = length data"
    and perm: "is_complete_permutation (index_values out off ?n)"
    and same: "\<And>k. k < length data \<Longrightarrow> (\<And>m. m < ?n \<Longrightarrow> k \<notin> {cell (index_column off) m..<cell (index_column off) m + 4})
                  \<Longrightarrow> out ! k = data ! k"
    using restored_file [OF run] by blast
  have off: "off = unat (word_at data 0x30)" and sz: "?n = unat (word_at data 0x34) div V24_1_METHOD_STRIDE"
    and hd: "off + unat (word_at data 0x34) \<le> length data" "off + unat (word_at data 0x34) < usize_limit" "0x38 \<le> length data"
    using t by (auto simp: mi_method_table_def mi_bytes_def res_conv index_strides)
  have win: "window out a 4 = window data a 4" if "a + 4 \<le> 0x38" for a
  proof (rule window_eq_outside [OF len])
    fix k assume k: "k < length data" "a \<le> k" "k < a + 4"
    have "k < cell (index_column off) m" for m using k that after off by (simp add: cell_def index_column_def)
    then show "out ! k = data ! k" using same [OF k(1)] by (meson atLeastLessThan_iff not_le)
  qed
  then have rd: "mi_read_u32 out a = mi_read_u32 data a" if "a + 4 \<le> 0x38" for a
    using that by (simp add: mi_read_u32_def mi_bytes_def get_range_def len)
  have bt: "(mi_bytes out a k = Ok b) = (b = window out a k \<and> (\<exists>b. mi_bytes data a k = Ok b))" for a k b
    by (auto simp: mi_bytes_def res_conv len ranges)
  have t': "mi_method_table out = Ok (off, ?n)"
    using t by (auto simp: mi_method_table_def res_conv rd index_strides bt split: if_splits)
  have "mapM (\<lambda>m. rbind (mi_read_i32 out (cell (index_column off) m)) (\<lambda>w. Ok (active_index w))) [0..<?n] = Ok (index_values out off ?n)"
    unfolding index_values_def
  proof (rule mapM_Ok_map)
    fix m assume m: "m \<in> set [0..<?n]"
    have "m * 52 + 20 + 4 \<le> unat (word_at data 0x34)"
      using entry_inside [of m "unat (word_at data 0x34)" 52 20 4] m sz by (simp add: index_strides)
    then have "cell (index_column off) m + 4 \<le> length out" "cell (index_column off) m + 4 < usize_limit"
      using hd len by (simp_all add: cell_def index_column_def index_strides)
    then have "mi_read_i32 out (cell (index_column off) m) = Ok (word_at out (cell (index_column off) m))"
      by (simp add: res_conv)
    then show "rbind (mi_read_i32 out (cell (index_column off) m)) (\<lambda>w. Ok (active_index w)) = Ok (active_index (word_at out (cell (index_column off) m)))"
      by simp
  qed
  then have "method_indices out = Ok (off, index_values out off ?n)"
    by (simp add: method_indices_def t' cell_index)
  then show ?thesis using perm by (simp add: restore_method_indices_v24_1_def index_values_def)
qed

section \<open>Witnesses\<close>

definition clean_file :: bytes where
  "clean_file = to_le 4 MAGIC @ to_le 4 RAW_VERSION_24 @ replicate 40 0 @ to_le 4 (0x38 :: u32) @ to_le 4 (104 :: u32)
     @ replicate 20 0 @ [1] @ replicate 83 0"

lemma clean_run: "restore_method_indices_v24_1 clean_file [] = Ok (clean_file, \<lparr>mir_version = RAW_VERSION_24,
    mir_methods = 2, mir_active = 2, mir_changed = 0, mir_exceptions = 0, mir_seed = ''clean''\<rparr>)"
proof -
  have l: "length clean_file = 160" by (simp add: clean_file_def)
  have r: "map (word_at clean_file) [0, 4, 0x30, 0x34, 76, 128] = [MAGIC, RAW_VERSION_24, 0x38, 104, 1, 0]" by code_simp
  have t: "mi_method_table clean_file = Ok (0x38, 2)"
    using r by (simp add: mi_method_table_def mi_read_u32_def mi_bytes_def chk_add_def usize_limit_def get_range_def word_at_def l index_strides)
  have "method_indices clean_file = Ok (0x38, [Some 1, Some 0])"
    using r by (simp add: method_indices_def t mi_read_i32_def mi_bytes_def chk_add_def usize_limit_def get_range_def word_at_def l index_strides
       upt_rec active_index_def)
  moreover have "is_complete_permutation [Some 1, Some 0]"
    by (simp add: is_complete_permutation_def active_count_def unsigned_minus_1_eq_mask mask_eq_exp_minus_1)
  ultimately show ?thesis by (simp add: restore_method_indices_v24_1_def active_count_def)
qed

lemma restore_method_indices_complete_witness:
  "\<exists>off. mi_method_table clean_file = Ok (off, 2) \<and> is_complete_permutation (index_values clean_file off 2)
     \<and> 0 = card {m. m < 2 \<and> word_at clean_file (cell (index_column off) m) \<noteq> word_at clean_file (cell (index_column off) m)}"
  using restore_method_indices_complete [OF clean_run] unfolding method_index_report.select_convs by blast

lemma restore_method_indices_idempotent_witness:
  "\<exists>active. restore_method_indices_v24_1 clean_file [1] = Ok (clean_file, \<lparr>mir_version = RAW_VERSION_24,
           mir_methods = 2, mir_active = active, mir_changed = 0, mir_exceptions = 0, mir_seed = ''clean''\<rparr>)"
proof -
  have "0x38 \<le> unat (word_at clean_file 0x30)" by code_simp
  from restore_method_indices_idempotent [OF clean_run this] show ?thesis by simp
qed

end
