(* ===== verification/MethodTokens.thy ===== *)
theory MethodTokens
  imports MetaLayout
begin

unbundle bit_operations_syntax

text \<open>
  \<^verbatim>\<open>senbei-metadata/src/android/method_tokens.rs\<close>, first part: the seeded restoration of method tokens for the
  metadata versions with fixed record layouts. The tokens of an img are a keyed permutation of its row
  numbers; the restoration inverts it and accepts the result only when it is the identity. The messages of
  the errors keep their fixed text, so the method index that an entry carries only for its message is left out.
\<close>

section \<open>Constants, reports and errors\<close>

definition DEFAULT_METHOD_TOKEN_SEED :: u32 where "DEFAULT_METHOD_TOKEN_SEED = 0xa6fae968"
definition SUPPORTED_V39 :: u32 where "SUPPORTED_V39 = raw V39"
definition MT_HDR_METHODS :: nat where "MT_HDR_METHODS = hl_methods HEADER"
definition MT_HDR_TYPES :: nat where "MT_HDR_TYPES = hl_types HEADER"
definition MT_HDR_IMAGES :: nat where "MT_HDR_IMAGES = hl_images HEADER"
definition MT_TYPE_STRIDE :: nat where "MT_TYPE_STRIDE = tr_stride (fl_types layout_v29)"
definition TYPE_METHOD_START_OFFSET :: nat where "TYPE_METHOD_START_OFFSET = tr_method_start (fl_types layout_v29)"
definition TYPE_METHOD_COUNT_OFFSET :: nat where "TYPE_METHOD_COUNT_OFFSET = tr_method_count (fl_types layout_v29)"
definition MT_IMAGE_STRIDE :: nat where "MT_IMAGE_STRIDE = ir_stride (fl_images layout_v29)"
definition IMAGE_TYPE_START_OFFSET :: nat where "IMAGE_TYPE_START_OFFSET = ir_type_start (fl_images layout_v29)"
definition IMAGE_TYPE_COUNT_OFFSET :: nat where "IMAGE_TYPE_COUNT_OFFSET = ir_type_count (fl_images layout_v29)"
definition MT_TOKEN_TABLE :: u32 where "MT_TOKEN_TABLE = 0x06000000"

record mt_report =
  mt_version :: u32
  mt_seed :: string
  mt_status :: string
  mt_images :: nat
  mt_images_with_methods :: nat
  mt_types :: nat
  mt_methods :: nat
  mt_visited :: nat
  mt_already_correct :: nat
  mt_correct_after :: nat
  mt_changed :: nat
  mt_transformed :: nat

datatype mt_error = NotMetadata | UnsupportedVersion u32 | Malformed string | Validation string

type_synonym 'a mt_result = "('a, mt_error) res"

section \<open>Reading\<close>

definition mt_bytes :: "bytes \<Rightarrow> nat \<Rightarrow> nat \<Rightarrow> bytes mt_result" where
  "mt_bytes data off len =
     rbind (ok_or (Malformed ''byte range overflow'') (chk_add off len)) (\<lambda>stop.
       ok_or (Malformed ''byte range is out of bounds'') (get_range data off len))"

definition mt_read_u16 :: "bytes \<Rightarrow> nat \<Rightarrow> u16 mt_result" where
  "mt_read_u16 data off = rbind (mt_bytes data off 2) (\<lambda>b. Ok (from_le b))"

definition mt_read_u32 :: "bytes \<Rightarrow> nat \<Rightarrow> u32 mt_result" where
  "mt_read_u32 data off = rbind (mt_bytes data off 4) (\<lambda>b. Ok (from_le b))"

text \<open>A signed word is kept as its bits; \<open>sint\<close> reads it.\<close>

definition mt_read_i32 :: "bytes \<Rightarrow> nat \<Rightarrow> u32 mt_result" where
  "mt_read_i32 data off = rbind (mt_bytes data off 4) (\<lambda>b. Ok (from_le b))"

definition mt_table :: "bytes \<Rightarrow> nat \<Rightarrow> (nat \<times> nat) mt_result" where
  "mt_table data hdr_off =
     rbind (mt_read_u32 data hdr_off) (\<lambda>off.
     rbind (mt_read_u32 data (hdr_off + 4)) (\<lambda>len.
     rbind (mt_bytes data (unat off) (unat len)) (\<lambda>_. Ok (unat off, unat len))))"

section \<open>The inverse permutation\<close>

definition inverse_round :: "u32 \<Rightarrow> u32 \<Rightarrow> u32 \<Rightarrow> u32" where
  "inverse_round v0 n key =
     (let mirror = n * 2 - 1;
          v1 = if v0 AND 1 \<noteq> 0 then mirror - v0 else v0;
          v2 = drop_bit 1 v1;
          v3 = if n \<le> v2 then mirror - v2 else v2;
          v4 = v3 - key
      in if n < v4 then v4 + n else v4)"

definition decrypt_rid :: "u32 \<Rightarrow> u32 \<Rightarrow> u32 \<Rightarrow> u32 \<Rightarrow> u32 mt_result" where
  "decrypt_rid rid low high seed =
     rbind (ok_or (Validation ''invalid image RID interval'') (Option.bind (chk_add_w high 1) (\<lambda>v. chk_sub_w v low))) (\<lambda>n.
       if n < 2 then Err (Validation ''RID inverse permutation requires at least two entries'')
       else
       let half = n div 2 in
       if half = 0 then Err (Validation ''RID inverse permutation has a zero divisor'')
       else
       let key = seed mod half + n div 4 in
       rbind (ok_or (Validation ''encrypted RID lies below image minimum'') (chk_sub_w rid low)) (\<lambda>v.
         ok_or (Validation ''restored RID overflow'') (chk_add_w (((\<lambda>v. inverse_round v n key) ^^ 5) v) low)))"

section \<open>Tables, images and types\<close>

record fixed_tables =
  ft_layout :: fixed_layout
  ft_method_offset :: nat
  ft_method_count :: nat
  ft_type_offset :: nat
  ft_type_count :: nat
  ft_image_offset :: nat
  ft_image_count :: nat

definition read_tables :: "bytes \<Rightarrow> fixed_layout \<Rightarrow> fixed_tables mt_result" where
  "read_tables data layout =
     rbind (mt_table data MT_HDR_METHODS) (\<lambda>(m_off, m_size).
     rbind (mt_table data MT_HDR_TYPES) (\<lambda>(t_off, t_size).
     rbind (mt_table data MT_HDR_IMAGES) (\<lambda>(i_off, i_size).
       if m_size mod mr_stride (fl_method layout) \<noteq> 0 \<or> t_size mod MT_TYPE_STRIDE \<noteq> 0 \<or> i_size mod MT_IMAGE_STRIDE \<noteq> 0
       then Err (Malformed ''method/type/image table size is not divisible by its entry stride'')
       else Ok \<lparr>ft_layout = layout, ft_method_offset = m_off, ft_method_count = m_size div mr_stride (fl_method layout),
                ft_type_offset = t_off, ft_type_count = t_size div MT_TYPE_STRIDE,
                ft_image_offset = i_off, ft_image_count = i_size div MT_IMAGE_STRIDE\<rparr>)))"

text \<open>\<open>usize::try_from\<close> on a signed word.\<close>

definition usize_of_i32 :: "string \<Rightarrow> u32 \<Rightarrow> nat mt_result" where
  "usize_of_i32 msg w = (if sint w < 0 then Err (Malformed msg) else Ok (unat w))"

definition image_type_range :: "bytes \<Rightarrow> fixed_tables \<Rightarrow> nat \<Rightarrow> (nat \<times> nat) mt_result" where
  "image_type_range data ft img =
     (let base = ft_image_offset ft + img * MT_IMAGE_STRIDE in
      rbind (mt_read_i32 data (base + IMAGE_TYPE_START_OFFSET)) (\<lambda>w.
      rbind (usize_of_i32 ''image has negative typeStart'' w) (\<lambda>type_start.
      rbind (mt_read_u32 data (base + IMAGE_TYPE_COUNT_OFFSET)) (\<lambda>entries.
      rbind (ok_or (Malformed ''image type range overflow'') (chk_add type_start (unat entries))) (\<lambda>type_stop.
        if ft_type_count ft < type_stop then Err (Malformed ''image type range exceeds the table'')
        else Ok (type_start, type_stop))))))"

text \<open>The method range of a type, if it has methods. The message for a negative start is the caller's.\<close>

definition type_method_range :: "string \<Rightarrow> bytes \<Rightarrow> fixed_tables \<Rightarrow> nat \<Rightarrow> (nat \<times> nat) option mt_result" where
  "type_method_range msg data ft t =
     (let base = ft_type_offset ft + t * MT_TYPE_STRIDE in
      rbind (mt_read_u16 data (base + TYPE_METHOD_COUNT_OFFSET)) (\<lambda>entries.
        if entries = 0 then Ok None
        else
      rbind (mt_read_i32 data (base + TYPE_METHOD_START_OFFSET)) (\<lambda>w.
      rbind (usize_of_i32 msg w) (\<lambda>method_start.
      rbind (ok_or (Malformed ''type method range overflow'') (chk_add method_start (unat entries))) (\<lambda>method_stop.
        if ft_method_count ft < method_stop then Err (Malformed ''type method range exceeds the table'')
        else Ok (Some (method_start, method_stop)))))))"

section \<open>Ownership\<close>

definition own_method :: "nat \<Rightarrow> nat \<Rightarrow> u32 list \<times> nat list \<Rightarrow> (u32 list \<times> nat list) mt_result" where
  "own_method img m st =
     (let (owners, methods) = st in
      if owners ! m \<noteq> 0xFFFFFFFF then Err (Malformed ''method belongs to multiple images'')
      else if 2 ^ 32 \<le> img then Err (Malformed ''image index exceeds u32'')
      else Ok (owners[m := word_of_nat img], methods @ [m]))"

definition own_type :: "bytes \<Rightarrow> fixed_tables \<Rightarrow> nat \<Rightarrow> nat \<Rightarrow> u32 list \<times> nat list \<Rightarrow> (u32 list \<times> nat list) mt_result" where
  "own_type data ft img t st =
     rbind (type_method_range ''type has methods but negative methodStart'' data ft t) (\<lambda>r.
       case r of None \<Rightarrow> Ok st | Some (a, b) \<Rightarrow> foldM (own_method img) [a..<b] st)"

definition own_image :: "bytes \<Rightarrow> fixed_tables \<Rightarrow> nat \<Rightarrow> u32 list \<Rightarrow> (u32 list \<times> nat list) mt_result" where
  "own_image data ft img owners =
     rbind (image_type_range data ft img) (\<lambda>(a, b). foldM (own_type data ft img) [a..<b] (owners, []))"

section \<open>The tokens of one image\<close>

text \<open>\<open>iter().min()\<close> and \<open>iter().max()\<close>, with the error for an empty vector.\<close>

definition min_or :: "'e \<Rightarrow> 'a::linorder list \<Rightarrow> ('a, 'e) res" where
  "min_or e xs = (if xs = [] then Err e else Ok (Min (set xs)))"

definition max_or :: "'e \<Rightarrow> 'a::linorder list \<Rightarrow> ('a, 'e) res" where
  "max_or e xs = (if xs = [] then Err e else Ok (Max (set xs)))"

definition block_base :: "nat list \<Rightarrow> nat mt_result" where
  "block_base methods =
     rbind (min_or (Malformed ''nonempty image lost its method minimum'') methods) (\<lambda>base.
     rbind (max_or (Malformed ''nonempty image lost its method maximum'') methods) (\<lambda>last.
       if last - base + 1 \<noteq> length methods then Err (Malformed ''image method block is not contiguous'')
       else Ok base))"

definition rid_of :: "u32 \<Rightarrow> u32" where
  "rid_of token = token AND 0x00ffffff"

text \<open>A token entry: its offset, the token and the row number it must have.\<close>

type_synonym token_entry = "nat \<times> u32 \<times> u32"

definition read_entry ::
  "bytes \<Rightarrow> fixed_tables \<Rightarrow> nat \<Rightarrow> nat \<Rightarrow> token_entry list \<times> nat \<times> bool \<Rightarrow> (token_entry list \<times> nat \<times> bool) mt_result" where
  "read_entry data ft base m st =
     (let (tokens, already, clean) = st;
          off = ft_method_offset ft + m * mr_stride (fl_method (ft_layout ft)) + mr_token (fl_method (ft_layout ft)) in
      rbind (mt_read_u32 data off) (\<lambda>token.
        if token AND 0xff000000 \<noteq> MT_TOKEN_TABLE then Err (Malformed ''method has non-MethodDef token'')
        else if 2 ^ 32 \<le> m - base + 1 then Err (Validation ''local method RID exceeds u32'')
        else
        let expected = word_of_nat (m - base + 1) in
        if rid_of token = expected
        then Ok (tokens @ [(off, token, expected)], already + 1, clean)
        else Ok (tokens @ [(off, token, expected)], already, False)))"

definition restore_entry ::
  "u32 \<Rightarrow> u32 \<Rightarrow> u32 \<Rightarrow> token_entry \<Rightarrow> bytes \<times> nat \<times> nat \<Rightarrow> (bytes \<times> nat \<times> nat) mt_result" where
  "restore_entry low high seed e st =
     (let (off, token, expected) = e; (output, changed, correct) = st in
      rbind (decrypt_rid (rid_of token) low high seed) (\<lambda>rid.
        if rid \<noteq> expected then Err (Validation ''method restored RID differs from the expected one'')
        else
        let restored = MT_TOKEN_TABLE OR rid in
        if restored \<noteq> token
        then rbind (put output off (to_le 4 restored)) (\<lambda>output'. Ok (output', changed + 1, correct + 1))
        else Ok (output, changed, correct + 1)))"

record restore_state =
  rs_owners :: "u32 list"
  rs_output :: bytes
  rs_with_methods :: nat
  rs_visited :: nat
  rs_already :: nat
  rs_correct :: nat
  rs_changed :: nat
  rs_transformed :: nat

definition restore_image :: "bytes \<Rightarrow> fixed_tables \<Rightarrow> u32 \<Rightarrow> nat \<Rightarrow> restore_state \<Rightarrow> restore_state mt_result" where
  "restore_image data ft seed img rs =
     rbind (own_image data ft img (rs_owners rs)) (\<lambda>(owners, methods).
       let rs1 = rs\<lparr>rs_owners := owners\<rparr> in
       if methods = [] then Ok rs1
       else
       let rs2 = rs1\<lparr>rs_with_methods := rs_with_methods rs + 1, rs_visited := rs_visited rs + length methods\<rparr> in
       rbind (block_base methods) (\<lambda>base.
       rbind (foldM (read_entry data ft base) methods ([], rs_already rs, True)) (\<lambda>(tokens, already, clean).
         if clean then Ok (rs2\<lparr>rs_already := already, rs_correct := rs_correct rs + length tokens\<rparr>)
         else
         let rids = map (\<lambda>(_, token, _). rid_of token) tokens in
         rbind (min_or (Validation ''image has no MethodDef RID'') rids) (\<lambda>low.
         rbind (max_or (Validation ''image has no MethodDef RID'') rids) (\<lambda>high.
           if high \<le> 1 then Err (Validation ''image is noncanonical but native R > 1 gate would skip it'')
           else if unat (high - low + 1) \<noteq> length tokens then Err (Validation ''image RID interval is not a permutation'')
           else
           rbind (foldM (restore_entry low high seed) tokens (rs_output rs, rs_changed rs, rs_correct rs))
             (\<lambda>(output, changed, correct).
             Ok (rs2\<lparr>rs_output := output, rs_already := already, rs_correct := correct, rs_changed := changed,
                     rs_transformed := rs_transformed rs + 1\<rparr>)))))))"

definition status_text :: "nat \<Rightarrow> string" where
  "status_text changed = (if changed = 0 then ''clean'' else ''encrypted'')"

definition restore_fixed :: "bytes \<Rightarrow> u32 \<Rightarrow> fixed_layout \<Rightarrow> u32 \<Rightarrow> (bytes \<times> mt_report) mt_result" where
  "restore_fixed data version layout seed =
     rbind (read_tables data layout) (\<lambda>ft.
     rbind (foldM (restore_image data ft seed) [0..<ft_image_count ft]
              \<lparr>rs_owners = replicate (ft_method_count ft) 0xFFFFFFFF, rs_output = data, rs_with_methods = 0, rs_visited = 0,
               rs_already = 0, rs_correct = 0, rs_changed = 0, rs_transformed = 0\<rparr>) (\<lambda>rs.
       if 0xFFFFFFFF \<in> set (rs_owners rs)
       then Err (Malformed ''one or more method definitions are not owned by an image'')
       else if rs_visited rs \<noteq> ft_method_count ft \<or> rs_correct rs \<noteq> ft_method_count ft
       then Err (Validation ''method coverage mismatch'')
       else Ok (rs_output rs,
         \<lparr>mt_version = version, mt_seed = hex_u32 seed, mt_status = status_text (rs_changed rs),
          mt_images = ft_image_count ft, mt_images_with_methods = rs_with_methods rs, mt_types = ft_type_count ft,
          mt_methods = ft_method_count ft, mt_visited = rs_visited rs, mt_already_correct = rs_already rs,
          mt_correct_after = rs_correct rs, mt_changed = rs_changed rs, mt_transformed = rs_transformed rs\<rparr>)))"

end
