(* ===== verification/MethodTokens39.thy ===== *)
theory MethodTokens39
  imports MethodTokens
begin

unbundle bit_operations_syntax

text \<open>
  \<^verbatim>\<open>senbei-metadata/src/android/method_tokens.rs\<close>, second part: the compact section directory and records of
  version 39, the seeded restoration on them, and the entry point that chooses by version.
\<close>

section \<open>Sections and records\<close>

definition V39_METHODS :: nat where "V39_METHODS = SECTION_METHODS"
definition V39_PARAMETERS :: nat where "V39_PARAMETERS = SECTION_PARAMETERS"
definition V39_GENERIC_CONTAINERS :: nat where "V39_GENERIC_CONTAINERS = SECTION_GENERIC_CONTAINERS"
definition V39_INTERFACE_OFFSETS :: nat where "V39_INTERFACE_OFFSETS = SECTION_INTERFACE_OFFSETS"
definition V39_TYPES :: nat where "V39_TYPES = SECTION_TYPES"
definition V39_IMAGES :: nat where "V39_IMAGES = SECTION_IMAGES"

record v39_layout =
  l39_method_offset :: nat
  l39_method_count :: nat
  l39_method_stride :: nat
  l39_token_offset :: nat
  l39_type_def_width :: nat
  l39_type_offset :: nat
  l39_type_count :: nat
  l39_type_stride :: nat
  l39_method_start_offset :: nat
  l39_method_count_offset :: nat
  l39_image_offset :: nat
  l39_image_count :: nat
  l39_image_stride :: nat

definition v39_section :: "bytes \<Rightarrow> nat \<Rightarrow> (nat \<times> nat \<times> nat) mt_result" where
  "v39_section data index =
     rbind (ok_or (Malformed ''v39 section header offset overflow'')
              (Option.bind (chk_mul index SECTION_HEADER_STRIDE) (\<lambda>v. chk_add SECTION_HEADER_BASE v))) (\<lambda>header.
     rbind (mt_read_u32 data header) (\<lambda>off.
     rbind (mt_read_u32 data (header + 4)) (\<lambda>len.
     rbind (mt_read_u32 data (header + 8)) (\<lambda>n.
     rbind (mt_bytes data (unat off) (unat len)) (\<lambda>_. Ok (unat off, unat len, unat n))))))"

definition read_v39_index :: "bytes \<Rightarrow> nat \<Rightarrow> nat \<Rightarrow> nat mt_result" where
  "read_v39_index data off width =
     (if width = 1 then rbind (mt_bytes data off 1) (\<lambda>b. rbind (idx b 0) (\<lambda>v. Ok (unat v)))
      else if width = 2 then rbind (mt_read_u16 data off) (\<lambda>v. Ok (unat v))
      else if width = 4 then rbind (mt_read_u32 data off) (\<lambda>v. Ok (unat v))
      else Err (Malformed ''v39 index has an unsupported width''))"

text \<open>\<open>checked_add(n).is_none_or(|end| end > limit)\<close>\<close>

definition exceeds :: "nat \<Rightarrow> nat \<Rightarrow> nat \<Rightarrow> bool" where
  "exceeds off n limit = (case chk_add off n of None \<Rightarrow> True | Some stop \<Rightarrow> limit < stop)"

definition parse_v39 :: "bytes \<Rightarrow> v39_layout mt_result" where
  "parse_v39 data =
     rbind (v39_section data V39_METHODS) (\<lambda>(m_off, m_size, m_count).
     rbind (v39_section data V39_PARAMETERS) (\<lambda>(_, p_size, p_count).
     rbind (v39_section data V39_GENERIC_CONTAINERS) (\<lambda>(_, _, g_count).
     rbind (v39_section data V39_INTERFACE_OFFSETS) (\<lambda>(_, if_size, if_count).
     rbind (v39_section data V39_TYPES) (\<lambda>(t_off, t_size, t_count).
     rbind (v39_section data V39_IMAGES) (\<lambda>(i_off, i_size, i_count).
     let td_width = index_width t_count in
     rbind (ok_or (Malformed ''v39 type-index width is invalid'') (type_index_width if_size if_count)) (\<lambda>ti_width.
     rbind (ok_or (Malformed ''v39 compact record layout overflow'')
              (from_widths \<lparr>w_type_definition = td_width, w_type_index = ti_width, w_parameter = index_width p_count,
                            w_generic_container = index_width g_count\<rparr>)) (\<lambda>r.
       if chk_mul m_count (method_stride r) \<noteq> Some m_size \<or> chk_mul t_count (type_stride r) \<noteq> Some t_size
          \<or> chk_mul i_count (image_stride r) \<noteq> Some i_size \<or> p_count = 0 \<and> p_size \<noteq> 0
       then Err (Malformed ''v39 table size does not match its compact entry layout'')
       else if exceeds (method_token_offset r) 4 (method_stride r) \<or> exceeds (type_method_count_offset r) 2 (type_stride r)
       then Err (Malformed ''v39 compact layout fields exceed their records'')
       else Ok \<lparr>l39_method_offset = m_off, l39_method_count = m_count, l39_method_stride = method_stride r,
                l39_token_offset = method_token_offset r, l39_type_def_width = td_width,
                l39_type_offset = t_off, l39_type_count = t_count, l39_type_stride = type_stride r,
                l39_method_start_offset = type_method_start_offset r, l39_method_count_offset = type_method_count_offset r,
                l39_image_offset = i_off, l39_image_count = i_count, l39_image_stride = image_stride r\<rparr>))))))))"

section \<open>The methods of an image\<close>

definition table_entry :: "string \<Rightarrow> nat \<Rightarrow> nat \<Rightarrow> nat \<Rightarrow> nat mt_result" where
  "table_entry msg base i stride = ok_or (Malformed msg) (Option.bind (chk_mul i stride) (\<lambda>v. chk_add base v))"

definition v39_type_methods :: "bytes \<Rightarrow> v39_layout \<Rightarrow> nat \<Rightarrow> nat list \<Rightarrow> nat list mt_result" where
  "v39_type_methods data l t methods =
     rbind (table_entry ''v39 type offset overflow'' (l39_type_offset l) t (l39_type_stride l)) (\<lambda>base.
     rbind (mt_read_u32 data (base + l39_method_start_offset l)) (\<lambda>ms.
     rbind (mt_read_u16 data (base + l39_method_count_offset l)) (\<lambda>mc.
       if ms = 0xFFFFFFFF \<or> mc = 0 then Ok methods
       else
     rbind (ok_or (Malformed ''v39 type method range overflow'') (chk_add (unat ms) (unat mc))) (\<lambda>method_stop.
       if l39_method_count l < method_stop then Err (Malformed ''v39 type method range exceeds the method table'')
       else Ok (methods @ [unat ms..<method_stop])))))"

definition v39_image_methods :: "bytes \<Rightarrow> v39_layout \<Rightarrow> nat \<Rightarrow> nat list mt_result" where
  "v39_image_methods data l img =
     rbind (table_entry ''v39 image offset overflow'' (l39_image_offset l) img (l39_image_stride l)) (\<lambda>base.
     rbind (read_v39_index data (base + 8) (l39_type_def_width l)) (\<lambda>type_start.
     rbind (mt_read_u32 data (base + 8 + l39_type_def_width l)) (\<lambda>n.
     rbind (ok_or (Malformed ''v39 image type range overflow'') (chk_add type_start (unat n))) (\<lambda>type_stop.
       if l39_type_count l < type_stop then Err (Malformed ''v39 image type range exceeds the type table'')
       else foldM (v39_type_methods data l) [type_start..<type_stop] []))))"

section \<open>The restoration\<close>

definition v39_block_base :: "nat list \<Rightarrow> nat mt_result" where
  "v39_block_base methods =
     rbind (min_or (Malformed ''v39 nonempty image lost its method minimum'') methods) (\<lambda>base.
     rbind (max_or (Malformed ''v39 nonempty image lost its method maximum'') methods) (\<lambda>last.
       if last - base + 1 \<noteq> length methods then Err (Validation ''v39 image method block is not contiguous'')
       else Ok base))"

definition v39_own_method :: "nat \<Rightarrow> nat \<Rightarrow> u32 list \<Rightarrow> u32 list mt_result" where
  "v39_own_method img m owners =
     rbind (idx owners m) (\<lambda>owner.
       if owner \<noteq> 0xFFFFFFFF then Err (Malformed ''v39 method belongs to multiple images'')
       else set_at owners m (word_of_nat img))"

definition v39_read_entry ::
  "bytes \<Rightarrow> v39_layout \<Rightarrow> nat \<Rightarrow> nat \<Rightarrow> token_entry list \<times> nat \<times> bool \<Rightarrow> (token_entry list \<times> nat \<times> bool) mt_result" where
  "v39_read_entry data l base m st =
     (let (tokens, already, clean) = st; off = l39_method_offset l + m * l39_method_stride l + l39_token_offset l in
      rbind (mt_read_u32 data off) (\<lambda>token.
        if token AND 0xff000000 \<noteq> MT_TOKEN_TABLE then Err (Malformed ''v39 method has a non-MethodDef token'')
        else
        let expected = word_of_nat (m - base + 1) in
        if rid_of token = expected
        then Ok (tokens @ [(off, token, expected)], already + 1, clean)
        else Ok (tokens @ [(off, token, expected)], already, False)))"

definition v39_restore_entry ::
  "u32 \<Rightarrow> u32 \<Rightarrow> u32 \<Rightarrow> token_entry \<Rightarrow> bytes \<times> nat \<times> nat \<Rightarrow> (bytes \<times> nat \<times> nat) mt_result" where
  "v39_restore_entry low high seed e st =
     (let (off, token, expected) = e; (output, changed, correct) = st in
      rbind (decrypt_rid (rid_of token) low high seed) (\<lambda>rid.
        if rid \<noteq> expected then Err (Validation ''v39 restored RID differs from the expected one'')
        else
        let restored = MT_TOKEN_TABLE OR rid in
        if restored \<noteq> token
        then rbind (put output off (to_le 4 restored)) (\<lambda>output'. Ok (output', changed + 1, correct + 1))
        else Ok (output, changed, correct + 1)))"

definition v39_restore_image :: "bytes \<Rightarrow> v39_layout \<Rightarrow> u32 \<Rightarrow> nat \<Rightarrow> restore_state \<Rightarrow> restore_state mt_result" where
  "v39_restore_image data l seed img rs =
     rbind (v39_image_methods data l img) (\<lambda>methods.
       if methods = [] then Ok rs
       else
       rbind (v39_block_base methods) (\<lambda>base.
       rbind (foldM (v39_own_method img) methods (rs_owners rs)) (\<lambda>owners.
       rbind (foldM (v39_read_entry data l base) methods ([], rs_already rs, True)) (\<lambda>(tokens, already, clean).
         let rs1 = rs\<lparr>rs_owners := owners, rs_with_methods := rs_with_methods rs + 1,
                      rs_visited := rs_visited rs + length methods, rs_already := already\<rparr> in
         if clean then Ok (rs1\<lparr>rs_correct := rs_correct rs + length tokens\<rparr>)
         else
         let rids = map (\<lambda>(_, token, _). rid_of token) tokens in
         if rids = [] then Panic
         else
         let low = Min (set rids); high = Max (set rids) in
         if high - low + 1 \<noteq> word_of_nat (length tokens) then Err (Validation ''v39 image RID interval is not a permutation'')
         else
         rbind (foldM (v39_restore_entry low high seed) tokens (rs_output rs, rs_changed rs, rs_correct rs))
           (\<lambda>(output, changed, correct).
           Ok (rs1\<lparr>rs_output := output, rs_correct := correct, rs_changed := changed,
                   rs_transformed := rs_transformed rs + 1\<rparr>))))))"

definition v39_report ::
  "v39_layout \<Rightarrow> nat \<Rightarrow> nat \<Rightarrow> nat \<Rightarrow> nat \<Rightarrow> nat \<Rightarrow> nat \<Rightarrow> u32 \<Rightarrow> mt_report" where
  "v39_report l changed with_methods visited already correct transformed seed =
     \<lparr>mt_version = SUPPORTED_V39, mt_seed = hex_u32 seed, mt_status = status_text changed,
      mt_images = l39_image_count l, mt_images_with_methods = with_methods, mt_types = l39_type_count l,
      mt_methods = l39_method_count l, mt_visited = visited, mt_already_correct = already,
      mt_correct_after = correct, mt_changed = changed, mt_transformed = transformed\<rparr>"

definition restore_v39 :: "bytes \<Rightarrow> u32 \<Rightarrow> (bytes \<times> mt_report) mt_result" where
  "restore_v39 data seed =
     rbind (parse_v39 data) (\<lambda>l.
     rbind (foldM (v39_restore_image data l seed) [0..<l39_image_count l]
              \<lparr>rs_owners = replicate (l39_method_count l) 0xFFFFFFFF, rs_output = data, rs_with_methods = 0, rs_visited = 0,
               rs_already = 0, rs_correct = 0, rs_changed = 0, rs_transformed = 0\<rparr>) (\<lambda>rs.
       if 0xFFFFFFFF \<in> set (rs_owners rs)
       then Err (Malformed ''v39 method definitions are not all owned by an image'')
       else if rs_visited rs \<noteq> l39_method_count l \<or> rs_correct rs \<noteq> l39_method_count l
       then Err (Validation ''v39 method coverage mismatch'')
       else Ok (rs_output rs, v39_report l (rs_changed rs) (rs_with_methods rs) (rs_visited rs) (rs_already rs)
                                (rs_correct rs) (rs_transformed rs) seed)))"

definition restore_method_tokens :: "bytes \<Rightarrow> u32 \<Rightarrow> (bytes \<times> mt_report) mt_result" where
  "restore_method_tokens data seed =
     (if mt_read_u32 data 0 \<noteq> Ok MAGIC then Err NotMetadata
      else
      rbind (mt_read_u32 data 4) (\<lambda>version.
        if version = SUPPORTED_V39 then restore_v39 data seed
        else case fixed_layout_of version of
               None \<Rightarrow> Err (UnsupportedVersion version)
             | Some layout \<Rightarrow> restore_fixed data version layout seed))"

end
