(* ===== verification/SeedDiscovery.thy ===== *)
theory SeedDiscovery
  imports MethodTokens39
begin

unbundle bit_operations_syntax

text \<open>
  \<^verbatim>\<open>senbei-metadata/src/android/method_tokens.rs\<close>, third part: the seeds under which the five rounds restore a
  file, from the key residues each image admits.
\<close>

section \<open>Reports\<close>

record image_key_discovery =
  kd_image :: nat
  kd_method_count :: u32
  kd_modulus :: u32
  kd_clean :: bool
  kd_residues :: "u32 list"

record seed_discovery_report =
  sd_version :: u32
  sd_images :: "image_key_discovery list"
  sd_candidates :: "u32 list"

definition decrypt_rid_with_key :: "u32 \<Rightarrow> u32 \<Rightarrow> u32 \<Rightarrow> u32 \<Rightarrow> u32" where
  "decrypt_rid_with_key rid low high key =
     (let n = high - low + 1 in ((\<lambda>v. inverse_round v n key) ^^ 5) (rid - low) + low)"

section \<open>The residues of an image\<close>

definition collect_type :: "bytes \<Rightarrow> fixed_tables \<Rightarrow> nat \<Rightarrow> nat list \<Rightarrow> nat list mt_result" where
  "collect_type data ft t methods =
     rbind (type_method_range ''type has negative methodStart'' data ft t) (\<lambda>r.
       case r of None \<Rightarrow> Ok methods | Some (a, b) \<Rightarrow> Ok (methods @ [a..<b]))"

definition discovery_base :: "nat list \<Rightarrow> nat mt_result" where
  "discovery_base methods =
     rbind (min_or (Malformed ''image method minimum is missing'') methods) (\<lambda>base.
     rbind (max_or (Malformed ''image method maximum is missing'') methods) (\<lambda>last.
       if last - base + 1 \<noteq> length methods then Err (Validation ''image method block is not contiguous'')
       else Ok base))"

definition read_value :: "bytes \<Rightarrow> fixed_tables \<Rightarrow> nat \<Rightarrow> nat \<Rightarrow> (u32 \<times> u32) mt_result" where
  "read_value data ft base m =
     rbind (mt_read_u32 data (ft_method_offset ft + m * mr_stride (fl_method (ft_layout ft)) + mr_token (fl_method (ft_layout ft))))
       (\<lambda>token.
       if token AND 0xff000000 \<noteq> MT_TOKEN_TABLE then Err (Validation ''method has non-MethodDef token'')
       else if 2 ^ 32 \<le> m - base + 1 then Err (Validation ''local method RID exceeds u32'')
       else Ok (rid_of token, word_of_nat (m - base + 1)))"

definition key_residues :: "(u32 \<times> u32) list \<Rightarrow> u32 \<Rightarrow> u32 \<Rightarrow> u32 \<Rightarrow> u32 list" where
  "key_residues vals low high n =
     filter (\<lambda>delta. list_all (\<lambda>(rid, expected). decrypt_rid_with_key rid low high (n div 4 + delta) = expected) vals)
       (map word_of_nat [0..<unat (n div 2)])"

definition image_discovery :: "bytes \<Rightarrow> fixed_tables \<Rightarrow> nat \<Rightarrow> image_key_discovery mt_result" where
  "image_discovery data ft img =
     rbind (image_type_range data ft img) (\<lambda>(a, b).
     rbind (foldM (collect_type data ft) [a..<b] []) (\<lambda>methods.
       if methods = []
       then Ok \<lparr>kd_image = img, kd_method_count = 0, kd_modulus = 0, kd_clean = True, kd_residues = []\<rparr>
       else
     rbind (discovery_base methods) (\<lambda>base.
     rbind (mapM (read_value data ft base) methods) (\<lambda>vals.
       if 2 ^ 32 \<le> length vals then Err (Validation ''image method count exceeds u32'')
       else
       let n = word_of_nat (length vals) :: u32; clean = list_all (\<lambda>(rid, expected). rid = expected) vals in
       if clean then Ok \<lparr>kd_image = img, kd_method_count = n, kd_modulus = n div 2, kd_clean = True, kd_residues = []\<rparr>
       else
       rbind (min_or (Validation ''image has no encrypted RID'') (map fst vals)) (\<lambda>low.
       rbind (max_or (Validation ''image has no encrypted RID'') (map fst vals)) (\<lambda>high.
         if high - low + 1 \<noteq> n \<or> n < 2 then Err (Validation ''image RID interval is not a permutation'')
         else Ok \<lparr>kd_image = img, kd_method_count = n, kd_modulus = n div 2, kd_clean = False,
                  kd_residues = key_residues vals low high n\<rparr>))))))"

section \<open>Candidate seeds\<close>

text \<open>\<open>max_by_key\<close> returns the last of several maxima.\<close>

definition max_modulus :: "image_key_discovery list \<Rightarrow> image_key_discovery option" where
  "max_modulus rs =
     foldl (\<lambda>best r. case best of None \<Rightarrow> Some r | Some b \<Rightarrow> if kd_modulus b \<le> kd_modulus r then Some r else Some b) None rs"

text \<open>The candidates congruent to a residue, in the \<open>u64\<close> counter of the code. The counter never saturates.
  The loop of the code would not end for the modulus 0, which no image that is not clean has.\<close>

function seed_loop :: "(nat \<Rightarrow> bool) \<Rightarrow> nat \<Rightarrow> nat \<Rightarrow> u32 list \<Rightarrow> u32 list" where
  "seed_loop ok modulus candidate seeds =
     (if candidate < 2 ^ 32 \<and> 0 < modulus
      then seed_loop ok modulus (min (candidate + modulus) (2 ^ 64 - 1))
             (if ok candidate then seeds @ [word_of_nat candidate] else seeds)
      else seeds)"
  by pat_completeness auto
termination by (relation "measure (\<lambda>(_, _, c, _). 2 ^ 32 - c)") auto

declare seed_loop.simps [simp del]

definition admits :: "nat \<Rightarrow> image_key_discovery \<Rightarrow> bool" where
  "admits candidate r \<longleftrightarrow> kd_modulus r \<noteq> 0 \<and> kd_residues r \<noteq> []
     \<and> list_ex (\<lambda>v. candidate mod unat (kd_modulus r) = unat v) (kd_residues r)"

definition seeds_of :: "image_key_discovery list \<Rightarrow> u32 list" where
  "seeds_of images =
     (let constraints = filter (\<lambda>r. \<not> kd_clean r) images in
      case max_modulus constraints of
        None \<Rightarrow> []
      | Some anchor \<Rightarrow>
          foldl (\<lambda>seeds residue. seed_loop (\<lambda>c. list_all (admits c) constraints) (unat (kd_modulus anchor)) (unat residue) seeds)
            [] (kd_residues anchor))"

definition discover_fixed :: "bytes \<Rightarrow> u32 \<Rightarrow> fixed_layout \<Rightarrow> seed_discovery_report mt_result" where
  "discover_fixed data version layout =
     rbind (read_tables data layout) (\<lambda>ft.
     rbind (mapM (image_discovery data ft) [0..<ft_image_count ft]) (\<lambda>images.
       Ok \<lparr>sd_version = version, sd_images = images, sd_candidates = remdups_adj (sort (seeds_of images))\<rparr>))"

section \<open>Version 39\<close>

definition v39_read_value :: "bytes \<Rightarrow> v39_layout \<Rightarrow> nat \<Rightarrow> nat \<Rightarrow> (u32 \<times> u32) mt_result" where
  "v39_read_value data l base m =
     rbind (mt_read_u32 data (l39_method_offset l + m * l39_method_stride l + l39_token_offset l)) (\<lambda>token.
       if token AND 0xff000000 \<noteq> MT_TOKEN_TABLE then Err (Malformed ''v39 method has a non-MethodDef token'')
       else Ok (rid_of token, word_of_nat (m - base + 1)))"

definition v39_key_residues :: "(u32 \<times> u32) list \<Rightarrow> u32 \<Rightarrow> u32 \<Rightarrow> u32 \<Rightarrow> u32 list" where
  "v39_key_residues vals low high n =
     filter (\<lambda>residue. list_all (\<lambda>(rid, expected). decrypt_rid_with_key rid low high (n div 4 + residue) = expected) vals)
       (map word_of_nat [0..<unat (n div 2)])"

definition v39_image_discovery :: "bytes \<Rightarrow> v39_layout \<Rightarrow> nat \<Rightarrow> image_key_discovery mt_result" where
  "v39_image_discovery data l img =
     rbind (v39_image_methods data l img) (\<lambda>methods.
       if methods = []
       then Ok \<lparr>kd_image = img, kd_method_count = 0, kd_modulus = 0, kd_clean = True, kd_residues = []\<rparr>
       else
       let base = Min (set methods); last = Max (set methods) in
       if last - base + 1 \<noteq> length methods then Err (Validation ''v39 image method block is not contiguous'')
       else
       rbind (mapM (v39_read_value data l base) methods) (\<lambda>vals.
         if 2 ^ 32 \<le> length vals then Err (Validation ''v39 image method count exceeds u32'')
         else
         let n = word_of_nat (length vals) :: u32; clean = list_all (\<lambda>(rid, expected). rid = expected) vals in
         if clean then Ok \<lparr>kd_image = img, kd_method_count = n, kd_modulus = n div 2, kd_clean = True, kd_residues = []\<rparr>
         else if vals = [] then Panic
         else
         let low = Min (set (map fst vals)); high = Max (set (map fst vals)) in
         if high - low + 1 \<noteq> n \<or> n < 2 then Err (Validation ''v39 image RID interval is not a permutation'')
         else Ok \<lparr>kd_image = img, kd_method_count = n, kd_modulus = n div 2, kd_clean = False,
                  kd_residues = v39_key_residues vals low high n\<rparr>))"

definition v39_admits :: "nat \<Rightarrow> image_key_discovery \<Rightarrow> bool" where
  "v39_admits candidate r \<longleftrightarrow> kd_modulus r \<noteq> 0
     \<and> list_ex (\<lambda>v. candidate mod unat (kd_modulus r) = unat v) (kd_residues r)"

definition v39_seeds_of :: "image_key_discovery list \<Rightarrow> u32 list" where
  "v39_seeds_of images =
     (let constraints = filter (\<lambda>r. \<not> kd_clean r) images in
      case max_modulus constraints of
        None \<Rightarrow> []
      | Some anchor \<Rightarrow>
          if kd_modulus anchor < 1024 then []
          else
          foldl (\<lambda>seeds residue. seed_loop (\<lambda>c. list_all (v39_admits c) constraints) (unat (kd_modulus anchor)) (unat residue) seeds)
            [] (kd_residues anchor))"

definition discover_v39 :: "bytes \<Rightarrow> seed_discovery_report mt_result" where
  "discover_v39 data =
     rbind (parse_v39 data) (\<lambda>l.
     rbind (mapM (v39_image_discovery data l) [0..<l39_image_count l]) (\<lambda>images.
       Ok \<lparr>sd_version = SUPPORTED_V39, sd_images = images, sd_candidates = remdups_adj (sort (v39_seeds_of images))\<rparr>))"

definition discover_method_token_seeds :: "bytes \<Rightarrow> seed_discovery_report mt_result" where
  "discover_method_token_seeds data =
     (if mt_read_u32 data 0 \<noteq> Ok MAGIC then Err NotMetadata
      else
      rbind (mt_read_u32 data 4) (\<lambda>version.
        if version = SUPPORTED_V39 then discover_v39 data
        else case fixed_layout_of version of
               None \<Rightarrow> Ok \<lparr>sd_version = version, sd_images = [], sd_candidates = []\<rparr>
             | Some layout \<Rightarrow> discover_fixed data version layout))"

end
