(* ===== verification/MethodTokenProps.thy ===== *)
theory MethodTokenProps
  imports SeedDiscovery Columns Rounds "HOL-Library.Multiset"
begin

unbundle bit_operations_syntax

text \<open>
  The seeded restoration of method tokens: the five rounds permute every interval of rows; both families of
  layouts (fixed strides and the compact records of version 39) are readers of one token column, and both
  restorations pass over the images the same way. A restored file is then described once for both.
\<close>

section \<open>The inverse permutation\<close>

lemma rotate_word:
  fixes x key n :: u32
  assumes "unat x < unat n" "unat key < unat n" "unat n < 2 ^ 31"
  shows "unat (if n < x - key then x - key + n else x - key)
    = (if unat x < unat key then unat x + unat n - unat key else unat x - unat key)"
proof (cases "unat key \<le> unat x")
  case True
  then have d: "unat (x - key) = unat x - unat key" by (simp add: unat_sub word_le_nat_alt)
  then have "\<not> n < x - key" using assms(1) by (simp add: word_less_nat_alt)
  then show ?thesis using True d by simp
next
  case False
  then have d: "unat (x - key) = 2 ^ 32 + unat x - unat key" by (simp add: unat_sub_if_size word_size)
  then have big: "n < x - key" using assms(2,3) by (simp add: word_less_nat_alt)
  have "unat (x - key + n) = (2 ^ 32 + unat x - unat key + unat n) mod 2 ^ 32" by (simp add: unat_word_ariths d)
  also have "2 ^ 32 + unat x - unat key + unat n = unat x + unat n - unat key + 2 ^ 32" using False assms by simp
  also have "\<dots> mod 2 ^ 32 = unat x + unat n - unat key" using False assms by (simp only: mod_add_self2) simp
  finally show ?thesis using False big by simp
qed

lemma inverse_round_nat:
  assumes "v < n" "key < n" "unat n < 2 ^ 31"
  shows "unat (inverse_round v n key) = round_nat (unat n) (unat key) (unat v)"
proof -
  let ?x = "drop_bit 1 (if v AND 1 \<noteq> 0 then n * 2 - 1 - v else v)"
  have vn: "unat v < unat n" "unat key < unat n" using assms by (simp_all add: word_less_nat_alt)
  note x = fold_half_word(1) [OF assms(1,3)]
  have "unat ?x < unat n" using fold_half_less [OF vn(1)] x by simp
  moreover have "inverse_round v n key = (if n < ?x - key then ?x - key + n else ?x - key)"
    using fold_half_word(2) [OF assms(1,3)] by (simp add: inverse_round_def Let_def)
  ultimately show ?thesis using rotate_word [of ?x n key] x vn(2) assms(3) by (simp add: round_nat_def)
qed

interpretation inverse: keyed_rounds "\<lambda>(n, key) v. inverse_round v n key"
  "\<lambda>(n, key). key < n \<and> unat n < 2 ^ 31" "\<lambda>(n, key). {v :: u32. v < n}"
  by unfold_locales (auto intro!: word_round_bij simp: inverse_round_nat)

text \<open>Decryption of a row number inside its interval is the five rounds with the key of the seed, and it never
  fails when the interval has at least two and fewer than 2 to the 31 members.\<close>

definition rid_key :: "u32 \<Rightarrow> u32 \<Rightarrow> u32 \<Rightarrow> u32" where
  "rid_key low high seed = (high - low + 1) div 4 + seed mod ((high - low + 1) div 2)"

lemma rid_interval:
  fixes low high :: u32
  assumes "low \<le> high" "unat high - unat low < 2 ^ 31 - 1"
  shows "unat (high - low + 1) = unat high - unat low + 1"
proof -
  have "unat (high - low) = unat high - unat low" using assms(1) by (simp add: unat_sub word_le_nat_alt)
  then show ?thesis using assms(2) by (subst unat_add_no_wrap) auto
qed

lemma decrypt_in_interval:
  assumes "low < high" "unat high < 2 ^ 31 - 1" "low \<le> rid" "rid \<le> high"
  shows "decrypt_rid rid low high seed = Ok (decrypt_rid_with_key rid low high (rid_key low high seed))"
    and "low \<le> decrypt_rid_with_key rid low high (rid_key low high seed)"
    and "decrypt_rid_with_key rid low high (rid_key low high seed) \<le> high"
proof -
  let ?n = "high - low + 1" let ?key = "seed mod (?n div 2) + ?n div 4"
  let ?f = "(\<lambda>v. inverse_round v ?n ?key) ^^ 5"
  have le: "unat low < unat high" "unat low \<le> unat rid" "unat rid \<le> unat high" using assms by (simp_all add: word_less_nat_alt word_le_nat_alt)
  have n: "unat ?n = unat high - unat low + 1" using assms(1,2) le by (intro rid_interval) auto
  have n2: "2 \<le> unat ?n" "unat ?n < 2 ^ 31" using n le assms(2) by simp_all
  have key: "?key < ?n" by (rule seed_key_less(1) [OF n2(1)])
  have sub: "unat (rid - low) = unat rid - unat low" using le(2) by (simp add: unat_sub word_le_nat_alt)
  have "rid - low < ?n" using n sub le by (simp add: word_less_nat_alt)
  then have f: "?f (rid - low) < ?n"
    using bij_betwE [OF inverse.rounds_bij [of "(?n, ?key)" 5]] key n2 by simp
  then have fn: "unat (?f (rid - low)) \<le> unat high - unat low" using n by (simp add: word_less_nat_alt)
  then have add: "unat (?f (rid - low) + low) = unat (?f (rid - low)) + unat low" using le assms(2) by (subst unat_add_no_wrap) auto
  have eq: "decrypt_rid_with_key rid low high (rid_key low high seed) = ?f (rid - low) + low"
    by (simp add: decrypt_rid_with_key_def rid_key_def add.commute)
  have count: "Option.bind (chk_add_w high 1) (\<lambda>v. chk_sub_w v low) = Some ?n"
    using le assms(2) by (simp add: chk_add_w_def chk_sub_w_def word_le_nat_alt unat_add_no_wrap)
  have "\<not> ?n < 2" "?n div 2 \<noteq> 0" using n2(1) by (auto simp: word_less_nat_alt unat_div word_unat_eq_iff)
  then show "decrypt_rid rid low high seed = Ok (decrypt_rid_with_key rid low high (rid_key low high seed))"
    using count le assms(2) fn unfolding eq by (simp add: decrypt_rid_def Let_def chk_sub_w_def chk_add_w_def word_le_nat_alt)
  show "low \<le> decrypt_rid_with_key rid low high (rid_key low high seed)"
    "decrypt_rid_with_key rid low high (rid_key low high seed) \<le> high"
    unfolding eq using add fn le by (simp_all add: word_le_nat_alt)
qed

text \<open>On every interval of at least two rows below 2 to the 31 - 1, and for every seed, decryption succeeds
  on every row of the interval and permutes the interval.\<close>

lemma decrypt_rid_bij:
  assumes "low < high" and "unat high < 2 ^ 31 - 1"
  shows "\<exists>f. (\<forall>rid\<in>{low..high}. decrypt_rid rid low high seed = Ok (f rid)) \<and> bij_betw f {low..high} {low..high}"
proof -
  let ?n = "high - low + 1" let ?key = "seed mod (?n div 2) + ?n div 4"
  let ?f = "(\<lambda>v. inverse_round v ?n ?key) ^^ 5"
  let ?g = "\<lambda>rid. decrypt_rid_with_key rid low high (rid_key low high seed)"
  have le: "unat low < unat high" using assms(1) by (simp add: word_less_nat_alt)
  have n: "unat ?n = unat high - unat low + 1" using assms le by (intro rid_interval) auto
  then have n2: "2 \<le> unat ?n" "unat ?n < 2 ^ 31" using le assms(2) by simp_all
  have bij: "bij_betw ?f {v. v < ?n} {v. v < ?n}"
    using inverse.rounds_bij [of "(?n, ?key)" 5] seed_key_less(1) [OF n2(1)] n2(2) by simp
  have eq: "?g rid = ?f (rid - low) + low" for rid by (simp add: decrypt_rid_with_key_def rid_key_def add.commute)
  have inside: "rid - low < ?n" if "rid \<in> {low..high}" for rid
    using that n by (simp add: word_less_nat_alt word_le_nat_alt unat_sub less_Suc_eq_le diff_le_mono)
  have "inj_on ?g {low..high}"
  proof (rule inj_onI)
    fix a b assume ab: "a \<in> {low..high}" "b \<in> {low..high}" and g: "?g a = ?g b"
    then have "?f (a - low) = ?f (b - low)" unfolding eq by simp
    then have "a - low = b - low"
      using bij inside [OF ab(1)] inside [OF ab(2)] unfolding bij_betw_def inj_on_def by blast
    then show "a = b" by simp
  qed
  moreover from this have "?g ` {low..high} = {low..high}"
    using decrypt_in_interval(2,3) [OF assms] by (intro endo_inj_surj) auto
  ultimately have "bij_betw ?g {low..high} {low..high}" by (simp add: bij_betw_def)
  then show ?thesis using decrypt_in_interval(1) [OF assms] by (intro exI [of _ ?g]) auto
qed

section \<open>Agreement on success\<close>

text \<open>The two restorations differ in the texts of their errors only where they agree on success.\<close>

definition ok_same :: "('a, 'e) res \<Rightarrow> ('a, 'f) res \<Rightarrow> bool" where
  "ok_same r r' \<longleftrightarrow> (\<forall>y. r = Ok y \<longleftrightarrow> r' = Ok y)"

lemma foldM_ok_same:
  "(\<And>x s. x \<in> set xs \<Longrightarrow> ok_same (f x s) (g x s)) \<Longrightarrow> ok_same (foldM f xs s) (foldM g xs s)"
proof (induction xs arbitrary: s)
  case (Cons x xs)
  then have "ok_same (f x s) (g x s)" and "\<And>s. ok_same (foldM f xs s) (foldM g xs s)" by simp_all
  then show ?case by (auto simp: ok_same_def res_conv)
qed (simp add: ok_same_def)

section \<open>Entries of the token column\<close>

definition entry_of :: "bytes \<Rightarrow> column \<Rightarrow> nat \<Rightarrow> nat \<Rightarrow> token_entry" where
  "entry_of data c base m = (cell c m, word_at data (cell c m), word_of_nat (m - base + 1))"

definition entry_good :: "bytes \<Rightarrow> column \<Rightarrow> nat \<Rightarrow> bool" where
  "entry_good data c m \<longleftrightarrow> cell c m + 4 \<le> length data \<and> cell c m + 4 < usize_limit \<and> word_at data (cell c m) AND 0xff000000 = MT_TOKEN_TABLE"

definition entry_clean :: "bytes \<Rightarrow> column \<Rightarrow> nat \<Rightarrow> nat \<Rightarrow> bool" where
  "entry_clean data c base m \<longleftrightarrow> rid_of (word_at data (cell c m)) = word_of_nat (m - base + 1)"

definition row_token :: "nat \<Rightarrow> nat \<Rightarrow> u32" where
  "row_token base m = MT_TOKEN_TABLE OR word_of_nat (m - base + 1)"

lemma token_parts: "(w :: u32) = (w AND 0xff000000) OR rid_of w"
proof -
  have "(0xff000000 OR 0x00ffffff :: u32) = - 1" by simp
  then have "w = w AND (0xff000000 OR 0x00ffffff)" by (simp only: and.right_neutral)
  then show ?thesis unfolding rid_of_def by (simp only: bit.conj_disj_distrib)
qed

lemma entry_clean_token: "entry_good data c m \<Longrightarrow> entry_clean data c base m \<Longrightarrow> word_at data (cell c m) = row_token base m"
  using token_parts [of "word_at data (cell c m)"] by (simp add: entry_good_def entry_clean_def row_token_def)

text \<open>The interface of a reader of token entries, whatever its layout and its messages.\<close>

locale token_reader =
  fixes data :: bytes and c :: column
    and read :: "nat \<Rightarrow> nat \<Rightarrow> token_entry list \<times> nat \<times> bool \<Rightarrow> (token_entry list \<times> nat \<times> bool) mt_result"
  assumes read_Ok: "read base m (ts, a, cl) = Ok st' \<Longrightarrow> entry_good data c m
      \<and> st' = (ts @ [entry_of data c base m], a + (if entry_clean data c base m then 1 else 0), cl \<and> entry_clean data c base m)"
begin

lemma read_all:
  "foldM (read base) ms (ts, a, cl) = Ok (ts', a', cl') \<Longrightarrow>
     (\<forall>m\<in>set ms. entry_good data c m) \<and> ts' = ts @ map (entry_of data c base) ms
     \<and> (cl' \<longleftrightarrow> cl \<and> (\<forall>m\<in>set ms. entry_clean data c base m))"
proof (induction ms arbitrary: ts a cl)
  case (Cons m ms)
  then obtain st where s: "read base m (ts, a, cl) = Ok st" and r: "foldM (read base) ms st = Ok (ts', a', cl')"
    by (auto simp: res_conv)
  note m = read_Ok [OF s]
  show ?case using Cons.IH [of "ts @ [entry_of data c base m]"] r m by auto
qed simp

lemma read_count:
  "foldM (read base) ms (ts, a, cl) = Ok (ts', a', cl') \<Longrightarrow> a' = a + length (filter (entry_clean data c base) ms)"
proof (induction ms arbitrary: ts a cl)
  case (Cons m ms)
  then obtain st where s: "read base m (ts, a, cl) = Ok st" and r: "foldM (read base) ms st = Ok (ts', a', cl')"
    by (auto simp: res_conv)
  from Cons.IH r read_Ok [OF s] show ?case by fastforce
qed simp

end

lemma mt_read_Ok_conv [res_conv]:
  "mt_read_u32 data off = Ok w \<longleftrightarrow> off + 4 \<le> length data \<and> off + 4 < usize_limit \<and> w = word_at data off"
  "mt_read_i32 data off = Ok w \<longleftrightarrow> off + 4 \<le> length data \<and> off + 4 < usize_limit \<and> w = word_at data off"
  "mt_read_u16 data off = Ok h \<longleftrightarrow> off + 2 \<le> length data \<and> off + 2 < usize_limit \<and> h = half_at data off"
  by (auto simp: mt_read_u32_def mt_read_i32_def mt_read_u16_def mt_bytes_def res_conv word_at_def half_at_def)

definition fixed_column :: "fixed_tables \<Rightarrow> column" where
  "fixed_column ft = \<lparr>col_base = ft_method_offset ft, col_stride = mr_stride (fl_method (ft_layout ft)),
     col_field = mr_token (fl_method (ft_layout ft))\<rparr>"

definition v39_column :: "v39_layout \<Rightarrow> column" where
  "v39_column l = \<lparr>col_base = l39_method_offset l, col_stride = l39_method_stride l, col_field = l39_token_offset l\<rparr>"

interpretation fixed: token_reader data "fixed_column ft" "read_entry data ft" for data ft
  by unfold_locales
    (auto simp: read_entry_def Let_def res_conv entry_good_def entry_of_def entry_clean_def fixed_column_def cell_def
      split: if_splits)

interpretation v39: token_reader data "v39_column l" "v39_read_entry data l" for data l
  by unfold_locales
    (auto simp: v39_read_entry_def Let_def res_conv entry_good_def entry_of_def entry_clean_def v39_column_def cell_def
      split: if_splits)


section \<open>Rewriting the entries of an image\<close>

lemma cells_written_cong:
  "(\<And>j. j \<in> S \<Longrightarrow> new j = new' j) \<Longrightarrow> cells_written data c new S out r \<Longrightarrow> cells_written data c new' S out r"
  unfolding cells_written_def by (simp cong: conj_cong)

lemma restore_entry_Ok:
  "restore_entry low high seed (off, token, expected) (out, ch, co) = Ok (out', ch', co') \<longleftrightarrow>
     decrypt_rid (rid_of token) low high seed = Ok expected \<and> co' = co + 1
     \<and> (if MT_TOKEN_TABLE OR expected \<noteq> token
        then off + 4 \<le> length out \<and> out' = patch out off (to_le 4 (MT_TOKEN_TABLE OR expected)) \<and> ch' = ch + 1
        else out' = out \<and> ch' = ch)"
  by (auto simp: restore_entry_def Let_def res_conv)

lemma v39_restore_entry_same: "ok_same (v39_restore_entry low high seed e st) (restore_entry low high seed e st)"
  by (cases e; cases st) (auto simp: ok_same_def v39_restore_entry_def restore_entry_def Let_def res_conv)

lemma entries_restored:
  assumes "foldM (restore_entry low high seed) (map (entry_of data c base) ms) (out, ch, co) = Ok (out', ch', co')"
    and "cells_written data c new S out ch" and "column_ok c" and "distinct ms" and "set ms \<inter> S = {}"
    and "\<forall>m\<in>set ms. cell c m + 4 \<le> length data \<and> new m = row_token base m"
  shows "cells_written data c new (S \<union> set ms) out' ch' \<and> co' = co + length ms
    \<and> (\<forall>m\<in>set ms. decrypt_rid (rid_of (word_at data (cell c m))) low high seed = Ok (word_of_nat (m - base + 1)))"
  using assms
proof (induction ms arbitrary: S out ch co)
  case (Cons m ms)
  obtain o1 c1 n1 where s: "restore_entry low high seed (entry_of data c base m) (out, ch, co) = Ok (o1, c1, n1)"
    and r: "foldM (restore_entry low high seed) (map (entry_of data c base) ms) (o1, c1, n1) = Ok (out', ch', co')"
    using Cons.prems(1) by (auto simp: res_conv)
  let ?p = "cell c m"
  have fit: "?p + 4 \<le> length data" and new: "new m = row_token base m" and m: "m \<notin> S" using Cons.prems(5,6) by auto
  have same: "window out ?p 4 = window data ?p 4" by (rule cells_written_elsewhere [OF Cons.prems(2,3) m])
  have s': "decrypt_rid (rid_of (word_at data ?p)) low high seed = Ok (word_of_nat (m - base + 1))" "n1 = co + 1"
    and w: "if new m \<noteq> word_at data ?p then o1 = patch out ?p (to_le 4 (new m)) \<and> c1 = ch + 1 else o1 = out \<and> c1 = ch"
    using s unfolding entry_of_def restore_entry_Ok new row_token_def by (auto split: if_splits)
  have "new m \<noteq> word_at data ?p \<longleftrightarrow> window out ?p 4 \<noteq> to_le 4 (new m)"
    using to_le_word_at [OF fit] unfolding same word_at_def by (auto simp: from_le_to_le)
  then have "cells_written data c new (insert m S) o1 c1"
    using w cells_written_insert [OF Cons.prems(2,3) m fit] cells_written_same [OF Cons.prems(2,3) m fit] by (auto split: if_splits)
  from Cons.IH [OF r this Cons.prems(3)] show ?case using Cons.prems(4-6) s' by auto
qed simp

section \<open>One image\<close>

definition image_clean :: "bytes \<Rightarrow> column \<Rightarrow> nat list \<Rightarrow> bool" where
  "image_clean data c ms \<longleftrightarrow> (\<forall>m\<in>set ms. entry_clean data c (Min (set ms)) m)"

definition image_rids :: "bytes \<Rightarrow> column \<Rightarrow> nat list \<Rightarrow> u32 set" where
  "image_rids data c ms = (\<lambda>m. rid_of (word_at data (cell c m))) ` set ms"

definition owners_after :: "nat \<Rightarrow> nat \<Rightarrow> nat list \<Rightarrow> u32 list \<Rightarrow> u32 list \<Rightarrow> bool" where
  "owners_after n img ms owners owners' \<longleftrightarrow> distinct ms \<and> set ms \<subseteq> {..<n} \<and> (\<forall>m\<in>set ms. owners ! m = 0xFFFFFFFF)
     \<and> length owners' = n \<and> (\<forall>m<n. owners' ! m = (if m \<in> set ms then word_of_nat img else owners ! m))"

definition image_pass ::
  "bytes \<Rightarrow> column \<Rightarrow> nat \<Rightarrow> u32 \<Rightarrow> nat list \<Rightarrow> nat \<Rightarrow> restore_state \<Rightarrow> restore_state \<Rightarrow> bool" where
  "image_pass data c n seed ms img rs rs' \<longleftrightarrow>
     owners_after n img ms (rs_owners rs) (rs_owners rs') \<and> rs_visited rs' = rs_visited rs + length ms
     \<and> (\<forall>m\<in>set ms. entry_good data c m)
     \<and> (ms \<noteq> [] \<longrightarrow> Max (set ms) - Min (set ms) + 1 = length ms)
     \<and> (if image_clean data c ms
        then rs_output rs' = rs_output rs \<and> rs_changed rs' = rs_changed rs \<and> rs_transformed rs' = rs_transformed rs
        else Max (image_rids data c ms) - Min (image_rids data c ms) + 1 = word_of_nat (length ms)
             \<and> rs_transformed rs' = rs_transformed rs + 1
             \<and> foldM (restore_entry (Min (image_rids data c ms)) (Max (image_rids data c ms)) seed)
                 (map (entry_of data c (Min (set ms))) ms) (rs_output rs, rs_changed rs, rs_correct rs)
               = Ok (rs_output rs', rs_changed rs', rs_correct rs'))"

text \<open>The tokens of an image that hold the number of their row before the restoration, and what one image adds to the counts.\<close>

definition rows_in_place :: "bytes \<Rightarrow> column \<Rightarrow> nat list \<Rightarrow> nat" where
  "rows_in_place data c ms = length (filter (entry_clean data c (Min (set ms))) ms)"

definition image_counts :: "bytes \<Rightarrow> column \<Rightarrow> nat list \<Rightarrow> restore_state \<Rightarrow> restore_state \<Rightarrow> bool" where
  "image_counts data c ms rs rs' \<longleftrightarrow>
     rs_with_methods rs' = rs_with_methods rs + (if ms = [] then 0 else 1)
     \<and> rs_already rs' = rs_already rs + rows_in_place data c ms
     \<and> rs_transformed rs' = rs_transformed rs + (if image_clean data c ms then 0 else 1)"

text \<open>The rows of the images before the \<open>k\<close>th are restored.\<close>

definition images_restored ::
  "bytes \<Rightarrow> column \<Rightarrow> nat \<Rightarrow> (nat \<Rightarrow> nat list) \<Rightarrow> nat \<Rightarrow> restore_state \<Rightarrow> bool" where
  "images_restored data c n M k rs \<longleftrightarrow> length (rs_owners rs) = n
     \<and> (\<forall>m<n. rs_owners rs ! m = 0xFFFFFFFF \<longleftrightarrow> (\<forall>i<k. m \<notin> set (M i)))
     \<and> rs_visited rs = length (concat (map M [0..<k])) \<and> distinct (concat (map M [0..<k]))
     \<and> set (concat (map M [0..<k])) \<subseteq> {..<n}
     \<and> (\<exists>new. (\<forall>i<k. \<forall>m\<in>set (M i). new m = row_token (Min (set (M i))) m)
          \<and> cells_written data c new (set (concat (map M [0..<k]))) (rs_output rs) (rs_changed rs))"

lemma cells_written_clean:
  assumes "cells_written data c new S out r" "column_ok c" "finite A" "A \<inter> S = {}"
    "\<forall>m\<in>A. cell c m + 4 \<le> length data \<and> word_at data (cell c m) = new m"
  shows "cells_written data c new (S \<union> A) out r"
  using assms(3,4,5)
proof (induction A)
  case empty
  then show ?case using assms(1) by simp
next
  case (insert x A)
  then have "cells_written data c new (S \<union> A) out r" by auto
  from cells_written_same [OF this assms(2), of x] show ?case using insert by auto
qed

lemma image_pass_step:
  assumes p: "image_pass data c n seed (M k) k rs rs'" and inv: "images_restored data c n M k rs"
    and c: "column_ok c" and k: "k < 0xFFFFFFFF"
  shows "images_restored data c n M (Suc k) rs'"
proof -
  let ?S = "set (concat (map M [0..<k]))" and ?ms = "M k" and ?b = "Min (set (M k))"
  have own: "owners_after n k ?ms (rs_owners rs) (rs_owners rs')" and vis: "rs_visited rs' = rs_visited rs + length ?ms"
    and good: "\<forall>m\<in>set ?ms. entry_good data c m" using p by (simp_all add: image_pass_def)
  obtain new where new: "\<And>i m. i < k \<Longrightarrow> m \<in> set (M i) \<Longrightarrow> new m = row_token (Min (set (M i))) m"
    and w: "cells_written data c new ?S (rs_output rs) (rs_changed rs)" using inv unfolding images_restored_def by blast
  have "m \<notin> ?S" if "m \<in> set ?ms" for m
  proof -
    have "m < n" "rs_owners rs ! m = 0xFFFFFFFF" using own that by (auto simp: owners_after_def)
    then show ?thesis using inv unfolding images_restored_def by auto
  qed
  then have disj: "set ?ms \<inter> ?S = {}" by blast
  define new' where "new' m = (if m \<in> set ?ms then row_token ?b m else new m)" for m
  have w': "cells_written data c new' ?S (rs_output rs) (rs_changed rs)"
    by (rule cells_written_cong [OF _ w]) (use disj in \<open>auto simp: new'_def\<close>)
  have fit: "\<forall>m\<in>set ?ms. cell c m + 4 \<le> length data \<and> new' m = row_token ?b m"
    using good by (simp add: entry_good_def new'_def)
  have "cells_written data c new' (?S \<union> set ?ms) (rs_output rs') (rs_changed rs')"
  proof (cases "image_clean data c ?ms")
    case True
    then have "\<forall>m\<in>set ?ms. word_at data (cell c m) = new' m"
      using good entry_clean_token fit by (simp add: image_clean_def)
    then show ?thesis using True p fit cells_written_clean [OF w' c _ disj] by (simp add: image_pass_def)
  next
    case False
    then have run: "foldM (restore_entry (Min (image_rids data c ?ms)) (Max (image_rids data c ?ms)) seed)
        (map (entry_of data c ?b) ?ms) (rs_output rs, rs_changed rs, rs_correct rs) = Ok (rs_output rs', rs_changed rs', rs_correct rs')"
      using p by (simp add: image_pass_def)
    have "distinct ?ms" using own by (simp add: owners_after_def)
    from entries_restored [OF run w' c this disj fit] show ?thesis by simp
  qed
  moreover have "new' m = row_token (Min (set (M i))) m" if i: "i < Suc k" "m \<in> set (M i)" for i m
  proof (cases "i = k")
    case False
    then have "i < k" "m \<in> ?S" using i by auto
    then show ?thesis using disj new [of i m] i(2) by (auto simp: new'_def)
  qed (use i in \<open>simp add: new'_def\<close>)
  moreover have "\<forall>m<n. rs_owners rs' ! m = 0xFFFFFFFF \<longleftrightarrow> (\<forall>i<Suc k. m \<notin> set (M i))"
  proof (intro allI impI)
    fix m assume m: "m < n"
    have "unat (word_of_nat k :: u32) = k" using k by (simp add: unat_of_nat)
    then have "word_of_nat k \<noteq> (0xFFFFFFFF :: u32)" using k by auto
    then show "rs_owners rs' ! m = 0xFFFFFFFF \<longleftrightarrow> (\<forall>i<Suc k. m \<notin> set (M i))"
      using own inv m by (auto simp: owners_after_def images_restored_def less_Suc_eq)
  qed
  moreover have cat: "concat (map M [0..<Suc k]) = concat (map M [0..<k]) @ ?ms" by simp
  moreover have "distinct (concat (map M [0..<k]) @ ?ms)" "set (concat (map M [0..<k]) @ ?ms) \<subseteq> {..<n}"
    using own inv disj by (auto simp: owners_after_def images_restored_def)
  moreover have "rs_visited rs' = length (concat (map M [0..<k]) @ ?ms)" "length (rs_owners rs') = n"
    using own inv vis by (auto simp: owners_after_def images_restored_def)
  ultimately show ?thesis unfolding images_restored_def cat set_append by blast
qed


section \<open>The methods of an image and their owners\<close>

definition fixed_methods :: "bytes \<Rightarrow> fixed_tables \<Rightarrow> nat \<Rightarrow> nat list" where
  "fixed_methods data ft img =
     (case rbind (image_type_range data ft img) (\<lambda>(a, b). foldM (collect_type data ft) [a..<b] []) of Ok ms \<Rightarrow> ms | _ \<Rightarrow> [])"

definition v39_methods :: "bytes \<Rightarrow> v39_layout \<Rightarrow> nat \<Rightarrow> nat list" where
  "v39_methods data l img = (case v39_image_methods data l img of Ok ms \<Rightarrow> ms | _ \<Rightarrow> [])"

lemma owners_after_snoc:
  assumes "owners_after n img ms ow0 ow" "m < n" "ow ! m = 0xFFFFFFFF" "img < 0xFFFFFFFF"
  shows "owners_after n img (ms @ [m]) ow0 (ow[m := word_of_nat img])"
proof -
  have "unat (word_of_nat img :: u32) = img" using assms(4) by (simp add: unat_of_nat)
  then have ne: "word_of_nat img \<noteq> (0xFFFFFFFF :: u32)" using assms(4) by auto
  have new: "m \<notin> set ms"
  proof
    assume "m \<in> set ms"
    then have "ow ! m = word_of_nat img" using assms(1,2) by (simp add: owners_after_def)
    then show False using ne assms(3) by simp
  qed
  moreover from this have "ow0 ! m = 0xFFFFFFFF" using assms(1-3) by (simp add: owners_after_def)
  ultimately show ?thesis using assms(1,2) by (auto simp: owners_after_def nth_list_update)
qed

lemma owners_after_Nil: "length ow = n \<Longrightarrow> owners_after n img [] ow ow"
  by (simp add: owners_after_def)

lemma own_method_Ok:
  "own_method img m (ow, ms) = Ok st \<longleftrightarrow> ow ! m = 0xFFFFFFFF \<and> img < 2 ^ 32 \<and> st = (ow[m := word_of_nat img], ms @ [m])"
  by (auto simp: own_method_def)

lemma v39_own_method_Ok:
  "v39_own_method img m ow = Ok ow' \<longleftrightarrow> m < length ow \<and> ow ! m = 0xFFFFFFFF \<and> ow' = ow[m := word_of_nat img]"
  by (auto simp: v39_own_method_def res_conv)

lemma foldM_Cons_Ok: "foldM f (x # xs) s = Ok t \<Longrightarrow> \<exists>u. f x s = Ok u \<and> foldM f xs u = Ok t"
  by (simp add: res_conv)

lemma own_methods_after:
  "foldM (own_method img) xs (ow, ms) = Ok (ow', ms') \<Longrightarrow> owners_after n img ms ow0 ow \<Longrightarrow> set xs \<subseteq> {..<n} \<Longrightarrow>
     img < 0xFFFFFFFF \<Longrightarrow> owners_after n img ms' ow0 ow' \<and> ms' = ms @ xs"
proof (induction xs arbitrary: ow ms)
  case (Cons x xs)
  have x: "ow ! x = 0xFFFFFFFF" and r: "foldM (own_method img) xs (ow[x := word_of_nat img], ms @ [x]) = Ok (ow', ms')"
    using foldM_Cons_Ok [OF Cons.prems(1)] by (auto simp: own_method_Ok)
  have "owners_after n img (ms @ [x]) ow0 (ow[x := word_of_nat img])"
    using Cons.prems x by (intro owners_after_snoc) auto
  from Cons.IH [OF r this _ Cons.prems(4)] Cons.prems(3) show ?case by auto
qed simp

lemma v39_own_methods_after:
  "foldM (v39_own_method img) xs ow = Ok ow' \<Longrightarrow> owners_after n img ms ow0 ow \<Longrightarrow> img < 0xFFFFFFFF \<Longrightarrow>
     owners_after n img (ms @ xs) ow0 ow'"
proof (induction xs arbitrary: ow ms)
  case (Cons x xs)
  have "length ow = n" using Cons.prems(2) by (simp add: owners_after_def)
  then have x: "x < n" "ow ! x = 0xFFFFFFFF" and r: "foldM (v39_own_method img) xs (ow[x := word_of_nat img]) = Ok ow'"
    using foldM_Cons_Ok [OF Cons.prems(1)] by (auto simp: v39_own_method_Ok)
  have "owners_after n img (ms @ [x]) ow0 (ow[x := word_of_nat img])"
    using Cons.prems x by (intro owners_after_snoc) auto
  from Cons.IH [OF r this] show ?case using Cons.prems by simp
qed simp

lemma type_method_range_msg: "ok_same (type_method_range msg data ft t) (type_method_range msg' data ft t)"
  by (auto simp: ok_same_def type_method_range_def Let_def res_conv usize_of_i32_def split: if_splits)

lemma type_method_range_le:
  "type_method_range msg data ft t = Ok (Some (a, b)) \<Longrightarrow> b \<le> ft_method_count ft"
  by (auto simp: type_method_range_def Let_def res_conv split: if_splits)

lemma own_types_after:
  "foldM (own_type data ft img) ts (ow, ms) = Ok (ow', ms') \<Longrightarrow> owners_after (ft_method_count ft) img ms ow0 ow \<Longrightarrow>
     img < 0xFFFFFFFF \<Longrightarrow> owners_after (ft_method_count ft) img ms' ow0 ow' \<and> foldM (collect_type data ft) ts ms = Ok ms'"
proof (induction ts arbitrary: ow ms)
  case (Cons t ts)
  obtain st where st: "own_type data ft img t (ow, ms) = Ok st" and rest0: "foldM (own_type data ft img) ts st = Ok (ow', ms')"
    using foldM_Cons_Ok [OF Cons.prems(1)] by blast
  obtain ow1 ms1 where st_eq: "st = (ow1, ms1)" by fastforce
  obtain r where r: "type_method_range ''type has methods but negative methodStart'' data ft t = Ok r"
    and s: "(case r of None \<Rightarrow> Ok (ow, ms) | Some (a, b) \<Rightarrow> foldM (own_method img) [a..<b] (ow, ms)) = Ok (ow1, ms1)"
    using st unfolding own_type_def rbind_Ok_conv st_eq by blast
  have rest: "foldM (own_type data ft img) ts (ow1, ms1) = Ok (ow', ms')" using rest0 st_eq by simp
  have r': "type_method_range ''type has negative methodStart'' data ft t = Ok r"
    using r type_method_range_msg unfolding ok_same_def by blast
  have "owners_after (ft_method_count ft) img ms1 ow0 ow1 \<and> collect_type data ft t ms = Ok ms1"
  proof (cases r)
    case None
    then show ?thesis using s r' Cons.prems by (simp add: collect_type_def)
  next
    case (Some ab)
    obtain a b where ab: "ab = (a, b)" by fastforce
    then have le: "set [a..<b] \<subseteq> {..<ft_method_count ft}" using type_method_range_le [of _ data ft t a b] r Some by fastforce
    have "foldM (own_method img) [a..<b] (ow, ms) = Ok (ow1, ms1)" using s Some ab by simp
    from own_methods_after [OF this Cons.prems(2) le Cons.prems(3)] show ?thesis using r' Some ab by (auto simp: collect_type_def)
  qed
  then show ?case using Cons.IH [OF rest] Cons.prems by simp
qed simp

lemma own_image_after:
  assumes "own_image data ft img ow = Ok (ow', ms)" and "length ow = ft_method_count ft" "img < 0xFFFFFFFF"
  shows "owners_after (ft_method_count ft) img ms ow ow' \<and> ms = fixed_methods data ft img
    \<and> (\<exists>a b. image_type_range data ft img = Ok (a, b) \<and> foldM (collect_type data ft) [a..<b] [] = Ok ms)"
proof -
  obtain a b where r: "image_type_range data ft img = Ok (a, b)" and f: "foldM (own_type data ft img) [a..<b] (ow, []) = Ok (ow', ms)"
    using assms(1) by (auto simp: own_image_def res_conv)
  from own_types_after [OF f owners_after_Nil [OF assms(2)] assms(3)] show ?thesis by (simp add: fixed_methods_def r)
qed

section \<open>The passes of both restorations\<close>

lemma block_base_Ok:
  "block_base ms = Ok base \<longleftrightarrow> ms \<noteq> [] \<and> Max (set ms) - Min (set ms) + 1 = length ms \<and> base = Min (set ms)"
  by (auto simp: block_base_def min_or_def max_or_def res_conv)

lemma v39_block_base_Ok:
  "v39_block_base ms = Ok base \<longleftrightarrow> ms \<noteq> [] \<and> Max (set ms) - Min (set ms) + 1 = length ms \<and> base = Min (set ms)"
  by (auto simp: v39_block_base_def min_or_def max_or_def res_conv)

lemma entry_rids: "set (map (\<lambda>(_, token, _). rid_of token) (map (entry_of data c base) ms)) = image_rids data c ms"
  by (auto simp: entry_of_def image_rids_def)

lemma unat_eq_length: "unat (w :: u32) = k \<Longrightarrow> w = word_of_nat k"
  by auto

lemma restore_image_pass:
  assumes run: "restore_image data ft seed img rs = Ok rs'" and l: "length (rs_owners rs) = ft_method_count ft" "img < 0xFFFFFFFF"
  shows "image_pass data (fixed_column ft) (ft_method_count ft) seed (fixed_methods data ft img) img rs rs'"
proof -
  obtain ow ms where own: "own_image data ft img (rs_owners rs) = Ok (ow, ms)"
    using run by (auto simp: restore_image_def res_conv)
  note o = own_image_after [OF own l]
  show ?thesis
  proof (cases "ms = []")
    case True
    then show ?thesis using run own o by (auto simp: restore_image_def image_pass_def image_clean_def)
  next
    case False
    obtain base ts a cl where b: "block_base ms = Ok base"
      and rd: "foldM (read_entry data ft base) ms ([], rs_already rs, True) = Ok (ts, a, cl)"
      using run own False by (auto simp: restore_image_def res_conv Let_def)
    note base = b [unfolded block_base_Ok] note all = fixed.read_all [OF rd]
    have cl: "cl \<longleftrightarrow> image_clean data (fixed_column ft) ms" using all base by (simp add: image_clean_def)
    have rids: "set (map (\<lambda>(_, token, _). rid_of token) ts) = image_rids data (fixed_column ft) ms"
      using all entry_rids by simp
    show ?thesis
    proof (cases cl)
      case True
      then show ?thesis using run own o False b rd all base cl
        by (auto simp: restore_image_def Let_def image_pass_def)
    next
      case nc: False
      then show ?thesis using run own o False b rd all base cl rids
        by (auto simp: restore_image_def Let_def image_pass_def res_conv min_or_def max_or_def simp del: set_map
            intro!: unat_eq_length split: if_splits)
    qed
  qed
qed

lemma restore_image_counts:
  assumes run: "restore_image data ft seed img rs = Ok rs'" and l: "length (rs_owners rs) = ft_method_count ft" "img < 0xFFFFFFFF"
  shows "image_counts data (fixed_column ft) (fixed_methods data ft img) rs rs'"
proof -
  obtain ow ms where own: "own_image data ft img (rs_owners rs) = Ok (ow, ms)"
    using run by (auto simp: restore_image_def res_conv)
  have M: "fixed_methods data ft img = ms" using own_image_after [OF own l] by simp
  show ?thesis
  proof (cases "ms = []")
    case True
    then show ?thesis using run own M by (auto simp: restore_image_def image_counts_def rows_in_place_def image_clean_def)
  next
    case False
    obtain base ts a cl where b: "block_base ms = Ok base"
      and rd: "foldM (read_entry data ft base) ms ([], rs_already rs, True) = Ok (ts, a, cl)"
      using run own False by (auto simp: restore_image_def res_conv Let_def)
    note base = b [unfolded block_base_Ok]
    have "cl \<longleftrightarrow> image_clean data (fixed_column ft) ms" "a = rs_already rs + rows_in_place data (fixed_column ft) ms"
      using fixed.read_all [OF rd] fixed.read_count [OF rd] base by (simp_all add: image_clean_def rows_in_place_def)
    then show ?thesis using run own False b rd M
      by (auto simp: restore_image_def Let_def image_counts_def res_conv split: if_splits)
  qed
qed

lemma v39_restore_entries_same:
  "foldM (v39_restore_entry low high seed) es st = Ok r \<longleftrightarrow> foldM (restore_entry low high seed) es st = Ok r"
  using foldM_ok_same [of es "v39_restore_entry low high seed" "restore_entry low high seed" st] v39_restore_entry_same
  unfolding ok_same_def by blast

lemma v39_restore_image_pass:
  assumes run: "v39_restore_image data l seed img rs = Ok rs'" and l: "length (rs_owners rs) = l39_method_count l" "img < 0xFFFFFFFF"
  shows "image_pass data (v39_column l) (l39_method_count l) seed (v39_methods data l img) img rs rs'"
proof -
  obtain ms where ms: "v39_image_methods data l img = Ok ms" using run by (auto simp: v39_restore_image_def res_conv)
  then have M: "v39_methods data l img = ms" by (simp add: v39_methods_def)
  show ?thesis
  proof (cases "ms = []")
    case True
    then show ?thesis using run ms l M owners_after_Nil [OF l(1)]
      by (auto simp: v39_restore_image_def image_pass_def image_clean_def)
  next
    case False
    obtain base ow ts a cl where b: "v39_block_base ms = Ok base"
      and ow: "foldM (v39_own_method img) ms (rs_owners rs) = Ok ow"
      and rd: "foldM (v39_read_entry data l base) ms ([], rs_already rs, True) = Ok (ts, a, cl)"
      using run ms False by (auto simp: v39_restore_image_def res_conv Let_def)
    note base = b [unfolded v39_block_base_Ok] note all = v39.read_all [OF rd]
    have own: "owners_after (l39_method_count l) img ms (rs_owners rs) ow"
      using v39_own_methods_after [OF ow owners_after_Nil [OF l(1)] l(2)] by simp
    have cl: "cl \<longleftrightarrow> image_clean data (v39_column l) ms" using all base by (simp add: image_clean_def)
    have rids: "set (map (\<lambda>(_, token, _). rid_of token) ts) = image_rids data (v39_column l) ms"
      using all entry_rids by simp
    show ?thesis
    proof (cases cl)
      case True
      then show ?thesis using run ms own False b ow rd all base cl M
        by (auto simp: v39_restore_image_def Let_def image_pass_def)
    next
      case nc: False
      then show ?thesis using run ms own False b ow rd all base cl rids M
        by (auto simp: v39_restore_image_def Let_def image_pass_def res_conv v39_restore_entries_same simp del: set_map
            split: if_splits)
    qed
  qed
qed

lemma v39_restore_image_counts:
  assumes run: "v39_restore_image data l seed img rs = Ok rs'"
  shows "image_counts data (v39_column l) (v39_methods data l img) rs rs'"
proof -
  obtain ms where ms: "v39_image_methods data l img = Ok ms" using run by (auto simp: v39_restore_image_def res_conv)
  then have M: "v39_methods data l img = ms" by (simp add: v39_methods_def)
  show ?thesis
  proof (cases "ms = []")
    case True
    then show ?thesis using run ms M by (auto simp: v39_restore_image_def image_counts_def rows_in_place_def image_clean_def)
  next
    case False
    obtain base ow ts a cl where b: "v39_block_base ms = Ok base"
      and ow: "foldM (v39_own_method img) ms (rs_owners rs) = Ok ow"
      and rd: "foldM (v39_read_entry data l base) ms ([], rs_already rs, True) = Ok (ts, a, cl)"
      using run ms False by (auto simp: v39_restore_image_def res_conv Let_def)
    note base = b [unfolded v39_block_base_Ok]
    have "cl \<longleftrightarrow> image_clean data (v39_column l) ms" "a = rs_already rs + rows_in_place data (v39_column l) ms"
      using v39.read_all [OF rd] v39.read_count [OF rd] base by (simp_all add: image_clean_def rows_in_place_def)
    then show ?thesis using run ms False b ow rd M
      by (auto simp: v39_restore_image_def Let_def image_counts_def res_conv split: if_splits)
  qed
qed

section \<open>The whole restoration\<close>

definition start_state :: "nat \<Rightarrow> bytes \<Rightarrow> restore_state" where
  "start_state n data = \<lparr>rs_owners = replicate n 0xFFFFFFFF, rs_output = data, rs_with_methods = 0, rs_visited = 0,
     rs_already = 0, rs_correct = 0, rs_changed = 0, rs_transformed = 0\<rparr>"

text \<open>The interface of a restoration image by image, and what a run over all images leaves.\<close>

locale image_restorer =
  fixes data :: bytes and c :: column and n :: nat and M :: "nat \<Rightarrow> nat list"
    and restore :: "u32 \<Rightarrow> nat \<Rightarrow> restore_state \<Rightarrow> restore_state mt_result"
  assumes restore_pass: "restore seed img rs = Ok rs' \<Longrightarrow> length (rs_owners rs) = n \<Longrightarrow> img < 0xFFFFFFFF \<Longrightarrow>
    image_pass data c n seed (M img) img rs rs'"
begin

lemma run_restored:
  "foldM (restore seed) [0..<k] (start_state n data) = Ok rs \<Longrightarrow> column_ok c \<Longrightarrow> k \<le> 0xFFFFFFFF \<Longrightarrow>
     images_restored data c n M k rs"
proof (induction k arbitrary: rs)
  case 0
  then show ?case using cells_written_empty [of data c] by (auto simp: images_restored_def start_state_def)
next
  case (Suc k)
  then obtain rs1 where r1: "foldM (restore seed) [0..<k] (start_state n data) = Ok rs1" and s: "restore seed k rs1 = Ok rs"
    by (auto simp: foldM_append res_conv)
  have inv: "images_restored data c n M k rs1" using Suc r1 by simp
  then have "length (rs_owners rs1) = n" by (simp add: images_restored_def)
  from restore_pass [OF s this] have "image_pass data c n seed (M k) k rs1 rs" using Suc.prems by simp
  from image_pass_step [OF this inv Suc.prems(2)] show ?case using Suc.prems(3) by simp
qed

end

interpretation fixed_restorer: image_restorer data "fixed_column ft" "ft_method_count ft" "fixed_methods data ft" "restore_image data ft"
  for data ft
  by unfold_locales (rule restore_image_pass)

interpretation v39_restorer: image_restorer data "v39_column l" "l39_method_count l" "v39_methods data l" "v39_restore_image data l"
  for data l
  by unfold_locales (rule v39_restore_image_pass)

text \<open>A restoration that also counts what it does, and the counts after all images.\<close>

locale counting_restorer = image_restorer +
  assumes restore_counts: "restore seed img rs = Ok rs' \<Longrightarrow> length (rs_owners rs) = n \<Longrightarrow> img < 0xFFFFFFFF \<Longrightarrow>
    image_counts data c (M img) rs rs'"
begin

lemma run_counts:
  "foldM (restore seed) [0..<k] (start_state n data) = Ok rs \<Longrightarrow> column_ok c \<Longrightarrow> k \<le> 0xFFFFFFFF \<Longrightarrow>
     rs_with_methods rs = length (filter (\<lambda>ms. ms \<noteq> []) (map M [0..<k]))
     \<and> rs_already rs = sum_list (map (rows_in_place data c) (map M [0..<k]))
     \<and> rs_transformed rs = length (filter (\<lambda>ms. \<not> image_clean data c ms) (map M [0..<k]))"
proof (induction k arbitrary: rs)
  case 0
  then show ?case by (auto simp: start_state_def)
next
  case (Suc k)
  then obtain rs1 where r1: "foldM (restore seed) [0..<k] (start_state n data) = Ok rs1" and s: "restore seed k rs1 = Ok rs"
    by (auto simp: foldM_append res_conv)
  then have "length (rs_owners rs1) = n" using run_restored [OF r1] Suc.prems by (simp add: images_restored_def)
  from restore_counts [OF s this] Suc.prems have "image_counts data c (M k) rs1 rs" by simp
  with Suc.IH [OF r1 Suc.prems(2)] Suc.prems(3) show ?case by (simp add: image_counts_def)
qed

end

interpretation fixed_counter: counting_restorer data "fixed_column ft" "ft_method_count ft" "fixed_methods data ft" "restore_image data ft"
  for data ft
  by unfold_locales (rule restore_image_counts)

interpretation v39_counter: counting_restorer data "v39_column l" "l39_method_count l" "v39_methods data l" "v39_restore_image data l"
  for data l
  by unfold_locales (rule v39_restore_image_counts)

text \<open>The token table of a file: its column, the number of its methods and the methods of every image.\<close>

record token_table =
  tt_column :: column
  tt_count :: nat
  tt_types :: nat
  tt_images :: "nat list list"

definition token_table_of :: "bytes \<Rightarrow> token_table option" where
  "token_table_of data =
     (case mt_read_u32 data 4 of
        Ok version \<Rightarrow>
          if version = SUPPORTED_V39
          then (case parse_v39 data of
                  Ok l \<Rightarrow> Some \<lparr>tt_column = v39_column l, tt_count = l39_method_count l, tt_types = l39_type_count l,
                            tt_images = map (v39_methods data l) [0..<l39_image_count l]\<rparr>
                | _ \<Rightarrow> None)
          else (case fixed_layout_of version of
                  None \<Rightarrow> None
                | Some layout \<Rightarrow>
                    (case read_tables data layout of
                       Ok ft \<Rightarrow> Some \<lparr>tt_column = fixed_column ft, tt_count = ft_method_count ft, tt_types = ft_type_count ft,
                                  tt_images = map (fixed_methods data ft) [0..<ft_image_count ft]\<rparr>
                     | _ \<Rightarrow> None))
      | _ \<Rightarrow> None)"

lemma unat_u32_le: "unat (w :: u32) \<le> 0xFFFFFFFF"
  using unat_bound [of w] by simp

lemma v39_column_ok:
  assumes "parse_v39 data = Ok l"
  shows "column_ok (v39_column l) \<and> l39_image_count l \<le> 0xFFFFFFFF"
proof -
  have "l39_token_offset l + 4 \<le> l39_method_stride l"
    using assms by (auto simp: parse_v39_def res_conv Let_def exceeds_def chk_add_Some_conv split: option.splits if_splits)
  moreover have "l39_image_count l \<le> 0xFFFFFFFF"
    using assms unat_u32_le by (auto simp: parse_v39_def res_conv Let_def v39_section_def)
  ultimately show ?thesis by (simp add: column_ok_def v39_column_def)
qed

lemma fixed_column_ok:
  assumes "fixed_layout_of version = Some layout" and "read_tables data layout = Ok ft"
  shows "column_ok (fixed_column ft) \<and> ft_image_count ft \<le> 0xFFFFFFFF"
proof -
  have "layout = layout_v29 \<or> layout = layout_v31"
    using assms(1) by (auto simp: fixed_layout_of_def split: metadata_version.splits)
  moreover have "ft_layout ft = layout" "ft_image_count ft = unat (word_at data (MT_HDR_IMAGES + 4)) div MT_IMAGE_STRIDE"
    using assms(2) by (auto simp: read_tables_def res_conv mt_table_def split: if_splits)
  moreover have "unat (word_at data (MT_HDR_IMAGES + 4)) div MT_IMAGE_STRIDE \<le> 0xFFFFFFFF"
    by (rule le_trans [OF div_le_dividend unat_u32_le])
  ultimately show ?thesis by (auto simp: column_ok_def fixed_column_def layout_v29_def layout_v31_def)
qed

lemma images_restored_complete:
  assumes inv: "images_restored data c n M k rs" and own: "0xFFFFFFFF \<notin> set (rs_owners rs)" and c: "column_ok c"
  shows "mset (concat (map M [0..<k])) = mset [0..<n] \<and> length (rs_output rs) = length data
    \<and> (\<forall>ms\<in>set (map M [0..<k]). \<forall>m\<in>set ms. word_at (rs_output rs) (cell c m) = row_token (Min (set ms)) m)
    \<and> (\<forall>b<length data. (\<forall>m<n. b \<notin> {cell c m..<cell c m + 4}) \<longrightarrow> rs_output rs ! b = data ! b)
    \<and> rs_changed rs = card {m. m < n \<and> word_at data (cell c m) \<noteq> word_at (rs_output rs) (cell c m)}"
proof -
  let ?C = "concat (map M [0..<k])"
  obtain new where new: "\<forall>i<k. \<forall>m\<in>set (M i). new m = row_token (Min (set (M i))) m"
    and w: "cells_written data c new (set ?C) (rs_output rs) (rs_changed rs)" using inv unfolding images_restored_def by blast
  have "\<exists>i<k. m \<in> set (M i)" if "m < n" for m
  proof -
    have "rs_owners rs ! m \<in> set (rs_owners rs)" using inv that by (intro nth_mem) (simp add: images_restored_def)
    then have "rs_owners rs ! m \<noteq> 0xFFFFFFFF" using own by metis
    then show ?thesis using inv that unfolding images_restored_def by blast
  qed
  then have "{..<n} \<subseteq> set ?C" by fastforce
  then have set: "set ?C = {..<n}" using inv by (simp add: images_restored_def subset_antisym)
  have "distinct ?C" using inv by (simp add: images_restored_def)
  then have "mset ?C = mset [0..<n]"
    using set by (subst set_eq_iff_mset_eq_distinct [symmetric]) auto
  moreover have "word_at (rs_output rs) (cell c m) = row_token (Min (set ms)) m" if ms: "ms \<in> set (map M [0..<k])" "m \<in> set ms" for ms m
  proof -
    obtain i where i: "i < k" "ms = M i" using ms(1) by auto
    then have "m \<in> set ?C" using ms(2) by auto
    from cells_written_cell [OF w this] show ?thesis using new i ms(2) by simp
  qed
  moreover have "rs_changed rs = card {m. m < n \<and> word_at data (cell c m) \<noteq> word_at (rs_output rs) (cell c m)}"
    using cells_written_changed [OF w] unfolding set by simp
  moreover have "rs_output rs ! b = data ! b" if "b < length data" "\<forall>m<n. b \<notin> {cell c m..<cell c m + 4}" for b
    using w that unfolding set by (auto simp: cells_written_def)
  ultimately show ?thesis using cells_written_length [OF w] by blast
qed

text \<open>The counts of a report: images, images with methods, types and methods of the file, tokens that were in place before, tokens that
  changed, images that were rewritten.\<close>

definition report_exact :: "bytes \<Rightarrow> bytes \<Rightarrow> token_table \<Rightarrow> mt_report \<Rightarrow> bool" where
  "report_exact data out T rp \<longleftrightarrow>
     mt_images rp = length (tt_images T) \<and> mt_images_with_methods rp = length (filter (\<lambda>ms. ms \<noteq> []) (tt_images T))
     \<and> mt_types rp = tt_types T \<and> mt_methods rp = tt_count T \<and> mt_visited rp = tt_count T \<and> mt_correct_after rp = tt_count T
     \<and> mt_already_correct rp = sum_list (map (rows_in_place data (tt_column T)) (tt_images T))
     \<and> mt_changed rp = card {m. m < tt_count T \<and> word_at data (cell (tt_column T) m) \<noteq> word_at out (cell (tt_column T) m)}
     \<and> mt_transformed rp = length (filter (\<lambda>ms. \<not> image_clean data (tt_column T) ms) (tt_images T))"

text \<open>C20. When the restoration succeeds, under whatever seed and for every supported version, the images own each
  method exactly once, the token of every method is the MethodDef token of its row in its own image, no other
  byte of the file differs, and every count of the report is exact: the images, those with methods, the types, the methods, visited
  and correct afterwards, the tokens in place before, the tokens that changed and the images that were rewritten.\<close>

lemma restore_method_tokens_rows:
  assumes "restore_method_tokens data seed = Ok (out, rp)"
  shows "\<exists>T. token_table_of data = Some T \<and> length out = length data
    \<and> mset (concat (tt_images T)) = mset [0..<tt_count T]
    \<and> (\<forall>ms\<in>set (tt_images T). \<forall>m\<in>set ms. word_at out (cell (tt_column T) m) = row_token (Min (set ms)) m)
    \<and> (\<forall>b<length data. (\<forall>m<tt_count T. b \<notin> {cell (tt_column T) m..<cell (tt_column T) m + 4}) \<longrightarrow> out ! b = data ! b)
    \<and> report_exact data out T rp"
proof -
  obtain version where v: "mt_read_u32 data 4 = Ok version"
    and run: "(if version = SUPPORTED_V39 then restore_v39 data seed
        else case fixed_layout_of version of None \<Rightarrow> Err (UnsupportedVersion version)
             | Some layout \<Rightarrow> restore_fixed data version layout seed) = Ok (out, rp)"
    using assms by (auto simp: restore_method_tokens_def rbind_Ok_conv split: if_splits)
  show ?thesis
  proof (cases "version = SUPPORTED_V39")
    case True
    then obtain l rs where l: "parse_v39 data = Ok l"
      and f: "foldM (v39_restore_image data l seed) [0..<l39_image_count l] (start_state (l39_method_count l) data) = Ok rs"
      and own: "0xFFFFFFFF \<notin> set (rs_owners rs)" and o: "out = rs_output rs" "rp = v39_report l (rs_changed rs) (rs_with_methods rs) (l39_method_count l) (rs_already rs)
                                (l39_method_count l) (rs_transformed rs) seed"
      using run by (auto simp: restore_v39_def rbind_Ok_conv start_state_def split: if_splits)
    note c = v39_column_ok [OF l]
    note inv = v39_restorer.run_restored [OF f] and counts = v39_counter.run_counts [OF f]
    show ?thesis
      using images_restored_complete [OF inv own] counts c v l True o
      by (intro exI [of _ "\<lparr>tt_column = v39_column l, tt_count = l39_method_count l, tt_types = l39_type_count l,
            tt_images = map (v39_methods data l) [0..<l39_image_count l]\<rparr>"])
        (simp add: token_table_of_def report_exact_def v39_report_def)
  next
    case False
    then obtain layout where lay: "fixed_layout_of version = Some layout" and run': "restore_fixed data version layout seed = Ok (out, rp)"
      using run by (auto split: option.splits)
    obtain ft rs where ft: "read_tables data layout = Ok ft"
      and f: "foldM (restore_image data ft seed) [0..<ft_image_count ft] (start_state (ft_method_count ft) data) = Ok rs"
      and own: "0xFFFFFFFF \<notin> set (rs_owners rs)" and o: "out = rs_output rs" "mt_images rp = ft_image_count ft" "mt_images_with_methods rp = rs_with_methods rs"
        "mt_types rp = ft_type_count ft" "mt_methods rp = ft_method_count ft" "mt_visited rp = ft_method_count ft"
        "mt_already_correct rp = rs_already rs" "mt_correct_after rp = ft_method_count ft" "mt_changed rp = rs_changed rs"
        "mt_transformed rp = rs_transformed rs"
      using run' by (auto simp: restore_fixed_def rbind_Ok_conv start_state_def split: if_splits)
    note c = fixed_column_ok [OF lay ft]
    note inv = fixed_restorer.run_restored [OF f] and counts = fixed_counter.run_counts [OF f]
    show ?thesis
      using images_restored_complete [OF inv own] counts c v ft lay False o
      by (intro exI [of _ "\<lparr>tt_column = fixed_column ft, tt_count = ft_method_count ft, tt_types = ft_type_count ft,
            tt_images = map (fixed_methods data ft) [0..<ft_image_count ft]\<rparr>"])
        (simp add: token_table_of_def report_exact_def)
  qed
qed

section \<open>Witnesses\<close>

text \<open>A file of version 31 with three methods in one type of one image, the last two tokens exchanged; five rounds
  over three rows exchange them again under every seed.\<close>

definition three_tokens :: "u32 list \<Rightarrow> bytes" where
  "three_tokens ws =
     to_le 4 MAGIC @ to_le 4 (31 :: u32) @ replicate 40 0
     @ to_le 4 (0xD8 :: u32) @ to_le 4 (0x6C :: u32) @ replicate 72 0 @ [3, 0] @ replicate 30 0
     @ to_le 4 (0x40 :: u32) @ to_le 4 (0x58 :: u32) @ to_le 4 (0xB0 :: u32) @ to_le 4 (0x28 :: u32)
     @ replicate 12 0 @ [1, 0, 0, 0] @ replicate 24 0
     @ concat (map (\<lambda>w. replicate 24 0 @ to_le 4 w @ replicate 8 0) ws)"

definition permuted_file :: bytes where "permuted_file = three_tokens [0x06000001, 0x06000003, 0x06000002]"
definition restored_file :: bytes where "restored_file = three_tokens [0x06000001, 0x06000002, 0x06000003]"

lemma mt_read_small:
  assumes "off + 4 \<le> length data" "off < 2 ^ 32"
  shows "mt_read_u32 data off = Ok (word_at data off)" "mt_read_i32 data off = Ok (word_at data off)"
  using assms by (simp_all add: mt_read_Ok_conv usize_limit_def)

lemma mt_read_half_small:
  "off + 2 \<le> length data \<Longrightarrow> off < 2 ^ 32 \<Longrightarrow> mt_read_u16 data off = Ok (half_at data off)"
  by (simp add: mt_read_Ok_conv usize_limit_def)

lemma mt_bytes_small: "off + n \<le> length data \<Longrightarrow> off < 2 ^ 32 \<Longrightarrow> n < 2 ^ 32 \<Longrightarrow> mt_bytes data off n = Ok (window data off n)"
  by (simp add: mt_bytes_def chk_add_def usize_limit_def get_range_def window_def)

lemma permuted_length: "length permuted_file = 324"
  by (simp add: permuted_file_def three_tokens_def ranges)

lemma permuted_reads:
  "word_at permuted_file 0 = MAGIC" "word_at permuted_file 4 = 31" "word_at permuted_file 0x30 = 0xD8" "word_at permuted_file 0x34 = 0x6C"
  "word_at permuted_file 0xA0 = 0x40" "word_at permuted_file 0xA4 = 0x58" "word_at permuted_file 0xA8 = 0xB0"
  "word_at permuted_file 0xAC = 0x28" "word_at permuted_file 0xB8 = 0" "word_at permuted_file 0xBC = 1" "word_at permuted_file 0x64 = 0"
  "half_at permuted_file 0x80 = 3"
  "word_at permuted_file 240 = 0x06000001" "word_at permuted_file 276 = 0x06000003" "word_at permuted_file 312 = 0x06000002"
  by code_simp+

lemma permuted_patches: "patch (patch permuted_file 276 [2, 0, 0, 6]) 312 [3, 0, 0, 6] = restored_file"
  by code_simp

lemma permuted_puts:
  "put permuted_file 276 [2, 0, 0, 6] = Ok (patch permuted_file 276 [2, 0, 0, 6])"
  "put (patch permuted_file 276 [2, 0, 0, 6]) 312 [3, 0, 0, 6] = Ok restored_file"
  using permuted_patches permuted_length by (simp_all add: put_in length_patch)

lemma funpow_5: "(f ^^ 5) x = f (f (f (f (f x))))"
  by (simp add: eval_nat_numeral)

lemma rounds_three: "inverse_round 0 3 0 = 0" "inverse_round 1 3 0 = 2" "inverse_round 2 3 0 = 1"
  by (simp_all add: inverse_round_def Let_def word_le_nat_alt)

lemma replicate_three: "replicate 3 x = [x, x, x]"
  by (simp add: eval_nat_numeral)

lemma decrypt_three:
  assumes "rid \<in> {1, 2, 3}"
  shows "decrypt_rid rid 1 3 seed = Ok (if rid = 1 then 1 else 5 - rid)"
proof -
  have "rid_key 1 3 seed = 0" by (simp add: rid_key_def word_unat_eq_iff unat_mod unat_div)
  moreover have "decrypt_rid_with_key 1 1 3 0 = 1" "decrypt_rid_with_key 2 1 3 0 = 3" "decrypt_rid_with_key 3 1 3 0 = 2"
    by (simp_all add: decrypt_rid_with_key_def rounds_three funpow_5)
  ultimately show ?thesis using decrypt_in_interval(1) [of 1 3 rid seed] assms by auto
qed

lemma token_bytes: "to_le 4 (0x06000002 :: u32) = [2, 0, 0, 6]" "to_le 4 (0x06000003 :: u32) = [3, 0, 0, 6]"
  by code_simp+

lemmas permuted_reading = mt_read_small permuted_length permuted_reads

lemma permuted_tables:
  "read_tables permuted_file layout_v31 = Ok \<lparr>ft_layout = layout_v31, ft_method_offset = 0xD8, ft_method_count = 3,
     ft_type_offset = 0x40, ft_type_count = 1, ft_image_offset = 0xB0, ft_image_count = 1\<rparr>"
  by (simp add: read_tables_def mt_table_def MT_HDR_METHODS_def MT_HDR_TYPES_def MT_HDR_IMAGES_def HEADER_def permuted_reading
      mt_bytes_small MT_TYPE_STRIDE_def MT_IMAGE_STRIDE_def layout_v31_def layout_v29_def)

lemma permuted_run:
  "\<exists>rp. restore_method_tokens permuted_file seed = Ok (restored_file, rp) \<and> mt_transformed rp = 1 \<and> mt_version rp = 31"
proof -
  let ?ft = "\<lparr>ft_layout = layout_v31, ft_method_offset = 0xD8, ft_method_count = 3,
     ft_type_offset = 0x40, ft_type_count = 1, ft_image_offset = 0xB0, ft_image_count = 1\<rparr>"
  have own: "own_image permuted_file ?ft 0 [0xFFFFFFFF, 0xFFFFFFFF, 0xFFFFFFFF] = Ok ([0, 0, 0], [0, 1, 2])"
    by (simp add: own_image_def image_type_range_def Let_def permuted_reading mt_read_half_small MT_IMAGE_STRIDE_def IMAGE_TYPE_START_OFFSET_def
      IMAGE_TYPE_COUNT_OFFSET_def layout_v29_def usize_of_i32_def chk_add_def usize_limit_def own_type_def type_method_range_def
      MT_TYPE_STRIDE_def TYPE_METHOD_COUNT_OFFSET_def TYPE_METHOD_START_OFFSET_def own_method_def upt_rec)
  have reads: "foldM (read_entry permuted_file ?ft 0) [0, 1, 2] ([], 0, True)
      = Ok ([(240, 0x06000001, 1), (276, 0x06000003, 2), (312, 0x06000002, 3)], 1, False)"
    by (simp add: read_entry_def Let_def permuted_reading layout_v31_def rid_of_def MT_TOKEN_TABLE_def)
  have writes: "foldM (restore_entry 1 3 seed) [(240, 0x06000001, 1), (276, 0x06000003, 2), (312, 0x06000002, 3)] (permuted_file, 0, 0)
      = Ok (restored_file, 2, 3)"
    by (simp add: restore_entry_def Let_def rid_of_def decrypt_three MT_TOKEN_TABLE_def permuted_puts token_bytes)
  have base: "block_base [0, 1, 2] = Ok 0" by (simp add: block_base_def min_or_def max_or_def)
  have image: "restore_image permuted_file ?ft seed 0 (start_state 3 permuted_file) = Ok rs1" if "rs1 = (start_state 3 permuted_file)
      \<lparr>rs_owners := [0, 0, 0], rs_output := restored_file, rs_with_methods := 1, rs_visited := 3, rs_already := 1, rs_correct := 3,
       rs_changed := 2, rs_transformed := 1\<rparr>" for rs1
    using own reads writes base that
    by (simp del: foldM.simps add: restore_image_def start_state_def replicate_three Let_def rid_of_def min_or_def max_or_def word_le_nat_alt)
  show ?thesis
    using image by (simp add: restore_method_tokens_def SUPPORTED_V39_def fixed_layout_of_def from_raw_def permuted_reading restore_fixed_def
      permuted_tables start_state_def)
qed

lemma decrypt_rid_bij_witness:
  "\<exists>f. bij_betw f {1..3 :: u32} {1..3} \<and> decrypt_rid 2 1 3 7 = Ok (f 2)"
  using decrypt_rid_bij [of 1 3 7] by auto

lemma restore_method_tokens_rows_witness:
  "\<exists>T. token_table_of permuted_file = Some T \<and> length restored_file = length permuted_file
     \<and> mset (concat (tt_images T)) = mset [0..<tt_count T]"
  using permuted_run [of 7] restore_method_tokens_rows [of permuted_file 7 restored_file] by blast

end
