(* ===== verification/SeedDiscoveryProps.thy ===== *)
theory SeedDiscoveryProps
  imports MethodTokenProps
begin

unbundle bit_operations_syntax

text \<open>
  The discovery of seeds is exact: a seed matters to a restoration only through the decryption of the rows of the
  images that are not clean, each such image admits the seeds of certain residues, and the candidates are the seeds
  that all images admit.
\<close>

section \<open>The seeds that restore an image\<close>

definition seed_restores :: "bytes \<Rightarrow> column \<Rightarrow> nat list \<Rightarrow> u32 \<Rightarrow> bool" where
  "seed_restores data c ms seed \<longleftrightarrow> image_clean data c ms
     \<or> (\<forall>m\<in>set ms. decrypt_rid (rid_of (word_at data (cell c m))) (Min (image_rids data c ms)) (Max (image_rids data c ms)) seed
          = Ok (word_of_nat (m - Min (set ms) + 1)))"

lemma restore_entries_seed:
  assumes "foldM (restore_entry low high seed) es st = Ok r"
  shows "foldM (restore_entry low high seed') es st = Ok r'
    \<longleftrightarrow> (\<forall>(off, token, expected)\<in>set es. decrypt_rid (rid_of token) low high seed' = Ok expected) \<and> r' = r"
  using assms
proof (induction es arbitrary: st)
  case (Cons e es)
  obtain off token expected where e: "e = (off, token, expected)" by (cases e)
  obtain out ch co where st: "st = (out, ch, co)" by (cases st)
  obtain st1 where s: "restore_entry low high seed e st = Ok st1" and f: "foldM (restore_entry low high seed) es st1 = Ok r"
    using Cons.prems by (auto simp: res_conv)
  have step: "restore_entry low high seed' e st = Ok st2 \<longleftrightarrow> decrypt_rid (rid_of token) low high seed' = Ok expected \<and> st2 = st1" for st2
    using s unfolding e st by (cases st1; cases st2) (auto simp: restore_entry_Ok split: if_splits)
  show ?case using Cons.IH [OF f] step by (auto simp: e res_conv)
qed auto


lemma entries_seed:
  "foldM (restore_entry low high seed) (map (entry_of data c (Min (set ms))) ms) st = Ok r \<Longrightarrow>
   low = Min (image_rids data c ms) \<Longrightarrow> high = Max (image_rids data c ms) \<Longrightarrow> \<not> image_clean data c ms \<Longrightarrow>
   foldM (restore_entry low high seed') (map (entry_of data c (Min (set ms))) ms) st = Ok r' \<longleftrightarrow> seed_restores data c ms seed' \<and> r' = r"
  using restore_entries_seed [of low high seed "map (entry_of data c (Min (set ms))) ms" st r seed' r']
  by (simp add: entry_of_def seed_restores_def)

lemma restore_image_seed:
  assumes run: "restore_image data ft seed img rs = Ok rs1" and l: "length (rs_owners rs) = ft_method_count ft" "img < 0xFFFFFFFF"
  shows "restore_image data ft seed' img rs = Ok rs2 \<longleftrightarrow> seed_restores data (fixed_column ft) (fixed_methods data ft img) seed' \<and> rs2 = rs1"
proof -
  obtain ow ms where own: "own_image data ft img (rs_owners rs) = Ok (ow, ms)"
    using run by (auto simp: restore_image_def res_conv)
  have M: "fixed_methods data ft img = ms" using own_image_after [OF own l] by simp
  show ?thesis
  proof (cases "ms = []")
    case True
    then show ?thesis using run own M by (auto simp: restore_image_def seed_restores_def image_clean_def)
  next
    case False
    obtain base ts a cl where b: "block_base ms = Ok base"
      and rd: "foldM (read_entry data ft base) ms ([], rs_already rs, True) = Ok (ts, a, cl)"
      using run own False by (auto simp: restore_image_def res_conv Let_def)
    note base = b [unfolded block_base_Ok] note all = fixed.read_all [OF rd]
    have cl: "cl \<longleftrightarrow> image_clean data (fixed_column ft) ms" using all base by (simp add: image_clean_def)
    have rids: "set (map (\<lambda>(_, token, _). rid_of token) ts) = image_rids data (fixed_column ft) ms"
      using all entry_rids by simp
    show ?thesis
    proof (cases cl)
      case True
      then show ?thesis using run own False b rd cl M by (auto simp: restore_image_def Let_def seed_restores_def)
    next
      case nc: False
      then obtain o1 ch1 co1 where f: "foldM (restore_entry (Min (image_rids data (fixed_column ft) ms)) (Max (image_rids data (fixed_column ft) ms)) seed)
            ts (rs_output rs, rs_changed rs, rs_correct rs) = Ok (o1, ch1, co1)"
        using run own False b rd rids by (auto simp: restore_image_def Let_def res_conv min_or_def max_or_def simp del: set_map split: if_splits)
      have ts: "ts = map (entry_of data (fixed_column ft) (Min (set ms))) ms" using all base by simp
      have nc': "\<not> image_clean data (fixed_column ft) ms" using nc cl by simp
      note e = entries_seed [OF f [unfolded ts] refl refl nc', folded ts]
      show ?thesis using run own False b rd nc rids M f e [of seed']
        by (auto simp: restore_image_def Let_def res_conv min_or_def max_or_def simp del: set_map split: if_splits)
    qed
  qed
qed


lemma v39_restore_image_seed:
  assumes run: "v39_restore_image data l seed img rs = Ok rs1"
  shows "v39_restore_image data l seed' img rs = Ok rs2 \<longleftrightarrow> seed_restores data (v39_column l) (v39_methods data l img) seed' \<and> rs2 = rs1"
proof -
  obtain ms where ms: "v39_image_methods data l img = Ok ms" using run by (auto simp: v39_restore_image_def res_conv)
  then have M: "v39_methods data l img = ms" by (simp add: v39_methods_def)
  show ?thesis
  proof (cases "ms = []")
    case True
    then show ?thesis using run ms M by (auto simp: v39_restore_image_def seed_restores_def image_clean_def)
  next
    case False
    obtain base ow ts a cl where b: "v39_block_base ms = Ok base"
      and ow: "foldM (v39_own_method img) ms (rs_owners rs) = Ok ow"
      and rd: "foldM (v39_read_entry data l base) ms ([], rs_already rs, True) = Ok (ts, a, cl)"
      using run ms False by (auto simp: v39_restore_image_def res_conv Let_def)
    note base = b [unfolded v39_block_base_Ok] note all = v39.read_all [OF rd]
    have cl: "cl \<longleftrightarrow> image_clean data (v39_column l) ms" using all base by (simp add: image_clean_def)
    have rids: "set (map (\<lambda>(_, token, _). rid_of token) ts) = image_rids data (v39_column l) ms"
      using all entry_rids by simp
    show ?thesis
    proof (cases cl)
      case True
      then show ?thesis using run ms False b ow rd cl M by (auto simp: v39_restore_image_def Let_def seed_restores_def)
    next
      case nc: False
      then obtain o1 ch1 co1 where f: "foldM (restore_entry (Min (image_rids data (v39_column l) ms)) (Max (image_rids data (v39_column l) ms)) seed)
            ts (rs_output rs, rs_changed rs, rs_correct rs) = Ok (o1, ch1, co1)"
        using run ms False b ow rd rids
        by (auto simp: v39_restore_image_def Let_def res_conv v39_restore_entries_same simp del: set_map split: if_splits)
      have ts: "ts = map (entry_of data (v39_column l) (Min (set ms))) ms" using all base by simp
      have nc': "\<not> image_clean data (v39_column l) ms" using nc cl by simp
      note e = entries_seed [OF f [unfolded ts] refl refl nc', folded ts]
      show ?thesis using run ms False b ow rd nc rids M f e [of seed']
        by (auto simp: v39_restore_image_def Let_def res_conv v39_restore_entries_same simp del: set_map split: if_splits)
    qed
  qed
qed

text \<open>What a successful pass shows of an image.\<close>

definition image_facts :: "bytes \<Rightarrow> column \<Rightarrow> nat \<Rightarrow> nat list \<Rightarrow> bool" where
  "image_facts data c n ms \<longleftrightarrow> distinct ms \<and> set ms \<subseteq> {..<n} \<and> (\<forall>m\<in>set ms. entry_good data c m)
     \<and> (ms \<noteq> [] \<longrightarrow> Max (set ms) - Min (set ms) + 1 = length ms)
     \<and> (\<not> image_clean data c ms \<longrightarrow>
          Max (image_rids data c ms) - Min (image_rids data c ms) + 1 = word_of_nat (length ms))"

lemma image_pass_facts: "image_pass data c n seed ms img rs rs' \<Longrightarrow> image_facts data c n ms"
  by (auto simp: image_pass_def image_facts_def owners_after_def)

text \<open>A restoration that depends on the seed only through the decryption of the rows.\<close>

locale seeded_restorer = image_restorer +
  assumes restore_seed: "restore seed img rs = Ok rs1 \<Longrightarrow> length (rs_owners rs) = n \<Longrightarrow> img < 0xFFFFFFFF \<Longrightarrow>
    restore seed' img rs = Ok rs2 \<longleftrightarrow> seed_restores data c (M img) seed' \<and> rs2 = rs1"
begin

lemma restore_length: "restore seed img rs = Ok rs' \<Longrightarrow> length (rs_owners rs) = n \<Longrightarrow> img < 0xFFFFFFFF \<Longrightarrow> length (rs_owners rs') = n"
  using restore_pass by (simp add: image_pass_def owners_after_def)

lemma run_seed:
  "foldM (restore seed) imgs rs = Ok rs1 \<Longrightarrow> length (rs_owners rs) = n \<Longrightarrow> set imgs \<subseteq> {..<0xFFFFFFFF} \<Longrightarrow>
   foldM (restore seed') imgs rs = Ok rs2 \<longleftrightarrow> (\<forall>img\<in>set imgs. seed_restores data c (M img) seed') \<and> rs2 = rs1"
proof (induction imgs arbitrary: rs)
  case (Cons img imgs)
  then obtain r where s: "restore seed img rs = Ok r" and f: "foldM (restore seed) imgs r = Ok rs1" by (auto simp: res_conv)
  have img: "img < 0xFFFFFFFF" using Cons.prems(3) by simp
  note step = restore_seed [OF s Cons.prems(2) img]
  show ?case using Cons.IH [OF f restore_length [OF s Cons.prems(2) img]] Cons.prems(3) step by (auto simp: res_conv)
qed auto

lemma run_dirty:
  "foldM (restore seed) imgs rs = Ok rs1 \<Longrightarrow> length (rs_owners rs) = n \<Longrightarrow> set imgs \<subseteq> {..<0xFFFFFFFF} \<Longrightarrow>
   rs_transformed rs1 = rs_transformed rs + length (filter (\<lambda>img. \<not> image_clean data c (M img)) imgs)
   \<and> (\<forall>img\<in>set imgs. seed_restores data c (M img) seed \<and> image_facts data c n (M img))"
proof (induction imgs arbitrary: rs)
  case (Cons img imgs)
  then obtain r where s: "restore seed img rs = Ok r" and f: "foldM (restore seed) imgs r = Ok rs1" by (auto simp: res_conv)
  have img: "img < 0xFFFFFFFF" using Cons.prems(3) by simp
  have pass: "image_pass data c n seed (M img) img rs r" by (rule restore_pass [OF s Cons.prems(2) img])
  moreover note image_pass_facts [OF pass]
  moreover have "seed_restores data c (M img) seed" using restore_seed [OF s Cons.prems(2) img] s by blast
  ultimately show ?case using Cons.IH [OF f restore_length [OF s Cons.prems(2) img]] Cons.prems(3)
    by (auto simp: image_pass_def split: if_splits)
qed simp

end

interpretation fixed_seeded: seeded_restorer data "fixed_column ft" "ft_method_count ft" "fixed_methods data ft" "restore_image data ft"
  for data ft
  by unfold_locales (rule restore_image_seed)

interpretation v39_seeded: seeded_restorer data "v39_column l" "l39_method_count l" "v39_methods data l" "v39_restore_image data l"
  for data l
  by unfold_locales (rule v39_restore_image_seed)


section \<open>The residues of an image\<close>

definition image_vals :: "bytes \<Rightarrow> column \<Rightarrow> nat list \<Rightarrow> (u32 \<times> u32) list" where
  "image_vals data c ms = map (\<lambda>m. (rid_of (word_at data (cell c m)), word_of_nat (m - Min (set ms) + 1))) ms"

lemma image_vals_simps:
  "length (image_vals data c ms) = length ms" "set (map fst (image_vals data c ms)) = image_rids data c ms"
  "list_all (\<lambda>(rid, expected). rid = expected) (image_vals data c ms) \<longleftrightarrow> image_clean data c ms"
  by (auto simp: image_vals_def image_rids_def list_all_iff image_clean_def entry_clean_def)

lemma image_rids_finite: "finite (image_rids data c ms)"
  by (simp add: image_rids_def)

lemma rid_small: "unat (rid_of w) < 2 ^ 24"
proof -
  have "rid_of w \<le> 0x00ffffff" unfolding rid_of_def by (rule word_and_le1)
  then show ?thesis by (simp add: word_le_nat_alt)
qed

text \<open>An image that some seed restores has a proper interval of rows.\<close>

lemma restored_interval:
  assumes facts: "image_facts data c n ms" and dirty: "\<not> image_clean data c ms" and s: "seed_restores data c ms seed"
  shows "Min (image_rids data c ms) < Max (image_rids data c ms)" "unat (Max (image_rids data c ms)) < 2 ^ 31 - 1"
    "2 \<le> unat (word_of_nat (length ms) :: u32)"
proof -
  let ?low = "Min (image_rids data c ms)" and ?high = "Max (image_rids data c ms)"
  obtain m where m: "m \<in> set ms" using dirty by (auto simp: image_clean_def)
  then have ne: "image_rids data c ms \<noteq> {}" by (auto simp: image_rids_def)
  have "?high \<in> image_rids data c ms" by (rule Max_in [OF image_rids_finite ne])
  then obtain w where "?high = rid_of w" by (auto simp: image_rids_def)
  then show hi: "unat ?high < 2 ^ 31 - 1" using rid_small [of w] by simp
  have "\<exists>e. decrypt_rid (rid_of (word_at data (cell c m))) ?low ?high seed = Ok e" using s dirty m unfolding seed_restores_def by blast
  then obtain k where k: "Option.bind (chk_add_w ?high 1) (\<lambda>v. chk_sub_w v ?low) = Some k" "\<not> k < 2"
    by (auto simp: decrypt_rid_def res_conv split: if_splits)
  then have "k = ?high + 1 - ?low" by (auto simp: chk_add_w_def chk_sub_w_def bind_eq_Some_conv split: if_splits)
  then have kn: "k = word_of_nat (length ms)" using facts dirty by (simp add: image_facts_def algebra_simps)
  show "2 \<le> unat (word_of_nat (length ms) :: u32)" using k(2) unfolding kn by (simp add: word_less_nat_alt del: unat_of_nat)
  have "?low \<le> ?high" using image_rids_finite ne by simp
  moreover have "?low \<noteq> ?high"
  proof
    assume "?low = ?high"
    then have "k = 1" using \<open>k = ?high + 1 - ?low\<close> by simp
    then show False using k(2) by simp
  qed
  ultimately show "?low < ?high" by simp
qed

lemma residues_discover:
  assumes facts: "image_facts data c n ms" and dirty: "\<not> image_clean data c ms" and s0: "seed_restores data c ms s0"
    and k: "k = word_of_nat (length ms)"
  shows "s mod (k div 2) \<in> set (key_residues (image_vals data c ms) (Min (image_rids data c ms)) (Max (image_rids data c ms)) k)
    \<longleftrightarrow> seed_restores data c ms s"
    and "v \<in> set (key_residues vals low high k) \<Longrightarrow> v < k div 2" and "k div 2 \<noteq> 0"
proof -
  let ?low = "Min (image_rids data c ms)" and ?high = "Max (image_rids data c ms)"
  note i = restored_interval [OF facts dirty s0]
  have half: "unat (k div 2) \<noteq> 0" using i(3) unfolding k by (simp add: unat_div del: unat_of_nat)
  then show nz: "k div 2 \<noteq> 0" by auto
  show "v < k div 2" if "v \<in> set (key_residues vals low high k)" for v vals low high
  proof -
    have "v \<in> word_of_nat ` {0..<unat (k div 2)}" using that by (simp add: key_residues_def)
    then obtain j where j: "v = word_of_nat j" "j < unat (k div 2)" by (elim imageE) simp
    then have "j < 2 ^ 32" using unat_bound [of "k div 2"] by simp
    then show ?thesis using j by (simp add: word_less_nat_alt unat_of_nat)
  qed
  have "s mod (k div 2) \<in> set (map word_of_nat [0..<unat (k div 2)])"
  proof -
    have "unat (s mod (k div 2)) < unat (k div 2)" using half by (simp add: unat_mod)
    moreover have "s mod (k div 2) = word_of_nat (unat (s mod (k div 2)))" by simp
    ultimately show ?thesis by (auto intro: rev_image_eqI)
  qed
  moreover have "decrypt_rid_with_key rid ?low ?high (k div 4 + s mod (k div 2)) = e \<longleftrightarrow> decrypt_rid rid ?low ?high s = Ok e"
    if "rid \<in> image_rids data c ms" for rid e
  proof -
    have "?high - ?low + 1 = k" using facts dirty k by (simp add: image_facts_def)
    moreover have "?low \<le> rid" "rid \<le> ?high" using that image_rids_finite by simp_all
    ultimately show ?thesis using decrypt_in_interval(1) [OF i(1,2)] by (simp add: rid_key_def)
  qed
  ultimately show "s mod (k div 2) \<in> set (key_residues (image_vals data c ms) ?low ?high k) \<longleftrightarrow> seed_restores data c ms s"
    using dirty by (simp add: key_residues_def list_all_iff image_vals_def seed_restores_def image_rids_def)
qed


section \<open>Discovery of one image\<close>

definition discovers :: "bytes \<Rightarrow> column \<Rightarrow> nat list \<Rightarrow> image_key_discovery \<Rightarrow> bool" where
  "discovers data c ms kd \<longleftrightarrow> (kd_clean kd \<longleftrightarrow> image_clean data c ms)
     \<and> (\<not> kd_clean kd \<longrightarrow> kd_modulus kd \<noteq> 0 \<and> (\<forall>v\<in>set (kd_residues kd). v < kd_modulus kd)
          \<and> (\<forall>s. s mod kd_modulus kd \<in> set (kd_residues kd) \<longleftrightarrow> seed_restores data c ms s))"

lemma image_facts_small:
  assumes "image_facts data c n ms" "n \<le> 0xFFFFFFFF"
  shows "length ms < 2 ^ 32"
proof -
  have "card (set ms) \<le> card {..<n}" using assms(1) by (intro card_mono) (auto simp: image_facts_def)
  then have "length ms \<le> n" using assms(1) distinct_card [of ms] by (simp add: image_facts_def)
  then show ?thesis using assms(2) by simp
qed

lemma image_facts_local:
  assumes "image_facts data c n ms" "m \<in> set ms"
  shows "m - Min (set ms) + 1 \<le> length ms"
proof -
  have "m \<le> Max (set ms)" using assms(2) by simp
  then have "m - Min (set ms) + 1 \<le> Max (set ms) - Min (set ms) + 1" by simp
  moreover have "ms \<noteq> []" using assms(2) by auto
  ultimately show ?thesis using assms(1) by (simp add: image_facts_def)
qed

lemma fixed_vals:
  assumes facts: "image_facts data (fixed_column ft) n ms" and n: "n \<le> 0xFFFFFFFF"
  shows "mapM (read_value data ft (Min (set ms))) ms = Ok (image_vals data (fixed_column ft) ms)"
  unfolding image_vals_def
proof (rule mapM_Ok_map)
  fix m assume m: "m \<in> set ms"
  then have "entry_good data (fixed_column ft) m" using facts by (simp add: image_facts_def)
  moreover have "\<not> 2 ^ 32 \<le> m - Min (set ms) + 1" using image_facts_local [OF facts m] image_facts_small [OF facts n] by linarith
  ultimately show "read_value data ft (Min (set ms)) m
      = Ok (rid_of (word_at data (cell (fixed_column ft) m)), word_of_nat (m - Min (set ms) + 1))"
    by (simp add: read_value_def entry_good_def fixed_column_def cell_def mt_read_Ok_conv [THEN iffD2])
qed

lemma v39_vals:
  assumes facts: "image_facts data (v39_column l) n ms"
  shows "mapM (v39_read_value data l (Min (set ms))) ms = Ok (image_vals data (v39_column l) ms)"
  unfolding image_vals_def
proof (rule mapM_Ok_map)
  fix m assume m: "m \<in> set ms"
  then have "entry_good data (v39_column l) m" using facts by (simp add: image_facts_def)
  then show "v39_read_value data l (Min (set ms)) m
      = Ok (rid_of (word_at data (cell (v39_column l) m)), word_of_nat (m - Min (set ms) + 1))"
    by (simp add: v39_read_value_def entry_good_def v39_column_def cell_def mt_read_Ok_conv [THEN iffD2])
qed

lemma discovery_base_Ok:
  "discovery_base ms = Ok base \<longleftrightarrow> ms \<noteq> [] \<and> Max (set ms) - Min (set ms) + 1 = length ms \<and> base = Min (set ms)"
  by (auto simp: discovery_base_def min_or_def max_or_def res_conv)

lemma fixed_discovery:
  assumes run: "restore_image data ft seed img rs = Ok rs'" and l: "length (rs_owners rs) = ft_method_count ft" "img < 0xFFFFFFFF"
    and n: "ft_method_count ft \<le> 0xFFFFFFFF"
  shows "\<exists>kd. image_discovery data ft img = Ok kd \<and> discovers data (fixed_column ft) (fixed_methods data ft img) kd"
proof -
  obtain ow ms where own: "own_image data ft img (rs_owners rs) = Ok (ow, ms)"
    using run by (auto simp: restore_image_def res_conv)
  from own_image_after [OF own l] obtain a b where M: "fixed_methods data ft img = ms"
    and r: "image_type_range data ft img = Ok (a, b)" "foldM (collect_type data ft) [a..<b] [] = Ok ms" by auto
  let ?c = "fixed_column ft"
  have facts: "image_facts data ?c (ft_method_count ft) ms" using image_pass_facts [OF restore_image_pass [OF run l]] M by simp
  have s0: "seed_restores data ?c ms seed" using restore_image_seed [OF run l, THEN iffD1, OF run] M by simp
  note len = image_facts_small [OF facts n]
  show ?thesis
  proof (cases "ms = [] \<or> image_clean data ?c ms")
    case True
    then show ?thesis
      using r M facts len fixed_vals [OF facts n]
      by (auto simp: image_discovery_def discovers_def Let_def image_vals_simps image_clean_def discovery_base_Ok [THEN iffD2] image_facts_def)
  next
    case False
    let ?k = "word_of_nat (length ms) :: u32"
    have dirty: "\<not> image_clean data ?c ms" and ne: "ms \<noteq> []" using False by simp_all
    note res = residues_discover [OF facts dirty s0 refl]
    have base: "discovery_base ms = Ok (Min (set ms))" using facts ne by (simp add: discovery_base_Ok image_facts_def)
    have span: "Max (image_rids data ?c ms) - Min (image_rids data ?c ms) + 1 = ?k" using facts dirty by (simp add: image_facts_def)
    have "\<not> ?k < 2" using restored_interval(3) [OF facts dirty s0] by (simp add: word_less_nat_alt)
    moreover have "image_vals data ?c ms \<noteq> []" using ne by (simp add: image_vals_def)
    ultimately have "image_discovery data ft img = Ok \<lparr>kd_image = img, kd_method_count = ?k, kd_modulus = ?k div 2, kd_clean = False,
        kd_residues = key_residues (image_vals data ?c ms) (Min (image_rids data ?c ms)) (Max (image_rids data ?c ms)) ?k\<rparr>"
      using r ne base fixed_vals [OF facts n] len span dirty image_vals_simps [of data ?c ms]
      by (simp add: image_discovery_def Let_def min_or_def max_or_def del: set_map list.set_map)
    then show ?thesis using M dirty res by (simp add: discovers_def)
  qed
qed


lemma v39_key_residues_same: "v39_key_residues = key_residues"
  by (intro ext) (simp add: v39_key_residues_def key_residues_def)

lemma v39_discovery:
  assumes run: "v39_restore_image data l seed img rs = Ok rs'" and l: "length (rs_owners rs) = l39_method_count l" "img < 0xFFFFFFFF"
    and n: "l39_method_count l \<le> 0xFFFFFFFF"
  shows "\<exists>kd. v39_image_discovery data l img = Ok kd \<and> discovers data (v39_column l) (v39_methods data l img) kd"
proof -
  obtain ms where r: "v39_image_methods data l img = Ok ms" using run by (auto simp: v39_restore_image_def res_conv)
  then have M: "v39_methods data l img = ms" by (simp add: v39_methods_def)
  let ?c = "v39_column l"
  have facts: "image_facts data ?c (l39_method_count l) ms" using image_pass_facts [OF v39_restore_image_pass [OF run l]] M by simp
  have s0: "seed_restores data ?c ms seed" using v39_restore_image_seed [OF run, THEN iffD1, OF run] M by simp
  note len = image_facts_small [OF facts n]
  show ?thesis
  proof (cases "ms = [] \<or> image_clean data ?c ms")
    case True
    then show ?thesis
      using r M facts len v39_vals [OF facts]
      by (auto simp: v39_image_discovery_def discovers_def Let_def image_vals_simps image_clean_def image_facts_def)
  next
    case False
    let ?k = "word_of_nat (length ms) :: u32"
    have dirty: "\<not> image_clean data ?c ms" and ne: "ms \<noteq> []" using False by simp_all
    note res = residues_discover [OF facts dirty s0 refl]
    have base: "Max (set ms) - Min (set ms) + 1 = length ms" using facts ne by (simp add: image_facts_def)
    have span: "Max (image_rids data ?c ms) - Min (image_rids data ?c ms) + 1 = ?k" using facts dirty by (simp add: image_facts_def)
    have "\<not> ?k < 2" using restored_interval(3) [OF facts dirty s0] by (simp add: word_less_nat_alt)
    moreover have "image_vals data ?c ms \<noteq> []" using ne by (simp add: image_vals_def)
    ultimately have "v39_image_discovery data l img = Ok \<lparr>kd_image = img, kd_method_count = ?k, kd_modulus = ?k div 2, kd_clean = False,
        kd_residues = key_residues (image_vals data ?c ms) (Min (image_rids data ?c ms)) (Max (image_rids data ?c ms)) ?k\<rparr>"
      using r ne base v39_vals [OF facts] len span dirty image_vals_simps [of data ?c ms]
      by (simp add: v39_image_discovery_def Let_def v39_key_residues_same del: set_map list.set_map)
    then show ?thesis using M dirty res by (simp add: discovers_def)
  qed
qed

section \<open>Candidate seeds\<close>

lemma seed_loop_set:
  assumes "0 < k" "k < 2 ^ 32"
  shows "set (seed_loop ok k cand seeds)
    = set seeds \<union> {word_of_nat c |c. cand \<le> c \<and> c < 2 ^ 32 \<and> c mod k = cand mod k \<and> ok c}"
  using assms
proof (induction ok k cand seeds rule: seed_loop.induct)
  case (1 ok k cand seeds)
  show ?case
  proof (cases "cand < 2 ^ 32")
    case True
    have min: "min (cand + k) (2 ^ 64 - 1) = cand + k" using True 1(3) by simp
    have next_mod: "cand + k \<le> c \<longleftrightarrow> c \<noteq> cand" if "cand \<le> c" "c mod k = cand mod k" for c
    proof -
      from that obtain j where "c = cand + k * j" by (metis mod_eq_nat2E)
      then show ?thesis using 1(2) by (cases j) auto
    qed
    have "{word_of_nat c |c. cand \<le> c \<and> c < 2 ^ 32 \<and> c mod k = cand mod k \<and> ok c}
        = (if ok cand then {word_of_nat cand} else {})
          \<union> {word_of_nat c |c. cand + k \<le> c \<and> c < 2 ^ 32 \<and> c mod k = (cand + k) mod k \<and> ok c}" (is "?L = ?A \<union> ?R")
    proof
      show "?L \<subseteq> ?A \<union> ?R" using next_mod by fastforce
      show "?A \<union> ?R \<subseteq> ?L" using True by (auto split: if_splits)
    qed
    then show ?thesis using 1 True min by (subst seed_loop.simps) auto
  next
    case False
    then show ?thesis by (subst seed_loop.simps) auto
  qed
qed

lemma max_modulus_Some: "rs \<noteq> [] \<Longrightarrow> \<exists>a\<in>set rs. max_modulus rs = Some a \<and> (\<forall>r\<in>set rs. kd_modulus r \<le> kd_modulus a)"
proof (induction rs rule: rev_induct)
  case (snoc r rs)
  then show ?case
  proof (cases "rs = []")
    case True
    then show ?thesis by (simp add: max_modulus_def)
  next
    case False
    then obtain a where a: "a \<in> set rs" "max_modulus rs = Some a" "\<forall>r\<in>set rs. kd_modulus r \<le> kd_modulus a"
      using snoc.IH by blast
    then show ?thesis by (cases "kd_modulus a \<le> kd_modulus r") (auto simp: max_modulus_def intro: order_trans)
  qed
qed simp


lemma admits_residue: "kd_modulus r \<noteq> 0 \<Longrightarrow> admits (unat s) r \<longleftrightarrow> s mod kd_modulus r \<in> set (kd_residues r)"
proof -
  have "unat s mod unat (kd_modulus r) = unat v \<longleftrightarrow> v = s mod kd_modulus r" for v
    by (metis unat_mod word_unat_eq_iff)
  then show "kd_modulus r \<noteq> 0 \<Longrightarrow> ?thesis" by (auto simp: admits_def list_ex_iff)
qed

lemma v39_admits_same: "v39_admits = admits"
  by (intro ext) (auto simp: v39_admits_def admits_def)

lemma seed_loops_set:
  "0 < k \<Longrightarrow> k < 2 ^ 32 \<Longrightarrow> set (foldl (\<lambda>seeds v. seed_loop ok k (unat v) seeds) seeds (vs :: u32 list))
    = set seeds \<union> {word_of_nat c |c. \<exists>v\<in>set vs. unat v \<le> c \<and> c < 2 ^ 32 \<and> c mod k = unat v mod k \<and> ok c}"
  by (induction vs arbitrary: seeds) (auto simp: seed_loop_set)

lemma anchor_seeds:
  assumes a: "a \<in> set cs" and cs: "\<forall>r\<in>set cs. kd_modulus r \<noteq> 0" and v: "\<forall>v\<in>set (kd_residues a). v < kd_modulus a"
  shows "set (foldl (\<lambda>seeds residue. seed_loop (\<lambda>c. list_all (admits c) cs) (unat (kd_modulus a)) (unat residue) seeds) [] (kd_residues a))
    = {s. \<forall>r\<in>set cs. s mod kd_modulus r \<in> set (kd_residues r)}" (is "?L = ?R")
proof -
  let ?k = "unat (kd_modulus a)"
  have nz: "kd_modulus a \<noteq> 0" using a cs by blast
  then have k: "0 < ?k" "?k < 2 ^ 32" using unat_bound [of "kd_modulus a"] by (simp_all add: unat_gt_0)
  have L: "?L = {word_of_nat c |c. \<exists>v\<in>set (kd_residues a). unat v \<le> c \<and> c < 2 ^ 32 \<and> c mod ?k = unat v mod ?k \<and> list_all (admits c) cs}"
    using seed_loops_set [OF k] by simp
  have ok: "list_all (admits (unat s)) cs \<longleftrightarrow> s \<in> ?R" for s using cs by (simp add: list_all_iff admits_residue)
  show ?thesis
  proof
    show "?L \<subseteq> ?R"
    proof
      fix s assume "s \<in> ?L"
      then obtain c where c: "s = word_of_nat c" "c < 2 ^ 32" "list_all (admits c) cs" unfolding L by blast
      then have "unat s = c" by (simp add: unat_of_nat)
      then show "s \<in> ?R" using ok c(3) by blast
    qed
    show "?R \<subseteq> ?L"
    proof
      fix s assume s: "s \<in> ?R"
      let ?v = "s mod kd_modulus a"
      have "?v \<in> set (kd_residues a)" using s a by blast
      moreover have "unat ?v \<le> unat s" "unat s mod ?k = unat ?v mod ?k" "unat s < 2 ^ 32"
        using unat_bound [of s] by (simp_all add: unat_mod)
      moreover have "list_all (admits (unat s)) cs" using ok s by blast
      moreover have "s = word_of_nat (unat s)" by simp
      ultimately show "s \<in> ?L" unfolding L by blast
    qed
  qed
qed

lemma dirty_constraints:
  assumes "\<forall>r\<in>set (filter (\<lambda>r. \<not> kd_clean r) images). kd_modulus r \<noteq> 0 \<and> (\<forall>v\<in>set (kd_residues r). v < kd_modulus r)"
  shows "filter (\<lambda>r. \<not> kd_clean r) images \<noteq> [] \<Longrightarrow>
      set (seeds_of images) = {s. \<forall>r\<in>set images. \<not> kd_clean r \<longrightarrow> s mod kd_modulus r \<in> set (kd_residues r)}"
    and "v39_seeds_of images \<noteq> [] \<Longrightarrow> v39_seeds_of images = seeds_of images"
proof -
  let ?cs = "filter (\<lambda>r. \<not> kd_clean r) images"
  show "set (seeds_of images) = {s. \<forall>r\<in>set images. \<not> kd_clean r \<longrightarrow> s mod kd_modulus r \<in> set (kd_residues r)}" if ne: "?cs \<noteq> []"
  proof -
    obtain a where a: "a \<in> set ?cs" "max_modulus ?cs = Some a" using max_modulus_Some [OF ne] by blast
    from anchor_seeds [OF a(1)] assms a(1)
    have "set (seeds_of images) = {s. \<forall>r\<in>set ?cs. s mod kd_modulus r \<in> set (kd_residues r)}"
      unfolding seeds_of_def Let_def a(2) option.case by blast
    then show ?thesis by auto
  qed
  show "v39_seeds_of images \<noteq> [] \<Longrightarrow> v39_seeds_of images = seeds_of images"
    by (auto simp: v39_seeds_of_def seeds_of_def Let_def v39_admits_same split: option.splits if_splits)
qed

section \<open>The whole discovery\<close>

text \<open>A discovery of every image of a file, next to a run that restored it.\<close>

locale seed_discoverer = seeded_restorer +
  fixes discover :: "nat \<Rightarrow> image_key_discovery mt_result"
  assumes discover_law: "restore seed img rs = Ok rs' \<Longrightarrow> length (rs_owners rs) = n \<Longrightarrow> img < 0xFFFFFFFF \<Longrightarrow> n \<le> 0xFFFFFFFF \<Longrightarrow>
    \<exists>kd. discover img = Ok kd \<and> discovers data c (M img) kd"
begin

lemma run_discovers:
  "foldM (restore seed) imgs rs = Ok rs' \<Longrightarrow> length (rs_owners rs) = n \<Longrightarrow> set imgs \<subseteq> {..<0xFFFFFFFF} \<Longrightarrow> n \<le> 0xFFFFFFFF \<Longrightarrow>
   \<exists>kds. mapM discover imgs = Ok kds \<and> list_all2 (\<lambda>img kd. discovers data c (M img) kd) imgs kds"
proof (induction imgs arbitrary: rs)
  case (Cons img imgs)
  then obtain r where s: "restore seed img rs = Ok r" and f: "foldM (restore seed) imgs r = Ok rs'" by (auto simp: res_conv)
  have img: "img < 0xFFFFFFFF" using Cons.prems(3) by simp
  obtain kd where "discover img = Ok kd" "discovers data c (M img) kd" using discover_law [OF s Cons.prems(2) img Cons.prems(4)] by blast
  then show ?case using Cons.IH [OF f restore_length [OF s Cons.prems(2) img]] Cons.prems(3,4) by auto
qed simp

lemma run_seeds:
  assumes f: "foldM (restore seed) [0..<k] (start_state n data) = Ok rs" and k: "k \<le> 0xFFFFFFFF" and n: "n \<le> 0xFFFFFFFF"
    and t: "0 < rs_transformed rs"
  shows "\<exists>kds. mapM discover [0..<k] = Ok kds \<and> (v39_seeds_of kds \<noteq> [] \<longrightarrow> v39_seeds_of kds = seeds_of kds)
    \<and> (\<forall>s. s \<in> set (seeds_of kds) \<longleftrightarrow> foldM (restore s) [0..<k] (start_state n data) = Ok rs)"
proof -
  have start: "length (rs_owners (start_state n data)) = n" "set [0..<k] \<subseteq> {..<0xFFFFFFFF}" using k by (auto simp: start_state_def)
  obtain kds where kds: "mapM discover [0..<k] = Ok kds" and all: "list_all2 (\<lambda>img kd. discovers data c (M img) kd) [0..<k] kds"
    using run_discovers [OF f start n] by blast
  have len: "length kds = k" using all by (auto dest: list_all2_lengthD)
  have each: "discovers data c (M i) (kds ! i)" if "i < k" for i using list_all2_nthD [OF all, of i] that by simp
  have good: "\<forall>r\<in>set (filter (\<lambda>r. \<not> kd_clean r) kds). kd_modulus r \<noteq> 0 \<and> (\<forall>v\<in>set (kd_residues r). v < kd_modulus r)"
    using each len by (fastforce simp: discovers_def in_set_conv_nth)
  have "filter (\<lambda>img. \<not> image_clean data c (M img)) [0..<k] \<noteq> []"
    using run_dirty [OF f start] t by (auto simp: start_state_def)
  then obtain i where i: "i < k" "\<not> image_clean data c (M i)" by (auto simp: filter_empty_conv)
  then have "kds ! i \<in> set kds" "\<not> kd_clean (kds ! i)" using each [of i] len by (simp_all add: discovers_def)
  then have ne: "filter (\<lambda>r. \<not> kd_clean r) kds \<noteq> []" by (auto simp: filter_empty_conv)
  have "s \<in> set (seeds_of kds) \<longleftrightarrow> (\<forall>img\<in>set [0..<k]. seed_restores data c (M img) s)" for s
  proof -
    have "s \<in> set (seeds_of kds) \<longleftrightarrow> (\<forall>i<k. \<not> kd_clean (kds ! i) \<longrightarrow> s mod kd_modulus (kds ! i) \<in> set (kd_residues (kds ! i)))"
      using dirty_constraints(1) [OF good ne] len by (auto simp: all_set_conv_all_nth)
    also have "\<dots> \<longleftrightarrow> (\<forall>i<k. seed_restores data c (M i) s)"
      using each unfolding discovers_def by (metis seed_restores_def)
    finally show ?thesis by auto
  qed
  then show ?thesis using kds dirty_constraints(2) [OF good] run_seed [OF f start] by blast
qed

end

interpretation fixed_discoverer: seed_discoverer data "fixed_column ft" "ft_method_count ft" "fixed_methods data ft" "restore_image data ft"
    "image_discovery data ft" for data ft
  by unfold_locales (rule fixed_discovery)

interpretation v39_discoverer: seed_discoverer data "v39_column l" "l39_method_count l" "v39_methods data l" "v39_restore_image data l"
    "v39_image_discovery data l" for data l
  by unfold_locales (rule v39_discovery)


lemma v39_count: "parse_v39 data = Ok l \<Longrightarrow> l39_method_count l \<le> 0xFFFFFFFF"
  using unat_u32_le by (auto simp: parse_v39_def res_conv Let_def v39_section_def)

lemma fixed_count:
  assumes "read_tables data layout = Ok ft"
  shows "ft_method_count ft \<le> 0xFFFFFFFF"
proof -
  have "ft_method_count ft = unat (word_at data (MT_HDR_METHODS + 4)) div mr_stride (fl_method layout)"
    using assms by (auto simp: read_tables_def res_conv mt_table_def split: if_splits)
  then show ?thesis using le_trans [OF div_le_dividend unat_u32_le] by simp
qed

lemma remdups_adj_strict: "sorted xs \<Longrightarrow> sorted_wrt (<) (remdups_adj (xs :: 'a::linorder list))"
  by (induction xs rule: remdups_adj.induct) (auto simp: less_le)

lemma candidates_sorted: "sorted_wrt (<) (remdups_adj (sort xs))" for xs :: "u32 list"
  by (simp add: remdups_adj_strict)

text \<open>C27. Whenever some seed restores a file that needed it, the discovery succeeds and lists, in increasing order
  and without repetition, exactly the seeds under which the restoration succeeds; each of them yields the same
  file. For version 39 this holds unless the list is empty, as it is when every image is small.\<close>

lemma discover_seeds_exact:
  assumes "restore_method_tokens data seed = Ok (out, rp)" and "0 < mt_transformed rp"
  shows "\<exists>r. discover_method_token_seeds data = Ok r \<and> sorted_wrt (<) (sd_candidates r)
    \<and> (sd_candidates r \<noteq> [] \<or> mt_version rp \<noteq> SUPPORTED_V39 \<longrightarrow>
         (\<forall>s. s \<in> set (sd_candidates r) \<longleftrightarrow> (\<exists>rp'. restore_method_tokens data s = Ok (out, rp'))))"
proof -
  have magic: "mt_read_u32 data 0 = Ok MAGIC" using assms(1) by (auto simp: restore_method_tokens_def split: if_splits)
  obtain version where v: "mt_read_u32 data 4 = Ok version"
    and run: "(if version = SUPPORTED_V39 then restore_v39 data seed
        else case fixed_layout_of version of None \<Rightarrow> Err (UnsupportedVersion version)
             | Some layout \<Rightarrow> restore_fixed data version layout seed) = Ok (out, rp)"
    using assms(1) magic by (auto simp: restore_method_tokens_def rbind_Ok_conv)
  show ?thesis
  proof (cases "version = SUPPORTED_V39")
    case True
    then obtain l rs where l: "parse_v39 data = Ok l"
      and f: "foldM (v39_restore_image data l seed) [0..<l39_image_count l] (start_state (l39_method_count l) data) = Ok rs"
      and own: "0xFFFFFFFF \<notin> set (rs_owners rs)" "rs_visited rs = l39_method_count l" "rs_correct rs = l39_method_count l"
      and o: "out = rs_output rs" "mt_transformed rp = rs_transformed rs" "mt_version rp = version"
      using run by (auto simp: restore_v39_def rbind_Ok_conv start_state_def v39_report_def split: if_splits)
    have t: "0 < rs_transformed rs" using assms(2) o by simp
    obtain kds where kds: "mapM (v39_image_discovery data l) [0..<l39_image_count l] = Ok kds" "v39_seeds_of kds \<noteq> [] \<longrightarrow> v39_seeds_of kds = seeds_of kds"
      and s: "\<forall>s. s \<in> set (seeds_of kds)
          \<longleftrightarrow> foldM (v39_restore_image data l s) [0..<l39_image_count l] (start_state (l39_method_count l) data) = Ok rs"
      using v39_discoverer.run_seeds [OF f _ v39_count [OF l] t] v39_column_ok [OF l] by blast
    have start: "length (rs_owners (start_state (l39_method_count l) data)) = l39_method_count l"
      "set [0..<l39_image_count l] \<subseteq> {..<0xFFFFFFFF}"
      using v39_column_ok [OF l] by (auto simp: start_state_def)
    have "(\<exists>rp'. restore_method_tokens data s = Ok (out, rp')) \<longleftrightarrow> s \<in> set (seeds_of kds)" for s
    proof -
      have "foldM (v39_restore_image data l s) [0..<l39_image_count l] (start_state (l39_method_count l) data) = Ok rs' \<Longrightarrow> rs' = rs" for rs'
        using v39_seeded.run_seed [OF f start, of s rs'] by blast
      then show ?thesis using s l own o v magic True
        by (auto simp: restore_method_tokens_def restore_v39_def rbind_Ok_conv start_state_def split: if_splits)
    qed
    then show ?thesis using kds l v magic True o(3) candidates_sorted
      by (auto simp: discover_method_token_seeds_def discover_v39_def)
  next
    case False
    then obtain layout where lay: "fixed_layout_of version = Some layout" and run': "restore_fixed data version layout seed = Ok (out, rp)"
      using run by (auto split: option.splits)
    obtain ft rs where ft: "read_tables data layout = Ok ft"
      and f: "foldM (restore_image data ft seed) [0..<ft_image_count ft] (start_state (ft_method_count ft) data) = Ok rs"
      and own: "0xFFFFFFFF \<notin> set (rs_owners rs)" "rs_visited rs = ft_method_count ft" "rs_correct rs = ft_method_count ft"
      and o: "out = rs_output rs" "mt_transformed rp = rs_transformed rs"
      using run' by (auto simp: restore_fixed_def rbind_Ok_conv start_state_def split: if_splits)
    have t: "0 < rs_transformed rs" using assms(2) o by simp
    obtain kds where kds: "mapM (image_discovery data ft) [0..<ft_image_count ft] = Ok kds"
      and s: "\<forall>s. s \<in> set (seeds_of kds)
          \<longleftrightarrow> foldM (restore_image data ft s) [0..<ft_image_count ft] (start_state (ft_method_count ft) data) = Ok rs"
      using fixed_discoverer.run_seeds [OF f _ fixed_count [OF ft] t] fixed_column_ok [OF lay ft] by blast
    have start: "length (rs_owners (start_state (ft_method_count ft) data)) = ft_method_count ft"
      "set [0..<ft_image_count ft] \<subseteq> {..<0xFFFFFFFF}"
      using fixed_column_ok [OF lay ft] by (auto simp: start_state_def)
    have "(\<exists>rp'. restore_method_tokens data s = Ok (out, rp')) \<longleftrightarrow> s \<in> set (seeds_of kds)" for s
    proof -
      have "foldM (restore_image data ft s) [0..<ft_image_count ft] (start_state (ft_method_count ft) data) = Ok rs' \<Longrightarrow> rs' = rs" for rs'
        using fixed_seeded.run_seed [OF f start, of s rs'] by blast
      then show ?thesis using s ft own o v magic False lay
        by (auto simp: restore_method_tokens_def restore_fixed_def rbind_Ok_conv start_state_def split: if_splits)
    qed
    then show ?thesis using kds ft lay v magic False candidates_sorted
      by (auto simp: discover_method_token_seeds_def discover_fixed_def)
  qed
qed

section \<open>Witnesses\<close>

text \<open>On three rows every seed restores the file, so that the discovery lists all of them.\<close>

lemma discover_seeds_exact_witness:
  "\<exists>r. discover_method_token_seeds permuted_file = Ok r \<and> set (sd_candidates r) = UNIV"
proof -
  obtain rp where rp: "restore_method_tokens permuted_file 0 = Ok (restored_file, rp)" "mt_transformed rp = 1" "mt_version rp = 31"
    using permuted_run [of 0] by blast
  have "mt_version rp \<noteq> SUPPORTED_V39" using rp(3) by (simp add: SUPPORTED_V39_def)
  then show ?thesis using discover_seeds_exact [OF rp(1)] rp(2) permuted_run by fastforce
qed

end
