(* ===== verification/MethodTokenSafety.thy ===== *)
theory MethodTokenSafety
  imports SeedDiscoveryProps
begin

unbundle bit_operations_syntax

text \<open>
  Neither the seeded restoration nor the discovery of seeds panics: every slice and index is inside the file or
  the vectors of the code, whose lengths are invariants of the loops.
\<close>

section \<open>No panic\<close>

lemma mt_safe [simp]:
  "ok_with (\<lambda>_. True) (mt_bytes data off len)" "ok_with (\<lambda>_. True) (mt_read_u16 data off)"
  "ok_with (\<lambda>_. True) (mt_read_u32 data off)" "ok_with (\<lambda>_. True) (mt_read_i32 data off)"
  "ok_with (\<lambda>_. True) (mt_table data off)" "ok_with (\<lambda>_. True) (usize_of_i32 msg w)"
  by (auto simp: mt_bytes_def mt_read_u16_def mt_read_u32_def mt_read_i32_def mt_table_def usize_of_i32_def
      intro!: ok_with_rbind [where Q = "\<lambda>_. True"])

lemma min_max_safe [simp]: "ok_with (\<lambda>_. True) (min_or e xs)" "ok_with (\<lambda>_. True) (max_or e xs)"
  by (simp_all add: min_or_def max_or_def)

lemmas safe_steps = ok_with_rbind [where Q = "\<lambda>_. True"] ok_with_guard

lemma decrypt_safe [simp]: "ok_with (\<lambda>_. True) (decrypt_rid rid low high seed)"
  unfolding decrypt_rid_def Let_def by (intro safe_steps) simp_all

lemma tables_safe [simp]: "ok_with (\<lambda>_. True) (read_tables data layout)"
  unfolding read_tables_def split_beta by (intro safe_steps) simp_all

lemma ranges_safe [simp]:
  "ok_with (\<lambda>_. True) (image_type_range data ft img)" "ok_with (\<lambda>_. True) (type_method_range msg data ft t)"
  unfolding image_type_range_def type_method_range_def Let_def by (auto intro!: safe_steps)

lemma restore_entries_safe:
  assumes "\<forall>(off, token, expected)\<in>set es. off + 4 \<le> n" and "length (fst st) = n"
  shows "ok_with (\<lambda>st. length (fst st) = n) (foldM (restore_entry low high seed) es st)"
proof (rule ok_with_foldM)
  fix e and s :: "bytes \<times> nat \<times> nat" assume e: "e \<in> set es" and s: "length (fst s) = n"
  obtain off token expected where e': "e = (off, token, expected)" by (cases e)
  have "off + 4 \<le> n" using assms(1) e e' by auto
  then show "ok_with (\<lambda>st. length (fst st) = n) (restore_entry low high seed e s)"
    using s unfolding e' restore_entry_def Let_def split_beta
    by (intro safe_steps) (simp_all add: put_in length_patch)
qed (rule assms(2))


lemma v39_restore_entries_safe:
  assumes "\<forall>(off, token, expected)\<in>set es. off + 4 \<le> n" and "length (fst st) = n"
  shows "ok_with (\<lambda>st. length (fst st) = n) (foldM (v39_restore_entry low high seed) es st)"
proof (rule ok_with_foldM)
  fix e and s :: "bytes \<times> nat \<times> nat" assume e: "e \<in> set es" and s: "length (fst s) = n"
  obtain off token expected where e': "e = (off, token, expected)" by (cases e)
  have "off + 4 \<le> n" using assms(1) e e' by auto
  then show "ok_with (\<lambda>st. length (fst st) = n) (v39_restore_entry low high seed e s)"
    using s unfolding e' v39_restore_entry_def Let_def split_beta
    by (intro safe_steps) (simp_all add: put_in length_patch)
qed (rule assms(2))

text \<open>The entries read are inside the file.\<close>

context token_reader
begin

lemma read_inside:
  assumes "foldM (read base) ms ([], a, cl) = Ok (ts, a', cl')"
  shows "\<forall>(off, token, expected)\<in>set ts. off + 4 \<le> length data"
  using read_all [OF assms] by (auto simp: entry_of_def entry_good_def)

end

lemma own_image_safe:
  "length ow = ft_method_count ft \<Longrightarrow> ok_with (\<lambda>st. length (fst st) = ft_method_count ft) (own_image data ft img ow)"
proof -
  assume l: "length ow = ft_method_count ft"
  let ?P = "\<lambda>st. length (fst st) = ft_method_count ft"
  have m: "ok_with ?P (own_method img m st)" if "?P st" for m and st :: "u32 list \<times> nat list"
    using that by (simp add: own_method_def split_beta)
  have t: "ok_with ?P (own_type data ft img t st)" if "?P st" for t and st :: "u32 list \<times> nat list"
    unfolding own_type_def
  proof (rule ok_with_rbind [where Q = "\<lambda>_. True"])
    fix r show "ok_with ?P (case r of None \<Rightarrow> Ok st | Some (a, b) \<Rightarrow> foldM (own_method img) [a..<b] st)"
      using that m by (auto split: option.split intro!: ok_with_foldM)
  qed simp
  show ?thesis unfolding own_image_def split_beta
    using l t by (intro safe_steps ok_with_foldM) auto
qed

lemma read_entries_safe:
  "ok_with (\<lambda>_. True) (foldM (read_entry data ft base) ms st)" "ok_with (\<lambda>_. True) (foldM (v39_read_entry data l base) ms st)"
  unfolding read_entry_def v39_read_entry_def Let_def split_beta
  by (intro ok_with_foldM safe_steps TrueI; simp)+

definition run_lengths :: "nat \<Rightarrow> nat \<Rightarrow> restore_state \<Rightarrow> bool" where
  "run_lengths n len rs \<longleftrightarrow> length (rs_owners rs) = n \<and> length (rs_output rs) = len"

lemma ok_with_if: "(c \<Longrightarrow> ok_with P r) \<Longrightarrow> (\<not> c \<Longrightarrow> ok_with P r') \<Longrightarrow> ok_with P (if c then r else r')"
  by simp

lemma restore_image_safe:
  assumes "run_lengths (ft_method_count ft) (length data) rs"
  shows "ok_with (run_lengths (ft_method_count ft) (length data)) (restore_image data ft seed img rs)"
proof -
  have l: "length (rs_owners rs) = ft_method_count ft" "length (rs_output rs) = length data" using assms by (simp_all add: run_lengths_def)
  have entries: "ok_with (\<lambda>st. length (fst st) = length data) (foldM (restore_entry low high seed) (fst x) (rs_output rs, ch, co))"
    if "foldM (read_entry data ft base) ms ([], a, True) = Ok x" for base ms a x low high ch co
    using that fixed.read_inside [of data ft base ms a True "fst x" "fst (snd x)" "snd (snd x)"] l
    by (intro restore_entries_safe) simp_all
  show ?thesis
    unfolding restore_image_def split_beta Let_def
    by (intro ok_with_rbind [OF own_image_safe [OF l(1)]] ok_with_if ok_with_rbind [OF read_entries_safe(1)] ok_with_rbind [OF entries]
        ok_with_rbind [where Q = "\<lambda>_. True"])
      (simp_all add: run_lengths_def l block_base_def safe_steps)
qed

lemma block_safe [simp]: "ok_with (\<lambda>_. True) (block_base ms)" "ok_with (\<lambda>_. True) (v39_block_base ms)"
  by (simp_all add: block_base_def v39_block_base_def safe_steps)

lemma section_safe [simp]:
  "ok_with (\<lambda>_. True) (v39_section data k)" "ok_with (\<lambda>_. True) (table_entry msg base i stride)"
  by (simp_all add: v39_section_def table_entry_def safe_steps)

lemma idx_window: "mt_bytes data off n = Ok b \<Longrightarrow> length b = n"
  by (auto simp: mt_bytes_def res_conv ranges)

lemma index_safe [simp]: "ok_with (\<lambda>_. True) (read_v39_index data off width)"
  unfolding read_v39_index_def
  by (intro ok_with_if ok_with_rbind [OF mt_safe(1)] safe_steps) (auto dest: idx_window simp: idx_in)

lemma parse_v39_safe [simp]: "ok_with (\<lambda>_. True) (parse_v39 data)"
  unfolding parse_v39_def split_beta Let_def by (intro safe_steps) simp_all

lemma v39_image_methods_safe:
  "ok_with (\<lambda>ms. set ms \<subseteq> {..<l39_method_count l}) (v39_image_methods data l img)"
proof -
  have "ok_with (\<lambda>ms. set ms \<subseteq> {..<l39_method_count l}) (v39_type_methods data l t ms)" if "set ms \<subseteq> {..<l39_method_count l}" for t ms
    using that unfolding v39_type_methods_def
    by (intro safe_steps ok_with_if) (auto simp: res_conv)
  then show ?thesis unfolding v39_image_methods_def
    by (intro safe_steps ok_with_foldM) auto
qed

lemma v39_own_safe:
  "length ow = n \<Longrightarrow> set ms \<subseteq> {..<n} \<Longrightarrow> ok_with (\<lambda>ow. length ow = n) (foldM (v39_own_method img) ms ow)"
  by (rule ok_with_foldM) (auto simp: v39_own_method_def idx_in set_at_in)

lemma v39_restore_image_safe:
  assumes "run_lengths (l39_method_count l) (length data) rs"
  shows "ok_with (run_lengths (l39_method_count l) (length data)) (v39_restore_image data l seed img rs)"
proof -
  have len: "length (rs_owners rs) = l39_method_count l" "length (rs_output rs) = length data" using assms by (simp_all add: run_lengths_def)
  have entries: "ok_with (\<lambda>st. length (fst st) = length data) (foldM (v39_restore_entry low high seed) (fst x) (rs_output rs, ch, co))"
    if "foldM (v39_read_entry data l base) ms ([], a, True) = Ok x" for base ms a x low high ch co
    using that v39.read_inside [of data l base ms a True "fst x" "fst (snd x)" "snd (snd x)"] len
    by (intro v39_restore_entries_safe) simp_all
  have some: "fst x \<noteq> []"
    if "foldM (v39_read_entry data l base) ms ([], a, True) = Ok x" "ms \<noteq> []" for base ms a x
    using that v39.read_all [of data l base ms "[]" a True "fst x" "fst (snd x)" "snd (snd x)"] by simp
  show ?thesis
    unfolding v39_restore_image_def split_beta Let_def
    by (intro ok_with_rbind [OF v39_image_methods_safe] ok_with_if ok_with_rbind [OF read_entries_safe(2)] ok_with_rbind [OF entries]
        ok_with_rbind [OF v39_own_safe [OF len(1)]] ok_with_rbind [where Q = "\<lambda>_. True" and r = "v39_block_base _"])
      (simp_all add: run_lengths_def len some)
qed

section \<open>Discovery\<close>

lemma mapM_safe: "(\<And>x. x \<in> set xs \<Longrightarrow> ok_with (\<lambda>_. True) (f x)) \<Longrightarrow> ok_with (\<lambda>ys. length ys = length xs) (mapM f xs)"
  by (induction xs) (auto intro!: safe_steps ok_with_rbind [where Q = "\<lambda>ys. length ys = length _"])

lemma values_safe [simp]:
  "ok_with (\<lambda>_. True) (read_value data ft base m)" "ok_with (\<lambda>_. True) (v39_read_value data l base m)"
  unfolding read_value_def v39_read_value_def by (intro safe_steps; simp)+

lemma image_discovery_safe [simp]: "ok_with (\<lambda>_. True) (image_discovery data ft img)"
proof -
  have "ok_with (\<lambda>_. True) (foldM (collect_type data ft) ts ms)" for ts ms
    unfolding collect_type_def by (intro ok_with_foldM safe_steps) (auto split: option.split)
  moreover have "ok_with (\<lambda>_. True) (discovery_base ms)" for ms by (simp add: discovery_base_def safe_steps)
  ultimately show ?thesis
    unfolding image_discovery_def split_beta Let_def
    by (intro safe_steps ok_with_if ok_with_rbind [OF mapM_safe]) simp_all
qed

lemma v39_image_discovery_safe [simp]: "ok_with (\<lambda>_. True) (v39_image_discovery data l img)"
  unfolding v39_image_discovery_def split_beta Let_def
  by (intro safe_steps ok_with_rbind [OF v39_image_methods_safe] ok_with_if ok_with_rbind [OF mapM_safe]) simp_all

text \<open>C28. Neither the restoration nor the discovery panics on any input, under any seed: the indices and slices they
  use stay inside the file and their own vectors, and an image with methods has a least and a greatest row.\<close>

lemma method_tokens_no_panic: "restore_method_tokens data seed \<noteq> Panic \<and> discover_method_token_seeds data \<noteq> Panic"
proof -
  have "ok_with (\<lambda>_. True) (restore_fixed data version layout seed)" for version layout
    unfolding restore_fixed_def
    by (intro safe_steps tables_safe ok_with_rbind [OF ok_with_foldM [OF _ restore_image_safe]]) (simp_all add: run_lengths_def)
  moreover have "ok_with (\<lambda>_. True) (restore_v39 data seed)"
    unfolding restore_v39_def
    by (intro safe_steps parse_v39_safe ok_with_rbind [OF ok_with_foldM [OF _ v39_restore_image_safe]]) (simp_all add: run_lengths_def)
  ultimately have "ok_with (\<lambda>_. True) (restore_method_tokens data seed)"
    unfolding restore_method_tokens_def by (intro safe_steps ok_with_if) (auto split: option.split)
  moreover have "ok_with (\<lambda>_. True) (discover_fixed data version layout)" "ok_with (\<lambda>_. True) (discover_v39 data)" for version layout
    unfolding discover_fixed_def discover_v39_def
    by (intro safe_steps tables_safe parse_v39_safe ok_with_rbind [OF mapM_safe]; simp)+
  then have "ok_with (\<lambda>_. True) (discover_method_token_seeds data)"
    unfolding discover_method_token_seeds_def by (intro safe_steps ok_with_if) (auto split: option.split)
  ultimately show ?thesis by (auto dest: ok_with_not_Panic)
qed

end
