(* ===== verification/Embedded.thy ===== *)
theory Embedded
  imports Columns Keystream
begin

unbundle bit_operations_syntax

text \<open>
  \<^verbatim>\<open>senbei-metadata/src/android/embedded.rs\<close>: the search for the wrapped metadata in a restored image and its
  unwrapping, word by word, under the keys of the header words and of the segments.
\<close>

section \<open>Unwrapping\<close>

definition STANDARD_MAGIC :: u32 where "STANDARD_MAGIC = 0xfab11baf"
definition STANDARD_VERSION :: u32 where "STANDARD_VERSION = 24"
definition PROBE_WORDS :: "u32 list" where "PROBE_WORDS = [0x9732ca38, 0xbac4374f]"

definition embedded_metadata_size :: nat where
  "embedded_metadata_size = unat (fst (SEGMENTS ! (length SEGMENTS - 1)))"

text \<open>\<open>None\<close> is the error \<open>()\<close>, and a failed \<open>expect\<close> a panic.\<close>

type_synonym 'a maybe = "('a, unit) res"

function find_from :: "bytes \<Rightarrow> nat \<Rightarrow> nat maybe" where
  "find_from data off =
     (if off + 8 \<le> length data then
        rbind (idx_range data off 4) (\<lambda>b.
          if from_le b XOR HEADER_KEYS ! 0 = PROBE_WORDS ! 0 then
            rbind (idx_range data (off + 4) 4) (\<lambda>b'.
              if from_le b' XOR HEADER_KEYS ! 1 = PROBE_WORDS ! 1 then Ok off else find_from data (off + 4))
          else find_from data (off + 4))
      else Err ())"
  by pat_completeness auto
termination by (relation "measure (\<lambda>(data, off). length data - off)") auto

declare find_from.simps [simp del]

definition find_wrapped_header :: "bytes \<Rightarrow> nat maybe" where
  "find_wrapped_header data = find_from data 0"

definition xor_word :: "bytes \<Rightarrow> nat \<Rightarrow> u32 \<Rightarrow> bytes maybe" where
  "xor_word data off key = rbind (idx_range data off 4) (\<lambda>b. put data off (to_le 4 (from_le b XOR key)))"

function xor_run :: "nat \<Rightarrow> u32 \<Rightarrow> nat \<Rightarrow> bytes \<Rightarrow> bytes maybe" where
  "xor_run stop key off data =
     (if off + 4 \<le> stop then rbind (xor_word data off key) (xor_run stop key (off + 4)) else Ok data)"
  by pat_completeness auto
termination by (relation "measure (\<lambda>(stop, key, off, data). stop - off)") auto

declare xor_run.simps [simp del]

definition xor_header :: "nat \<times> u32 \<Rightarrow> bytes \<Rightarrow> bytes maybe" where
  "xor_header e data = xor_word data (4 * fst e) (snd e)"

definition xor_segment :: "u32 \<times> u32 \<Rightarrow> bytes \<times> nat \<Rightarrow> (bytes \<times> nat) maybe" where
  "xor_segment s st =
     (let (data, pos) = st; stop = unat (fst s) in
      rbind (xor_run stop (snd s) pos data) (\<lambda>data'. Ok (data', stop)))"

definition extract_embedded_metadata :: "bytes \<Rightarrow> bytes maybe" where
  "extract_embedded_metadata img =
     rbind (find_wrapped_header img) (\<lambda>off.
     rbind (ok_or () (Option.bind (chk_add off embedded_metadata_size) (\<lambda>_. get_range img off embedded_metadata_size))) (\<lambda>blob.
     rbind (foldM xor_header (enumerate 0 HEADER_KEYS) blob) (\<lambda>out.
     rbind (foldM xor_segment SEGMENTS (out, 0x100)) (\<lambda>(out, _).
     rbind (put out 0 (to_le 4 STANDARD_MAGIC)) (\<lambda>out.
       put out 4 (to_le 4 STANDARD_VERSION))))))"

section \<open>The keystream\<close>

text \<open>The key of the word at a word index: of the header, or of the first segment that ends behind the word.\<close>

fun segment_key :: "(u32 \<times> u32) list \<Rightarrow> nat \<Rightarrow> u32" where
  "segment_key [] j = 0"
| "segment_key ((stop, key) # ss) j = (if 4 * j < unat stop then key else segment_key ss j)"

definition key_at :: "nat \<Rightarrow> u32" where
  "key_at j = (if j < 64 then HEADER_KEYS ! j else segment_key SEGMENTS j)"

definition probe_at :: "bytes \<Rightarrow> nat \<Rightarrow> bool" where
  "probe_at img j \<longleftrightarrow> 4 * j + 8 \<le> length img \<and> word_at img (4 * j) XOR key_at 0 = PROBE_WORDS ! 0
     \<and> word_at img (4 * j + 4) XOR key_at 1 = PROBE_WORDS ! 1"

definition words_mapped :: "(nat \<Rightarrow> u32) \<Rightarrow> bytes \<Rightarrow> bytes \<Rightarrow> bool" where
  "words_mapped f data out \<longleftrightarrow> length out = length data
     \<and> (\<forall>j. 4 * j + 4 \<le> length data \<longrightarrow> word_at out (4 * j) = word_at data (4 * j) XOR f j)"

lemma word_at_patch:
  assumes "4 * i + 4 \<le> length data" "4 * j + 4 \<le> length data"
  shows "word_at (patch data (4 * i) (to_le 4 w)) (4 * j) = (if j = i then w else word_at data (4 * j))"
proof (cases "j = i")
  case True
  then show ?thesis using assms by (simp add: word_at_def window_patch_same from_le_to_le)
next
  case False
  then have "4 * j + 4 \<le> 4 * i \<or> 4 * i + length (to_le 4 w) \<le> 4 * j" by auto
  then show ?thesis using False assms by (auto simp: word_at_def window_patch_disjoint)
qed

lemma xor_word_Ok:
  assumes "4 * i + 4 \<le> length data"
  shows "\<exists>out. xor_word data (4 * i) key = Ok out \<and> words_mapped (\<lambda>j. if j = i then key else 0) data out"
proof -
  have "xor_word data (4 * i) key = Ok (patch data (4 * i) (to_le 4 (word_at data (4 * i) XOR key)))"
    using assms by (simp add: xor_word_def idx_range_in put_in word_at_def)
  then show ?thesis using assms by (simp add: words_mapped_def word_at_patch length_patch)
qed

lemma words_mapped_trans:
  "words_mapped f data out \<Longrightarrow> words_mapped g out out' \<Longrightarrow> (\<And>j. 4 * j + 4 \<le> length data \<Longrightarrow> h j = f j XOR g j) \<Longrightarrow> words_mapped h data out'"
  by (simp add: words_mapped_def xor.assoc)

lemma xor_run_Ok:
  "stop \<le> length data \<Longrightarrow> 4 dvd off \<Longrightarrow> 4 dvd stop \<Longrightarrow>
   \<exists>out. xor_run stop key off data = Ok out \<and> words_mapped (\<lambda>j. if off \<le> 4 * j \<and> 4 * j < stop then key else 0) data out"
proof (induction stop key off data rule: xor_run.induct)
  case (1 stop key off data)
  obtain i where i: "off = 4 * i" using 1(3) by blast
  show ?case
  proof (cases "off + 4 \<le> stop")
    case True
    obtain out where out: "xor_word data (4 * i) key = Ok out" "words_mapped (\<lambda>j. if j = i then key else 0) data out"
      using xor_word_Ok [of i data key] True 1(2) i by auto
    have off: "4 dvd off + 4" using 1(3) by simp
    have len: "stop \<le> length out" using out(2) 1(2) by (simp add: words_mapped_def)
    obtain out' where out': "xor_run stop key (off + 4) out = Ok out'"
      "words_mapped (\<lambda>j. if off + 4 \<le> 4 * j \<and> 4 * j < stop then key else 0) out out'"
      using 1(1) [OF True out(1) [folded i] len off 1(4)] by blast
    have "words_mapped (\<lambda>j. if off \<le> 4 * j \<and> 4 * j < stop then key else 0) data out'"
      by (rule words_mapped_trans [OF out(2) out'(2)]) (use True i in auto)
    then show ?thesis using True out(1) out'(1) i by (subst xor_run.simps) simp
  next
    case False
    then have "\<not> (off \<le> 4 * j \<and> 4 * j < stop)" for j using 1(4) i by (auto elim!: dvdE)
    then show ?thesis using False by (subst xor_run.simps) (auto simp: words_mapped_def)
  qed
qed


lemma xor_header_Ok:
  "4 * (n + length ks) \<le> length data \<Longrightarrow>
   \<exists>out. foldM xor_header (enumerate n ks) data = Ok out
     \<and> words_mapped (\<lambda>j. if n \<le> j \<and> j < n + length ks then ks ! (j - n) else 0) data out"
proof (induction ks arbitrary: n data)
  case (Cons k ks)
  obtain out where out: "xor_word data (4 * n) k = Ok out" "words_mapped (\<lambda>j. if j = n then k else 0) data out"
    using xor_word_Ok [of n data k] Cons.prems by auto
  have "4 * (Suc n + length ks) \<le> length out" using Cons.prems out(2) by (simp add: words_mapped_def)
  then obtain out' where out': "foldM xor_header (enumerate (Suc n) ks) out = Ok out'"
    "words_mapped (\<lambda>j. if Suc n \<le> j \<and> j < Suc n + length ks then ks ! (j - Suc n) else 0) out out'"
    using Cons.IH by blast
  have "words_mapped (\<lambda>j. if n \<le> j \<and> j < n + length (k # ks) then (k # ks) ! (j - n) else 0) data out'"
    by (rule words_mapped_trans [OF out(2) out'(2)]) (auto simp: nth_Cons')
  moreover have "xor_header (n, k) data = Ok out" using out(1) by (simp add: xor_header_def)
  ultimately show ?case using out'(1) by auto
qed (auto simp: words_mapped_def)

fun segments_ok :: "(u32 \<times> u32) list \<Rightarrow> nat \<Rightarrow> nat \<Rightarrow> bool" where
  "segments_ok [] pos limit = (pos = limit)"
| "segments_ok ((stop, key) # ss) pos limit = (pos \<le> unat stop \<and> 4 dvd unat stop \<and> segments_ok ss (unat stop) limit)"

lemma segments_ok_le: "segments_ok ss pos limit \<Longrightarrow> pos \<le> limit"
  by (induction ss arbitrary: pos) fastforce+

lemma xor_segments_Ok:
  "segments_ok ss pos (length data) \<Longrightarrow> 4 dvd pos \<Longrightarrow>
   \<exists>out. foldM xor_segment ss (data, pos) = Ok (out, length data)
     \<and> words_mapped (\<lambda>j. if pos \<le> 4 * j then segment_key ss j else 0) data out"
proof (induction ss arbitrary: pos data)
  case (Cons s ss)
  obtain stop key where s: "s = (stop, key)" by fastforce
  let ?stop = "unat stop"
  have ok: "pos \<le> ?stop" "4 dvd ?stop" "segments_ok ss ?stop (length data)" using Cons.prems(1) s by simp_all
  have "?stop \<le> length data" by (rule segments_ok_le [OF ok(3)])
  then obtain out where out: "xor_run ?stop key pos data = Ok out"
    "words_mapped (\<lambda>j. if pos \<le> 4 * j \<and> 4 * j < ?stop then key else 0) data out"
    using xor_run_Ok [OF _ Cons.prems(2) ok(2)] by blast
  have len: "length out = length data" using out(2) by (simp add: words_mapped_def)
  obtain out' where out': "foldM xor_segment ss (out, ?stop) = Ok (out', length data)"
    "words_mapped (\<lambda>j. if ?stop \<le> 4 * j then segment_key ss j else 0) out out'"
    using Cons.IH [OF _ ok(2), of out] ok(3) unfolding len by blast
  have "words_mapped (\<lambda>j. if pos \<le> 4 * j then segment_key (s # ss) j else 0) data out'"
    by (rule words_mapped_trans [OF out(2) out'(2)]) (use ok(1) s in auto)
  moreover have "xor_segment s (data, pos) = Ok (out, ?stop)" using out(1) s by (simp add: xor_segment_def Let_def)
  ultimately show ?case using out'(1) by auto
qed (simp add: words_mapped_def)

lemma tables_ok: "segments_ok SEGMENTS 0x100 embedded_metadata_size" "embedded_metadata_size = 0x2701f30" "length HEADER_KEYS = 64"
  by (simp_all add: SEGMENTS_def embedded_metadata_size_def HEADER_KEYS_def)


section \<open>The search\<close>

lemma find_from_spec:
  "off = 4 * i \<Longrightarrow> \<forall>j<i. \<not> probe_at img j \<Longrightarrow>
   find_from img off = (if \<exists>j. probe_at img j then Ok (4 * (LEAST j. probe_at img j)) else Err ())"
proof (induction img off arbitrary: i rule: find_from.induct)
  case (1 img off)
  have key: "key_at 0 = HEADER_KEYS ! 0" "key_at (Suc 0) = HEADER_KEYS ! Suc 0" by (simp_all add: key_at_def)
  show ?case
  proof (cases "off + 8 \<le> length img")
    case True
    then have probe: "probe_at img i \<longleftrightarrow> word_at img off XOR HEADER_KEYS ! 0 = PROBE_WORDS ! 0
        \<and> word_at img (off + 4) XOR HEADER_KEYS ! 1 = PROBE_WORDS ! 1" using 1(3) by (simp add: probe_at_def key)
    have step: "find_from img off = (if probe_at img i then Ok off else find_from img (off + 4))"
      unfolding probe using True by (subst find_from.simps) (simp add: idx_range_in word_at_def)
    show ?thesis
    proof (cases "probe_at img i")
      case p: True
      then have "(LEAST j. probe_at img j) = i" using 1(4) by (intro Least_equality) (auto simp: not_less [symmetric])
      then show ?thesis using step p 1(3) by auto
    next
      case np: False
      then have "\<forall>j<Suc i. \<not> probe_at img j" using 1(4) by (auto simp: less_Suc_eq)
      moreover have "off + 4 = 4 * Suc i" using 1(3) by simp
      moreover have b: "idx_range img off 4 = Ok (window img off 4)" "idx_range img (off + 4) 4 = Ok (window img (off + 4) 4)"
        using True by (simp_all add: idx_range_in)
      moreover have "find_from img (off + 4)
          = (if \<exists>j. probe_at img j then Ok (4 * (LEAST j. probe_at img j)) else Err ())"
      proof (cases "from_le (window img off 4) XOR HEADER_KEYS ! 0 = PROBE_WORDS ! 0")
        case first: True
        then have second: "\<not> from_le (window img (off + 4) 4) XOR HEADER_KEYS ! 1 = PROBE_WORDS ! 1"
          using np unfolding probe word_at_def by simp
        show ?thesis by (rule 1(1) [OF True b(1) first b(2) second calculation(2) calculation(1)])
      next
        case False
        show ?thesis by (rule 1(2) [OF True b(1) False calculation(2) calculation(1)])
      qed
      ultimately show ?thesis using step np by simp
    qed
  next
    case False
    have "\<not> probe_at img j" for j
    proof (cases "j < i")
      case jf: False
      then have "4 * i \<le> 4 * j" by simp
      then show ?thesis using False 1(3) by (simp add: probe_at_def)
    qed (use 1(4) in simp)
    then show ?thesis using False by (subst find_from.simps) simp
  qed
qed


lemma find_wrapped_header_spec:
  "find_wrapped_header img = (if \<exists>j. probe_at img j then Ok (4 * (LEAST j. probe_at img j)) else Err ())"
  unfolding find_wrapped_header_def using find_from_spec [of 0 0 img] by simp

section \<open>The whole extraction\<close>

definition is_first_probe :: "bytes \<Rightarrow> nat \<Rightarrow> bool" where
  "is_first_probe img j \<longleftrightarrow> probe_at img j \<and> (\<forall>i<j. \<not> probe_at img i)"

lemma first_probe_Least: "is_first_probe img j \<Longrightarrow> (LEAST j. probe_at img j) = j"
  unfolding is_first_probe_def by (intro Least_equality) (auto simp: not_less [symmetric])

lemma keys_at:
  "j < 64 \<Longrightarrow> (if 0 \<le> j \<and> j < 0 + length HEADER_KEYS then HEADER_KEYS ! (j - 0) else 0) XOR (if 0x100 \<le> 4 * j then segment_key SEGMENTS j else 0) = key_at j"
  "\<not> j < 64 \<Longrightarrow> (if 0 \<le> j \<and> j < 0 + length HEADER_KEYS then HEADER_KEYS ! (j - 0) else 0) XOR (if 0x100 \<le> 4 * j then segment_key SEGMENTS j else 0) = key_at j"
  by (simp_all add: key_at_def tables_ok(3))

lemma unwrap_blob:
  assumes "length blob = embedded_metadata_size"
  shows "\<exists>o1 o2 pos. foldM xor_header (enumerate 0 HEADER_KEYS) blob = Ok o1 \<and> foldM xor_segment SEGMENTS (o1, 0x100) = Ok (o2, pos)
    \<and> words_mapped key_at blob o2"
proof -
  obtain o1 where o1: "foldM xor_header (enumerate 0 HEADER_KEYS) blob = Ok o1"
    "words_mapped (\<lambda>j. if 0 \<le> j \<and> j < 0 + length HEADER_KEYS then HEADER_KEYS ! (j - 0) else 0) blob o1"
    using xor_header_Ok [of 0 HEADER_KEYS blob] assms tables_ok(2,3) by auto
  have len: "length o1 = length blob" using o1(2) by (simp add: words_mapped_def)
  have "segments_ok SEGMENTS 0x100 (length o1)" unfolding len assms by (rule tables_ok(1))
  from xor_segments_Ok [OF this] obtain o2 where o2: "foldM xor_segment SEGMENTS (o1, 0x100) = Ok (o2, length o1)"
    "words_mapped (\<lambda>j. if 0x100 \<le> 4 * j then segment_key SEGMENTS j else 0) o1 o2" by auto
  have "words_mapped key_at blob o2" by (rule words_mapped_trans [OF o1(2) o2(2)]) (use keys_at in metis)
  then show ?thesis using o1(1) o2(1) by blast
qed

definition unwrapped :: "bytes \<Rightarrow> nat \<Rightarrow> bytes \<Rightarrow> bool" where
  "unwrapped img j out \<longleftrightarrow> length out = embedded_metadata_size
     \<and> word_at out 0 = STANDARD_MAGIC \<and> word_at out 4 = STANDARD_VERSION
     \<and> (\<forall>i. 2 \<le> i \<and> i < embedded_metadata_size div 4 \<longrightarrow> word_at out (4 * i) = word_at img (4 * j + 4 * i) XOR key_at i)"

lemma extract_at:
  assumes "is_first_probe img j" "4 * j + embedded_metadata_size \<le> length img" "length img < usize_limit"
  shows "\<exists>out. extract_embedded_metadata img = Ok out \<and> unwrapped img j out"
proof -
  let ?n = embedded_metadata_size and ?b = "window img (4 * j) embedded_metadata_size"
  have find: "find_wrapped_header img = Ok (4 * j)"
    using assms(1) first_probe_Least [OF assms(1)] by (auto simp: find_wrapped_header_spec is_first_probe_def)
  have blob: "Option.bind (chk_add (4 * j) ?n) (\<lambda>_. get_range img (4 * j) ?n) = Some ?b"
    using assms(2,3) by (simp add: chk_add_def get_range_def window_def)
  have len: "length ?b = ?n" using assms(2) by (simp add: length_window)
  obtain o1 o2 pos where run: "foldM xor_header (enumerate 0 HEADER_KEYS) ?b = Ok o1" "foldM xor_segment SEGMENTS (o1, 0x100) = Ok (o2, pos)"
    and o2: "words_mapped key_at ?b o2" using unwrap_blob [OF len] by blast
  have len2: "length o2 = ?n" using o2 len by (simp add: words_mapped_def)
  let ?o3 = "patch o2 (4 * 0) (to_le 4 STANDARD_MAGIC)"
  let ?out = "patch ?o3 (4 * 1) (to_le 4 STANDARD_VERSION)"
  have fits: "4 * 0 + 4 \<le> length o2" "4 * 1 + 4 \<le> length ?o3" using len2 tables_ok(2) by (simp_all add: length_patch)
  have "extract_embedded_metadata img = Ok ?out"
    using find blob run fits by (simp add: extract_embedded_metadata_def put_in)
  moreover have "unwrapped img j ?out"
  proof -
    have word: "word_at ?out (4 * i) = (if i = 1 then STANDARD_VERSION else if i = 0 then STANDARD_MAGIC else word_at o2 (4 * i))"
      if "4 * i + 4 \<le> ?n" for i
      using that len2 word_at_patch [of 1 ?o3 i] word_at_patch [of 0 o2 i] fits by (simp add: length_patch)
    have "word_at o2 (4 * i) = word_at img (4 * j + 4 * i) XOR key_at i" if "4 * i + 4 \<le> ?n" for i
      using o2 len that by (simp add: words_mapped_def word_at_def window_window)
    then show ?thesis using word [of 0] word [of 1] word len2 fits tables_ok(2) unfolding unwrapped_def
      by (auto simp: length_patch)
  qed
  ultimately show ?thesis by blast
qed

lemma extract_nowhere:
  assumes "\<And>j. is_first_probe img j \<Longrightarrow> length img < 4 * j + embedded_metadata_size"
  shows "extract_embedded_metadata img = Err ()"
proof (cases "\<exists>j. probe_at img j")
  case True
  let ?j = "LEAST j. probe_at img j"
  have "is_first_probe img ?j" using LeastI_ex [OF True] not_less_Least by (auto simp: is_first_probe_def)
  then have "length img < 4 * ?j + embedded_metadata_size" by (rule assms)
  then have "Option.bind (chk_add (4 * ?j) embedded_metadata_size) (\<lambda>_. get_range img (4 * ?j) embedded_metadata_size) = None"
    by (auto simp: chk_add_def get_range_def)
  then show ?thesis using True by (simp add: extract_embedded_metadata_def find_wrapped_header_spec)
next
  case False
  then show ?thesis by (simp add: extract_embedded_metadata_def find_wrapped_header_spec)
qed

text \<open>C21. The extraction never panics. It returns a file exactly when the first aligned place where the two probe
  words decrypt leaves room for it; then every word of the file is the word of the image under the key of its
  place in the header or in its segment, but for the first two, which are the standard magic and version.\<close>

lemma extract_embedded_metadata_unwraps:
  assumes "length img < usize_limit"
  shows "case extract_embedded_metadata img of
           Ok out \<Rightarrow> \<exists>j. is_first_probe img j \<and> 4 * j + embedded_metadata_size \<le> length img \<and> unwrapped img j out
         | Err e \<Rightarrow> \<forall>j. is_first_probe img j \<longrightarrow> length img < 4 * j + embedded_metadata_size
         | Panic \<Rightarrow> False"
proof (cases "\<exists>j. is_first_probe img j \<and> 4 * j + embedded_metadata_size \<le> length img")
  case True
  then obtain j where j: "is_first_probe img j" "4 * j + embedded_metadata_size \<le> length img" by blast
  from extract_at [OF this assms] show ?thesis using j by auto
next
  case False
  then have "\<And>j. is_first_probe img j \<Longrightarrow> length img < 4 * j + embedded_metadata_size" by (auto simp: not_le [symmetric])
  moreover from this have "extract_embedded_metadata img = Err ()" by (rule extract_nowhere)
  ultimately show ?thesis by simp
qed

section \<open>Witness\<close>

definition probe_image :: bytes where
  "probe_image = to_le 4 (0x9732ca38 XOR HEADER_KEYS ! 0) @ to_le 4 (0xbac4374f XOR HEADER_KEYS ! 1) @ replicate 0x2701f28 0"

lemma probe_image_length: "length probe_image = 0x2701f30"
  by (simp add: probe_image_def)

lemma probe_image_first: "is_first_probe probe_image 0"
proof -
  have "window probe_image 0 4 = to_le 4 (0x9732ca38 XOR HEADER_KEYS ! 0)"
    "window probe_image 4 4 = to_le 4 (0xbac4374f XOR HEADER_KEYS ! 1)"
    by (simp_all add: probe_image_def window_def)
  then show ?thesis
    by (simp add: is_first_probe_def probe_at_def probe_image_length word_at_def from_le_to_le key_at_def PROBE_WORDS_def)
qed

lemma extract_embedded_metadata_unwraps_witness:
  "\<exists>out. extract_embedded_metadata probe_image = Ok out \<and> unwrapped probe_image 0 out"
proof -
  have "length probe_image < usize_limit" by (simp add: probe_image_length usize_limit_def)
  note ex = extract_embedded_metadata_unwraps [OF this]
  have first: "is_first_probe probe_image j \<longleftrightarrow> j = 0" for j
    using probe_image_first by (auto simp: is_first_probe_def intro: ccontr)
  show ?thesis using ex
    by (cases "extract_embedded_metadata probe_image") (auto simp: first probe_image_length tables_ok(2))
qed

end
