(* ===== verification/Limits.thy ===== *)
theory Limits
  imports Protector
begin

text \<open>
  \<^verbatim>\<open>senbei-engine/src/android/limits.rs\<close>: the resource ceilings of a task and its two budgets. A budget is threaded
  through a task; a rejected charge leaves it as it was, so that the caller may go on with it.
\<close>

section \<open>Ceilings\<close>

definition DEFAULT_MAX_ENTRY_BYTES :: u64 where "DEFAULT_MAX_ENTRY_BYTES = push_bit 30 2"
definition DEFAULT_MAX_TOTAL_BYTES :: u64 where "DEFAULT_MAX_TOTAL_BYTES = push_bit 30 8"
definition DEFAULT_MAX_ENTRIES :: nat where "DEFAULT_MAX_ENTRIES = 100000"
definition DEFAULT_MAX_DEPTH :: nat where "DEFAULT_MAX_DEPTH = 32"

record resource_limits =
  max_entry_bytes :: u64
  max_total_bytes :: u64
  max_entries :: nat
  max_depth :: nat

definition default_limits :: resource_limits where
  "default_limits = \<lparr>max_entry_bytes = DEFAULT_MAX_ENTRY_BYTES, max_total_bytes = DEFAULT_MAX_TOTAL_BYTES,
     max_entries = DEFAULT_MAX_ENTRIES, max_depth = DEFAULT_MAX_DEPTH\<rparr>"

text \<open>The values are the requested amount, for the total also the added amount, and the ceiling.\<close>

datatype limit_exceeded = EntryLimit u64 u64 | TotalLimit u64 u64 u64 | EntriesLimit nat nat | DepthLimit nat nat

type_synonym checked = "(unit, limit_exceeded) res"

definition output_limit_of :: "resource_limits \<Rightarrow> output_limit" where
  "output_limit_of l = \<lparr>max_output_bytes = max_entry_bytes l\<rparr>"

definition check_entry_bytes :: "resource_limits \<Rightarrow> u64 \<Rightarrow> checked" where
  "check_entry_bytes l n = (if max_entry_bytes l < n then Err (EntryLimit n (max_entry_bytes l)) else Ok ())"

definition check_entries :: "resource_limits \<Rightarrow> nat \<Rightarrow> checked" where
  "check_entries l n = (if max_entries l < n then Err (EntriesLimit n (max_entries l)) else Ok ())"

definition check_depth :: "resource_limits \<Rightarrow> nat \<Rightarrow> checked" where
  "check_depth l n = (if max_depth l < n then Err (DepthLimit n (max_depth l)) else Ok ())"

section \<open>The byte budget\<close>

record byte_budget =
  bb_limits :: resource_limits
  bb_used :: u64

definition new_byte_budget :: "resource_limits \<Rightarrow> byte_budget" where
  "new_byte_budget l = \<lparr>bb_limits = l, bb_used = 0\<rparr>"

definition check_entry :: "byte_budget \<Rightarrow> u64 \<Rightarrow> checked" where
  "check_entry b n = check_entry_bytes (bb_limits b) n"

text \<open>An operation on \<open>&mut self\<close> returns the budget it leaves next to its result.\<close>

definition charge_total :: "u64 \<Rightarrow> byte_budget \<Rightarrow> byte_budget \<times> checked" where
  "charge_total n b =
     (case Option.bind (chk_add_w (bb_used b) n) (\<lambda>t. if t \<le> max_total_bytes (bb_limits b) then Some t else None) of
        Some t \<Rightarrow> (b\<lparr>bb_used := t\<rparr>, Ok ())
      | None \<Rightarrow> (b, Err (TotalLimit (sat_add_w (bb_used b) n) n (max_total_bytes (bb_limits b)))))"

definition charge :: "u64 \<Rightarrow> byte_budget \<Rightarrow> byte_budget \<times> checked" where
  "charge n b = (case check_entry b n of Ok _ \<Rightarrow> charge_total n b | Err e \<Rightarrow> (b, Err e) | Panic \<Rightarrow> (b, Panic))"

section \<open>The entry budget\<close>

record entry_budget =
  eb_limits :: resource_limits
  eb_used :: nat

definition new_entry_budget :: "resource_limits \<Rightarrow> entry_budget" where
  "new_entry_budget l = \<lparr>eb_limits = l, eb_used = 0\<rparr>"

definition charge_entries :: "nat \<Rightarrow> entry_budget \<Rightarrow> entry_budget \<times> checked" where
  "charge_entries n b =
     (case Option.bind (chk_add (eb_used b) n) (\<lambda>t. if t \<le> max_entries (eb_limits b) then Some t else None) of
        Some t \<Rightarrow> (b\<lparr>eb_used := t\<rparr>, Ok ())
      | None \<Rightarrow> (b, Err (EntriesLimit (min (eb_used b + n) (usize_limit - 1)) (max_entries (eb_limits b)))))"

section \<open>The contract of a budget\<close>

text \<open>A budget whose charges are accepted exactly when the amount is admissible and the sum stays within the
  ceiling, as numbers: nothing wraps.\<close>

locale budget =
  fixes charge_of :: "'a \<Rightarrow> 'b \<Rightarrow> 'b \<times> checked" and amount :: "'a \<Rightarrow> nat" and used :: "'b \<Rightarrow> nat"
    and ceiling :: "'b \<Rightarrow> nat" and admissible :: "'b \<Rightarrow> 'a \<Rightarrow> bool" and valid :: "'b \<Rightarrow> bool"
  assumes accept: "valid b \<Longrightarrow> admissible b a \<Longrightarrow> used b + amount a \<le> ceiling b \<Longrightarrow> \<exists>b'. charge_of a b = (b', Ok ())
      \<and> used b' = used b + amount a \<and> ceiling b' = ceiling b \<and> (\<forall>x. admissible b' x = admissible b x) \<and> valid b'"
    and reject: "valid b \<Longrightarrow> \<not> (admissible b a \<and> used b + amount a \<le> ceiling b) \<Longrightarrow> \<exists>e. charge_of a b = (b, Err e)"
begin

text \<open>The amounts accepted by a run of charges that starts at a sum.\<close>

fun accepted :: "'b \<Rightarrow> nat \<Rightarrow> 'a list \<Rightarrow> 'a list" where
  "accepted b s [] = []"
| "accepted b s (x # xs) = (if admissible b x \<and> s + amount x \<le> ceiling b then x # accepted b (s + amount x) xs else accepted b s xs)"

lemma accepted_cong:
  "ceiling b' = ceiling b \<Longrightarrow> (\<And>x. admissible b' x = admissible b x) \<Longrightarrow> accepted b' s xs = accepted b s xs"
  by (induction xs arbitrary: s) simp_all

lemma run_used:
  "valid b \<Longrightarrow> used (fold (\<lambda>x b. fst (charge_of x b)) xs b) = used b + sum_list (map amount (accepted b (used b) xs))"
proof (induction xs arbitrary: b)
  case (Cons x xs)
  show ?case
  proof (cases "admissible b x \<and> used b + amount x \<le> ceiling b")
    case True
    then obtain b' where b': "charge_of x b = (b', Ok ())" "used b' = used b + amount x" "ceiling b' = ceiling b"
      "\<forall>y. admissible b' y = admissible b y" "valid b'" using accept Cons.prems by blast
    then have "accepted b' (used b') xs = accepted b (used b + amount x) xs" using accepted_cong [of b' b] by simp
    then show ?thesis using True b' Cons.IH [of b'] by simp
  next
    case False
    then show ?thesis using reject [OF Cons.prems False] Cons.IH [OF Cons.prems] by auto
  qed
qed simp

lemma accepted_bound: "s \<le> ceiling b \<Longrightarrow> s + sum_list (map amount (accepted b s xs)) \<le> ceiling b"
  by (induction xs arbitrary: s) (auto simp: add.assoc [symmetric])

lemma charge_exact: "valid b \<Longrightarrow> snd (charge_of a b) = Ok () \<longleftrightarrow> admissible b a \<and> used b + amount a \<le> ceiling b"
  using accept [of b a] reject [of b a] by (cases "admissible b a \<and> used b + amount a \<le> ceiling b") auto

end

lemma charge_total_sum:
  "unat (bb_used b) + unat n \<le> unat (max_total_bytes (bb_limits b)) \<Longrightarrow>
     charge_total n b = (b\<lparr>bb_used := bb_used b + n\<rparr>, Ok ()) \<and> unat (bb_used b + n) = unat (bb_used b) + unat n"
  "unat (max_total_bytes (bb_limits b)) < unat (bb_used b) + unat n \<Longrightarrow> \<exists>e. charge_total n b = (b, Err e)"
proof -
  assume le: "unat (bb_used b) + unat n \<le> unat (max_total_bytes (bb_limits b))"
  then have lim: "unat (bb_used b) + unat n < 2 ^ 64" using unat_bound [of "max_total_bytes (bb_limits b)"] by simp
  then have "unat (bb_used b + n) = unat (bb_used b) + unat n" by (simp add: unat_add_no_wrap)
  then show "charge_total n b = (b\<lparr>bb_used := bb_used b + n\<rparr>, Ok ()) \<and> unat (bb_used b + n) = unat (bb_used b) + unat n"
    using le lim by (simp add: charge_total_def chk_add_w_def word_le_nat_alt)
next
  assume "unat (max_total_bytes (bb_limits b)) < unat (bb_used b) + unat n"
  then show "\<exists>e. charge_total n b = (b, Err e)"
    by (auto simp: charge_total_def chk_add_w_def word_le_nat_alt unat_add_no_wrap split: option.split)
qed

interpretation totals_charged: budget charge_total unat "\<lambda>b. unat (bb_used b)" "\<lambda>b. unat (max_total_bytes (bb_limits b))" "\<lambda>_ _. True" "\<lambda>_. True"
  by unfold_locales (auto simp: not_le dest: charge_total_sum)

interpretation bytes_charged: budget charge unat "\<lambda>b. unat (bb_used b)" "\<lambda>b. unat (max_total_bytes (bb_limits b))"
  "\<lambda>b n. n \<le> max_entry_bytes (bb_limits b)" "\<lambda>_. True"
  by unfold_locales (auto simp: charge_def check_entry_def check_entry_bytes_def not_le dest: charge_total_sum)

text \<open>The counts of entries are bounded by the ceiling, which is a \<open>usize\<close>.\<close>

lemma charge_entries_sum:
  "max_entries (eb_limits b) < usize_limit \<Longrightarrow>
     charge_entries n b = (if eb_used b + n \<le> max_entries (eb_limits b) then (b\<lparr>eb_used := eb_used b + n\<rparr>, Ok ())
       else (b, Err (EntriesLimit (min (eb_used b + n) (usize_limit - 1)) (max_entries (eb_limits b)))))"
  by (auto simp: charge_entries_def chk_add_def)

interpretation entries_charged: budget charge_entries "\<lambda>n. n" eb_used "\<lambda>b. max_entries (eb_limits b)" "\<lambda>_ _. True"
  "\<lambda>b. max_entries (eb_limits b) < usize_limit"
  by unfold_locales (auto simp: charge_entries_sum)

section \<open>Runs of charges\<close>

text \<open>The charges a byte budget accepts, one after another: those within the entry ceiling that keep the sum within
  the total.\<close>

fun accepted_bytes :: "resource_limits \<Rightarrow> nat \<Rightarrow> u64 list \<Rightarrow> u64 list" where
  "accepted_bytes l s [] = []"
| "accepted_bytes l s (n # ns) =
     (if n \<le> max_entry_bytes l \<and> s + unat n \<le> unat (max_total_bytes l) then n # accepted_bytes l (s + unat n) ns
      else accepted_bytes l s ns)"

lemma accepted_bytes_eq: "bytes_charged.accepted b s ns = accepted_bytes (bb_limits b) s ns"
  by (induction ns arbitrary: s) simp_all

definition charged :: "resource_limits \<Rightarrow> u64 list \<Rightarrow> byte_budget" where
  "charged l ns = fold (\<lambda>n b. fst (charge n b)) ns (new_byte_budget l)"

text \<open>After any sequence of charges, accepted or rejected, the budget holds exactly the sum of the accepted
  ones, as a number, and that sum is within the ceiling of the task: the machine word never wraps. The next
  charge is accepted exactly when it is within the ceiling of one entry and keeps the sum within the total.\<close>

lemma byte_budget_exact:
  "unat (bb_used (charged l ns)) = sum_list (map unat (accepted_bytes l 0 ns))
    \<and> unat (bb_used (charged l ns)) \<le> unat (max_total_bytes l)
    \<and> (snd (charge n (charged l ns)) = Ok () \<longleftrightarrow>
        n \<le> max_entry_bytes l \<and> sum_list (map unat (accepted_bytes l 0 ns)) + unat n \<le> unat (max_total_bytes l))"
proof -
  have "bb_limits (fold (\<lambda>n b. fst (charge n b)) ns b) = bb_limits b" for b
    by (induction ns arbitrary: b)
      (simp_all add: charge_def charge_total_def check_entry_def check_entry_bytes_def split: option.split)
  then have lim: "bb_limits (charged l ns) = l" by (simp add: charged_def new_byte_budget_def)
  have used: "unat (bb_used (charged l ns)) = sum_list (map unat (accepted_bytes l 0 ns))"
    using bytes_charged.run_used [where b = "new_byte_budget l" and xs = ns] by (simp add: charged_def accepted_bytes_eq new_byte_budget_def)
  moreover have "sum_list (map unat (accepted_bytes l 0 ns)) \<le> unat (max_total_bytes l)"
    using bytes_charged.accepted_bound [where s = 0 and b = "new_byte_budget l" and xs = ns] by (simp add: accepted_bytes_eq new_byte_budget_def)
  ultimately show ?thesis using bytes_charged.charge_exact [where b = "charged l ns" and a = n] lim by simp
qed

end
