(* ===== verification/Stage1.thy ===== *)
theory Stage1
  imports Streams ElfLayout Limits
begin

unbundle bit_operations_syntax

text \<open>
  \<^verbatim>\<open>senbei-engine/src/android/extract/stage1.rs\<close> and the parser of \<^verbatim>\<open>senbei-elf/src/lib.rs\<close>: the protected section of an
  AArch64 image, the decryption of the Stage 1 header in it, the checks of the ranges that the header declares, and
  the decryption of the payload. The parser of the ELF library is a parameter; what the code reads of its result is
  a record. Messages of errors keep their fixed text.
\<close>

section \<open>The parsed image\<close>

text \<open>The class and data bytes of the identification, the machine, the program headers with their types, the section
  headers, and the lookup in the section name table.\<close>

record elf_view =
  ev_class :: u8
  ev_data :: u8
  ev_machine :: u16
  ev_programs :: "(u32 \<times> load_segment) list"
  ev_sections :: "section_header list"
  ev_name :: "u32 \<Rightarrow> string option"

datatype elf_error = ElfParse | NotElf64 | NotAarch64 | ElfInvalid string

type_synonym elf_parser = "bytes \<Rightarrow> elf_view option"

definition elf_parse :: "elf_parser \<Rightarrow> bytes \<Rightarrow> (elf_view, elf_error) res" where
  "elf_parse goblin data =
     rbind (ok_or ElfParse (goblin data)) (\<lambda>ev. if ev_class ev \<noteq> 2 \<or> ev_data ev \<noteq> 1 then Err NotElf64 else Ok ev)"

definition is_aarch64 :: "elf_parser \<Rightarrow> bytes \<Rightarrow> bool" where
  "is_aarch64 goblin data = (case elf_parse goblin data of Ok ev \<Rightarrow> ev_machine ev = AARCH64_MACHINE | _ \<Rightarrow> False)"

definition load_file_end :: "elf_parser \<Rightarrow> bytes \<Rightarrow> (u64, elf_error) res" where
  "load_file_end goblin data =
     rbind (elf_parse goblin data) (\<lambda>ev.
       Ok (fold max (map (\<lambda>(_, s). sat_add_w (p_offset s) (p_filesz s)) (filter (\<lambda>(ty, _). ty = PT_LOAD) (ev_programs ev))) 0))"

definition SYMBOL_HASH_SECTION_NAMES :: "string list" where "SYMBOL_HASH_SECTION_NAMES = [''.gnu.hash'', ''.hash'']"
definition PROBE_SECTION_NAMES :: "string list" where
  "PROBE_SECTION_NAMES = [''.dynsym'', ''.dynstr'', ''.gnu.version'', ''.gnu.version_r'']"

section \<open>The word cipher\<close>

datatype extract_error = ElfError elf_error | ExtractInvalid string | ExtractLimit limit_exceeded

type_synonym 'a extracted = "('a, extract_error) res"

definition s1_bytes :: "bytes \<Rightarrow> nat \<Rightarrow> nat \<Rightarrow> bytes extracted" where
  "s1_bytes data off n =
     rbind (ok_or (ExtractInvalid ''byte range overflow'') (chk_add off n)) (\<lambda>_.
       ok_or (ExtractInvalid ''byte range is outside the input'') (get_range data off n))"

definition s1_read_u32 :: "bytes \<Rightarrow> nat \<Rightarrow> u32 extracted" where
  "s1_read_u32 data off = rbind (s1_bytes data off 4) (\<lambda>b. Ok (from_le b))"

definition DEFAULT_CIPHER_CONSTANT :: u32 where "DEFAULT_CIPHER_CONSTANT = 0xbf20165d"
definition DEFAULT_OUTER_SIZE :: nat where "DEFAULT_OUTER_SIZE = 0x23c"

definition stage1_step :: "u32 \<Rightarrow> u32 \<Rightarrow> unit step" where
  "stage1_step key constant i s v = ((v + (word_of_nat i + 3) * key) XOR (constant * (word_of_nat i + 1)), s)"

definition decrypt_words :: "bytes \<Rightarrow> u32 \<Rightarrow> u32 \<Rightarrow> bytes extracted" where
  "decrypt_words ct key constant =
     (if length ct mod 4 \<noteq> 0 then Err (ExtractInvalid ''Stage 1 word cipher input is not 4-byte aligned'')
      else if 2 ^ 32 < length ct div 4 then Err (ExtractInvalid ''Stage 1 word index exceeds u32'')
      else Ok (run_region (stage1_step key constant) () 0 (length ct div 4) ct))"

section \<open>The header\<close>

record stage1_header =
  s1_key :: u32
  s1_reserved :: u32
  s1_payload_offset :: u32
  s1_payload_size :: u32
  s1_payload_key :: u32
  s1_entry_offset :: u32
  s1_protect_size :: u32
  s1_size_copy :: u32

definition decrypt_header :: "bytes \<Rightarrow> u32 \<Rightarrow> stage1_header extracted" where
  "decrypt_header raw constant =
     rbind (s1_read_u32 raw 0) (\<lambda>key.
     rbind (idx_range raw 0 0x20) (\<lambda>ct.
     rbind (decrypt_words ct key constant) (\<lambda>decoded0.
     rbind (put decoded0 0 (to_le 4 key)) (\<lambda>decoded.
     rbind (s1_read_u32 decoded 4) (\<lambda>reserved.
     rbind (s1_read_u32 decoded 8) (\<lambda>payload_offset.
     rbind (s1_read_u32 decoded 12) (\<lambda>payload_size.
     rbind (s1_read_u32 decoded 16) (\<lambda>payload_key.
     rbind (s1_read_u32 decoded 20) (\<lambda>entry_offset.
     rbind (s1_read_u32 decoded 24) (\<lambda>protect_size.
     rbind (s1_read_u32 decoded 28) (\<lambda>size_copy.
       Ok \<lparr>s1_key = key, s1_reserved = reserved, s1_payload_offset = payload_offset, s1_payload_size = payload_size,
           s1_payload_key = payload_key, s1_entry_offset = entry_offset, s1_protect_size = protect_size,
           s1_size_copy = size_copy\<rparr>)))))))))))"

record stage1_result =
  s1_section_index :: nat
  s1_section_offset :: nat
  s1_section_size :: nat
  s1_header_offset :: nat
  s1_payload_file_offset :: nat
  s1_remaining_file_offset :: nat
  s1_remaining_size :: nat
  s1_header :: stage1_header
  s1_plaintext :: bytes

section \<open>Inspection\<close>

definition has_section :: "elf_view \<Rightarrow> string \<Rightarrow> bool" where
  "has_section ev wanted \<longleftrightarrow> list_ex (\<lambda>s. ev_name ev (sh_name s) = Some wanted) (ev_sections ev)"

text \<open>The one protected section, in an image with the sections a protected library has.\<close>

definition find_louser :: "elf_view \<Rightarrow> (nat \<times> section_header) extracted" where
  "find_louser ev =
     (if ev_machine ev \<noteq> AARCH64_MACHINE then Err (ExtractInvalid ''expected AArch64 ELF'')
      else
      let matches = filter (\<lambda>(_, s). sh_type s = SHT_LOUSER) (enumerate 0 (ev_sections ev)) in
      if length matches \<noteq> 1 then Err (ExtractInvalid ''expected exactly one SHT_LOUSER section'')
      else if \<not> list_all (has_section ev) PROBE_SECTION_NAMES then Err (ExtractInvalid ''protected ELF lacks required section'')
      else if \<not> list_ex (has_section ev) SYMBOL_HASH_SECTION_NAMES
      then Err (ExtractInvalid ''protected ELF lacks a .gnu.hash or .hash symbol-hash section'')
      else idx matches 0)"

text \<open>The place of the header, and the header.\<close>

definition stage1_place :: "bytes \<Rightarrow> section_header \<Rightarrow> nat \<Rightarrow> u32 \<Rightarrow> (nat \<times> stage1_header) extracted" where
  "stage1_place data s outer_size constant =
     (let section_offset = unat (sh_offset s); section_size = unat (sh_size s) in
      rbind (ok_or (ExtractInvalid ''SHT_LOUSER range overflows usize'') (chk_add section_offset section_size)) (\<lambda>section_end.
      if length data < section_end then Err (ExtractInvalid ''SHT_LOUSER range extends beyond the input file'')
      else if (case chk_add outer_size 0x1000 of None \<Rightarrow> True | Some stop \<Rightarrow> section_size < stop)
      then Err (ExtractInvalid ''Stage 1 outer header leaves no complete parameter area'')
      else
      rbind (ok_or (ExtractInvalid ''Stage 1 header offset overflow'') (chk_add section_offset outer_size)) (\<lambda>header_offset.
      rbind (s1_bytes data header_offset 0x1000) (\<lambda>raw.
      rbind (decrypt_header raw constant) (\<lambda>h. Ok (header_offset, h))))))"

text \<open>The checks of the header against the private part of the section; the result is the end of the payload.\<close>

definition check_stage1_header :: "stage1_header \<Rightarrow> nat \<Rightarrow> u64 option \<Rightarrow> nat extracted" where
  "check_stage1_header h private_size max_payload_bytes =
     (if s1_reserved h \<noteq> 0 then Err (ExtractInvalid ''Stage 1 header reserved word is nonzero'')
      else if s1_size_copy h \<noteq> s1_payload_size h then Err (ExtractInvalid ''Stage 1 payload size copy differs'')
      else
      let payload_offset = unat (s1_payload_offset h); payload_size = unat (s1_payload_size h) in
      rbind (ok_or (ExtractInvalid ''Stage 1 payload range overflow'') (chk_add payload_offset payload_size)) (\<lambda>payload_end.
      if payload_offset < 0x20 \<or> private_size < payload_end then Err (ExtractInvalid ''Stage 1 payload range exceeds private size'')
      else if payload_size = 0 \<or> payload_size mod 4 \<noteq> 0
      then Err (ExtractInvalid ''Stage 1 payload size must be nonzero and word aligned'')
      else
      rbind (case max_payload_bytes of None \<Rightarrow> Ok ()
             | Some limit \<Rightarrow>
                 (case check_entry_bytes (default_limits\<lparr>max_entry_bytes := limit\<rparr>) (word_of_nat payload_size) of
                    Ok u \<Rightarrow> Ok u | Err e \<Rightarrow> Err (ExtractLimit e) | Panic \<Rightarrow> Panic)) (\<lambda>_.
      if payload_size \<le> unat (s1_entry_offset h) then Err (ExtractInvalid ''Stage 1 entry offset is outside the payload'')
      else if payload_size < unat (s1_protect_size h) then Err (ExtractInvalid ''Stage 1 mprotect length exceeds the payload'')
      else Ok payload_end)))"

definition inspect :: "elf_parser \<Rightarrow> bytes \<Rightarrow> nat \<Rightarrow> u32 \<Rightarrow> u64 option \<Rightarrow> stage1_result extracted" where
  "inspect goblin data outer_size constant max_payload_bytes =
     rbind (case elf_parse goblin data of Ok ev \<Rightarrow> Ok ev | Err e \<Rightarrow> Err (ElfError e) | Panic \<Rightarrow> Panic) (\<lambda>ev.
     rbind (find_louser ev) (\<lambda>(section_index, s).
     rbind (stage1_place data s outer_size constant) (\<lambda>(header_offset, h).
     let section_offset = unat (sh_offset s); section_size = unat (sh_size s); private_size = section_size - outer_size in
     rbind (check_stage1_header h private_size max_payload_bytes) (\<lambda>payload_end.
     rbind (ok_or (ExtractInvalid ''Stage 1 payload file offset overflow'') (chk_add header_offset (unat (s1_payload_offset h))))
       (\<lambda>payload_file_offset.
     rbind (s1_bytes data payload_file_offset (unat (s1_payload_size h))) (\<lambda>encrypted.
     rbind (decrypt_words encrypted (s1_payload_key h) constant) (\<lambda>plaintext.
     let remaining = (payload_end + 3) div 4 * 4 in
     if private_size < remaining then Err (ExtractInvalid ''aligned Stage 2 cursor exceeds SHT_LOUSER'')
     else
     rbind (ok_or (ExtractInvalid ''Stage 2 stream offset overflow'')
              (Option.bind (chk_add section_offset outer_size) (\<lambda>v. chk_add v remaining))) (\<lambda>remaining_file_offset.
       Ok \<lparr>s1_section_index = section_index, s1_section_offset = section_offset, s1_section_size = section_size,
           s1_header_offset = header_offset, s1_payload_file_offset = payload_file_offset,
           s1_remaining_file_offset = remaining_file_offset, s1_remaining_size = private_size - remaining,
           s1_header = h, s1_plaintext = plaintext\<rparr>))))))))"

section \<open>The cipher inverts\<close>

definition stage1_enc :: "u32 \<Rightarrow> u32 \<Rightarrow> unit step" where
  "stage1_enc key constant i s p = ((p XOR (constant * (word_of_nat i + 1))) - (word_of_nat i + 3) * key, s)"

interpretation stage1: word_stream "stage1_step key c" "stage1_enc key c" for key c
  by unfold_locales (simp_all add: stage1_step_def stage1_enc_def xor.assoc)

definition stage1_encrypt :: "bytes \<Rightarrow> u32 \<Rightarrow> u32 \<Rightarrow> bytes" where
  "stage1_encrypt plain key constant = run_region (stage1_enc key constant) () 0 (length plain div 4) plain"

lemma length_stage1_encrypt [simp]: "length (stage1_encrypt plain key constant) = length plain"
  by (simp add: stage1_encrypt_def length_run_region)

lemma decrypt_words_encrypt:
  assumes "length plain mod 4 = 0" "length plain div 4 \<le> 2 ^ 32"
  shows "decrypt_words (stage1_encrypt plain key constant) key constant = Ok plain"
proof -
  have "0 + 4 * (length plain div 4) \<le> length plain" by simp
  from stage1.run_region_inverts(1) [OF this] show ?thesis
    using assms by (simp add: decrypt_words_def stage1_encrypt_def length_run_region)
qed

text \<open>The encoding of a header: eight words under the key, the key itself in the place of the first.\<close>

definition header_words :: "stage1_header \<Rightarrow> u32 list" where
  "header_words h = [s1_key h, s1_reserved h, s1_payload_offset h, s1_payload_size h, s1_payload_key h, s1_entry_offset h,
     s1_protect_size h, s1_size_copy h]"

definition encrypt_header :: "stage1_header \<Rightarrow> u32 \<Rightarrow> bytes" where
  "encrypt_header h constant = patch (stage1_encrypt (bytes_of (header_words h)) (s1_key h) constant) 0 (to_le 4 (s1_key h))"

lemma stream_run_append_first:
  "fst (stream_run (stage1_step key constant) i () (v # vs))
    = fst (stage1_step key constant i () v) # fst (stream_run (stage1_step key constant) (Suc i) () vs)"
  by (simp add: case_prod_beta)

lemma decrypt_words_patch_first:
  assumes "4 \<le> length d" "length d mod 4 = 0" "length d div 4 \<le> 2 ^ 32" "decrypt_words d key constant = Ok plain"
  shows "\<exists>plain'. decrypt_words (patch d 0 (to_le 4 w)) key constant = Ok plain' \<and> length plain' = length plain
    \<and> drop 4 plain' = drop 4 plain"
proof -
  obtain n where n: "length d div 4 = Suc n" using assms(1) by (cases "length d div 4") auto
  have len: "length (patch d 0 (to_le 4 w)) = length d" using assms(1) by (simp add: length_patch)
  let ?run = "\<lambda>e. run_region (stage1_step key constant) () 0 (length d div 4) e"
  have fit: "0 + 4 * (length d div 4) \<le> length d" by simp
  have whole: "4 * (length d div 4) = length d" using assms(2) by auto
  have rest: "words_at (patch d 0 (to_le 4 w)) 4 n = words_at d 4 n"
    using assms(1) by (intro words_at_patch_disjoint) simp_all
  have run: "?run e = bytes_of (fst (stream_run (stage1_step key constant) 0 () (words_at e 0 (Suc n))))" if "length e = length d" for e
    using that whole n by (simp add: run_region_def patch_def del: words_at.simps stream_run.simps)
  have tail: "drop 4 (?run e) = bytes_of (fst (stream_run (stage1_step key constant) (Suc 0) () (words_at e 4 n)))"
    if "length e = length d" for e
    unfolding run [OF that] by (simp add: case_prod_beta)
  have "plain = ?run d" using assms by (simp add: decrypt_words_def)
  moreover have "decrypt_words (patch d 0 (to_le 4 w)) key constant = Ok (?run (patch d 0 (to_le 4 w)))"
    using assms(2,3) len by (simp add: decrypt_words_def)
  moreover have "length (?run (patch d 0 (to_le 4 w))) = length d" "length (?run d) = length d"
    using fit len by (simp_all add: length_run_region)
  ultimately show ?thesis using tail [OF len] tail [OF refl] rest by simp
qed

lemma decrypt_header_encrypt:
  assumes "take 0x20 raw = encrypt_header h constant"
  shows "decrypt_header raw constant = Ok h"
proof -
  let ?d = "stage1_encrypt (bytes_of (header_words h)) (s1_key h) constant"
  have len: "length (bytes_of (header_words h)) = 32" by (simp add: header_words_def)
  have "decrypt_words ?d (s1_key h) constant = Ok (bytes_of (header_words h))"
    by (rule decrypt_words_encrypt) (simp_all add: header_words_def)
  from decrypt_words_patch_first [OF _ _ _ this, of "s1_key h"] len
  obtain p where p: "decrypt_words (encrypt_header h constant) (s1_key h) constant = Ok p" "length p = 32"
    "drop 4 p = drop 4 (bytes_of (header_words h))" by (auto simp: encrypt_header_def)
  have lr: "32 \<le> length raw" using arg_cong [OF assms, of length] len by (simp add: encrypt_header_def length_patch)
  have "window raw 0 4 = window (take 0x20 raw) 0 4" by (simp add: window_def)
  also have "\<dots> = to_le 4 (s1_key h)" unfolding assms encrypt_header_def using len by (simp add: window_patch_same)
  finally have key: "s1_read_u32 raw 0 = Ok (s1_key h)"
    using lr by (simp add: s1_read_u32_def s1_bytes_def chk_add_def usize_limit_def get_range_def from_le_to_le)
  have ct: "idx_range raw 0 0x20 = Ok (encrypt_header h constant)"
    using lr assms by (simp add: idx_range_in window_def)
  let ?q = "patch p 0 (to_le 4 (s1_key h))"
  have q: "?q = bytes_of (header_words h)" using p(3) by (simp add: patch_def header_words_def)
  have rd: "s1_read_u32 (bytes_of (header_words h)) (4 * k) = Ok (header_words h ! k)" if "k < 8" for k
    using that window_bytes_of [of k "header_words h" "[]"] len
    by (simp add: s1_read_u32_def s1_bytes_def chk_add_def usize_limit_def get_range_def from_le_to_le header_words_def)
  show ?thesis
    using rd [of 1] rd [of 2] rd [of 3] rd [of 4] rd [of 5] rd [of 6] rd [of 7]
    by (simp add: decrypt_header_def key ct p put_in q del: bytes_of.simps) (simp add: header_words_def)
qed

section \<open>The ranges of an accepted image\<close>

definition stage1_ranges :: "bytes \<Rightarrow> nat \<Rightarrow> u32 \<Rightarrow> u64 option \<Rightarrow> stage1_result \<Rightarrow> bool" where
  "stage1_ranges data outer_size constant lim r \<longleftrightarrow>
     (let h = s1_header r; sz = unat (s1_payload_size h); section_end = s1_section_offset r + s1_section_size r in
      section_end \<le> length data \<and> outer_size + 0x1000 \<le> s1_section_size r
      \<and> s1_header_offset r = s1_section_offset r + outer_size
      \<and> s1_header_offset r + 0x20 \<le> s1_payload_file_offset r
      \<and> s1_payload_file_offset r + sz \<le> s1_remaining_file_offset r
      \<and> s1_remaining_file_offset r + s1_remaining_size r = section_end
      \<and> 0 < sz \<and> sz mod 4 = 0 \<and> unat (s1_entry_offset h) < sz \<and> unat (s1_protect_size h) \<le> sz
      \<and> (case lim of None \<Rightarrow> True | Some l \<Rightarrow> sz \<le> unat l)
      \<and> decrypt_words (window data (s1_payload_file_offset r) sz) (s1_payload_key h) constant = Ok (s1_plaintext r)
      \<and> length (s1_plaintext r) = sz)"

lemma s1_bytes_Ok_conv [res_conv]: "s1_bytes data off n = Ok b \<longleftrightarrow> off + n \<le> length data \<and> off + n < usize_limit \<and> b = window data off n"
  by (auto simp: s1_bytes_def res_conv)

lemma s1_safe [simp]: "ok_with (\<lambda>_. True) (s1_bytes data off n)" "ok_with (\<lambda>_. True) (s1_read_u32 data off)"
  by (simp_all add: s1_bytes_def s1_read_u32_def ok_with_rbind [where Q = "\<lambda>_. True"])

lemma decrypt_words_safe: "ok_with (\<lambda>p. length p = length ct) (decrypt_words ct key constant)"
  by (simp add: decrypt_words_def length_run_region)

lemma decrypt_header_safe:
  assumes "0x20 \<le> length raw"
  shows "ok_with (\<lambda>_. True) (decrypt_header raw constant)"
proof -
  have "ok_with (\<lambda>ct. length ct = 0x20) (idx_range raw 0 0x20 :: bytes extracted)"
    using assms by (simp add: idx_range_in length_window)
  then show ?thesis unfolding decrypt_header_def
    by (intro ok_with_rbind [OF s1_safe(2)] ok_with_rbind [OF decrypt_words_safe]
        ok_with_rbind [where r = "idx_range raw 0 0x20" and Q = "\<lambda>ct. length ct = 0x20"] ok_with_rbind [where r = "put _ _ _" and Q = "\<lambda>_. True"])
      (simp_all add: put_in)
qed

lemma find_louser_safe: "ok_with (\<lambda>_. True) (find_louser ev)"
  unfolding find_louser_def Let_def
  by (intro ok_with_guard) (simp add: idx_in)

lemma stage1_place_safe:
  "ok_with (\<lambda>(off, h). unat (sh_offset s) + unat (sh_size s) \<le> length data \<and> outer_size + 0x1000 \<le> unat (sh_size s)
     \<and> off = unat (sh_offset s) + outer_size) (stage1_place data s outer_size constant)"
  unfolding stage1_place_def Let_def
  by (intro ok_with_rbind [where r = "ok_or _ _" and Q = "\<lambda>_. True"] ok_with_guard ok_with_rbind [OF s1_safe(1)]
      ok_with_rbind [OF decrypt_header_safe])
    (auto simp: res_conv length_window chk_add_def split: option.splits if_splits)

lemma check_header_safe:
  "ok_with (\<lambda>stop. stop = unat (s1_payload_offset h) + unat (s1_payload_size h) \<and> stop \<le> private_size
     \<and> 0x20 \<le> unat (s1_payload_offset h) \<and> 0 < unat (s1_payload_size h) \<and> unat (s1_payload_size h) mod 4 = 0
     \<and> unat (s1_entry_offset h) < unat (s1_payload_size h) \<and> unat (s1_protect_size h) \<le> unat (s1_payload_size h)
     \<and> (case lim of None \<Rightarrow> True | Some l \<Rightarrow> unat (s1_payload_size h) \<le> unat l)) (check_stage1_header h private_size lim)"
proof -
  have small: "unat (word_of_nat (unat (s1_payload_size h)) :: u64) = unat (s1_payload_size h)"
    by (subst unat_of_nat) (use unat_bound [of "s1_payload_size h"] in simp)
  have "ok_with (\<lambda>_. case lim of None \<Rightarrow> True | Some l \<Rightarrow> unat (s1_payload_size h) \<le> unat l)
      (case lim of None \<Rightarrow> Ok () | Some limit \<Rightarrow>
         (case check_entry_bytes (default_limits\<lparr>max_entry_bytes := limit\<rparr>) (word_of_nat (unat (s1_payload_size h))) of
            Ok u \<Rightarrow> Ok u | Err e \<Rightarrow> Err (ExtractLimit e) | Panic \<Rightarrow> Panic))"
    using small by (auto simp: check_entry_bytes_def word_less_nat_alt not_less split: option.split)
  then show ?thesis
    unfolding check_stage1_header_def Let_def
    by (intro ok_with_guard ok_with_rbind [where r = "ok_or _ _" and Q = "\<lambda>_. True"] ok_with_rbind [where r = "case lim of None \<Rightarrow> _ | Some x \<Rightarrow> _ x"])
      (auto simp: res_conv)
qed

text \<open>C23. The inspection panics on no input, whatever the parser of the ELF library returns. When it succeeds, the header
  lies in the section after the outer part, the payload after the header and before the Stage 2 stream, which
  reaches to the end of the section, and the section is inside the file; the payload is a positive number of words
  within the limit, its entry point and its protected part are inside it, and the plaintext is its decryption.\<close>

lemma inspect_ranges: "ok_with (stage1_ranges data outer_size constant lim) (inspect goblin data outer_size constant lim)"
proof -
  have parsed: "ok_with (\<lambda>_. True) (case elf_parse goblin data of Ok ev \<Rightarrow> Ok ev | Err e \<Rightarrow> Err (ElfError e) | Panic \<Rightarrow> Panic)"
    by (cases "goblin data") (simp_all add: elf_parse_def)
  show ?thesis
    unfolding inspect_def Let_def split_beta
    by (intro ok_with_rbind [OF parsed] ok_with_rbind [OF find_louser_safe] ok_with_rbind [OF stage1_place_safe] ok_with_rbind [OF check_header_safe]
        ok_with_guard ok_with_rbind [where r = "ok_or _ _" and Q = "\<lambda>_. True"] ok_with_rbind [OF s1_safe(1)]
        ok_with_rbind [OF decrypt_words_safe])
      (auto simp: res_conv bind_eq_Some_conv stage1_ranges_def length_window Let_def)
qed

section \<open>Recovery of a Stage 1 payload\<close>

text \<open>An image that holds an encrypted header and payload in its protected section.\<close>

definition stage1_image ::
  "elf_parser \<Rightarrow> bytes \<Rightarrow> nat \<Rightarrow> u32 \<Rightarrow> u64 option \<Rightarrow> elf_view \<Rightarrow> nat \<Rightarrow> section_header \<Rightarrow> stage1_header \<Rightarrow> bytes \<Rightarrow> bool" where
  "stage1_image goblin data outer_size constant lim ev k s h plain \<longleftrightarrow>
     (let off = unat (sh_offset s); private_size = unat (sh_size s) - outer_size; stop = unat (s1_payload_offset h) + unat (s1_payload_size h) in
      elf_parse goblin data = Ok ev \<and> find_louser ev = Ok (k, s)
      \<and> off + unat (sh_size s) \<le> length data \<and> length data < usize_limit \<and> outer_size + 0x1000 \<le> unat (sh_size s)
      \<and> window data (off + outer_size) 0x20 = encrypt_header h constant
      \<and> check_stage1_header h private_size lim = Ok stop \<and> (stop + 3) div 4 * 4 \<le> private_size
      \<and> length plain = unat (s1_payload_size h)
      \<and> window data (off + outer_size + unat (s1_payload_offset h)) (unat (s1_payload_size h)) = stage1_encrypt plain (s1_payload_key h) constant)"

text \<open>From an image that holds an encrypted header with acceptable ranges and an encrypted payload, the inspection
  recovers the header, the payload in the clear and the place of the section.\<close>

lemma inspect_recovers:
  assumes "stage1_image goblin data outer_size constant lim ev k s h plain"
  shows "\<exists>r. inspect goblin data outer_size constant lim = Ok r \<and> s1_header r = h \<and> s1_plaintext r = plain
    \<and> s1_section_index r = k \<and> s1_section_offset r = unat (sh_offset s)"
proof -
  let ?off = "unat (sh_offset s)" and ?sz = "unat (sh_size s)" and ?stop = "unat (s1_payload_offset h) + unat (s1_payload_size h)"
  note a = assms [unfolded stage1_image_def Let_def]
  have raw: "take 0x20 (window data (?off + outer_size) 0x1000) = encrypt_header h constant"
    using a by (simp add: window_def take_take min_def)
  have place: "stage1_place data s outer_size constant = Ok (?off + outer_size, h)"
    using a decrypt_header_encrypt [OF raw]
    by (simp add: stage1_place_def Let_def chk_add_def s1_bytes_def get_range_def)
  have sizes: "unat (s1_payload_size h) mod 4 = 0" "?stop \<le> ?sz - outer_size"
    using a check_header_safe [of h "?sz - outer_size" lim] by auto
  have "length plain div 4 \<le> 2 ^ 32" using a unat_bound [of "s1_payload_size h"] by simp
  then have plain: "decrypt_words (stage1_encrypt plain (s1_payload_key h) constant) (s1_payload_key h) constant = Ok plain"
    using decrypt_words_encrypt [of plain] a sizes(1) by simp
  have "?off + outer_size + ?stop \<le> length data" using a sizes(2) by linarith
  then have ct: "s1_bytes data (?off + outer_size + unat (s1_payload_offset h)) (unat (s1_payload_size h))
      = Ok (stage1_encrypt plain (s1_payload_key h) constant)"
    using a by (simp add: s1_bytes_def get_range_def chk_add_def add.assoc)
  have cursor: "?off + (outer_size + (?stop + 3) div 4 * 4) < usize_limit"
    using a by linarith
  show ?thesis
    using a place plain ct cursor \<open>?off + outer_size + ?stop \<le> length data\<close>
    by (simp add: inspect_def Let_def chk_add_def)
qed

section \<open>Witness\<close>

text \<open>An image whose only protected section is the whole file, with a zero key.\<close>

definition tiny_header :: stage1_header where
  "tiny_header = \<lparr>s1_key = 0, s1_reserved = 0, s1_payload_offset = 0x20, s1_payload_size = 4, s1_payload_key = 0,
     s1_entry_offset = 0, s1_protect_size = 4, s1_size_copy = 4\<rparr>"

definition tiny_section :: "u32 \<Rightarrow> u32 \<Rightarrow> section_header" where
  "tiny_section name ty = \<lparr>sh_name = name, sh_type = ty, sh_flags = 0, sh_addr = 0, sh_offset = 0, sh_size = 0x1000, sh_link = 0,
     sh_info = 0, sh_addralign = 0, sh_entsize = 0\<rparr>"

definition tiny_view :: elf_view where
  "tiny_view = \<lparr>ev_class = 2, ev_data = 1, ev_machine = AARCH64_MACHINE, ev_programs = [],
     ev_sections = tiny_section 9 SHT_LOUSER # map (\<lambda>k. tiny_section (word_of_nat k) 0) [0..<5],
     ev_name = (\<lambda>w. if unat w < 5 then Some ((PROBE_SECTION_NAMES @ SYMBOL_HASH_SECTION_NAMES) ! unat w) else None)\<rparr>"

definition tiny_image :: bytes where
  "tiny_image = bytes_of (header_words tiny_header) @ [1, 2, 3, 4] @ replicate 0xFDC 0"

lemma inspect_recovers_witness:
  "\<exists>r. inspect (\<lambda>_. Some tiny_view) tiny_image 0 0 (Some 4) = Ok r \<and> s1_plaintext r = [1, 2, 3, 4]"
proof -
  have enc: "encrypt_header tiny_header 0 = bytes_of (header_words tiny_header)" "stage1_encrypt [1, 2, 3, 4] 0 0 = [1, 2, 3, 4]"
    by code_simp+
  have "find_louser tiny_view = Ok (0, tiny_section 9 SHT_LOUSER)"
    by (simp add: find_louser_def tiny_view_def Let_def has_section_def PROBE_SECTION_NAMES_def SYMBOL_HASH_SECTION_NAMES_def
        tiny_section_def upt_rec idx_def SHT_LOUSER_def)
  moreover have len: "length (bytes_of (header_words tiny_header)) = 32" by (simp add: header_words_def)
  moreover from len have "length tiny_image = 0x1000" "window tiny_image 0 32 = encrypt_header tiny_header 0"
    "window tiny_image 32 4 = stage1_encrypt [1, 2, 3, 4] 0 0"
    unfolding enc by (simp_all add: tiny_image_def window_def)
  moreover have "s1_payload_offset tiny_header = 32" "s1_payload_size tiny_header = 4" "s1_payload_key tiny_header = 0"
    "check_stage1_header tiny_header 0x1000 (Some 4) = Ok 36"
    by (simp_all add: tiny_header_def check_stage1_header_def chk_add_def check_entry_bytes_def usize_limit_def)
  ultimately have "stage1_image (\<lambda>_. Some tiny_view) tiny_image 0 0 (Some 4) tiny_view 0 (tiny_section 9 SHT_LOUSER) tiny_header [1, 2, 3, 4]"
    by (simp add: stage1_image_def Let_def elf_parse_def tiny_view_def tiny_section_def usize_limit_def)
  from inspect_recovers [OF this] show ?thesis by blast
qed

end
