(* ===== verification/RecordStream.thy ===== *)
theory RecordStream
  imports Stage1 Gf32
begin

unbundle bit_operations_syntax

text \<open>
  \<^verbatim>\<open>senbei-engine/src/android/extract/stream.rs\<close>: the header of a Stage 2 record stream, the decryption of its
  descriptors and the search for the end of the descriptor table, which is where the first payload begins.
\<close>

section \<open>Records\<close>

definition STREAM_RECORD_SIZE :: nat where "STREAM_RECORD_SIZE = 0x5c"
definition DIRECT_FLAG :: u32 where "DIRECT_FLAG = 2"

record stream_record =
  sr_index :: nat
  sr_command_id :: u32
  sr_flags :: u32
  sr_image_offset :: u32
  sr_image_size :: u32
  sr_metadata_offset :: u32
  sr_metadata_size :: u32
  sr_id_copy :: u32
  sr_entry_offset :: u32
  sr_init_offset :: u32

definition direct :: "stream_record \<Rightarrow> bool" where
  "direct r \<longleftrightarrow> sr_flags r AND DIRECT_FLAG \<noteq> 0"

record stream_header =
  sth_encrypted_words :: "u32 \<times> u32"
  sth_decrypted_words :: "u32 \<times> u32"
  sth_record_state :: u32

text \<open>The words of a record, and the record of its words.\<close>

definition record_of :: "nat \<Rightarrow> u32 list \<Rightarrow> stream_record" where
  "record_of index ws = \<lparr>sr_index = index, sr_command_id = ws ! 0, sr_flags = ws ! 1, sr_image_offset = ws ! 2,
     sr_image_size = ws ! 3, sr_metadata_offset = ws ! 4, sr_metadata_size = ws ! 5, sr_id_copy = ws ! 6,
     sr_entry_offset = ws ! 7, sr_init_offset = ws ! 8\<rparr>"

section \<open>The record cipher\<close>

text \<open>The keys of a record: the state, the mask of its index, and the mix. The running state of the loop is the
  accumulator and the last ciphertext word.\<close>

type_synonym record_keys = "u32 \<times> u32 \<times> u32"

definition record_keys :: "u32 \<Rightarrow> nat \<Rightarrow> record_keys" where
  "record_keys state index =
     (let product = (state + 0x96f60b71) * state
      in (state, push_bit ((index + 1) mod 4) product, state * 0x06a55bcc + product))"

definition record_step :: "record_keys \<Rightarrow> (u32 \<times> u32) step" where
  "record_step ks i st cipher =
     (let (state, index_mask, mix) = ks; (accumulator, feedback0) = st;
          feedback = feedback0 * feedback0;
          value0 = gf32_mul_fixed (cipher XOR drop_bit 3 feedback) XOR index_mask;
          value1 = value0 + accumulator + state;
          v = value1 - drop_bit (unat ((word_of_nat (i * 4 + 3) :: u64) AND 5)) mix
      in (v, (accumulator + 0xe64d33d8, cipher)))"

definition decrypt_record :: "bytes \<Rightarrow> nat \<Rightarrow> u32 \<Rightarrow> stream_record extracted" where
  "decrypt_record raw index state =
     (if length raw \<noteq> STREAM_RECORD_SIZE then Err (ExtractInvalid ''record has an unexpected size'')
      else Ok (record_of index (fst (stream_run (record_step (record_keys state index)) 0 (0x79934cf6, 0xf02f7685)
                                      (words_at raw 0 (STREAM_RECORD_SIZE div 4))))))"

section \<open>The stream\<close>

definition rs_read_u32 :: "bytes \<Rightarrow> nat \<Rightarrow> u32 extracted" where
  "rs_read_u32 data off =
     rbind (ok_or (ExtractInvalid ''record header range is out of bounds'') (get_range data off 4)) (\<lambda>b. Ok (from_le b))"

definition stream_base :: "u32 \<Rightarrow> u32" where
  "stream_base stream_id =
     (let key = stream_id * 0x9d323cd7; shift = unat (stream_id AND 7)
      in drop_bit shift key + 0x5e727d74 + push_bit (unat (stream_id AND 0xb)) key + 0xf71e3005)"

definition header_of :: "u32 \<Rightarrow> u32 \<Rightarrow> u32 \<Rightarrow> stream_header" where
  "header_of stream_id cipher0 cipher1 =
     (let base = stream_base stream_id;
          plain0 = gf32_mul_fixed (cipher0 + 0xcbf0c1d8) XOR (0xebe81dba + base);
          plain1 = gf32_mul_fixed (cipher1 + cipher0) XOR (0xebe81dba * 5 + base)
      in \<lparr>sth_encrypted_words = (cipher0, cipher1), sth_decrypted_words = (plain0, plain1), sth_record_state = plain1 + base\<rparr>)"

definition payload_check :: "bytes \<Rightarrow> u32 \<times> u32 \<Rightarrow> nat \<Rightarrow> nat extracted" where
  "payload_check stream p first_payload =
     (let (off, sz) = p in
      if off \<noteq> 0 \<and> sz \<noteq> 0
      then if length stream \<le> unat off then Err (ExtractInvalid ''record payload offset exceeds stream'')
           else Ok (min first_payload (unat off))
      else Ok first_payload)"

function parse_records :: "bytes \<Rightarrow> u32 \<Rightarrow> nat \<Rightarrow> stream_record list \<Rightarrow> nat \<Rightarrow> (stream_record list \<times> nat) extracted" where
  "parse_records stream state index records first_payload =
     (if index < 256 then
        rbind (ok_or (ExtractInvalid ''record descriptor offset overflow'')
                 (Option.bind (chk_mul index STREAM_RECORD_SIZE) (\<lambda>v. chk_add 8 v))) (\<lambda>start.
        rbind (ok_or (ExtractInvalid ''record descriptor end overflow'') (chk_add start STREAM_RECORD_SIZE)) (\<lambda>stop.
        if length stream < stop then Err (ExtractInvalid ''descriptor table is truncated'')
        else
        rbind (idx_range stream start STREAM_RECORD_SIZE) (\<lambda>raw.
        rbind (decrypt_record raw index state) (\<lambda>r.
        if sr_id_copy r \<noteq> 0 \<and> sr_command_id r \<noteq> sr_id_copy r then Err (ExtractInvalid ''record command/id mismatch'')
        else
        rbind (foldM (payload_check stream)
                 [(sr_image_offset r, sr_image_size r), (sr_metadata_offset r, sr_metadata_size r)] first_payload) (\<lambda>first.
          if stop = first then Ok (records @ [r], first)
          else if first < stop then Err (ExtractInvalid ''descriptor table crosses first payload'')
          else parse_records stream state (index + 1) (records @ [r]) first)))))
      else Err (ExtractInvalid ''stream has no descriptor boundary in 256 records''))"
  by pat_completeness auto
termination by (relation "measure (\<lambda>(stream, state, index, records, first). 256 - index)") auto

declare parse_records.simps [simp del]

definition parse_record_stream :: "bytes \<Rightarrow> u32 \<Rightarrow> (stream_header \<times> stream_record list \<times> nat) extracted" where
  "parse_record_stream stream stream_id =
     (if length stream < 8 then Err (ExtractInvalid ''stream is shorter than its 8-byte header'')
      else
      rbind (rs_read_u32 stream 0) (\<lambda>cipher0.
      rbind (rs_read_u32 stream 4) (\<lambda>cipher1.
      let h = header_of stream_id cipher0 cipher1 in
      rbind (parse_records stream (sth_record_state h) 0 [] (length stream)) (\<lambda>(records, first).
        Ok (h, records, first)))))"

section \<open>The record cipher inverts\<close>

lemma gf32_div_mul [simp]: "gf32_div (gf32_mul_fixed w) = w"
  by (rule injD [OF bij_is_inj [OF gf32_bij] gf32_mul_div])

definition record_enc :: "record_keys \<Rightarrow> (u32 \<times> u32) step" where
  "record_enc ks i st v =
     (let (state, index_mask, mix) = ks; (accumulator, feedback0) = st;
          feedback = feedback0 * feedback0;
          value1 = v + drop_bit (unat ((word_of_nat (i * 4 + 3) :: u64) AND 5)) mix;
          value0 = (value1 - state - accumulator) XOR index_mask;
          cipher = gf32_div value0 XOR drop_bit 3 feedback
      in (cipher, (accumulator + 0xe64d33d8, cipher)))"

interpretation record_cipher: word_stream "record_step ks" "record_enc ks" for ks
  by unfold_locales (simp_all add: record_step_def record_enc_def Let_def split_beta xor.assoc)

definition encrypt_record :: "u32 \<Rightarrow> nat \<Rightarrow> u32 list \<Rightarrow> bytes" where
  "encrypt_record state index ws =
     bytes_of (fst (stream_run (record_enc (record_keys state index)) 0 (0x79934cf6, 0xf02f7685) ws))"

lemma length_encrypt_record [simp]: "length (encrypt_record state index ws) = 4 * length ws"
  by (simp add: encrypt_record_def)

lemma decrypt_record_encrypt:
  assumes "length ws = 23"
  shows "decrypt_record (encrypt_record state index ws) index state = Ok (record_of index ws)"
proof -
  let ?cs = "fst (stream_run (record_enc (record_keys state index)) 0 (0x79934cf6, 0xf02f7685) ws)"
  have "words_at (bytes_of ?cs @ []) 0 (length ?cs) = ?cs" by (rule words_at_bytes_of_append)
  then show ?thesis using assms record_cipher.run_dec_enc [of "record_keys state index" 0 "(0x79934cf6, 0xf02f7685)" ws]
    by (simp add: decrypt_record_def encrypt_record_def STREAM_RECORD_SIZE_def)
qed

section \<open>The descriptor table\<close>

text \<open>The payloads of a record: those with an offset and a size.\<close>

definition payloads :: "stream_record \<Rightarrow> nat list" where
  "payloads r = map (\<lambda>(off, sz). unat off)
     (filter (\<lambda>(off, sz). off \<noteq> 0 \<and> sz \<noteq> 0) [(sr_image_offset r, sr_image_size r), (sr_metadata_offset r, sr_metadata_size r)])"

definition record_good :: "stream_record \<Rightarrow> bool" where
  "record_good r \<longleftrightarrow> sr_id_copy r = 0 \<or> sr_command_id r = sr_id_copy r"

definition first_after :: "nat \<Rightarrow> stream_record list \<Rightarrow> nat" where
  "first_after len rs = fold min (concat (map payloads rs)) len"

lemma fold_min: "fold min xs n = Min (insert n (set xs))" for n :: nat
  using Min.set_eq_fold [of n xs] by simp

lemma first_after_snoc: "first_after len (rs @ [r]) = fold min (payloads r) (first_after len rs)"
  by (simp add: first_after_def)

lemma first_after_le: "first_after len rs \<le> len" "p \<in> set (concat (map payloads rs)) \<Longrightarrow> first_after len rs \<le> p"
  by (simp_all add: first_after_def fold_min)

lemma payload_checks:
  "foldM (payload_check stream) [(sr_image_offset r, sr_image_size r), (sr_metadata_offset r, sr_metadata_size r)] first
   = (if \<forall>p\<in>set (payloads r). p < length stream then Ok (fold min (payloads r) first)
      else Err (ExtractInvalid ''record payload offset exceeds stream''))"
  by (auto simp: payload_check_def payloads_def min.commute)

text \<open>The table of the records before an index: each is the decryption of its descriptor, its identifiers agree, its
  payloads are inside the stream, and none begins before the end of the table.\<close>

definition table_of :: "bytes \<Rightarrow> u32 \<Rightarrow> stream_record list \<Rightarrow> bool" where
  "table_of stream state rs \<longleftrightarrow>
     (\<forall>i<length rs. decrypt_record (window stream (8 + i * STREAM_RECORD_SIZE) STREAM_RECORD_SIZE) i state = Ok (rs ! i) \<and> record_good (rs ! i)
        \<and> (\<forall>p\<in>set (payloads (rs ! i)). p < length stream))
     \<and> 8 + length rs * STREAM_RECORD_SIZE \<le> length stream"

lemma table_of_snoc:
  "table_of stream state (rs @ [r]) \<longleftrightarrow> table_of stream state rs \<and> 8 + (length rs + 1) * STREAM_RECORD_SIZE \<le> length stream
     \<and> decrypt_record (window stream (8 + length rs * STREAM_RECORD_SIZE) STREAM_RECORD_SIZE) (length rs) state = Ok r \<and> record_good r
     \<and> (\<forall>p\<in>set (payloads r). p < length stream)"
  by (auto simp: table_of_def less_Suc_eq nth_append)

lemma decrypt_record_safe:
  "length raw = STREAM_RECORD_SIZE \<Longrightarrow> \<exists>r. decrypt_record raw index state = Ok r \<and> sr_index r = index"
  by (simp add: decrypt_record_def record_of_def)

lemma parse_records_table:
  "table_of stream state rs \<Longrightarrow> length rs = index \<Longrightarrow> first = first_after (length stream) rs \<Longrightarrow>
   index \<le> 256 \<Longrightarrow>
   ok_with (\<lambda>(rs', first'). table_of stream state rs' \<and> first' = first_after (length stream) rs' \<and> first' = 8 + length rs' * STREAM_RECORD_SIZE
      \<and> 0 < length rs' \<and> length rs' \<le> 256) (parse_records stream state index rs first)"
proof (induction stream state index rs first rule: parse_records.induct)
  case (1 stream state index rs first)
  let ?start = "8 + index * STREAM_RECORD_SIZE" and ?stop = "8 + index * STREAM_RECORD_SIZE + STREAM_RECORD_SIZE"
  let ?raw = "window stream ?start STREAM_RECORD_SIZE"
  obtain r where r: "decrypt_record ?raw index state = Ok r" if "?stop \<le> length stream"
    using decrypt_record_safe [of ?raw index state] by (cases "?stop \<le> length stream") (auto simp: length_window)
  show ?case
  proof (cases "index < 256 \<and> ?stop \<le> length stream \<and> record_good r \<and> (\<forall>p\<in>set (payloads r). p < length stream)")
    case ok: True
    let ?first = "fold min (payloads r) first"
    have start: "Option.bind (chk_mul index STREAM_RECORD_SIZE) (\<lambda>v. chk_add 8 v) = Some ?start" "chk_add ?start STREAM_RECORD_SIZE = Some ?stop"
      "(idx_range stream ?start STREAM_RECORD_SIZE :: bytes extracted) = Ok ?raw"
      using ok by (simp_all add: chk_mul_def chk_add_def STREAM_RECORD_SIZE_def usize_limit_def idx_range_in)
    have good: "\<not> (sr_id_copy r \<noteq> 0 \<and> sr_command_id r \<noteq> sr_id_copy r)" using ok by (simp add: record_good_def)
    have checks: "foldM (payload_check stream) [(sr_image_offset r, sr_image_size r), (sr_metadata_offset r, sr_metadata_size r)] first = Ok ?first"
      unfolding payload_checks using ok by simp
    have step: "parse_records stream state index rs first
        = (if ?stop = ?first then Ok (rs @ [r], ?first)
           else if ?first < ?stop then Err (ExtractInvalid ''descriptor table crosses first payload'')
           else parse_records stream state (index + 1) (rs @ [r]) ?first)"
      using ok start good checks r by (subst parse_records.simps) (auto simp del: foldM.simps)
    have table: "table_of stream state (rs @ [r])" "?first = first_after (length stream) (rs @ [r])"
      using 1(2,3,4) ok r by (auto simp: table_of_snoc first_after_snoc add.commute)
    have "?stop = 8 + length (rs @ [r]) * STREAM_RECORD_SIZE" using 1(3) by simp
    then show ?thesis unfolding step
      using table ok 1(3) 1(1) [of ?start ?stop ?raw r ?first] start good checks r by (auto simp del: foldM.simps)
  next
    case False
    show ?thesis
    proof (cases "index < 256 \<and> ?stop \<le> length stream")
      case True
      then have bad: "\<not> record_good r \<or> \<not> (\<forall>p\<in>set (payloads r). p < length stream)" using False by blast
      have start: "Option.bind (chk_mul index STREAM_RECORD_SIZE) (\<lambda>v. chk_add 8 v) = Some ?start" "chk_add ?start STREAM_RECORD_SIZE = Some ?stop"
        "(idx_range stream ?start STREAM_RECORD_SIZE :: bytes extracted) = Ok ?raw"
        using True by (simp_all add: chk_mul_def chk_add_def STREAM_RECORD_SIZE_def usize_limit_def idx_range_in)
      show ?thesis using bad True start r
        by (subst parse_records.simps) (auto simp: record_good_def payload_checks simp del: foldM.simps)
    next
      case short: False
      then show ?thesis
        by (subst parse_records.simps) (auto simp: chk_mul_def chk_add_def)
    qed
  qed
qed

text \<open>C22. The parser panics on no stream. On success there are between 1 and 256 records; each is the decryption of
  its own descriptor under the state of the header, its two identifiers agree, its payloads are inside the stream,
  and the table of descriptors ends exactly where the first payload begins, or at the end of the stream.\<close>

lemma parse_record_stream_table:
  "ok_with (\<lambda>(h, rs, first). h = header_of stream_id (from_le (window stream 0 4)) (from_le (window stream 4 4))
     \<and> table_of stream (sth_record_state h) rs \<and> 0 < length rs \<and> length rs \<le> 256
     \<and> first = 8 + length rs * STREAM_RECORD_SIZE \<and> first = first_after (length stream) rs) (parse_record_stream stream stream_id)"
proof (cases "length stream < 8")
  case False
  let ?h = "header_of stream_id (from_le (window stream 0 4)) (from_le (window stream 4 4))"
  have read: "rs_read_u32 stream 0 = Ok (from_le (window stream 0 4))" "rs_read_u32 stream 4 = Ok (from_le (window stream 4 4))"
    using False by (simp_all add: rs_read_u32_def get_range_def)
  have "table_of stream (sth_record_state ?h) []" "length stream = first_after (length stream) []"
    using False by (simp_all add: table_of_def first_after_def)
  from parse_records_table [OF this(1) _ this(2), of 0]
  show ?thesis using False read by (auto simp: parse_record_stream_def Let_def intro!: ok_with_rbind)
qed (simp add: parse_record_stream_def)

section \<open>Recovery of a table\<close>

lemma first_after_take: "first_after len rs \<le> first_after len (take k rs)"
proof -
  have "set (concat (map payloads (take k rs))) \<subseteq> set (concat (map payloads rs))"
    using set_take_subset [of k rs] by auto
  then show ?thesis unfolding first_after_def fold_min by (intro Min_antimono) auto
qed

lemma parse_records_complete:
  assumes table: "table_of stream state rs" and first: "first_after (length stream) rs = 8 + length rs * STREAM_RECORD_SIZE"
    and n: "length rs \<le> 256" and k: "k < length rs"
  shows "parse_records stream state k (take k rs) (first_after (length stream) (take k rs))
    = Ok (rs, 8 + length rs * STREAM_RECORD_SIZE)"
  using k
proof (induction "length rs - k" arbitrary: k)
  case (Suc d)
  let ?start = "8 + k * STREAM_RECORD_SIZE" and ?stop = "8 + k * STREAM_RECORD_SIZE + STREAM_RECORD_SIZE"
  let ?raw = "window stream ?start STREAM_RECORD_SIZE" and ?f = "first_after (length stream) (take k rs)"
  have next_rs: "take (Suc k) rs = take k rs @ [rs ! k]" using Suc.prems by (simp add: take_Suc_conv_app_nth)
  have fits: "8 + length rs * STREAM_RECORD_SIZE \<le> length stream" using table by (simp add: table_of_def)
  have stop: "?stop \<le> 8 + length rs * STREAM_RECORD_SIZE" using Suc.prems by (simp add: STREAM_RECORD_SIZE_def)
  have r: "decrypt_record ?raw k state = Ok (rs ! k)" "record_good (rs ! k)" "\<forall>p\<in>set (payloads (rs ! k)). p < length stream"
    using table Suc.prems by (auto simp: table_of_def)
  have start: "Option.bind (chk_mul k STREAM_RECORD_SIZE) (\<lambda>v. chk_add 8 v) = Some ?start" "chk_add ?start STREAM_RECORD_SIZE = Some ?stop"
    "(idx_range stream ?start STREAM_RECORD_SIZE :: bytes extracted) = Ok ?raw"
    using Suc.prems n stop fits by (simp_all add: chk_mul_def chk_add_def STREAM_RECORD_SIZE_def usize_limit_def idx_range_in)
  have f: "fold min (payloads (rs ! k)) ?f = first_after (length stream) (take (Suc k) rs)" unfolding next_rs first_after_snoc ..
  have checks: "foldM (payload_check stream) [(sr_image_offset (rs ! k), sr_image_size (rs ! k)), (sr_metadata_offset (rs ! k), sr_metadata_size (rs ! k))] ?f
      = Ok (first_after (length stream) (take (Suc k) rs))"
    unfolding payload_checks f using r(3) by simp
  have step: "parse_records stream state k (take k rs) ?f
      = (let first = first_after (length stream) (take (Suc k) rs) in
         if ?stop = first then Ok (take (Suc k) rs, first)
         else if first < ?stop then Err (ExtractInvalid ''descriptor table crosses first payload'')
         else parse_records stream state (Suc k) (take (Suc k) rs) first)"
    using Suc.prems n start checks r stop fits
    by (subst parse_records.simps) (auto simp: next_rs record_good_def Let_def simp del: foldM.simps)
  show ?case
  proof (cases "Suc k = length rs")
    case True
    then have "length rs = Suc k" "take (Suc k) rs = rs" by simp_all
    then have "first_after (length stream) (take (Suc k) rs) = ?stop" using first by simp
    then show ?thesis unfolding step using \<open>length rs = Suc k\<close> \<open>take (Suc k) rs = rs\<close> by (simp add: Let_def)
  next
    case False
    then have "?stop < 8 + length rs * STREAM_RECORD_SIZE" using Suc.prems by (simp add: STREAM_RECORD_SIZE_def)
    also have "\<dots> \<le> first_after (length stream) (take (Suc k) rs)" unfolding first [symmetric] by (rule first_after_take)
    finally have "?stop < first_after (length stream) (take (Suc k) rs)" .
    moreover have "parse_records stream state (Suc k) (take (Suc k) rs) (first_after (length stream) (take (Suc k) rs))
        = Ok (rs, 8 + length rs * STREAM_RECORD_SIZE)"
      using Suc.hyps False Suc.prems by (intro Suc.hyps(1)) auto
    ultimately show ?thesis unfolding step by (simp add: Let_def)
  qed
qed simp

definition build_stream :: "u32 \<Rightarrow> u32 \<Rightarrow> u32 \<Rightarrow> u32 list list \<Rightarrow> bytes \<Rightarrow> bytes" where
  "build_stream stream_id c0 c1 rows payload =
     to_le 4 c0 @ to_le 4 c1
     @ concat (map (\<lambda>i. encrypt_record (sth_record_state (header_of stream_id c0 c1)) i (rows ! i)) [0..<length rows]) @ payload"

definition records_of :: "u32 list list \<Rightarrow> stream_record list" where
  "records_of rows = map (\<lambda>i. record_of i (rows ! i)) [0..<length rows]"


lemma window_concat_rows:
  assumes "\<forall>b\<in>set bs. length b = n" "i < length bs"
  shows "window (concat bs @ rest) (i * n) n = bs ! i"
  using assms
proof (induction bs arbitrary: i)
  case (Cons b bs)
  show ?case
  proof (cases i)
    case 0
    then show ?thesis using Cons.prems by (simp add: window_def)
  next
    case (Suc j)
    have "window (concat (b # bs) @ rest) (i * n) n = window (concat bs @ rest) (j * n) n"
      using Cons.prems Suc by (simp add: window_def)
    then show ?thesis using Cons.IH [of j] Cons.prems Suc by simp
  qed
qed simp

text \<open>A stream built from any two head words, encrypted descriptors and payload data is parsed back to its records,
  provided that their identifiers agree, their payloads are inside the stream and the first of them (or the end
  of the stream) follows the table at once.\<close>

lemma parse_record_stream_recovers:
  assumes rows: "rows \<noteq> []" "length rows \<le> 256" "\<forall>ws\<in>set rows. length ws = 23"
    and good: "\<forall>r\<in>set (records_of rows). record_good r \<and> (\<forall>p\<in>set (payloads r). p < length (build_stream stream_id c0 c1 rows payload))"
    and first: "first_after (length (build_stream stream_id c0 c1 rows payload)) (records_of rows) = 8 + length rows * STREAM_RECORD_SIZE"
  shows "parse_record_stream (build_stream stream_id c0 c1 rows payload) stream_id
    = Ok (header_of stream_id c0 c1, records_of rows, 8 + length rows * STREAM_RECORD_SIZE)"
proof -
  let ?st = "sth_record_state (header_of stream_id c0 c1)"
  let ?bs = "map (\<lambda>i. encrypt_record ?st i (rows ! i)) [0..<length rows]"
  let ?s = "build_stream stream_id c0 c1 rows payload"
  have sizes: "\<forall>b\<in>set ?bs. length b = STREAM_RECORD_SIZE" using rows(3) by (auto simp: STREAM_RECORD_SIZE_def)
  have total: "length (concat ?bs) = length rows * STREAM_RECORD_SIZE"
  proof -
    have "map length ?bs = replicate (length rows) STREAM_RECORD_SIZE" using sizes by (intro nth_equalityI) auto
    then show ?thesis by (simp add: length_concat sum_list_replicate)
  qed
  have split: "?s = (to_le 4 c0 @ to_le 4 c1) @ (concat ?bs @ payload)" by (simp add: build_stream_def)
  have row: "window ?s (8 + i * STREAM_RECORD_SIZE) STREAM_RECORD_SIZE = encrypt_record ?st i (rows ! i)" if "i < length rows" for i
  proof -
    have "window ?s (8 + i * STREAM_RECORD_SIZE) STREAM_RECORD_SIZE
        = window (concat ?bs @ payload) (i * STREAM_RECORD_SIZE) STREAM_RECORD_SIZE"
      unfolding split using window_pre [of "to_le 4 c0 @ to_le 4 c1"] by simp
    also have "\<dots> = ?bs ! i" using that by (intro window_concat_rows [OF sizes]) simp
    finally show ?thesis using that by simp
  qed
  have len: "8 + length rows * STREAM_RECORD_SIZE \<le> length ?s" unfolding split using total by simp
  have table: "table_of ?s ?st (records_of rows)"
    using row good rows(3) len by (auto simp: table_of_def records_of_def decrypt_record_encrypt)
  have "parse_records ?s ?st 0 [] (length ?s) = Ok (records_of rows, 8 + length rows * STREAM_RECORD_SIZE)"
    using parse_records_complete [OF table, of 0] first rows by (simp add: records_of_def first_after_def)
  moreover have "rs_read_u32 ?s 0 = Ok c0" "rs_read_u32 ?s 4 = Ok c1"
    using len by (simp_all add: rs_read_u32_def get_range_def split) (simp_all add: build_stream_def window_def from_le_to_le)
  moreover have "\<not> length ?s < 8" using len by simp
  ultimately show ?thesis by (simp add: parse_record_stream_def Let_def)
qed

section \<open>Witness\<close>

text \<open>One record with one payload of four bytes.\<close>

definition one_row :: "u32 list" where
  "one_row = [7, 2, 100, 4, 0, 0, 7] @ replicate 16 0"

lemma parse_record_stream_recovers_witness:
  "parse_record_stream (build_stream 5 1 2 [one_row] [1, 2, 3, 4]) 5 = Ok (header_of 5 1 2, records_of [one_row], 100)"
proof -
  have len: "length (build_stream 5 1 2 [one_row] [1, 2, 3, 4]) = 104" by (simp add: build_stream_def one_row_def)
  have rec: "records_of [one_row] = [record_of 0 one_row]" "payloads (record_of 0 one_row) = [100]" "record_good (record_of 0 one_row)"
    by (simp_all add: records_of_def payloads_def record_of_def one_row_def record_good_def)
  have "length one_row = 23" by (simp add: one_row_def)
  then show ?thesis
    using parse_record_stream_recovers [of "[one_row]" 5 1 2 "[1, 2, 3, 4]"] len rec
    by (simp add: first_after_def STREAM_RECORD_SIZE_def)
qed

end
