(* ===== verification/Constructors.thy ===== *)
theory Constructors
  imports ElfLayout
begin

unbundle bit_operations_syntax

text \<open>
  \<^verbatim>\<open>senbei-engine/src/android/restore/constructors.rs\<close> and the two address helpers of \<^verbatim>\<open>pipeline.rs\<close> it uses: the
  direct control flow of a module, and a bounded interpreter of the AArch64 instructions of a callback selector.
  Only the stack can be written; calls into the image are recorded. \<open>None\<close> rejects a candidate, as in the code.
\<close>

section \<open>Addresses\<close>

definition RUNTIME :: u64 where "RUNTIME = push_bit 32 1"
definition IMAGE :: u64 where "IMAGE = push_bit 32 2"
definition STACK :: u64 where "STACK = push_bit 32 3"
definition STACK_SIZE :: nat where "STACK_SIZE = 0x10000"
definition RETURN :: u64 where "RETURN = - 1 - 3"

text \<open>\<open>u64::checked_add_signed\<close>\<close>

definition chk_add_signed :: "u64 \<Rightarrow> int \<Rightarrow> u64 option" where
  "chk_add_signed a d = (if 0 \<le> uint a + d \<and> uint a + d < 2 ^ 64 then Some (word_of_int (uint a + d)) else None)"

definition signed_bits :: "u32 \<Rightarrow> nat \<Rightarrow> int" where
  "signed_bits v bits = sint (signed_drop_bit (32 - bits) (push_bit (32 - bits) v))"

definition branch_target :: "u64 \<Rightarrow> u32 \<Rightarrow> nat \<Rightarrow> nat \<Rightarrow> u64 option" where
  "branch_target pc instr bits shift =
     chk_add_signed pc (signed_bits (drop_bit shift instr AND (push_bit bits 1 - 1)) bits * 4)"

definition aarch64_adrp_target :: "u32 \<Rightarrow> u64 \<Rightarrow> u64 option" where
  "aarch64_adrp_target instr pc =
     (if instr AND 0x9f000000 \<noteq> 0x90000000 then None
      else
      let immediate = (drop_bit 29 instr AND 3) OR push_bit 2 (drop_bit 5 instr AND 0x7ffff);
          pages0 = uint immediate;
          pages = (if immediate AND push_bit 20 1 \<noteq> 0 then pages0 - 2 ^ 21 else pages0)
      in chk_add_signed (pc AND NOT 0xfff) (pages * 0x1000))"

fun va_in_segments :: "load_segment list \<Rightarrow> u64 \<Rightarrow> u64 \<Rightarrow> nat option" where
  "va_in_segments [] address stop = None"
| "va_in_segments (s # ss) address stop =
     Option.bind (chk_add_w (p_vaddr s) (p_filesz s)) (\<lambda>segment_end.
       if p_vaddr s \<le> address \<and> stop \<le> segment_end
       then Option.bind (chk_sub_w address (p_vaddr s)) (\<lambda>d. map_option unat (chk_add_w (p_offset s) d))
       else va_in_segments ss address stop)"

definition virtual_address_to_file_offset :: "elf_layout \<Rightarrow> u64 \<Rightarrow> u64 \<Rightarrow> nat option" where
  "virtual_address_to_file_offset l address sz =
     Option.bind (chk_add_w address sz) (va_in_segments (program_headers l) address)"

definition executable_address :: "elf_layout \<Rightarrow> u64 \<Rightarrow> bool" where
  "executable_address l address \<longleftrightarrow> address mod 4 = 0
     \<and> list_ex (\<lambda>s. p_flags s AND 1 \<noteq> 0 \<and> p_vaddr s \<le> address
          \<and> (case (chk_add_w address 4, chk_add_w (p_vaddr s) (p_filesz s)) of
               (Some stop, Some limit) \<Rightarrow> stop \<le> limit | _ \<Rightarrow> False)) (program_headers l)"

section \<open>Immediates\<close>

definition mask_bits :: "nat \<Rightarrow> u64" where
  "mask_bits bits = drop_bit (64 - bits) (- 1)"

definition leading_zeros :: "u32 \<Rightarrow> nat" where
  "leading_zeros w = length (takeWhile (\<lambda>k. \<not> bit w k) (rev [0..<32]))"

text \<open>\<open>(0..width).step_by(size)\<close>\<close>

definition step_by :: "nat \<Rightarrow> nat \<Rightarrow> nat list" where
  "step_by width sz = map (\<lambda>k. k * sz) [0..<(width + sz - 1) div sz]"

definition logical_immediate :: "u32 \<Rightarrow> nat \<Rightarrow> u64 option" where
  "logical_immediate instr width =
     (let n = drop_bit 22 instr AND 1; imms = drop_bit 10 instr AND 63; immr = drop_bit 16 instr AND 63;
          encoded = push_bit 6 n OR (NOT imms AND 63) in
      Option.bind (chk_sub 31 (leading_zeros encoded)) (\<lambda>len.
        if len < 1 \<or> width = 32 \<and> n \<noteq> 0 then None
        else
        let sz = 2 ^ len; ones = unat (imms AND (push_bit len 1 - 1)) + 1 in
        if ones = sz \<or> width < sz then None
        else
        let rotate = unat (immr AND (push_bit len 1 - 1)); v = mask_bits ones;
            element = (if rotate = 0 then v else (drop_bit rotate v OR push_bit (sz - rotate) v) AND mask_bits sz)
        in Some (foldl (\<lambda>result position. result OR push_bit position element) 0 (step_by width sz))))"

section \<open>The selector\<close>

record selector =
  sel_module :: bytes
  sel_image :: bytes
  sel_layout :: elf_layout
  sel_registers :: "u64 option list"
  sel_sp :: u64
  sel_stack :: "u8 option list"
  sel_flags :: "(bool \<times> bool \<times> bool \<times> bool) option"
  sel_read_image_base :: bool
  sel_calls :: "u64 list"

definition reg :: "selector \<Rightarrow> u32 \<Rightarrow> bool \<Rightarrow> u64 option" where
  "reg s i sp = (if i = 31 then Some (if sp then sel_sp s else 0) else sel_registers s ! unat i)"

definition set_reg :: "u32 \<Rightarrow> u64 \<Rightarrow> nat \<Rightarrow> bool \<Rightarrow> selector \<Rightarrow> selector" where
  "set_reg i v width sp s =
     (let v' = v AND mask_bits width in
      if i \<noteq> 31 then s\<lparr>sel_registers := (sel_registers s)[unat i := Some v']\<rparr>
      else if sp then s\<lparr>sel_sp := v'\<rparr> else s)"

definition all_some :: "'a option list \<Rightarrow> 'a list option" where
  "all_some xs = (if None \<in> set xs then None else Some (map the xs))"

definition sel_read :: "selector \<Rightarrow> u64 \<Rightarrow> nat \<Rightarrow> (u64 \<times> selector) option" where
  "sel_read s address sz =
     (if address = RUNTIME + 8 \<and> sz = 8 then Some (IMAGE, s\<lparr>sel_read_image_base := True\<rparr>)
      else
      Option.bind
        (if STACK \<le> address
         then let start = unat (address - STACK) in
              Option.bind (chk_add start sz) (\<lambda>_. Option.bind (get_range (sel_stack s) start sz) all_some)
         else if IMAGE \<le> address
         then Option.bind (virtual_address_to_file_offset (sel_layout s) (address - IMAGE) (word_of_nat sz)) (\<lambda>off.
                Option.bind (chk_add off sz) (\<lambda>_. get_range (sel_image s) off sz))
         else (case slice_u64 (sel_module s) address (word_of_nat sz) of Ok b \<Rightarrow> Some b | _ \<Rightarrow> None))
        (\<lambda>b. Some (from_le b, s)))"

definition sel_write :: "selector \<Rightarrow> u64 \<Rightarrow> nat \<Rightarrow> u64 \<Rightarrow> selector option" where
  "sel_write s address sz v =
     Option.bind (chk_sub_w address STACK) (\<lambda>d. let off = unat d in
     Option.bind (chk_add off sz) (\<lambda>_.
       if off + sz \<le> length (sel_stack s)
       then Some (s\<lparr>sel_stack := patch (sel_stack s) off (map Some (to_le sz v))\<rparr>) else None))"

definition condition_holds :: "selector \<Rightarrow> u32 \<Rightarrow> bool option" where
  "condition_holds s cond =
     Option.bind (sel_flags s) (\<lambda>(negative, zero, carry, overflow).
       let k = unat (drop_bit 1 cond); invert = (cond AND 1 \<noteq> 0) in
       if k = 7 then Some True
       else Option.bind
         (if k = 0 then Some zero else if k = 1 then Some carry else if k = 2 then Some negative
          else if k = 3 then Some overflow else if k = 4 then Some (carry \<and> \<not> zero)
          else if k = 5 then Some (negative = overflow) else if k = 6 then Some (negative = overflow \<and> \<not> zero) else None)
         (\<lambda>matched. Some (matched \<noteq> invert)))"

section \<open>Instructions\<close>

definition op_rd :: "u32 \<Rightarrow> u32" where "op_rd instr = instr AND 31"
definition op_rn :: "u32 \<Rightarrow> u32" where "op_rn instr = drop_bit 5 instr AND 31"
definition op_width :: "u32 \<Rightarrow> nat" where "op_width instr = (if drop_bit 31 instr = 0 then 32 else 64)"

definition op_move_wide :: "u32 \<Rightarrow> selector \<Rightarrow> selector option" where
  "op_move_wide instr s =
     (let width = op_width instr; shift = unat ((drop_bit 21 instr AND 3) * 16) in
      if width \<le> shift then None
      else
      let immediate = push_bit shift (ucast (drop_bit 5 instr AND 0xffff) :: u64); opc = drop_bit 29 instr AND 3 in
      Option.bind
        (if opc = 0 then Some (NOT immediate) else if opc = 2 then Some immediate
         else if opc = 3 then Option.bind (reg s (op_rd instr) False) (\<lambda>v. Some ((v AND NOT (push_bit shift 0xffff)) OR immediate))
         else None)
        (\<lambda>v. Some (set_reg (op_rd instr) v width False s)))"

text \<open>The second operand of a register instruction, shifted left.\<close>

definition shifted_register :: "u32 \<Rightarrow> selector \<Rightarrow> u64 option" where
  "shifted_register instr s =
     (if drop_bit 22 instr AND 3 \<noteq> 0 then None
      else
      let shift = unat (drop_bit 10 instr AND 63) in
      if op_width instr \<le> shift then None
      else Option.bind (reg s (drop_bit 16 instr AND 31) False) (\<lambda>v. Some (push_bit shift v)))"

text \<open>The result and the flags (negative, zero, carry, overflow) of an addition or subtraction.\<close>

definition add_sub :: "nat \<Rightarrow> bool \<Rightarrow> u64 \<Rightarrow> u64 \<Rightarrow> u64 \<times> bool \<times> bool \<times> bool \<times> bool" where
  "add_sub width subtract left right =
     (let v = (if subtract then left - right else left + right) AND mask_bits width;
          sign = push_bit (width - 1) 1 :: u64;
          carry = (if subtract then right \<le> left else unat (mask_bits width) < unat left + unat right);
          overflow = (if subtract then (left XOR right) AND (left XOR v) AND sign \<noteq> 0
                      else NOT (left XOR right) AND (left XOR v) AND sign \<noteq> 0)
      in (v, v AND sign \<noteq> 0, v = 0, carry, overflow))"

definition op_add_sub :: "u32 \<Rightarrow> selector \<Rightarrow> selector option" where
  "op_add_sub instr s =
     (let width = op_width instr; immediate = (instr AND 0x1f000000 = 0x11000000) in
      Option.bind (reg s (op_rn instr) immediate) (\<lambda>left0.
      let left = left0 AND mask_bits width in
      Option.bind
        (if immediate
         then Some (push_bit (if instr AND push_bit 22 1 \<noteq> 0 then 12 else 0) (ucast (drop_bit 10 instr AND 0xfff)))
         else Option.bind (shifted_register instr s) (\<lambda>v. Some (v AND mask_bits width)))
        (\<lambda>right.
         let subtract = (instr AND push_bit 30 1 \<noteq> 0); set_flags = (instr AND push_bit 29 1 \<noteq> 0);
             (v, flags) = add_sub width subtract left right;
             s' = (if set_flags then s\<lparr>sel_flags := Some flags\<rparr> else s)
         in Some (set_reg (op_rd instr) v width (immediate \<and> \<not> set_flags) s'))))"

definition op_logical :: "u32 \<Rightarrow> selector \<Rightarrow> selector option" where
  "op_logical instr s =
     (let width = op_width instr in
      Option.bind (reg s (op_rn instr) False) (\<lambda>left.
      Option.bind (if instr AND 0x1f800000 = 0x12000000 then logical_immediate instr width else shifted_register instr s) (\<lambda>right.
      let opc = drop_bit 29 instr AND 3 in
      Option.bind
        (if opc = 0 then Some (left AND right) else if opc = 1 then Some (left OR right)
         else if opc = 2 then Some (left XOR right) else None)
        (\<lambda>v. Some (set_reg (op_rd instr) v width False s)))))"

definition op_bitfield :: "u32 \<Rightarrow> selector \<Rightarrow> selector option" where
  "op_bitfield instr s =
     (let width = op_width instr; rotate = unat (drop_bit 16 instr AND 63); stop = unat (drop_bit 10 instr AND 63) in
      if width \<le> rotate \<or> width \<le> stop \<or> unat (drop_bit 22 instr AND 1) \<noteq> width div 64 then None
      else
      Option.bind (reg s (op_rn instr) False) (\<lambda>v.
      let source = v AND mask_bits width;
          r = (if rotate \<le> stop then drop_bit rotate source AND mask_bits (stop - rotate + 1)
               else push_bit (width - rotate) (source AND mask_bits (stop + 1)))
      in Some (set_reg (op_rd instr) r width False s)))"

definition op_load_store :: "u32 \<Rightarrow> selector \<Rightarrow> selector option" where
  "op_load_store instr s =
     (let sz = 2 ^ unat (drop_bit 30 instr) in
      Option.bind (reg s (op_rn instr) True) (\<lambda>base.
      Option.bind (chk_add_w base (ucast (drop_bit 10 instr AND 0xfff) * word_of_nat sz)) (\<lambda>address.
      let opc = drop_bit 22 instr AND 3 in
      if opc = 0 then Option.bind (reg s (op_rd instr) False) (sel_write s address sz)
      else if opc = 1
      then Option.bind (sel_read s address sz) (\<lambda>(v, s'). Some (set_reg (op_rd instr) v (if sz = 8 then 64 else 32) False s'))
      else None)))"

definition op_call :: "u32 \<Rightarrow> nat \<Rightarrow> u64 \<Rightarrow> selector \<Rightarrow> selector option" where
  "op_call instr max_calls next_pc s =
     Option.bind (reg s (op_rn instr) False) (\<lambda>v.
     Option.bind (chk_sub_w v IMAGE) (\<lambda>address.
       if max_calls \<le> length (sel_calls s) \<or> \<not> executable_address (sel_layout s) address then None
       else Some (s\<lparr>sel_calls := sel_calls s @ [address],
                    sel_registers := (replicate 19 None @ drop 19 (sel_registers s))[30 := Some next_pc],
                    sel_flags := None\<rparr>)))"

section \<open>The interpreter\<close>

datatype outcome = Finished "u64 list" | Running u64 selector

text \<open>A step at a program counter; going on means at the next address, or at the target of a taken branch.\<close>

definition go_on :: "u64 \<Rightarrow> selector option \<Rightarrow> outcome option" where
  "go_on pc s = map_option (Running pc) s"

definition branch_if :: "bool \<Rightarrow> u64 \<Rightarrow> u64 \<Rightarrow> u32 \<Rightarrow> selector \<Rightarrow> outcome option" where
  "branch_if taken pc next_pc instr s =
     (if taken then Option.bind (branch_target pc instr 19 5) (\<lambda>t. Some (Running t s)) else Some (Running next_pc s))"

definition finish :: "u32 \<Rightarrow> selector \<Rightarrow> outcome option" where
  "finish instr s =
     Option.bind (reg s (op_rn instr) False) (\<lambda>target.
       if target = RETURN \<and> sel_sp s = STACK + word_of_nat STACK_SIZE \<and> sel_read_image_base s \<and> sel_calls s \<noteq> []
       then Option.bind (reg s 0 False) (\<lambda>result. if result = 1 then Some (Finished (sel_calls s)) else None)
       else None)"

definition step :: "nat \<Rightarrow> u64 \<Rightarrow> selector \<Rightarrow> outcome option" where
  "step max_calls pc s =
     (if pc mod 4 \<noteq> 0 then None
      else case read_le 4 (sel_module s) (unat pc) of
        Ok instr \<Rightarrow>
          Option.bind (chk_add_w pc 4) (\<lambda>next_pc.
            if instr AND 0xfffffc1f = 0xd65f0000 then finish instr s
            else if instr AND 0xfffffc1f = 0xd63f0000 then go_on next_pc (op_call instr max_calls next_pc s)
            else if instr AND 0xfc000000 = 0x14000000
            then Option.bind (branch_target pc instr 26 0) (\<lambda>t. Some (Running t s))
            else if instr AND 0xff000010 = 0x54000000
            then Option.bind (condition_holds s (instr AND 15)) (\<lambda>taken. branch_if taken pc next_pc instr s)
            else if instr AND 0x7e000000 = 0x34000000
            then Option.bind (reg s (op_rd instr) False) (\<lambda>v.
                   branch_if ((v AND mask_bits (op_width instr) \<noteq> 0) = (instr AND push_bit 24 1 \<noteq> 0)) pc next_pc instr s)
            else if instr AND 0x9f000000 = 0x90000000
            then go_on next_pc (map_option (\<lambda>v. set_reg (op_rd instr) v 64 False s) (aarch64_adrp_target instr pc))
            else if instr AND 0x1f800000 = 0x12800000 then go_on next_pc (op_move_wide instr s)
            else if instr AND 0x1f000000 = 0x11000000 \<or> instr AND 0x1f200000 = 0x0b000000 then go_on next_pc (op_add_sub instr s)
            else if instr AND 0x1f800000 = 0x12000000 \<or> instr AND 0x1f200000 = 0x0a000000 then go_on next_pc (op_logical instr s)
            else if instr AND 0x7f800000 = 0x53000000 then go_on next_pc (op_bitfield instr s)
            else if instr AND 0x3b000000 = 0x39000000 \<and> instr AND push_bit 26 1 = 0 then go_on next_pc (op_load_store instr s)
            else None)
      | _ \<Rightarrow> None)"

fun run_steps :: "nat \<Rightarrow> nat \<Rightarrow> u64 \<Rightarrow> selector \<Rightarrow> u64 list option" where
  "run_steps 0 max_calls pc s = None"
| "run_steps (Suc n) max_calls pc s =
     (case step max_calls pc s of
        None \<Rightarrow> None
      | Some (Finished calls) \<Rightarrow> Some calls
      | Some (Running pc' s') \<Rightarrow> run_steps n max_calls pc' s')"

definition run_budget :: "nat \<Rightarrow> nat option" where
  "run_budget max_calls =
     Option.bind (chk_add max_calls 1) (\<lambda>a. Option.bind (chk_mul a 256) (\<lambda>b. Option.bind (chk_add b 1024) (\<lambda>c. Some (min c 1000000))))"

definition run_selector :: "u64 \<Rightarrow> nat \<Rightarrow> selector \<Rightarrow> u64 list option" where
  "run_selector start max_calls s = Option.bind (run_budget max_calls) (\<lambda>budget. run_steps budget max_calls start s)"

section \<open>The functions of a module\<close>

text \<open>What an instruction at an address adds: the functions it calls, the addresses it continues at, in the order they
  are pushed, and whether it calls through a register.\<close>

definition conditional_bits :: "u32 \<Rightarrow> nat option" where
  "conditional_bits instr =
     (if instr AND 0xff000010 = 0x54000000 \<or> instr AND 0x7e000000 = 0x34000000 then Some 19
      else if instr AND 0x7e000000 = 0x36000000 then Some 14 else None)"

definition flow_at :: "bytes \<Rightarrow> u64 \<Rightarrow> (u64 list \<times> u64 list \<times> bool, err) res" where
  "flow_at code pc =
     (case (if pc mod 4 = 0 then read_le 4 code (unat pc) else Err []) of
        Ok instr \<Rightarrow>
          if instr AND 0x7c000000 = 0x14000000
          then rbind (ok_or ''constructor module branch address overflows'' (branch_target pc instr 26 0)) (\<lambda>target.
                 if instr AND 0x80000000 \<noteq> 0 then Ok ([target], [pc + 4], False) else Ok ([], [target], False))
          else
          rbind (case conditional_bits instr of
                   None \<Rightarrow> Ok []
                 | Some bits \<Rightarrow> rbind (ok_or ''constructor module conditional branch overflows'' (branch_target pc instr bits 5))
                                  (\<lambda>t. Ok [t])) (\<lambda>taken.
            if instr AND 0xfffffc1f = 0xd63f0000 then Ok ([], taken @ [pc + 4], True)
            else if instr AND 0xfffffc1f = 0xd61f0000 \<or> instr AND 0xfffffc1f = 0xd65f0000 \<or> instr = 0 then Ok ([], taken, False)
            else Ok ([], taken @ [pc + 4], False))
      | _ \<Rightarrow> Err ''constructor module branches outside its image'')"

text \<open>The search of one function. The stacks grow at the end; the result is the stack of functions, whether the
  function calls through a register, and the rest of the budget.\<close>

function explore ::
  "bytes \<Rightarrow> u64 list \<Rightarrow> u64 set \<Rightarrow> u64 list \<Rightarrow> bool \<Rightarrow> nat \<Rightarrow> (u64 list \<times> bool \<times> nat, err) res" where
  "explore code pending visited stack selects budget =
     (if pending = [] then Ok (stack, selects, budget)
      else
      let pc = last pending; rest = butlast pending in
      if pc \<in> visited then explore code rest visited stack selects budget
      else if budget = 0 then Err ''constructor module control flow exceeds analysis budget''
      else case flow_at code pc of
             Ok (calls, nexts, blr) \<Rightarrow>
               explore code (rest @ nexts) (insert pc visited) (stack @ calls) (selects \<or> blr) (budget - 1)
           | Err e \<Rightarrow> Err e
           | Panic \<Rightarrow> Panic)"
  by pat_completeness auto
termination
  by (relation "measures [\<lambda>(code, pending, visited, stack, selects, budget). budget,
        \<lambda>(code, pending, visited, stack, selects, budget). length pending]") auto

declare explore.simps [simp del]

lemma explore_empty: "explore code [] visited stack selects budget = Ok (stack, selects, budget)"
  by (subst explore.simps) simp

lemma explore_snoc:
  "explore code (pending @ [pc]) visited stack selects budget =
     (if pc \<in> visited then explore code pending visited stack selects budget
      else if budget = 0 then Err ''constructor module control flow exceeds analysis budget''
      else rbind (flow_at code pc) (\<lambda>(calls, nexts, blr).
             explore code (pending @ nexts) (insert pc visited) (stack @ calls) (selects \<or> blr) (budget - 1)))"
  by (subst explore.simps) (simp split: res.split prod.split)

lemma explore_budget:
  "explore code pending visited stack selects budget = Ok (stack', selects', budget') \<Longrightarrow> budget' \<le> budget"
proof (induction code pending visited stack selects budget rule: explore.induct)
  case (1 code pending visited stack selects budget)
  show ?case
  proof (cases pending rule: rev_cases)
    case Nil
    then show ?thesis using "1.prems" by (simp add: explore_empty)
  next
    case (snoc rest pc)
    then show ?thesis using 1 by (fastforce simp: explore_snoc rbind_Ok_conv split: if_splits)
  qed
qed

lemma explore_one_budget:
  assumes "explore code [f] {} stack False budget = Ok (stack', selects, budget')"
  shows "budget' < budget"
proof -
  have "explore code ([] @ [f]) {} stack False budget = Ok (stack', selects, budget')" using assms by simp
  then obtain calls nexts blr where "budget \<noteq> 0"
    "explore code ([] @ nexts) (insert f {}) (stack @ calls) (False \<or> blr) (budget - 1) = Ok (stack', selects, budget')"
    unfolding explore_snoc by (auto simp: rbind_Ok_conv split: if_splits)
  then show ?thesis using explore_budget by fastforce
qed

function explore_functions :: "bytes \<Rightarrow> u64 list \<Rightarrow> u64 set \<Rightarrow> u64 set \<Rightarrow> nat \<Rightarrow> (u64 set, err) res" where
  "explore_functions code stack visited selectors budget =
     (if stack = [] then Ok selectors
      else
      let f = last stack; rest = butlast stack in
      if f \<in> visited then explore_functions code rest visited selectors budget
      else case explore code [f] {} rest False budget of
             Ok (stack', selects, budget') \<Rightarrow>
               explore_functions code stack' (insert f visited) (if selects then insert f selectors else selectors) budget'
           | Err e \<Rightarrow> Err e
           | Panic \<Rightarrow> Panic)"
  by pat_completeness auto
termination
  by (relation "measures [\<lambda>(code, stack, visited, selectors, budget). budget,
        \<lambda>(code, stack, visited, selectors, budget). length stack]") (auto dest: explore_one_budget)

declare explore_functions.simps [simp del]

definition ANALYSIS_BUDGET :: nat where "ANALYSIS_BUDGET = 100000"

definition selector_functions :: "bytes \<Rightarrow> u32 \<Rightarrow> (u64 set, err) res" where
  "selector_functions code entry = explore_functions code [ucast entry] {} {} ANALYSIS_BUDGET"

section \<open>Callbacks\<close>

definition new_selector :: "bytes \<Rightarrow> bytes \<Rightarrow> elf_layout \<Rightarrow> selector" where
  "new_selector code img layout =
     \<lparr>sel_module = code, sel_image = img, sel_layout = layout,
      sel_registers = (replicate 31 None)[0 := Some RUNTIME, 30 := Some RETURN],
      sel_sp = STACK + word_of_nat STACK_SIZE, sel_stack = replicate STACK_SIZE None, sel_flags = None,
      sel_read_image_base = False, sel_calls = []\<rparr>"

definition callbacks :: "bytes \<Rightarrow> u32 \<Rightarrow> bytes \<Rightarrow> elf_layout \<Rightarrow> nat \<Rightarrow> (u64 list, err) res" where
  "callbacks code entry img layout max_calls =
     rbind (selector_functions code entry) (\<lambda>fs.
       let matches = concat (map (\<lambda>f. case run_selector f max_calls (new_selector code img layout) of None \<Rightarrow> [] | Some calls \<Rightarrow> [calls])
                       (sorted_list_of_set fs))
       in if length matches = 1 then Ok (last matches)
          else Err ''constructor module entry does not reach exactly one validated callback selector'')"

end
