(* ===== verification/ConstructorProps.thy ===== *)
theory ConstructorProps
  imports Constructors
begin
unbundle bit_operations_syntax

text \<open>
  What \<^verbatim>\<open>constructors.rs\<close> establishes: the search for selectors is exact, a callback list has one selector that
  produced it, and the instructions the interpreter knows compute what the architecture defines.
\<close>

section \<open>The search is exact\<close>

inductive flows :: "bytes \<Rightarrow> u64 \<Rightarrow> u64 \<Rightarrow> bool" for code :: bytes and f :: u64 where
  flows_start: "flows code f f"
| flows_next: "flows code f pc \<Longrightarrow> flow_at code pc = Ok (calls, nexts, blr) \<Longrightarrow> t \<in> set nexts \<Longrightarrow> flows code f t"

inductive called :: "bytes \<Rightarrow> u64 \<Rightarrow> u64 \<Rightarrow> bool" for code :: bytes and entry :: u64 where
  called_entry: "called code entry entry"
| called_direct: "called code entry f \<Longrightarrow> flows code f pc \<Longrightarrow> flow_at code pc = Ok (calls, nexts, blr) \<Longrightarrow> g \<in> set calls \<Longrightarrow> called code entry g"

definition calls_register :: "bytes \<Rightarrow> u64 \<Rightarrow> bool" where
  "calls_register code f \<longleftrightarrow> (\<exists>pc calls nexts. flows code f pc \<and> flow_at code pc = Ok (calls, nexts, True))"

definition direct_calls :: "bytes \<Rightarrow> u64 set \<Rightarrow> u64 set" where
  "direct_calls code V = {g. \<exists>pc\<in>V. \<exists>calls nexts blr. flow_at code pc = Ok (calls, nexts, blr) \<and> g \<in> set calls}"

definition register_calls :: "bytes \<Rightarrow> u64 set \<Rightarrow> bool" where
  "register_calls code V \<longleftrightarrow> (\<exists>pc\<in>V. \<exists>calls nexts. flow_at code pc = Ok (calls, nexts, True))"

text \<open>A set whose instructions continue inside it, or inside a second set.\<close>

definition closed :: "bytes \<Rightarrow> u64 set \<Rightarrow> u64 set \<Rightarrow> bool" where
  "closed code V W \<longleftrightarrow> (\<forall>pc\<in>V. \<exists>calls nexts blr. flow_at code pc = Ok (calls, nexts, blr) \<and> set nexts \<subseteq> W)"

lemma flows_trans: "flows code p q \<Longrightarrow> flows code q r \<Longrightarrow> flows code p r"
  by (rotate_tac 1, induction rule: flows.induct) (auto intro: flows_next)

lemma called_trans: "called code e f \<Longrightarrow> called code f g \<Longrightarrow> called code e g"
  by (rotate_tac 1, induction rule: called.induct) (auto intro: called_direct)

lemma explore_exact:
  "explore code pending visited stack selects budget = Ok (stack', selects', budget') \<Longrightarrow> closed code visited (visited \<union> set pending) \<Longrightarrow>
   \<exists>V. visited \<union> set pending \<subseteq> V \<and> closed code V V \<and> (\<forall>pc\<in>V. pc \<in> visited \<or> (\<exists>p\<in>set pending. flows code p pc))
     \<and> selects' = (selects \<or> register_calls code (V - visited)) \<and> set stack' = set stack \<union> direct_calls code (V - visited)"
proof (induction code pending visited stack selects budget rule: explore.induct)
  case (1 code pending visited stack selects budget)
  show ?case
  proof (cases pending rule: rev_cases)
    case Nil
    then show ?thesis using "1.prems"
      by (intro exI [of _ visited]) (auto simp: explore_empty register_calls_def direct_calls_def)
  next
    case (snoc rest pc)
    show ?thesis
    proof (cases "pc \<in> visited")
      case True
      then have same: "visited \<union> set pending = visited \<union> set rest" using snoc by auto
      have "explore code rest visited stack selects budget = Ok (stack', selects', budget')" "closed code visited (visited \<union> set rest)"
        using "1.prems" snoc True unfolding same by (simp_all add: explore_snoc)
      moreover have ne: "pending \<noteq> []" "pc = last pending" "rest = butlast pending" using snoc by simp_all
      ultimately obtain V where V: "visited \<union> set rest \<subseteq> V" "closed code V V"
        "\<forall>q\<in>V. q \<in> visited \<or> (\<exists>p\<in>set rest. flows code p q)" "selects' = (selects \<or> register_calls code (V - visited))"
        "set stack' = set stack \<union> direct_calls code (V - visited)" using "1.IH"(1) [OF ne True] by blast
      have "\<forall>q\<in>V. q \<in> visited \<or> (\<exists>p\<in>set pending. flows code p q)" using V(3) snoc by auto
      then show ?thesis unfolding same using V by (intro exI [of _ V]) simp
    next
      case False
      then obtain calls nexts blr where f: "flow_at code pc = Ok (calls, nexts, blr)" and b: "budget \<noteq> 0"
        and e: "explore code (rest @ nexts) (insert pc visited) (stack @ calls) (selects \<or> blr) (budget - 1) = Ok (stack', selects', budget')"
        using "1.prems"(1) snoc by (auto simp: explore_snoc rbind_Ok_conv split: if_splits)
      have ne: "pending \<noteq> []" "pc = last pending" "rest = butlast pending" using snoc by simp_all
      have cl: "closed code (insert pc visited) (insert pc visited \<union> set (rest @ nexts))"
        using "1.prems"(2) f snoc by (fastforce simp: closed_def)
      obtain V where V: "insert pc visited \<union> set (rest @ nexts) \<subseteq> V" "closed code V V"
        "\<forall>q\<in>V. q \<in> insert pc visited \<or> (\<exists>p\<in>set (rest @ nexts). flows code p q)"
        "selects' = ((selects \<or> blr) \<or> register_calls code (V - insert pc visited))"
        "set stack' = set (stack @ calls) \<union> direct_calls code (V - insert pc visited)"
        using "1.IH"(2) [OF ne False b f refl refl e cl] by blast
      have split: "V - visited = insert pc (V - insert pc visited)" using V(1) False by auto
      have "flows code pc q" if "p \<in> set nexts" "flows code p q" for p q
        using flows_trans [OF flows_next [OF flows_start f that(1)] that(2)] .
      then have "\<forall>q\<in>V. q \<in> visited \<or> (\<exists>p\<in>set pending. flows code p q)"
        using V(3) snoc flows_start [of code pc] by auto
      moreover have "register_calls code (V - visited) = (blr \<or> register_calls code (V - insert pc visited))"
        unfolding split register_calls_def using f by auto
      moreover have "direct_calls code (V - visited) = set calls \<union> direct_calls code (V - insert pc visited)"
        unfolding split direct_calls_def using f by auto
      ultimately show ?thesis using V snoc by (intro exI [of _ V]) auto
    qed
  qed
qed

lemma explore_one_exact:
  assumes "explore code [f] {} stack False budget = Ok (stack', selects, budget')"
  shows "selects = calls_register code f"
    and "set stack' = set stack \<union> {g. \<exists>pc calls nexts blr. flows code f pc \<and> flow_at code pc = Ok (calls, nexts, blr) \<and> g \<in> set calls}"
proof -
  obtain V where V: "f \<in> V" "closed code V V" "\<forall>pc\<in>V. flows code f pc" "selects = register_calls code V"
    "set stack' = set stack \<union> direct_calls code V"
    using explore_exact [OF assms] by (auto simp: closed_def)
  have "pc \<in> V" if "flows code f pc" for pc
    using that by (induction rule: flows.induct) (use V(1,2) in \<open>fastforce simp: closed_def\<close>)+
  then have eq: "V = {pc. flows code f pc}" using V(3) by auto
  show "selects = calls_register code f" unfolding V(4) eq by (auto simp: register_calls_def calls_register_def)
  show "set stack' = set stack \<union> {g. \<exists>pc calls nexts blr. flows code f pc \<and> flow_at code pc = Ok (calls, nexts, blr) \<and> g \<in> set calls}"
    unfolding V(5) eq by (auto simp: direct_calls_def)
qed

text \<open>A set of functions whose direct calls lead into a second set.\<close>

definition calls_inside :: "bytes \<Rightarrow> u64 set \<Rightarrow> u64 set \<Rightarrow> bool" where
  "calls_inside code V W \<longleftrightarrow>
     (\<forall>f\<in>V. \<forall>pc calls nexts blr. flows code f pc \<longrightarrow> flow_at code pc = Ok (calls, nexts, blr) \<longrightarrow> set calls \<subseteq> W)"

lemma calls_insideI:
  assumes "\<And>f pc calls nexts blr g. f \<in> V \<Longrightarrow> flows code f pc \<Longrightarrow> flow_at code pc = Ok (calls, nexts, blr) \<Longrightarrow> g \<in> set calls \<Longrightarrow> g \<in> W"
  shows "calls_inside code V W"
  unfolding calls_inside_def using assms by blast

lemma calls_insideD:
  "calls_inside code V W \<Longrightarrow> f \<in> V \<Longrightarrow> flows code f pc \<Longrightarrow> flow_at code pc = Ok (calls, nexts, blr) \<Longrightarrow> g \<in> set calls \<Longrightarrow> g \<in> W"
  unfolding calls_inside_def by blast

lemma explore_functions_exact:
  "explore_functions code stack visited selectors budget = Ok fs \<Longrightarrow> calls_inside code visited (visited \<union> set stack) \<Longrightarrow>
   \<exists>F. visited \<union> set stack \<subseteq> F \<and> calls_inside code F F \<and> (\<forall>f\<in>F. f \<in> visited \<or> (\<exists>s\<in>set stack. called code s f))
     \<and> fs = selectors \<union> {f \<in> F - visited. calls_register code f}"
proof (induction code stack visited selectors budget rule: explore_functions.induct)
  case (1 code stack visited selectors budget)
  show ?case
  proof (cases stack rule: rev_cases)
    case Nil
    then show ?thesis using 1(3,4) by (intro exI [of _ visited]) (auto simp: explore_functions.simps [of code "[]"])
  next
    case (snoc rest f)
    then have ne: "stack \<noteq> []" "f = last stack" "rest = butlast stack" by simp_all
    show ?thesis
    proof (cases "f \<in> visited")
      case True
      then have same: "visited \<union> set stack = visited \<union> set rest" using snoc by auto
      have run: "explore_functions code rest visited selectors budget = Ok fs"
        using 1(3) snoc True by (subst (asm) explore_functions.simps) simp
      have inv: "calls_inside code visited (visited \<union> set rest)" using 1(4) unfolding same .
      obtain F where F: "visited \<union> set rest \<subseteq> F" "calls_inside code F F"
        "\<forall>g\<in>F. g \<in> visited \<or> (\<exists>s\<in>set rest. called code s g)" "fs = selectors \<union> {g \<in> F - visited. calls_register code g}"
        using 1(1) [OF ne True run inv] by blast
      have "\<forall>g\<in>F. g \<in> visited \<or> (\<exists>s\<in>set stack. called code s g)" using F(3) snoc by auto
      then show ?thesis unfolding same using F by (intro exI [of _ F]) simp
    next
      case False
      then obtain stack' selects budget' where e: "explore code [f] {} rest False budget = Ok (stack', selects, budget')"
        and r: "explore_functions code stack' (insert f visited) (if selects then insert f selectors else selectors) budget' = Ok fs"
        using 1(3) snoc by (subst (asm) explore_functions.simps) (auto split: res.splits prod.splits)
      note x = explore_one_exact [OF e]
      have inv: "calls_inside code (insert f visited) (insert f visited \<union> set stack')"
      proof (rule calls_insideI)
        fix h pc calls nexts blr g
        assume h: "h \<in> insert f visited" "flows code h pc" "flow_at code pc = Ok (calls, nexts, blr)" "g \<in> set calls"
        show "g \<in> insert f visited \<union> set stack'"
        proof (cases "h = f")
          case True
          then show ?thesis using h x(2) by blast
        next
          case False
          then have "g \<in> visited \<union> set stack" using calls_insideD [OF 1(4) _ h(2-4)] h(1) by simp
          then show ?thesis using snoc x(2) by auto
        qed
      qed
      obtain F where F: "insert f visited \<union> set stack' \<subseteq> F" "calls_inside code F F"
        "\<forall>g\<in>F. g \<in> insert f visited \<or> (\<exists>s\<in>set stack'. called code s g)"
        "fs = (if selects then insert f selectors else selectors) \<union> {g \<in> F - insert f visited. calls_register code g}"
        using 1(2) [OF ne False e refl refl r inv] by blast
      have "called code f g" if "s \<in> set stack'" "called code s g" "s \<notin> set rest" for s g
      proof -
        have "called code f s" using that(1,3) x(2) called_direct [OF called_entry] by fastforce
        then show ?thesis using that(2) by (rule called_trans)
      qed
      then have reach: "\<forall>g\<in>F. g \<in> visited \<or> (\<exists>s\<in>set stack. called code s g)"
        using F(3) snoc called_entry [of code f] by fastforce
      have split: "F - visited = insert f (F - insert f visited)" using F(1) False by auto
      have "fs = selectors \<union> {g \<in> F - visited. calls_register code g}" unfolding split F(4) x(1) by auto
      moreover have "visited \<union> set stack \<subseteq> F" using F(1) x(2) snoc by auto
      ultimately show ?thesis using F(2) reach by blast
    qed
  qed
qed

lemma selector_set:
  assumes "selector_functions code entry = Ok fs"
  shows "fs = {f. called code (ucast entry) f \<and> calls_register code f}"
proof -
  obtain F where F: "ucast entry \<in> F" "calls_inside code F F" "\<forall>f\<in>F. called code (ucast entry) f" "fs = {f \<in> F. calls_register code f}"
    using explore_functions_exact [OF assms [unfolded selector_functions_def]] by (auto simp: calls_inside_def [of _ "{}"])
  have "f \<in> F" if "called code (ucast entry) f" for f
    using that by (induction rule: called.induct) (use F(1) calls_insideD [OF F(2)] in blast)+
  then show ?thesis using F(3,4) by blast
qed

text \<open>C25. When the search ends within its budget, its result is exactly the set of the functions that direct calls
  reach from the entry and in which direct control flow reaches a call through a register.\<close>

lemma selector_functions_exact:
  assumes "selector_functions code entry = Ok fs"
  shows "fs = {f. called code (ucast entry) f \<and> calls_register code f}"
  using assms by (rule selector_set)

section \<open>What every instruction keeps\<close>

definition machine_ok :: "selector \<Rightarrow> bool" where
  "machine_ok s \<longleftrightarrow> length (sel_registers s) = 31 \<and> length (sel_stack s) = STACK_SIZE"

text \<open>The parts of a selector that only a call changes, or that nothing changes.\<close>

definition kept :: "selector \<Rightarrow> selector \<Rightarrow> bool" where
  "kept s s' \<longleftrightarrow> sel_module s' = sel_module s \<and> sel_image s' = sel_image s \<and> sel_layout s' = sel_layout s
     \<and> sel_calls s' = sel_calls s \<and> (machine_ok s \<longrightarrow> machine_ok s')"

lemma kept_refl [simp]: "kept s s" by (simp add: kept_def)

lemma kept_trans: "kept s t \<Longrightarrow> kept t u \<Longrightarrow> kept s u" by (simp add: kept_def)

lemma kept_set_reg [simp]: "kept s (set_reg i v w sp s)"
  by (simp add: kept_def set_reg_def machine_ok_def Let_def)

lemma kept_flags [simp]: "kept s (s\<lparr>sel_flags := f\<rparr>)" "kept s (s\<lparr>sel_read_image_base := b\<rparr>)"
  by (simp_all add: kept_def machine_ok_def)

lemma kept_set_reg_trans [simp]: "kept s t \<Longrightarrow> kept s (set_reg i v w sp t)"
  using kept_trans kept_set_reg by blast

lemma length_patch_inside: "off + length bs \<le> length xs \<Longrightarrow> length (patch xs off bs) = length xs"
  by (simp add: patch_def)

lemma kept_write: "sel_write s address sz v = Some s' \<Longrightarrow> kept s s'"
  by (auto simp: sel_write_def kept_def machine_ok_def length_patch_inside Let_def bind_eq_Some_conv split: if_splits)

lemma kept_read: "sel_read s address sz = Some (v, s') \<Longrightarrow> kept s s'"
  by (auto simp: sel_read_def bind_eq_Some_conv split: if_splits)

lemma kept_move_wide: "op_move_wide instr s = Some s' \<Longrightarrow> kept s s'"
  by (auto simp: op_move_wide_def Let_def bind_eq_Some_conv split: if_splits)

lemma kept_add_sub: "op_add_sub instr s = Some s' \<Longrightarrow> kept s s'"
  by (auto simp: op_add_sub_def Let_def bind_eq_Some_conv case_prod_beta split: if_splits)

lemma kept_logical: "op_logical instr s = Some s' \<Longrightarrow> kept s s'"
  by (auto simp: op_logical_def Let_def bind_eq_Some_conv split: if_splits)

lemma kept_bitfield: "op_bitfield instr s = Some s' \<Longrightarrow> kept s s'"
  by (auto simp: op_bitfield_def Let_def bind_eq_Some_conv split: if_splits)

lemma kept_load_store: "op_load_store instr s = Some s' \<Longrightarrow> kept s s'"
  by (auto simp: op_load_store_def Let_def bind_eq_Some_conv split: if_splits prod.splits dest: kept_read kept_write)

lemmas kept_ops = kept_move_wide kept_add_sub kept_logical kept_bitfield kept_load_store

text \<open>The recorded calls: at most the allowed number, all to executable addresses.\<close>

definition calls_ok :: "nat \<Rightarrow> selector \<Rightarrow> bool" where
  "calls_ok max_calls s \<longleftrightarrow> machine_ok s \<and> length (sel_calls s) \<le> max_calls
     \<and> list_all (executable_address (sel_layout s)) (sel_calls s)"

lemma calls_ok_kept: "calls_ok m s \<Longrightarrow> kept s s' \<Longrightarrow> calls_ok m s' \<and> sel_layout s' = sel_layout s"
  by (simp add: calls_ok_def kept_def)

lemma calls_ok_call:
  assumes "op_call instr m next_pc s = Some s'" and "calls_ok m s"
  shows "calls_ok m s' \<and> sel_layout s' = sel_layout s"
  using assms by (auto simp: op_call_def calls_ok_def machine_ok_def bind_eq_Some_conv split: if_splits)

lemma go_on_Some: "go_on pc r = Some out \<longleftrightarrow> (\<exists>s. r = Some s \<and> out = Running pc s)"
  by (auto simp: go_on_def)

lemma branch_if_Some: "branch_if taken pc next_pc instr s = Some out \<Longrightarrow> \<exists>t. out = Running t s"
  by (auto simp: branch_if_def bind_eq_Some_conv split: if_splits)

lemma finish_Some: "finish instr s = Some out \<Longrightarrow> out = Finished (sel_calls s) \<and> sel_calls s \<noteq> []"
  by (auto simp: finish_def bind_eq_Some_conv split: if_splits)

definition step_goal :: "nat \<Rightarrow> selector \<Rightarrow> outcome \<Rightarrow> bool" where
  "step_goal m s out \<longleftrightarrow> (case out of Finished calls \<Rightarrow> calls = sel_calls s \<and> calls \<noteq> []
     | Running t s' \<Rightarrow> calls_ok m s' \<and> sel_layout s' = sel_layout s)"

lemma step_goal_finish: "finish instr s = Some out \<Longrightarrow> step_goal m s out"
  by (auto simp: step_goal_def dest: finish_Some)

lemma step_goal_run: "calls_ok m s \<Longrightarrow> kept s s' \<Longrightarrow> step_goal m s (Running t s')"
  unfolding step_goal_def outcome.case by (rule calls_ok_kept)

lemma step_goal_branch: "calls_ok m s \<Longrightarrow> branch_if taken pc next_pc instr s = Some out \<Longrightarrow> step_goal m s out"
  using branch_if_Some step_goal_run [OF _ kept_refl] by metis

lemma step_goal_go_on:
  assumes "go_on pc r = Some out" and "\<And>s'. r = Some s' \<Longrightarrow> kept s s'" and "calls_ok m s"
  shows "step_goal m s out"
  using assms(1,2) step_goal_run [OF assms(3)] unfolding go_on_Some by blast

lemma step_goal_call: "go_on pc (op_call instr m next_pc s) = Some out \<Longrightarrow> calls_ok m s \<Longrightarrow> step_goal m s out"
  by (auto simp: go_on_Some step_goal_def dest: calls_ok_call)

text \<open>Properties of every outcome, through the structure of the code.\<close>

lemma pred_option_if: "(c \<Longrightarrow> pred_option P a) \<Longrightarrow> (\<not> c \<Longrightarrow> pred_option P b) \<Longrightarrow> pred_option P (if c then a else b)"
  by simp

lemma pred_option_bind: "(\<And>x. r = Some x \<Longrightarrow> pred_option P (f x)) \<Longrightarrow> pred_option P (Option.bind r f)"
  by (cases r) auto

lemma pred_option_ok: "(\<And>x. r = Ok x \<Longrightarrow> pred_option P (f x)) \<Longrightarrow> pred_option P (case r of Ok x \<Rightarrow> f x | _ \<Rightarrow> None)"
  by (cases r) auto

lemma pred_optionI: "(\<And>x. r = Some x \<Longrightarrow> P x) \<Longrightarrow> pred_option P r"
  by (cases r) auto

lemma pred_optionD: "pred_option P r \<Longrightarrow> r = Some x \<Longrightarrow> P x"
  by simp

lemmas pred_option_steps = pred_option_if pred_option_bind pred_option_ok

lemma step_calls_ok:
  assumes "step m pc s = Some out" and ok: "calls_ok m s"
  shows "step_goal m s out"
proof -
  have adrp: "kept s s'" if "map_option (\<lambda>v. set_reg rd v 64 False s) t = Some s'" for s' rd t
    using that by auto
  have "pred_option (step_goal m s) (step m pc s)"
    unfolding step_def
    by (intro pred_option_steps)
      (auto intro!: pred_optionI intro: step_goal_finish step_goal_call [OF _ ok] step_goal_branch [OF ok] step_goal_run [OF ok]
        elim: step_goal_go_on [OF _ kept_move_wide ok] step_goal_go_on [OF _ kept_add_sub ok] step_goal_go_on [OF _ kept_logical ok]
          step_goal_go_on [OF _ kept_bitfield ok] step_goal_go_on [OF _ kept_load_store ok] step_goal_go_on [OF _ adrp ok])
  then show ?thesis using assms(1) by (rule pred_optionD)
qed

lemma run_steps_calls:
  "run_steps n m pc s = Some calls \<Longrightarrow> calls_ok m s \<Longrightarrow>
   calls \<noteq> [] \<and> length calls \<le> m \<and> list_all (executable_address (sel_layout s)) calls"
proof (induction n arbitrary: pc s)
  case (Suc n)
  then obtain out where out: "step m pc s = Some out" by (auto split: option.splits)
  note g = step_calls_ok [OF out Suc.prems(2)]
  show ?case
  proof (cases out)
    case (Finished cs)
    have "cs = sel_calls s \<and> cs \<noteq> []" using g unfolding Finished step_goal_def outcome.case .
    moreover have "calls = cs" using Finished Suc.prems(1) out by simp
    ultimately show ?thesis using Suc.prems(2) by (auto simp: calls_ok_def)
  next
    case (Running t s')
    then show ?thesis using Suc.prems g out Suc.IH [of t s'] by (simp add: step_goal_def)
  qed
qed simp

lemma calls_ok_new: "calls_ok m (new_selector code img layout)"
  by (simp add: calls_ok_def machine_ok_def new_selector_def)

lemma run_selector_calls:
  assumes "run_selector f m (new_selector code img layout) = Some calls"
  shows "calls \<noteq> [] \<and> length calls \<le> m \<and> list_all (executable_address layout) calls"
proof -
  have "sel_layout (new_selector code img layout) = layout" by (simp add: new_selector_def)
  then show ?thesis
    using assms run_steps_calls [OF _ calls_ok_new, of _ m f code img layout calls] by (auto simp: run_selector_def bind_eq_Some_conv)
qed

section \<open>Arithmetic\<close>

text \<open>The architecture's \<open>AddWithCarry\<close>: the result and the flags negative, zero, carry and overflow, the last two from
  the sums of the operands as unsigned and as signed numbers. A subtraction adds the complement with a carry in.\<close>

definition add_with_carry :: "'a::len word \<Rightarrow> 'a word \<Rightarrow> bool \<Rightarrow> 'a word \<times> bool \<times> bool \<times> bool \<times> bool" where
  "add_with_carry x y c =
     (let r = x + y + of_bool c
      in (r, sint r < 0, r = 0, uint x + uint y + of_bool c \<noteq> uint r, sint x + sint y + of_bool c \<noteq> sint r))"

lemma and_mask_bits: "n \<le> 64 \<Longrightarrow> w AND mask_bits n = take_bit n w"
  by (rule bit_word_eqI) (auto simp: mask_bits_def bit_simps)

lemma and_sign_nonzero: "k < 64 \<Longrightarrow> (w AND push_bit k (1 :: u64) \<noteq> 0) = bit w k"
  by (auto simp: bit_eq_iff [of _ "0 :: u64"] bit_simps)

lemma sint_neg: "(sint (w :: 'a::len word) < 0) = bit w (LENGTH('a) - 1)"
  by (simp add: bit_last_iff)

lemma sint_sum:
  fixes x y :: "'a::len word"
  obtains k where "sint (x + y + of_bool c) = sint x + sint y + of_bool c + 2 ^ LENGTH('a) * k"
proof -
  have "(of_int (sint (x + y + of_bool c)) :: 'a word) = of_int (sint x + sint y + of_bool c)"
    by simp
  then have "sint (x + y + of_bool c) mod 2 ^ LENGTH('a) = (sint x + sint y + of_bool c) mod 2 ^ LENGTH('a)"
    unfolding word_of_int_eq_iff take_bit_eq_mod .
  then show ?thesis using that by (metis mod_eqE add_diff_cancel_left' diff_add_cancel)
qed

lemma sint_bounds: "- (2 ^ (LENGTH('a) - 1)) \<le> sint (w :: 'a::len word)" "sint (w :: 'a::len word) < 2 ^ (LENGTH('a) - 1)"
  by (simp_all add: sint_greater_eq sint_less)

lemma sint_sum_overflow:
  fixes x y :: "'a::len word"
  assumes r: "r = x + y + of_bool c"
  shows "(sint x + sint y + of_bool c \<noteq> sint r) = ((sint x < 0) = (sint y < 0) \<and> (sint x < 0) \<noteq> (sint r < 0))"
proof -
  obtain k where k: "sint r = sint x + sint y + of_bool c + 2 ^ LENGTH('a) * k"
    using sint_sum [of x y c] unfolding r by blast
  define B :: int where "B = 2 ^ (LENGTH('a) - 1)"
  have two: "(2 :: int) ^ LENGTH('a) = 2 * B" unfolding B_def by (metis len_gt_0 power_minus_mult mult.commute)
  have pos: "0 < B" by (simp add: B_def)
  note b = sint_bounds [of x, folded B_def] sint_bounds [of y, folded B_def] sint_bounds [of r, folded B_def]
  have "k \<in> {-1, 0, 1}"
  proof -
    have c: "0 \<le> (of_bool c :: int)" "(of_bool c :: int) \<le> 1" by simp_all
    have "2 * B * k < 2 * B * 2" "2 * B * (- 2) < 2 * B * k" using k b c pos unfolding two by linarith+
    then have "k < 2" "- 2 < k" using pos by (simp_all only: mult_less_cancel_left_pos)
    then show ?thesis by auto
  qed
  then show ?thesis using k b pos unfolding two by (cases c) auto
qed

lemma uint_sum_carry:
  fixes x y :: "'a::len word"
  shows "(uint x + uint y + of_bool c \<noteq> uint (x + y + of_bool c)) = (2 ^ LENGTH('a) \<le> uint x + uint y + of_bool c)"
proof -
  have "uint (x + y + of_bool c) = (uint x + uint y + of_bool c) mod 2 ^ LENGTH('a)"
    by (simp add: uint_word_ariths mod_simps)
  moreover have "0 \<le> uint x + uint y + of_bool c" by simp
  moreover have "0 \<le> (uint x + uint y + of_bool c) mod 2 ^ LENGTH('a)" "(uint x + uint y + of_bool c) mod 2 ^ LENGTH('a) < 2 ^ LENGTH('a)" by simp_all
  ultimately show ?thesis by (metis linorder_not_le mod_pos_pos_trivial)
qed

lemma take_bit_sum:
  fixes x y :: "'a::len word"
  assumes "LENGTH('a) \<le> 64"
  shows "take_bit LENGTH('a) (ucast x + ucast y :: u64) = ucast (x + y)"
    and "take_bit LENGTH('a) (ucast x - ucast y :: u64) = ucast (x - y)"
proof -
  have down: "(ucast (ucast z :: u64) :: 'a word) = z" for z :: "'a word"
    using assms by (simp add: ucast_up_ucast_id is_up)
  have low: "take_bit LENGTH('a) (w :: u64) = ucast (ucast w :: 'a word)" for w
    using assms by (intro bit_word_eqI) (auto simp: bit_simps)
  have "ucast (v + w) = (ucast v + ucast w :: 'a word)" "ucast (v - w) = (ucast v - ucast w :: 'a word)" for v w :: u64
    using assms by (simp_all add: ucast_down_add)
  then show "take_bit LENGTH('a) (ucast x + ucast y :: u64) = ucast (x + y)"
    and "take_bit LENGTH('a) (ucast x - ucast y :: u64) = ucast (x - y)"
    by (simp_all add: low down)
qed


lemma add_sub_agrees_width:
  fixes x y :: "'a::len word"
  assumes w: "LENGTH('a) \<le> 64"
  shows "add_sub LENGTH('a) subtract (ucast x) (ucast y) =
    (case add_with_carry x (if subtract then NOT y else y) subtract of (r, flags) \<Rightarrow> (ucast r, flags))"
proof -
  define r where "r = (if subtract then x - y else x + y)"
  have r: "x + (if subtract then NOT y else y) + of_bool subtract = r"
    by (simp add: r_def minus_eq_not_plus_1 [symmetric] algebra_simps not_eq_complement)
  have v: "(if subtract then ucast x - ucast y else ucast x + ucast y) AND mask_bits LENGTH('a) = (ucast r :: u64)"
    using w by (simp add: and_mask_bits take_bit_sum r_def)
  define n where "n = LENGTH('a) - 1"
  let ?y = "if subtract then NOT y else y"
  have last: "n < 64" using w by (simp add: less_eq_Suc_le n_def)
  have bit_up: "bit (ucast z :: u64) n = (sint z < 0)" for z :: "'a word"
    using w unfolding sint_neg n_def [symmetric] using last by (simp add: bit_simps)
  have not_y: "(sint (NOT y) < 0) = (\<not> sint y < 0)" unfolding sint_neg by (simp add: bit_simps)
  have overflow: "(if subtract then (ucast x XOR ucast y) AND (ucast x XOR ucast r) AND push_bit n (1 :: u64) \<noteq> 0
      else NOT (ucast x XOR ucast y) AND (ucast x XOR ucast r) AND push_bit n (1 :: u64) \<noteq> 0)
    = (sint x + sint ?y + of_bool subtract \<noteq> sint r)"
    unfolding sint_sum_overflow [OF r [symmetric]] and.assoc [symmetric] and_sign_nonzero [OF last]
    using last by (auto simp: bit_and_iff bit_xor_iff bit_not_iff bit_up not_y)
  have uint_not: "uint (NOT y) = 2 ^ LENGTH('a) - 1 - uint y"
    by (simp add: unsigned_not_eq take_bit_not_eq_mask_diff mask_eq_exp_minus_1 take_bit_int_eq_self)
  have up: "uint (ucast z :: u64) = uint z" "unat (ucast z :: u64) = unat z" for z :: "'a word"
    using w unfolding unat_eq_nat_uint by (simp_all add: uint_up_ucast is_up)
  have "uint (mask_bits LENGTH('a)) = uint (take_bit LENGTH('a) (- 1 :: u64))" using and_mask_bits [OF w, of "- 1"] by simp
  also have "\<dots> = take_bit LENGTH('a) (mask 64)" by (simp only: unsigned_take_bit_eq unsigned_minus_1_eq_mask) simp
  finally have full_int: "uint (mask_bits LENGTH('a)) = 2 ^ LENGTH('a) - 1"
    using w unfolding take_bit_of_mask min_absorb1 [OF w] by (simp add: mask_eq_exp_minus_1)
  have full: "unat (mask_bits LENGTH('a)) = 2 ^ LENGTH('a) - 1"
    unfolding unat_eq_nat_uint full_int by (simp add: nat_diff_distrib nat_power_eq)
  have nat_sum: "(2 ^ LENGTH('a) - 1 < unat x + unat y) = (2 ^ LENGTH('a) \<le> uint x + uint y)"
  proof -
    have "(2 ^ LENGTH('a) - 1 < unat x + unat y) = ((2 :: nat) ^ LENGTH('a) \<le> unat x + unat y)"
      using zero_less_power [of "2 :: nat" "LENGTH('a)"] by linarith
    also have "\<dots> = (int (2 ^ LENGTH('a)) \<le> int (unat x + unat y))" by (simp only: of_nat_le_iff)
    also have "\<dots> = (2 ^ LENGTH('a) \<le> uint x + uint y)" by simp
    finally show ?thesis .
  qed
  have carry: "(if subtract then ucast y \<le> (ucast x :: u64) else unat (mask_bits LENGTH('a)) < unat (ucast x :: u64) + unat (ucast y :: u64))
    = (uint x + uint ?y + of_bool subtract \<noteq> uint r)"
    unfolding uint_sum_carry [of x ?y subtract, unfolded r] full up word_le_def nat_sum by (cases subtract) (auto simp: uint_not)
  have zero: "(ucast r = (0 :: u64)) = (r = 0)"
    using up(1) [of r] by (metis uint_0_iff)
  show ?thesis
    unfolding add_sub_def add_with_carry_def Let_def r v overflow carry zero n_def [symmetric] and_sign_nonzero [OF last] bit_up by simp
qed


text \<open>The interpreter's additions and subtractions, at 32 and at 64 bits, compute the result and the four flags of
  the architecture's \<open>AddWithCarry\<close>: carry and overflow say that the unsigned and the signed sums do not fit.\<close>

lemma add_sub_agrees:
  fixes x y :: u32 and u v :: u64
  shows "add_sub 32 subtract (ucast x) (ucast y) =
      (case add_with_carry x (if subtract then NOT y else y) subtract of (r, flags) \<Rightarrow> (ucast r, flags))
    \<and> add_sub 64 subtract u v = add_with_carry u (if subtract then NOT v else v) subtract"
  using add_sub_agrees_width [of subtract x y] add_sub_agrees_width [of subtract u v]
  by (simp add: case_prod_beta ucast_id)

section \<open>The stack\<close>

lemma all_some_map_Some [simp]: "all_some (map Some xs) = Some xs"
  by (auto simp: all_some_def comp_def)

lemma read_after_write:
  assumes w: "sel_write s address sz v = Some s'"
  shows "sel_read s' address sz = Some (from_le (to_le sz v), s')"
proof -
  obtain d where d: "chk_sub_w address STACK = Some d" "unat d + sz \<le> length (sel_stack s)" "unat d + sz < usize_limit"
    and s': "s' = s\<lparr>sel_stack := patch (sel_stack s) (unat d) (map Some (to_le sz v))\<rparr>"
    using w by (auto simp: sel_write_def Let_def bind_eq_Some_conv chk_add_def split: if_splits)
  have le: "STACK \<le> address" and da: "address - STACK = d" using d(1) by (auto simp: chk_sub_w_def split: if_splits)
  have "address \<noteq> RUNTIME + 8" using le by (auto simp: STACK_def RUNTIME_def)
  moreover have "get_range (patch (sel_stack s) (unat d) (map Some (to_le sz v))) (unat d) sz = Some (map Some (to_le sz v))"
    using d(2) by (auto simp: get_range_def patch_def window_def)
  ultimately show ?thesis unfolding sel_read_def using le d by (simp add: da s' chk_add_def)
qed

section \<open>Callbacks\<close>

lemma length_one: "length xs = 1 \<Longrightarrow> \<exists>x. xs = [x]"
  by (cases xs) auto

lemma concat_options:
  "concat (map (\<lambda>f. case g f of None \<Rightarrow> [] | Some c \<Rightarrow> [c]) xs) = map (\<lambda>f. the (g f)) (filter (\<lambda>f. g f \<noteq> None) xs)"
  by (induction xs) auto

text \<open>C24. A callback list comes from exactly one function: one that direct calls reach from the entry, that calls
  through a register, and whose interpretation returns it, while that of every other such function is rejected. It is
  not empty, has at most the allowed number of entries, and each is an executable address of the image.\<close>

lemma callbacks_sound:
  assumes "callbacks code entry img layout max_calls = Ok calls"
  shows "(\<exists>!f. called code (ucast entry) f \<and> calls_register code f \<and> run_selector f max_calls (new_selector code img layout) \<noteq> None)
    \<and> (\<exists>f. called code (ucast entry) f \<and> calls_register code f \<and> run_selector f max_calls (new_selector code img layout) = Some calls)
    \<and> calls \<noteq> [] \<and> length calls \<le> max_calls \<and> list_all (executable_address layout) calls"
proof -
  let ?run = "\<lambda>f. run_selector f max_calls (new_selector code img layout)"
  obtain fs where fs: "selector_functions code entry = Ok fs"
    and one: "length (filter (\<lambda>f. ?run f \<noteq> None) (sorted_list_of_set fs)) = 1"
    and calls: "calls = last (map (\<lambda>f. the (?run f)) (filter (\<lambda>f. ?run f \<noteq> None) (sorted_list_of_set fs)))"
    using assms by (auto simp: callbacks_def rbind_Ok_conv Let_def concat_options split: if_splits)
  obtain f where single: "filter (\<lambda>f. ?run f \<noteq> None) (sorted_list_of_set fs) = [f]"
    using length_one [OF one] by blast
  have fin: "finite fs" 
  proof (rule ccontr)
    assume "infinite fs"
    then have "sorted_list_of_set fs = []" by simp
    then show False using single by simp
  qed
  have only: "{g \<in> fs. ?run g \<noteq> None} = {f}" using arg_cong [OF single, of set] fin by simp
  then have f: "f \<in> fs" "?run f \<noteq> None" by blast+
  then have run: "?run f = Some calls" unfolding calls single by simp
  have mem: "g \<in> fs \<longleftrightarrow> called code (ucast entry) g \<and> calls_register code g" for g
    unfolding selector_set [OF fs] by blast
  have "\<exists>!g. called code (ucast entry) g \<and> calls_register code g \<and> ?run g \<noteq> None"
    by (rule ex1I [of _ f]) (use f only mem in auto)
  moreover have "calls \<noteq> [] \<and> length calls \<le> max_calls \<and> list_all (executable_address layout) calls"
    using run_selector_calls [OF run] .
  ultimately show ?thesis using f run mem by blast
qed

section \<open>A sample module\<close>

text \<open>A selector with one callback: it reads the address of the image, keeps its return address in a register,
  calls, and returns one.\<close>

definition sample_code :: bytes where
  "sample_code = [0x01, 0x04, 0x40, 0xf9, 0xf3, 0x03, 0x1e, 0xaa, 0x20, 0x00, 0x3f, 0xd6, 0x20, 0x00, 0x80, 0xd2, 0x60, 0x02, 0x5f, 0xd6]"

definition sample_layout :: elf_layout where
  "sample_layout = \<lparr>entrypoint = 0, program_header_offset = 64, program_header_size = 56, program_header_count = 1,
     program_headers = [\<lparr>p_offset = 0, p_vaddr = 0, p_filesz = 4, p_memsz = 4, p_flags = 1, p_align = 0\<rparr>],
     section_headers = [], section_name_index = 0, private_section_index = 0\<rparr>"

lemma numeral_less_usize: "n \<le> 100 \<Longrightarrow> n < usize_limit" by (simp add: usize_limit_def)

lemma fetch:
  "(read_le 4 sample_code 0 :: (u32, err) res) = Ok 0xf9400401"
  "(read_le 4 sample_code 4 :: (u32, err) res) = Ok 0xaa1e03f3"
  "(read_le 4 sample_code 8 :: (u32, err) res) = Ok 0xd63f0020"
  "(read_le 4 sample_code 12 :: (u32, err) res) = Ok 0xd2800020"
  "(read_le 4 sample_code 16 :: (u32, err) res) = Ok 0xd65f0260"
  by (simp_all add: read_le_def checked_slice_def chk_add_def get_range_def window_def sample_code_def numeral_less_usize)

lemma flow:
  "flow_at sample_code 0 = Ok ([], [4], False)"
  "flow_at sample_code 4 = Ok ([], [8], False)"
  "flow_at sample_code 8 = Ok ([], [12], True)"
  "flow_at sample_code 12 = Ok ([], [16], False)"
  "flow_at sample_code 16 = Ok ([], [], False)"
  by (simp_all add: flow_at_def fetch conditional_bits_def)

lemma explore_single:
  "explore code [pc] visited stack selects budget =
     (if pc \<in> visited then Ok (stack, selects, budget)
      else if budget = 0 then Err ''constructor module control flow exceeds analysis budget''
      else rbind (flow_at code pc) (\<lambda>(calls, nexts, blr).
             explore code nexts (insert pc visited) (stack @ calls) (selects \<or> blr) (budget - 1)))"
  using explore_snoc [of code "[]" pc] by (simp add: explore_empty)

lemma sample_selectors: "selector_functions sample_code 0 = Ok {0}"
  unfolding selector_functions_def ANALYSIS_BUDGET_def
  by (simp add: explore_functions.simps [of _ "[0]"] explore_functions.simps [of _ "[]"] explore_single flow explore_empty)

text \<open>The states of its run.\<close>

definition sample_state :: "u64 option list \<Rightarrow> bool \<Rightarrow> u64 list \<Rightarrow> selector" where
  "sample_state regs b calls = (new_selector sample_code [] sample_layout)\<lparr>sel_registers := regs, sel_read_image_base := b, sel_calls := calls\<rparr>"

definition sample_regs :: "u64 option \<Rightarrow> u64 option \<Rightarrow> u64 option \<Rightarrow> u64 option \<Rightarrow> u64 option list" where
  "sample_regs x0 x1 x19 x30 = (replicate 31 None)[0 := x0, 1 := x1, 19 := x19, 30 := x30]"

lemma sample_regs_at [simp]:
  "sample_regs x0 x1 x19 x30 ! 0 = x0" "sample_regs x0 x1 x19 x30 ! Suc 0 = x1" "sample_regs x0 x1 x19 x30 ! 19 = x19"
  "sample_regs x0 x1 x19 x30 ! 30 = x30"
  "(sample_regs x0 x1 x19 x30)[0 := v] = sample_regs v x1 x19 x30"
  "(sample_regs x0 x1 x19 x30)[Suc 0 := v] = sample_regs x0 v x19 x30"
  "(sample_regs x0 x1 x19 x30)[19 := v] = sample_regs x0 x1 v x30"
  "(replicate 19 None @ drop 19 (sample_regs x0 x1 x19 x30))[30 := v] = sample_regs None None x19 v"
  by (simp_all add: sample_regs_def eval_nat_numeral)

lemma mask64 [simp]: "(v :: u64) AND mask_bits 64 = v"
  by (simp add: and_mask_bits take_bit_word_eq_self)

lemmas run_defs = step_def sample_state_def new_selector_def fetch go_on_def op_rn_def op_rd_def op_width_def Let_def reg_def set_reg_def
  chk_add_w_def RUNTIME_def IMAGE_def STACK_def

lemma sample_steps:
  "step 1 0 (sample_state (sample_regs (Some RUNTIME) None None (Some RETURN)) False []) =
    Some (Running 4 (sample_state (sample_regs (Some RUNTIME) (Some IMAGE) None (Some RETURN)) True []))"
  "step 1 4 (sample_state (sample_regs (Some RUNTIME) (Some IMAGE) None (Some RETURN)) True []) =
    Some (Running 8 (sample_state (sample_regs (Some RUNTIME) (Some IMAGE) (Some RETURN) (Some RETURN)) True []))"
  "step 1 8 (sample_state (sample_regs (Some RUNTIME) (Some IMAGE) (Some RETURN) (Some RETURN)) True []) =
    Some (Running 12 (sample_state (sample_regs None None (Some RETURN) (Some 12)) True [0]))"
  "step 1 12 (sample_state (sample_regs None None (Some RETURN) (Some 12)) True [0]) =
    Some (Running 16 (sample_state (sample_regs (Some 1) None (Some RETURN) (Some 12)) True [0]))"
  "step 1 16 (sample_state (sample_regs (Some 1) None (Some RETURN) (Some 12)) True [0]) = Some (Finished [0])"
  by (simp_all add: run_defs op_load_store_def sel_read_def op_logical_def shifted_register_def op_call_def chk_sub_w_def
     executable_address_def sample_layout_def op_move_wide_def finish_def)

lemma sample_new: "new_selector sample_code [] sample_layout = sample_state (sample_regs (Some RUNTIME) None None (Some RETURN)) False []"
  by (simp add: sample_state_def new_selector_def sample_regs_def eval_nat_numeral)

lemma sample_run: "run_selector 0 1 (new_selector sample_code [] sample_layout) = Some [0]"
proof -
  have b: "run_budget 1 = Some 1536" by (simp add: run_budget_def chk_add_def chk_mul_def usize_limit_def)
  have n: "1536 = Suc (Suc (Suc (Suc (Suc 1531))))" by simp
  show ?thesis
    unfolding run_selector_def b bind.bind_lunit sample_new n run_steps.simps sample_steps option.case outcome.case by (rule refl)
qed

lemma sample_callbacks: "callbacks sample_code 0 [] sample_layout 1 = Ok [0]"
  using sample_run by (simp add: callbacks_def sample_selectors)

lemma selector_functions_exact_witness:
  "selector_functions sample_code 0 = Ok {0} \<and> {0} = {f. called sample_code 0 f \<and> calls_register sample_code f}"
  using selector_functions_exact [OF sample_selectors] sample_selectors by simp

lemma callbacks_sound_witness:
  "callbacks sample_code 0 [] sample_layout 1 = Ok [0] \<and> list_all (executable_address sample_layout) [0]"
  using callbacks_sound [OF sample_callbacks] sample_callbacks by simp

end
