(* ===== verification/PageCiphers.thy ===== *)
theory PageCiphers
  imports Primitives
begin

unbundle bit_operations_syntax

text \<open>
  The byte ciphers the PE pipelines keep for themselves: \<^verbatim>\<open>decrypt_data4\<close>, \<^verbatim>\<open>decrypt_data5\<close> and \<^verbatim>\<open>decrypt_data8\<close> of
  \<^verbatim>\<open>windows/exe/pipeline.rs\<close>, their counterparts in \<^verbatim>\<open>windows/dll/pipeline.rs\<close> with signed addresses, and the
  predictors \<^verbatim>\<open>trial_decrypt5_u32\<close> (\<^verbatim>\<open>layout/discovery.rs\<close>) and \<^verbatim>\<open>dd8_candidate_byte\<close>, \<^verbatim>\<open>dd8_apply\<close>
  (\<^verbatim>\<open>layout/dd8.rs\<close>), which have to agree with the ciphers they predict.
\<close>

section \<open>The rotation ciphers\<close>

definition rot_byte :: "nat \<Rightarrow> u8 \<Rightarrow> u8 \<Rightarrow> u8 \<Rightarrow> u8" where
  "rot_byte r b b2 v = word_rotl r (word_rotl r (word_rotl r v XOR b2) XOR b)"

text \<open>One byte of a loop; \<open>addr\<close> gives the index of the byte as a \<open>usize\<close>.\<close>

definition rot_body :: "nat \<Rightarrow> (nat \<Rightarrow> nat) \<Rightarrow> nat \<Rightarrow> bytes \<times> u8 \<times> u8 \<Rightarrow> (bytes \<times> u8 \<times> u8, 'e) res" where
  "rot_body r addr i = (\<lambda>(d, b, b2).
     rbind (idx d (addr i)) (\<lambda>v.
     rbind (set_at d (addr i) (rot_byte r b b2 v)) (\<lambda>d'. Ok (d', b + 1, b2 + 1))))"

definition decrypt_data4 :: "bytes \<Rightarrow> u32 \<Rightarrow> (bytes, 'e) res" where
  "decrypt_data4 d pos =
     rbind (get_u32 d pos) (\<lambda>base.
     rbind (get_u32 d (pos + 4)) (\<lambda>len.
       let b = ucast ((drop_bit 8 base + base) AND 0xFF) in
       rbind (foldM (rot_body 3 (\<lambda>i. unat (base + word_of_nat i))) [0..<unat len] (d, b, b + 1)) (\<lambda>r. Ok (fst r))))"

definition decrypt_data5 :: "bytes \<Rightarrow> u32 \<Rightarrow> u32 \<Rightarrow> (bytes, 'e) res" where
  "decrypt_data5 d va sz =
     rbind (foldM (rot_body 2 (\<lambda>i. unat (va + word_of_nat i))) [0..<unat sz] (d, ucast va, ucast va + 1)) (\<lambda>r. Ok (fst r))"

text \<open>\<open>i32 as usize\<close> extends the sign; a range \<open>0..n\<close> over a negative \<open>n\<close> is empty.\<close>

definition i32_as_usize :: "u32 \<Rightarrow> nat" where
  "i32_as_usize v = unat (scast v :: u64)"

definition decrypt_data3_shift5 :: "bytes \<Rightarrow> u32 \<Rightarrow> (bytes, 'e) res" where
  "decrypt_data3_shift5 d off =
     rbind (get_u32 d off) (\<lambda>addr.
     rbind (get_u32 d (off + 4)) (\<lambda>sz.
       let key1 = ucast addr + ucast (signed_drop_bit 8 addr) in
       rbind (foldM (rot_body 3 (\<lambda>i. i32_as_usize (addr + word_of_nat i))) [0..<nat (sint sz)] (d, key1, key1 + 1)) (\<lambda>r. Ok (fst r))))"

definition decrypt_data6_shift6 :: "bytes \<Rightarrow> u32 \<Rightarrow> u32 \<Rightarrow> (bytes, 'e) res" where
  "decrypt_data6_shift6 d off sz =
     rbind (foldM (rot_body 2 (\<lambda>i. i32_as_usize (off + word_of_nat i))) [0..<nat (sint sz)] (d, ucast off, ucast off + 1))
       (\<lambda>r. Ok (fst r))"

definition trial_byte :: "bytes \<Rightarrow> u32 \<Rightarrow> (u8, 'e) res" where
  "trial_byte data va = rbind (idx data (unat va)) (\<lambda>b3. Ok (rot_byte 2 (ucast va) (ucast va + 1) b3))"

definition trial_decrypt5_u32 :: "bytes \<Rightarrow> u32 \<Rightarrow> (u32, 'e) res" where
  "trial_decrypt5_u32 data va = rbind (mapM (\<lambda>i. trial_byte data (va + word_of_nat i)) [0..<4]) (\<lambda>out. Ok (from_le out))"

section \<open>The page cipher\<close>

text \<open>One round of the key: the word that places the byte and the next key.\<close>

definition dd8_round :: "u32 \<Rightarrow> u32 \<Rightarrow> u32 \<times> u32" where
  "dd8_round key i = (let mixed = word_rotr 15 key + i in (mixed, mixed + i))"

definition data8_body :: "u32 \<Rightarrow> nat \<Rightarrow> bytes \<times> u32 \<Rightarrow> (bytes \<times> u32, 'e) res" where
  "data8_body va i = (\<lambda>(d, key).
     let (mixed, key') = dd8_round key (word_of_nat i) in
     if i = 0 then Ok (d, key')
     else
     let target = unat (va + word_of_nat i * 16 + (mixed AND 0xF)) in
     rbind (idx d target) (\<lambda>v. rbind (set_at d target (v XOR ucast key')) (\<lambda>d'. Ok (d', key'))))"

definition decrypt_data8 :: "bytes \<Rightarrow> u32 \<Rightarrow> u32 \<Rightarrow> u32 \<Rightarrow> (bytes, 'e) res" where
  "decrypt_data8 d va sz key =
     rbind (foldM (data8_body va) [0..<unat (drop_bit 4 sz)] (d, key)) (\<lambda>r. Ok (fst r))"

text \<open>\<open>dd8_apply\<close> works on a page of its own; the shift of the callers is 0 or 15.\<close>

definition dd8_apply :: "bytes \<Rightarrow> u32 \<Rightarrow> nat \<Rightarrow> (bytes, 'e) res" where
  "dd8_apply page abs_page shift = rbind (foldM (data8_body 0) [0..<256] (page, push_bit shift abs_page)) (\<lambda>r. Ok (fst r))"

definition candidate_step :: "u32 \<Rightarrow> u32 \<Rightarrow> nat \<Rightarrow> u8 \<times> u32 \<Rightarrow> u8 \<times> u32" where
  "candidate_step rva page i = (\<lambda>(b, key).
     let index = word_of_nat i; (mixed, key') = dd8_round key index;
         target = push_bit 12 page + push_bit 4 index + (mixed AND 0xF)
     in (if index \<noteq> 0 \<and> target = rva then b XOR ucast key' else b, key'))"

definition dd8_candidate_byte :: "bytes \<Rightarrow> u32 \<Rightarrow> nat option \<Rightarrow> u8 option" where
  "dd8_candidate_byte data rva shift =
     Option.bind (if unat rva < length data then Some (data ! unat rva) else None) (\<lambda>b.
       case shift of
         None \<Rightarrow> Some b
       | Some sh \<Rightarrow>
           let page = drop_bit 12 rva; block = unat (drop_bit 4 (rva AND 0xFFF)) in
           Some (fst (fold (candidate_step rva page) [0..<Suc block] (b, push_bit sh page))))"

section \<open>What the loops compute\<close>

text \<open>A loop that rewrites byte after byte of a range, the keys counting up.\<close>

lemma rot_loop:
  assumes "\<And>i. a \<le> i \<Longrightarrow> i < a + n \<Longrightarrow> addr i = base + i" and "base + (a + n) \<le> length d"
  shows "\<exists>s. (foldM (rot_body r addr) [a..<a + n] (d, b, b2) :: (bytes \<times> u8 \<times> u8, 'e) res) =
    Ok (patch d (base + a) (map (\<lambda>i. rot_byte r (b + word_of_nat i) (b2 + word_of_nat i) (d ! (base + a + i))) [0..<n]), s)"
  using assms
proof (induction n arbitrary: a d b b2)
  case (Suc n)
  let ?v = "rot_byte r b b2 (d ! (base + a))"
  let ?d = "d[base + a := ?v]"
  have body: "rot_body r addr a (d, b, b2) = Ok (?d, b + 1, b2 + 1)"
    using Suc.prems by (simp add: rot_body_def idx_in set_at_in)
  have upt: "[a..<a + Suc n] = a # [Suc a..<Suc a + n]" by (simp add: upt_conv_Cons)
  let ?f = "\<lambda>i. rot_byte r (b + 1 + word_of_nat i) (b2 + 1 + word_of_nat i) (?d ! (base + Suc a + i))"
  let ?g = "\<lambda>i. rot_byte r (b + word_of_nat i) (b2 + word_of_nat i) (d ! (base + a + i))"
  obtain s where s: "(foldM (rot_body r addr) [Suc a..<Suc a + n] (?d, b + 1, b2 + 1) :: (bytes \<times> u8 \<times> u8, 'e) res) =
      Ok (patch ?d (base + Suc a) (map ?f [0..<n]), s)"
    using Suc.IH [of "Suc a" ?d "b + 1" "b2 + 1"] Suc.prems by (auto simp: add.assoc)
  have f: "map ?f [0..<n] = map (\<lambda>i. ?g (Suc i)) [0..<n]"
    by (rule map_cong) (simp_all add: add.assoc)
  have g: "map ?g [0..<Suc n] = ?v # map ?f [0..<n]" unfolding map_upt_Suc f by simp
  have "patch ?d (base + Suc a) (map ?f [0..<n]) = patch d (base + a) (map ?g [0..<Suc n])"
    unfolding g using Suc.prems(2) by (simp add: patch_def upd_conv_take_nth_drop min_def drop_update_cancel ac_simps)
  then show ?case unfolding upt foldM.simps body rbind.simps s by blast
qed simp

lemma unat_add_of_nat:
  fixes a :: u32
  assumes "unat a + i < 2 ^ 32"
  shows "unat (a + word_of_nat i) = unat a + i"
  using assms by (simp add: unat_add_no_wrap unat_of_nat)

definition rot_region :: "nat \<Rightarrow> u8 \<Rightarrow> nat \<Rightarrow> nat \<Rightarrow> bytes \<Rightarrow> bytes" where
  "rot_region r b off n d = patch d off (map (\<lambda>i. rot_byte r (b + word_of_nat i) (b + 1 + word_of_nat i) (d ! (off + i))) [0..<n])"

lemma rot_run:
  assumes "\<And>i. i < n \<Longrightarrow> addr i = off + i" and "off + n \<le> length d"
  shows "rbind (foldM (rot_body r addr) [0..<n] (d, b, b + 1)) (\<lambda>r. Ok (fst r)) = (Ok (rot_region r b off n d) :: (bytes, 'e) res)"
proof -
  have "\<exists>s. (foldM (rot_body r addr) [0..<0 + n] (d, b, b + 1) :: (bytes \<times> u8 \<times> u8, 'e) res) =
      Ok (patch d (off + 0) (map (\<lambda>i. rot_byte r (b + word_of_nat i) (b + 1 + word_of_nat i) (d ! (off + 0 + i))) [0..<n]), s)"
    by (rule rot_loop) (use assms in simp_all)
  then show ?thesis by (auto simp add: rot_region_def)
qed

lemma rot_region_nth:
  assumes "off + n \<le> length d" "p < length d"
  shows "rot_region r b off n d ! p = (if off \<le> p \<and> p < off + n
      then rot_byte r (b + word_of_nat (p - off)) (b + 1 + word_of_nat (p - off)) (d ! p) else d ! p)"
proof (cases "off \<le> p \<and> p < off + n")
  case True
  then obtain j where "p = off + j" "j < n" by (metis le_Suc_ex nat_add_left_cancel_less)
  then show ?thesis using assms by (simp add: rot_region_def nth_patch)
qed (use assms in \<open>auto simp: rot_region_def nth_patch\<close>)

lemma length_rot_region: "off + n \<le> length d \<Longrightarrow> length (rot_region r b off n d) = length d"
  by (simp add: rot_region_def length_patch)

lemma decrypt_data5_run:
  assumes "unat va + unat sz \<le> length d" and "length d \<le> 2 ^ 32"
  shows "decrypt_data5 d va sz = (Ok (rot_region 2 (ucast va) (unat va) (unat sz) d) :: (bytes, 'e) res)"
  unfolding decrypt_data5_def by (rule rot_run) (use assms in \<open>simp_all add: unat_add_of_nat\<close>)

lemma trial_byte_run:
  assumes "unat va + unat sz \<le> length d" and "length d \<le> 2 ^ 32" and "i < unat sz"
  shows "trial_byte d (va + word_of_nat i) = (Ok (rot_region 2 (ucast va) (unat va) (unat sz) d ! (unat va + i)) :: (u8, 'e) res)"
proof -
  have "(ucast (va + word_of_nat i) :: u8) = ucast va + word_of_nat i"
    by (simp add: ucast_down_add ucast_down_of_nat)
  then show ?thesis using assms by (simp add: trial_byte_def unat_add_of_nat idx_in rot_region_nth algebra_simps)
qed


section \<open>The page cipher, byte by byte\<close>

primrec dd8_key :: "u32 \<Rightarrow> nat \<Rightarrow> u32" where
  "dd8_key key 0 = key"
| "dd8_key key (Suc i) = snd (dd8_round (dd8_key key i) (word_of_nat i))"

definition dd8_place :: "u32 \<Rightarrow> nat \<Rightarrow> nat" where
  "dd8_place key i = 16 * i + unat (fst (dd8_round (dd8_key key i) (word_of_nat i)) AND 0xF)"

text \<open>What is added to the byte at an offset in the region.\<close>

definition dd8_mask :: "u32 \<Rightarrow> nat \<Rightarrow> u8" where
  "dd8_mask key q = (if 16 \<le> q \<and> q = dd8_place key (q div 16) then ucast (dd8_key key (Suc (q div 16))) else 0)"

definition dd8_region :: "u32 \<Rightarrow> nat \<Rightarrow> nat \<Rightarrow> bytes \<Rightarrow> bytes" where
  "dd8_region key off n d = patch d off (map (\<lambda>q. d ! (off + q) XOR dd8_mask key q) [0..<16 * n])"

lemma low_nibble: "unat (w AND 0xF :: u32) < 16"
  proof -
  have "unat (w AND 0xF) \<le> unat (0xF :: u32)" using word_and_le1 by (simp only: word_le_nat_alt [symmetric])
  then show ?thesis by simp
qed

lemma dd8_place_block: "dd8_place key i div 16 = i" "16 * i \<le> dd8_place key i" "dd8_place key i < 16 * Suc i"
  using low_nibble [of "fst (dd8_round (dd8_key key i) (word_of_nat i))"] by (simp_all add: dd8_place_def)

lemma dd8_region_nth:
  assumes "off + 16 * n \<le> length d" "p < length d"
  shows "dd8_region key off n d ! p = (if off \<le> p \<and> p < off + 16 * n then d ! p XOR dd8_mask key (p - off) else d ! p)"
  using assms by (auto simp: dd8_region_def nth_patch)

lemma length_dd8_region: "off + 16 * n \<le> length d \<Longrightarrow> length (dd8_region key off n d) = length d"
  by (simp add: dd8_region_def length_patch)

lemma dd8_region_Suc:
  assumes b: "off + 16 * Suc n \<le> length d"
  shows "dd8_region key off (Suc n) d = (if n = 0 then dd8_region key off n d
    else (dd8_region key off n d)[off + dd8_place key n := d ! (off + dd8_place key n) XOR ucast (dd8_key key (Suc n))])"
    (is "?l = ?r")
proof (rule nth_equalityI)
  show "length ?l = length ?r" using b by (simp add: length_dd8_region)
  fix p assume "p < length ?l"
  then have p: "p < length d" using b by (simp add: length_dd8_region)
  have mask: "dd8_mask key q = (if n \<noteq> 0 \<and> q = dd8_place key n then ucast (dd8_key key (Suc n)) else 0)"
    if "16 * n \<le> q" "q < 16 * Suc n" for q
  proof -
    have "q div 16 = n" using that by (simp add: div_nat_eqI)
    then show ?thesis using that dd8_place_block [where key = key and i = n] by (auto simp: dd8_mask_def)
  qed
  show "?l ! p = ?r ! p"
  proof (cases "off + 16 * n \<le> p \<and> p < off + 16 * Suc n")
    case True
    then have m: "dd8_mask key (p - off) = (if n \<noteq> 0 \<and> p - off = dd8_place key n then ucast (dd8_key key (Suc n)) else 0)"
      by (intro mask) auto
    show ?thesis using True b p dd8_place_block [where key = key and i = n]
      by (auto simp: dd8_region_nth nth_list_update length_dd8_region m)
  next
    case False
    then show ?thesis using b p dd8_place_block [where key = key and i = n] by (auto simp: dd8_region_nth nth_list_update length_dd8_region)
  qed
qed

lemma data8_loop:
  assumes "unat va + 16 * n \<le> length d" and "length d \<le> 2 ^ 32"
  shows "(foldM (data8_body va) [0..<n] (d, key) :: (bytes \<times> u32, 'e) res) = Ok (dd8_region key (unat va) n d, dd8_key key n)"
  using assms(1)
proof (induction n)
  case (Suc n)
  let ?r = "dd8_region key (unat va) n d"
  obtain mixed key' where r: "dd8_round (dd8_key key n) (word_of_nat n) = (mixed, key')" by force
  have target: "unat (va + word_of_nat n * 16 + (mixed AND 0xF)) = unat va + dd8_place key n"
  proof -
    have n: "unat (word_of_nat n * 16 :: u32) = 16 * n" using Suc.prems assms(2) by (simp add: unat_word_ariths unat_of_nat)
    have "unat (va + word_of_nat n * 16) = unat va + 16 * n" using Suc.prems assms(2) n by (simp add: unat_add_no_wrap)
    moreover have "unat (mixed AND 0xF) < 16" by (rule low_nibble)
    ultimately show ?thesis using Suc.prems assms(2) by (simp add: unat_add_no_wrap dd8_place_def r)
  qed
  have body: "(data8_body va n (?r, dd8_key key n) :: (bytes \<times> u32, 'e) res) = Ok (dd8_region key (unat va) (Suc n) d, dd8_key key (Suc n))"
    using Suc.prems dd8_place_block [where key = key and i = n]
    by (simp add: data8_body_def Let_def r target dd8_region_Suc idx_in set_at_in length_dd8_region dd8_region_nth)
  show ?case using Suc body by (simp add: foldM_append)
qed (simp add: dd8_region_def)


lemma decrypt_data8_run:
  assumes "unat va + 16 * (unat sz div 16) \<le> length d" and "length d \<le> 2 ^ 32"
  shows "decrypt_data8 d va sz key = (Ok (dd8_region key (unat va) (unat sz div 16) d) :: (bytes, 'e) res)"
proof -
  have "unat (drop_bit 4 sz) = unat sz div 16" by (simp add: drop_bit_eq_div unat_div)
  then show ?thesis using assms by (simp add: decrypt_data8_def data8_loop)
qed

lemma dd8_region_twice:
  assumes "off + 16 * n \<le> length d"
  shows "dd8_region key off n (dd8_region key off n d) = d"
  using assms by (intro nth_equalityI) (auto simp: length_dd8_region dd8_region_nth)

text \<open>The page cipher is an involution: running it twice with the same key gives the buffer back.\<close>

lemma decrypt_data8_involution:
  assumes "unat va + 16 * (unat sz div 16) \<le> length d" and "length d \<le> 2 ^ 32"
  shows "rbind (decrypt_data8 d va sz key) (\<lambda>d'. decrypt_data8 d' va sz key) = (Ok d :: (bytes, 'e) res)"
  using assms by (simp add: decrypt_data8_run length_dd8_region dd8_region_twice)

lemma decrypt_data8_involution_witness:
  "rbind (decrypt_data8 (replicate 64 7) 16 32 1) (\<lambda>d'. decrypt_data8 d' 16 32 1) = (Ok (replicate 64 7) :: (bytes, unit) res)"
  by (rule decrypt_data8_involution) simp_all

section \<open>The predictors agree with the ciphers\<close>

lemma page_of_nat: "4096 * (n div 4096) \<le> n" "n < 4096 * (n div 4096) + 4096" for n :: nat
  using mod_less_divisor [of 4096 n] mult_div_mod_eq [of 4096 n] by linarith+

lemma candidate_fold:
  assumes b: "off = unat rva mod 4096" and n: "n \<le> off div 16 + 1"
  shows "fold (candidate_step rva (drop_bit 12 rva)) [0..<n] (b0, key) =
    (if n \<le> off div 16 then b0 else b0 XOR dd8_mask key off, dd8_key key n)"
  using n
proof (induction n)
  case (Suc n)
  let ?page = "drop_bit 12 rva"
  obtain mixed key' where r: "dd8_round (dd8_key key n) (word_of_nat n) = (mixed, key')" by force
  have "off < 4096" using b by simp
  then have n: "n < 256" using Suc.prems by auto
  have split: "unat rva = 4096 * (unat rva div 4096) + off" using b by simp
  have page: "unat (push_bit 12 ?page) = 4096 * (unat rva div 4096)"
  proof -
    have "push_bit 12 ?page = rva AND NOT (mask 12)" by (rule bit_word_eqI) (auto simp: bit_simps)
    then show ?thesis by (simp add: unat_and_not_mask)
  qed
  have index: "unat (push_bit 4 (word_of_nat n :: u32)) = 16 * n"
    using n by (simp add: push_bit_eq_mult unat_word_ariths unat_of_nat)
  have place: "dd8_place key n < 4096" using dd8_place_block [where key = key and i = n] n by simp
  have le: "4096 * (unat rva div 4096) + 4096 \<le> 2 ^ 32" using unat_bound [of rva] by simp
  have "unat (push_bit 12 ?page + push_bit 4 (word_of_nat n)) = 4096 * (unat rva div 4096) + 16 * n"
    using page index le n by (simp add: unat_add_no_wrap)
  moreover have "dd8_place key n = 16 * n + unat (mixed AND 0xF)" by (simp add: dd8_place_def r)
  ultimately have "unat (push_bit 12 ?page + push_bit 4 (word_of_nat n) + (mixed AND 0xF)) = 4096 * (unat rva div 4096) + dd8_place key n"
    using place le by (simp add: unat_add_no_wrap)
  then have target: "(push_bit 12 ?page + push_bit 4 (word_of_nat n) + (mixed AND 0xF) = rva) = (dd8_place key n = off)"
    using split unfolding word_unat_eq_iff by linarith
  have nz: "(word_of_nat n :: u32) \<noteq> 0 \<longleftrightarrow> n \<noteq> 0" using n by (cases "n = 0") (auto simp: word_of_nat_eq_0_iff dest: dvd_imp_le)
  have step: "candidate_step rva ?page n (v, dd8_key key n) = (if n \<noteq> 0 \<and> dd8_place key n = off then v XOR ucast key' else v, key')" for v
    by (simp add: candidate_step_def Let_def r nz target)
  have mask: "dd8_mask key off = (if n \<noteq> 0 \<and> dd8_place key n = off then ucast key' else 0)" if "n = off div 16"
  proof -
    have "16 \<le> off \<longleftrightarrow> n \<noteq> 0" using that by auto
    then show ?thesis by (auto simp: dd8_mask_def that [symmetric] r)
  qed
  have away: "dd8_place key n \<noteq> off" if "n \<noteq> off div 16" using that dd8_place_block(1) [of key n] by auto
  have next_key: "dd8_key key (Suc n) = key'" by (simp add: r)
  show ?case
  proof (cases "n = off div 16")
    case True
    then show ?thesis using Suc.IH step mask [OF True] by (auto simp del: dd8_key.simps simp add: next_key [symmetric])
  next
    case False
    then show ?thesis using Suc step away by (auto simp del: dd8_key.simps simp add: next_key [symmetric])
  qed
qed simp

lemma candidate_whole:
  "off = unat rva mod 4096 \<Longrightarrow>
   fold (candidate_step rva (drop_bit 12 rva)) [0..<Suc (off div 16)] (b0, key) = (b0 XOR dd8_mask key off, dd8_key key (Suc (off div 16)))"
  using candidate_fold [of off rva "Suc (off div 16)" b0 key] by simp

text \<open>The byte that \<open>dd8_candidate_byte\<close> predicts for an address is the byte that \<open>decrypt_data8\<close> leaves there when it
  decrypts the page of the address with the key of that page.\<close>

lemma dd8_candidate_byte_predicts:
  assumes "4096 * (unat rva div 4096) + 4096 \<le> length d" and "length d \<le> 2 ^ 32"
    and "decrypt_data8 d (rva AND NOT 0xFFF) 0x1000 (push_bit shift (drop_bit 12 rva)) = (Ok d' :: (bytes, 'e) res)"
  shows "dd8_candidate_byte d rva (Some shift) = Some (d' ! unat rva)"
proof -
  let ?off = "unat rva mod 4096" and ?key = "push_bit shift (drop_bit 12 rva)"
  have base: "unat (rva AND NOT 0xFFF) = 4096 * (unat rva div 4096)"
    using unat_and_not_mask [of rva 12] by (simp add: mask_eq_exp_minus_1)
  have inside: "unat rva < length d" using assms(1) page_of_nat(2) [of "unat rva"] by linarith
  have d': "d' = dd8_region ?key (4096 * (unat rva div 4096)) 256 d"
  proof -
    have "decrypt_data8 d (rva AND NOT 0xFFF) 0x1000 ?key = (Ok (dd8_region ?key (unat (rva AND NOT 0xFFF)) (unat (0x1000 :: u32) div 16) d) :: (bytes, 'e) res)"
      by (rule decrypt_data8_run) (unfold base, use assms(1,2) in simp_all)
    then show ?thesis using assms(3) unfolding base by simp
  qed
  have block: "unat (drop_bit 4 (rva AND 0xFFF)) = ?off div 16"
  proof -
    have "rva AND 0xFFF = take_bit 12 rva" by (simp add: take_bit_eq_mask mask_eq_exp_minus_1)
    then have "unat (rva AND 0xFFF) = ?off" by (simp only: unsigned_take_bit_eq) (simp add: take_bit_eq_mod)
    moreover have "unat (drop_bit 4 w) = unat w div 16" for w :: u32 by (simp add: drop_bit_eq_div unat_div)
    ultimately show ?thesis by metis
  qed
  have "fold (candidate_step rva (drop_bit 12 rva)) [0..<Suc (?off div 16)] (d ! unat rva, ?key) =
      (d ! unat rva XOR dd8_mask ?key ?off, dd8_key ?key (Suc (?off div 16)))"
    by (rule candidate_whole) (rule refl)
  moreover have "d' ! unat rva = d ! unat rva XOR dd8_mask ?key ?off"
  proof -
    have "unat rva - 4096 * (unat rva div 4096) = ?off" by (simp add: minus_mult_div_eq_mod)
    then show ?thesis using assms(1) inside page_of_nat [of "unat rva"] by (simp add: d' dd8_region_nth)
  qed
  ultimately show ?thesis using inside unfolding dd8_candidate_byte_def Let_def block by (simp del: upt_Suc)
qed

text \<open>The word that \<open>trial_decrypt5_u32\<close> predicts is the word that \<open>decrypt_data5\<close> leaves at that offset, wherever the
  word lies in the region that is decrypted.\<close>

lemma trial_decrypt5_predicts:
  assumes "unat va + unat sz \<le> length d" and "length d \<le> 2 ^ 32" and "i + 4 \<le> unat sz"
    and "decrypt_data5 d va sz = (Ok d' :: (bytes, 'e) res)"
  shows "trial_decrypt5_u32 d (va + word_of_nat i) = (get_u32 d' (va + word_of_nat i) :: (u32, 'e) res)"
proof -
  let ?r = "rot_region 2 (ucast va) (unat va) (unat sz) d"
  have d': "d' = ?r" using assms(4) decrypt_data5_run [OF assms(1,2), where 'e = 'e] by simp
  have at: "unat (va + word_of_nat i) = unat va + i" using assms(1,2,3) by (simp add: unat_add_of_nat)
  have "trial_byte d (va + word_of_nat i + word_of_nat j) = (Ok (?r ! (unat va + i + j)) :: (u8, 'e) res)" if "j < 4" for j
    using trial_byte_run [OF assms(1,2), of "i + j", where 'e = 'e] that assms(3) by (simp add: add.assoc)
  from this [of 0] this [of 1] this [of 2] this [of 3]
  have "mapM (\<lambda>j. trial_byte d (va + word_of_nat i + word_of_nat j)) [0..<4] = (Ok (map (\<lambda>j. ?r ! (unat va + i + j)) [0..<4]) :: (bytes, 'e) res)"
    by (simp add: upt_rec eval_nat_numeral)
  moreover have "window ?r (unat va + i) 4 = map (\<lambda>j. ?r ! (unat va + i + j)) [0..<4]"
    by (rule nth_equalityI) (use assms in \<open>simp_all add: length_window nth_window length_rot_region\<close>)
  ultimately show ?thesis using assms(1,3)
    by (simp add: trial_decrypt5_u32_def d' get_u32_def idx_le_in at length_rot_region)
qed

section \<open>Signed addresses\<close>

lemma i32_as_usize_nonneg:
  assumes "unat v < 2 ^ 31"
  shows "i32_as_usize v = unat v" and "nat (sint v) = unat v"
proof -
  have "int (unat v) < int (2 ^ 31)" using assms by (simp only: of_nat_less_iff)
  then have "uint v < 2 ^ 31" by simp
  then have s: "sint v = uint v" using signed_take_bit_int_eq_self [of 31 "uint v", OF order_trans [of _ 0]] by (simp add: sint_uint)
  then show "nat (sint v) = unat v" by simp
  have "(scast v :: u64) = ucast v" unfolding scast_eq ucast_eq s ..
  moreover have "uint (ucast v :: u64) = uint v" by (simp add: uint_up_ucast is_up)
  ultimately show "i32_as_usize v = unat v" unfolding i32_as_usize_def unat_eq_nat_uint by argo
qed

lemma rot_body_cong:
  assumes "\<And>i. i < n \<Longrightarrow> f i = g i"
  shows "foldM (rot_body r f) [0..<n] s = foldM (rot_body r g) [0..<n] s"
  by (rule foldM_cong) (simp add: rot_body_def assms)


text \<open>The byte ciphers of the DLL pipeline, which count in signed integers, agree with those of the EXE pipeline on
  every region in the first 2 GiB of the image.\<close>

lemma dll_ciphers_agree:
  assumes "unat off + unat sz < 2 ^ 31"
    and "get_u32 d pos = (Ok base :: (u32, 'e) res)" "get_u32 d (pos + 4) = (Ok len :: (u32, 'e) res)" "unat base + unat len < 2 ^ 31"
  shows "decrypt_data6_shift6 d off sz = (decrypt_data5 d off sz :: (bytes, 'e) res)
    \<and> decrypt_data3_shift5 d pos = (decrypt_data4 d pos :: (bytes, 'e) res)"
proof -
  have addr: "i32_as_usize (a + word_of_nat i) = unat (a + word_of_nat i)" if "unat a + unat n < 2 ^ 31" "i < unat n" for a n :: u32 and i
  proof -
    have "unat (a + word_of_nat i) = unat a + i" using that by (simp add: unat_add_of_nat)
    then show ?thesis using that by (intro i32_as_usize_nonneg) simp
  qed
  have count: "nat (sint sz) = unat sz" "nat (sint len) = unat len" using assms by (auto intro: i32_as_usize_nonneg)
  have "(ucast (signed_drop_bit 8 base) :: u8) = ucast (drop_bit 8 base)" by (rule bit_word_eqI) (auto simp: bit_simps)
  moreover have "(ucast ((drop_bit 8 base + base) AND 0xFF) :: u8) = ucast (drop_bit 8 base + base)"
  proof -
    have "(drop_bit 8 base + base) AND 0xFF = take_bit 8 (drop_bit 8 base + base)" by (simp add: take_bit_eq_mask mask_eq_exp_minus_1)
    then show ?thesis by (auto intro: bit_word_eqI simp: bit_simps)
  qed
  ultimately have key: "ucast base + ucast (signed_drop_bit 8 base) = (ucast ((drop_bit 8 base + base) AND 0xFF) :: u8)"
    by (simp add: ucast_down_add)
  have "foldM (rot_body 2 (\<lambda>i. i32_as_usize (off + word_of_nat i))) [0..<unat sz] s
      = (foldM (rot_body 2 (\<lambda>i. unat (off + word_of_nat i))) [0..<unat sz] s :: (bytes \<times> u8 \<times> u8, 'e) res)" for s
    by (rule rot_body_cong) (rule addr [OF assms(1)])
  moreover have "foldM (rot_body 3 (\<lambda>i. i32_as_usize (base + word_of_nat i))) [0..<unat len] s
      = (foldM (rot_body 3 (\<lambda>i. unat (base + word_of_nat i))) [0..<unat len] s :: (bytes \<times> u8 \<times> u8, 'e) res)" for s
    by (rule rot_body_cong) (rule addr [OF assms(4)])
  ultimately show ?thesis
    unfolding decrypt_data6_shift6_def decrypt_data5_def decrypt_data3_shift5_def decrypt_data4_def assms(2,3) rbind.simps count Let_def key
    by simp
qed

lemma dd8_candidate_byte_predicts_witness:
  "dd8_candidate_byte (replicate 8192 7) 0x1064 (Some 15) = Some (dd8_region 0x8000 4096 256 (replicate 8192 7) ! 0x1064)"
proof -
  have "decrypt_data8 (replicate 8192 7) (0x1064 AND NOT 0xFFF) 0x1000 (push_bit 15 (drop_bit 12 0x1064))
      = (Ok (dd8_region 0x8000 4096 256 (replicate 8192 7)) :: (bytes, unit) res)"
    using decrypt_data8_run [of "0x1064 AND NOT 0xFFF" "0x1000" "replicate 8192 7" "0x8000", where 'e = unit] by simp
  then show ?thesis using dd8_candidate_byte_predicts [of "0x1064" "replicate 8192 7" 15] by simp
qed

lemma trial_decrypt5_predicts_witness:
  "trial_decrypt5_u32 [1, 2, 3, 4, 5, 6, 7, 8] 2 = (get_u32 (rot_region 2 0 0 8 [1, 2, 3, 4, 5, 6, 7, 8]) 2 :: (u32, unit) res)"
  using trial_decrypt5_predicts [of 0 8 "[1, 2, 3, 4, 5, 6, 7, 8]" 2, where 'e = unit]
    decrypt_data5_run [of 0 8 "[1, 2, 3, 4, 5, 6, 7, 8]", where 'e = unit] by simp

lemma dll_ciphers_agree_witness:
  "decrypt_data6_shift6 [8, 0, 0, 0, 4, 0, 0, 0, 1, 2, 3, 4] 8 4 = (decrypt_data5 [8, 0, 0, 0, 4, 0, 0, 0, 1, 2, 3, 4] 8 4 :: (bytes, unit) res)
   \<and> decrypt_data3_shift5 [8, 0, 0, 0, 4, 0, 0, 0, 1, 2, 3, 4] 0 = (decrypt_data4 [8, 0, 0, 0, 4, 0, 0, 0, 1, 2, 3, 4] 0 :: (bytes, unit) res)"
  by (rule dll_ciphers_agree [where base = 8 and len = 4])
    (simp_all add: get_u32_def idx_le_def get_le_def get_range_def window_def)

section \<open>Block 0\<close>

text \<open>C26. The byte that the ciphers leave out in block 0 would be changed by the value in bits 15 to 22 of the page number:
  under shift 0 it is unchanged exactly for the pages of the first 128 MiB, of an image of at most 1 GiB.\<close>

lemma block0_mask_shift0:
  fixes pg :: u32
  assumes "pg < 2 ^ 18"
  shows "(ucast (snd (dd8_round pg 0)) :: u8) = 0 \<longleftrightarrow> pg < 2 ^ 15"
proof -
  have "(ucast (snd (dd8_round pg 0)) :: u8) = ucast (drop_bit 15 pg)"
    by (rule bit_word_eqI) (auto simp: dd8_round_def bit_simps Let_def add.commute)
  moreover have "unat (drop_bit 15 pg) = unat pg div 2 ^ 15" by (simp add: drop_bit_eq_div unat_div)
  moreover have small: "unat pg < 2 ^ 18" using assms by (simp add: word_less_nat_alt)
  moreover have "unat (ucast (drop_bit 15 pg) :: u8) = unat (drop_bit 15 pg)"
  proof -
    have "unat pg div 2 ^ 15 < 256" using small by (simp add: less_mult_imp_div_less)
    then have "unat (drop_bit 15 pg) < 2 ^ 8" by (simp add: drop_bit_eq_div unat_div)
    then show ?thesis by (simp only: unsigned_ucast_eq) (simp add: take_bit_nat_eq_self)
  qed
  ultimately have "(ucast (snd (dd8_round pg 0)) :: u8) = 0 \<longleftrightarrow> unat pg div 2 ^ 15 = 0"
    by (simp add: unat_eq_0 [symmetric])
  then show ?thesis by (simp add: div_eq_0_iff word_less_nat_alt)
qed

lemma block0_mask_shift0_witness: "(ucast (snd (dd8_round 0x8000 0)) :: u8) \<noteq> 0"
  using block0_mask_shift0 [of "0x8000"] by simp

end
