(* ===== verification/PeHeaders.thy ===== *)
theory PeHeaders
  imports Prelude
begin

unbundle bit_operations_syntax

text \<open>
  \<^verbatim>\<open>senbei-pe/src/lib.rs\<close>: the header parser of PE images and the mapping from image addresses to file offsets, with the
  helper \<^verbatim>\<open>prot_rva_to_off\<close> of \<^verbatim>\<open>windows/exe/pipeline.rs\<close>. Offsets are \<open>usize\<close> and come from \<open>u32\<close> fields, so the sums
  do not wrap; the checked ones are written out.
\<close>

datatype pe_error = PeInvalid | PeOutOfBounds

record pe_section =
  s_virtual_address :: u32
  s_virtual_size :: u32
  s_raw_offset :: u32
  s_raw_size :: u32
  s_characteristics :: u32

record pe_headers =
  h_pe_offset :: nat
  h_is_pe32_plus :: bool
  h_image_base :: u64
  h_size_of_image :: u32
  h_entry_rva :: u32
  h_sections_offset :: nat
  h_sections :: u16

definition pe_read :: "nat \<Rightarrow> bytes \<Rightarrow> nat \<Rightarrow> ('a::len word, pe_error) res" where
  "pe_read n data off = ok_or PeOutOfBounds (get_le n data off)"

definition pe_parse :: "bytes \<Rightarrow> (pe_headers, pe_error) res" where
  "pe_parse data =
     (if get_range data 0 2 \<noteq> Some [0x4D, 0x5A] then Err PeInvalid
      else
      rbind (pe_read 4 data 0x3C) (\<lambda>pe. let pe_offset = unat (pe :: u32) in
        if get_range data pe_offset 4 \<noteq> Some [0x50, 0x45, 0, 0] then Err PeInvalid
        else
        rbind (pe_read 2 data (pe_offset + 6)) (\<lambda>n_sections.
        rbind (pe_read 2 data (pe_offset + 20)) (\<lambda>opt_size. let optional_size = unat (opt_size :: u16) in
        rbind (ok_or PeOutOfBounds (chk_add pe_offset 24)) (\<lambda>optional.
        rbind (pe_read 2 data optional) (\<lambda>magic. let is_pe32_plus = ((magic :: u16) = 0x20B) in
          if \<not> is_pe32_plus \<and> magic \<noteq> 0x10B then Err PeInvalid
          else
          rbind (pe_read 4 data (optional + 16)) (\<lambda>entry_rva.
          rbind (if is_pe32_plus then pe_read 8 data (optional + 24)
                 else rbind (pe_read 4 data (optional + 28)) (\<lambda>b. Ok (ucast (b :: u32)))) (\<lambda>image_base.
          rbind (pe_read 4 data (optional + 56)) (\<lambda>size_of_image.
          rbind (ok_or PeOutOfBounds (chk_add optional optional_size)) (\<lambda>sections_offset.
          rbind (ok_or PeOutOfBounds (chk_mul (unat (n_sections :: u16)) 40)) (\<lambda>table_size.
          rbind (ok_or PeOutOfBounds (get_range data sections_offset table_size)) (\<lambda>_.
            Ok \<lparr>h_pe_offset = pe_offset, h_is_pe32_plus = is_pe32_plus, h_image_base = image_base, h_size_of_image = size_of_image,
                h_entry_rva = entry_rva, h_sections_offset = sections_offset, h_sections = n_sections\<rparr>))))))))))))"

definition section_at :: "bytes \<Rightarrow> nat \<Rightarrow> nat \<Rightarrow> (pe_section, pe_error) res" where
  "section_at data base i =
     rbind (ok_or PeOutOfBounds (chk_add base (i * 40))) (\<lambda>off.
     rbind (pe_read 4 data (off + 8)) (\<lambda>vsize.
     rbind (pe_read 4 data (off + 12)) (\<lambda>va.
     rbind (pe_read 4 data (off + 16)) (\<lambda>rsize.
     rbind (pe_read 4 data (off + 20)) (\<lambda>roff.
     rbind (pe_read 4 data (off + 36)) (\<lambda>ch.
       Ok \<lparr>s_virtual_address = va, s_virtual_size = vsize, s_raw_offset = roff, s_raw_size = rsize, s_characteristics = ch\<rparr>))))))"

definition pe_sections :: "bytes \<Rightarrow> pe_headers \<Rightarrow> (pe_section list, pe_error) res" where
  "pe_sections data h = mapM (section_at data (h_sections_offset h)) [0..<unat (h_sections h)]"

definition data_directory :: "bytes \<Rightarrow> pe_headers \<Rightarrow> u16 \<Rightarrow> (u32 \<times> u32, pe_error) res" where
  "data_directory data h index =
     rbind (ok_or PeOutOfBounds (Option.bind (chk_add (h_pe_offset h) 24) (\<lambda>off. chk_add off (if h_is_pe32_plus h then 112 else 96)))) (\<lambda>base.
     rbind (ok_or PeOutOfBounds (chk_mul (unat index) 8)) (\<lambda>d.
     rbind (ok_or PeOutOfBounds (chk_add base d)) (\<lambda>off.
     rbind (pe_read 4 data off) (\<lambda>rva.
     rbind (pe_read 4 data (off + 4)) (\<lambda>sz. Ok (rva, sz))))))"

definition pe_characteristics :: "bytes \<Rightarrow> pe_headers \<Rightarrow> (u16, pe_error) res" where
  "pe_characteristics data h = rbind (ok_or PeOutOfBounds (chk_add (h_pe_offset h) 22)) (pe_read 2 data)"

text \<open>The loop of \<open>rva_to_offset\<close>: a section that covers the address but maps it behind the file is passed over.\<close>

fun offset_in :: "pe_section list \<Rightarrow> nat \<Rightarrow> u32 \<Rightarrow> (nat, pe_error) res" where
  "offset_in [] n rva = Err PeOutOfBounds"
| "offset_in (s # ss) n rva =
     (if s_virtual_address s \<le> rva \<and> rva < sat_add_w (s_virtual_address s) (max (s_virtual_size s) (s_raw_size s))
      then rbind (ok_or PeOutOfBounds (chk_add_w (s_raw_offset s) (rva - s_virtual_address s))) (\<lambda>off.
             if unat off < n then Ok (unat off) else offset_in ss n rva)
      else offset_in ss n rva)"

definition rva_to_offset :: "bytes \<Rightarrow> pe_headers \<Rightarrow> u32 \<Rightarrow> (nat, pe_error) res" where
  "rva_to_offset data h rva =
     (if rva < word_of_nat (h_sections_offset h) then Ok (unat rva)
      else rbind (pe_sections data h) (\<lambda>ss. offset_in ss (length data) rva))"

definition section_range :: "u32 \<Rightarrow> u32 \<Rightarrow> pe_section \<Rightarrow> u32 option" where
  "section_range rva sz s =
     Option.bind (chk_sub_w rva (s_virtual_address s)) (\<lambda>delta.
       if s_raw_size s \<le> delta \<or> s_raw_size s - delta < sz then None else chk_add_w (s_raw_offset s) delta)"

fun find_map :: "('a \<Rightarrow> 'b option) \<Rightarrow> 'a list \<Rightarrow> 'b option" where
  "find_map f [] = None"
| "find_map f (x # xs) = (case f x of None \<Rightarrow> find_map f xs | Some y \<Rightarrow> Some y)"

definition rva_range :: "bytes \<Rightarrow> pe_headers \<Rightarrow> u32 \<Rightarrow> u32 \<Rightarrow> (nat \<times> nat, pe_error) res" where
  "rva_range data h rva sz =
     rbind (pe_read 4 data (h_pe_offset h + 24 + 60)) (\<lambda>header_size.
     rbind (if rva < header_size \<and> sz \<le> header_size - rva then Ok rva
            else rbind (pe_sections data h) (\<lambda>ss. ok_or PeOutOfBounds (find_map (section_range rva sz) ss))) (\<lambda>off. let offset = unat off in
     rbind (ok_or PeOutOfBounds (chk_add offset (unat sz))) (\<lambda>stop.
     rbind (ok_or PeOutOfBounds (get_range data offset (unat sz))) (\<lambda>_. Ok (offset, stop)))))"

text \<open>\<open>prot_rva_to_off\<close>\<close>

definition prot_rva_to_off :: "bytes \<Rightarrow> u32 \<Rightarrow> u32 \<Rightarrow> u32 option" where
  "prot_rva_to_off file pe_header rva =
     (case pe_parse file of
        Ok h \<Rightarrow> if h_pe_offset h \<noteq> unat pe_header then None
                else (case rva_to_offset file h rva of Ok off \<Rightarrow> if off < 2 ^ 32 then Some (word_of_nat off) else None | _ \<Rightarrow> None)
      | _ \<Rightarrow> None)"

section \<open>A parsed header\<close>

lemma pe_read_Ok: "pe_read n data off = Ok v \<longleftrightarrow> off + n \<le> length data \<and> v = from_le (window data off n)"
  by (auto simp: pe_read_def get_le_def res_conv get_range_def)

lemma pe_read_in: "off + n \<le> length data \<Longrightarrow> pe_read n data off = Ok (from_le (window data off n))"
  by (simp add: pe_read_Ok)

lemma pe_read_not_Panic [simp]: "pe_read n data off \<noteq> Panic"
  by (simp add: pe_read_def)

text \<open>What a parsed header promises: the fixed part of the optional header and the section table lie in the file.\<close>

definition headers_inside :: "bytes \<Rightarrow> pe_headers \<Rightarrow> bool" where
  "headers_inside data h \<longleftrightarrow> h_sections_offset h + unat (h_sections h) * 40 \<le> length data
     \<and> h_sections_offset h < 2 ^ 33 \<and> h_pe_offset h < 2 ^ 32 \<and> h_pe_offset h + 84 \<le> length data
     \<and> h_pe_offset h + 24 \<le> h_sections_offset h"

lemma parse_headers_inside:
  assumes "pe_parse data = Ok h"
  shows "headers_inside data h"
proof -
  have "unat w + 24 + unat v < 2 ^ 33" for w :: u32 and v :: u16
    using unat_bound [of w] unat_bound [of v] by simp
  moreover have "unat w < 4294967296" for w :: u32 using unat_bound [of w] by simp
  ultimately show ?thesis
    using assms by (auto simp: pe_parse_def headers_inside_def Let_def res_conv pe_read_Ok split: if_splits)
qed

lemma section_at_in:
  assumes "base + (i + 1) * 40 \<le> length data" and "base < 2 ^ 33" and "i < 2 ^ 16"
  shows "\<exists>s. section_at data base i = Ok s"
proof -
  have "base + i * 40 < usize_limit" using assms(2,3) by (simp add: usize_limit_def)
  then show ?thesis using assms(1) by (simp add: section_at_def chk_add_def pe_read_in)
qed

lemma mapM_total: "(\<And>x. x \<in> set xs \<Longrightarrow> \<exists>y. f x = Ok y) \<Longrightarrow> \<exists>ys. mapM f xs = Ok ys \<and> length ys = length xs"
  by (induction xs) fastforce+

text \<open>After a successful parse the section table can be read: as many sections as the header declares.\<close>

lemma pe_sections_total:
  assumes "pe_parse data = Ok h"
  shows "\<exists>ss. pe_sections data h = Ok ss \<and> length ss = unat (h_sections h)"
proof -
  have h: "headers_inside data h" using assms by (rule parse_headers_inside)
  have "\<exists>s. section_at data (h_sections_offset h) i = Ok s" if "i \<in> set [0..<unat (h_sections h)]" for i
  proof (rule section_at_in)
    have "(i + 1) * 40 \<le> unat (h_sections h) * 40" using that by simp
    then show "h_sections_offset h + (i + 1) * 40 \<le> length data" using h by (simp add: headers_inside_def)
    show "h_sections_offset h < 2 ^ 33" using h by (simp add: headers_inside_def)
    show "i < 2 ^ 16" using that unat_bound [of "h_sections h"] by simp
  qed
  then show ?thesis
    using mapM_total [of "[0..<unat (h_sections h)]" "section_at data (h_sections_offset h)"] by (simp add: pe_sections_def)
qed

lemma find_map_Some: "find_map f xs = Some y \<longleftrightarrow> (\<exists>i < length xs. f (xs ! i) = Some y \<and> (\<forall>j<i. f (xs ! j) = None))"
proof (induction xs)
  case (Cons x xs)
  show ?case by (cases "f x") (auto simp: Cons Ex_less_Suc2 All_less_Suc2)
qed simp

lemma find_map_None: "find_map f xs = None \<longleftrightarrow> (\<forall>x\<in>set xs. f x = None)"
  by (induction xs) (auto split: option.splits)

text \<open>A section backs a range when the whole range lies in its file data.\<close>

definition backs :: "pe_section \<Rightarrow> u32 \<Rightarrow> u32 \<Rightarrow> bool" where
  "backs s rva sz \<longleftrightarrow> s_virtual_address s \<le> rva \<and> rva - s_virtual_address s < s_raw_size s
     \<and> unat (rva - s_virtual_address s) + unat sz \<le> unat (s_raw_size s)
     \<and> unat (s_raw_offset s) + unat (rva - s_virtual_address s) < 2 ^ 32"

lemma section_range_Some:
  "section_range rva sz s = Some off \<longleftrightarrow> backs s rva sz \<and> off = s_raw_offset s + (rva - s_virtual_address s)"
  by (auto simp: section_range_def backs_def res_conv bind_eq_Some_conv word_le_nat_alt word_less_nat_alt unat_sub_if' not_le not_less
      split: if_splits)

text \<open>C33. A range that \<open>rva_range\<close> returns lies in the file, has the requested length, and is either the header at its own
  address or the file data of the first section that backs the whole range.\<close>

lemma rva_range_backed:
  assumes "pe_parse data = Ok h" and "pe_sections data h = Ok ss" and "rva_range data h rva sz = Ok (a, b)"
  shows "b = a + unat sz \<and> b \<le> length data \<and>
    (a = unat rva \<and> unat rva + unat sz \<le> unat (from_le (window data (h_pe_offset h + 84) 4) :: u32)
     \<or> (\<exists>i < length ss. backs (ss ! i) rva sz \<and> (\<forall>j<i. \<not> backs (ss ! j) rva sz)
          \<and> a = unat (s_raw_offset (ss ! i)) + unat (rva - s_virtual_address (ss ! i))))"
proof -
  let ?hs = "from_le (window data (h_pe_offset h + 84) 4) :: u32"
  obtain off where off: "(if rva < ?hs \<and> sz \<le> ?hs - rva then Ok rva else ok_or PeOutOfBounds (find_map (section_range rva sz) ss)) = Ok off"
    and ab: "a = unat off" "b = unat off + unat sz" "b \<le> length data"
    using assms(3) by (auto simp: rva_range_def Let_def rbind_Ok_conv chk_add_Some_conv get_range_Some_conv ok_or_Ok_conv pe_read_Ok assms(2) add.commute cong: if_cong)
  show ?thesis
  proof (cases "rva < ?hs \<and> sz \<le> ?hs - rva")
    case True
    then have "unat rva + unat sz \<le> unat ?hs"
      using unat_sub_le [of rva ?hs] by (auto simp: word_le_nat_alt word_less_nat_alt)
    then show ?thesis using True off ab by simp
  next
    case False
    then have "find_map (section_range rva sz) ss = Some off" using off by (simp only: if_False ok_or_Ok_conv)
    then obtain i where i: "i < length ss" "section_range rva sz (ss ! i) = Some off" "\<forall>j<i. section_range rva sz (ss ! j) = None"
      unfolding find_map_Some by blast
    then have b: "backs (ss ! i) rva sz" "off = s_raw_offset (ss ! i) + (rva - s_virtual_address (ss ! i))" by (simp_all add: section_range_Some)
    have "\<not> backs (ss ! j) rva sz" if "j < i" for j using i(3) that by (metis option.distinct(1) section_range_Some)
    moreover have "a = unat (s_raw_offset (ss ! i)) + unat (rva - s_virtual_address (ss ! i))"
      using b ab(1) by (simp add: backs_def unat_add_no_wrap)
    moreover have "b = a + unat sz \<and> b \<le> length data" using ab by simp
    ultimately show ?thesis using i(1) b(1) by blast
  qed
qed


section \<open>A sample image\<close>

text \<open>A header of 32 bits with one section of 16 file bytes at address 0x1000.\<close>

definition sample_pe :: bytes where
  "sample_pe =
    [0x4D, 0x5A, 0, 0, 0, 0, 0, 0, 0, 0, 0, 0, 0, 0, 0, 0, 0, 0, 0, 0, 0, 0, 0, 0,
     0, 0, 0, 0, 0, 0, 0, 0, 0, 0, 0, 0, 0, 0, 0, 0, 0, 0, 0, 0, 0, 0, 0, 0,
     0, 0, 0, 0, 0, 0, 0, 0, 0, 0, 0, 0, 0x40, 0, 0, 0, 0x50, 0x45, 0, 0, 0x4C, 0x01, 0x01, 0,
     0, 0, 0, 0, 0, 0, 0, 0, 0, 0, 0, 0, 0x60, 0, 0, 0, 0x0B, 0x01, 0, 0, 0, 0, 0, 0,
     0, 0, 0, 0, 0, 0, 0, 0, 0, 0, 0, 0, 0, 0, 0, 0, 0, 0, 0, 0, 0, 0, 0, 0,
     0, 0, 0, 0, 0, 0, 0, 0, 0, 0, 0, 0, 0, 0, 0, 0, 0, 0, 0, 0, 0, 0, 0, 0,
     0, 0, 0, 0, 0xE0, 0, 0, 0, 0, 0, 0, 0, 0, 0, 0, 0, 0, 0, 0, 0, 0, 0, 0, 0,
     0, 0, 0, 0, 0, 0, 0, 0, 0, 0, 0, 0, 0, 0, 0, 0, 0, 0, 0, 0, 0, 0, 0, 0,
     0, 0x10, 0, 0, 0, 0x10, 0, 0, 0x10, 0, 0, 0, 0xE0, 0, 0, 0, 0, 0, 0, 0, 0, 0, 0, 0,
     0, 0, 0, 0, 0, 0, 0, 0, 0, 0, 0, 0, 0, 0, 0, 0, 0, 0, 0, 0, 0, 0, 0, 0]"

definition sample_headers :: pe_headers where
  "sample_headers = \<lparr>h_pe_offset = 0x40, h_is_pe32_plus = False, h_image_base = 0, h_size_of_image = 0, h_entry_rva = 0,
     h_sections_offset = 0xB8, h_sections = 1\<rparr>"

definition sample_pe_section :: pe_section where
  "sample_pe_section = \<lparr>s_virtual_address = 0x1000, s_virtual_size = 0x1000, s_raw_offset = 0xE0, s_raw_size = 16, s_characteristics = 0\<rparr>"

lemmas sample_defs = sample_pe_def pe_read_def get_le_def get_range_def window_def chk_add_def chk_mul_def usize_limit_def

lemma sample_parse: "pe_parse sample_pe = Ok sample_headers"
  by (simp add: pe_parse_def sample_headers_def sample_defs)

lemma sample_sections: "pe_sections sample_pe sample_headers = Ok [sample_pe_section]"
  by (simp add: pe_sections_def section_at_def sample_headers_def sample_pe_section_def sample_defs)

lemma sample_fields: "pe_read 4 sample_pe 148 = Ok (0xE0 :: u32)" "length sample_pe = 240" "h_pe_offset sample_headers = 64"
  by (simp_all add: sample_headers_def sample_defs)

lemma sample_range: "rva_range sample_pe sample_headers 0x1004 8 = Ok (0xE4, 0xEC)"
  by (simp add: rva_range_def sample_sections sample_fields section_range_def chk_sub_w_def chk_add_w_def sample_pe_section_def
      get_range_def chk_add_def usize_limit_def)

lemma pe_sections_total_witness: "\<exists>ss. pe_sections sample_pe sample_headers = Ok ss \<and> length ss = unat (h_sections sample_headers)"
  by (rule pe_sections_total [OF sample_parse])

lemma rva_range_backed_witness: "(236 :: nat) = 228 + unat (8 :: u32) \<and> 236 \<le> length sample_pe"
  using rva_range_backed [OF sample_parse sample_sections sample_range] by blast

end
