(* ===== verification/Findings.thy ===== *)
theory Findings
  imports Prelude
begin

text \<open>
  \<^verbatim>\<open>senbei-engine/src/findings.rs\<close>: the bounded message sink of the structural diagnostics. A message keeps its fixed
  text; the numbers that are formatted into it are not kept, except for the count of suppressed messages.
\<close>

datatype message = Text string | Suppressed nat | Unchecked

definition MAX_PER_TABLE :: nat where "MAX_PER_TABLE = 16"

record findings =
  f_out :: "message list"
  f_budget :: nat
  f_suppressed :: nat
  f_skipped :: bool
  f_silent :: bool

definition new_findings :: "message list \<Rightarrow> findings" where
  "new_findings out = \<lparr>f_out = out, f_budget = MAX_PER_TABLE, f_suppressed = 0, f_skipped = False, f_silent = False\<rparr>"

definition silenced :: "findings \<Rightarrow> findings" where
  "silenced f = \<lparr>f_out = f_out f, f_budget = 0, f_suppressed = 0, f_skipped = False, f_silent = True\<rparr>"

definition push :: "string \<Rightarrow> findings \<Rightarrow> findings" where
  "push s f =
     (if f_silent f then f
      else if f_budget f = 0 then f\<lparr>f_suppressed := f_suppressed f + 1\<rparr>
      else f\<lparr>f_budget := f_budget f - 1, f_out := f_out f @ [Text s]\<rparr>)"

definition wants_more :: "findings \<Rightarrow> bool \<times> findings" where
  "wants_more f =
     (if f_silent f then (False, f) else if f_budget f = 0 then (False, f\<lparr>f_skipped := True\<rparr>) else (True, f))"

definition finish_findings :: "findings \<Rightarrow> message list" where
  "finish_findings f =
     f_out f @ (if f_suppressed f \<noteq> 0 then [Suppressed (f_suppressed f)] else []) @ (if f_skipped f then [Unchecked] else [])"

section \<open>What a walk does to its sink\<close>

text \<open>A walk only pushes messages and asks for room.\<close>

named_theorems sinks \<open>walks keep to the sink\<close>

inductive sunk :: "findings \<Rightarrow> findings \<Rightarrow> bool" where
  sunk_refl [intro!, simp]: "sunk f f"
| sunk_push: "sunk f g \<Longrightarrow> sunk f (push s g)"
| sunk_ask: "sunk f g \<Longrightarrow> sunk f (snd (wants_more g))"

lemma sunk_push1 [intro!, simp]: "sunk f (push s f)" by (rule sunk_push) simp

lemma sunk_ask1 [intro!, simp]: "sunk f (snd (wants_more f))" by (rule sunk_ask) simp

lemma sunk_trans [trans]: "sunk f g \<Longrightarrow> sunk g h \<Longrightarrow> sunk f h"
  by (rotate_tac 1, induction rule: sunk.induct) (auto intro: sunk_push sunk_ask)

lemma sunk_room [sinks]: "wants_more f = (room, g) \<Longrightarrow> sunk f g"
  using sunk_ask1 [of f] by simp

lemma sunk_if [sinks]: "(c \<Longrightarrow> sunk f a) \<Longrightarrow> (\<not> c \<Longrightarrow> sunk f b) \<Longrightarrow> sunk f (if c then a else b)"
  by simp

lemma sunk_case: "(x = None \<Longrightarrow> sunk f a) \<Longrightarrow> (\<And>v. x = Some v \<Longrightarrow> sunk f (b v)) \<Longrightarrow> sunk f (case x of None \<Rightarrow> a | Some v \<Rightarrow> b v)"
  by (cases x) auto

lemma sunk_if_snd: "(c \<Longrightarrow> sunk f (snd a)) \<Longrightarrow> (\<not> c \<Longrightarrow> sunk f (snd b)) \<Longrightarrow> sunk f (snd (if c then a else b))"
  by simp

lemma sunk_case_snd: "(x = None \<Longrightarrow> sunk f (snd a)) \<Longrightarrow> (\<And>v. x = Some v \<Longrightarrow> sunk f (snd (b v))) \<Longrightarrow>
    sunk f (snd (case x of None \<Rightarrow> a | Some v \<Rightarrow> b v))"
  by (cases x) auto

lemma sunk_pair: "sunk f a \<Longrightarrow> sunk f (snd (x, a))"
  by simp

lemma sunk_case_prod: "(\<And>a b. p = (a, b) \<Longrightarrow> sunk f (g a b)) \<Longrightarrow> sunk f (case p of (a, b) \<Rightarrow> g a b)"
  by (cases p) auto

lemmas sunk_intros = sunk_refl sunk_push1 sunk_if sunk_case sunk_if_snd sunk_case_snd sunk_pair

text \<open>The recorded messages grow by as many as the budget shrinks.\<close>

lemma sunk_budget:
  assumes "sunk f g" and "\<not> f_silent f"
  shows "\<not> f_silent g \<and> f_budget g \<le> f_budget f \<and> take (length (f_out f)) (f_out g) = f_out f
    \<and> length (f_out g) + f_budget g = length (f_out f) + f_budget f"
  using assms by (induction rule: sunk.induct) (auto simp: push_def wants_more_def)

lemma sunk_silent: "sunk f g \<Longrightarrow> f_silent f \<Longrightarrow> g = f"
  by (induction rule: sunk.induct) (simp_all add: push_def wants_more_def)

text \<open>A table adds at most 16 messages and two lines that say what was left out, to the messages before it.\<close>

lemma finish_bounded:
  assumes "sunk (new_findings out) f"
  shows "length (finish_findings f) \<le> length out + 18 \<and> take (length out) (finish_findings f) = out"
  using sunk_budget [OF assms]
  by (auto simp: new_findings_def finish_findings_def MAX_PER_TABLE_def)

text \<open>Nothing is reported exactly when nothing was pushed.\<close>

definition clean :: "message list \<Rightarrow> findings \<Rightarrow> bool" where
  "clean out f \<longleftrightarrow> f = new_findings out"

lemma push_not_clean: "\<not> f_silent f \<Longrightarrow> push s f \<noteq> f"
  by (cases f) (auto simp: push_def)

lemma sunk_out_mono: "sunk f g \<Longrightarrow> length (f_out f) \<le> length (f_out g)"
  by (induction rule: sunk.induct) (auto simp: push_def wants_more_def)

lemma push_new: "length (f_out (push s (new_findings out))) = length out + 1"
  by (simp add: push_def new_findings_def MAX_PER_TABLE_def)

lemma sunk_push_new: "sunk (push s (new_findings out)) f \<Longrightarrow> finish_findings f \<noteq> out"
  using sunk_out_mono [of "push s (new_findings out)" f] by (auto simp: push_new finish_findings_def dest: arg_cong [of _ _ length])

lemma finish_new [simp]: "finish_findings (new_findings out) = out"
  by (simp add: finish_findings_def new_findings_def)

lemma wants_more_new [simp]: "wants_more (new_findings out) = (True, new_findings out)"
  by (simp add: wants_more_def new_findings_def MAX_PER_TABLE_def)

text \<open>A sink is \<open>dirty\<close> once a message was pushed to the new sink of a table. A walk is exact for a condition when it leaves the new
  sink alone under the condition and dirties it otherwise.\<close>

definition dirty :: "message list \<Rightarrow> findings \<Rightarrow> bool" where
  "dirty out f \<longleftrightarrow> (\<exists>s. sunk (push s (new_findings out)) f)"

lemma dirty_push [intro]: "dirty out (push s (new_findings out))"
  by (auto simp: dirty_def)

lemma dirty_sunk: "dirty out f \<Longrightarrow> sunk f g \<Longrightarrow> dirty out g"
  unfolding dirty_def using sunk_trans by blast

lemma dirty_reports: "dirty out f \<Longrightarrow> finish_findings f \<noteq> out"
  unfolding dirty_def using sunk_push_new by blast

definition exact :: "message list \<Rightarrow> bool \<Rightarrow> findings \<Rightarrow> bool" where
  "exact out P f \<longleftrightarrow> (if P then f = new_findings out else dirty out f)"

named_theorems exacts \<open>exact walks\<close>

lemma exact_new [exacts]: "exact out True (new_findings out)"
  by (simp add: exact_def)

lemma exact_sunk: "exact out P f \<Longrightarrow> exact out False (push s f)"
  by (auto simp: exact_def split: if_splits intro: dirty_sunk)

lemma exact_if: "exact out P f \<Longrightarrow> exact out (P \<and> c) (if c then f else push s f)"
  by (auto simp: exact_def split: if_splits intro: dirty_sunk)

lemma exact_unless: "exact out P f \<Longrightarrow> exact out (P \<and> \<not> c) (if c then push s f else f)"
  by (auto simp: exact_def split: if_splits intro: dirty_sunk)

lemma exact_cong: "P \<longleftrightarrow> Q \<Longrightarrow> exact out P f \<Longrightarrow> exact out Q f"
  by simp

lemma exact_then: "exact out P f \<Longrightarrow> (P \<Longrightarrow> exact out Q (k (new_findings out))) \<Longrightarrow> (\<And>g. sunk g (k g)) \<Longrightarrow> exact out (P \<and> Q) (k f)"
  by (auto simp: exact_def split: if_splits intro: dirty_sunk)

lemma exact_reports: "exact out P f \<Longrightarrow> finish_findings f = out \<longleftrightarrow> P"
  using dirty_reports by (auto simp: exact_def split: if_splits)

end
