(* ===== verification/Directories.thy ===== *)
theory Directories
  imports PeHeaders Findings
begin

unbundle bit_operations_syntax

text \<open>
  \<^verbatim>\<open>windows/integrity/directories.rs\<close>: the structural diagnostics of the data directories of an unpacked image. Every
  walk takes the sink of its table and returns it; an early return of the code is a branch without a recursive call.
\<close>

section \<open>The image\<close>

record image =
  im_data :: bytes
  im_headers :: pe_headers
  im_sections :: "pe_section list"
  im_is64 :: bool
  im_base :: u64
  im_size :: u32

definition MAX_IMPORT_DESCRIPTORS :: nat where "MAX_IMPORT_DESCRIPTORS = 256"
definition MAX_THUNKS :: nat where "MAX_THUNKS = 65536"
definition MAX_DELAY_DESCRIPTORS :: nat where "MAX_DELAY_DESCRIPTORS = 256"
definition MAX_TLS_CALLBACKS :: nat where "MAX_TLS_CALLBACKS = 1024"
definition MAX_RELOCATION_BLOCKS :: nat where "MAX_RELOCATION_BLOCKS = 262144"
definition MAX_EXCEPTION_ENTRIES :: nat where "MAX_EXCEPTION_ENTRIES = 1000000"
definition MAX_BOUND_ENTRIES :: nat where "MAX_BOUND_ENTRIES = 256"
definition MAX_NAME :: nat where "MAX_NAME = 512"

definition pe_rd_u16 :: "bytes \<Rightarrow> u32 \<Rightarrow> u16 option" where "pe_rd_u16 d off = get_le 2 d (unat off)"
definition pe_rd_u32 :: "bytes \<Rightarrow> u32 \<Rightarrow> u32 option" where "pe_rd_u32 d off = get_le 4 d (unat off)"

definition or_zero :: "'a::zero option \<Rightarrow> 'a" where "or_zero x = (case x of None \<Rightarrow> 0 | Some v \<Rightarrow> v)"

definition im_u16 :: "image \<Rightarrow> nat \<Rightarrow> u16 option" where "im_u16 im off = get_le 2 (im_data im) off"
definition im_u32 :: "image \<Rightarrow> nat \<Rightarrow> u32 option" where "im_u32 im off = get_le 4 (im_data im) off"

definition pointer_at :: "image \<Rightarrow> nat \<Rightarrow> u64 option" where
  "pointer_at im off = (if im_is64 im then get_le 8 (im_data im) off else map_option ucast (im_u32 im off))"

definition thunk_size :: "image \<Rightarrow> u32" where "thunk_size im = (if im_is64 im then 8 else 4)"

definition is_ordinal :: "image \<Rightarrow> u64 \<Rightarrow> bool" where
  "is_ordinal im thunk \<longleftrightarrow> (if im_is64 im then thunk AND 0x8000000000000000 \<noteq> 0 else thunk AND 0x80000000 \<noteq> 0)"

definition header_size :: "image \<Rightarrow> u32" where
  "header_size im = or_zero
     (Option.bind (chk_add (h_pe_offset (im_headers im)) 24) (\<lambda>off.
      Option.bind (chk_add off 60) (\<lambda>off. if off < 2 ^ 32 then pe_rd_u32 (im_data im) (word_of_nat off) else None)))"

definition file_range :: "image \<Rightarrow> u32 \<Rightarrow> u32 \<Rightarrow> (nat \<times> nat) option" where
  "file_range im rva sz =
     Option.bind (if rva < header_size im \<and> sz \<le> header_size im - rva then Some rva else find_map (section_range rva sz) (im_sections im)) (\<lambda>off.
     Option.bind (chk_add (unat off) (unat sz)) (\<lambda>stop. if stop \<le> length (im_data im) then Some (unat off, stop) else None))"

definition file_offset :: "image \<Rightarrow> u32 \<Rightarrow> u32 \<Rightarrow> nat option" where
  "file_offset im rva sz = map_option fst (file_range im rva sz)"

definition span :: "pe_section \<Rightarrow> u32" where "span s = max (s_virtual_size s) (s_raw_size s)"

definition mapped :: "image \<Rightarrow> u32 \<Rightarrow> u32 \<Rightarrow> bool" where
  "mapped im rva sz =
     (case chk_add_w rva sz of
        None \<Rightarrow> False
      | Some stop \<Rightarrow>
          if im_size im < stop then False
          else if stop \<le> foldr min (map s_virtual_address (im_sections im)) (- 1) then True
          else list_ex (\<lambda>s. s_virtual_address s \<le> rva \<and> stop \<le> min (s_virtual_address s + span s) (im_size im)) (im_sections im))"

definition in_executable :: "image \<Rightarrow> u32 \<Rightarrow> u32 \<Rightarrow> bool" where
  "in_executable im rva sz =
     (case chk_add_w rva sz of
        None \<Rightarrow> False
      | Some stop \<Rightarrow> list_ex (\<lambda>s. s_characteristics s AND 0x20000000 \<noteq> 0 \<and> s_virtual_address s \<le> rva
            \<and> stop \<le> s_virtual_address s + span s) (im_sections im))"

definition printable :: "u8 \<Rightarrow> bool" where "printable b \<longleftrightarrow> 0x20 \<le> b \<and> b < 0x7F"

definition classify_string :: "image \<Rightarrow> nat \<Rightarrow> bool option" where
  "classify_string im start =
     Option.bind (chk_add start MAX_NAME) (\<lambda>stop.
       if length (im_data im) < start then None
       else
       let w = window (im_data im) start (min stop (length (im_data im)) - start); name = takeWhile (\<lambda>b. b \<noteq> 0) w
       in if name = w then Some False else Some (name \<noteq> [] \<and> list_all printable name))"

definition import_name :: "image \<Rightarrow> u32 \<Rightarrow> bool option" where
  "import_name im rva = Option.bind (file_offset im rva 2) (\<lambda>off. Option.bind (chk_add off 2) (classify_string im))"

definition printable_c_string :: "image \<Rightarrow> u32 \<Rightarrow> bool option" where
  "printable_c_string im rva = Option.bind (file_offset im rva 1) (classify_string im)"

section \<open>Bounded loops\<close>

text \<open>One turn of a \<open>for\<close> loop: the code returns, breaks out of the loop, or goes on; \<open>after\<close> is what follows the loop.\<close>

datatype turn = Return (sink: findings) | Break (sink: findings) | Next (sink: findings)

fun each :: "(nat \<Rightarrow> findings \<Rightarrow> turn) \<Rightarrow> nat list \<Rightarrow> findings \<Rightarrow> turn" where
  "each step [] f = Next f"
| "each step (i # is) f = (case step i f of Next g \<Rightarrow> each step is g | t \<Rightarrow> t)"

definition after :: "(findings \<Rightarrow> findings) \<Rightarrow> turn \<Rightarrow> findings" where
  "after k t = (case t of Return g \<Rightarrow> g | Break g \<Rightarrow> k g | Next g \<Rightarrow> k g)"

section \<open>Thunk arrays\<close>

definition push_name :: "string \<Rightarrow> bool option \<Rightarrow> findings \<Rightarrow> findings" where
  "push_name label name f =
     (case name of
        None \<Rightarrow> push (label @ '' entry name RVA does not map into any file-backed section'') f
      | Some False \<Rightarrow> push (label @ '' entry name RVA is not a printable string (imports left encrypted?)'') f
      | Some True \<Rightarrow> f)"

definition check_thunk :: "image \<Rightarrow> string \<Rightarrow> bool \<Rightarrow> u64 \<Rightarrow> findings \<Rightarrow> findings" where
  "check_thunk im label names thunk f =
     (if names then (case wants_more f of (room, f') \<Rightarrow>
        if room \<and> \<not> is_ordinal im thunk then push_name label (import_name im (ucast (thunk AND 0x7FFFFFFF))) f' else f')
      else f)"

text \<open>The loop has \<open>n\<close> slots left; the result is the count and whether the terminator was met.\<close>

fun thunk_loop :: "image \<Rightarrow> nat \<Rightarrow> string \<Rightarrow> bool \<Rightarrow> nat \<Rightarrow> nat \<Rightarrow> findings \<Rightarrow> nat \<times> bool \<times> findings" where
  "thunk_loop im start label names 0 count f = (count, False, f)"
| "thunk_loop im start label names (Suc n) count f =
     (case pointer_at im (start + count * unat (thunk_size im)) of
        None \<Rightarrow> (count, False, f)
      | Some thunk \<Rightarrow>
          if thunk = 0 then (count, True, f)
          else thunk_loop im start label names n (count + 1) (check_thunk im label names thunk f))"

definition walk_thunks :: "image \<Rightarrow> u32 \<Rightarrow> string \<Rightarrow> bool \<Rightarrow> findings \<Rightarrow> nat option \<times> findings" where
  "walk_thunks im table label names f =
     (case file_offset im table (thunk_size im) of
        None \<Rightarrow> (None, f)
      | Some start \<Rightarrow>
          let slots = (length (im_data im) - start) div unat (thunk_size im); limit = min slots MAX_THUNKS;
              (count, terminated, f') = thunk_loop im start label names limit 0 f;
              f'' = (if terminated then f'
                     else push (if limit = MAX_THUNKS then label @ '' has no terminating null''
                                else label @ '' runs to the end of the file without a terminating null'') f')
          in (Some count, f''))"

definition directory :: "image \<Rightarrow> u32 \<Rightarrow> u32 \<times> u32" where
  "directory im index =
     (let base = h_pe_offset (im_headers im) + 24 + (if im_is64 im then 112 else 96) in
      if 2 ^ 32 \<le> base then (0, 0)
      else
      let off = sat_add_w (word_of_nat base) (index * 8)
      in (or_zero (pe_rd_u32 (im_data im) off), or_zero (pe_rd_u32 (im_data im) (sat_add_w off 4))))"

section \<open>Imports\<close>

definition import_tables :: "image \<Rightarrow> u32 \<Rightarrow> u32 \<Rightarrow> u32 \<Rightarrow> findings \<Rightarrow> findings" where
  "import_tables im table oft ft f =
     (case walk_thunks im table ''import descriptor lookup table'' (oft \<noteq> 0) f of
        (None, f') \<Rightarrow> push ''import descriptor lookup table RVA does not map into any file-backed section'' f'
      | (Some by_name, f') \<Rightarrow>
          if oft \<noteq> 0 \<and> ft \<noteq> 0
          then (case fst (walk_thunks im ft ''import descriptor IAT'' False (silenced f')) of
                  Some iat \<Rightarrow> if iat \<noteq> by_name then push ''import descriptor IAT and lookup table hold different numbers of entries'' f' else f'
                | None \<Rightarrow> f')
          else f')"

definition import_step :: "image \<Rightarrow> nat \<Rightarrow> nat \<Rightarrow> findings \<Rightarrow> turn" where
  "import_step im start i f =
     (case Option.bind (chk_mul i 20) (chk_add start) of
        None \<Rightarrow> Return f
      | Some off \<Rightarrow>
          if (case chk_add off 20 of None \<Rightarrow> True | Some stop \<Rightarrow> length (im_data im) < stop)
          then Return (push ''import directory runs past the end of the file'' f)
          else
          let oft = or_zero (im_u32 im off); name = or_zero (im_u32 im (off + 12)); ft = or_zero (im_u32 im (off + 16)) in
          if name = 0 then Return f
          else if file_range im name 1 = None then Next f
          else
          let table = (if oft \<noteq> 0 then oft else ft) in
          if table = 0 then Next (push ''import descriptor has neither OriginalFirstThunk nor FirstThunk'' f)
          else Next (import_tables im table oft ft f))"

definition collect_imports :: "image \<Rightarrow> findings \<Rightarrow> findings" where
  "collect_imports im f =
     (let rva = fst (directory im 1) in
      if rva = 0 then f
      else case file_range im rva 20 of
             None \<Rightarrow> f
           | Some (start, stop) \<Rightarrow> 
               after (push ''import directory has more than 256 descriptors (missing null terminator)'')
                 (each (import_step im start) [0..<MAX_IMPORT_DESCRIPTORS] f))"

definition delay_name :: "image \<Rightarrow> u32 \<Rightarrow> findings \<Rightarrow> findings" where
  "delay_name im name f =
     (if name \<noteq> 0
      then (case printable_c_string im name of
              None \<Rightarrow> push ''delay-import descriptor module name RVA does not map into any section'' f
            | Some False \<Rightarrow> push ''delay-import descriptor module name is not a printable string (left encrypted?)'' f
            | Some True \<Rightarrow> f)
      else f)"

definition delay_tables :: "image \<Rightarrow> u32 \<Rightarrow> findings \<Rightarrow> findings" where
  "delay_tables im table f =
     (if table = 0 then push ''delay-import descriptor has neither ImportNameTable nor ImportAddressTable'' f
      else (case walk_thunks im table ''delay-import descriptor name table'' True f of
              (None, g) \<Rightarrow> push ''delay-import descriptor name table RVA does not map into any file-backed section'' g
            | (Some n, g) \<Rightarrow> g))"

definition delay_step :: "image \<Rightarrow> nat \<Rightarrow> nat \<Rightarrow> findings \<Rightarrow> turn" where
  "delay_step im start i f =
     (case Option.bind (chk_mul i 32) (chk_add start) of
        None \<Rightarrow> Return f
      | Some off \<Rightarrow>
          if (case chk_add off 32 of None \<Rightarrow> True | Some stop \<Rightarrow> length (im_data im) < stop) then Return f
          else
          let attributes = or_zero (im_u32 im off); name = or_zero (im_u32 im (off + 4)) in
          if attributes = 0 \<and> name = 0 then Return f
          else if attributes AND 1 = 0
          then Next (push ''delay-import descriptor stores virtual addresses rather than RVAs (legacy form; not validated)'' f)
          else
          let names = or_zero (im_u32 im (off + 16)); addresses = or_zero (im_u32 im (off + 12)) in
          Next (delay_tables im (if names \<noteq> 0 then names else addresses) (delay_name im name f)))"

definition collect_delay_imports :: "image \<Rightarrow> findings \<Rightarrow> findings" where
  "collect_delay_imports im f =
     (let rva = fst (directory im 13) in
      if rva = 0 then f
      else case file_range im rva 32 of
             None \<Rightarrow> push ''delay-import directory RVA does not map into any file-backed section'' f
           | Some (start, stop) \<Rightarrow> 
               after (push ''delay-import directory has more than 256 descriptors (missing null terminator)'')
                 (each (delay_step im start) [0..<MAX_DELAY_DESCRIPTORS] f))"

definition sat_add_usize :: "nat \<Rightarrow> nat \<Rightarrow> nat" where
  "sat_add_usize a b = min (a + b) (usize_limit - 1)"

fun bound_loop :: "image \<Rightarrow> nat \<Rightarrow> nat \<Rightarrow> nat \<Rightarrow> nat \<Rightarrow> findings \<Rightarrow> findings" where
  "bound_loop im start dir_end off 0 f = push ''bound-import directory has more than 256 entries (missing null terminator)'' f"
| "bound_loop im start dir_end off (Suc n) f =
     (if (case chk_add off 8 of None \<Rightarrow> True | Some stop \<Rightarrow> dir_end < stop) then f
      else
      let stamp = or_zero (im_u32 im off); flags = or_zero (im_u32 im (off + 4));
          name_offset = unat (flags AND 0xFFFF); forwarders = unat (drop_bit 16 flags) in
      if stamp = 0 \<and> flags = 0 then f
      else case chk_add start name_offset of
             None \<Rightarrow> f
           | Some name_at \<Rightarrow>
               let f' = (if dir_end \<le> name_at then push ''bound-import module name offset lies outside the directory'' f
                         else if im_u32 im name_at = None then push ''bound-import module name is not backed by the file'' f else f)
               in bound_loop im start dir_end (sat_add_usize off (sat_add_usize 8 (forwarders * 8))) n f')"

definition collect_bound_imports :: "image \<Rightarrow> findings \<Rightarrow> findings" where
  "collect_bound_imports im f =
     (let (rva, sz) = directory im 11 in
      if rva = 0 \<or> sz < 8 then f
      else case file_range im rva sz of
             None \<Rightarrow> push ''bound-import directory RVA does not map into any file-backed section'' f
           | Some (start, stop) \<Rightarrow> bound_loop im start stop start MAX_BOUND_ENTRIES f)"

definition collect_iat :: "image \<Rightarrow> findings \<Rightarrow> findings" where
  "collect_iat im f =
     (let (rva, sz) = directory im 12 in
      if rva = 0 then f
      else if mapped im rva (max sz 1) then f
      else push ''IAT directory RVA does not map into the image'' f)"

section \<open>Thread-local storage\<close>

text \<open>One pointer of the directory: the new sink and the address within the image, where it has one.\<close>

definition tls_field :: "image \<Rightarrow> nat \<Rightarrow> string \<Rightarrow> nat \<Rightarrow> findings \<Rightarrow> u32 option \<times> findings" where
  "tls_field im start name off f =
     (case pointer_at im (sat_add_usize start off) of
        None \<Rightarrow> (None, push (''TLS '' @ name @ '' field is truncated'') f)
      | Some v \<Rightarrow>
          if v = 0 then (None, f)
          else case chk_sub_w v (im_base im) of
                 None \<Rightarrow> (None, push (''TLS '' @ name @ '' lies below the image base'') f)
               | Some d \<Rightarrow>
                   if 2 ^ 32 \<le> unat d then (None, f)
                   else let rva = ucast d in
                        (Some rva, if mapped im rva 1 then f else push (''TLS '' @ name @ '' does not map into the image'') f))"

definition tls_fields :: "image \<Rightarrow> nat \<Rightarrow> findings \<Rightarrow> u32 option \<times> findings" where
  "tls_fields im start f =
     (let f1 = snd (tls_field im start ''StartAddressOfRawData'' 0 f);
          f2 = snd (tls_field im start ''EndAddressOfRawData'' 8 f1);
          f3 = snd (tls_field im start ''AddressOfIndex'' 16 f2)
      in tls_field im start ''AddressOfCallBacks'' 24 f3)"

definition callback_step :: "image \<Rightarrow> nat \<Rightarrow> nat \<Rightarrow> findings \<Rightarrow> turn" where
  "callback_step im start slot f =
     (case pointer_at im (start + slot * unat (thunk_size im)) of
        None \<Rightarrow> Break f
      | Some callback \<Rightarrow>
          if callback = 0 then Return f
          else (case wants_more f of (room, f') \<Rightarrow>
            if \<not> room then Return f'
            else case chk_sub_w callback (im_base im) of
                   None \<Rightarrow> Next (push ''TLS callback lies below the image base'' f')
                 | Some d \<Rightarrow>
                     if 2 ^ 32 \<le> unat d then Next f'
                     else let rva = ucast d in
                          Next (if \<not> mapped im rva 1 then push ''TLS callback does not map into the image'' f'
                                else if \<not> in_executable im rva 1 then push ''TLS callback is not in an executable section'' f'
                                else f')))"

definition tls_callbacks :: "image \<Rightarrow> u32 \<Rightarrow> findings \<Rightarrow> findings" where
  "tls_callbacks im array_rva f =
     (if array_rva = 0 then f
      else case file_offset im array_rva (thunk_size im) of
             None \<Rightarrow> push ''TLS callback array does not map into any file-backed section'' f
           | Some start \<Rightarrow>
               after (push ''TLS callback array has no null terminator'')
                 (each (callback_step im start)
                   [0..<min ((length (im_data im) - start) div unat (thunk_size im)) MAX_TLS_CALLBACKS] f))"

definition tls_directory :: "image \<Rightarrow> nat \<Rightarrow> findings \<Rightarrow> findings" where
  "tls_directory im start f =
     (case tls_fields im start f of (None, g) \<Rightarrow> g | (Some array_rva, g) \<Rightarrow> tls_callbacks im array_rva g)"

definition collect_tls :: "image \<Rightarrow> findings \<Rightarrow> findings" where
  "collect_tls im f =
     (let (rva, sz) = directory im 9 in
      if rva = 0 then f
      else
      let entry_size = (if im_is64 im then 40 else 24);
          f' = (if sz < entry_size then push ''TLS directory size is smaller than its header'' f else f) in
      case file_offset im rva entry_size of
        None \<Rightarrow> push ''TLS directory RVA does not map into any file-backed section'' f'
      | Some start \<Rightarrow> tls_directory im start f')"

section \<open>Relocations\<close>

definition reloc_entry :: "image \<Rightarrow> nat \<Rightarrow> u32 \<Rightarrow> nat \<Rightarrow> findings \<Rightarrow> turn" where
  "reloc_entry im off pg i f =
     (case im_u16 im (off + 8 + i * 2) of
        None \<Rightarrow> Break f
      | Some entry \<Rightarrow>
          let kind = drop_bit 12 entry in
          (case wants_more f of (room, f') \<Rightarrow>
             if \<not> room then Break f'
             else Next
               (if 10 < kind then push ''relocation block entry has unsupported type'' f'
                else if kind \<noteq> 0 \<and> im_size im \<le> sat_add_w pg (ucast (entry AND 0x0FFF)) then push ''relocation block entry targets RVA beyond SizeOfImage'' f'
                else f')))"

definition check_block :: "image \<Rightarrow> nat \<Rightarrow> u32 \<Rightarrow> u32 \<Rightarrow> findings \<Rightarrow> findings" where
  "check_block im off pg block_size f =
     (let f1 = (if pg mod 0x1000 \<noteq> 0 then push ''relocation block page RVA is not 4 KiB aligned'' f else f);
          f2 = (if im_size im \<le> pg then push ''relocation block page RVA lies beyond SizeOfImage'' f1 else f1)
      in after (\<lambda>g. g) (each (reloc_entry im off pg) [0..<unat ((block_size - 8) div 2)] f2))"

definition block_fits :: "nat \<Rightarrow> nat \<Rightarrow> u32 \<Rightarrow> bool" where
  "block_fits off stop block_size \<longleftrightarrow> 8 \<le> block_size \<and> block_size mod 2 = 0
     \<and> (case chk_add off (unat block_size) of None \<Rightarrow> False | Some e \<Rightarrow> e \<le> stop)"

function reloc_loop :: "image \<Rightarrow> nat \<Rightarrow> nat \<Rightarrow> nat \<Rightarrow> findings \<Rightarrow> findings" where
  "reloc_loop im stop off blocks f =
     (if (case chk_add off 8 of None \<Rightarrow> True | Some e \<Rightarrow> stop < e)
      then (if off \<noteq> stop then push ''relocation directory has trailing byte(s) after the last block'' f else f)
      else
      let pg = or_zero (im_u32 im off); block_size = or_zero (im_u32 im (off + 4)) in
      if \<not> block_fits off stop block_size then push ''relocation block declares a size which does not fit the directory'' f
      else
      let f' = check_block im off pg block_size f in
      if MAX_RELOCATION_BLOCKS \<le> blocks + 1 then push ''relocation directory has more than 262144 blocks'' f'
      else reloc_loop im stop (off + unat block_size) (blocks + 1) f')"
  by pat_completeness auto
termination
  by (relation "measure (\<lambda>(im, stop, off, blocks, f). stop - off)")
    (auto simp: block_fits_def chk_add_def word_le_nat_alt split: if_splits option.splits)

declare reloc_loop.simps [simp del]

definition collect_relocations :: "image \<Rightarrow> findings \<Rightarrow> findings" where
  "collect_relocations im f =
     (let (rva, sz) = directory im 5 in
      if rva = 0 then f
      else if sz = 0 then push ''base relocation directory has a zero size'' f
      else case file_range im rva sz of
             None \<Rightarrow> push ''base relocation directory RVA does not map into any file-backed section'' f
           | Some (start, stop) \<Rightarrow> reloc_loop im stop start 0 f)"

section \<open>Exceptions and load configuration\<close>

definition exception_step :: "image \<Rightarrow> nat \<Rightarrow> u32 \<Rightarrow> nat \<Rightarrow> findings \<Rightarrow> turn" where
  "exception_step im start entry_size i f =
     (case wants_more f of (room, f') \<Rightarrow>
        if \<not> room then Return f'
        else
        let off = start + i * unat entry_size; first = or_zero (im_u32 im off); last_rva = or_zero (im_u32 im (off + 4)) in
        if last_rva \<le> first then Next (push ''exception entry has begin RVA >= end RVA'' f')
        else
        let f1 = (if \<not> mapped im first 1 then push ''exception entry begin RVA does not map into the image'' f' else f');
            f2 = (if \<not> mapped im (last_rva - 1) 1 then push ''exception entry end RVA does not map into the image'' f1 else f1);
            unwind = or_zero (im_u32 im (off + 8))
        in Next (if im_is64 im \<and> unwind \<noteq> 0 \<and> \<not> mapped im (unwind AND NOT 3) 1
                 then push ''exception entry unwind info RVA does not map into the image'' f2 else f2))"

definition collect_exception :: "image \<Rightarrow> findings \<Rightarrow> findings" where
  "collect_exception im f =
     (let (rva, sz) = directory im 3 in
      if rva = 0 \<or> sz = 0 then f
      else
      let entry_size = (if im_is64 im then 12 else 8);
          f' = (if sz mod entry_size \<noteq> 0 then push ''exception directory size is not a multiple of the entry size'' f else f);
          usable = sz - sz mod entry_size in
      case file_offset im rva usable of
        None \<Rightarrow> push ''exception directory RVA does not map into any file-backed section'' f'
      | Some start \<Rightarrow> 
          after (\<lambda>g. g) (each (exception_step im start entry_size) [0..<min (unat (usable div entry_size)) MAX_EXCEPTION_ENTRIES] f'))"

definition load_config_field :: "image \<Rightarrow> nat \<Rightarrow> u32 \<Rightarrow> string \<Rightarrow> nat \<Rightarrow> findings \<Rightarrow> findings" where
  "load_config_field im start readable name off f =
     (if readable < sat_add_w (word_of_nat off) (thunk_size im) then f
      else case pointer_at im (start + off) of
             None \<Rightarrow> f
           | Some v \<Rightarrow>
               if v = 0 then f
               else case chk_sub_w v (im_base im) of
                      None \<Rightarrow> push (''load-config '' @ name @ '' lies below the image base'') f
                    | Some d \<Rightarrow>
                        if 2 ^ 32 \<le> unat d then f
                        else if mapped im (ucast d) 1 then f
                        else push (''load-config '' @ name @ '' does not map into the image'') f)"

definition load_config_fields :: "image \<Rightarrow> nat \<Rightarrow> u32 \<Rightarrow> findings \<Rightarrow> findings" where
  "load_config_fields im start readable f =
     load_config_field im start readable ''guard CF function table'' (if im_is64 im then 0x70 else 0x48)
       (load_config_field im start readable ''security cookie'' (if im_is64 im then 0x58 else 0x3C) f)"

definition collect_load_config :: "image \<Rightarrow> findings \<Rightarrow> findings" where
  "collect_load_config im f =
     (let (rva, sz) = directory im 10 in
      if rva = 0 \<or> sz = 0 then f
      else
      let minimum = (if im_is64 im then 0x70 else 0x40);
          f' = (if sz < minimum then push ''load-config directory size is smaller than the header the loader reads'' f else f);
          readable = min minimum sz in
      case file_offset im rva readable of
        None \<Rightarrow> push ''load-config directory RVA does not map into any file-backed section'' f'
      | Some start \<Rightarrow> load_config_fields im start readable f')"

section \<open>All directories\<close>

definition collectors :: "(image \<Rightarrow> findings \<Rightarrow> findings) list" where
  "collectors = [collect_imports, collect_delay_imports, collect_bound_imports, collect_iat, collect_tls, collect_relocations,
     collect_exception, collect_load_config]"

definition collect_directories :: "image \<Rightarrow> message list \<Rightarrow> message list" where
  "collect_directories im out = foldl (\<lambda>out check. finish_findings (check im (new_findings out))) out collectors"

end
