(* ===== verification/DirectoryProps.thy ===== *)
theory DirectoryProps
  imports Directories
begin

unbundle bit_operations_syntax

text \<open>What the directory walks of \<^verbatim>\<open>directories.rs\<close> establish: bounded reports, exactness of the relocation walk, agreement of
  the range lookup with \<^verbatim>\<open>senbei_pe\<close>, and two tables of which the code reads the wrong fields.\<close>

section \<open>Every walk only sinks messages\<close>

lemma sunk_name [sinks]: "sunk f (push_name label name f)"
  by (auto simp: push_name_def split: option.split bool.split)

lemma sunk_thunk [sinks]: "sunk f (check_thunk im label names thunk f)"
proof -
  obtain room g where w: "wants_more f = (room, g)" by fastforce
  show ?thesis using sunk_room [OF w] sunk_trans [OF sunk_room [OF w] sunk_name] by (simp add: check_thunk_def w)
qed

lemma sunk_thunk_loop: "thunk_loop im start label names n count f = (k, t, g) \<Longrightarrow> sunk f g"
proof (induction im start label names n count f rule: thunk_loop.induct)
  case (2 im start label names n count f)
  show ?case
  proof (cases "pointer_at im (start + count * unat (thunk_size im))")
    case (Some thunk)
    then show ?thesis using 2 sunk_trans [OF sunk_thunk] by (fastforce split: if_splits)
  qed (use 2 in simp)
qed simp

lemma sunk_walk: "walk_thunks im table label names f = (k, g) \<Longrightarrow> sunk f g"
proof (cases "file_offset im table (thunk_size im)")
  case (Some start)
  assume w: "walk_thunks im table label names f = (k, g)"
  obtain count terminated h where l: "thunk_loop im start label names (min ((length (im_data im) - start) div unat (thunk_size im)) MAX_THUNKS) 0 f
      = (count, terminated, h)"
    by (metis prod_cases3)
  from w have "g = h \<or> g = push (label @ '' has no terminating null'') h
      \<or> g = push (label @ '' runs to the end of the file without a terminating null'') h"
    by (auto simp: walk_thunks_def Some l split: if_splits)
  then show ?thesis using sunk_thunk_loop [OF l] by (auto intro: sunk_push)
qed (simp add: walk_thunks_def)

lemma sunk_import_tables [sinks]: "sunk f (import_tables im table oft ft f)"
  by (auto simp: import_tables_def dest!: sunk_walk intro: sunk_push split: option.split prod.split)

definition keeps :: "(nat \<Rightarrow> findings \<Rightarrow> turn) \<Rightarrow> bool" where
  "keeps step \<longleftrightarrow> (\<forall>i f. sunk f (sink (step i f)))"

lemma sunk_each: "keeps step \<Longrightarrow> sunk f (sink (each step is f))"
proof (induction "is" arbitrary: f)
  case (Cons i "is")
  then have s: "sunk f (sink (step i f))" by (simp add: keeps_def)
  show ?case
  proof (cases "step i f")
    case (Next g)
    then show ?thesis using s Cons.IH [OF Cons.prems, of g] sunk_trans by auto
  qed (use s in auto)
qed simp

lemma sunk_after: "keeps step \<Longrightarrow> sunk f (after (push s) (each step is f))" "keeps step \<Longrightarrow> sunk f (after (\<lambda>g. g) (each step is f))"
  using sunk_each [of step f "is"] by (auto simp: after_def sunk_push split: turn.split)

lemma keeps_import: "keeps (import_step im start)"
  by (auto simp: keeps_def import_step_def Let_def intro: sinks split: option.split)

lemma sunk_imports: "sunk f (collect_imports im f)"
  by (auto simp: collect_imports_def Let_def intro!: sunk_after keeps_import split: option.split)

lemma sunk_delay_name: "sunk f (delay_name im name f)"
  by (auto simp: delay_name_def split: option.split bool.split)

lemma sunk_delay_tables: "sunk f (delay_tables im table f)"
  by (auto simp: delay_tables_def dest!: sunk_walk intro: sunk_push split: option.split prod.split)

lemma keeps_delay: "keeps (delay_step im start)"
  by (auto simp: keeps_def delay_step_def Let_def intro: sunk_trans [OF sunk_delay_name sunk_delay_tables] split: option.split)

lemma sunk_delay: "sunk f (collect_delay_imports im f)"
  by (auto simp: collect_delay_imports_def Let_def intro!: sunk_after keeps_delay split: option.split)

lemma sunk_bound_loop: "sunk f (bound_loop im start dir_end off n f)"
proof (induction n arbitrary: off f)
  case (Suc n)
  define f' where "f' name_at = (if dir_end \<le> name_at then push ''bound-import module name offset lies outside the directory'' f
     else if im_u32 im name_at = None then push ''bound-import module name is not backed by the file'' f else f)" for name_at
  have "sunk f (f' name_at)" for name_at by (simp add: f'_def)
  then have next_step: "sunk f (bound_loop im start dir_end off' n (f' name_at))" for off' name_at
    by (rule sunk_trans) (rule Suc.IH)
  show ?case unfolding bound_loop.simps(2) Let_def f'_def [symmetric]
    by (auto simp del: bound_loop.simps split: option.split intro: next_step)
qed simp

lemma sunk_bound: "sunk f (collect_bound_imports im f)"
  by (auto simp: collect_bound_imports_def Let_def intro: sunk_bound_loop split: option.split prod.split)

lemma sunk_iat: "sunk f (collect_iat im f)"
  by (auto simp: collect_iat_def split: prod.split)

lemma sunk_tls_field: "sunk f (snd (tls_field im start name off f))"
  unfolding tls_field_def Let_def by (intro sunk_intros)

lemma sunk_tls_fields: "tls_fields im start f = (r, g) \<Longrightarrow> sunk f g"
proof -
  assume r: "tls_fields im start f = (r, g)"
  have "sunk f (snd (tls_fields im start f))"
    unfolding tls_fields_def Let_def
    by (rule sunk_trans [OF sunk_tls_field sunk_trans [OF sunk_tls_field sunk_trans [OF sunk_tls_field sunk_tls_field]]])
  then show ?thesis by (simp only: r snd_conv)
qed

lemma keeps_callback: "keeps (callback_step im start)"
  by (auto simp: keeps_def callback_step_def Let_def intro: sinks sunk_push split: option.split prod.split)

lemma sunk_tls_callbacks: "sunk f (tls_callbacks im rva f)"
  unfolding tls_callbacks_def by (intro sunk_intros sunk_after(1) keeps_callback)

lemma sunk_tls_directory: "sunk f (tls_directory im start f)"
proof -
  obtain a g where t: "tls_fields im start f = (a, g)" by fastforce
  show ?thesis
    using sunk_tls_fields [OF t] sunk_trans [OF sunk_tls_fields [OF t] sunk_tls_callbacks] by (cases a) (simp_all add: tls_directory_def t)
qed

lemma sunk_tls: "sunk f (collect_tls im f)"
  unfolding collect_tls_def Let_def
  by (intro sunk_case_prod sunk_if sunk_case sunk_refl sunk_trans [OF _ sunk_tls_directory] sunk_push)

lemma keeps_reloc: "keeps (reloc_entry im off pg)"
  by (auto simp: keeps_def reloc_entry_def Let_def intro: sinks sunk_push split: option.split prod.split)

lemma sunk_block: "sunk f (check_block im off pg block_size f)"
  unfolding check_block_def Let_def
  by (rule sunk_trans [OF _ sunk_after(2) [OF keeps_reloc]]) (auto intro: sunk_push)

lemma sunk_reloc_loop: "sunk f (reloc_loop im stop off blocks f)"
proof (induction im stop off blocks f rule: reloc_loop.induct)
  case (1 im stop off blocks f)
  let ?f = "check_block im off (or_zero (im_u32 im off)) (or_zero (im_u32 im (off + 4))) f"
  have b: "sunk f ?f" by (rule sunk_block)
  consider "reloc_loop im stop off blocks f \<in> {f, push ''relocation directory has trailing byte(s) after the last block'' f,
       push ''relocation block declares a size which does not fit the directory'' f,
       push ''relocation directory has more than 262144 blocks'' ?f}"
    | "reloc_loop im stop off blocks f = reloc_loop im stop (off + unat (or_zero (im_u32 im (off + 4)))) (blocks + 1) ?f"
      "sunk ?f (reloc_loop im stop (off + unat (or_zero (im_u32 im (off + 4)))) (blocks + 1) ?f)"
    using 1 [OF _ refl refl _ refl] reloc_loop.simps [of im stop off blocks f] unfolding Let_def
    by (metis (no_types, lifting) insertCI)
  then show ?case
  proof cases
    case 1
    then show ?thesis using b by (auto intro: sunk_push)
  next
    case 2
    then show ?thesis using b sunk_trans by metis
  qed
qed

lemma sunk_relocations: "sunk f (collect_relocations im f)"
  by (auto simp: collect_relocations_def intro: sunk_reloc_loop split: option.split prod.split)

lemma keeps_exception: "keeps (exception_step im start entry_size)"
  by (auto simp: keeps_def exception_step_def Let_def intro: sinks sunk_push split: prod.split)

lemma sunk_exception: "sunk f (collect_exception im f)"
  unfolding collect_exception_def Let_def
  by (intro sunk_case_prod sunk_if sunk_case sunk_refl sunk_trans [OF _ sunk_after(2) [OF keeps_exception]] sunk_push)

lemma sunk_load_field: "sunk f (load_config_field im start readable name off f)"
  unfolding load_config_field_def by (intro sunk_intros)

lemma sunk_load_config_fields: "sunk f (load_config_fields im start readable f)"
  unfolding load_config_fields_def by (rule sunk_trans [OF sunk_load_field sunk_load_field])

lemma sunk_load_config: "sunk f (collect_load_config im f)"
  unfolding collect_load_config_def Let_def
  by (intro sunk_case_prod sunk_if sunk_case sunk_refl sunk_trans [OF _ sunk_load_config_fields] sunk_push)

lemma sunk_collector: "check \<in> set collectors \<Longrightarrow> sunk f (check im f)"
  by (auto simp: collectors_def intro: sunk_imports sunk_delay sunk_bound sunk_iat sunk_tls sunk_relocations sunk_exception sunk_load_config)

lemma finish_extends: "sunk (new_findings out) f \<Longrightarrow> \<exists>ys. finish_findings f = out @ ys \<and> length ys \<le> 18"
  using finish_bounded [of out f] by (intro exI [of _ "drop (length out) (finish_findings f)"]) (metis append_take_drop_id diff_le_mono add_diff_cancel_left' length_drop)

lemma directories_extend:
  "set checks \<subseteq> set collectors \<Longrightarrow>
   \<exists>ys. foldl (\<lambda>out check. finish_findings (check im (new_findings out))) out checks = out @ ys \<and> length ys \<le> 18 * length checks"
proof (induction checks arbitrary: out)
  case (Cons check checks)
  then have c: "check \<in> set collectors" "set checks \<subseteq> set collectors" by simp_all
  obtain ys where y: "finish_findings (check im (new_findings out)) = out @ ys" "length ys \<le> 18"
    using finish_extends [OF sunk_collector [OF c(1)]] by blast
  obtain zs where z: "foldl (\<lambda>out check. finish_findings (check im (new_findings out))) (out @ ys) checks = (out @ ys) @ zs"
      "length zs \<le> 18 * length checks"
    using Cons.IH [OF c(2), of "out @ ys"] by blast
  show ?case by (rule exI [of _ "ys @ zs"]) (use y z in simp)
qed simp

text \<open>The structural diagnostics are bounded however hostile the image is: the messages already collected are kept in
  front, and the eight tables together append at most 144 lines (16 messages and two summary lines each).\<close>

theorem directories_bounded: "\<exists>ys. collect_directories im out = out @ ys \<and> length ys \<le> 144"
  using directories_extend [of collectors im out] by (simp add: collect_directories_def) (simp add: collectors_def)

section \<open>A check that is never made\<close>

text \<open>C34. The walk of the load configuration announces two pointers, the security cookie and the guard CF function table, but
  reads no more of the structure than its required header, and the table's pointer lies past that header in both widths (at
  \<^verbatim>\<open>0x70\<close> of \<^verbatim>\<open>0x70\<close> bytes and at \<^verbatim>\<open>0x48\<close> of \<^verbatim>\<open>0x40\<close>): whatever the image holds there, the walk says about it what the cookie
  check alone says.\<close>

theorem guard_table_unchecked:
  "load_config_fields im start (min (if im_is64 im then 0x70 else 0x40) sz) f
     = load_config_field im start (min (if im_is64 im then 0x70 else 0x40) sz) ''security cookie'' (if im_is64 im then 0x58 else 0x3C) f"
proof -
  have "min (112 :: u32) sz < 120" "min (64 :: u32) sz < 76" by (simp_all add: min_less_iff_disj)
  then show ?thesis
    by (simp add: load_config_fields_def load_config_field_def [of _ _ _ "''guard CF function table''"] thunk_size_def sat_add_w_def)
qed

section \<open>Ranges\<close>

text \<open>The diagnostics' own range lookup is the one the unpacker maps the image with, as its comment promises, when the file
  holds the \<^verbatim>\<open>SizeOfHeaders\<close> field: both answer with the same file range or both refuse.\<close>

theorem file_range_agrees:
  assumes "pe_sections (im_data im) (im_headers im) = Ok (im_sections im)"
    and "h_pe_offset (im_headers im) + 88 \<le> length (im_data im)" and "h_pe_offset (im_headers im) + 84 < 2 ^ 32"
  shows "file_range im rva sz = (case rva_range (im_data im) (im_headers im) rva sz of Ok r \<Rightarrow> Some r | _ \<Rightarrow> None)"
proof -
  let ?at = "h_pe_offset (im_headers im) + 84" and ?hs = "from_le (window (im_data im) (h_pe_offset (im_headers im) + 84) 4) :: u32"
  have r: "pe_read 4 (im_data im) (h_pe_offset (im_headers im) + 24 + 60) = Ok ?hs"
    using assms(2) by (simp add: pe_read_in add.commute)
  have u: "unat (word_of_nat n :: u32) = n" if "n < 2 ^ 32" for n
    using that by (simp add: unsigned_of_nat take_bit_nat_eq_self)
  have "get_le 4 (im_data im) (unat (word_of_nat ?at :: u32)) = Some ?hs"
    unfolding u [OF assms(3)] using assms(2) by (simp add: get_le_def get_range_def)
  then have "get_le 4 (im_data im) (unat (word_of_nat (84 + h_pe_offset (im_headers im)) :: u32)) = Some ?hs"
    by (simp only: add.commute [of 84])
  then have h: "header_size im = ?hs"
    using assms(3) by (simp add: header_size_def chk_add_def usize_limit_def pe_rd_u32_def or_zero_def add.commute)
  let ?file = "\<lambda>off :: u32. Option.bind (chk_add (unat off) (unat sz)) (\<lambda>stop.
      if stop \<le> length (im_data im) then Some (unat off, stop) else None)"
  let ?pe = "\<lambda>off :: u32. rbind (ok_or PeOutOfBounds (chk_add (unat off) (unat sz))) (\<lambda>stop.
      rbind (ok_or PeOutOfBounds (get_range (im_data im) (unat off) (unat sz))) (\<lambda>_. Ok (unat off, stop)))"
  have tail: "?file off = (case ?pe off of Ok r \<Rightarrow> Some r | _ \<Rightarrow> None)" for off
    by (simp add: chk_add_def get_range_def)
  show ?thesis
  proof (cases "rva < ?hs \<and> sz \<le> ?hs - rva")
    case True
    then show ?thesis unfolding file_range_def rva_range_def r h rbind.simps(1) Let_def using tail [of rva] by simp
  next
    case False
    show ?thesis
      unfolding file_range_def rva_range_def r h rbind.simps(1) Let_def assms(1) if_not_P [OF False]
      by (cases "find_map (section_range rva sz) (im_sections im)") (simp_all only: Option.bind.simps ok_or.simps rbind.simps tail, simp)
  qed
qed

section \<open>The relocation walk is exact\<close>

definition entry_ok :: "image \<Rightarrow> u32 \<Rightarrow> u16 \<Rightarrow> bool" where
  "entry_ok im pg entry \<longleftrightarrow> drop_bit 12 entry \<le> 10
     \<and> (drop_bit 12 entry = 0 \<or> sat_add_w pg (ucast (entry AND 0x0FFF)) < im_size im)"

definition block_ok :: "image \<Rightarrow> nat \<Rightarrow> bool" where
  "block_ok im off \<longleftrightarrow>
     (let pg = or_zero (im_u32 im off); entries = (or_zero (im_u32 im (off + 4)) - 8) div 2 in
      pg mod 0x1000 = 0 \<and> pg < im_size im
      \<and> list_all (\<lambda>i. entry_ok im pg (or_zero (im_u16 im (off + 8 + i * 2)))) [0..<unat entries])"

text \<open>A directory up to \<open>stop\<close> that holds nothing but blocks the loader accepts, fewer than the cap.\<close>

inductive blocks_ok :: "image \<Rightarrow> nat \<Rightarrow> nat \<Rightarrow> nat \<Rightarrow> bool" for im stop where
  blocks_end: "blocks_ok im stop n stop"
| blocks_step: "off + 8 \<le> stop \<Longrightarrow> block_fits off stop (or_zero (im_u32 im (off + 4))) \<Longrightarrow> block_ok im off \<Longrightarrow>
    n + 1 < MAX_RELOCATION_BLOCKS \<Longrightarrow> blocks_ok im stop (n + 1) (off + unat (or_zero (im_u32 im (off + 4)))) \<Longrightarrow> blocks_ok im stop n off"

inductive_cases blocks_okE: "blocks_ok im stop n off"

lemma each_exact:
  assumes "keeps step" and "\<And>i. i \<in> set is \<Longrightarrow> ok i \<Longrightarrow> step i (new_findings out) = Next (new_findings out)"
    and "\<And>i. i \<in> set is \<Longrightarrow> \<not> ok i \<Longrightarrow> \<exists>s. step i (new_findings out) = Next (push s (new_findings out))"
  shows "if list_all ok is then each step is (new_findings out) = Next (new_findings out)
    else dirty out (sink (each step is (new_findings out)))"
  using assms(2,3)
proof (induction "is")
  case (Cons i "is")
  show ?case
  proof (cases "ok i")
    case True
    then show ?thesis using Cons by simp
  next
    case False
    then obtain s where "step i (new_findings out) = Next (push s (new_findings out))" using Cons.prems(2) [of i] by auto
    then show ?thesis using False dirty_sunk [OF dirty_push sunk_each [OF assms(1)]] by simp
  qed
qed simp

lemma after_id: "after (\<lambda>g. g) t = sink t"
  by (cases t) (simp_all add: after_def)

lemma reloc_entry_exact:
  assumes "im_u16 im (off + 8 + i * 2) = Some e"
  shows "entry_ok im pg e \<Longrightarrow> reloc_entry im off pg i (new_findings out) = Next (new_findings out)"
    and "\<not> entry_ok im pg e \<Longrightarrow> \<exists>s. reloc_entry im off pg i (new_findings out) = Next (push s (new_findings out))"
  using assms by (auto simp: reloc_entry_def Let_def entry_ok_def not_less not_le)

lemma block_exact:
  fixes out :: "message list"
  assumes "block_fits off stop (or_zero (im_u32 im (off + 4)))" and "stop \<le> length (im_data im)"
  defines "f \<equiv> check_block im off (or_zero (im_u32 im off)) (or_zero (im_u32 im (off + 4))) (new_findings out)"
  shows "if block_ok im off then f = new_findings out else dirty out f"
proof -
  define pg where "pg = or_zero (im_u32 im off)"
  define sz where "sz = or_zero (im_u32 im (off + 4))"
  let ?is = "[0..<unat ((sz - 8) div 2)]"
  have r: "im_u16 im (off + 8 + i * 2) = Some (or_zero (im_u16 im (off + 8 + i * 2)))" if "i \<in> set ?is" for i
  proof -
    have "8 \<le> sz" "off + unat sz \<le> stop" using assms(1)
      by (auto simp: block_fits_def sz_def chk_add_def split: if_splits)
    moreover have "i < (unat sz - 8) div 2"
      using that \<open>8 \<le> sz\<close> by (simp add: unat_div unat_sub)
    ultimately have "off + 8 + i * 2 + 2 \<le> length (im_data im)" using assms(2) by (simp add: word_le_nat_alt)
    then show ?thesis by (simp add: im_u16_def get_le_def get_range_def or_zero_def)
  qed
  have e: "if list_all (\<lambda>i. entry_ok im pg (or_zero (im_u16 im (off + 8 + i * 2)))) ?is
      then each (reloc_entry im off pg) ?is (new_findings out) = Next (new_findings out)
      else dirty out (sink (each (reloc_entry im off pg) ?is (new_findings out)))"
    using each_exact [OF keeps_reloc, of ?is "\<lambda>i. entry_ok im pg (or_zero (im_u16 im (off + 8 + i * 2)))" im off pg out]
      reloc_entry_exact [OF r] by blast
  define f2 where "f2 = (if im_size im \<le> pg then push ''relocation block page RVA lies beyond SizeOfImage''
      (if pg mod 0x1000 \<noteq> 0 then push ''relocation block page RVA is not 4 KiB aligned'' (new_findings out) else new_findings out)
    else if pg mod 0x1000 \<noteq> 0 then push ''relocation block page RVA is not 4 KiB aligned'' (new_findings out) else new_findings out)"
  have f: "f = sink (each (reloc_entry im off pg) ?is f2)"
    by (simp add: f_def check_block_def Let_def after_id f2_def pg_def sz_def)
  show ?thesis
  proof (cases "pg mod 0x1000 = 0 \<and> pg < im_size im")
    case True
    then have "f2 = new_findings out" by (simp add: f2_def flip: not_less)
    then show ?thesis using e True by (simp add: f block_ok_def Let_def flip: pg_def sz_def split: if_splits)
  next
    case False
    then have "dirty out f2" by (auto simp: f2_def not_less intro: dirty_sunk [OF dirty_push])
    then have "dirty out f" unfolding f using dirty_sunk sunk_each [OF keeps_reloc] by blast
    moreover have "\<not> block_ok im off" using False by (auto simp: block_ok_def Let_def pg_def)
    ultimately show ?thesis by simp
  qed
qed

lemma reloc_loop_exact:
  assumes "stop \<le> length (im_data im)" and "stop < usize_limit"
  shows "if blocks_ok im stop n off then reloc_loop im stop off n (new_findings out) = new_findings out
    else dirty out (reloc_loop im stop off n (new_findings out))"
proof (induction "stop - off" arbitrary: n off rule: less_induct)
  case less
  let ?sz = "or_zero (im_u32 im (off + 4))"
  let ?f = "check_block im off (or_zero (im_u32 im off)) ?sz (new_findings out)"
  have end_conv: "(case chk_add off 8 of None \<Rightarrow> True | Some e \<Rightarrow> stop < e) \<longleftrightarrow> stop < off + 8" for off
    using assms(2) by (auto simp: chk_add_def)
  show ?case
  proof (cases "off + 8 \<le> stop \<and> block_fits off stop ?sz")
    case False
    have "blocks_ok im stop n off \<longleftrightarrow> off = stop" using False by (auto elim: blocks_okE intro: blocks_end)
    then show ?thesis using False
      by (subst (1 2) reloc_loop.simps) (auto simp: end_conv Let_def)
  next
    case True
    then have step: "reloc_loop im stop off n (new_findings out) =
        (if MAX_RELOCATION_BLOCKS \<le> n + 1 then push ''relocation directory has more than 262144 blocks'' ?f
         else reloc_loop im stop (off + unat ?sz) (n + 1) ?f)"
      by (subst reloc_loop.simps) (simp add: end_conv Let_def)
    have ok: "blocks_ok im stop n off \<longleftrightarrow> block_ok im off \<and> n + 1 < MAX_RELOCATION_BLOCKS \<and> blocks_ok im stop (n + 1) (off + unat ?sz)"
      using True by (auto elim: blocks_okE intro: blocks_step)
    have b: "if block_ok im off then ?f = new_findings out else dirty out ?f"
      by (rule block_exact) (use True assms in auto)
    have smaller: "stop - (off + unat ?sz) < stop - off"
      using True by (auto simp: block_fits_def word_le_nat_alt)
    consider "\<not> block_ok im off" | "block_ok im off" "MAX_RELOCATION_BLOCKS \<le> n + 1" | "block_ok im off" "n + 1 < MAX_RELOCATION_BLOCKS"
      by linarith
    then show ?thesis
    proof cases
      case 1
      then have "dirty out ?f" using b by simp
      then have "dirty out (push s ?f)" "dirty out (reloc_loop im stop off' k ?f)" for s off' k
        using dirty_sunk sunk_push1 sunk_reloc_loop by blast+
      then show ?thesis using 1 ok step by simp
    next
      case 2
      then show ?thesis using b ok step by auto
    next
      case 3
      then show ?thesis using b ok step less [OF smaller, of "n + 1"] by (simp split: if_splits)
    qed
  qed
qed

text \<open>C31. The relocation diagnostics are exact. On a directory that is present, not empty and backed by the file, the walk
  reports nothing precisely when the directory is a sequence of blocks that fills it to its last byte, every block on a
  4 KiB page inside the image, with a size that is even and at least its header, and every entry of a known type with a target
  inside the image, fewer blocks than the cap.\<close>

theorem relocations_exact:
  assumes "directory im 5 = (rva, sz)" and "rva \<noteq> 0" and "sz \<noteq> 0" and "file_range im rva sz = Some (start, stop)"
  shows "finish_findings (collect_relocations im (new_findings out)) = out \<longleftrightarrow> blocks_ok im stop 0 start"
proof -
  have s: "stop \<le> length (im_data im)" "stop < usize_limit"
    using assms(4) by (auto simp: file_range_def bind_eq_Some_conv chk_add_Some_conv split: if_splits)
  have c: "collect_relocations im (new_findings out) = reloc_loop im stop start 0 (new_findings out)"
    using assms by (simp add: collect_relocations_def)
  show ?thesis
    using reloc_loop_exact [OF s, of 0 start out] dirty_reports by (auto simp: c split: if_splits)
qed

section \<open>The wrong fields of a 32-bit TLS directory\<close>

lemma mapped_data: "mapped (im\<lparr>im_data := d\<rparr>) = mapped im"
  by (intro ext) (simp add: mapped_def cong: option.case_cong)

lemma pointer_at_outside:
  assumes "\<not> im_is64 im" and "at + 4 \<le> length (im_data im)" and "length bs = 4" and "off + 4 \<le> at \<or> at + 4 \<le> off"
  shows "pointer_at (im\<lparr>im_data := take at (im_data im) @ bs @ drop (at + 4) (im_data im)\<rparr>) off = pointer_at im off"
proof -
  have "window (take at (im_data im) @ bs @ drop (at + 4) (im_data im)) off 4 = window (im_data im) off 4"
    using assms(2-4) by (auto simp: window_def take_drop intro!: nth_equalityI simp: nth_append)
  then show ?thesis using assms by (simp add: pointer_at_def im_u32_def get_le_def get_range_def)
qed

text \<open>C35. In a 32-bit image the TLS directory is 24 bytes, its pointers are four bytes each and its callback array is the pointer
  at offset 12; the walk reads four pointers at the offsets of the 64-bit form, 0, 8, 16 and 24. What the image declares as its
  callback array has no effect on the walk: any four bytes can stand at offset 12.\<close>

theorem tls32_callbacks_unread:
  assumes "\<not> im_is64 im" and "start + 16 \<le> length (im_data im)" and "length bs = 4" and "start + 28 < usize_limit"
  shows "tls_fields (im\<lparr>im_data := take (start + 12) (im_data im) @ bs @ drop (start + 16) (im_data im)\<rparr>) start f = tls_fields im start f"
proof -
  let ?im = "im\<lparr>im_data := take (start + 12) (im_data im) @ bs @ drop (start + 16) (im_data im)\<rparr>"
  have "tls_field ?im start name k g = tls_field im start name k g" if "k \<in> {0, 8, 16, 24}" for name k g
  proof -
    have "sat_add_usize start k = start + k" "start + k + 4 \<le> start + 12 \<or> start + 12 + 4 \<le> start + k"
      using assms(4) that by (auto simp: sat_add_usize_def)
    moreover have "start + 12 + 4 = start + 16" by simp
    ultimately have "pointer_at ?im (sat_add_usize start k) = pointer_at im (sat_add_usize start k)"
      using pointer_at_outside [of im "start + 12" bs "start + k"] assms(1-3) by metis
    moreover have "mapped ?im = mapped im" by (rule mapped_data)
    moreover have "im_base ?im = im_base im" by simp
    ultimately show ?thesis by (simp only: tls_field_def)
  qed
  then show ?thesis unfolding tls_fields_def by simp
qed

section \<open>A sample image\<close>

text \<open>A 32-bit header of 240 bytes that holds its own relocation directory: one block of two entries at 168.\<close>

definition sample_relocs :: image where
  "sample_relocs = \<lparr>im_data = replicate 84 0 @ [0xF0, 0, 0, 0] @ replicate 72 0 @ [0xA8, 0, 0, 0, 12, 0, 0, 0]
       @ [0, 0x10, 0, 0, 12, 0, 0, 0, 0x04, 0x30, 0, 0],
     im_headers = \<lparr>h_pe_offset = 0, h_is_pe32_plus = False, h_image_base = 0, h_size_of_image = 0x2000, h_entry_rva = 0,
       h_sections_offset = 0, h_sections = 0\<rparr>,
     im_sections = [], im_is64 = False, im_base = 0, im_size = 0x2000\<rparr>"

lemma sample_words:
  "length (im_data sample_relocs) = 180" "window (im_data sample_relocs) 84 4 = [0xF0, 0, 0, 0]"
  "window (im_data sample_relocs) 160 4 = [0xA8, 0, 0, 0]" "window (im_data sample_relocs) 164 4 = [12, 0, 0, 0]"
  "window (im_data sample_relocs) 168 4 = [0, 0x10, 0, 0]" "window (im_data sample_relocs) 172 4 = [12, 0, 0, 0]"
  "window (im_data sample_relocs) 176 2 = [4, 0x30]" "window (im_data sample_relocs) 178 2 = [0, 0]"
  by (simp_all add: sample_relocs_def window_def)

lemma sample_rest:
  "h_pe_offset (im_headers sample_relocs) = 0" "im_is64 sample_relocs = False" "im_size sample_relocs = 0x2000"
  "im_sections sample_relocs = []" "pe_sections (im_data sample_relocs) (im_headers sample_relocs) = Ok []"
  by (simp_all add: sample_relocs_def pe_sections_def)

lemmas sample_reads = sample_words sample_rest get_le_def get_range_def im_u32_def im_u16_def pe_rd_u32_def or_zero_def

lemma sample_directory: "directory sample_relocs 5 = (168, 12)"
  by (simp add: directory_def sample_reads sat_add_w_def)

lemma sample_file_range: "file_range sample_relocs 168 12 = Some (168, 180)"
  by (simp add: file_range_def header_size_def sample_reads chk_add_def usize_limit_def)

lemma sample_blocks: "blocks_ok sample_relocs 180 0 168"
proof (rule blocks_step)
  show "block_fits 168 180 (or_zero (im_u32 sample_relocs (168 + 4)))"
    by (simp add: block_fits_def sample_reads chk_add_def usize_limit_def)
  show "block_ok sample_relocs 168"
    by (simp add: block_ok_def sample_reads entry_ok_def sat_add_w_def upt_conv_Cons)
  have "168 + unat (or_zero (im_u32 sample_relocs (168 + 4))) = 180" by (simp add: sample_reads)
  then show "blocks_ok sample_relocs 180 (0 + 1) (168 + unat (or_zero (im_u32 sample_relocs (168 + 4))))"
    by (simp only: blocks_end)
qed (simp_all add: MAX_RELOCATION_BLOCKS_def)

lemma relocations_exact_witness: "finish_findings (collect_relocations sample_relocs (new_findings [])) = []"
  using relocations_exact [OF sample_directory _ _ sample_file_range] sample_blocks by simp

lemma file_range_agrees_witness: "rva_range (im_data sample_relocs) (im_headers sample_relocs) 168 12 = Ok (168, 180)"
  using file_range_agrees [of sample_relocs 168 12] sample_rest sample_words(1) sample_file_range
  by (simp split: res.splits)

lemma tls32_callbacks_unread_witness:
  "tls_fields (sample_relocs\<lparr>im_data := take 12 (im_data sample_relocs) @ [1, 2, 3, 4] @ drop 16 (im_data sample_relocs)\<rparr>) 0 (new_findings [])
     = tls_fields sample_relocs 0 (new_findings [])"
  using tls32_callbacks_unread [of sample_relocs 0 "[1, 2, 3, 4]"] sample_rest sample_words(1) by (simp add: usize_limit_def)

end
