(* ===== verification/ClrMetadata.thy ===== *)
theory ClrMetadata
  imports Directories
begin

unbundle bit_operations_syntax

text \<open>
  \<^verbatim>\<open>windows/integrity/clr.rs\<close>: the bounded structural diagnostics of the CLR metadata of a managed image. The walk has
  no error value: it pushes messages, and an early return is a branch that does not go on.
\<close>

definition MAX_STREAMS :: u32 where "MAX_STREAMS = 64"
definition MAX_STREAM_NAME :: u32 where "MAX_STREAM_NAME = 32"

record metadata =
  md_data :: bytes
  md_start :: nat
  md_len :: nat

definition md_bytes :: "metadata \<Rightarrow> bytes" where
  "md_bytes m =
     (let stop = sat_add_usize (md_start m) (md_len m) in
      if md_start m \<le> stop \<and> stop \<le> length (md_data m) then window (md_data m) (md_start m) (stop - md_start m) else [])"

definition md_u32 :: "metadata \<Rightarrow> u32 \<Rightarrow> u32 option" where
  "md_u32 m off =
     Option.bind (chk_add (md_start m) (unat off)) (\<lambda>at. if at \<le> length (md_data m) then pe_rd_u32 (drop at (md_data m)) 0 else None)"

definition md_u64 :: "metadata \<Rightarrow> u32 \<Rightarrow> u64 option" where
  "md_u64 m off = get_le 8 (md_bytes m) (unat off)"

definition md_slice :: "metadata \<Rightarrow> u32 \<Rightarrow> u32 \<Rightarrow> bytes option" where
  "md_slice m off n =
     Option.bind (chk_add (unat off) (unat n)) (\<lambda>stop. if md_len m < stop then None else get_range (md_bytes m) (unat off) (unat n))"

record stream =
  st_name :: bytes
  st_offset :: u32
  st_size :: u32

text \<open>The names the code compares with, as bytes.\<close>

definition bsjb :: bytes where "bsjb = [0x42, 0x53, 0x4A, 0x42]"
definition name_tables :: bytes where "name_tables = [0x23, 0x7E]"
definition name_unoptimized :: bytes where "name_unoptimized = [0x23, 0x2D]"
definition name_strings :: bytes where "name_strings = [0x23, 0x53, 0x74, 0x72, 0x69, 0x6E, 0x67, 0x73]"
definition name_guid :: bytes where "name_guid = [0x23, 0x47, 0x55, 0x49, 0x44]"
definition name_blob :: bytes where "name_blob = [0x23, 0x42, 0x6C, 0x6F, 0x62]"

definition find_nul :: "metadata \<Rightarrow> u32 \<Rightarrow> u32 \<Rightarrow> u32 option" where
  "find_nul m off limit =
     Option.bind (chk_sub (md_len m) (unat off)) (\<lambda>available.
     Option.bind (md_slice m off (word_of_nat (min available (unat limit)))) (\<lambda>w.
       let name = takeWhile (\<lambda>b. b \<noteq> 0) w in if name = w then None else Some (word_of_nat (length name))))"

definition stream_inside :: "metadata \<Rightarrow> u32 \<Rightarrow> u32 \<Rightarrow> bool" where
  "stream_inside m off sz \<longleftrightarrow> (case chk_add_w off sz of None \<Rightarrow> False | Some stop \<Rightarrow> unat stop \<le> md_len m)"

definition good_name :: "bytes \<Rightarrow> bool" where "good_name name \<longleftrightarrow> name \<noteq> [] \<and> list_all printable name"

text \<open>The padded length of a name: \<open>checked_add\<close> falls back to the length itself.\<close>

definition padded_name :: "u32 \<Rightarrow> u32" where
  "padded_name n =
     (case Option.bind (chk_add_w n 1) (\<lambda>v. chk_add_w v 3) of None \<Rightarrow> n | Some v \<Rightarrow> v AND NOT 3)"

text \<open>\<open>n\<close> headers are left; the result is the list of streams, or nothing after an early return.\<close>

fun stream_loop :: "metadata \<Rightarrow> nat \<Rightarrow> u32 \<Rightarrow> stream list \<Rightarrow> findings \<Rightarrow> stream list option \<times> findings" where
  "stream_loop m 0 cursor streams f = (Some streams, f)"
| "stream_loop m (Suc n) cursor streams f =
     (case md_slice m cursor 8 of
        None \<Rightarrow> (None, push ''CLR metadata stream header runs past the metadata blob'' f)
      | Some header \<Rightarrow>
          let off = from_le (take 4 header) :: u32; sz = from_le (drop 4 header) :: u32; name_at = sat_add_w cursor 8 in
          (case Option.bind (md_slice m name_at 1) (\<lambda>_. find_nul m name_at MAX_STREAM_NAME) of
             None \<Rightarrow> (None, push ''CLR metadata stream name is unterminated within 32 bytes'' f)
           | Some name_len \<Rightarrow>
               let name = (case md_slice m name_at name_len of None \<Rightarrow> [] | Some b \<Rightarrow> b);
                   f1 = (if good_name name then f else push ''CLR metadata stream name is empty or not printable ASCII'' f);
                   f2 = (if stream_inside m off sz then f1 else push ''CLR metadata stream extends past the metadata blob'' f1)
               in stream_loop m n (sat_add_w name_at (padded_name name_len))
                    (streams @ [\<lparr>st_name = name, st_offset = off, st_size = sz\<rparr>]) f2))"

definition heap_flags :: u8 where "heap_flags = 0x01 OR 0x02 OR 0x04"

definition count_ones :: "u64 \<Rightarrow> nat" where "count_ones w = length (filter (bit w) [0..<64])"

definition tables_tail :: "metadata \<Rightarrow> stream \<Rightarrow> u64 \<Rightarrow> findings \<Rightarrow> findings" where
  "tables_tail m tables valid f =
     (let f1 = (if valid = 0 then push ''CLR tables header declares no tables'' f else f);
          f2 = (if drop_bit 45 valid \<noteq> 0 then push ''CLR valid mask sets undefined table bits'' f1 else f1);
          rows_bytes = word_of_nat (count_ones valid * 4) :: u32;
          f3 = (if md_slice m (sat_add_w (st_offset tables) 24) rows_bytes = None
                then push ''CLR row-count array runs past the metadata blob'' f2 else f2)
      in if st_size tables < sat_add_w 24 rows_bytes then push ''CLR stream size cannot hold the row counts'' f3 else f3)"

definition collect_tables :: "metadata \<Rightarrow> stream \<Rightarrow> findings \<Rightarrow> findings" where
  "collect_tables m tables f =
     (case md_slice m (st_offset tables) 24 of
        None \<Rightarrow> push ''CLR tables stream is shorter than its 24-byte header'' f
      | Some header \<Rightarrow>
          let f1 = (if take 4 header \<noteq> [0, 0, 0, 0] then push ''CLR tables header reserved field is not zero'' f else f);
              f2 = (if header ! 4 \<noteq> 2 then push ''CLR table schema major version is not 2'' f1 else f1);
              f3 = (if header ! 6 AND NOT heap_flags \<noteq> 0 then push ''CLR header heap-size flags set undefined bits'' f2 else f2) in
          (case md_u64 m (sat_add_w (st_offset tables) 8) of
             None \<Rightarrow> push ''CLR header valid mask is truncated'' f3
           | Some valid \<Rightarrow> tables_tail m tables valid f3))"

definition has_stream :: "stream list \<Rightarrow> bytes \<Rightarrow> bool" where
  "has_stream streams name \<longleftrightarrow> list_ex (\<lambda>s. st_name s = name) streams"

definition tables_stream :: "stream list \<Rightarrow> stream option" where
  "tables_stream streams =
     (case find (\<lambda>s. st_name s = name_tables) streams of None \<Rightarrow> find (\<lambda>s. st_name s = name_unoptimized) streams | Some s \<Rightarrow> Some s)"

definition require_heap :: "stream list \<Rightarrow> bytes \<Rightarrow> string \<Rightarrow> findings \<Rightarrow> findings" where
  "require_heap streams name s f = (if has_stream streams name then f else push (''CLR metadata has no '' @ s @ '' heap'') f)"

definition check_streams :: "metadata \<Rightarrow> stream list \<Rightarrow> findings \<Rightarrow> findings" where
  "check_streams m streams f =
     (case tables_stream streams of
        None \<Rightarrow> push ''CLR metadata has neither a '#~' nor a '#-' tables stream'' f
      | Some tables \<Rightarrow>
          collect_tables m tables
            (require_heap streams name_blob ''#Blob'' (require_heap streams name_guid ''#GUID'' (require_heap streams name_strings ''#Strings'' f))))"

definition flags_at :: "u32 \<Rightarrow> u32 option" where
  "flags_at version_length = Option.bind (chk_add_w 16 version_length) (\<lambda>v. map_option (\<lambda>v. v AND NOT 3) (chk_add_w v 3))"

definition clr_walk :: "metadata \<Rightarrow> u32 \<Rightarrow> u16 \<Rightarrow> findings \<Rightarrow> findings" where
  "clr_walk m cursor stream_count f =
     (if MAX_STREAMS < ucast stream_count then push ''CLR metadata declares more than 64 streams'' f
      else case stream_loop m (unat stream_count) cursor [] f of
             (None, g) \<Rightarrow> g
           | (Some streams, g) \<Rightarrow> check_streams m streams g)"

definition clr_collect :: "metadata \<Rightarrow> findings \<Rightarrow> findings" where
  "clr_collect m f =
     (if md_slice m 0 4 \<noteq> Some bsjb then f
      else case md_u32 m 12 of
        None \<Rightarrow> push ''CLR metadata BSJB header is truncated'' f
      | Some version_length \<Rightarrow>
          (case flags_at version_length of
             None \<Rightarrow> push ''CLR metadata version length overflows'' f
           | Some flags \<Rightarrow>
               (case md_slice m flags 4 of
                  None \<Rightarrow> push ''CLR metadata version string runs past the metadata blob'' f
                | Some trailer \<Rightarrow>
                    (case chk_add_w flags 4 of
                       None \<Rightarrow> push ''CLR metadata stream table offset overflows'' f
                     | Some cursor \<Rightarrow> clr_walk m cursor (from_le (drop 2 trailer)) f))))"

end
