(* ===== verification/ClrProps.thy ===== *)
theory ClrProps
  imports ClrMetadata
begin

unbundle bit_operations_syntax

text \<open>The metadata walk of \<^verbatim>\<open>clr.rs\<close> only pushes messages, and it is silent on exactly the well-formed metadata.\<close>

section \<open>The walk keeps to its sink\<close>

lemma sunk_tables_tail: "sunk f (tables_tail m t valid f)"
  unfolding tables_tail_def Let_def by (intro sunk_if sunk_push sunk_refl)

lemma sunk_collect_tables: "sunk f (collect_tables m t f)"
  unfolding collect_tables_def Let_def by (intro sunk_case sunk_trans [OF _ sunk_tables_tail] sunk_if sunk_push sunk_refl)

lemma sunk_require: "sunk f (require_heap streams name s f)"
  by (simp add: require_heap_def)

lemma sunk_check_streams: "sunk f (check_streams m streams f)"
  unfolding check_streams_def
  by (intro sunk_case sunk_push1 sunk_trans [OF _ sunk_collect_tables]
      sunk_trans [OF sunk_require sunk_trans [OF sunk_require sunk_require]])

lemma sunk_stream_loop: "sunk f (snd (stream_loop m n cursor streams f))"
proof (induction n arbitrary: cursor streams f)
  case (Suc n)
  show ?case unfolding stream_loop.simps Let_def
    by (intro sunk_case_snd sunk_pair sunk_push1 sunk_trans [OF _ Suc.IH] sunk_if sunk_push sunk_refl)
qed simp

lemma sunk_clr_walk: "sunk f (clr_walk m cursor k f)"
proof -
  obtain r g where l: "stream_loop m (unat k) cursor [] f = (r, g)" by fastforce
  then have "sunk f g" using sunk_stream_loop [of f m "unat k" cursor "[]"] by simp
  then have "sunk f (case (r, g) of (None, g) \<Rightarrow> g | (Some streams, g) \<Rightarrow> check_streams m streams g)"
    using sunk_trans [OF _ sunk_check_streams] by (cases r) simp_all
  then show ?thesis by (simp add: clr_walk_def l)
qed

lemma sunk_clr: "sunk f (clr_collect m f)"
  unfolding clr_collect_def by (intro sunk_if sunk_case sunk_clr_walk sunk_push1 sunk_refl)

section \<open>Well-formed metadata\<close>

text \<open>The stream headers as a parser: the code's loop without its messages.\<close>

fun stream_list :: "metadata \<Rightarrow> nat \<Rightarrow> u32 \<Rightarrow> stream list option" where
  "stream_list m 0 cursor = Some []"
| "stream_list m (Suc n) cursor =
     Option.bind (md_slice m cursor 8) (\<lambda>header. let name_at = sat_add_w cursor 8 in
     Option.bind (md_slice m name_at 1) (\<lambda>_.
     Option.bind (find_nul m name_at MAX_STREAM_NAME) (\<lambda>name_len.
     map_option (\<lambda>ss. \<lparr>st_name = (case md_slice m name_at name_len of None \<Rightarrow> [] | Some b \<Rightarrow> b), st_offset = from_le (take 4 header),
         st_size = from_le (drop 4 header)\<rparr> # ss)
       (stream_list m n (sat_add_w name_at (padded_name name_len))))))"

definition stream_ok :: "metadata \<Rightarrow> stream \<Rightarrow> bool" where
  "stream_ok m s \<longleftrightarrow> good_name (st_name s) \<and> unat (st_offset s) + unat (st_size s) < 2 ^ 32
     \<and> unat (st_offset s) + unat (st_size s) \<le> md_len m"

definition clr_tables_ok :: "metadata \<Rightarrow> stream \<Rightarrow> bool" where
  "clr_tables_ok m t \<longleftrightarrow>
     (\<exists>header valid. md_slice m (st_offset t) 24 = Some header \<and> take 4 header = [0, 0, 0, 0] \<and> header ! 4 = 2
        \<and> header ! 6 AND NOT heap_flags = 0 \<and> md_u64 m (sat_add_w (st_offset t) 8) = Some valid
        \<and> valid \<noteq> 0 \<and> drop_bit 45 valid = 0 \<and> md_slice m (sat_add_w (st_offset t) 24) (word_of_nat (count_ones valid * 4)) \<noteq> None
        \<and> 24 + count_ones valid * 4 \<le> unat (st_size t))"

definition streams_ok :: "metadata \<Rightarrow> stream list \<Rightarrow> bool" where
  "streams_ok m ss \<longleftrightarrow> list_all (\<lambda>name. \<exists>s\<in>set ss. st_name s = name) [name_strings, name_guid, name_blob]
     \<and> (\<exists>t. tables_stream ss = Some t \<and> clr_tables_ok m t)"

definition clr_ok :: "metadata \<Rightarrow> bool" where
  "clr_ok m \<longleftrightarrow>
     (\<exists>version_length flags trailer cursor ss. md_u32 m 12 = Some version_length \<and> flags_at version_length = Some flags
        \<and> md_slice m flags 4 = Some trailer \<and> chk_add_w flags 4 = Some cursor
        \<and> (from_le (drop 2 trailer) :: u16) \<le> 64 \<and> stream_list m (unat (from_le (drop 2 trailer) :: u16)) cursor = Some ss
        \<and> list_all (stream_ok m) ss \<and> streams_ok m ss)"

section \<open>The walk is exact\<close>

lemma stream_inside_conv: "stream_inside m off sz \<longleftrightarrow> unat off + unat sz < 2 ^ 32 \<and> unat off + unat sz \<le> md_len m"
  by (auto simp: stream_inside_def chk_add_w_def unat_add_no_wrap)

lemma count_ones_le: "count_ones w \<le> 64"
  using length_filter_le [of "bit w" "[0..<64]"] by (simp add: count_ones_def)

lemma exact_tables_tail:
  assumes "exact out P f"
  shows "exact out (P \<and> valid \<noteq> 0 \<and> drop_bit 45 valid = 0 \<and> md_slice m (sat_add_w (st_offset t) 24) (word_of_nat (count_ones valid * 4)) \<noteq> None
      \<and> 24 + count_ones valid * 4 \<le> unat (st_size t)) (tables_tail m t valid f)"
proof -
  define n where "n = count_ones valid * 4"
  have n: "n \<le> 256" using count_ones_le [of valid] by (simp add: n_def)
  then have u: "unat (word_of_nat n :: u32) = n" by (simp add: unsigned_of_nat take_bit_nat_eq_self)
  then have "unat (sat_add_w 24 (word_of_nat n) :: u32) = 24 + n" using n by (simp add: sat_add_w_def unat_add_no_wrap)
  then have s: "st_size t < sat_add_w 24 (word_of_nat n) \<longleftrightarrow> \<not> 24 + n \<le> unat (st_size t)" by (simp add: word_less_nat_alt not_le)
  show ?thesis
    unfolding tables_tail_def Let_def n_def [symmetric]
    by (rule exact_cong [OF _ exact_unless [OF exact_unless [OF exact_unless [OF exact_unless [OF assms]]]]]) (auto simp: s)
qed

lemma exact_collect_tables: "exact out (clr_tables_ok m t) (collect_tables m t (new_findings out))"
proof (cases "md_slice m (st_offset t) 24")
  case None
  then show ?thesis by (simp add: clr_tables_ok_def collect_tables_def exact_sunk [OF exact_new])
next
  case (Some header)
  let ?Q = "((True \<and> \<not> take 4 header \<noteq> [0, 0, 0, 0]) \<and> \<not> header ! 4 \<noteq> 2) \<and> \<not> header ! 6 AND NOT heap_flags \<noteq> 0"
  note three = exact_unless [OF exact_unless [OF exact_unless [OF exact_new]]]
  show ?thesis
  proof (cases "md_u64 m (sat_add_w (st_offset t) 8) :: u64 option")
    case None
    then show ?thesis unfolding collect_tables_def Some option.case Let_def None
      by (intro exact_cong [OF _ exact_sunk [OF three]]) (simp add: clr_tables_ok_def None)
  next
    case (Some valid)
    show ?thesis unfolding collect_tables_def \<open>md_slice m (st_offset t) 24 = Some header\<close> option.case Let_def Some
      by (rule exact_cong [OF _ exact_tables_tail [OF three]]) (auto simp: clr_tables_ok_def \<open>md_slice m (st_offset t) 24 = Some header\<close> Some)
  qed
qed

lemma has_stream_conv: "has_stream ss name \<longleftrightarrow> (\<exists>s\<in>set ss. st_name s = name)"
  by (simp add: has_stream_def list_ex_iff)

lemma exact_check_streams: "exact out (streams_ok m ss) (check_streams m ss (new_findings out))"
proof (cases "tables_stream ss")
  case None
  then show ?thesis by (simp add: streams_ok_def check_streams_def exact_sunk [OF exact_new])
next
  case (Some t)
  have "exact out (((True \<and> has_stream ss name_strings) \<and> has_stream ss name_guid) \<and> has_stream ss name_blob)
     (require_heap ss name_blob ''#Blob'' (require_heap ss name_guid ''#GUID'' (require_heap ss name_strings ''#Strings'' (new_findings out))))"
    unfolding require_heap_def by (intro exact_if exact_new)
  from exact_then [OF this exact_collect_tables sunk_collect_tables]
  show ?thesis unfolding check_streams_def Some option.case
    by (rule exact_cong [rotated]) (simp add: streams_ok_def Some has_stream_conv)
qed

lemma exact_stream_loop:
  assumes "exact out P f" and "stream_loop m n cursor streams f = (r, g)"
  shows "r = map_option ((@) streams) (stream_list m n cursor)
    \<and> exact out (P \<and> (\<exists>ss. stream_list m n cursor = Some ss \<and> list_all (stream_ok m) ss)) g"
  using assms
proof (induction n arbitrary: cursor streams f P)
  case (Suc n)
  let ?at = "sat_add_w cursor 8"
  show ?case
  proof (cases "md_slice m cursor 8")
    case None
    then show ?thesis using Suc.prems by (auto intro: exact_sunk)
  next
    case header: (Some header)
    show ?thesis
    proof (cases "Option.bind (md_slice m ?at 1) (\<lambda>_. find_nul m ?at MAX_STREAM_NAME)")
      case None
      then have "stream_list m (Suc n) cursor = None"
        by (auto simp: header Let_def bind_eq_None_conv)
      then show ?thesis using Suc.prems exact_sunk by (auto simp: header None Let_def)
    next
      case (Some name_len)
      define name where "name = (case md_slice m ?at name_len of None \<Rightarrow> [] | Some b \<Rightarrow> b)"
      define s where "s = \<lparr>st_name = name, st_offset = from_le (take 4 header), st_size = from_le (drop 4 header)\<rparr>"
      define f2 where "f2 = (if stream_inside m (st_offset s) (st_size s)
        then if good_name name then f else push ''CLR metadata stream name is empty or not printable ASCII'' f
        else push ''CLR metadata stream extends past the metadata blob''
          (if good_name name then f else push ''CLR metadata stream name is empty or not printable ASCII'' f))"
      let ?next = "sat_add_w ?at (padded_name name_len)"
      have "stream_loop m (Suc n) cursor streams f = stream_loop m n ?next (streams @ [s]) f2"
        by (simp only: stream_loop.simps header Some option.case Let_def f2_def s_def name_def stream.select_convs)
      then have l: "stream_loop m n ?next (streams @ [s]) f2 = (r, g)" using Suc.prems(2) by simp
      have p: "stream_list m (Suc n) cursor = map_option ((#) s) (stream_list m n ?next)"
        using Some by (auto simp: header Let_def s_def name_def bind_eq_Some_conv)
      have e: "exact out ((P \<and> good_name name) \<and> stream_inside m (st_offset s) (st_size s)) f2"
        unfolding f2_def by (intro exact_if Suc.prems(1))
      have ok: "stream_ok m s \<longleftrightarrow> good_name name \<and> stream_inside m (st_offset s) (st_size s)"
        by (simp add: stream_ok_def stream_inside_conv s_def)
      note ih = Suc.IH [OF e l]
      have "r = map_option ((@) streams) (stream_list m (Suc n) cursor)"
        using ih by (cases "stream_list m n ?next") (simp_all add: p del: stream_list.simps)
      moreover have "exact out (P \<and> (\<exists>ss. stream_list m (Suc n) cursor = Some ss \<and> list_all (stream_ok m) ss)) g"
        by (rule exact_cong [OF _ conjunct2 [OF ih]]) (auto simp: p ok simp del: stream_list.simps)
      ultimately show ?thesis by simp
    qed
  qed
qed simp

lemma exact_clr_walk:
  "exact out (k \<le> 64 \<and> (\<exists>ss. stream_list m (unat k) cursor = Some ss \<and> list_all (stream_ok m) ss \<and> streams_ok m ss))
     (clr_walk m cursor k (new_findings out))"
proof (cases "k \<le> 64")
  have u: "unat (ucast k :: u32) = unat k" using unat_bound [of k] by (simp add: unsigned_ucast_eq take_bit_nat_eq_self)
  case False
  then have "MAX_STREAMS < (ucast k :: u32)" by (simp add: MAX_STREAMS_def u word_less_nat_alt word_le_nat_alt not_le)
  then show ?thesis using False by (simp add: clr_walk_def exact_sunk [OF exact_new])
next
  have u: "unat (ucast k :: u32) = unat k" using unat_bound [of k] by (simp add: unsigned_ucast_eq take_bit_nat_eq_self)
  case True
  then have k: "\<not> MAX_STREAMS < (ucast k :: u32)" by (simp add: MAX_STREAMS_def u word_less_nat_alt word_le_nat_alt not_less)
  obtain r g where l: "stream_loop m (unat k) cursor [] (new_findings out) = (r, g)" by fastforce
  note e = exact_stream_loop [OF exact_new l]
  show ?thesis
  proof (cases "stream_list m (unat k) cursor")
    case None
    then show ?thesis using e k l True by (simp add: clr_walk_def)
  next
    case (Some ss)
    then have r: "r = Some ss" "exact out (list_all (stream_ok m) ss) g" using e by simp_all
    from exact_then [OF r(2) exact_check_streams sunk_check_streams]
    show ?thesis using k l True by (simp add: clr_walk_def r(1) Some)
  qed
qed

text \<open>C32. The metadata diagnostics are exact: on a blob with the signature they report nothing precisely when the version string and
  every stream header lie in the blob, every stream has a printable name and a range inside the blob, the three required heaps
  are there, and the tables stream has a sound header, a mask of known tables and room for the row counts.\<close>

theorem clr_exact:
  assumes "md_slice m 0 4 = Some bsjb"
  shows "finish_findings (clr_collect m (new_findings out)) = out \<longleftrightarrow> clr_ok m"
proof -
  note bad = exact_sunk [OF exact_new]
  have "exact out (clr_ok m) (clr_collect m (new_findings out))"
    unfolding clr_collect_def using assms
    by (auto simp: clr_ok_def bad exact_clr_walk split: option.split intro: exact_cong [OF _ exact_clr_walk])
  then show ?thesis by (rule exact_reports)
qed

section \<open>A sample blob\<close>

text \<open>Four streams and a tables stream of one table.\<close>

definition sample_md :: metadata where
  "sample_md = \<lparr>md_data =
    [0x42, 0x53, 0x4A, 0x42, 1, 0, 1, 0, 0, 0, 0, 0, 4, 0, 0, 0, 0x76, 0x34, 0, 0, 0, 0, 4, 0,
     88, 0, 0, 0, 28, 0, 0, 0, 0x23, 0x7E, 0, 0,
     88, 0, 0, 0, 4, 0, 0, 0, 0x23, 0x53, 0x74, 0x72, 0x69, 0x6E, 0x67, 0x73, 0, 0, 0, 0,
     88, 0, 0, 0, 4, 0, 0, 0, 0x23, 0x47, 0x55, 0x49, 0x44, 0, 0, 0,
     88, 0, 0, 0, 4, 0, 0, 0, 0x23, 0x42, 0x6C, 0x6F, 0x62, 0, 0, 0,
     0, 0, 0, 0, 2, 0, 0, 1, 1, 0, 0, 0, 0, 0, 0, 0, 0, 0, 0, 0, 0, 0, 0, 0, 1, 0, 0, 0],
    md_start = 0, md_len = 116\<rparr>"

lemma sample_md_bytes: "md_bytes sample_md = md_data sample_md" "md_len sample_md = 116" "md_start sample_md = 0"
    "length (md_data sample_md) = 116"
  by (simp_all add: md_bytes_def sample_md_def sat_add_usize_def usize_limit_def window_def)

lemma sample_md_slice: "unat off + unat n \<le> 116 \<Longrightarrow> md_slice sample_md off n = Some (window (md_data sample_md) (unat off) (unat n))"
  by (simp add: md_slice_def sample_md_bytes chk_add_def usize_limit_def get_range_def)

lemma sample_md_version: "md_u32 sample_md 12 = Some 4"
  by (simp add: md_u32_def sample_md_bytes chk_add_def usize_limit_def pe_rd_u32_def get_le_def get_range_def) (simp add: sample_md_def window_def)

lemma sample_md_w:
  "window (md_data sample_md) 0 4 = [66, 83, 74, 66]"
  "window (md_data sample_md) 20 4 = [0, 0, 4, 0]"
  "window (md_data sample_md) 88 24 = [0, 0, 0, 0, 2, 0, 0, 1, 1, 0, 0, 0, 0, 0, 0, 0, 0, 0, 0, 0, 0, 0, 0, 0]"
  "window (md_data sample_md) 112 4 = [1, 0, 0, 0]"
  "window (md_data sample_md) 24 8 = [88, 0, 0, 0, 28, 0, 0, 0]"
  "window (md_data sample_md) 32 32 = [35, 126, 0, 0, 88, 0, 0, 0, 4, 0, 0, 0, 35, 83, 116, 114, 105, 110, 103, 115, 0, 0, 0, 0, 88, 0, 0, 0, 4, 0, 0, 0]"
  "window (md_data sample_md) 32 2 = [35, 126]"
  "window (md_data sample_md) 36 8 = [88, 0, 0, 0, 4, 0, 0, 0]"
  "window (md_data sample_md) 44 32 = [35, 83, 116, 114, 105, 110, 103, 115, 0, 0, 0, 0, 88, 0, 0, 0, 4, 0, 0, 0, 35, 71, 85, 73, 68, 0, 0, 0, 88, 0, 0, 0]"
  "window (md_data sample_md) 44 8 = [35, 83, 116, 114, 105, 110, 103, 115]"
  "window (md_data sample_md) 56 8 = [88, 0, 0, 0, 4, 0, 0, 0]"
  "window (md_data sample_md) 64 32 = [35, 71, 85, 73, 68, 0, 0, 0, 88, 0, 0, 0, 4, 0, 0, 0, 35, 66, 108, 111, 98, 0, 0, 0, 0, 0, 0, 0, 2, 0, 0, 1]"
  "window (md_data sample_md) 64 5 = [35, 71, 85, 73, 68]"
  "window (md_data sample_md) 72 8 = [88, 0, 0, 0, 4, 0, 0, 0]"
  "window (md_data sample_md) 80 32 = [35, 66, 108, 111, 98, 0, 0, 0, 0, 0, 0, 0, 2, 0, 0, 1, 1, 0, 0, 0, 0, 0, 0, 0, 0, 0, 0, 0, 0, 0, 0, 0]"
  "window (md_data sample_md) 80 5 = [35, 66, 108, 111, 98]"
  by (simp_all add: sample_md_def window_def)

lemma sample_nul:
  "find_nul sample_md 32 32 = Some 2" "find_nul sample_md 44 32 = Some 8" "find_nul sample_md 64 32 = Some 5" "find_nul sample_md 80 32 = Some 5"
  by (simp_all add: find_nul_def chk_sub_def sample_md_bytes sample_md_slice sample_md_w)

lemma stream_step:
  assumes "md_slice m cursor 8 = Some header" and "sat_add_w cursor 8 = at" and "md_slice m at 1 \<noteq> None"
    and "find_nul m at MAX_STREAM_NAME = Some k" and "md_slice m at k = Some name" and "sat_add_w at (padded_name k) = cursor'"
  shows "stream_list m (Suc n) cursor
    = map_option ((#) \<lparr>st_name = name, st_offset = from_le (take 4 header), st_size = from_le (drop 4 header)\<rparr>) (stream_list m n cursor')"
  using assms by (auto simp: Let_def)

lemmas sample_step = MAX_STREAM_NAME_def sample_nul sample_md_slice sample_md_w sat_add_w_def padded_name_def chk_add_w_def
  name_tables_def name_strings_def name_guid_def name_blob_def

lemma sample_md_steps:
  "stream_list sample_md (Suc n) 24 = map_option ((#) \<lparr>st_name = name_tables, st_offset = 88, st_size = 28\<rparr>) (stream_list sample_md n 36)"
  "stream_list sample_md (Suc n) 36 = map_option ((#) \<lparr>st_name = name_strings, st_offset = 88, st_size = 4\<rparr>) (stream_list sample_md n 56)"
  "stream_list sample_md (Suc n) 56 = map_option ((#) \<lparr>st_name = name_guid, st_offset = 88, st_size = 4\<rparr>) (stream_list sample_md n 72)"
  "stream_list sample_md (Suc n) 72 = map_option ((#) \<lparr>st_name = name_blob, st_offset = 88, st_size = 4\<rparr>) (stream_list sample_md n 88)"
  by (simp_all add: stream_step sample_step del: stream_list.simps)

definition sample_streams :: "stream list" where
  "sample_streams = [\<lparr>st_name = name_tables, st_offset = 88, st_size = 28\<rparr>,
     \<lparr>st_name = name_strings, st_offset = 88, st_size = 4\<rparr>,
     \<lparr>st_name = name_guid, st_offset = 88, st_size = 4\<rparr>,
     \<lparr>st_name = name_blob, st_offset = 88, st_size = 4\<rparr>]"

lemma sample_md_list: "stream_list sample_md 4 24 = Some sample_streams"
proof -
  have "stream_list sample_md (Suc (Suc (Suc (Suc 0)))) 24 = Some sample_streams"
    by (simp only: sample_md_steps stream_list.simps(1) option.map sample_streams_def)
  then show ?thesis by (simp only: numeral_nat)
qed

lemma sample_tables: "clr_tables_ok sample_md \<lparr>st_name = name_tables, st_offset = 88, st_size = 28\<rparr>"
proof -
  have "md_slice sample_md 88 24 = Some [0, 0, 0, 0, 2, 0, 0, 1, 1, 0, 0, 0, 0, 0, 0, 0, 0, 0, 0, 0, 0, 0, 0, 0]"
    by (simp add: sample_md_slice sample_md_w)
  moreover have "md_u64 sample_md (sat_add_w 88 8) = Some 1"
    by (simp add: md_u64_def sample_md_bytes sat_add_w_def get_le_def get_range_def) (simp add: sample_md_def window_def)
  moreover have "count_ones 1 = 1" by (simp add: count_ones_def upt_conv_Cons)
  ultimately show ?thesis by (simp add: clr_tables_ok_def heap_flags_def sample_step)
qed

lemma sample_streams_ok: "list_all (stream_ok sample_md) sample_streams" "streams_ok sample_md sample_streams"
  using sample_tables
  by (simp_all add: sample_streams_def stream_ok_def streams_ok_def good_name_def printable_def sample_md_bytes tables_stream_def
      name_tables_def name_strings_def name_guid_def name_blob_def)

lemma sample_clr_ok: "clr_ok sample_md"
  unfolding clr_ok_def
proof (intro exI conjI)
  show "md_u32 sample_md 12 = Some 4" by (rule sample_md_version)
  show "flags_at 4 = Some 20" by (simp add: flags_at_def chk_add_w_def)
  show "md_slice sample_md 20 4 = Some [0, 0, 4, 0]" by (simp add: sample_md_slice sample_md_w)
  show "chk_add_w 20 4 = Some (24 :: u32)" by (simp add: chk_add_w_def)
  show "(from_le (drop 2 [0, 0, 4, 0]) :: u16) \<le> 64" by simp
  show "stream_list sample_md (unat (from_le (drop 2 [0, 0, 4, 0]) :: u16)) 24 = Some sample_streams" using sample_md_list by simp
qed (rule sample_streams_ok)+

lemma clr_exact_witness: "finish_findings (clr_collect sample_md (new_findings [])) = []"
  using clr_exact [of sample_md] sample_clr_ok by (simp add: sample_md_slice sample_md_w bsjb_def)

end
