(* ===== verification/Integrity.thy ===== *)
theory Integrity
  imports ClrMetadata
begin

unbundle bit_operations_syntax

text \<open>
  \<^verbatim>\<open>windows/integrity/mod.rs\<close>: the static check of an unpacked image. A slice that the code takes with \<open>[..]\<close> is a \<open>Panic\<close>
  out of range; messages keep their fixed text.
\<close>

section \<open>The report\<close>

datatype severity = Fatal | Warning

record integrity_report =
  r_issues :: "message list"
  r_findings :: "(severity \<times> message) list"

definition new_report :: integrity_report where "new_report = \<lparr>r_issues = [], r_findings = []\<rparr>"

definition report_ok :: "integrity_report \<Rightarrow> bool" where "report_ok r \<longleftrightarrow> r_issues r = []"

definition has_fatal :: "integrity_report \<Rightarrow> bool" where "has_fatal r \<longleftrightarrow> list_ex (\<lambda>f. fst f = Fatal) (r_findings r)"

definition report_push :: "severity \<Rightarrow> message \<Rightarrow> integrity_report \<Rightarrow> integrity_report" where
  "report_push sev msg r = \<lparr>r_issues = r_issues r @ [msg], r_findings = r_findings r @ [(sev, msg)]\<rparr>"

abbreviation fatal :: "string \<Rightarrow> integrity_report \<Rightarrow> integrity_report" where "fatal s \<equiv> report_push Fatal (Text s)"
abbreviation warn :: "string \<Rightarrow> integrity_report \<Rightarrow> integrity_report" where "warn s \<equiv> report_push Warning (Text s)"

section \<open>Sections and the entry point\<close>

definition rva_to_off :: "bytes \<Rightarrow> pe_headers \<Rightarrow> u32 \<Rightarrow> u32 \<Rightarrow> u32 option" where
  "rva_to_off data h rva need =
     (case rva_to_offset data h rva of
        Ok off \<Rightarrow>
          if 2 ^ 32 \<le> off then None
          else Option.bind (chk_add_w (word_of_nat off) need) (\<lambda>stop. if unat stop \<le> length data then Some (word_of_nat off) else None)
      | _ \<Rightarrow> None)"

definition is_executable_rva :: "pe_section list \<Rightarrow> u32 \<Rightarrow> bool" where
  "is_executable_rva secs rva \<longleftrightarrow>
     list_ex (\<lambda>s. s_virtual_address s \<le> rva \<and> rva < s_virtual_address s + max (s_virtual_size s) (s_raw_size s)
        \<and> s_characteristics s AND 0x20000000 \<noteq> 0) secs"

text \<open>The stub is at least 18 bytes long where it is indexed; the target is computed in 64 bits and does not wrap.\<close>

definition check_branch :: "bytes \<Rightarrow> u32 \<Rightarrow> pe_section list \<Rightarrow> string \<Rightarrow> nat \<Rightarrow> int \<Rightarrow> integrity_report \<Rightarrow> integrity_report" where
  "check_branch stub ep secs name rel_off instruction_len r =
     (let target = int (unat ep) + instruction_len + sint (from_le (window stub rel_off 4) :: u32) in
      if 0 \<le> target \<and> target < 2 ^ 32 \<and> is_executable_rva secs (word_of_int target) then r
      else fatal (''entry point '' @ name @ '' target is outside executable sections (DD8 selection is likely wrong)'') r)"

definition check_common_entry_branches :: "bytes \<Rightarrow> u32 \<Rightarrow> pe_section list \<Rightarrow> integrity_report \<Rightarrow> integrity_report" where
  "check_common_entry_branches stub ep secs r =
     (if length stub < 18 \<or> take 3 stub \<noteq> [0x48, 0x83, 0xEC] \<or> stub ! 4 \<noteq> 0xE8 \<or> window stub 9 3 \<noteq> [0x48, 0x83, 0xC4]
         \<or> stub ! 12 \<noteq> stub ! 3 \<or> stub ! 13 \<noteq> 0xE9 then r
      else check_branch stub ep secs ''jump'' 14 18 (check_branch stub ep secs ''call'' 5 9 r))"

definition check_section :: "nat \<Rightarrow> pe_section \<Rightarrow> integrity_report \<Rightarrow> integrity_report" where
  "check_section file_len s r =
     (if s_raw_size s \<noteq> 0 \<and> file_len < unat (s_raw_offset s + s_raw_size s) then fatal ''section raw data exceeds file size'' r else r)"

definition check_entry_point :: "bytes \<Rightarrow> pe_headers \<Rightarrow> pe_section list \<Rightarrow> u32 \<Rightarrow> integrity_report \<Rightarrow> (integrity_report, unit) res" where
  "check_entry_point out h secs ep r =
     (case rva_to_off out h ep 16 of
        None \<Rightarrow> Ok (fatal ''entry point RVA does not map into any section'' r)
      | Some off \<Rightarrow>
          rbind (idx_range out (unat off) 16) (\<lambda>stub.
            let r1 = (if list_all (\<lambda>b. b = 0) stub then warn ''entry point is all zeros (stub not recovered)'' r
                      else if list_all (\<lambda>b. b = 0xCC) stub then warn ''entry point is all int3 padding (stub not recovered)'' r else r);
                r2 = (if is_executable_rva secs ep then r1 else fatal ''entry point RVA is not in an executable section'' r1)
            in Ok (case get_range out (unat off) 18 of
                     None \<Rightarrow> r2
                   | Some entry_stub \<Rightarrow> check_common_entry_branches entry_stub ep secs r2)))"

section \<open>Imports\<close>

definition looks_like_dll_name :: "bytes \<Rightarrow> u32 \<Rightarrow> bool" where
  "looks_like_dll_name d off =
     (let start = unat off; limit = min (start + 256) (length d);
          name = takeWhile (\<lambda>b. b \<noteq> 0) (window d start (limit - start)); stop = start + length name
      in stop \<noteq> start \<and> stop < limit \<and> list_all printable name)"

definition check_name :: "bytes \<Rightarrow> pe_headers \<Rightarrow> u32 \<Rightarrow> integrity_report \<Rightarrow> integrity_report" where
  "check_name out h name_rva r =
     (case rva_to_off out h name_rva 1 of
        None \<Rightarrow> fatal ''import descriptor DLL name RVA does not map into any section'' r
      | Some noff \<Rightarrow>
          if looks_like_dll_name out noff then r
          else warn ''import descriptor DLL name is not readable ASCII (imports left encrypted?)'' r)"

text \<open>\<open>n\<close> of the 256 descriptors are left.\<close>

fun import_scan :: "bytes \<Rightarrow> pe_headers \<Rightarrow> u32 \<Rightarrow> nat \<Rightarrow> u32 \<Rightarrow> integrity_report \<Rightarrow> integrity_report" where
  "import_scan out h desc_off 0 i r = r"
| "import_scan out h desc_off (Suc n) i r =
     (let name_rva = or_zero (pe_rd_u32 out (desc_off + i * 20 + 12)) in
      if name_rva = 0 then r
      else import_scan out h desc_off n (i + 1) (check_name out h name_rva r))"

definition check_imports :: "bytes \<Rightarrow> pe_headers \<Rightarrow> u32 \<Rightarrow> integrity_report \<Rightarrow> integrity_report" where
  "check_imports out h imp_rva r =
     (if imp_rva = 0 then r
      else case rva_to_off out h imp_rva 20 of
             None \<Rightarrow> fatal ''import directory RVA does not map into any section'' r
           | Some desc_off \<Rightarrow> import_scan out h desc_off 256 0 r)"

section \<open>Managed images\<close>

definition check_cor :: "bytes \<Rightarrow> pe_headers \<Rightarrow> u32 \<Rightarrow> integrity_report \<Rightarrow> integrity_report" where
  "check_cor out h clr_rva r =
     (case rva_to_off out h clr_rva 0x48 of
        None \<Rightarrow> fatal ''CLR (COR20) directory RVA does not map into any section'' r
      | Some coff \<Rightarrow>
          if or_zero (pe_rd_u32 out coff) \<noteq> 0x48 then fatal ''COR20 header has an unexpected cb: CLR header corrupt'' r
          else
          let md_rva = or_zero (pe_rd_u32 out (coff + 8)) in
          if md_rva = 0 then r
          else (case rva_to_off out h md_rva 4 of
                  None \<Rightarrow> fatal ''CLR MetaData RVA does not map into any section'' r
                | Some moff \<Rightarrow>
                    if get_range out (unat moff) 4 = Some bsjb then r
                    else fatal ''CLR MetaData lacks 'BSJB' signature (managed image will not load)'' r))"

definition clr_metadata :: "bytes \<Rightarrow> image \<Rightarrow> metadata option" where
  "clr_metadata out im =
     (case data_directory out (im_headers im) 14 of
        Ok (clr_rva, _) \<Rightarrow>
          if clr_rva = 0 then None
          else Option.bind (file_range im clr_rva 0x10) (\<lambda>cor. let at = word_of_nat (fst cor) :: u32 in
               Option.bind (pe_rd_u32 out (sat_add_w at 8)) (\<lambda>md_rva.
               Option.bind (pe_rd_u32 out (sat_add_w at 12)) (\<lambda>md_size.
                 if md_rva = 0 then None
                 else map_option (\<lambda>range. \<lparr>md_data = out, md_start = fst range, md_len = min (unat md_size) (length out - fst range)\<rparr>)
                        (file_range im md_rva 4))))
      | _ \<Rightarrow> None)"

section \<open>The check\<close>

definition diagnostics :: "bytes \<Rightarrow> image \<Rightarrow> bool \<Rightarrow> message list" where
  "diagnostics out im is_managed =
     (if is_managed
      then (case clr_metadata out im of None \<Rightarrow> [] | Some m \<Rightarrow> finish_findings (clr_collect m (new_findings [])))
      else collect_directories im [])"

text \<open>Everything after the section table: the data directories start \<open>dd_base\<close> bytes into the file.\<close>

definition check_native :: "bytes \<Rightarrow> pe_headers \<Rightarrow> pe_section list \<Rightarrow> u32 \<Rightarrow> bool \<Rightarrow> integrity_report \<Rightarrow> (integrity_report, unit) res" where
  "check_native out h secs ep is_managed r =
     (if ep = 0 \<or> is_managed then Ok r else check_entry_point out h secs ep r)"

definition check_loaded :: "bytes \<Rightarrow> u32 \<Rightarrow> bool \<Rightarrow> pe_headers \<Rightarrow> pe_section list \<Rightarrow> u32 \<Rightarrow> integrity_report \<Rightarrow> (integrity_report, unit) res" where
  "check_loaded out pe_off is64 h secs size_of_image r =
     (let dd_base = pe_off + 24 + (if is64 then 112 else 96);
          clr_rva = or_zero (pe_rd_u32 out (dd_base + 14 * 8)); is_managed = (clr_rva \<noteq> 0);
          is_dll = (or_zero (pe_rd_u16 out (pe_off + 22)) AND 0x2000 \<noteq> 0);
          r1 = (if is_dll \<and> \<not> is_managed \<and> or_zero (pe_rd_u32 out (dd_base + 5 * 8)) = 0
                then warn ''native DLL has no base relocation table'' r else r);
          ep = or_zero (pe_rd_u32 out (pe_off + 40));
          r2 = (if ep = 0 \<and> \<not> is_dll then fatal ''entry point RVA is zero'' r1 else r1)
      in rbind (check_native out h secs ep is_managed r2) (\<lambda>r3.
           let r4 = (if is_managed then r3 else check_imports out h (or_zero (pe_rd_u32 out (dd_base + 8))) r3);
               r5 = (if is_managed then check_cor out h clr_rva r4 else r4);
               im = \<lparr>im_data = out, im_headers = h, im_sections = secs, im_is64 = is64, im_base = h_image_base h, im_size = size_of_image\<rparr>
           in Ok (foldl (\<lambda>r m. report_push Warning m r) r5 (diagnostics out im is_managed))))"

definition check_sections :: "bytes \<Rightarrow> u32 \<Rightarrow> bool \<Rightarrow> u16 \<Rightarrow> (integrity_report, unit) res" where
  "check_sections out pe_off is64 num_sections =
     (let r1 = (if num_sections = 0 \<or> 96 < num_sections then fatal ''implausible section count'' new_report else new_report);
          size_of_image = or_zero (pe_rd_u32 out (pe_off + 80));
          r2 = (if size_of_image = 0 then fatal ''SizeOfImage is zero'' r1 else r1)
      in case pe_parse out of
           Ok h \<Rightarrow>
             (case pe_sections out h of
                Ok secs \<Rightarrow> check_loaded out pe_off is64 h secs size_of_image (foldl (\<lambda>r s. check_section (length out) s r) r2 secs)
              | _ \<Rightarrow> Ok (fatal ''section table extends past end of file'' r2))
         | _ \<Rightarrow> Ok (fatal ''section table extends past end of file'' r2))"

definition check :: "bytes \<Rightarrow> (integrity_report, unit) res" where
  "check out =
     (if pe_rd_u16 out 0 \<noteq> Some 0x5A4D then Ok (fatal ''missing 'MZ' DOS signature'' new_report)
      else case pe_rd_u32 out 0x3C of
        None \<Rightarrow> Ok (fatal ''truncated DOS header (no e_lfanew)'' new_report)
      | Some pe_off \<Rightarrow>
          if pe_rd_u32 out pe_off \<noteq> Some 0x00004550 then Ok (fatal ''missing PE signature'' new_report)
          else case pe_rd_u16 out (pe_off + 6) of
            None \<Rightarrow> Ok (fatal ''truncated COFF header'' new_report)
          | Some num_sections \<Rightarrow>
              (case pe_rd_u16 out (pe_off + 24) of
                 None \<Rightarrow> Ok (fatal ''truncated optional header'' new_report)
               | Some magic \<Rightarrow>
                   if magic = 0x20B then check_sections out pe_off True num_sections
                   else if magic = 0x10B then check_sections out pe_off False num_sections
                   else Ok (fatal ''bad optional-header magic'' new_report)))"

end
