(* ===== verification/DirectorySpec.thy ===== *)
theory DirectorySpec
  imports DirectoryProps
begin

unbundle bit_operations_syntax

text \<open>What the data directories of a sound image look like, written out for each of the eight tables, and the proof that
  the walks of \<^verbatim>\<open>directories.rs\<close> report nothing on exactly these images.\<close>

section \<open>Arrays of thunks\<close>

text \<open>The entries before the first that is zero or not in the file, of at most \<open>limit\<close> slots.\<close>

definition thunk_at :: "image \<Rightarrow> nat \<Rightarrow> nat \<Rightarrow> u64 option" where
  "thunk_at im start k = pointer_at im (start + k * unat (thunk_size im))"

definition thunk_slots :: "image \<Rightarrow> nat \<Rightarrow> nat" where
  "thunk_slots im start = min ((length (im_data im) - start) div unat (thunk_size im)) MAX_THUNKS"

definition thunks_upto :: "image \<Rightarrow> nat \<Rightarrow> nat list" where
  "thunks_upto im start = takeWhile (\<lambda>k. \<exists>v. thunk_at im start k = Some v \<and> v \<noteq> 0) [0..<thunk_slots im start]"

definition terminated_at :: "image \<Rightarrow> nat \<Rightarrow> bool" where
  "terminated_at im start \<longleftrightarrow> length (thunks_upto im start) < thunk_slots im start
     \<and> thunk_at im start (length (thunks_upto im start)) = Some 0"

definition thunk_named :: "image \<Rightarrow> nat \<Rightarrow> nat \<Rightarrow> bool" where
  "thunk_named im start k \<longleftrightarrow>
     (\<exists>v. thunk_at im start k = Some v \<and> (is_ordinal im v \<or> import_name im (ucast (v AND 0x7FFFFFFF)) = Some True))"

definition thunks_ok :: "image \<Rightarrow> u32 \<Rightarrow> bool \<Rightarrow> bool" where
  "thunks_ok im table names \<longleftrightarrow>
     (\<exists>start. file_offset im table (thunk_size im) = Some start \<and> terminated_at im start
        \<and> (names \<longrightarrow> list_all (thunk_named im start) (thunks_upto im start)))"

lemma check_thunk_exact:
  "exact out (names \<longrightarrow> is_ordinal im v \<or> import_name im (ucast (v AND 0x7FFFFFFF)) = Some True)
     (check_thunk im label names v (new_findings out))"
  by (auto simp: exact_def check_thunk_def push_name_def split: option.split bool.split)

lemma upt_head: "[count..<count + Suc n] = count # [Suc count..<Suc count + n]"
  by (simp add: upt_conv_Cons)

lemma thunk_loop_count:
  "thunk_loop im start label names n count f = (count', t, g) \<Longrightarrow>
     count' = count + length (takeWhile (\<lambda>k. \<exists>v. thunk_at im start k = Some v \<and> v \<noteq> 0) [count..<count + n])
     \<and> (t \<longleftrightarrow> count' < count + n \<and> thunk_at im start count' = Some 0)"
proof (induction n arbitrary: count f)
  case (Suc n)
  note loop = Suc.prems [unfolded thunk_loop.simps(2) thunk_at_def [symmetric]]
  show ?case
  proof (cases "thunk_at im start count")
    case None
    then show ?thesis using loop unfolding upt_head by auto
  next
    case (Some v)
    show ?thesis
    proof (cases "v = 0")
      case True
      then show ?thesis using loop Some unfolding upt_head by auto
    next
      case False
      then have "thunk_loop im start label names n (Suc count) (check_thunk im label names v f) = (count', t, g)"
        using loop Some by simp
      from Suc.IH [OF this] show ?thesis using Some False unfolding upt_head by simp
    qed
  qed
qed simp

lemma thunk_loop_exact:
  assumes "thunk_loop im start label names n count f = (count', t, g)" and "exact out P f"
  shows "exact out (P \<and> (names \<longrightarrow> list_all (thunk_named im start) [count..<count'])) g"
  using assms
proof (induction n arbitrary: count f P)
  case (Suc n)
  show ?case
  proof (cases "thunk_at im start count")
    case None
    then show ?thesis using Suc.prems by (auto simp: thunk_at_def)
  next
    case (Some v)
    show ?thesis
    proof (cases "v = 0")
      case True
      then show ?thesis using Suc.prems Some by (auto simp: thunk_at_def)
    next
      case False
      then have l: "thunk_loop im start label names n (Suc count) (check_thunk im label names v f) = (count', t, g)"
        using Suc.prems(1) Some by (simp add: thunk_at_def)
      have "exact out (P \<and> (names \<longrightarrow> is_ordinal im v \<or> import_name im (ucast (v AND 0x7FFFFFFF)) = Some True))
          (check_thunk im label names v f)"
        by (rule exact_then [OF Suc.prems(2) check_thunk_exact sunk_thunk])
      from Suc.IH [OF l this]
      moreover have "thunk_named im start count \<longleftrightarrow> is_ordinal im v \<or> import_name im (ucast (v AND 0x7FFFFFFF)) = Some True"
        using Some by (simp add: thunk_named_def)
      ultimately have "exact out ((P \<and> (names \<longrightarrow> thunk_named im start count)) \<and> (names \<longrightarrow> list_all (thunk_named im start) [Suc count..<count'])) g"
        by (simp only:)
      moreover have "[count..<count'] = count # [Suc count..<count']"
        using thunk_loop_count [OF l] by (intro upt_conv_Cons) simp
      ultimately show ?thesis by (elim exact_cong [rotated]) auto
    qed
  qed
qed simp

lemma walk_eq:
  assumes "file_offset im table (thunk_size im) = Some start"
  shows "walk_thunks im table label names f =
    (case thunk_loop im start label names (thunk_slots im start) 0 f of (count, terminated, g) \<Rightarrow>
       (Some count, if terminated then g else push (if thunk_slots im start = MAX_THUNKS then label @ '' has no terminating null''
          else label @ '' runs to the end of the file without a terminating null'') g))"
  unfolding walk_thunks_def assms option.case Let_def thunk_slots_def [symmetric] ..

lemma walk_loop:
  assumes "thunk_loop im start label names (thunk_slots im start) 0 f = (count, t, g)"
  shows "count = length (thunks_upto im start)" and "t \<longleftrightarrow> terminated_at im start"
  using thunk_loop_count [OF assms] by (simp_all add: thunks_upto_def terminated_at_def)

lemma walk_count:
  "fst (walk_thunks im table label names f) = map_option (\<lambda>start. length (thunks_upto im start)) (file_offset im table (thunk_size im))"
proof (cases "file_offset im table (thunk_size im)")
  case (Some start)
  obtain count t g where l: "thunk_loop im start label names (thunk_slots im start) 0 f = (count, t, g)" by (metis prod_cases3)
  then show ?thesis using walk_loop(1) [OF l] by (simp add: walk_eq [OF Some] Some)
qed (simp add: walk_thunks_def)

lemma upto_take: "[0..<length (thunks_upto im start)] = thunks_upto im start"
proof -
  have "length (thunks_upto im start) \<le> thunk_slots im start"
    using length_takeWhile_le [of _ "[0..<thunk_slots im start]"] by (simp add: thunks_upto_def)
  then have "take (length (thunks_upto im start)) [0..<thunk_slots im start] = [0..<length (thunks_upto im start)]"
    by (simp add: take_upt)
  then show ?thesis using takeWhile_eq_take [of _ "[0..<thunk_slots im start]"] by (simp add: thunks_upto_def)
qed

lemma walk_exact:
  assumes "walk_thunks im table label names f = (Some count, g)" and "exact out P f"
  shows "exact out (P \<and> thunks_ok im table names) g"
proof -
  obtain start where s: "file_offset im table (thunk_size im) = Some start"
    using assms(1) by (cases "file_offset im table (thunk_size im)") (simp_all add: walk_thunks_def)
  obtain n t h where l: "thunk_loop im start label names (thunk_slots im start) 0 f = (n, t, h)" by (metis prod_cases3)
  note n = walk_loop [OF l]
  have up: "[0..<n] = thunks_upto im start"
    unfolding n(1) by (rule upto_take)
  have "exact out (P \<and> (names \<longrightarrow> list_all (thunk_named im start) (thunks_upto im start))) h"
    using thunk_loop_exact [OF l assms(2)] by (simp add: up)
  moreover have "g = (if terminated_at im start then h else push (if thunk_slots im start = MAX_THUNKS then label @ '' has no terminating null''
      else label @ '' runs to the end of the file without a terminating null'') h)"
    using assms(1) n(2) by (simp add: walk_eq [OF s] l)
  ultimately have "exact out ((P \<and> (names \<longrightarrow> list_all (thunk_named im start) (thunks_upto im start))) \<and> terminated_at im start) g"
    using exact_if by blast
  then show ?thesis by (elim exact_cong [rotated]) (auto simp: thunks_ok_def s)
qed

section \<open>Tables with a terminator\<close>

text \<open>The entries up to a terminator are good, and there is a terminator among the entries the walk looks at.\<close>

definition table_ok :: "(nat \<Rightarrow> bool) \<Rightarrow> (nat \<Rightarrow> bool) \<Rightarrow> nat \<Rightarrow> bool" where
  "table_ok ends good n \<longleftrightarrow> (\<exists>k<n. ends k \<and> (\<forall>i<k. good i))"

text \<open>One turn on a new sink: it ends the walk silently, reports and ends it, or reports exactly when the entry is not good.\<close>

definition turn_exact :: "message list \<Rightarrow> bool \<Rightarrow> bool \<Rightarrow> turn \<Rightarrow> bool" where
  "turn_exact out ends good t \<longleftrightarrow>
     (if ends then t = Return (new_findings out)
      else (\<exists>g. t = Next g \<and> exact out good g) \<or> \<not> good \<and> (t = Break (new_findings out) \<or> (\<exists>g. t = Return g \<and> dirty out g)))"

lemma dirty_after: "dirty out (sink t) \<Longrightarrow> dirty out (after (push s) t)"
  by (cases t) (auto simp: after_def intro: dirty_sunk)

lemma each_table:
  assumes "keeps step" and "\<And>i. i \<in> set is \<Longrightarrow> turn_exact out (ends i) (good i) (step i (new_findings out))"
    and "\<And>i. ends i \<Longrightarrow> \<not> good i"
  shows "exact out (list_ex ends is \<and> list_all good (takeWhile (\<lambda>i. \<not> ends i) is)) (after (push s) (each step is (new_findings out)))"
  using assms(2)
proof (induction "is")
  case (Cons i "is")
  have i: "turn_exact out (ends i) (good i) (step i (new_findings out))" using Cons.prems by simp
  show ?case
  proof (cases "ends i")
    case True
    then show ?thesis using i by (simp add: turn_exact_def after_def exact_def)
  next
    case ne: False
    show ?thesis
    proof (cases "good i")
      case True
      then have "step i (new_findings out) = Next (new_findings out)" using i ne by (simp add: turn_exact_def exact_def)
      then show ?thesis using Cons ne True by simp
    next
      case bad: False
      then consider g where "step i (new_findings out) = Next g" "dirty out g" | "step i (new_findings out) = Break (new_findings out)"
        | g where "step i (new_findings out) = Return g" "dirty out g"
        using i ne by (auto simp: turn_exact_def exact_def)
      then have "dirty out (after (push s) (each step (i # is) (new_findings out)))"
      proof cases
        case (1 g)
        then show ?thesis using dirty_sunk [OF 1(2) sunk_each [OF assms(1)]] by (simp add: dirty_after)
      qed (auto simp: after_def)
      then show ?thesis using ne bad by (simp add: exact_def)
    qed
  qed
qed (auto simp: after_def exact_def)

lemma upt_split: "k < n \<Longrightarrow> [0..<n] = [0..<k] @ k # [Suc k..<n]"
  using upt_add_eq_append [of 0 k "n - k"] upt_conv_Cons [of k n] by simp

lemma table_ok_iff:
  assumes "\<And>i. ends i \<Longrightarrow> \<not> good i"
  shows "list_ex ends [0..<n] \<and> list_all good (takeWhile (\<lambda>i. \<not> ends i) [0..<n]) \<longleftrightarrow> table_ok ends good n"
proof
  assume "list_ex ends [0..<n] \<and> list_all good (takeWhile (\<lambda>i. \<not> ends i) [0..<n])"
  then have ex: "\<exists>k. k < n \<and> ends k" and good: "list_all good (takeWhile (\<lambda>i. \<not> ends i) [0..<n])" by (auto simp: list_ex_iff)
  define k where "k = (LEAST k. k < n \<and> ends k)"
  have k: "k < n" "ends k" using LeastI_ex [OF ex] by (simp_all add: k_def)
  have before: "\<not> ends i" if "i < k" for i using not_less_Least [of i "\<lambda>k. k < n \<and> ends k"] that k(1) by (auto simp: k_def)
  note upt_split [OF k(1)]
  then have "takeWhile (\<lambda>i. \<not> ends i) [0..<n] = [0..<k]" using k(2) before by (simp add: takeWhile_append)
  then show "table_ok ends good n" using good k by (auto simp: table_ok_def list_all_iff)
next
  assume "table_ok ends good n"
  then obtain k where k: "k < n" "ends k" "\<forall>i<k. good i" by (auto simp: table_ok_def)
  then have before: "\<not> ends i" if "i < k" for i using that assms by blast
  note upt_split [OF k(1)]
  then have "takeWhile (\<lambda>i. \<not> ends i) [0..<n] = [0..<k]" using k(2) before by (simp add: takeWhile_append)
  then show "list_ex ends [0..<n] \<and> list_all good (takeWhile (\<lambda>i. \<not> ends i) [0..<n])"
    using k by (auto simp: list_ex_iff list_all_iff)
qed

lemma table_exact:
  assumes "keeps step" and "\<And>i. i < n \<Longrightarrow> turn_exact out (ends i) (good i) (step i (new_findings out))"
    and "\<And>i. ends i \<Longrightarrow> \<not> good i"
  shows "exact out (table_ok ends good n) (after (push s) (each step [0..<n] (new_findings out)))"
  by (rule exact_cong [OF table_ok_iff [OF assms(3)] each_table [OF assms(1) _ assms(3)]]) (simp_all add: assms(2))

section \<open>Imports\<close>

text \<open>The lookup table and the address table of a descriptor at an offset of the file. A descriptor whose name is not in the file is
  left to another check.\<close>

definition import_tables_ok :: "image \<Rightarrow> u32 \<Rightarrow> u32 \<Rightarrow> bool" where
  "import_tables_ok im oft ft \<longleftrightarrow>
     (let table = (if oft \<noteq> 0 then oft else ft) in
      table \<noteq> 0 \<and> thunks_ok im table (oft \<noteq> 0)
      \<and> (oft \<noteq> 0 \<longrightarrow> ft \<noteq> 0 \<longrightarrow> (\<forall>a b. file_offset im ft (thunk_size im) = Some a \<longrightarrow> file_offset im oft (thunk_size im) = Some b \<longrightarrow>
            length (thunks_upto im a) = length (thunks_upto im b))))"

definition import_end :: "image \<Rightarrow> nat \<Rightarrow> bool" where
  "import_end im off \<longleftrightarrow> off + 20 \<le> length (im_data im) \<and> or_zero (im_u32 im (off + 12)) = 0"

definition import_good :: "image \<Rightarrow> nat \<Rightarrow> bool" where
  "import_good im off \<longleftrightarrow> off + 20 \<le> length (im_data im) \<and> or_zero (im_u32 im (off + 12)) \<noteq> 0
     \<and> (file_range im (or_zero (im_u32 im (off + 12))) 1 = None
        \<or> import_tables_ok im (or_zero (im_u32 im off)) (or_zero (im_u32 im (off + 16))))"

definition imports_dir_ok :: "image \<Rightarrow> bool" where
  "imports_dir_ok im \<longleftrightarrow> fst (directory im 1) = 0
     \<or> (\<forall>start stop. file_range im (fst (directory im 1)) 20 = Some (start, stop) \<longrightarrow>
          table_ok (\<lambda>i. import_end im (start + 20 * i)) (\<lambda>i. import_good im (start + 20 * i)) MAX_IMPORT_DESCRIPTORS)"

definition sized :: "image \<Rightarrow> bool" where "sized im \<longleftrightarrow> length (im_data im) < 2 ^ 63"

lemma file_range_bounds: "file_range im rva sz = Some (start, stop) \<Longrightarrow> stop = start + unat sz \<and> stop \<le> length (im_data im)"
  by (auto simp: file_range_def bind_eq_Some_conv chk_add_Some_conv split: if_splits)

lemma import_tables_exact:
  assumes "table = (if oft \<noteq> 0 then oft else ft)" "table \<noteq> 0"
  shows "exact out (import_tables_ok im oft ft) (import_tables im table oft ft (new_findings out))"
proof -
  let ?w = "walk_thunks im table ''import descriptor lookup table'' (oft \<noteq> 0) (new_findings out)"
  have w: "fst ?w = map_option (\<lambda>start. length (thunks_upto im start)) (file_offset im table (thunk_size im))" by (rule walk_count)
  show ?thesis
  proof (cases "file_offset im table (thunk_size im)")
    case None
    then have "?w = (None, new_findings out)" by (simp add: walk_thunks_def)
    moreover have "\<not> import_tables_ok im oft ft" using assms None by (simp add: import_tables_ok_def thunks_ok_def)
    ultimately show ?thesis by (auto simp: import_tables_def exact_def)
  next
    case (Some start)
    then obtain g where g: "?w = (Some (length (thunks_upto im start)), g)" using w by (cases ?w) auto
    have e: "exact out (thunks_ok im table (oft \<noteq> 0)) g" using walk_exact [OF g exact_new] by simp
    have tables: "import_tables im table oft ft (new_findings out) =
        (if oft \<noteq> 0 \<and> ft \<noteq> 0 then (case map_option (\<lambda>start. length (thunks_upto im start)) (file_offset im ft (thunk_size im)) of
             Some iat \<Rightarrow> if iat \<noteq> length (thunks_upto im start) then push ''import descriptor IAT and lookup table hold different numbers of entries'' g else g
           | None \<Rightarrow> g) else g)"
      unfolding import_tables_def g by (simp add: walk_count)
    have "exact out (thunks_ok im table (oft \<noteq> 0) \<and> (oft \<noteq> 0 \<longrightarrow> ft \<noteq> 0 \<longrightarrow>
        (\<forall>a. file_offset im ft (thunk_size im) = Some a \<longrightarrow> length (thunks_upto im a) = length (thunks_upto im start))))
        (import_tables im table oft ft (new_findings out))"
      unfolding tables using e exact_sunk [OF e] by (auto split: option.split)
    then show ?thesis by (rule exact_cong [rotated]) (use assms Some in \<open>auto simp: import_tables_ok_def Let_def\<close>)
  qed
qed

lemma chk_entry: "sized im \<Longrightarrow> start \<le> length (im_data im) \<Longrightarrow> i < 2 ^ 16 \<Longrightarrow> k \<le> 2 ^ 5 \<Longrightarrow>
    Option.bind (chk_mul i k) (chk_add start) = Some (start + k * i) \<and> chk_add (start + k * i) k = Some (start + k * i + k)"
proof -
  assume a: "sized im" "start \<le> length (im_data im)" "i < 2 ^ 16" "k \<le> 2 ^ 5"
  have "i * k \<le> 2 ^ 16 * 2 ^ 5" using a(3,4) by (intro mult_le_mono) auto
  then show ?thesis using a by (simp add: chk_mul_def chk_add_def usize_limit_def sized_def mult.commute)
qed

lemma imports_exact:
  assumes "sized im"
  shows "exact out (imports_dir_ok im) (collect_imports im (new_findings out))"
proof (cases "fst (directory im 1) = 0 \<or> file_range im (fst (directory im 1)) 20 = None")
  case True
  then show ?thesis by (auto simp: collect_imports_def imports_dir_ok_def exact_def Let_def)
next
  case False
  then obtain start stop where f: "file_range im (fst (directory im 1)) 20 = Some (start, stop)" by auto
  have start: "start \<le> length (im_data im)" using file_range_bounds [OF f] by simp
  have "turn_exact out (import_end im (start + 20 * i)) (import_good im (start + 20 * i)) (import_step im start i (new_findings out))"
    if "i < MAX_IMPORT_DESCRIPTORS" for i
  proof -
    let ?off = "start + 20 * i"
    have c: "Option.bind (chk_mul i 20) (chk_add start) = Some ?off" "chk_add ?off 20 = Some (?off + 20)"
      using chk_entry [OF assms start, of i 20] that by (simp_all add: MAX_IMPORT_DESCRIPTORS_def)
    have tables: "exact out (import_tables_ok im oft ft) (import_tables im (if oft \<noteq> 0 then oft else ft) oft ft (new_findings out))"
      if "(if oft \<noteq> 0 then oft else ft) \<noteq> 0" for oft ft
      by (rule import_tables_exact [OF refl that])
    show ?thesis
      unfolding import_step_def c option.case Let_def
      using tables [of "or_zero (im_u32 im ?off)" "or_zero (im_u32 im (?off + 16))"]
      by (auto simp: turn_exact_def import_end_def import_good_def import_tables_ok_def not_less exact_def)
  qed
  then show ?thesis using False f
    by (simp add: collect_imports_def Let_def imports_dir_ok_def)
      (intro table_exact [OF keeps_import]; simp add: import_end_def import_good_def)
qed

section \<open>Delayed imports\<close>

definition delay_end :: "image \<Rightarrow> nat \<Rightarrow> bool" where
  "delay_end im off \<longleftrightarrow> length (im_data im) < off + 32 \<or> or_zero (im_u32 im off) = 0 \<and> or_zero (im_u32 im (off + 4)) = 0"

definition delay_good :: "image \<Rightarrow> nat \<Rightarrow> bool" where
  "delay_good im off \<longleftrightarrow>
     (let name = or_zero (im_u32 im (off + 4)); names = or_zero (im_u32 im (off + 16));
          table = (if names \<noteq> 0 then names else or_zero (im_u32 im (off + 12))) in
      \<not> delay_end im off \<and> or_zero (im_u32 im off) AND 1 \<noteq> 0
      \<and> (name = 0 \<or> printable_c_string im name = Some True) \<and> table \<noteq> 0 \<and> thunks_ok im table True)"

definition delay_dir_ok :: "image \<Rightarrow> bool" where
  "delay_dir_ok im \<longleftrightarrow> fst (directory im 13) = 0
     \<or> (\<exists>start stop. file_range im (fst (directory im 13)) 32 = Some (start, stop)
          \<and> table_ok (\<lambda>i. delay_end im (start + 32 * i)) (\<lambda>i. delay_good im (start + 32 * i)) MAX_DELAY_DESCRIPTORS)"

lemma delay_name_exact: "exact out (name = 0 \<or> printable_c_string im name = Some True) (delay_name im name (new_findings out))"
  by (auto simp: exact_def delay_name_def split: option.split bool.split)

lemma delay_tables_exact: "exact out (table \<noteq> 0 \<and> thunks_ok im table True) (delay_tables im table (new_findings out))"
proof (cases "table = 0")
  case False
  let ?w = "walk_thunks im table ''delay-import descriptor name table'' True (new_findings out)"
  show ?thesis
  proof (cases "file_offset im table (thunk_size im)")
    case None
    then show ?thesis using False by (auto simp: delay_tables_def walk_thunks_def thunks_ok_def exact_def)
  next
    case (Some start)
    then obtain g where g: "?w = (Some (length (thunks_upto im start)), g)"
      using walk_count [of im table "''delay-import descriptor name table''" True "new_findings out"] by (cases ?w) auto
    show ?thesis using walk_exact [OF g exact_new] False by (simp add: delay_tables_def g)
  qed
qed (simp add: delay_tables_def exact_def dirty_push)

lemma delay_exact:
  assumes "sized im"
  shows "exact out (delay_dir_ok im) (collect_delay_imports im (new_findings out))"
proof (cases "fst (directory im 13) = 0 \<or> file_range im (fst (directory im 13)) 32 = None")
  case True
  then show ?thesis by (auto simp: collect_delay_imports_def delay_dir_ok_def exact_def Let_def)
next
  case False
  then obtain start stop where f: "file_range im (fst (directory im 13)) 32 = Some (start, stop)" by auto
  have start: "start \<le> length (im_data im)" using file_range_bounds [OF f] by simp
  have "turn_exact out (delay_end im (start + 32 * i)) (delay_good im (start + 32 * i)) (delay_step im start i (new_findings out))"
    if "i < MAX_DELAY_DESCRIPTORS" for i
  proof -
    let ?off = "start + 32 * i"
    have c: "Option.bind (chk_mul i 32) (chk_add start) = Some ?off" "chk_add ?off 32 = Some (?off + 32)"
      using chk_entry [OF assms start, of i 32] that by (simp_all add: MAX_DELAY_DESCRIPTORS_def)
    have both: "exact out ((name = 0 \<or> printable_c_string im name = Some True) \<and> table \<noteq> 0 \<and> thunks_ok im table True)
        (delay_tables im table (delay_name im name (new_findings out)))" for name table
      by (rule exact_then [OF delay_name_exact delay_tables_exact sunk_delay_tables])
    show ?thesis
      unfolding delay_step_def c option.case Let_def
      using both [of "or_zero (im_u32 im (?off + 4))" "if or_zero (im_u32 im (?off + 16)) \<noteq> 0 then or_zero (im_u32 im (?off + 16)) else or_zero (im_u32 im (?off + 12))"]
      by (auto simp: turn_exact_def delay_end_def delay_good_def Let_def exact_def)
  qed
  then show ?thesis using False f
    by (simp add: collect_delay_imports_def Let_def delay_dir_ok_def)
      (intro table_exact [OF keeps_delay]; simp add: delay_good_def Let_def)
qed

section \<open>Bound imports and the address table\<close>

text \<open>At most \<open>n\<close> entries, each with a module name inside the directory, up to a zero entry or the end of the directory.\<close>

inductive bound_entries :: "image \<Rightarrow> nat \<Rightarrow> nat \<Rightarrow> nat \<Rightarrow> nat \<Rightarrow> bool" for im start dir_end where
  bound_full: "dir_end < off + 8 \<Longrightarrow> bound_entries im start dir_end (Suc n) off"
| bound_zero: "or_zero (im_u32 im off) = 0 \<Longrightarrow> or_zero (im_u32 im (off + 4)) = 0 \<Longrightarrow> bound_entries im start dir_end (Suc n) off"
| bound_entry: "flags = or_zero (im_u32 im (off + 4)) \<Longrightarrow> start + unat (flags AND 0xFFFF) < dir_end \<Longrightarrow>
    im_u32 im (start + unat (flags AND 0xFFFF)) \<noteq> None \<Longrightarrow>
    bound_entries im start dir_end n (off + 8 + 8 * unat (drop_bit 16 flags)) \<Longrightarrow> bound_entries im start dir_end (Suc n) off"

inductive_cases bound_entries_SucE: "bound_entries im start dir_end (Suc n) off"
inductive_cases bound_entries_0E: "bound_entries im start dir_end 0 off"

definition bound_dir_ok :: "image \<Rightarrow> bool" where
  "bound_dir_ok im \<longleftrightarrow>
     (let (rva, sz) = directory im 11 in
      rva = 0 \<or> sz < 8 \<or> (\<exists>start stop. file_range im rva sz = Some (start, stop) \<and> bound_entries im start stop MAX_BOUND_ENTRIES start))"

lemma bound_loop_exact:
  assumes "sized im" "dir_end \<le> length (im_data im)" "start \<le> dir_end"
  shows "off \<le> 2 ^ 63 + 2 ^ 20 \<Longrightarrow> exact out P f \<Longrightarrow>
    exact out (P \<and> bound_entries im start dir_end n off) (bound_loop im start dir_end off n f)"
proof (induction n arbitrary: off f P)
  case 0
  have "\<not> bound_entries im start dir_end 0 off" by (auto elim: bound_entries_0E)
  then show ?case using exact_sunk [OF 0(2)] by simp
next
  case (Suc n)
  let ?flags = "or_zero (im_u32 im (off + 4))"
  let ?at = "start + unat (?flags AND 0xFFFF)" and ?next = "off + 8 + 8 * unat (drop_bit 16 ?flags)"
  have size: "length (im_data im) < 2 ^ 63" using assms(1) by (simp add: sized_def)
  have c8: "chk_add off 8 = Some (off + 8)" using Suc.prems(1) by (simp add: chk_add_def usize_limit_def)
  have low: "unat (?flags AND 0xFFFF) < 2 ^ 16" for flags :: u32
    using word_and_le1 [of ?flags "0xFFFF"] by (simp add: word_le_nat_alt)
  have high: "unat (drop_bit 16 ?flags) < 2 ^ 16"
    using unat_bound [of ?flags] by (simp add: drop_bit_eq_div unat_div less_mult_imp_div_less)
  consider "dir_end < off + 8" | "off + 8 \<le> dir_end" "or_zero (im_u32 im off) = 0" "?flags = 0"
    | "off + 8 \<le> dir_end" "\<not> (or_zero (im_u32 im off) = 0 \<and> ?flags = 0)" by linarith
  then show ?case
  proof cases
    case 1
    then have "bound_entries im start dir_end (Suc n) off" by (rule bound_full)
    then show ?thesis using 1 Suc.prems(2) c8 by simp
  next
    case 2
    then have "bound_entries im start dir_end (Suc n) off" by (intro bound_zero)
    then show ?thesis using 2 Suc.prems(2) c8 by simp
  next
    case 3
    have at: "chk_add start (unat (?flags AND 0xFFFF)) = Some ?at"
      using low assms(2,3) size by (simp add: chk_add_def usize_limit_def)
    have nx: "sat_add_usize off (sat_add_usize 8 (unat (drop_bit 16 ?flags) * 8)) = ?next" "?next \<le> 2 ^ 63 + 2 ^ 20"
      using high 3(1) assms(2) size by (simp_all add: sat_add_usize_def usize_limit_def)
    define f' where "f' = (if dir_end \<le> ?at then push ''bound-import module name offset lies outside the directory'' f
      else if im_u32 im ?at = None then push ''bound-import module name is not backed by the file'' f else f)"
    have step: "bound_loop im start dir_end off (Suc n) f = bound_loop im start dir_end ?next n f'"
      using 3 c8 at nx(1) unfolding bound_loop.simps(2) Let_def f'_def by auto
    have "exact out (P \<and> ?at < dir_end \<and> im_u32 im ?at \<noteq> None) f'"
      using Suc.prems(2) exact_sunk [OF Suc.prems(2)] by (auto simp: f'_def not_le)
    from Suc.IH [OF nx(2) this] have "exact out ((P \<and> ?at < dir_end \<and> im_u32 im ?at \<noteq> None) \<and> bound_entries im start dir_end n ?next)
        (bound_loop im start dir_end off (Suc n) f)" unfolding step .
    moreover have "bound_entries im start dir_end (Suc n) off \<longleftrightarrow>
        (?at < dir_end \<and> im_u32 im ?at \<noteq> None) \<and> bound_entries im start dir_end n ?next"
      using 3 by (auto intro: bound_entry elim: bound_entries_SucE)
    ultimately show ?thesis by (elim exact_cong [rotated]) blast
  qed
qed

lemma bound_exact:
  assumes "sized im"
  shows "exact out (bound_dir_ok im) (collect_bound_imports im (new_findings out))"
proof -
  obtain rva sz where d: "directory im 11 = (rva, sz)" by fastforce
  show ?thesis
  proof (cases "rva = 0 \<or> sz < 8 \<or> file_range im rva sz = None")
    case True
    then show ?thesis by (auto simp: collect_bound_imports_def bound_dir_ok_def exact_def d)
  next
    case False
    then obtain start stop where f: "file_range im rva sz = Some (start, stop)" by auto
    note b = file_range_bounds [OF f]
    have "start \<le> 2 ^ 63 + 2 ^ 20" using b assms by (simp add: sized_def)
    from bound_loop_exact [OF assms _ _ this exact_new, where n = MAX_BOUND_ENTRIES and out = out] b
    show ?thesis using False f by (simp add: collect_bound_imports_def bound_dir_ok_def d)
  qed
qed

definition iat_dir_ok :: "image \<Rightarrow> bool" where
  "iat_dir_ok im \<longleftrightarrow> (let (rva, sz) = directory im 12 in rva = 0 \<or> mapped im rva (max sz 1))"

lemma iat_exact: "exact out (iat_dir_ok im) (collect_iat im (new_findings out))"
  by (auto simp: exact_def iat_dir_ok_def collect_iat_def split: prod.split)

section \<open>Thread-local storage\<close>

text \<open>A pointer of the directory is zero, or lies in the image (or 4 GiB or more above its base, which the walk lets pass).\<close>

definition tls_pointer_ok :: "image \<Rightarrow> nat \<Rightarrow> bool" where
  "tls_pointer_ok im off \<longleftrightarrow>
     (\<exists>v. pointer_at im off = Some v
        \<and> (v = 0 \<or> im_base im \<le> v \<and> (2 ^ 32 \<le> unat (v - im_base im) \<or> mapped im (ucast (v - im_base im)) 1)))"

definition callback_ok :: "image \<Rightarrow> nat \<Rightarrow> bool" where
  "callback_ok im off \<longleftrightarrow>
     (\<exists>v. pointer_at im off = Some v \<and> v \<noteq> 0 \<and> im_base im \<le> v
        \<and> (2 ^ 32 \<le> unat (v - im_base im)
           \<or> mapped im (ucast (v - im_base im)) 1 \<and> in_executable im (ucast (v - im_base im)) 1))"

definition callbacks_ok :: "image \<Rightarrow> nat \<Rightarrow> bool" where
  "callbacks_ok im start \<longleftrightarrow>
     table_ok (\<lambda>k. pointer_at im (start + k * unat (thunk_size im)) = Some 0) (\<lambda>k. callback_ok im (start + k * unat (thunk_size im)))
       (min ((length (im_data im) - start) div unat (thunk_size im)) MAX_TLS_CALLBACKS)"

text \<open>The array of callbacks, where the pointer leads into the image.\<close>

definition callback_array_ok :: "image \<Rightarrow> nat \<Rightarrow> bool" where
  "callback_array_ok im off \<longleftrightarrow>
     (\<forall>v. pointer_at im off = Some v \<longrightarrow> v \<noteq> 0 \<longrightarrow> im_base im \<le> v \<longrightarrow> unat (v - im_base im) < 2 ^ 32 \<longrightarrow> (ucast (v - im_base im) :: u32) \<noteq> 0 \<longrightarrow>
        (\<exists>start. file_offset im (ucast (v - im_base im)) (thunk_size im) = Some start \<and> callbacks_ok im start))"

definition tls_dir_ok :: "image \<Rightarrow> bool" where
  "tls_dir_ok im \<longleftrightarrow>
     (let (rva, sz) = directory im 9; entry_size = (if im_is64 im then 40 else 24) in
      rva = 0 \<or> entry_size \<le> sz \<and> (\<exists>start. file_offset im rva entry_size = Some start
        \<and> tls_pointer_ok im start \<and> tls_pointer_ok im (start + 8) \<and> tls_pointer_ok im (start + 16) \<and> tls_pointer_ok im (start + 24)
        \<and> callback_array_ok im (start + 24)))"

lemma chk_sub_base: "chk_sub_w v b = (if b \<le> v then Some (v - b) else None)" for v b :: "'a::len word"
  by (simp add: chk_sub_w_def)

lemma tls_field_exact:
  assumes "exact out P f" and "sat_add_usize start k = start + k"
  shows "exact out (P \<and> tls_pointer_ok im (start + k)) (snd (tls_field im start name k f))"
  using assms(1) exact_sunk [OF assms(1)]
  by (auto simp: tls_field_def tls_pointer_ok_def assms(2) chk_sub_base Let_def split: option.split)

lemma callback_array_exact:
  assumes "r = fst (tls_field im start name k f)" "sat_add_usize start k = start + k"
  shows "exact out (callback_array_ok im (start + k))
    (case r of None \<Rightarrow> new_findings out | Some array_rva \<Rightarrow> tls_callbacks im array_rva (new_findings out))"
proof -
  have walk: "exact out (callbacks_ok im s) (after (push t) (each (callback_step im s)
      [0..<min ((length (im_data im) - s) div unat (thunk_size im)) MAX_TLS_CALLBACKS] (new_findings out)))" for s t
    unfolding callbacks_ok_def
  proof (rule table_exact [OF keeps_callback])
    fix i
    show "turn_exact out (pointer_at im (s + i * unat (thunk_size im)) = Some 0) (callback_ok im (s + i * unat (thunk_size im)))
        (callback_step im s i (new_findings out))"
      by (auto simp: turn_exact_def callback_step_def callback_ok_def chk_sub_base Let_def exact_def split: option.split)
  qed (auto simp: callback_ok_def)
  show ?thesis
    unfolding assms(1) using walk
    by (auto simp: tls_field_def assms(2) chk_sub_base Let_def callback_array_ok_def tls_callbacks_def exact_def split: option.split)
qed

lemma tls_field_result: "fst (tls_field im start name k f) = fst (tls_field im start name k g)"
  by (simp add: tls_field_def Let_def split: option.split)

lemma tls_directory_exact:
  assumes "exact out P f" and "sized im" and "start \<le> length (im_data im)"
  shows "exact out (P \<and> tls_pointer_ok im start \<and> tls_pointer_ok im (start + 8) \<and> tls_pointer_ok im (start + 16) \<and> tls_pointer_ok im (start + 24)
        \<and> callback_array_ok im (start + 24)) (tls_directory im start f)"
proof -
  have sat: "sat_add_usize start k = start + k" if "k \<le> 24" for k
    using assms(2,3) that by (simp add: sat_add_usize_def usize_limit_def sized_def)
  let ?f1 = "snd (tls_field im start ''StartAddressOfRawData'' 0 f)"
  let ?f2 = "snd (tls_field im start ''EndAddressOfRawData'' 8 ?f1)"
  let ?f3 = "snd (tls_field im start ''AddressOfIndex'' 16 ?f2)"
  let ?last = "tls_field im start ''AddressOfCallBacks'' 24 ?f3"
  let ?k = "\<lambda>g. case fst ?last of None \<Rightarrow> g | Some array_rva \<Rightarrow> tls_callbacks im array_rva g"
  have "exact out (P \<and> tls_pointer_ok im (start + 0)) ?f1" by (rule tls_field_exact [OF assms(1)]) (simp add: sat)
  from tls_field_exact [OF this sat, of 8] have "exact out ((P \<and> tls_pointer_ok im (start + 0)) \<and> tls_pointer_ok im (start + 8)) ?f2" by simp
  from tls_field_exact [OF this sat, of 16] have "exact out (((P \<and> tls_pointer_ok im (start + 0)) \<and> tls_pointer_ok im (start + 8)) \<and> tls_pointer_ok im (start + 16)) ?f3"
    by simp
  from tls_field_exact [OF this sat, of 24] have pointers:
    "exact out ((((P \<and> tls_pointer_ok im (start + 0)) \<and> tls_pointer_ok im (start + 8)) \<and> tls_pointer_ok im (start + 16)) \<and> tls_pointer_ok im (start + 24)) (snd ?last)"
    by simp
  have "exact out (callback_array_ok im (start + 24)) (?k (new_findings out))"
    by (rule callback_array_exact [OF refl sat]) simp
  then have "exact out (((((P \<and> tls_pointer_ok im (start + 0)) \<and> tls_pointer_ok im (start + 8)) \<and> tls_pointer_ok im (start + 16))
      \<and> tls_pointer_ok im (start + 24)) \<and> callback_array_ok im (start + 24)) (?k (snd ?last))"
    by (intro exact_then [OF pointers, where k = ?k]) (auto simp: sunk_tls_callbacks split: option.split)
  moreover have "tls_directory im start f = ?k (snd ?last)"
    unfolding tls_directory_def tls_fields_def Let_def by (cases ?last) (auto split: option.split)
  ultimately show ?thesis by (simp add: conj_assoc)
qed

lemma file_offset_start: "file_offset im rva sz = Some start \<Longrightarrow> start \<le> length (im_data im)"
  by (auto simp: file_offset_def dest: file_range_bounds)

lemma tls_exact:
  assumes "sized im"
  shows "exact out (tls_dir_ok im) (collect_tls im (new_findings out))"
proof -
  obtain rva sz where d: "directory im 9 = (rva, sz)" by fastforce
  define e where "e = (if im_is64 im then 40 else 24 :: u32)"
  define f' where "f' = (if sz < e then push ''TLS directory size is smaller than its header'' (new_findings out) else new_findings out)"
  have f': "exact out (e \<le> sz) f'" by (auto simp: f'_def exact_def not_less)
  have c: "collect_tls im (new_findings out) = (if rva = 0 then new_findings out else case file_offset im rva e of
      None \<Rightarrow> push ''TLS directory RVA does not map into any file-backed section'' f' | Some start \<Rightarrow> tls_directory im start f')"
    unfolding collect_tls_def d prod.case Let_def e_def f'_def ..
  note ok = tls_dir_ok_def [of im, unfolded d prod.case Let_def, folded e_def]
  show ?thesis
  proof (cases "rva = 0")
    case False
    show ?thesis
    proof (cases "file_offset im rva e")
      case None
      then show ?thesis using exact_sunk [OF f'] False by (simp add: c ok)
    next
      case (Some start)
      from tls_directory_exact [OF f' assms file_offset_start [OF Some]] show ?thesis using False Some by (simp add: c ok)
    qed
  qed (simp add: c ok exact_def)
qed

section \<open>Relocations\<close>

definition relocations_dir_ok :: "image \<Rightarrow> bool" where
  "relocations_dir_ok im \<longleftrightarrow>
     (let (rva, sz) = directory im 5 in
      rva = 0 \<or> sz \<noteq> 0 \<and> (\<exists>start stop. file_range im rva sz = Some (start, stop) \<and> blocks_ok im stop 0 start))"

lemma relocations_dir_exact:
  assumes "sized im"
  shows "exact out (relocations_dir_ok im) (collect_relocations im (new_findings out))"
proof -
  obtain rva sz where d: "directory im 5 = (rva, sz)" by fastforce
  show ?thesis
  proof (cases "rva = 0 \<or> sz = 0 \<or> file_range im rva sz = None")
    case True
    then show ?thesis by (auto simp: collect_relocations_def relocations_dir_ok_def exact_def d)
  next
    case False
    then obtain start stop where f: "file_range im rva sz = Some (start, stop)" by auto
    have b: "stop \<le> length (im_data im)" "stop < usize_limit" using file_range_bounds [OF f] assms by (simp_all add: sized_def usize_limit_def)
    from reloc_loop_exact [OF b, of 0 start out]
    show ?thesis using False f by (simp add: collect_relocations_def relocations_dir_ok_def d exact_def)
  qed
qed

section \<open>Exceptions\<close>

definition exception_ok :: "image \<Rightarrow> nat \<Rightarrow> bool" where
  "exception_ok im off \<longleftrightarrow>
     (let first = or_zero (im_u32 im off); last_rva = or_zero (im_u32 im (off + 4)); unwind = or_zero (im_u32 im (off + 8)) in
      first < last_rva \<and> mapped im first 1 \<and> mapped im (last_rva - 1) 1
      \<and> (im_is64 im \<longrightarrow> unwind = 0 \<or> mapped im (unwind AND NOT 3) 1))"

definition exception_dir_ok :: "image \<Rightarrow> bool" where
  "exception_dir_ok im \<longleftrightarrow>
     (let (rva, sz) = directory im 3; entry_size = (if im_is64 im then 12 else 8) in
      rva = 0 \<or> sz = 0 \<or> sz mod entry_size = 0 \<and> (\<exists>start. file_offset im rva sz = Some start
        \<and> (\<forall>i < min (unat (sz div entry_size)) MAX_EXCEPTION_ENTRIES. exception_ok im (start + i * unat entry_size))))"

lemma dirty_more: "dirty out f \<Longrightarrow> dirty out (push s f)"
  using dirty_sunk sunk_push1 by blast

lemma exception_step_exact:
  "\<exists>g. exception_step im start entry_size i (new_findings out) = Next g \<and> exact out (exception_ok im (start + i * unat entry_size)) g"
  by (auto simp: exception_step_def exception_ok_def Let_def exact_def not_le intro: dirty_more)

lemma each_next:
  assumes "keeps step" and "\<And>i. \<exists>g. step i (new_findings out) = Next g \<and> exact out (good i) g" and "exact out P f"
  shows "exact out (P \<and> list_all good is) (sink (each step is f))"
proof (cases P)
  case True
  have "exact out (list_all good is) (sink (each step is (new_findings out)))"
  proof (induction "is")
    case (Cons i "is")
    obtain g where g: "step i (new_findings out) = Next g" "exact out (good i) g" using assms(2) by blast
    show ?case
    proof (cases "good i")
      case True
      then have "g = new_findings out" using g(2) by (simp add: exact_def)
      then show ?thesis using Cons True g(1) by simp
    next
      case False
      then have "dirty out g" using g(2) by (simp add: exact_def)
      from dirty_sunk [OF this sunk_each [OF assms(1)]] show ?thesis using False g(1) by (simp add: exact_def)
    qed
  qed (simp add: exact_def)
  moreover have "f = new_findings out" using assms(3) True by (simp add: exact_def)
  ultimately show ?thesis using True by simp
next
  case False
  then have "dirty out f" using assms(3) by (simp add: exact_def)
  from dirty_sunk [OF this sunk_each [OF assms(1)]] show ?thesis using False by (simp add: exact_def)
qed

lemma exception_exact: "exact out (exception_dir_ok im) (collect_exception im (new_findings out))"
proof -
  obtain rva sz where d: "directory im 3 = (rva, sz)" by fastforce
  define e where "e = (if im_is64 im then 12 else 8 :: u32)"
  define usable where "usable = sz - sz mod e"
  define f' where "f' = (if sz mod e \<noteq> 0 then push ''exception directory size is not a multiple of the entry size'' (new_findings out) else new_findings out)"
  have f': "exact out (sz mod e = 0) f'" by (auto simp: f'_def exact_def)
  have c: "collect_exception im (new_findings out) = (if rva = 0 \<or> sz = 0 then new_findings out else case file_offset im rva usable of
      None \<Rightarrow> push ''exception directory RVA does not map into any file-backed section'' f'
    | Some start \<Rightarrow> after (\<lambda>g. g) (each (exception_step im start e) [0..<min (unat (usable div e)) MAX_EXCEPTION_ENTRIES] f'))"
    unfolding collect_exception_def d prod.case Let_def e_def f'_def usable_def ..
  note ok = exception_dir_ok_def [of im, unfolded d prod.case Let_def, folded e_def]
  show ?thesis
  proof (cases "rva = 0 \<or> sz = 0")
    case False
    show ?thesis
    proof (cases "file_offset im rva usable")
      case None
      have "\<not> exception_dir_ok im"
      proof
        assume "exception_dir_ok im"
        then have "sz mod e = 0" "file_offset im rva sz \<noteq> None" using False unfolding ok by auto
        then show False using None by (simp add: usable_def)
      qed
      then show ?thesis using exact_sunk [OF f'] None False by (simp add: c)
    next
      case (Some start)
      from each_next [OF keeps_exception exception_step_exact f']
      have "exact out (sz mod e = 0 \<and> list_all (\<lambda>i. exception_ok im (start + i * unat e)) [0..<min (unat (usable div e)) MAX_EXCEPTION_ENTRIES])
          (collect_exception im (new_findings out))"
        using False Some by (simp add: c after_id)
      moreover have "exception_dir_ok im \<longleftrightarrow> sz mod e = 0
          \<and> list_all (\<lambda>i. exception_ok im (start + i * unat e)) [0..<min (unat (usable div e)) MAX_EXCEPTION_ENTRIES]"
      proof (cases "sz mod e = 0")
        case True
        then have "usable = sz" by (simp only: usable_def diff_zero)
        then show ?thesis using False Some True unfolding ok list_all_iff by auto
      next
        case nz: False
        then show ?thesis using False unfolding ok by blast
      qed
      ultimately show ?thesis by simp
    qed
  qed (auto simp: c ok exact_def)
qed

section \<open>Load configuration\<close>

text \<open>Of the two pointers only the cookie is within the part of the structure that is read.\<close>

definition config_pointer_ok :: "image \<Rightarrow> nat \<Rightarrow> bool" where
  "config_pointer_ok im off \<longleftrightarrow>
     (\<forall>v. pointer_at im off = Some v \<longrightarrow> v \<noteq> 0 \<longrightarrow>
        im_base im \<le> v \<and> (2 ^ 32 \<le> unat (v - im_base im) \<or> mapped im (ucast (v - im_base im)) 1))"

definition load_config_dir_ok :: "image \<Rightarrow> bool" where
  "load_config_dir_ok im \<longleftrightarrow>
     (let (rva, sz) = directory im 10; minimum = (if im_is64 im then 0x70 else 0x40) in
      rva = 0 \<or> sz = 0 \<or> minimum \<le> sz \<and> (\<exists>start. file_offset im rva minimum = Some start
        \<and> config_pointer_ok im (start + (if im_is64 im then 0x58 else 0x3C))))"

lemma config_fields_exact:
  assumes "exact out P f" and "minimum = (if im_is64 im then 0x70 else 0x40)"
  shows "exact out (P \<and> config_pointer_ok im (start + (if im_is64 im then 0x58 else 0x3C))) (load_config_fields im start minimum f)"
proof -
  define off :: nat where "off = (if im_is64 im then 0x58 else 0x3C)"
  have skipped: "load_config_field im start minimum ''guard CF function table'' (if im_is64 im then 0x70 else 0x48) g = g" for g
    by (simp add: load_config_field_def assms(2) thunk_size_def sat_add_w_def)
  have n: "\<not> minimum < sat_add_w (word_of_nat off) (thunk_size im)"
    by (simp add: off_def assms(2) thunk_size_def sat_add_w_def)
  have "load_config_field im start minimum ''security cookie'' off f = (case pointer_at im (start + off) of None \<Rightarrow> f
      | Some v \<Rightarrow> if v = 0 then f else if \<not> im_base im \<le> v then push (''load-config '' @ ''security cookie'' @ '' lies below the image base'') f
          else if 2 ^ 32 \<le> unat (v - im_base im) then f else if mapped im (ucast (v - im_base im)) 1 then f
          else push (''load-config '' @ ''security cookie'' @ '' does not map into the image'') f)"
    unfolding load_config_field_def if_not_P [OF n] chk_sub_base
    by (rule option.case_cong [OF refl refl]) (simp only: if_distrib [of "case_option _ _"] option.case if_not_P if_True if_False not_True_eq_False not_False_eq_True split: if_split, simp)
  then have "load_config_fields im start minimum f = (case pointer_at im (start + off) of None \<Rightarrow> f
      | Some v \<Rightarrow> if v = 0 then f else if \<not> im_base im \<le> v then push (''load-config '' @ ''security cookie'' @ '' lies below the image base'') f
          else if 2 ^ 32 \<le> unat (v - im_base im) then f else if mapped im (ucast (v - im_base im)) 1 then f
          else push (''load-config '' @ ''security cookie'' @ '' does not map into the image'') f)"
    unfolding load_config_fields_def skipped off_def [symmetric] .
  then show ?thesis using assms(1) exact_sunk [OF assms(1)]
    by (cases "pointer_at im (start + off)") (simp_all add: config_pointer_ok_def off_def [symmetric])
qed

lemma load_config_exact: "exact out (load_config_dir_ok im) (collect_load_config im (new_findings out))"
proof -
  obtain rva sz where d: "directory im 10 = (rva, sz)" by fastforce
  define m where "m = (if im_is64 im then 0x70 else 0x40 :: u32)"
  define f' where "f' = (if sz < m then push ''load-config directory size is smaller than the header the loader reads'' (new_findings out) else new_findings out)"
  have f': "exact out (m \<le> sz) f'" by (auto simp: f'_def exact_def not_less)
  have c: "collect_load_config im (new_findings out) = (if rva = 0 \<or> sz = 0 then new_findings out else case file_offset im rva (min m sz) of
      None \<Rightarrow> push ''load-config directory RVA does not map into any file-backed section'' f'
    | Some start \<Rightarrow> load_config_fields im start (min m sz) f')"
    unfolding collect_load_config_def d prod.case Let_def m_def f'_def ..
  note ok = load_config_dir_ok_def [of im, unfolded d prod.case Let_def, folded m_def]
  show ?thesis
  proof (cases "rva = 0 \<or> sz = 0")
    case False
    show ?thesis
    proof (cases "m \<le> sz")
      case True
      then have readable: "min m sz = m" by simp
      show ?thesis
      proof (cases "file_offset im rva m")
        case None
        then show ?thesis using exact_sunk [OF f'] False by (simp add: c ok readable)
      next
        case (Some start)
        from config_fields_exact [OF f' m_def, of start] show ?thesis using False Some by (simp add: c ok readable)
      qed
    next
      case small: False
      then have "dirty out f'" using f' by (simp add: exact_def)
      then have "dirty out (collect_load_config im (new_findings out))"
        using False dirty_sunk [OF _ sunk_load_config_fields] by (auto simp: c dirty_more split: option.split)
      then show ?thesis using False small by (simp add: exact_def ok)
    qed
  qed (auto simp: c ok exact_def)
qed

section \<open>All tables\<close>

definition directories_ok :: "image \<Rightarrow> bool" where
  "directories_ok im \<longleftrightarrow> imports_dir_ok im \<and> delay_dir_ok im \<and> bound_dir_ok im \<and> iat_dir_ok im \<and> tls_dir_ok im
     \<and> relocations_dir_ok im \<and> exception_dir_ok im \<and> load_config_dir_ok im"

lemma collectors_silent:
  "set checks \<subseteq> set collectors \<Longrightarrow>
   foldl (\<lambda>out check. finish_findings (check im (new_findings out))) out checks = out
     \<longleftrightarrow> (\<forall>check\<in>set checks. finish_findings (check im (new_findings out)) = out)"
proof (induction checks arbitrary: out)
  case (Cons check checks)
  then have c: "check \<in> set collectors" "set checks \<subseteq> set collectors" by simp_all
  obtain ys where y: "finish_findings (check im (new_findings out)) = out @ ys"
    using finish_extends [OF sunk_collector [OF c(1)]] by blast
  obtain zs where z: "foldl (\<lambda>out check. finish_findings (check im (new_findings out))) (out @ ys) checks = (out @ ys) @ zs"
    using directories_extend [OF c(2)] by blast
  have fold: "foldl (\<lambda>out check. finish_findings (check im (new_findings out))) out (check # checks)
      = foldl (\<lambda>out check. finish_findings (check im (new_findings out))) (out @ ys) checks" by (simp only: foldl_Cons y)
  show ?case
  proof (cases "ys = []")
    case True
    then show ?thesis using Cons.IH [OF c(2), of out] y unfolding fold by simp
  next
    case False
    then show ?thesis using y z unfolding fold by simp
  qed
qed simp

text \<open>The walks over the data directories report nothing exactly on the images whose tables are sound.\<close>

lemma directories_exact:
  assumes "sized im"
  shows "collect_directories im out = out \<longleftrightarrow> directories_ok im"
proof -
  note e = imports_exact [OF assms] delay_exact [OF assms] bound_exact [OF assms] iat_exact tls_exact [OF assms]
    relocations_dir_exact [OF assms] exception_exact load_config_exact
  note r = e [THEN exact_reports]
  show ?thesis
    unfolding collect_directories_def collectors_silent [OF order_refl] directories_ok_def
    unfolding collectors_def list.set by (simp add: r)
qed

end
