(* ===== verification/IntegrityProps.thy ===== *)
theory IntegrityProps
  imports Integrity ClrProps DirectorySpec
begin

unbundle bit_operations_syntax

text \<open>The integrity check never panics, its two lists agree, its advisory part adds only warnings, and a clean report is a statement
  about the image.\<close>

section \<open>No panic\<close>

lemma rva_to_off_backed:
  assumes "rva_to_off data h rva need = Some off"
  shows "unat off + unat need \<le> length data"
proof -
  obtain n stop where n: "off = word_of_nat n" "chk_add_w off need = Some stop" "unat stop \<le> length data"
    using assms by (auto simp: rva_to_off_def bind_eq_Some_conv split: res.splits if_splits)
  then show ?thesis using chk_add_w_unat [OF n(2)] by simp
qed

lemma check_entry_total: "\<exists>r'. check_entry_point out h secs ep r = Ok r'"
proof (cases "rva_to_off out h ep 16")
  case (Some off)
  then have "unat off + 16 \<le> length out" using rva_to_off_backed by fastforce
  then show ?thesis by (simp add: check_entry_point_def Some idx_range_def get_range_def Let_def)
qed (simp add: check_entry_point_def)

lemma check_native_total: "\<exists>r'. check_native out h secs ep m r = Ok r'"
  using check_entry_total by (simp add: check_native_def)

lemma rbind_total: "\<exists>x. m = Ok x \<Longrightarrow> \<exists>y. rbind m (\<lambda>x. Ok (g x)) = Ok y"
  by auto

lemma check_loaded_total: "\<exists>r'. check_loaded out pe_off is64 h secs sz r = Ok r'"
  unfolding check_loaded_def Let_def by (rule rbind_total) (rule check_native_total)

lemma Ok_ex: "\<exists>y. Ok x = Ok y"
  by simp

lemma check_sections_total: "\<exists>r'. check_sections out pe_off is64 n = Ok r'"
proof (cases "pe_parse out")
  case (Ok h)
  show ?thesis
    by (cases "pe_sections out h") (simp_all only: check_sections_def Let_def Ok res.case check_loaded_total Ok_ex)
qed (simp_all only: check_sections_def Let_def res.case Ok_ex)

lemma check_returns: "\<exists>r. check out = Ok r"
  unfolding check_def by (auto split: option.split intro: check_sections_total)

section \<open>A clean report\<close>

text \<open>Each step leaves the list of issues empty exactly under its own condition.\<close>

named_theorems clean_iff \<open>when a step reports nothing\<close>

lemma push_issue [simp]: "r_issues (report_push sev m r) \<noteq> []"
  by (simp add: report_push_def)

text \<open>The end of the raw range as the code computes it, modulo \<^verbatim>\<open>2^32\<close>, and the true end.\<close>

definition raw_end_silent :: "nat \<Rightarrow> pe_section \<Rightarrow> bool" where
  "raw_end_silent n s \<longleftrightarrow> s_raw_size s = 0 \<or> unat (s_raw_offset s + s_raw_size s) \<le> n"

definition section_inside :: "nat \<Rightarrow> pe_section \<Rightarrow> bool" where
  "section_inside n s \<longleftrightarrow> s_raw_size s = 0 \<or> unat (s_raw_offset s) + unat (s_raw_size s) \<le> n"

definition raw_unwrapped :: "pe_section \<Rightarrow> bool" where
  "raw_unwrapped s \<longleftrightarrow> unat (s_raw_offset s) + unat (s_raw_size s) < 2 ^ 32"

lemma silent_inside: "raw_unwrapped s \<Longrightarrow> raw_end_silent n s \<longleftrightarrow> section_inside n s"
  by (simp add: raw_unwrapped_def raw_end_silent_def section_inside_def unat_add_no_wrap)

lemma section_clean [clean_iff]: "r_issues (check_section n s r) = [] \<longleftrightarrow> r_issues r = [] \<and> raw_end_silent n s"
  by (simp add: check_section_def raw_end_silent_def not_less)

lemma sections_clean [clean_iff]: "r_issues (foldl (\<lambda>r s. check_section n s r) r secs) = [] \<longleftrightarrow> r_issues r = [] \<and> list_all (raw_end_silent n) secs"
  by (induction secs arbitrary: r) (auto simp: section_clean)

definition branch_ok :: "bytes \<Rightarrow> u32 \<Rightarrow> pe_section list \<Rightarrow> nat \<Rightarrow> nat \<Rightarrow> bool" where
  "branch_ok stub ep secs rel_off n \<longleftrightarrow>
     (\<exists>target. int (unat target) = int (unat ep) + int n + sint (from_le (window stub rel_off 4) :: u32) \<and> is_executable_rva secs target)"

lemma branch_clean [clean_iff]:
  "r_issues (check_branch stub ep secs name rel_off (int n) r) = [] \<longleftrightarrow> r_issues r = [] \<and> branch_ok stub ep secs rel_off n"
proof -
  have t: "(0 \<le> t \<and> t < 2 ^ 32 \<and> is_executable_rva secs (word_of_int t)) \<longleftrightarrow> (\<exists>w :: u32. int (unat w) = t \<and> is_executable_rva secs w)" for t
  proof
    assume "0 \<le> t \<and> t < 2 ^ 32 \<and> is_executable_rva secs (word_of_int t)"
    moreover from this have "int (unat (word_of_int t :: u32)) = t" by (simp add: take_bit_int_eq_self unsigned_of_int)
    ultimately show "\<exists>w :: u32. int (unat w) = t \<and> is_executable_rva secs w" by blast
  next
    assume "\<exists>w :: u32. int (unat w) = t \<and> is_executable_rva secs w"
    then obtain w :: u32 where "int (unat w) = t" "is_executable_rva secs w" by blast
    moreover from this have "word_of_int t = w" by auto
    moreover have "t < 2 ^ 32"
    proof -
      have "int (unat w) < int (2 ^ 32)" using unat_bound [of w] by (simp only: of_nat_less_iff) simp
      then show ?thesis using \<open>int (unat w) = t\<close> by simp
    qed
    ultimately show "0 \<le> t \<and> t < 2 ^ 32 \<and> is_executable_rva secs (word_of_int t)" by auto
  qed
  show ?thesis unfolding check_branch_def Let_def branch_ok_def t by simp
qed

text \<open>The common entry stub: \<open>sub rsp\<close>, a call, \<open>add rsp\<close> of the same amount, a jump.\<close>

definition common_stub :: "bytes \<Rightarrow> bool" where
  "common_stub stub \<longleftrightarrow> 18 \<le> length stub \<and> take 3 stub = [0x48, 0x83, 0xEC] \<and> stub ! 4 = 0xE8 \<and> window stub 9 3 = [0x48, 0x83, 0xC4]
     \<and> stub ! 12 = stub ! 3 \<and> stub ! 13 = 0xE9"

lemma branches_clean [clean_iff]:
  "r_issues (check_common_entry_branches stub ep secs r) = []
     \<longleftrightarrow> r_issues r = [] \<and> (common_stub stub \<longrightarrow> branch_ok stub ep secs 5 9 \<and> branch_ok stub ep secs 14 18)"
  using branch_clean [of stub ep secs "''jump''" 14 18] branch_clean [of stub ep secs "''call''" 5 9]
  by (auto simp: check_common_entry_branches_def common_stub_def)

definition entry_ok_at :: "bytes \<Rightarrow> pe_headers \<Rightarrow> pe_section list \<Rightarrow> u32 \<Rightarrow> bool" where
  "entry_ok_at out h secs ep \<longleftrightarrow>
     (\<exists>off. rva_to_off out h ep 16 = Some off \<and> is_executable_rva secs ep
        \<and> \<not> list_all (\<lambda>b. b = 0) (window out (unat off) 16) \<and> \<not> list_all (\<lambda>b. b = 0xCC) (window out (unat off) 16)
        \<and> (unat off + 18 \<le> length out \<longrightarrow> common_stub (window out (unat off) 18) \<longrightarrow>
            branch_ok (window out (unat off) 18) ep secs 5 9 \<and> branch_ok (window out (unat off) 18) ep secs 14 18))"

lemma entry_point_clean:
  assumes "check_entry_point out h secs ep r = Ok r'"
  shows "r_issues r' = [] \<longleftrightarrow> r_issues r = [] \<and> entry_ok_at out h secs ep"
proof (cases "rva_to_off out h ep 16")
  case None
  then show ?thesis using assms by (auto simp: check_entry_point_def entry_ok_at_def)
next
  case (Some off)
  then have "unat off + 16 \<le> length out" using rva_to_off_backed by fastforce
  then show ?thesis using assms
    by (auto simp: check_entry_point_def Some idx_range_def get_range_def Let_def entry_ok_at_def branches_clean split: if_splits)
qed

definition name_ok :: "bytes \<Rightarrow> pe_headers \<Rightarrow> u32 \<Rightarrow> bool" where
  "name_ok out h rva \<longleftrightarrow> (\<exists>off. rva_to_off out h rva 1 = Some off \<and> looks_like_dll_name out off)"

lemma name_clean [clean_iff]: "r_issues (check_name out h rva r) = [] \<longleftrightarrow> r_issues r = [] \<and> name_ok out h rva"
  by (simp add: check_name_def name_ok_def split: option.split)

definition descriptor_name :: "bytes \<Rightarrow> u32 \<Rightarrow> nat \<Rightarrow> u32" where
  "descriptor_name out desc_off k = or_zero (pe_rd_u32 out (desc_off + word_of_nat k * 20 + 12))"

text \<open>The names up to the terminating descriptor, at most 256.\<close>

definition descriptor_names :: "bytes \<Rightarrow> u32 \<Rightarrow> u32 list" where
  "descriptor_names out desc_off = takeWhile (\<lambda>rva. rva \<noteq> 0) (map (descriptor_name out desc_off) [0..<256])"

lemma import_scan_clean:
  "r_issues (import_scan out h desc_off n (word_of_nat i) r) = []
     \<longleftrightarrow> r_issues r = [] \<and> list_all (name_ok out h) (takeWhile (\<lambda>rva. rva \<noteq> 0) (map (descriptor_name out desc_off) [i..<i + n]))"
proof (induction n arbitrary: i r)
  case (Suc n)
  let ?name = "descriptor_name out desc_off"
  have names: "takeWhile (\<lambda>rva. rva \<noteq> 0) (map ?name [i..<i + Suc n])
      = (if ?name i \<noteq> 0 then ?name i # takeWhile (\<lambda>rva. rva \<noteq> 0) (map ?name [Suc i..<Suc i + n]) else [])"
    by (subst upt_conv_Cons) simp_all
  have scan: "import_scan out h desc_off (Suc n) (word_of_nat i) r
      = (if ?name i = 0 then r else import_scan out h desc_off n (word_of_nat (Suc i)) (check_name out h (?name i) r))"
    by (simp add: Let_def descriptor_name_def add.commute)
  show ?case unfolding names scan using Suc.IH [of "Suc i" "check_name out h (?name i) r"] by (simp add: name_clean del: of_nat_Suc)
qed simp

definition imports_ok :: "bytes \<Rightarrow> pe_headers \<Rightarrow> u32 \<Rightarrow> bool" where
  "imports_ok out h rva \<longleftrightarrow>
     rva = 0 \<or> (\<exists>off. rva_to_off out h rva 20 = Some off \<and> list_all (name_ok out h) (descriptor_names out off))"

lemma imports_clean [clean_iff]: "r_issues (check_imports out h rva r) = [] \<longleftrightarrow> r_issues r = [] \<and> imports_ok out h rva"
  using import_scan_clean [of out h _ 256 0 r] by (auto simp: check_imports_def imports_ok_def descriptor_names_def split: option.split)

definition cor_ok :: "bytes \<Rightarrow> pe_headers \<Rightarrow> u32 \<Rightarrow> bool" where
  "cor_ok out h clr_rva \<longleftrightarrow>
     (\<exists>cor. rva_to_off out h clr_rva 0x48 = Some cor \<and> pe_rd_u32 out cor = Some 0x48
        \<and> (or_zero (pe_rd_u32 out (cor + 8)) = 0
           \<or> (\<exists>md. rva_to_off out h (or_zero (pe_rd_u32 out (cor + 8))) 4 = Some md \<and> get_range out (unat md) 4 = Some bsjb)))"

lemma cor_clean [clean_iff]: "r_issues (check_cor out h clr_rva r) = [] \<longleftrightarrow> r_issues r = [] \<and> cor_ok out h clr_rva"
proof -
  have "or_zero x = 72 \<longleftrightarrow> x = Some 72" for x :: "u32 option" by (cases x) (simp_all add: or_zero_def)
  then show ?thesis by (auto simp: check_cor_def cor_ok_def Let_def split: option.split)
qed

lemma warnings_clean [clean_iff]: "r_issues (foldl (\<lambda>r m. report_push Warning m r) r ms) = [] \<longleftrightarrow> r_issues r = [] \<and> ms = []"
proof -
  have "r_issues (foldl (\<lambda>r m. report_push Warning m r) r ms) = r_issues r @ ms"
    by (induction ms arbitrary: r) (simp_all add: report_push_def)
  then show ?thesis by simp
qed

section \<open>The whole image\<close>

definition dd_base :: "u32 \<Rightarrow> bool \<Rightarrow> u32" where "dd_base pe_off is64 = pe_off + 24 + (if is64 then 112 else 96)"

definition whole_image :: "bytes \<Rightarrow> pe_headers \<Rightarrow> pe_section list \<Rightarrow> bool \<Rightarrow> u32 \<Rightarrow> image" where
  "whole_image out h secs is64 sz = \<lparr>im_data = out, im_headers = h, im_sections = secs, im_is64 = is64, im_base = h_image_base h, im_size = sz\<rparr>"

definition native_ok :: "bytes \<Rightarrow> u32 \<Rightarrow> bool \<Rightarrow> pe_headers \<Rightarrow> pe_section list \<Rightarrow> u32 \<Rightarrow> bool" where
  "native_ok out pe_off is64 h secs sz \<longleftrightarrow>
     (or_zero (pe_rd_u16 out (pe_off + 22)) AND 0x2000 \<noteq> 0 \<longrightarrow> or_zero (pe_rd_u32 out (dd_base pe_off is64 + 40)) \<noteq> 0)
     \<and> (or_zero (pe_rd_u32 out (pe_off + 40)) \<noteq> 0 \<longrightarrow> entry_ok_at out h secs (or_zero (pe_rd_u32 out (pe_off + 40))))
     \<and> imports_ok out h (or_zero (pe_rd_u32 out (dd_base pe_off is64 + 8)))
     \<and> directories_ok (whole_image out h secs is64 sz)"

definition managed_ok :: "bytes \<Rightarrow> u32 \<Rightarrow> bool \<Rightarrow> pe_headers \<Rightarrow> pe_section list \<Rightarrow> u32 \<Rightarrow> bool" where
  "managed_ok out pe_off is64 h secs sz \<longleftrightarrow>
     cor_ok out h (or_zero (pe_rd_u32 out (dd_base pe_off is64 + 112)))
     \<and> (\<forall>m. clr_metadata out (whole_image out h secs is64 sz) = Some m \<longrightarrow> md_slice m 0 4 = Some bsjb \<longrightarrow> clr_ok m)"

definition loaded_ok :: "bytes \<Rightarrow> u32 \<Rightarrow> bool \<Rightarrow> pe_headers \<Rightarrow> pe_section list \<Rightarrow> u32 \<Rightarrow> bool" where
  "loaded_ok out pe_off is64 h secs sz \<longleftrightarrow>
     (or_zero (pe_rd_u32 out (pe_off + 40)) = 0 \<longrightarrow> or_zero (pe_rd_u16 out (pe_off + 22)) AND 0x2000 \<noteq> 0)
     \<and> (if or_zero (pe_rd_u32 out (dd_base pe_off is64 + 112)) = 0 then native_ok out pe_off is64 h secs sz
         else managed_ok out pe_off is64 h secs sz)"

definition image_ok :: "bytes \<Rightarrow> bool" where
  "image_ok out \<longleftrightarrow>
     (\<exists>pe_off is64 n h secs. pe_rd_u16 out 0 = Some 0x5A4D \<and> pe_rd_u32 out 0x3C = Some pe_off \<and> pe_rd_u32 out pe_off = Some 0x4550
        \<and> pe_rd_u16 out (pe_off + 6) = Some n \<and> pe_rd_u16 out (pe_off + 24) = Some (if is64 then 0x20B else 0x10B)
        \<and> 1 \<le> n \<and> n \<le> 96 \<and> or_zero (pe_rd_u32 out (pe_off + 80)) \<noteq> 0
        \<and> pe_parse out = Ok h \<and> pe_sections out h = Ok secs \<and> list_all (section_inside (length out)) secs
        \<and> loaded_ok out pe_off is64 h secs (or_zero (pe_rd_u32 out (pe_off + 80))))"

lemma diagnostics_clean:
  "diagnostics out im True = [] \<longleftrightarrow> (\<forall>m. clr_metadata out im = Some m \<longrightarrow> md_slice m 0 4 = Some bsjb \<longrightarrow> clr_ok m)"
proof (cases "clr_metadata out im")
  case (Some m)
  show ?thesis
  proof (cases "md_slice m 0 4 = Some bsjb")
    case True
    then show ?thesis using clr_exact [OF True, of "[]"] by (simp add: diagnostics_def Some)
  next
    case False
    then show ?thesis by (simp add: diagnostics_def Some clr_collect_def)
  qed
qed (simp add: diagnostics_def)

lemma loaded_clean:
  assumes "check_loaded out pe_off is64 h secs sz r = Ok r'" and "length out < 2 ^ 63"
  shows "r_issues r' = [] \<longleftrightarrow> r_issues r = [] \<and> loaded_ok out pe_off is64 h secs sz"
proof -
  have "sized (whole_image out h secs is64 sz)" using assms(2) by (simp add: sized_def whole_image_def)
  note tables = directories_exact [OF this, of "[]"]
  define clr where "clr = or_zero (pe_rd_u32 out (dd_base pe_off is64 + 14 * 8))"
  define dll where "dll \<longleftrightarrow> or_zero (pe_rd_u16 out (pe_off + 22)) AND 0x2000 \<noteq> 0"
  define ep where "ep = or_zero (pe_rd_u32 out (pe_off + 40))"
  define r1 where "r1 = (if dll \<and> \<not> clr \<noteq> 0 \<and> or_zero (pe_rd_u32 out (dd_base pe_off is64 + 5 * 8)) = 0
      then warn ''native DLL has no base relocation table'' r else r)"
  define r2 where "r2 = (if ep = 0 \<and> \<not> dll then fatal ''entry point RVA is zero'' r1 else r1)"
  obtain r3 where r3: "check_native out h secs ep (clr \<noteq> 0) r2 = Ok r3" using check_native_total by blast
  have r': "r' = foldl (\<lambda>r m. report_push Warning m r)
      (if clr \<noteq> 0 then check_cor out h clr (if clr \<noteq> 0 then r3 else check_imports out h (or_zero (pe_rd_u32 out (dd_base pe_off is64 + 8))) r3)
       else if clr \<noteq> 0 then r3 else check_imports out h (or_zero (pe_rd_u32 out (dd_base pe_off is64 + 8))) r3)
      (diagnostics out (whole_image out h secs is64 sz) (clr \<noteq> 0))"
    using assms(1) r3 unfolding check_loaded_def Let_def dd_base_def [symmetric] whole_image_def [symmetric] clr_def [symmetric] dll_def [symmetric]
      ep_def [symmetric] r1_def [symmetric] r2_def [symmetric] by simp
  have clr: "clr = or_zero (pe_rd_u32 out (dd_base pe_off is64 + 112))" by (simp add: clr_def)
  have n: "r_issues r3 = [] \<longleftrightarrow> r_issues r2 = [] \<and> (clr = 0 \<longrightarrow> ep \<noteq> 0 \<longrightarrow> entry_ok_at out h secs ep)"
    using r3 entry_point_clean [of out h secs ep r2 r3] by (auto simp: check_native_def split: if_splits)
  have r2: "r_issues r2 = [] \<longleftrightarrow> r_issues r = [] \<and> (ep = 0 \<longrightarrow> dll)
      \<and> (clr = 0 \<longrightarrow> dll \<longrightarrow> or_zero (pe_rd_u32 out (dd_base pe_off is64 + 5 * 8)) \<noteq> 0)"
    by (auto simp: r2_def r1_def)
  show ?thesis
  proof (cases "clr = 0")
    case True
    then show ?thesis
      unfolding r' by (auto simp: clean_iff n r2 loaded_ok_def native_ok_def diagnostics_def tables simp flip: clr dll_def ep_def)
  next
    case False
    then show ?thesis
      unfolding r' by (auto simp: clean_iff n r2 loaded_ok_def managed_ok_def diagnostics_clean simp flip: clr dll_def ep_def)
  qed
qed

lemma sections_clean_iff:
  assumes "check_sections out pe_off is64 n = Ok r" and "length out < 2 ^ 63"
  shows "report_ok r \<longleftrightarrow> 1 \<le> n \<and> n \<le> 96 \<and> or_zero (pe_rd_u32 out (pe_off + 80)) \<noteq> 0
    \<and> (\<exists>h secs. pe_parse out = Ok h \<and> pe_sections out h = Ok secs \<and> list_all (raw_end_silent (length out)) secs
        \<and> loaded_ok out pe_off is64 h secs (or_zero (pe_rd_u32 out (pe_off + 80))))"
proof -
  define r2 where "r2 = (if or_zero (pe_rd_u32 out (pe_off + 80)) = 0
    then fatal ''SizeOfImage is zero'' (if n = 0 \<or> 96 < n then fatal ''implausible section count'' new_report else new_report)
    else if n = 0 \<or> 96 < n then fatal ''implausible section count'' new_report else new_report)"
  have n0: "1 \<le> n \<longleftrightarrow> n \<noteq> 0" using word_gt_0 [of n] by (simp add: word_le_nat_alt Suc_le_eq unat_gt_0)
  have r2: "r_issues r2 = [] \<longleftrightarrow> 1 \<le> n \<and> n \<le> 96 \<and> or_zero (pe_rd_u32 out (pe_off + 80)) \<noteq> 0"
    by (auto simp: r2_def new_report_def n0 not_less)
  consider h secs where "pe_parse out = Ok h" "pe_sections out h = Ok secs"
    | "r = fatal ''section table extends past end of file'' r2" "\<not> (\<exists>h secs. pe_parse out = Ok h \<and> pe_sections out h = Ok secs)"
    using assms(1) unfolding check_sections_def Let_def r2_def [symmetric] by (auto split: res.splits)
  then show ?thesis
  proof cases
    case 1
    then have "check_loaded out pe_off is64 h secs (or_zero (pe_rd_u32 out (pe_off + 80))) (foldl (\<lambda>r s. check_section (length out) s r) r2 secs) = Ok r"
      using assms(1) unfolding check_sections_def Let_def r2_def [symmetric] by simp
    from loaded_clean [OF this assms(2)] show ?thesis by (auto simp: report_ok_def sections_clean r2 1)
  next
    case 2
    then show ?thesis by (auto simp: report_ok_def)
  qed
qed

text \<open>The raw range of no section wraps around \<^verbatim>\<open>2^32\<close>.\<close>

definition raw_ranges_unwrapped :: "bytes \<Rightarrow> bool" where
  "raw_ranges_unwrapped out \<longleftrightarrow> (\<forall>h secs. pe_parse out = Ok h \<longrightarrow> pe_sections out h = Ok secs \<longrightarrow> list_all raw_unwrapped secs)"

lemma silent_sections:
  assumes "raw_ranges_unwrapped out" and "pe_parse out = Ok h" and "pe_sections out h = Ok secs"
  shows "list_all (raw_end_silent n) secs \<longleftrightarrow> list_all (section_inside n) secs"
  using assms silent_inside by (auto simp: raw_ranges_unwrapped_def list_all_iff)

text \<open>C29. Unless the raw range of a section wraps around \<^verbatim>\<open>2^32\<close>, the report on a file (of at most \<open>isize::MAX\<close> bytes) is clean
  exactly when the image is sound: signatures, a plausible section count, a parsed section table whose raw ranges end in the file, and for
  a native image an entry point with recovered bytes in an executable section whose common stub branches into executable sections,
  readable import names up to the terminator and eight data directories that are sound as \<open>directories_ok\<close> spells out; for a managed
  image a sound header and sound metadata.\<close>

theorem check_exact:
  assumes "check out = Ok r" and "raw_ranges_unwrapped out" and "length out < 2 ^ 63"
  shows "report_ok r \<longleftrightarrow> image_ok out"
proof -
  consider "r_issues r \<noteq> []" "\<not> image_ok out"
    | pe_off n is64 where "pe_rd_u16 out 0 = Some 0x5A4D" "pe_rd_u32 out 0x3C = Some pe_off" "pe_rd_u32 out pe_off = Some 0x4550"
        "pe_rd_u16 out (pe_off + 6) = Some n"
        "is64 \<and> pe_rd_u16 out (pe_off + 24) = Some 0x20B \<or> \<not> is64 \<and> pe_rd_u16 out (pe_off + 24) = Some 0x10B"
        "check_sections out pe_off is64 n = Ok r"
    using assms(1) unfolding check_def
    by (auto simp: image_ok_def split: option.splits if_splits) blast
  then show ?thesis
  proof cases
    case 1
    then show ?thesis by (simp add: report_ok_def)
  next
    case 2
    have magic: "pe_rd_u16 out (pe_off + 24) = Some (if is64 then 0x20B else 0x10B)" using 2(5) by auto
    note silent = silent_sections [OF assms(2)]
    show ?thesis unfolding sections_clean_iff [OF 2(6) assms(3)]
    proof
      assume "1 \<le> n \<and> n \<le> 96 \<and> or_zero (pe_rd_u32 out (pe_off + 80)) \<noteq> 0
        \<and> (\<exists>h secs. pe_parse out = Ok h \<and> pe_sections out h = Ok secs \<and> list_all (raw_end_silent (length out)) secs
            \<and> loaded_ok out pe_off is64 h secs (or_zero (pe_rd_u32 out (pe_off + 80))))"
      then show "image_ok out" unfolding image_ok_def using 2(1-4) magic silent by blast
    next
      assume "image_ok out"
      then obtain pe_off' is64' n' h secs where i: "pe_rd_u32 out 0x3C = Some pe_off'" "pe_rd_u16 out (pe_off' + 6) = Some n'"
          "pe_rd_u16 out (pe_off' + 24) = Some (if is64' then 0x20B else 0x10B)" "1 \<le> n'" "n' \<le> 96" "or_zero (pe_rd_u32 out (pe_off' + 80)) \<noteq> 0"
          "pe_parse out = Ok h" "pe_sections out h = Ok secs" "list_all (section_inside (length out)) secs"
          "loaded_ok out pe_off' is64' h secs (or_zero (pe_rd_u32 out (pe_off' + 80)))"
        unfolding image_ok_def by blast
      then have "pe_off' = pe_off" "n' = n" "is64' = is64" using 2(1-4) magic by (auto split: if_splits)
      then show "1 \<le> n \<and> n \<le> 96 \<and> or_zero (pe_rd_u32 out (pe_off + 80)) \<noteq> 0
        \<and> (\<exists>h secs. pe_parse out = Ok h \<and> pe_sections out h = Ok secs \<and> list_all (raw_end_silent (length out)) secs
            \<and> loaded_ok out pe_off is64 h secs (or_zero (pe_rd_u32 out (pe_off + 80))))"
        using i silent by blast
    qed
  qed
qed

section \<open>Severities\<close>

text \<open>The two lists of a report hold the same defects in the same order; every step only pushes.\<close>

definition lists_agree :: "integrity_report \<Rightarrow> bool" where "lists_agree r \<longleftrightarrow> r_issues r = map snd (r_findings r)"

lemma agree_new [simp]: "lists_agree new_report"
  by (simp add: lists_agree_def new_report_def)

lemma agree_push [simp]: "lists_agree (report_push sev m r) \<longleftrightarrow> lists_agree r"
  by (simp add: lists_agree_def report_push_def)

lemma agree_fold: "(\<And>x r. lists_agree r \<Longrightarrow> lists_agree (f r x)) \<Longrightarrow> lists_agree r \<Longrightarrow> lists_agree (foldl f r xs)"
  by (induction xs arbitrary: r) simp_all

lemma agree_branches: "lists_agree r \<Longrightarrow> lists_agree (check_common_entry_branches stub ep secs r)"
  by (simp add: check_common_entry_branches_def check_branch_def Let_def)

lemma agree_entry: "check_entry_point out h secs ep r = Ok r' \<Longrightarrow> lists_agree r \<Longrightarrow> lists_agree r'"
  by (auto simp: check_entry_point_def Let_def rbind_Ok_conv agree_branches split: option.splits if_splits)

lemma agree_name: "lists_agree r \<Longrightarrow> lists_agree (check_name out h rva r)"
  by (simp add: check_name_def split: option.split)

lemma agree_scan: "lists_agree r \<Longrightarrow> lists_agree (import_scan out h desc_off n i r)"
  by (induction n arbitrary: i r) (simp_all add: Let_def agree_name)

lemma agree_imports: "lists_agree r \<Longrightarrow> lists_agree (check_imports out h rva r)"
  by (simp add: check_imports_def agree_scan split: option.split)

lemma agree_cor: "lists_agree r \<Longrightarrow> lists_agree (check_cor out h rva r)"
  by (simp add: check_cor_def Let_def split: option.split)

lemma agree_loaded:
  assumes "check_loaded out pe_off is64 h secs sz r = Ok r'" and "lists_agree r"
  shows "lists_agree r'"
proof -
  have native: "lists_agree r3" if "check_native out h secs ep m r2 = Ok r3" "lists_agree r2" for ep m r2 r3
    using that agree_entry by (auto simp: check_native_def split: if_splits)
  have warnings: "lists_agree (foldl (\<lambda>r m. report_push Warning m r) r4 ms)" if "lists_agree r4" for r4 ms
    using that by (rule agree_fold [rotated]) simp
  show ?thesis
    using assms(1) unfolding check_loaded_def Let_def rbind_Ok_conv
    by (elim exE conjE) (drule native, simp add: assms(2), simp only: res.inject, hypsubst,
        intro warnings, simp add: agree_imports agree_cor)
qed

lemma agree_sections:
  assumes "check_sections out pe_off is64 n = Ok r"
  shows "lists_agree r"
proof -
  have r2: "lists_agree (foldl (\<lambda>r s. check_section k s r) r2 secs)" if "lists_agree r2" for k r2 secs
    using that by (rule agree_fold [rotated]) (simp add: check_section_def)
  show ?thesis using assms unfolding check_sections_def Let_def
    by (auto split: res.splits if_splits intro: agree_loaded [OF _ r2])
qed

text \<open>C30. The check returns a report on every input, none of its slices leaves the file, and the report's two lists hold the same
  defects in the same order.\<close>

theorem check_total: "\<exists>r. check out = Ok r \<and> r_issues r = map snd (r_findings r)"
proof -
  obtain r where r: "check out = Ok r" using check_returns by blast
  have "lists_agree r" using r agree_sections unfolding check_def by (auto split: option.splits if_splits)
  then show ?thesis using r by (simp add: lists_agree_def)
qed

text \<open>C36. A section whose raw range wraps around 32 bits to an end that is not beyond the file's length is not reported, although
  the range leaves any file: the sum of the offset and the size is taken modulo 2^32 before it is compared with the file's length.\<close>

theorem wrapped_section_unreported:
  assumes "2 ^ 32 \<le> unat (s_raw_offset s) + unat (s_raw_size s)" and "unat (s_raw_offset s) + unat (s_raw_size s) \<le> 2 ^ 32 + n"
  shows "check_section n s r = r"
proof -
  have "unat (s_raw_offset s + s_raw_size s) = unat (s_raw_offset s) + unat (s_raw_size s) - 2 ^ 32"
    using assms(1) unat_bound [of "s_raw_offset s"] unat_bound [of "s_raw_size s"] by (simp add: unat_word_ariths mod_if)
  then show ?thesis using assms(2) by (auto simp: check_section_def)
qed

section \<open>A sound image\<close>

text \<open>A 32-bit library without an entry point: one empty section and one relocation block behind the section table.\<close>

definition sample_dll :: bytes where
  "sample_dll =
    [77, 90, 0, 0, 0, 0, 0, 0, 0, 0, 0, 0, 0, 0, 0, 0, 0, 0, 0, 0, 0, 0, 0, 0, 0, 0, 0, 0, 0, 0, 0, 0,
     0, 0, 0, 0, 0, 0, 0, 0, 0, 0, 0, 0, 0, 0, 0, 0, 0, 0, 0, 0, 0, 0, 0, 0, 0, 0, 0, 0, 64, 0, 0, 0,
     80, 69, 0, 0, 76, 1, 1, 0, 0, 0, 0, 0, 0, 0, 0, 0, 0, 0, 0, 0, 224, 0, 0, 32, 11, 1, 0, 0, 0, 0, 0, 0,
     0, 0, 0, 0, 0, 0, 0, 0, 0, 0, 0, 0, 0, 0, 0, 0, 0, 0, 0, 0, 0, 0, 0, 0, 0, 0, 0, 0, 0, 0, 0, 0,
     0, 0, 0, 0, 0, 0, 0, 0, 0, 0, 0, 0, 0, 0, 0, 0, 0, 32, 0, 0, 108, 1, 0, 0, 0, 0, 0, 0, 0, 0, 0, 0,
     0, 0, 0, 0, 0, 0, 0, 0, 0, 0, 0, 0, 0, 0, 0, 0, 0, 0, 0, 0, 0, 0, 0, 0, 0, 0, 0, 0, 0, 0, 0, 0,
     0, 0, 0, 0, 0, 0, 0, 0, 0, 0, 0, 0, 0, 0, 0, 0, 0, 0, 0, 0, 0, 0, 0, 0, 0, 0, 0, 0, 0, 0, 0, 0,
     96, 1, 0, 0, 12, 0, 0, 0, 0, 0, 0, 0, 0, 0, 0, 0, 0, 0, 0, 0, 0, 0, 0, 0, 0, 0, 0, 0, 0, 0, 0, 0,
     0, 0, 0, 0, 0, 0, 0, 0, 0, 0, 0, 0, 0, 0, 0, 0, 0, 0, 0, 0, 0, 0, 0, 0, 0, 0, 0, 0, 0, 0, 0, 0,
     0, 0, 0, 0, 0, 0, 0, 0, 0, 0, 0, 0, 0, 0, 0, 0, 0, 0, 0, 0, 0, 0, 0, 0, 0, 0, 0, 0, 0, 0, 0, 0,
     0, 16, 0, 0, 0, 16, 0, 0, 0, 0, 0, 0, 0, 0, 0, 0, 0, 0, 0, 0, 0, 0, 0, 0, 0, 0, 0, 0, 0, 0, 0, 0,
     0, 16, 0, 0, 12, 0, 0, 0, 4, 48, 0, 0]"

lemma dll_words: "length sample_dll = 364"
  "window sample_dll 60 4 = [64, 0, 0, 0]"
  "window sample_dll 64 4 = [80, 69, 0, 0]"
  "window sample_dll 104 4 = [0, 0, 0, 0]"
  "window sample_dll 116 4 = [0, 0, 0, 0]"
  "window sample_dll 144 4 = [0, 32, 0, 0]"
  "window sample_dll 148 4 = [108, 1, 0, 0]"
  "window sample_dll 192 4 = [0, 0, 0, 0]"
  "window sample_dll 196 4 = [0, 0, 0, 0]"
  "window sample_dll 208 4 = [0, 0, 0, 0]"
  "window sample_dll 212 4 = [0, 0, 0, 0]"
  "window sample_dll 224 4 = [96, 1, 0, 0]"
  "window sample_dll 228 4 = [12, 0, 0, 0]"
  "window sample_dll 256 4 = [0, 0, 0, 0]"
  "window sample_dll 260 4 = [0, 0, 0, 0]"
  "window sample_dll 264 4 = [0, 0, 0, 0]"
  "window sample_dll 268 4 = [0, 0, 0, 0]"
  "window sample_dll 272 4 = [0, 0, 0, 0]"
  "window sample_dll 276 4 = [0, 0, 0, 0]"
  "window sample_dll 280 4 = [0, 0, 0, 0]"
  "window sample_dll 284 4 = [0, 0, 0, 0]"
  "window sample_dll 288 4 = [0, 0, 0, 0]"
  "window sample_dll 292 4 = [0, 0, 0, 0]"
  "window sample_dll 296 4 = [0, 0, 0, 0]"
  "window sample_dll 300 4 = [0, 0, 0, 0]"
  "window sample_dll 320 4 = [0, 16, 0, 0]"
  "window sample_dll 324 4 = [0, 16, 0, 0]"
  "window sample_dll 328 4 = [0, 0, 0, 0]"
  "window sample_dll 332 4 = [0, 0, 0, 0]"
  "window sample_dll 348 4 = [0, 0, 0, 0]"
  "window sample_dll 352 4 = [0, 16, 0, 0]"
  "window sample_dll 356 4 = [12, 0, 0, 0]"
  "window sample_dll 0 2 = [77, 90]"
  "window sample_dll 70 2 = [1, 0]"
  "window sample_dll 84 2 = [224, 0]"
  "window sample_dll 86 2 = [0, 32]"
  "window sample_dll 88 2 = [11, 1]"
  "window sample_dll 360 2 = [4, 48]"
  "window sample_dll 362 2 = [0, 0]"
  by (simp_all add: sample_dll_def window_def)

definition dll_headers :: pe_headers where
  "dll_headers = \<lparr>h_pe_offset = 64, h_is_pe32_plus = False, h_image_base = 0, h_size_of_image = 0x2000, h_entry_rva = 0,
     h_sections_offset = 312, h_sections = 1\<rparr>"

definition dll_section :: pe_section where
  "dll_section = \<lparr>s_virtual_address = 0x1000, s_virtual_size = 0x1000, s_raw_offset = 0, s_raw_size = 0, s_characteristics = 0\<rparr>"

lemma dll_parse: "pe_parse sample_dll = Ok dll_headers"
  by (simp add: pe_parse_def dll_headers_def pe_read_def get_le_def get_range_def dll_words chk_add_def chk_mul_def usize_limit_def)

lemma dll_sections: "pe_sections sample_dll dll_headers = Ok [dll_section]"
  by (simp add: pe_sections_def section_at_def dll_headers_def dll_section_def pe_read_def get_le_def get_range_def dll_words chk_add_def usize_limit_def)

abbreviation dll_image :: image where "dll_image \<equiv> whole_image sample_dll dll_headers [dll_section] False 0x2000"

lemmas dll_reads = dll_words get_le_def get_range_def pe_rd_u32_def pe_rd_u16_def im_u32_def im_u16_def or_zero_def whole_image_def

lemma dll_directories:
  "directory dll_image 1 = (0, 0)" "directory dll_image 3 = (0, 0)" "directory dll_image 5 = (352, 12)" "directory dll_image 9 = (0, 0)"
  "directory dll_image 10 = (0, 0)" "directory dll_image 11 = (0, 0)" "directory dll_image 12 = (0, 0)" "directory dll_image 13 = (0, 0)"
  by (simp_all add: directory_def dll_reads sat_add_w_def dll_headers_def)

lemma dll_file_range: "file_range dll_image 352 12 = Some (352, 364)"
  by (simp add: file_range_def header_size_def dll_reads chk_add_def usize_limit_def dll_headers_def)

lemma dll_blocks: "blocks_ok dll_image 364 0 352"
proof (rule blocks_step)
  show "block_fits 352 364 (or_zero (im_u32 dll_image (352 + 4)))"
    by (simp add: block_fits_def dll_reads chk_add_def usize_limit_def)
  show "block_ok dll_image 352"
    by (simp add: block_ok_def dll_reads entry_ok_def sat_add_w_def upt_conv_Cons)
  have "352 + unat (or_zero (im_u32 dll_image (352 + 4))) = 364" by (simp add: dll_reads)
  then show "blocks_ok dll_image 364 (0 + 1) (352 + unat (or_zero (im_u32 dll_image (352 + 4))))"
    by (simp only: blocks_end)
qed (simp_all add: MAX_RELOCATION_BLOCKS_def)

lemma dll_tables: "directories_ok dll_image"
  using dll_blocks
  by (simp add: directories_ok_def imports_dir_ok_def delay_dir_ok_def bound_dir_ok_def iat_dir_ok_def tls_dir_ok_def relocations_dir_ok_def
      exception_dir_ok_def load_config_dir_ok_def dll_directories dll_file_range)

lemma sample_dll_ok: "image_ok sample_dll"
proof -
  have n: "native_ok sample_dll 64 False dll_headers [dll_section] 0x2000"
    by (simp add: native_ok_def dd_base_def dll_tables imports_ok_def) (simp add: dll_reads)
  have "loaded_ok sample_dll 64 False dll_headers [dll_section] 0x2000"
    by (simp add: loaded_ok_def dd_base_def n) (simp add: dll_reads)
  then show ?thesis unfolding image_ok_def
    by (intro exI [of _ 64] exI [of _ False] exI [of _ 1] exI [of _ dll_headers] exI [of _ "[dll_section]"])
      (simp add: dll_parse dll_sections section_inside_def dll_section_def dll_reads)
qed

lemma check_exact_witness: "\<exists>r. check sample_dll = Ok r \<and> report_ok r"
proof -
  obtain r where "check sample_dll = Ok r" using check_returns by blast
  moreover have "raw_ranges_unwrapped sample_dll"
    by (simp add: raw_ranges_unwrapped_def dll_parse dll_sections raw_unwrapped_def dll_section_def)
  ultimately show ?thesis using check_exact [of sample_dll r] sample_dll_ok dll_words(1) by auto
qed

lemma wrapped_section_unreported_witness:
  "check_section 364 (dll_section\<lparr>s_raw_offset := 0xFFFFFFFF, s_raw_size := 2\<rparr>) new_report = new_report"
  by (rule wrapped_section_unreported) (simp_all add: dll_section_def)

end
