(* ===== verification/Discovery.thy ===== *)
theory Discovery
  imports Bytecode PageCiphers
begin

unbundle bit_operations_syntax

text \<open>
  \<^verbatim>\<open>windows/layout/discovery.rs\<close>: the locators that find the stages of a protected image by their structure. A linear scan is a
  \<open>find\<close> over the positions in the order of the code; the positions are \<open>usize\<close>, and an index without a guard is a \<open>Panic\<close>.
  Strings are returned as their bytes, before the lossy conversion to UTF-8.
\<close>

section \<open>Anchors\<close>

definition pad_sig :: bytes where "pad_sig = [0x48, 0xEB, 0x01, 0xB9]"

definition region_end :: "u32 \<Rightarrow> u32 \<Rightarrow> nat" where "region_end base len = unat (sat_add_w base len)"

definition find_v_after_pad :: "bytes \<Rightarrow> u32 \<Rightarrow> u32 \<Rightarrow> u32 option" where
  "find_v_after_pad data base len =
     (let start = unat base; stop = region_end base len in
      if length data < stop then None
      else
      let slice = window data start (stop - start);
          last_hit = foldl (\<lambda>hit i. if window slice i 4 = pad_sig then Some i else hit) None [0..<length slice - 3] in
      Option.bind last_hit (\<lambda>pos.
        let aft = pos + 4 + length (takeWhile (\<lambda>b. b = 0xCC) (drop (pos + 4) slice)) in
        if length slice < aft + 4 then None else Some (word_of_nat (start + aft))))"

text \<open>The position behind the last byte that is not zero, and the aligned word that ends there.\<close>

definition find_v4_offset :: "bytes \<Rightarrow> u32 \<Rightarrow> u32 \<Rightarrow> u32 option" where
  "find_v4_offset data base len =
     (let start = unat base; stop = region_end base len in
      if length data < stop \<or> stop < start + 4 then None
      else
      let i = stop - length (takeWhile (\<lambda>b. b = 0) (rev (window data start (stop - start)))) in
      if i < start + 4 then None
      else
      let v_start = (i + 3) div 4 * 4 - 4 in
      if v_start < start + 4 \<or> window data (v_start - 4) 4 \<noteq> [0xC3, 0xCC, 0xCC, 0xCC] then None
      else Some (word_of_nat v_start))"

definition find_str_pos :: "bytes \<Rightarrow> u32 \<Rightarrow> u32 \<Rightarrow> bytes \<Rightarrow> u32 option" where
  "find_str_pos data base len needle =
     (let start = unat base; stop = region_end base len in
      if length data < stop \<or> needle = [] then None
      else
      let hay = window data start (stop - start) in
      map_option (\<lambda>rel. word_of_nat (start + rel))
        (find (\<lambda>rel. window hay rel (length needle) = needle) [0..<length hay + 1 - length needle]))"

definition get_string_to_null :: "bytes \<Rightarrow> u32 \<Rightarrow> bytes" where
  "get_string_to_null data off =
     (let start = unat off in
      if length data \<le> start then [] else takeWhile (\<lambda>b. b \<noteq> 0) (window data start (min (start + 4096) (length data) - start)))"

definition section_name_at :: "bytes \<Rightarrow> u32 \<Rightarrow> bytes" where
  "section_name_at data off = (case get_range data (unat off) 8 of None \<Rightarrow> [] | Some field \<Rightarrow> takeWhile (\<lambda>b. b \<noteq> 0) field)"

section \<open>Byte programs\<close>

fun parse_ops :: "bytes \<Rightarrow> nat \<Rightarrow> nat option" where
  "parse_ops [] n = None"
| "parse_ops (b # rest) n =
     (if b \<in> {4, 44, 52} then (case rest of [] \<Rightarrow> None | _ # rest' \<Rightarrow> parse_ops rest' (n + 1))
      else if b = 144 then parse_ops rest n
      else if b \<in> {192, 254} then
        (case rest of [] \<Rightarrow> None | mb # rest' \<Rightarrow>
          if drop_bit 6 mb AND 3 \<noteq> 3 \<or> mb AND 7 \<noteq> 0 then None
          else if 1 < drop_bit 3 mb AND 7 then None
          else if b = 192 then (case rest' of [] \<Rightarrow> None | _ # rest'' \<Rightarrow> parse_ops rest'' (n + 1))
          else parse_ops rest' (n + 1))
      else if b = 195 then Some n
      else None)"

definition parse_bytecode_check :: "bytes \<Rightarrow> nat option" where "parse_bytecode_check buf = parse_ops buf 0"

definition decoded_block :: "bytes \<Rightarrow> nat \<Rightarrow> nat \<Rightarrow> bytes \<Rightarrow> bytes" where
  "decoded_block data p n ks = map2 (XOR) (window data p n) ks"

definition bytecode_at :: "bytes \<Rightarrow> nat \<Rightarrow> nat \<Rightarrow> bool" where
  "bytecode_at data stop p \<longleftrightarrow>
     (let count = unat (data ! (p + 95)) in
      8 \<le> count \<and> p + count \<le> stop
      \<and> (case parse_bytecode_check (decoded_block data p count (lfsr_keystream 256)) of None \<Rightarrow> False | Some nops \<Rightarrow> 4 \<le> nops))"

text \<open>The positions \<open>start + 16\<close>, \<open>start + 32\<close>, \<dots> as long as 96 bytes remain before the end.\<close>

definition find_bytecode_offset :: "bytes \<Rightarrow> u32 \<Rightarrow> u32 \<Rightarrow> u32 option" where
  "find_bytecode_offset data base len =
     (let start = unat base; stop = region_end base len in
      if length data < stop then None
      else map_option word_of_nat (find (bytecode_at data stop) (map (\<lambda>k. start + 16 + 16 * k) [0..<(stop - start - 96) div 16])))"

definition lfsr_at :: "bytes \<Rightarrow> nat \<Rightarrow> bool" where
  "lfsr_at data pos \<longleftrightarrow>
     pos + 96 \<le> length data
     \<and> (let sz = unat (data ! (pos + 95)) in 10 \<le> sz \<and> sz \<le> 95 \<and> parse_bytecode_check (decoded_block data pos sz (lfsr_keystream 128)) \<noteq> None)"

definition find_lfsr_block :: "bytes \<Rightarrow> u32 \<Rightarrow> u32 \<Rightarrow> u32 \<Rightarrow> bool \<Rightarrow> u32 option" where
  "find_lfsr_block data base sz start_off scan_backward =
     (if sz < 96 then None
      else
      let check = (\<lambda>scan_off. lfsr_at data (unat (base + word_of_nat scan_off))) in
      map_option word_of_nat
        (if scan_backward then find check (rev [unat start_off..<Suc (unat (sz - 96))])
         else find check [unat start_off..<unat (sz - 95)]))"

section \<open>Shell tables\<close>

text \<open>The positions \<open>(a..b).step_by(4)\<close>.\<close>

definition step_by4 :: "nat \<Rightarrow> nat \<Rightarrow> nat list" where
  "step_by4 a b = map (\<lambda>k. a + 4 * k) [0..<(b - a + 3) div 4]"

text \<open>\<open>info\<close> has eight words.\<close>

definition plausible_table :: "bytes \<Rightarrow> u32 list \<Rightarrow> u32 \<Rightarrow> u64 \<Rightarrow> nat \<Rightarrow> nat \<Rightarrow> (bool, 'e) res" where
  "plausible_table table info base window_len shell_field header_field =
     rbind (get_u32 table (word_of_nat header_field)) (\<lambda>header.
     rbind (get_u32 table (word_of_nat header_field + 4)) (\<lambda>header_size.
     rbind (get_u32 table (word_of_nat shell_field + 0x10)) (\<lambda>stage.
     rbind (get_u32 table (word_of_nat shell_field + 0x14)) (\<lambda>stage_size.
       Ok (0 < header \<and> 0 < header_size \<and> unat header + unat header_size \<le> 0x1000 \<and> info ! 3 \<le> stage \<and> 4 \<le> stage_size
           \<and> unat (stage - base) + unat stage_size \<le> unat window_len)))))"

definition table_step :: "bytes \<Rightarrow> u32 list \<Rightarrow> u32 \<Rightarrow> u64 \<Rightarrow> nat \<Rightarrow> nat \<Rightarrow> nat \<times> nat \<Rightarrow> u32 list \<Rightarrow> (u32 list, 'e) res" where
  "table_step data info base window_len shell off = (\<lambda>(shell_field, header_field) tables.
     if off < shell_field \<or> off - shell_field < shell then Ok tables
     else case get_range data (off - shell_field) 0xD0 of
            None \<Rightarrow> Ok tables
          | Some table \<Rightarrow>
              rbind (plausible_table table info base window_len shell_field header_field) (\<lambda>good.
                let candidate = word_of_nat (off - shell_field) in
                Ok (if good \<and> candidate \<notin> set tables then tables @ [candidate] else tables)))"

definition position_step :: "bytes \<Rightarrow> u32 list \<Rightarrow> u32 \<Rightarrow> u64 \<Rightarrow> nat \<Rightarrow> nat \<Rightarrow> u32 list \<times> u32 \<Rightarrow> (u32 list \<times> u32, 'e) res" where
  "position_step data info base window_len shell off = (\<lambda>(tables, scanned).
     let scanned' = sat_add_w scanned 1 in
     rbind (get_u32 data (word_of_nat off)) (\<lambda>reference.
       if reference \<noteq> info ! 6 then Ok (tables, scanned')
       else
       rbind (get_u32 data (word_of_nat off + 4)) (\<lambda>shell_size.
         if \<not> (0x1001 \<le> shell_size \<and> shell_size < 0x100000) \<or> unat window_len < shell + unat shell_size then Ok (tables, scanned')
         else
         rbind (foldM (table_step data info base window_len shell off) [(0x88, 0x58), (0x78, 0x50)] tables) (\<lambda>tables'.
           Ok (tables', scanned')))))"

definition find_tbl_pe32_candidates_counted :: "bytes \<Rightarrow> u32 list \<Rightarrow> u32 \<Rightarrow> u64 \<Rightarrow> (u32 list \<times> u32, 'e) res" where
  "find_tbl_pe32_candidates_counted data info base window_len =
     (let shell = unat (info ! 6 - base); hi = min (shell + 0x3000) (length data) in
      foldM (position_step data info base window_len shell) (step_by4 shell (hi - 8)) ([], 0))"

definition find_tbl_pe32_candidates_window :: "bytes \<Rightarrow> u32 list \<Rightarrow> u32 \<Rightarrow> u64 \<Rightarrow> (u32 list, 'e) res" where
  "find_tbl_pe32_candidates_window data info base window_len =
     rbind (find_tbl_pe32_candidates_counted data info base window_len) (\<lambda>r. Ok (fst r))"

definition find_tbl_pe32_candidates :: "bytes \<Rightarrow> u32 list \<Rightarrow> (u32 list, 'e) res" where
  "find_tbl_pe32_candidates data info = find_tbl_pe32_candidates_window data info 0 (word_of_nat (length data))"

section \<open>The slots of the eighth stage\<close>

record eighth_slots =
  file_lfsr :: u32
  compressed_info_ptr :: u32

lemma find_mem: "find P xs = Some x \<Longrightarrow> x \<in> set xs \<and> P x"
  by (auto simp: find_Some_iff in_set_conv_nth)

text \<open>A hit lies at or behind the position where the search began and before the last 95 bytes, which ends the collection.\<close>

lemma find_lfsr_block_forward:
  assumes "find_lfsr_block data base sz start_off False = Some found"
  shows "start_off \<le> found \<and> found < sz - 95 \<and> 96 \<le> sz \<and> lfsr_at data (unat (base + found))"
proof -
  have "96 \<le> sz" using assms by (auto simp: find_lfsr_block_def not_less split: if_splits)
  obtain n where n: "found = word_of_nat n" "n \<in> set [unat start_off..<unat (sz - 95)]" "lfsr_at data (unat (base + word_of_nat n))"
    using assms by (auto simp: find_lfsr_block_def Let_def dest!: find_mem split: if_splits)
  have u: "unat found = n"
    using n(1,2) unat_bound [of "sz - 95"] by (simp add: unsigned_of_nat take_bit_nat_eq_self)
  then show ?thesis using \<open>96 \<le> sz\<close> n by (auto simp: word_le_nat_alt word_less_nat_alt)
qed

function all_lfsrs :: "bytes \<Rightarrow> u32 \<Rightarrow> u32 \<Rightarrow> u32 \<Rightarrow> u32 list" where
  "all_lfsrs data eighth_start eighth_dsz scan_off =
     (if scan_off + 95 < eighth_dsz
      then (case find_lfsr_block data eighth_start eighth_dsz scan_off False of
              None \<Rightarrow> []
            | Some found \<Rightarrow> found # all_lfsrs data eighth_start eighth_dsz (found + 1))
      else [])"
  by pat_completeness auto
termination
proof (relation "measure (\<lambda>(data, eighth_start, eighth_dsz, scan_off). unat eighth_dsz - unat scan_off)", simp, goal_cases)
  case (1 data eighth_start eighth_dsz scan_off found)
  then have f: "scan_off \<le> found" "found < eighth_dsz - 95" "96 \<le> eighth_dsz" using find_lfsr_block_forward by blast+
  have "unat (eighth_dsz - 95) = unat eighth_dsz - 95" using f(3) by (simp add: unat_sub_le word_le_nat_alt)
  then have "unat found < unat eighth_dsz - 95" using f(2) by (simp add: word_less_nat_alt)
  then have "unat (found + 1) = unat found + 1" using unat_bound [of eighth_dsz] by (simp add: unat_add_no_wrap)
  then show ?case using f(1) \<open>unat found < unat eighth_dsz - 95\<close> by (simp add: word_le_nat_alt)
qed

declare all_lfsrs.simps [simp del]

text \<open>The block whose pointer lies closest behind \<open>info3\<close>; the state is the best distance and its block.\<close>

definition pick_step :: "bytes \<Rightarrow> u32 \<Rightarrow> u32 \<Rightarrow> u32 \<Rightarrow> (u32 \<times> u32) option \<Rightarrow> ((u32 \<times> u32) option, 'e) res" where
  "pick_step data eighth_start info3 lfsr_off best =
     (if lfsr_off < 0x58 then Ok best
      else rbind (get_u32 data (eighth_start + (lfsr_off - 0x58))) (\<lambda>cs_val.
        if \<not> (0x1000 < cs_val \<and> unat cs_val < length data) \<or> cs_val < info3 then Ok best
        else
        let dist = cs_val - info3 in
        Ok (case best of None \<Rightarrow> Some (dist, lfsr_off) | Some (d, off) \<Rightarrow> if dist < d then Some (dist, lfsr_off) else Some (d, off))))"

fun fallback_lfsr :: "bytes \<Rightarrow> u32 \<Rightarrow> u32 list \<Rightarrow> (u32 option, 'e) res" where
  "fallback_lfsr data eighth_start [] = Ok None"
| "fallback_lfsr data eighth_start (lfsr_off # rest) =
     (if lfsr_off < 0x58 then fallback_lfsr data eighth_start rest
      else rbind (get_u32 data (eighth_start + (lfsr_off - 0x58))) (\<lambda>cs_val.
        if 0x1000 < cs_val \<and> unat cs_val < length data then Ok (Some lfsr_off) else fallback_lfsr data eighth_start rest))"

definition pick_lfsr :: "bytes \<Rightarrow> u32 \<Rightarrow> u32 \<Rightarrow> u32 list \<Rightarrow> (u32 option, 'e) res" where
  "pick_lfsr data eighth_start info3 lfsrs =
     rbind (foldM (pick_step data eighth_start info3) lfsrs None) (\<lambda>best.
       case best of Some (d, off) \<Rightarrow> Ok (Some off) | None \<Rightarrow> fallback_lfsr data eighth_start (rev lfsrs))"

definition plausible_descriptor :: "bytes \<Rightarrow> u32 \<Rightarrow> u32 \<Rightarrow> u32 \<times> u32 \<times> u32 \<times> u32 \<Rightarrow> bool" where
  "plausible_descriptor data compress_data_offset file_data_len = (\<lambda>(src, s_sz, dst, d_sz).
     0 < s_sz \<and> s_sz < 0x200000 \<and> unat (src + compress_data_offset) + unat s_sz \<le> unat file_data_len
     \<and> 0x1000 \<le> dst \<and> unat dst + unat d_sz \<le> length data \<and> s_sz \<le> d_sz \<and> d_sz < 0x200000)"

definition trial_descriptor :: "bytes \<Rightarrow> u32 \<Rightarrow> (u32 \<times> u32 \<times> u32 \<times> u32, 'e) res" where
  "trial_descriptor data ptr =
     rbind (trial_decrypt5_u32 data ptr) (\<lambda>src. rbind (trial_decrypt5_u32 data (ptr + 4)) (\<lambda>s_sz.
     rbind (trial_decrypt5_u32 data (ptr + 8)) (\<lambda>dst. rbind (trial_decrypt5_u32 data (ptr + 12)) (\<lambda>d_sz. Ok (src, s_sz, dst, d_sz)))))"

fun find_slot :: "bytes \<Rightarrow> u32 \<Rightarrow> u32 \<Rightarrow> u32 \<Rightarrow> u32 \<Rightarrow> nat list \<Rightarrow> (u32 option, 'e) res" where
  "find_slot data eighth_start off_file_cs compress_data_offset file_data_len [] = Ok None"
| "find_slot data eighth_start off_file_cs compress_data_offset file_data_len (n # ns) =
     (let doff = word_of_nat n; next = find_slot data eighth_start off_file_cs compress_data_offset file_data_len ns in
      if doff = off_file_cs then next
      else rbind (get_u32 data (eighth_start + doff)) (\<lambda>ptr.
        if \<not> (0x1000 < ptr \<and> unat ptr < length data - 16) then next
        else rbind (trial_descriptor data ptr) (\<lambda>d.
          if plausible_descriptor data compress_data_offset file_data_len d then Ok (Some doff) else next)))"

definition discover_eighth_slots :: "bytes \<Rightarrow> u32 \<Rightarrow> u32 \<Rightarrow> u32 \<Rightarrow> u32 \<Rightarrow> u32 \<Rightarrow> (eighth_slots option, 'e) res" where
  "discover_eighth_slots data eighth_start eighth_dsz info3 compress_data_offset file_data_len =
     rbind (pick_lfsr data eighth_start info3 (all_lfsrs data eighth_start eighth_dsz 0)) (\<lambda>picked.
       case picked of
         None \<Rightarrow> Ok None
       | Some off_file_lfsr \<Rightarrow>
           rbind (find_slot data eighth_start (off_file_lfsr - 0x58) compress_data_offset file_data_len
               (step_by4 (unat off_file_lfsr - 0x400) (unat off_file_lfsr))) (\<lambda>slot.
             Ok (map_option (\<lambda>off. \<lparr>file_lfsr = eighth_start + off_file_lfsr, compressed_info_ptr = eighth_start + off\<rparr>) slot)))"

end
