(* ===== verification/DiscoveryProps.thy ===== *)
theory DiscoveryProps
  imports Discovery PeHeaders
begin

unbundle bit_operations_syntax

text \<open>The locators return what the later stages need: a block that the pipeline decrypts and compiles, a table in the file, a
  descriptor in bounds, the least or greatest position where the code looks for one.\<close>

section \<open>The check of a byte program\<close>

lemma small_reg: "\<not> 1 < drop_bit 3 mb AND (7 :: u8) \<longleftrightarrow> modrm_reg mb = 0 \<or> modrm_reg mb = 1"
proof -
  have "\<not> 1 < r \<longleftrightarrow> r = 0 \<or> r = 1" for r :: u8
    by (simp add: word_less_nat_alt not_less word_unat_eq_iff le_Suc_eq)
  then show ?thesis by (simp add: modrm_reg_def)
qed

lemma parse_ops_agrees: "parse_ops buf (length ops) = map_option length (gen_ops buf ops)"
proof (induction buf ops rule: gen_ops.induct)
  case (2 b rest ops)
  consider (arith) "b \<in> {4, 44, 52}" | (nop) "b = 144" | (rot) "b = 192" | (incdec) "b = 254" | (ret) "b = 195"
    | (other) "b \<notin> {4, 44, 52, 144, 192, 254, 195}" by blast
  then show ?case
  proof cases
    case arith
    show ?thesis
    proof (cases rest)
      case (Cons n rest')
      then show ?thesis using arith 2(1-3) [OF _ ] by (elim insertE emptyE) simp_all
    qed (use arith in auto)
  next
    case nop
    then show ?thesis using 2(4) by simp
  next
    case rot
    show ?thesis
    proof (cases rest)
      case (Cons mb rest')
      then show ?thesis using rot 2(5,6) small_reg [of mb] by (cases rest') (auto simp: modrm_ok_def)
    qed (use rot in simp)
  next
    case incdec
    show ?thesis
    proof (cases rest)
      case (Cons mb rest')
      then show ?thesis using incdec 2(7,8) small_reg [of mb] by (auto simp: modrm_ok_def)
    qed (use incdec in simp)
  qed auto
qed simp

text \<open>The check without allocation accepts exactly the byte streams that the compiler accepts, and counts their operations.\<close>

theorem parse_bytecode_check_agrees: "parse_bytecode_check buf = map_option length (generate buf 0)"
  using parse_ops_agrees [of buf "[]"] by (simp add: parse_bytecode_check_def generate_def)

lemma parse_check_conv: "parse_bytecode_check buf = map_option length (gen_ops buf [])"
  using parse_ops_agrees [of buf "[]"] by (simp add: parse_bytecode_check_def)

text \<open>The compiler stops at the first return, so bytes behind it do not matter.\<close>

lemma gen_ops_prefix:
  assumes "gen_ops buf ops = Some r"
  shows "gen_ops (buf @ rest) ops = Some r"
proof -
  obtain code ops' tl where p: "buf = code @ 195 # tl" "encodes code ops'" "r = ops @ ops'"
    using gen_ops_sound [OF assms] by (auto simp: parsed_def)
  show ?thesis using gen_ops_complete [OF p(2), of "tl @ rest" ops] by (simp add: p)
qed

section \<open>A located block is the block the pipeline runs\<close>

lemma lfsr_fill_take: "take n (lfsr_fill (n + k) s) = lfsr_fill n s"
  by (induction n arbitrary: s) (simp_all split: prod.split)

lemma keystream_take: "n \<le> m \<Longrightarrow> take n (lfsr_keystream m) = lfsr_keystream n"
  using lfsr_fill_take [of n "m - n" 1] by (simp add: lfsr_keystream_def)

lemma map2_take: "length xs = n \<Longrightarrow> map2 f xs (take n ys) = map2 f xs ys"
proof (induction xs arbitrary: n ys)
  case (Cons x xs)
  then show ?case by (cases ys) auto
qed simp

lemma decoded_block_take:
  assumes "p + n \<le> length data" and "n \<le> m"
  shows "decoded_block data p n (lfsr_keystream m) = map2 (XOR) (window data p n) (lfsr_keystream n)"
proof -
  have "map2 (XOR) (window data p n) (take n (lfsr_keystream m)) = map2 (XOR) (window data p n) (lfsr_keystream m)"
    by (rule map2_take) (simp add: length_window assms)
  then show ?thesis by (simp add: decoded_block_def keystream_take assms(2))
qed

lemma block_runs:
  fixes pos :: u32
  assumes "unat pos + 95 < length data" and "length data \<le> 2 ^ 32" and "unat (data ! (unat pos + 95)) = n" and "unat pos + n \<le> length data"
    and "parse_bytecode_check (decoded_block data (unat pos) n (lfsr_keystream m)) = Some k" and "n \<le> m"
  shows "\<exists>d' ops. decrypt_data6 data pos = (Ok d' :: (bytes, 'e) res) \<and> generate d' pos = Some ops \<and> length ops = k"
proof -
  let ?x = "map2 (XOR) (window data (unat pos) n) (lfsr_keystream n)"
  have n: "n \<le> 256" using unat_u8_bound [of "data ! (unat pos + 95)"] assms(3) by simp
  have o: "unat (pos + 95) = unat pos + 95" using assms(1,2) by (simp add: unat_add_no_wrap)
  have d: "decrypt_data6 data pos = (Ok (patch data (unat pos) ?x) :: (bytes, 'e) res)"
    using data6_loop [of "unat pos" n data "lfsr_keystream 256"] assms n
    by (simp add: decrypt_data6_def o idx_in keystream_take)
  obtain ops where ops: "gen_ops ?x [] = Some ops" "length ops = k"
    using assms(5) unfolding parse_check_conv decoded_block_take [OF assms(4,6)] by auto
  have "drop (unat pos) (patch data (unat pos) ?x) = ?x @ drop (unat pos + length ?x) data"
    using assms(1) by (simp add: patch_def)
  then have "generate (patch data (unat pos) ?x) pos = Some ops"
    using gen_ops_prefix [OF ops(1)] by (simp add: generate_def)
  then show ?thesis using d ops(2) by blast
qed

lemma find_least:
  assumes "find P (map f [0..<n]) = Some x"
  shows "\<exists>k < n. x = f k \<and> P (f k) \<and> (\<forall>j<k. \<not> P (f j))"
  using assms by (auto simp: find_Some_iff)

lemma region_end_bound: "region_end base len < 2 ^ 32"
  unfolding region_end_def using unat_bound [of "sat_add_w base len"] by simp

lemma region_start: "unat base \<le> region_end base len"
proof -
  have "base \<le> - 1" by simp
  then have "unat base \<le> unat (- 1 :: u32)" by (simp only: word_le_nat_alt)
  then show ?thesis by (simp add: region_end_def sat_add_w_def unat_add_no_wrap)
qed

text \<open>C37. The located block is the first one at its stride that decodes to a program of four operations or more, and it is the
  block that the pipeline runs: \<open>decrypt_data6\<close> at the offset does not panic, and the compiler accepts what it leaves there with
  at least four operations.\<close>

theorem find_bytecode_offset_runs:
  assumes "find_bytecode_offset data base len = Some p" and "length data \<le> 2 ^ 32"
  shows "\<exists>d' ops k. decrypt_data6 data p = (Ok d' :: (bytes, 'e) res) \<and> generate d' p = Some ops \<and> 4 \<le> length ops
    \<and> unat p = unat base + 16 + 16 * k \<and> unat p + 96 \<le> region_end base len
    \<and> (\<forall>j<k. \<not> bytecode_at data (region_end base len) (unat base + 16 + 16 * j))"
proof -
  let ?stop = "region_end base len"
  obtain q where len: "?stop \<le> length data" and p: "p = word_of_nat q"
    and q: "find (bytecode_at data ?stop) (map (\<lambda>k. unat base + 16 + 16 * k) [0..<(?stop - unat base - 96) div 16]) = Some q"
    using assms(1) by (auto simp: find_bytecode_offset_def Let_def split: if_splits)
  obtain k where k: "k < (?stop - unat base - 96) div 16" "q = unat base + 16 + 16 * k" "bytecode_at data ?stop q"
      "\<forall>j<k. \<not> bytecode_at data ?stop (unat base + 16 + 16 * j)"
    using find_least [OF q] by blast
  have "16 * (k + 1) \<le> ?stop - unat base - 96" using k(1) by simp
  then have le: "q + 96 \<le> ?stop" using k(2) by simp
  then have u: "unat p = q" using region_end_bound [of base len] by (simp add: p unsigned_of_nat take_bit_nat_eq_self)
  obtain m where m: "unat (data ! (q + 95)) = unat (data ! (q + 95))" "q + unat (data ! (q + 95)) \<le> ?stop"
      "parse_bytecode_check (decoded_block data q (unat (data ! (q + 95))) (lfsr_keystream 256)) = Some m" "4 \<le> m"
    using k(3) by (auto simp: bytecode_at_def Let_def split: option.splits)
  have b: "unat (data ! (q + 95)) \<le> 256" using unat_u8_bound [of "data ! (q + 95)"] by linarith
  have "\<exists>d' ops. decrypt_data6 data p = (Ok d' :: (bytes, 'e) res) \<and> generate d' p = Some ops \<and> length ops = m"
    by (rule block_runs [where n = "unat (data ! (q + 95))" and m = 256])
      (use le len assms(2) m b in \<open>simp_all add: u\<close>)
  then show ?thesis using m(4) k(2,4) le u by metis
qed

section \<open>Decryptor blocks\<close>

definition block_in :: "bytes \<Rightarrow> u32 \<Rightarrow> u32 \<Rightarrow> u32 \<Rightarrow> u32 \<Rightarrow> bool" where
  "block_in data base sz start_off off \<longleftrightarrow> 96 \<le> sz \<and> start_off \<le> off \<and> off < sz - 95 \<and> lfsr_at data (unat (base + off))"

lemma find_upt_Some: "find P [a..<b] = Some n \<longleftrightarrow> a \<le> n \<and> n < b \<and> P n \<and> (\<forall>m. a \<le> m \<longrightarrow> m < n \<longrightarrow> \<not> P m)"
proof -
  have "(\<exists>i < b - a. P (a + i) \<and> n = a + i \<and> (\<forall>j<i. \<not> P (a + j)))
      \<longleftrightarrow> a \<le> n \<and> n < b \<and> P n \<and> (\<forall>m. a \<le> m \<longrightarrow> m < n \<longrightarrow> \<not> P m)" (is "?l \<longleftrightarrow> ?r")
  proof
    assume ?l
    then obtain i where i: "i < b - a" "P (a + i)" "n = a + i" "\<forall>j<i. \<not> P (a + j)" by blast
    have "\<not> P m" if "a \<le> m" "m < n" for m using i(4) that i(3) by (metis add_diff_inverse_nat less_diff_conv2 not_less add.commute)
    then show ?r using i by auto
  next
    assume ?r
    then show ?l by (intro exI [of _ "n - a"]) auto
  qed
  moreover have "(\<exists>i < length [a..<b]. P ([a..<b] ! i) \<and> n = [a..<b] ! i \<and> (\<forall>j<i. \<not> P ([a..<b] ! j)))
      \<longleftrightarrow> (\<exists>i < b - a. P (a + i) \<and> n = a + i \<and> (\<forall>j<i. \<not> P (a + j)))"
    by (intro ex_cong1) auto
  ultimately show ?thesis by (simp only: find_Some_iff)
qed

lemma find_rev_upt_Some: "find P (rev [a..<b]) = Some n \<longleftrightarrow> a \<le> n \<and> n < b \<and> P n \<and> (\<forall>m. n < m \<longrightarrow> m < b \<longrightarrow> \<not> P m)"
proof (induction b)
  case (Suc b)
  show ?case
  proof (cases "a \<le> b")
    case True
    then show ?thesis using Suc by (auto simp: less_Suc_eq)
  qed auto
qed simp

lemma word_of_nat_conv: "k < 2 ^ 32 \<Longrightarrow> word_of_nat k = (w :: u32) \<longleftrightarrow> k = unat w"
  by (auto simp: unsigned_of_nat take_bit_nat_eq_self)

text \<open>C38. The search for a decryptor block finds the first block at or behind the start that passes the check in the region, or
  backward the last one, and it finds nothing only when there is none.\<close>

theorem find_lfsr_block_exact:
  "find_lfsr_block data base sz start_off backward = Some off \<longleftrightarrow>
     block_in data base sz start_off off \<and> (\<nexists>o'. block_in data base sz start_off o' \<and> (if backward then off < o' else o' < off))"
proof (cases "96 \<le> sz")
  case True
  let ?P = "\<lambda>n. lfsr_at data (unat (base + word_of_nat n))"
  have s: "unat (sz - 95) = unat sz - 95" "unat (sz - 96) = unat sz - 96" "96 \<le> unat sz"
    using True by (simp_all add: unat_sub_le word_le_nat_alt)
  have "Suc (unat (sz - 96)) = unat (sz - 95)" using s by simp
  then have f: "find_lfsr_block data base sz start_off backward = map_option word_of_nat
      (if backward then find ?P (rev [unat start_off..<unat (sz - 95)]) else find ?P [unat start_off..<unat (sz - 95)])"
    using True by (simp add: find_lfsr_block_def Let_def not_less)
  have small: "unat (word_of_nat n :: u32) = n" if "n < unat (sz - 95)" for n
    using that unat_bound [of "sz - 95"] by (simp add: unsigned_of_nat take_bit_nat_eq_self)
  have Q: "(\<exists>n. Q n \<and> n < unat (sz - 95) \<and> word_of_nat n = off) \<longleftrightarrow> Q (unat off) \<and> unat off < unat (sz - 95)" for Q
    using small by (auto intro!: exI [of _ "unat off"])
  have A: "(\<forall>n. R n \<longrightarrow> n < unat (sz - 95) \<longrightarrow> \<not> ?P n) \<longleftrightarrow> (\<forall>o'. R (unat o') \<longrightarrow> unat o' < unat (sz - 95) \<longrightarrow> \<not> lfsr_at data (unat (base + o')))" for R
  proof (intro iffI allI impI)
    fix o' :: u32 assume "\<forall>n. R n \<longrightarrow> n < unat (sz - 95) \<longrightarrow> \<not> ?P n" "R (unat o')" "unat o' < unat (sz - 95)"
    then have "\<not> ?P (unat o')" by blast
    then show "\<not> lfsr_at data (unat (base + o'))" by simp
  next
    fix n assume "\<forall>o'. R (unat o') \<longrightarrow> unat o' < unat (sz - 95) \<longrightarrow> \<not> lfsr_at data (unat (base + o'))" "R n" "n < unat (sz - 95)"
    then show "\<not> ?P n" using small [of n] by metis
  qed
  show ?thesis
  proof (cases backward)
    case True
    have "find_lfsr_block data base sz start_off backward = Some off \<longleftrightarrow>
        (\<exists>n. (unat start_off \<le> n \<and> ?P n \<and> (\<forall>m. n < m \<longrightarrow> m < unat (sz - 95) \<longrightarrow> \<not> ?P m)) \<and> n < unat (sz - 95) \<and> word_of_nat n = off)"
      unfolding f using True by (auto simp: find_rev_upt_Some)
    also have "\<dots> \<longleftrightarrow> (unat start_off \<le> unat off \<and> ?P (unat off) \<and> (\<forall>m. unat off < m \<longrightarrow> m < unat (sz - 95) \<longrightarrow> \<not> ?P m)) \<and> unat off < unat (sz - 95)"
      by (rule Q)
    finally show ?thesis using True \<open>96 \<le> sz\<close>
      unfolding A by (auto simp: block_in_def word_le_nat_alt word_less_nat_alt)
  next
    case False
    have "find_lfsr_block data base sz start_off backward = Some off \<longleftrightarrow>
        (\<exists>n. (unat start_off \<le> n \<and> ?P n \<and> (\<forall>m. unat start_off \<le> m \<and> m < n \<longrightarrow> m < unat (sz - 95) \<longrightarrow> \<not> ?P m)) \<and> n < unat (sz - 95) \<and> word_of_nat n = off)"
      unfolding f using False by (auto simp: find_upt_Some)
    also have "\<dots> \<longleftrightarrow> (unat start_off \<le> unat off \<and> ?P (unat off)
        \<and> (\<forall>m. unat start_off \<le> m \<and> m < unat off \<longrightarrow> m < unat (sz - 95) \<longrightarrow> \<not> ?P m)) \<and> unat off < unat (sz - 95)"
      by (rule Q)
    finally show ?thesis using False \<open>96 \<le> sz\<close>
      unfolding A by (auto simp: block_in_def word_le_nat_alt word_less_nat_alt)
  qed
qed (auto simp: find_lfsr_block_def block_in_def not_le)

section \<open>Shell tables\<close>

lemma get_u32_in: "unat off + 4 \<le> length d \<Longrightarrow> get_u32 d off = Ok (from_le (window d (unat off) 4))"
  by (simp add: get_u32_def idx_le_in)

lemma step_by4_in: "off \<in> set (step_by4 a b) \<Longrightarrow> a \<le> off \<and> off < b"
  by (auto simp: step_by4_def)

definition table_ok :: "bytes \<Rightarrow> u32 list \<Rightarrow> u32 \<Rightarrow> u64 \<Rightarrow> u32 \<Rightarrow> bool" where
  "table_ok data info base window_len t \<longleftrightarrow> unat t + 0xD0 \<le> length data
     \<and> (plausible_table (window data (unat t) 0xD0) info base window_len 0x88 0x58 = (Ok True :: (bool, unit) res)
        \<or> plausible_table (window data (unat t) 0xD0) info base window_len 0x78 0x50 = (Ok True :: (bool, unit) res))"

lemma plausible_table_Ok:
  assumes "length table = 0xD0" and "(shell_field, header_field) \<in> {(0x88, 0x58), (0x78, 0x50)}"
  shows "\<exists>good. plausible_table table info base window_len shell_field header_field = (Ok good :: (bool, 'e) res)
    \<and> plausible_table table info base window_len shell_field header_field = (Ok good :: (bool, unit) res)"
  using assms by (auto simp: plausible_table_def get_u32_in)

definition tables_inv :: "bytes \<Rightarrow> u32 list \<Rightarrow> u32 \<Rightarrow> u64 \<Rightarrow> u32 list \<Rightarrow> bool" where
  "tables_inv data info base window_len tables \<longleftrightarrow> distinct tables \<and> list_all (table_ok data info base window_len) tables"

lemma table_step_inv:
  assumes "length data \<le> 2 ^ 32" and "(sf, hf) \<in> {(0x88, 0x58), (0x78, 0x50)}" and "tables_inv data info base window_len tables"
  shows "\<exists>tables'. table_step data info base window_len shell off (sf, hf) tables = (Ok tables' :: (u32 list, 'e) res)
    \<and> tables_inv data info base window_len tables'"
proof (cases "off < sf \<or> off - sf < shell \<or> length data < off - sf + 0xD0")
  case True
  then show ?thesis using assms(3) by (auto simp: table_step_def get_range_def)
next
  case False
  define k where "k = off - sf"
  let ?t = "window data k 0xD0"
  have k: "\<not> off < sf" "\<not> k < shell" "k + 0xD0 \<le> length data" using False by (auto simp: k_def)
  then have u: "unat (word_of_nat k :: u32) = k" using assms(1) by (simp add: unsigned_of_nat take_bit_nat_eq_self)
  obtain good where g: "plausible_table ?t info base window_len sf hf = (Ok good :: (bool, 'e) res)"
      "plausible_table ?t info base window_len sf hf = (Ok good :: (bool, unit) res)"
    using plausible_table_Ok [of ?t sf hf info base window_len] assms(2) k(3) by (auto simp: length_window)
  have "good \<Longrightarrow> table_ok data info base window_len (word_of_nat k)"
    using g(2) assms(2) k(3) by (auto simp: table_ok_def u)
  then show ?thesis using k assms(3) g(1)
    by (auto simp: table_step_def get_range_def tables_inv_def Let_def simp flip: k_def)
qed

lemma position_step_inv:
  assumes "length data \<le> 2 ^ 32" and "off + 8 \<le> length data" and "tables_inv data info base window_len tables"
  shows "\<exists>r. position_step data info base window_len shell off (tables, n) = (Ok r :: (u32 list \<times> u32, 'e) res)
    \<and> tables_inv data info base window_len (fst r)"
proof -
  have "\<exists>tables'. foldM (table_step data info base window_len shell off) [(0x88, 0x58), (0x78, 0x50)] tables = (Ok tables' :: (u32 list, 'e) res)
      \<and> tables_inv data info base window_len tables'"
  proof (rule foldM_total)
    fix x :: "nat \<times> nat" and ts
    assume "x \<in> set [(0x88, 0x58), (0x78, 0x50)]" "tables_inv data info base window_len ts"
    then show "\<exists>tables'. table_step data info base window_len shell off x ts = (Ok tables' :: (u32 list, 'e) res)
        \<and> tables_inv data info base window_len tables'"
      using table_step_inv [OF assms(1), of "fst x" "snd x" info base window_len ts shell off, where 'e = 'e] by simp
  qed (rule assms(3))
  then obtain tables' where t: "foldM (table_step data info base window_len shell off) [(0x88, 0x58), (0x78, 0x50)] tables
      = (Ok tables' :: (u32 list, 'e) res)" "tables_inv data info base window_len tables'" by blast
  have u: "unat (word_of_nat off :: u32) = off" "unat (word_of_nat off + 4 :: u32) = off + 4"
    using assms(1,2) by (simp_all add: unsigned_of_nat take_bit_nat_eq_self unat_word_ariths)
  show ?thesis using assms t(2) by (simp add: position_step_def get_u32_in u Let_def t(1) del: foldM.simps)
qed

text \<open>C39. The search for shell tables panics on no image of up to 4 GiB and returns distinct candidates, each a table of
  \<^verbatim>\<open>0xD0\<close> bytes in the image whose fields pass the checks of one of the two layouts.\<close>

theorem find_tbl_sound:
  assumes "length data \<le> 2 ^ 32"
  shows "\<exists>tables n. find_tbl_pe32_candidates_counted data info base window_len = (Ok (tables, n) :: (u32 list \<times> u32, 'e) res)
    \<and> distinct tables \<and> list_all (table_ok data info base window_len) tables"
proof -
  have "\<exists>r. find_tbl_pe32_candidates_counted data info base window_len = (Ok r :: (u32 list \<times> u32, 'e) res)
      \<and> tables_inv data info base window_len (fst r)"
    unfolding find_tbl_pe32_candidates_counted_def Let_def
  proof (rule foldM_total)
    fix off and s :: "u32 list \<times> u32"
    assume "off \<in> set (step_by4 (unat (info ! 6 - base)) (min (unat (info ! 6 - base) + 0x3000) (length data) - 8))"
      and "tables_inv data info base window_len (fst s)"
    then show "\<exists>r. position_step data info base window_len (unat (info ! 6 - base)) off s = (Ok r :: (u32 list \<times> u32, 'e) res)
        \<and> tables_inv data info base window_len (fst r)"
      using position_step_inv [OF assms, of off info base window_len "fst s" _ "snd s"] step_by4_in by fastforce
  qed (simp add: tables_inv_def)
  then show ?thesis by (auto simp: tables_inv_def)
qed

section \<open>The eighth stage\<close>

lemma all_lfsrs_in:
  "list_all (\<lambda>off. 96 \<le> dsz \<and> off < dsz - 95 \<and> lfsr_at data (unat (start + off))) (all_lfsrs data start dsz scan_off)"
proof (induction data start dsz scan_off rule: all_lfsrs.induct)
  case (1 data start dsz scan_off)
  then show ?case by (subst all_lfsrs.simps) (auto dest: find_lfsr_block_forward split: option.split)
qed

definition block_at :: "bytes \<Rightarrow> u32 \<Rightarrow> u32 \<Rightarrow> u32 \<Rightarrow> bool" where
  "block_at data start dsz off \<longleftrightarrow> unat off + 95 < unat dsz \<and> lfsr_at data (unat (start + off))"

lemma all_lfsrs_blocks: "list_all (block_at data start dsz) (all_lfsrs data start dsz scan_off)"
proof -
  have "unat off + 95 < unat dsz" if "96 \<le> dsz" "off < dsz - 95" for off
    using that by (simp add: word_less_nat_alt word_le_nat_alt unat_sub_le)
  then show ?thesis using all_lfsrs_in [of dsz data start scan_off] by (auto simp: list_all_iff block_at_def)
qed

lemma slot_read:
  assumes "unat start + unat dsz \<le> length data" and "length data \<le> 2 ^ 32" and "unat off + 4 \<le> unat dsz"
  shows "\<exists>v. get_u32 data (start + off) = (Ok v :: (u32, 'e) res)"
proof -
  have "unat (start + off) = unat start + unat off" using assms by (simp add: unat_add_no_wrap)
  then show ?thesis using assms by (intro exI) (rule get_u32_in, simp)
qed

lemma cs_read:
  assumes "unat start + unat dsz \<le> length data" and "length data \<le> 2 ^ 32" and "block_at data start dsz off" and "\<not> off < 0x58"
  shows "\<exists>v. get_u32 data (start + (off - 0x58)) = (Ok v :: (u32, 'e) res)"
proof (rule slot_read [OF assms(1,2)])
  have "0x58 \<le> off" using assms(4) by simp
  then show "unat (off - 0x58) + 4 \<le> unat dsz" using assms(3) by (auto simp: block_at_def unat_sub_le word_le_nat_alt)
qed

lemma fallback_total:
  assumes "unat start + unat dsz \<le> length data" and "length data \<le> 2 ^ 32" and "list_all (block_at data start dsz) offs"
  shows "\<exists>r. fallback_lfsr data start offs = (Ok r :: (u32 option, 'e) res) \<and> pred_option (block_at data start dsz) r"
  using assms(3)
proof (induction offs)
  case (Cons off offs)
  show ?case
  proof (cases "off < 0x58")
    case True
    then show ?thesis using Cons by simp
  next
    case False
    obtain v where v: "get_u32 data (start + (off - 0x58)) = (Ok v :: (u32, 'e) res)"
      using cs_read [OF assms(1,2) _ False, where 'e = 'e] Cons.prems by auto
    show ?thesis unfolding fallback_lfsr.simps if_not_P [OF False] v rbind.simps using Cons by simp
  qed
qed simp

lemma pick_step_total:
  assumes "unat start + unat dsz \<le> length data" and "length data \<le> 2 ^ 32" and "block_at data start dsz off"
    and "pred_option (\<lambda>p. block_at data start dsz (snd p)) best"
  shows "\<exists>best'. pick_step data start info3 off best = (Ok best' :: ((u32 \<times> u32) option, 'e) res)
    \<and> pred_option (\<lambda>p. block_at data start dsz (snd p)) best'"
proof (cases "off < 0x58")
  case False
  obtain v where v: "get_u32 data (start + (off - 0x58)) = (Ok v :: (u32, 'e) res)" using cs_read [OF assms(1-3) False, where 'e = 'e] by blast
  show ?thesis unfolding pick_step_def if_not_P [OF False] v rbind.simps
    using assms(3,4) by (cases best) (auto simp: Let_def)
qed (use assms(4) in \<open>simp add: pick_step_def\<close>)

lemma pick_lfsr_total:
  assumes "unat start + unat dsz \<le> length data" and "length data \<le> 2 ^ 32" and "list_all (block_at data start dsz) offs"
  shows "\<exists>r. pick_lfsr data start info3 offs = (Ok r :: (u32 option, 'e) res) \<and> pred_option (block_at data start dsz) r"
proof -
  have "\<exists>best. foldM (pick_step data start info3) offs None = (Ok best :: ((u32 \<times> u32) option, 'e) res)
      \<and> pred_option (\<lambda>p. block_at data start dsz (snd p)) best"
    by (rule foldM_total) (use pick_step_total [OF assms(1,2), where 'e = 'e] assms(3) in \<open>auto simp: list_all_iff\<close>)
  then obtain best where b: "foldM (pick_step data start info3) offs None = (Ok best :: ((u32 \<times> u32) option, 'e) res)"
      "pred_option (\<lambda>p. block_at data start dsz (snd p)) best" by blast
  show ?thesis
  proof (cases best)
    case None
    then show ?thesis using fallback_total [OF assms(1,2), of "rev offs", where 'e = 'e] assms(3) b by (simp add: pick_lfsr_def)
  next
    case (Some p)
    then show ?thesis using b by (cases p) (simp add: pick_lfsr_def)
  qed
qed

lemma trial_u32_total:
  assumes "unat va + 4 \<le> length data" and "length data \<le> 2 ^ 32"
  shows "\<exists>v. trial_decrypt5_u32 data va = (Ok v :: (u32, 'e) res)"
proof -
  have "\<exists>y. trial_byte data (va + word_of_nat i) = (Ok y :: (u8, 'e) res)" if "i \<in> set [0..<4]" for i
  proof -
    have "unat (va + word_of_nat i) = unat va + i" by (rule unat_add_of_nat) (use that assms in auto)
    then show ?thesis using that assms by (simp add: trial_byte_def idx_in)
  qed
  then have "\<exists>ys. mapM (\<lambda>i. trial_byte data (va + word_of_nat i)) [0..<4] = (Ok ys :: (bytes, 'e) res)"
    using mapM_total [of "[0..<4]" "\<lambda>i. trial_byte data (va + word_of_nat i)"] by blast
  then show ?thesis by (auto simp: trial_decrypt5_u32_def)
qed

lemma trial_word_total:
  assumes "unat ptr + 16 \<le> length data" and "length data \<le> 2 ^ 32" and "k \<le> 12"
  shows "\<exists>v. trial_decrypt5_u32 data (ptr + word_of_nat k) = (Ok v :: (u32, 'e) res)"
proof (rule trial_u32_total)
  have "unat (ptr + word_of_nat k) = unat ptr + k" by (rule unat_add_of_nat) (use assms in auto)
  then show "unat (ptr + word_of_nat k) + 4 \<le> length data" using assms by simp
qed (rule assms(2))

lemma trial_descriptor_total:
  assumes "unat ptr + 16 \<le> length data" and "length data \<le> 2 ^ 32"
  shows "\<exists>d. trial_descriptor data ptr = (Ok d :: (u32 \<times> u32 \<times> u32 \<times> u32, 'e) res)"
proof -
  obtain a b c d where "trial_decrypt5_u32 data ptr = (Ok a :: (u32, 'e) res)" "trial_decrypt5_u32 data (ptr + 4) = (Ok b :: (u32, 'e) res)"
      "trial_decrypt5_u32 data (ptr + 8) = (Ok c :: (u32, 'e) res)" "trial_decrypt5_u32 data (ptr + 12) = (Ok d :: (u32, 'e) res)"
    using trial_word_total [OF assms, of 0, where 'e = 'e] trial_word_total [OF assms, of 4, where 'e = 'e]
      trial_word_total [OF assms, of 8, where 'e = 'e] trial_word_total [OF assms, of 12, where 'e = 'e] by auto
  then show ?thesis by (simp add: trial_descriptor_def)
qed

text \<open>A slot holds a pointer to a descriptor that decrypts to plausible ranges.\<close>

definition slot_ok :: "'e itself \<Rightarrow> bytes \<Rightarrow> u32 \<Rightarrow> u32 \<Rightarrow> u32 \<Rightarrow> u32 \<Rightarrow> bool" where
  "slot_ok T data start compress_data_offset file_data_len off \<longleftrightarrow>
     (\<exists>ptr d. get_u32 data (start + off) = (Ok ptr :: (u32, 'e) res) \<and> 0x1000 < ptr \<and> unat ptr + 16 < length data
        \<and> trial_descriptor data ptr = (Ok d :: (u32 \<times> u32 \<times> u32 \<times> u32, 'e) res) \<and> plausible_descriptor data compress_data_offset file_data_len d)"

lemma find_slot_total:
  fixes dsz :: u32
  assumes "unat start + unat dsz \<le> length data" and "length data \<le> 2 ^ 32" and "\<And>n. n \<in> set ns \<Longrightarrow> n + 4 \<le> unat dsz"
  shows "\<exists>r. find_slot data start cs cdo fdl ns = (Ok r :: (u32 option, 'e) res) \<and> pred_option (slot_ok TYPE('e) data start cdo fdl) r"
  using assms(3)
proof (induction ns)
  case (Cons n ns)
  let ?w = "word_of_nat n :: u32"
  have n: "n + 4 \<le> unat dsz" using Cons.prems by simp
  moreover have "n < 2 ^ 32" using n unat_bound [of dsz] by simp
  ultimately have "unat ?w = n" by (simp add: unsigned_of_nat take_bit_nat_eq_self)
  then obtain ptr where ptr: "get_u32 data (start + ?w) = (Ok ptr :: (u32, 'e) res)"
    using slot_read [OF assms(1,2), of ?w, where 'e = 'e] n by auto
  obtain r where r: "find_slot data start cs cdo fdl ns = (Ok r :: (u32 option, 'e) res)" "pred_option (slot_ok TYPE('e) data start cdo fdl) r"
    using Cons by auto
  consider "?w = cs \<or> \<not> (0x1000 < ptr \<and> unat ptr < length data - 16)" | "?w \<noteq> cs" "0x1000 < ptr" "unat ptr < length data - 16" by blast
  then show ?case
  proof cases
    case 1
    then show ?thesis using r by (auto simp: ptr Let_def)
  next
    case 2
    then have "unat ptr + 16 \<le> length data" by simp
    then obtain d where d: "trial_descriptor data ptr = (Ok d :: (u32 \<times> u32 \<times> u32 \<times> u32, 'e) res)"
      using trial_descriptor_total [OF _ assms(2), where 'e = 'e] by blast
    have "plausible_descriptor data cdo fdl d \<Longrightarrow> slot_ok TYPE('e) data start cdo fdl ?w"
      unfolding slot_ok_def using 2 ptr d by (intro exI [of _ ptr] exI [of _ d]) simp
    then show ?thesis using 2 r by (auto simp: ptr d Let_def)
  qed
qed simp

text \<open>C40. When the eighth stage lies in the image, the discovery of its slots panics on nothing, and what it returns is usable:
  a block that passes the decryptor check, and a slot whose pointer leads to a descriptor that decrypts to ranges inside the
  protected file and the image.\<close>

theorem discover_eighth_slots_sound:
  assumes "unat start + unat dsz \<le> length data" and "length data \<le> 2 ^ 32"
  shows "\<exists>r. discover_eighth_slots data start dsz info3 cdo fdl = (Ok r :: (eighth_slots option, 'e) res)
    \<and> pred_option (\<lambda>s. lfsr_at data (unat (file_lfsr s)) \<and> slot_ok TYPE('e) data 0 cdo fdl (compressed_info_ptr s)) r"
proof -
  obtain p where p: "pick_lfsr data start info3 (all_lfsrs data start dsz 0) = (Ok p :: (u32 option, 'e) res)" "pred_option (block_at data start dsz) p"
    using pick_lfsr_total [OF assms all_lfsrs_blocks, where 'e = 'e] by blast
  show ?thesis
  proof (cases p)
    case None
    then show ?thesis by (simp add: discover_eighth_slots_def p)
  next
    case (Some off)
    then have b: "unat off + 95 < unat dsz" "lfsr_at data (unat (start + off))" using p(2) by (simp_all add: block_at_def)
    have "n + 4 \<le> unat dsz" if "n \<in> set (step_by4 (unat off - 0x400) (unat off))" for n using step_by4_in [OF that] b(1) by simp
    then obtain r where r: "find_slot data start (off - 0x58) cdo fdl (step_by4 (unat off - 0x400) (unat off)) = (Ok r :: (u32 option, 'e) res)"
        "pred_option (slot_ok TYPE('e) data start cdo fdl) r"
      using find_slot_total [OF assms, where 'e = 'e] by blast
    show ?thesis using r(2) b(2) by (cases r) (auto simp: discover_eighth_slots_def p(1) Some r(1) slot_ok_def)
  qed
qed

section \<open>Instances\<close>

text \<open>A block of four increments and a return, behind 16 bytes.\<close>

definition sample_program :: bytes where "sample_program = [254, 0xC0, 254, 0xC0, 254, 0xC0, 254, 0xC0, 195]"

definition sample_stage :: bytes where
  "sample_stage = replicate 16 0 @ map2 (XOR) sample_program (lfsr_keystream 9) @ replicate 86 0 @ [9]"

lemma sample_stage_length: "length sample_stage = 112" "sample_stage ! 111 = 9"
  by (simp_all add: sample_stage_def sample_program_def nth_append)

lemma xor_list_cancel: "length xs = length ks \<Longrightarrow> map2 (XOR) (map2 (XOR) xs ks) ks = (xs :: bytes)"
  by (induction xs ks rule: list_induct2) (simp_all add: xor.assoc)

lemma sample_decoded: "decoded_block sample_stage 16 9 (lfsr_keystream 256) = sample_program"
proof -
  have "window sample_stage 16 9 = map2 (XOR) sample_program (lfsr_keystream 9)"
    by (simp add: window_def sample_stage_def sample_program_def)
  moreover have "length sample_program = 9" by (simp add: sample_program_def)
  ultimately show ?thesis
    using decoded_block_take [of 16 9 sample_stage 256] xor_list_cancel [of sample_program "lfsr_keystream 9"] sample_stage_length by simp
qed

lemma sample_found: "find_bytecode_offset sample_stage 0 112 = Some 16"
proof -
  have "parse_bytecode_check sample_program = Some 4" by (simp add: parse_bytecode_check_def sample_program_def)
  then have "bytecode_at sample_stage 112 16"
    by (simp add: bytecode_at_def sample_stage_length sample_decoded)
  then show ?thesis
    by (simp add: find_bytecode_offset_def region_end_def sat_add_w_def sample_stage_length Let_def)
qed

lemma find_bytecode_offset_runs_witness:
  "\<exists>d' ops k. decrypt_data6 sample_stage 16 = (Ok d' :: (bytes, unit) res) \<and> generate d' 16 = Some ops \<and> 4 \<le> length ops \<and> (16 :: nat) = 16 + 16 * k"
  using find_bytecode_offset_runs [OF sample_found, where 'e = unit] sample_stage_length by auto

lemma find_tbl_sound_witness:
  "\<exists>tables n. find_tbl_pe32_candidates_counted (replicate 64 0) (replicate 8 0) 0 64 = (Ok (tables, n) :: (u32 list \<times> u32, unit) res)
    \<and> distinct tables \<and> list_all (table_ok (replicate 64 0) (replicate 8 0) 0 64) tables"
  by (rule find_tbl_sound) simp

lemma discover_eighth_slots_sound_witness:
  "\<exists>r. discover_eighth_slots (replicate 200 144) 16 128 0 0 0 = (Ok r :: (eighth_slots option, unit) res)
    \<and> pred_option (\<lambda>s. lfsr_at (replicate 200 144) (unat (file_lfsr s)) \<and> slot_ok TYPE(unit) (replicate 200 144) 0 0 0 (compressed_info_ptr s)) r"
  by (rule discover_eighth_slots_sound) simp_all

end
