(* ===== verification/Dd8Select.thy ===== *)
theory Dd8Select
  imports PageCiphers
begin

unbundle bit_operations_syntax

text \<open>
  \<^verbatim>\<open>windows/layout/dd8.rs\<close>: the selection of the key of the page cipher of \<^verbatim>\<open>.text\<close>. A sample that is a quarter of a page count
  below \<open>2 ^ 20\<close> is exact in floating point; counts stay far below 32 bits and are natural numbers. The shift that stands for
  leaving the text alone is 99, as in the code. Diagnostic output is left out.
\<close>

section \<open>Two branches of the entry stub\<close>

definition dd8_read_u32 :: "bytes \<Rightarrow> u32 \<Rightarrow> u32 option" where "dd8_read_u32 data off = get_le 4 data (unat off)"

definition entry_from_header :: "bytes \<Rightarrow> u32 option" where
  "entry_from_header data =
     Option.bind (dd8_read_u32 data 0x3C) (\<lambda>pe. Option.bind (chk_add_w pe 40) (dd8_read_u32 data))"

definition in_text_range :: "u32 \<Rightarrow> u32 \<Rightarrow> u32 \<Rightarrow> bool" where
  "in_text_range text_va text_size rva \<longleftrightarrow> text_va \<le> rva \<and> rva < sat_add_w text_va text_size"

definition metadata_entry :: "bytes \<Rightarrow> u32 \<Rightarrow> u32 \<Rightarrow> u32 \<Rightarrow> u32 \<Rightarrow> u32 list \<Rightarrow> (u32 list, 'e) res" where
  "metadata_entry data text_va text_size info3 metadata_off entries =
     (case Option.bind (chk_add_w info3 metadata_off) (\<lambda>off. chk_add_w off 8) of
        None \<Rightarrow> Ok entries
      | Some stop \<Rightarrow>
          if length data < unat stop then Ok entries
          else
          rbind (trial_decrypt5_u32 data (info3 + metadata_off)) (\<lambda>entry.
          rbind (trial_decrypt5_u32 data (info3 + metadata_off + 4)) (\<lambda>image_base.
            Ok (if image_base = info3 \<and> in_text_range text_va text_size entry \<and> entry \<notin> set entries then entries @ [entry] else entries))))"

definition entry_candidates :: "bytes \<Rightarrow> u32 \<Rightarrow> u32 \<Rightarrow> u32 \<Rightarrow> (u32 list, 'e) res" where
  "entry_candidates data text_va text_size info3 =
     foldM (metadata_entry data text_va text_size info3) [32, 64]
       (case entry_from_header data of None \<Rightarrow> [] | Some entry \<Rightarrow> if in_text_range text_va text_size entry then [entry] else [])"

text \<open>The stub \<open>sub rsp, n; call rel32; add rsp, n; jmp rel32\<close>.\<close>

definition stub_shape :: "bytes \<Rightarrow> bool" where
  "stub_shape stub \<longleftrightarrow> window stub 0 3 = [0x48, 0x83, 0xEC] \<and> stub ! 4 = 0xE8 \<and> window stub 9 3 = [0x48, 0x83, 0xC4]
     \<and> stub ! 12 = stub ! 3 \<and> stub ! 13 = 0xE9"

definition stub_target :: "bytes \<Rightarrow> u32 \<Rightarrow> nat \<Rightarrow> int \<Rightarrow> int" where
  "stub_target stub entry rel_off next_off = int (unat entry) + next_off + sint (from_le (window stub rel_off 4) :: u32)"

definition stub_score :: "u32 \<Rightarrow> u32 \<Rightarrow> u32 \<Rightarrow> bytes \<Rightarrow> nat" where
  "stub_score text_va text_end entry stub =
     (let in_text = (\<lambda>t. int (unat text_va) \<le> t \<and> t < int (unat text_end)) in
      (if in_text (stub_target stub entry 5 9) then 1 else 0) + (if in_text (stub_target stub entry 14 18) then 1 else 0))"

definition entry_stub_branch_score :: "bytes \<Rightarrow> u32 \<Rightarrow> u32 \<Rightarrow> u32 \<Rightarrow> nat option \<Rightarrow> nat option" where
  "entry_stub_branch_score data text_va text_size entry shift =
     Option.bind (chk_add_w text_va text_size) (\<lambda>text_end.
       if entry < text_va then None
       else Option.bind (chk_add_w entry 18) (\<lambda>stop.
         if text_end < stop then None
         else Option.bind (those (map (\<lambda>k. dd8_candidate_byte data (entry + word_of_nat k) shift) [0..<18])) (\<lambda>stub.
           if stub_shape stub then Some (stub_score text_va text_end entry stub) else None)))"

text \<open>The three candidates: no cipher, shift 0, shift 15.\<close>

definition best_of :: "nat list \<Rightarrow> (nat \<times> nat list) option" where
  "best_of scores =
     (let best = Max (set scores) in
      if best = 2 \<and> length (filter (\<lambda>s. s = best) scores) = 1
      then Some ([99, 0, 15] ! length (takeWhile (\<lambda>s. s \<noteq> best) scores), scores) else None)"

fun select_entry :: "bytes \<Rightarrow> u32 \<Rightarrow> u32 \<Rightarrow> u32 list \<Rightarrow> (nat \<times> nat list) option" where
  "select_entry data text_va text_size [] = None"
| "select_entry data text_va text_size (entry # entries) =
     (case those (map (entry_stub_branch_score data text_va text_size entry) [None, Some 0, Some 15]) of
        None \<Rightarrow> select_entry data text_va text_size entries
      | Some scores \<Rightarrow> (case best_of scores of None \<Rightarrow> select_entry data text_va text_size entries | Some r \<Rightarrow> Some r))"

definition select_dd8_by_entry_stub :: "bytes \<Rightarrow> u32 \<Rightarrow> u32 \<Rightarrow> u32 \<Rightarrow> ((nat \<times> nat list) option, 'e) res" where
  "select_dd8_by_entry_stub data text_va text_size info3 =
     rbind (entry_candidates data text_va text_size info3) (\<lambda>entries. Ok (select_entry data text_va text_size entries))"

section \<open>Padding statistics\<close>

definition MIN_CC_RUN :: nat where "MIN_CC_RUN = 4"

function ret_int3 :: "bytes \<Rightarrow> nat \<Rightarrow> nat" where
  "ret_int3 page acc =
     (case page of
        [] \<Rightarrow> acc
      | b # rest \<Rightarrow>
          if b = 0xC3
          then let run = length (takeWhile (\<lambda>b. b = 0xCC) rest) in
               ret_int3 (drop run rest) (if MIN_CC_RUN \<le> run then acc + run else acc)
          else ret_int3 rest acc)"
  by pat_completeness auto
termination by (relation "measure (\<lambda>(page, acc). length page)") auto

declare ret_int3.simps [simp del]

definition ret_int3_score :: "bytes \<Rightarrow> nat" where "ret_int3_score page = ret_int3 page 0"

definition page_range :: "bytes \<Rightarrow> nat \<Rightarrow> u32 \<Rightarrow> bytes option" where
  "page_range data text_off sp = get_range data (text_off + unat sp * 0x1000) 0x1000"

definition fingerprint_page :: "bytes \<Rightarrow> nat \<Rightarrow> u32 \<Rightarrow> nat option \<Rightarrow> u32 \<Rightarrow> nat \<Rightarrow> (nat, 'e) res" where
  "fingerprint_page data text_off abs_base shift sp acc =
     (case page_range data text_off sp of
        None \<Rightarrow> Ok acc
      | Some page \<Rightarrow>
          rbind (case shift of None \<Rightarrow> Ok page | Some sh \<Rightarrow> dd8_apply page (abs_base + sp) sh) (\<lambda>page'. Ok (acc + ret_int3_score page')))"

definition fingerprint_score :: "bytes \<Rightarrow> nat \<Rightarrow> u32 \<Rightarrow> u32 list \<Rightarrow> nat option \<Rightarrow> (nat, 'e) res" where
  "fingerprint_score data text_off abs_base sample_pages shift = foldM (fingerprint_page data text_off abs_base shift) sample_pages 0"

definition score_dd8_baseline :: "bytes \<Rightarrow> nat \<Rightarrow> u32 list \<Rightarrow> nat" where
  "score_dd8_baseline data text_off sample_pages =
     sum_list (map (\<lambda>sp. case page_range data text_off sp of None \<Rightarrow> 0
                         | Some page \<Rightarrow> length (filter (\<lambda>bi. page ! (bi * 16) = 0xCC) [1..<256])) sample_pages)"

definition shift_hit :: "bytes \<Rightarrow> nat \<Rightarrow> nat \<times> u32 \<Rightarrow> nat \<times> u32" where
  "shift_hit page bi = (\<lambda>(hits, key).
     let (mixed, key') = dd8_round key (word_of_nat bi) in
     if bi = 0 then (hits, key')
     else
     let tidx = unat (word_of_nat bi * 16 + (mixed AND 0xF)) in
     (if tidx < 0x1000 \<and> page ! tidx XOR ucast key' = 0xCC then hits + 1 else hits, key'))"

definition score_dd8_shift :: "bytes \<Rightarrow> nat \<Rightarrow> u32 \<Rightarrow> u32 list \<Rightarrow> nat \<Rightarrow> nat" where
  "score_dd8_shift data text_off text_va sample_pages shift =
     sum_list (map (\<lambda>sp. case page_range data text_off sp of None \<Rightarrow> 0
                         | Some page \<Rightarrow> fst (fold (shift_hit page) [0..<256] (0, push_bit shift (drop_bit 12 text_va + sp)))) sample_pages)"

section \<open>The shift of a 64-bit image\<close>

definition MIN_DD8_HITS :: nat where "MIN_DD8_HITS = 8"

definition shift_sample_pages :: "u32 \<Rightarrow> u32 list" where
  "shift_sample_pages n =
     (if n \<le> 4 then map word_of_nat [0..<unat n]
      else
      let margin = max (n div 8) 1; lo = margin; hi = n - margin in
      if hi \<le> lo then map word_of_nat [0..<unat n]
      else let stride = max ((hi - lo) div 4) 1 in filter (\<lambda>p. p < n) (map (\<lambda>i. lo + word_of_nat i * stride) [0..<4]))"

definition better :: "nat \<times> nat \<Rightarrow> nat \<times> nat \<Rightarrow> nat \<times> nat" where
  "better = (\<lambda>(shift, score) (best_shift, best_score). if best_score < score then (shift, score) else (best_shift, best_score))"

definition margin_pick :: "nat \<Rightarrow> nat \<Rightarrow> nat \<Rightarrow> nat" where
  "margin_pick none s0 s15 =
     (let (shift, score) = fold better [(0, s0), (15, s15)] (99, none) in
      if shift \<noteq> 99 \<and> (score < none * 2 \<or> score < MIN_DD8_HITS) then 99 else shift)"

definition delta_pick :: "nat \<Rightarrow> nat \<Rightarrow> nat \<Rightarrow> nat" where
  "delta_pick none s0 s15 =
     (let (shift, score) = fold better [(0, s0), (15, s15)] (99, none) in
      if shift \<noteq> 99 \<and> score - none < MIN_DD8_HITS then 99 else shift)"

definition select_by_padding :: "bytes \<Rightarrow> u32 \<Rightarrow> u32 list \<Rightarrow> (nat, 'e) res" where
  "select_by_padding data text_va sample_pages =
     (let text_off = unat text_va; abs_base = drop_bit 12 text_va in
      rbind (fingerprint_score data text_off abs_base sample_pages None) (\<lambda>r_none.
      rbind (fingerprint_score data text_off abs_base sample_pages (Some 0)) (\<lambda>r0.
      rbind (fingerprint_score data text_off abs_base sample_pages (Some 15)) (\<lambda>r15.
        Ok (if r_none \<noteq> 0 \<or> r0 \<noteq> 0 \<or> r15 \<noteq> 0 then delta_pick r_none r0 r15
            else margin_pick (score_dd8_baseline data text_off sample_pages)
              (score_dd8_shift data text_off text_va sample_pages 0) (score_dd8_shift data text_off text_va sample_pages 15))))))"

definition select_dd8_shift :: "bytes \<Rightarrow> u32 \<Rightarrow> u32 \<Rightarrow> u32 \<Rightarrow> (nat, 'e) res" where
  "select_dd8_shift data text_va text_size info3 =
     rbind (select_dd8_by_entry_stub data text_va text_size info3) (\<lambda>selected.
       case selected of
         Some (shift, scores) \<Rightarrow> Ok shift
       | None \<Rightarrow>
           let n = drop_bit 12 text_size in
           if n < 2 then Ok 0
           else
           let sample_pages = shift_sample_pages n in
           if sample_pages = [] then Ok 0 else select_by_padding data text_va sample_pages)"

section \<open>The key formula of a 32-bit image\<close>

definition pe32_sample_pages :: "u32 \<Rightarrow> u32 list" where
  "pe32_sample_pages n =
     (let quarters = filter (\<lambda>pg. 0 < pg \<and> pg < n) (map (\<lambda>k. word_of_nat (unat n * k div 4)) [1, 2, 3]) in
      if quarters = [] \<and> 1 < n then [n div 2] else quarters)"

definition pe32_step :: "nat \<Rightarrow> bytes \<times> u32 \<Rightarrow> bytes \<times> u32" where
  "pe32_step bi = (\<lambda>(buf, k).
     let ri = word_rotr 15 k + word_of_nat bi; k' = ri + word_of_nat bi; tidx = unat (word_of_nat bi * 16 + (ri AND 0xF)) in
     (if tidx < length buf then buf[tidx := buf ! tidx XOR ucast k'] else buf, k'))"

definition pe32_page :: "bytes \<Rightarrow> u32 \<Rightarrow> bytes" where
  "pe32_page page pk = fst (fold pe32_step [1..<256] (page, word_rotr 15 pk))"

definition pe32_key :: "bool \<Rightarrow> u32 \<Rightarrow> u32" where "pe32_key big sp = (if big then 0x8000 * (sp + 1) else sp + 1)"

definition count_cc :: "bytes \<Rightarrow> nat" where "count_cc page = length (filter (\<lambda>b. b = 0xCC) page)"

definition pe32_score :: "bytes \<Rightarrow> u32 \<Rightarrow> u32 list \<Rightarrow> (u32 \<Rightarrow> bytes \<Rightarrow> bytes) \<Rightarrow> nat" where
  "pe32_score data text_off sample_pages f =
     sum_list (map (\<lambda>sp. case get_range data (unat (text_off + sp * 0x1000)) 0x1000 of None \<Rightarrow> 0 | Some page \<Rightarrow> count_cc (f sp page)) sample_pages)"

definition MIN_DD8_NET_GAIN :: int where "MIN_DD8_NET_GAIN = 32"

definition select_dd8_formula_pe32 :: "bytes \<Rightarrow> u32 \<Rightarrow> u32 \<Rightarrow> bool option" where
  "select_dd8_formula_pe32 data text_off text_size =
     (let sample_pages = pe32_sample_pages (text_size div 0x1000);
          s_small = pe32_score data text_off sample_pages (\<lambda>sp page. pe32_page page (pe32_key False sp));
          s_big = pe32_score data text_off sample_pages (\<lambda>sp page. pe32_page page (pe32_key True sp));
          baseline = pe32_score data text_off sample_pages (\<lambda>sp page. page);
          big = (s_small < s_big); best = max s_small s_big
      in if sample_pages = [] \<or> MIN_DD8_NET_GAIN \<le> int best - int baseline then Some big else None)"

section \<open>The passes over the text\<close>

text \<open>\<^verbatim>\<open>exe/pipeline.rs\<close> and \<^verbatim>\<open>exe/pipeline/pe32.rs\<close>: the selected transform of \<^verbatim>\<open>.text\<close>. The override by an environment variable
  is left out.\<close>

definition decrypt_text :: "bytes \<Rightarrow> u32 \<Rightarrow> u32 \<Rightarrow> nat \<Rightarrow> (bytes, 'e) res" where
  "decrypt_text data text_va text_size shift =
     (if shift = 99 then Ok data
      else foldM (\<lambda>n d. let page = word_of_nat n in decrypt_data8 d (push_bit 12 page) 0x1000 (push_bit shift page))
             [unat (drop_bit 12 text_va)..<unat (drop_bit 12 (text_va + text_size))] data)"

definition text_step_pe32 :: "u32 \<Rightarrow> nat \<Rightarrow> bytes \<times> u32 \<Rightarrow> (bytes \<times> u32, 'e) res" where
  "text_step_pe32 pa bi = (\<lambda>(d, k).
     let ri = word_rotr 15 k + word_of_nat bi; k' = ri + word_of_nat bi; tidx = unat (pa + word_of_nat bi * 16 + (ri AND 0xF)) in
     rbind (idx d tidx) (\<lambda>v. rbind (set_at d tidx (v XOR ucast k')) (\<lambda>d'. Ok (d', k'))))"

definition text_page_pe32 :: "u32 \<Rightarrow> bool \<Rightarrow> nat \<Rightarrow> bytes \<Rightarrow> (bytes, 'e) res" where
  "text_page_pe32 text_off big n d =
     (let page = word_of_nat n in
      rbind (foldM (text_step_pe32 (text_off + page * 0x1000)) [1..<256] (d, word_rotr 15 (pe32_key big page))) (\<lambda>r. Ok (fst r)))"

definition decrypt_text_pe32 :: "bytes \<Rightarrow> u32 \<Rightarrow> u32 \<Rightarrow> bool option \<Rightarrow> (bytes, 'e) res" where
  "decrypt_text_pe32 data text_off text_size selection =
     (case selection of None \<Rightarrow> Ok data
      | Some big \<Rightarrow> foldM (text_page_pe32 text_off big) [0..<unat (text_size div 0x1000)] data)"

end
