(* ===== verification/Dd8Props.thy ===== *)
theory Dd8Props
  imports Dd8Select Integrity DiscoveryProps
begin

unbundle bit_operations_syntax

text \<open>
  What the selection of the text transform achieves: the passes of both pipelines are one map over the pages of the text, the
  predicted bytes of the selection are the bytes that the pass leaves, and so each oracle of the selection (the entry stub, the
  padding statistics, the key formula of a 32-bit image) is a statement about the image that the pipeline goes on with.
\<close>

section \<open>A pass over pages\<close>

text \<open>Pages of 4096 bytes, the first one at \<open>off + 4096 * lo\<close>, each with a key of its own.\<close>

definition pages_region :: "(nat \<Rightarrow> u32) \<Rightarrow> nat \<Rightarrow> nat \<Rightarrow> nat \<Rightarrow> bytes \<Rightarrow> bytes" where
  "pages_region key off lo hi d =
     map (\<lambda>q. if off + 4096 * lo \<le> q \<and> q < off + 4096 * hi
              then d ! q XOR dd8_mask (key ((q - off) div 4096)) ((q - off) mod 4096) else d ! q) [0..<length d]"

lemma length_pages_region [simp]: "length (pages_region key off lo hi d) = length d"
  by (simp add: pages_region_def)

lemma pages_region_Suc:
  assumes "lo \<le> hi" "off + 4096 * Suc hi \<le> length d"
  shows "dd8_region (key hi) (off + 4096 * hi) 256 (pages_region key off lo hi d) = pages_region key off lo (Suc hi) d"
    (is "?l = ?r")
proof (rule nth_equalityI)
  show "length ?l = length ?r" using assms by (simp add: length_dd8_region)
  fix q assume "q < length ?l"
  then have q: "q < length d" using assms by (simp add: length_dd8_region)
  show "?l ! q = ?r ! q"
  proof (cases "off + 4096 * hi \<le> q \<and> q < off + 4096 * Suc hi")
    case True
    define r where "r = q - (off + 4096 * hi)"
    have r: "q = off + 4096 * hi + r" "r < 4096" using True by (auto simp: r_def)
    then have "(q - off) div 4096 = hi" "(q - off) mod 4096 = r" "q - (off + 4096 * hi) = r" by simp_all
    then show ?thesis using True q assms by (simp add: dd8_region_nth pages_region_def)
  next
    case False
    then show ?thesis using q assms by (auto simp: dd8_region_nth pages_region_def)
  qed
qed

lemma pages_pass:
  assumes "off + 4096 * hi \<le> length d" "lo \<le> hi"
    and "\<And>p d'. lo \<le> p \<Longrightarrow> p < hi \<Longrightarrow> length d' = length d \<Longrightarrow> f p d' = Ok (dd8_region (key p) (off + 4096 * p) 256 d')"
  shows "foldM f [lo..<hi] d = Ok (pages_region key off lo hi d)"
  using assms(2,1,3)
proof (induction hi rule: dec_induct)
  case base
  have "pages_region key off lo lo d = d" by (intro nth_equalityI) (auto simp: pages_region_def)
  then show ?case by simp
next
  case (step hi)
  then show ?case by (simp add: foldM_append pages_region_Suc)
qed

lemma pages_region_window:
  assumes "lo \<le> p" "p < hi" "off + 4096 * hi \<le> length d"
  shows "window (pages_region key off lo hi d) (off + 4096 * p) 4096 = dd8_region (key p) 0 256 (window d (off + 4096 * p) 4096)"
    (is "?l = ?r")
proof (rule nth_equalityI)
  have i: "off + 4096 * p + 4096 \<le> length d" using assms by simp
  then show "length ?l = length ?r" by (simp add: length_dd8_region length_window)
  fix q assume "q < length ?l"
  then have q: "q < 4096" using i by (simp add: length_window)
  have "(off + 4096 * p + q - off) div 4096 = p" "(off + 4096 * p + q - off) mod 4096 = q" using q by simp_all
  then show "?l ! q = ?r ! q" using assms q i by (simp add: pages_region_def dd8_region_nth nth_window length_window)
qed

section \<open>The two passes over the text\<close>

definition text_pages :: "nat \<Rightarrow> u32 \<Rightarrow> u32 \<Rightarrow> bytes \<Rightarrow> bytes" where
  "text_pages shift text_va text_size d =
     pages_region (\<lambda>p. push_bit shift (word_of_nat p)) 0 (unat text_va div 4096) ((unat text_va + unat text_size) div 4096) d"

lemma unat_page: "p < 2 ^ 20 \<Longrightarrow> unat (push_bit 12 (word_of_nat p) :: u32) = 4096 * p"
  by (simp add: push_bit_eq_mult unat_word_ariths unsigned_of_nat take_bit_nat_eq_self)

lemma unat_page_index: "unat (drop_bit 12 w) = unat w div 4096" for w :: u32
  by (simp add: drop_bit_eq_div unat_div)

lemma decrypt_text_run:
  assumes "shift \<noteq> 99" and b: "unat text_va + unat text_size \<le> length d" "length d < 2 ^ 32"
  shows "decrypt_text d text_va text_size shift = (Ok (text_pages shift text_va text_size d) :: (bytes, 'e) res)"
proof -
  let ?lo = "unat text_va div 4096" and ?hi = "(unat text_va + unat text_size) div 4096"
  have stop: "unat (text_va + text_size) = unat text_va + unat text_size" using b by (simp add: unat_add_no_wrap)
  have hi: "4096 * ?hi \<le> length d" "?hi < 2 ^ 20" using b by simp_all
  have "foldM (\<lambda>n d. let page = word_of_nat n in decrypt_data8 d (push_bit 12 page) 0x1000 (push_bit shift page)) [?lo..<?hi] d
      = (Ok (pages_region (\<lambda>p. push_bit shift (word_of_nat p)) 0 ?lo ?hi d) :: (bytes, 'e) res)"
  proof (rule pages_pass)
    fix p and d' :: bytes
    assume p: "p < ?hi" "length d' = length d"
    have u: "unat (push_bit 12 (word_of_nat p) :: u32) = 4096 * p" using p hi by (intro unat_page) simp
    have "4096 * p + 4096 \<le> length d'" using p hi by simp
    then have "decrypt_data8 d' (push_bit 12 (word_of_nat p)) 0x1000 (push_bit shift (word_of_nat p))
      = (Ok (dd8_region (push_bit shift (word_of_nat p)) (unat (push_bit 12 (word_of_nat p) :: u32)) (unat (0x1000 :: u32) div 16) d') :: (bytes, 'e) res)"
      using p b(2) by (intro decrypt_data8_run) (simp_all add: u)
    then show "(let page = word_of_nat p in decrypt_data8 d' (push_bit 12 page) 0x1000 (push_bit shift page))
      = (Ok (dd8_region (push_bit shift (word_of_nat p)) (0 + 4096 * p) 256 d') :: (bytes, 'e) res)"
      by (simp add: u Let_def)
  qed (use hi in \<open>simp_all add: div_le_mono\<close>)
  then show ?thesis using assms(1) by (simp add: decrypt_text_def text_pages_def unat_page_index stop)
qed

text \<open>The loop of the 32-bit pipeline starts behind the first round, which changes no byte.\<close>

lemma pe32_loop:
  "foldM (text_step_pe32 pa) [1..<256] (d, word_rotr 15 k) = (foldM (data8_body pa) [0..<256] (d, k) :: (bytes \<times> u32, 'e) res)"
proof -
  have "foldM (text_step_pe32 pa) [1..<256] (d, word_rotr 15 k) = (foldM (data8_body pa) [1..<256] (d, word_rotr 15 k) :: (bytes \<times> u32, 'e) res)"
    by (rule foldM_cong) (auto simp: text_step_pe32_def data8_body_def dd8_round_def Let_def)
  moreover have "[0..<256] = 0 # [1..<256]" by (simp add: upt_conv_Cons)
  moreover have "data8_body pa 0 (d, k) = (Ok (d, word_rotr 15 k) :: (bytes \<times> u32, 'e) res)"
    by (simp add: data8_body_def dd8_round_def Let_def)
  ultimately show ?thesis by simp
qed

definition text_pages_pe32 :: "bool \<Rightarrow> u32 \<Rightarrow> u32 \<Rightarrow> bytes \<Rightarrow> bytes" where
  "text_pages_pe32 big text_off text_size d =
     pages_region (\<lambda>p. pe32_key big (word_of_nat p)) (unat text_off) 0 (unat text_size div 4096) d"

lemma unat_page_offset:
  "unat text_off + 4096 * p < 2 ^ 32 \<Longrightarrow> unat (text_off + word_of_nat p * 0x1000) = unat text_off + 4096 * p" for text_off :: u32
  by (simp add: unat_word_ariths unsigned_of_nat take_bit_nat_eq_self)

lemma decrypt_text_pe32_run:
  assumes b: "unat text_off + unat text_size \<le> length d" "length d < 2 ^ 32"
  shows "decrypt_text_pe32 d text_off text_size (Some big) = (Ok (text_pages_pe32 big text_off text_size d) :: (bytes, 'e) res)"
proof -
  let ?hi = "unat text_size div 4096"
  have hi: "unat text_off + 4096 * ?hi \<le> length d" using b by simp
  have "foldM (text_page_pe32 text_off big) [0..<?hi] d
      = (Ok (pages_region (\<lambda>p. pe32_key big (word_of_nat p)) (unat text_off) 0 ?hi d) :: (bytes, 'e) res)"
  proof (rule pages_pass)
    fix p and d' :: bytes
    assume p: "p < ?hi" "length d' = length d"
    have i: "unat text_off + 4096 * p + 4096 \<le> length d'" using p hi by simp
    then have u: "unat (text_off + word_of_nat p * 0x1000) = unat text_off + 4096 * p" using p b by (intro unat_page_offset) simp
    have "(foldM (data8_body (text_off + word_of_nat p * 0x1000)) [0..<256] (d', pe32_key big (word_of_nat p)) :: (bytes \<times> u32, 'e) res)
      = Ok (dd8_region (pe32_key big (word_of_nat p)) (unat (text_off + word_of_nat p * 0x1000)) 256 d', dd8_key (pe32_key big (word_of_nat p)) 256)"
      using i p b by (intro data8_loop) (simp_all add: u)
    then show "text_page_pe32 text_off big p d' = (Ok (dd8_region (pe32_key big (word_of_nat p)) (unat text_off + 4096 * p) 256 d') :: (bytes, 'e) res)"
      unfolding text_page_pe32_def Let_def pe32_loop u by simp
  qed (use hi in simp_all)
  then show ?thesis by (simp add: decrypt_text_pe32_def text_pages_pe32_def unat_div)
qed

section \<open>The entry stub\<close>

text \<open>The image that a selected transform leaves.\<close>

definition text_under :: "bytes \<Rightarrow> u32 \<Rightarrow> u32 \<Rightarrow> nat \<Rightarrow> bytes" where
  "text_under d text_va text_size shift = (if shift = 99 then d else text_pages shift text_va text_size d)"

lemma decrypt_text_under:
  "unat text_va + unat text_size \<le> length d \<Longrightarrow> length d < 2 ^ 32 \<Longrightarrow>
   decrypt_text d text_va text_size shift = (Ok (text_under d text_va text_size shift) :: (bytes, 'e) res)"
  by (cases "shift = 99") (simp_all add: text_under_def decrypt_text_run, simp add: decrypt_text_def)

lemma length_text_under [simp]: "length (text_under d text_va text_size shift) = length d"
  by (simp add: text_under_def text_pages_def)

lemma candidate_is_byte:
  assumes b: "unat text_va + unat text_size \<le> length d" "length d < 2 ^ 32" "(unat text_va + unat text_size) mod 4096 = 0"
    and r: "text_va \<le> rva" "unat rva < unat text_va + unat text_size"
  shows "dd8_candidate_byte d rva (Some shift) = Some (text_pages shift text_va text_size d ! unat rva)"
proof -
  let ?p = "unat rva div 4096" and ?lo = "unat text_va div 4096" and ?hi = "(unat text_va + unat text_size) div 4096"
  let ?key = "push_bit shift (drop_bit 12 rva)"
  have hi: "4096 * ?hi = unat text_va + unat text_size" using b(3) by (simp add: minus_mod_eq_mult_div [symmetric])
  then have p: "?lo \<le> ?p" "?p < ?hi" using r by (simp_all add: word_le_nat_alt div_le_mono)
  have i: "4096 * ?p + 4096 \<le> length d" using p hi b(1) by simp
  have base: "unat (rva AND NOT 0xFFF) = 4096 * ?p"
    using unat_and_not_mask [of rva 12] by (simp add: mask_eq_exp_minus_1)
  have run: "decrypt_data8 d (rva AND NOT 0xFFF) 0x1000 ?key = (Ok (dd8_region ?key (4096 * ?p) 256 d) :: (bytes, unit) res)"
  proof -
    have "decrypt_data8 d (rva AND NOT 0xFFF) 0x1000 ?key
      = (Ok (dd8_region ?key (unat (rva AND NOT 0xFFF)) (unat (0x1000 :: u32) div 16) d) :: (bytes, unit) res)"
      by (rule decrypt_data8_run) (unfold base, use i b(2) in simp_all)
    then show ?thesis unfolding base by simp
  qed
  have "dd8_candidate_byte d rva (Some shift) = Some (dd8_region ?key (4096 * ?p) 256 d ! unat rva)"
    using dd8_candidate_byte_predicts [OF i _ run] b(2) by simp
  moreover have "unat rva - 4096 * ?p = unat rva mod 4096" by (simp add: minus_mult_div_eq_mod)
  moreover have "(word_of_nat ?p :: u32) = drop_bit 12 rva" by (simp add: unat_page_index [symmetric])
  ultimately show ?thesis
    using p hi i r b(1) page_of_nat [of "unat rva"]
    by (auto simp: dd8_region_nth text_pages_def pages_region_def word_le_nat_alt)
qed

lemma those_map_Some: "those (map (\<lambda>k. Some (f k)) ks) = Some (map f ks)"
  by (induction ks) simp_all

lemma candidate_stub:
  assumes b: "unat text_va + unat text_size \<le> length d" "length d < 2 ^ 32" "(unat text_va + unat text_size) mod 4096 = 0"
    and e: "text_va \<le> entry" "unat entry + 18 \<le> unat text_va + unat text_size"
  shows "those (map (\<lambda>k. dd8_candidate_byte d (entry + word_of_nat k) (if shift = 99 then None else Some shift)) [0..<18])
    = Some (window (text_under d text_va text_size shift) (unat entry) 18)"
proof -
  let ?c = "if shift = 99 then None else Some shift" and ?stub = "window (text_under d text_va text_size shift) (unat entry) 18"
  have byte: "dd8_candidate_byte d (entry + word_of_nat k) ?c = Some (?stub ! k)" if "k < 18" for k
  proof -
    have u: "unat (entry + word_of_nat k) = unat entry + k" using that e b by (intro unat_add_of_nat) simp
    then have "text_va \<le> entry + word_of_nat k" using e by (simp add: word_le_nat_alt)
    then have "dd8_candidate_byte d (entry + word_of_nat k) (Some shift) = Some (text_pages shift text_va text_size d ! (unat entry + k))"
      using candidate_is_byte [OF b, of "entry + word_of_nat k" shift] that e u by simp
    moreover have "dd8_candidate_byte d (entry + word_of_nat k) None = Some (d ! (unat entry + k))"
      using that e b u by (simp add: dd8_candidate_byte_def)
    ultimately show ?thesis using that e b by (simp add: text_under_def nth_window text_pages_def)
  qed
  have "those (map (\<lambda>k. dd8_candidate_byte d (entry + word_of_nat k) ?c) [0..<18]) = those (map (\<lambda>k. Some (?stub ! k)) [0..<18])"
    by (rule arg_cong [where f = those], rule map_cong) (simp_all add: byte del: upt_Suc upt_rec_numeral)
  also have "\<dots> = Some ?stub"
  proof -
    have "length ?stub = 18" using e b by (simp add: length_window)
    then show ?thesis using map_nth [of ?stub] by (simp add: those_map_Some del: upt_Suc upt_rec_numeral)
  qed
  finally show ?thesis .
qed

lemma branch_score_conv:
  assumes b: "unat text_va + unat text_size \<le> length d" "length d < 2 ^ 32" "(unat text_va + unat text_size) mod 4096 = 0"
    and s: "entry_stub_branch_score d text_va text_size entry (if shift = 99 then None else Some shift) = Some score"
  shows "text_va \<le> entry \<and> unat entry + 18 \<le> unat text_va + unat text_size
    \<and> stub_shape (window (text_under d text_va text_size shift) (unat entry) 18)
    \<and> score = stub_score text_va (text_va + text_size) entry (window (text_under d text_va text_size shift) (unat entry) 18)"
proof -
  have c: "\<not> entry < text_va" "unat entry + 18 < 2 ^ 32" "\<not> text_va + text_size < entry + 18"
    using s by (auto simp: entry_stub_branch_score_def chk_add_w_Some_conv bind_eq_Some_conv split: if_splits)
  have "unat (text_va + text_size) = unat text_va + unat text_size" using b by (simp add: unat_add_no_wrap)
  moreover have "unat (entry + 18) = unat entry + 18" using c(2) by (simp add: unat_add_no_wrap)
  ultimately have e: "text_va \<le> entry" "unat entry + 18 \<le> unat text_va + unat text_size"
    using c by (simp_all add: not_less word_le_nat_alt)
  show ?thesis using s e candidate_stub [OF b e, of shift]
    by (auto simp: entry_stub_branch_score_def chk_add_w_Some_conv bind_eq_Some_conv simp del: upt_Suc upt_rec_numeral split: if_splits)
qed

definition transform_of :: "nat \<Rightarrow> nat option" where "transform_of shift = (if shift = 99 then None else Some shift)"

lemma best_of_conv:
  assumes "best_of [a, b, c] = Some (shift, scores)"
  shows "shift \<in> {99, 0, 15} \<and> scores = [a, b, c] \<and> (a = 2 \<longleftrightarrow> shift = 99) \<and> (b = 2 \<longleftrightarrow> shift = 0) \<and> (c = 2 \<longleftrightarrow> shift = 15)"
  using assms by (auto simp: best_of_def Let_def split: if_splits)

lemma select_entry_sound:
  "select_entry d text_va text_size entries = Some (shift, scores) \<Longrightarrow>
   shift \<in> {99, 0, 15} \<and> (\<exists>entry\<in>set entries. \<forall>t\<in>{99, 0, 15}. \<exists>score.
     entry_stub_branch_score d text_va text_size entry (transform_of t) = Some score \<and> (score = 2 \<longleftrightarrow> t = shift))"
proof (induction entries)
  case (Cons entry entries)
  show ?case
  proof (cases "those (map (entry_stub_branch_score d text_va text_size entry) [None, Some 0, Some 15])")
    case None
    then show ?thesis using Cons by auto
  next
    case (Some sc)
    then obtain a b c where abc: "sc = [a, b, c]" "entry_stub_branch_score d text_va text_size entry None = Some a"
        "entry_stub_branch_score d text_va text_size entry (Some 0) = Some b" "entry_stub_branch_score d text_va text_size entry (Some 15) = Some c"
      by (auto split: option.splits)
    show ?thesis
    proof (cases "best_of sc")
      case None
      then show ?thesis using Cons Some by auto
    next
      case (Some r)
      then have "best_of [a, b, c] = Some (shift, scores)"
        using Cons.prems \<open>those _ = Some sc\<close> abc(1) by simp
      from best_of_conv [OF this] show ?thesis using abc by (auto simp: transform_of_def)
    qed
  qed
qed simp

text \<open>A section that holds the text and may be executed.\<close>

definition covers_text :: "u32 \<Rightarrow> u32 \<Rightarrow> pe_section \<Rightarrow> bool" where
  "covers_text text_va text_size s \<longleftrightarrow> s_virtual_address s \<le> text_va
     \<and> unat text_va + unat text_size \<le> unat (s_virtual_address s + max (s_virtual_size s) (s_raw_size s))
     \<and> s_characteristics s AND 0x20000000 \<noteq> 0"

lemma covered_target:
  assumes "list_ex (covers_text text_va text_size) secs" and b: "unat text_va + unat text_size < 2 ^ 32"
    and t: "int (unat text_va) \<le> t" "t < int (unat (text_va + text_size))"
  shows "0 \<le> t \<and> t < 2 ^ 32 \<and> is_executable_rva secs (word_of_int t)"
proof -
  obtain n where n: "t = int n" using t(1) by (metis zero_le_imp_eq_int order_trans of_nat_0_le_iff)
  have stop: "unat (text_va + text_size) = unat text_va + unat text_size" using b by (simp add: unat_add_no_wrap)
  then have r: "unat text_va \<le> n" "n < unat text_va + unat text_size" using t by (simp_all only: n of_nat_le_iff of_nat_less_iff)
  then have "n < 2 ^ 32" using b by simp
  then have u: "unat (word_of_int t :: u32) = n" by (simp add: n unsigned_of_nat take_bit_nat_eq_self)
  obtain s where s: "s \<in> set secs" "covers_text text_va text_size s" using assms(1) by (auto simp: list_ex_iff)
  have "s_virtual_address s \<le> word_of_int t \<and> word_of_int t < s_virtual_address s + max (s_virtual_size s) (s_raw_size s)"
    using s(2) r by (simp add: covers_text_def word_le_nat_alt word_less_nat_alt u)
  then have "is_executable_rva secs (word_of_int t)" using s by (auto simp: is_executable_rva_def list_ex_iff covers_text_def)
  then show ?thesis using \<open>n < 2 ^ 32\<close> by (simp add: n)
qed

lemma silent_branches:
  assumes "list_ex (covers_text text_va text_size) secs" and "unat text_va + unat text_size < 2 ^ 32"
    and "stub_shape stub" "stub_score text_va (text_va + text_size) entry stub = 2"
  shows "check_common_entry_branches stub entry secs r = r"
proof -
  let ?in = "\<lambda>t. int (unat text_va) \<le> t \<and> t < int (unat (text_va + text_size))"
  have "?in (stub_target stub entry 5 9)" and "?in (stub_target stub entry 14 18)"
    using assms(4) unfolding stub_score_def Let_def by (auto split: if_splits)
  then have "check_branch stub entry secs name 5 9 q = q" and "check_branch stub entry secs name 14 18 q = q" for name q
    using covered_target [OF assms(1,2)] unfolding check_branch_def Let_def stub_target_def by metis+
  then show ?thesis by (simp add: check_common_entry_branches_def)
qed

text \<open>When the selection by the entry stub chooses a transform of \<^verbatim>\<open>.text\<close>, the pass that the pipeline then runs leaves at
  a candidate entry point the stub with both branches inside \<^verbatim>\<open>.text\<close>, neither of the other two transforms does, and the check of the
  unpacked image has nothing to report about the branches.\<close>

theorem entry_stub_selects:
  assumes "select_dd8_by_entry_stub d text_va text_size info3 = (Ok (Some (shift, scores)) :: (_, 'e) res)"
    and "unat text_va + unat text_size \<le> length d" and "length d < 2 ^ 32" and "(unat text_va + unat text_size) mod 4096 = 0"
    and "list_ex (covers_text text_va text_size) secs"
  shows "\<exists>entry. text_va \<le> entry \<and> unat entry + 18 \<le> unat text_va + unat text_size
    \<and> list_all (\<lambda>t. \<exists>d'. decrypt_text d text_va text_size t = (Ok d' :: (bytes, 'e) res)
        \<and> stub_shape (window d' (unat entry) 18)
        \<and> (t = shift \<longleftrightarrow> stub_score text_va (text_va + text_size) entry (window d' (unat entry) 18) = 2)) [99, 0, 15]
    \<and> (\<exists>d'. decrypt_text d text_va text_size shift = (Ok d' :: (bytes, 'e) res)
        \<and> check_common_entry_branches (window d' (unat entry) 18) entry secs r = r)"
proof -
  obtain entries where "select_entry d text_va text_size entries = Some (shift, scores)"
    using assms(1) by (auto simp: select_dd8_by_entry_stub_def rbind_Ok_conv)
  from select_entry_sound [OF this] obtain entry where sound: "shift \<in> {99, 0, 15}" and "\<forall>t\<in>{99, 0, 15}. \<exists>score.
     entry_stub_branch_score d text_va text_size entry (transform_of t) = Some score \<and> (score = 2 \<longleftrightarrow> t = shift)"
    by (elim conjE bexE)
  note e = bspec [OF this(2)]
  have stub: "text_va \<le> entry \<and> unat entry + 18 \<le> unat text_va + unat text_size \<and> stub_shape (window (text_under d text_va text_size t) (unat entry) 18)
      \<and> (t = shift \<longleftrightarrow> stub_score text_va (text_va + text_size) entry (window (text_under d text_va text_size t) (unat entry) 18) = 2)"
    if t: "t \<in> {99, 0, 15}" for t
  proof -
    obtain score where "entry_stub_branch_score d text_va text_size entry (transform_of t) = Some score" "score = 2 \<longleftrightarrow> t = shift"
      using e [OF t] by (elim exE conjE)
    with branch_score_conv [OF assms(2-4), of entry t score] show ?thesis by (simp only: transform_of_def)
  qed
  have "check_common_entry_branches (window (text_under d text_va text_size shift) (unat entry) 18) entry secs r = r"
    using stub [of shift] sound assms(2,3,5) by (intro silent_branches) auto
  then have "\<exists>d'. decrypt_text d text_va text_size shift = (Ok d' :: (bytes, 'e) res) \<and> check_common_entry_branches (window d' (unat entry) 18) entry secs r = r"
    using decrypt_text_under [OF assms(2,3)] by blast
  let ?P = "\<lambda>t d'. decrypt_text d text_va text_size t = (Ok d' :: (bytes, 'e) res)
        \<and> stub_shape (window d' (unat entry) 18)
        \<and> (t = shift \<longleftrightarrow> stub_score text_va (text_va + text_size) entry (window d' (unat entry) 18) = 2)"
  have "?P t (text_under d text_va text_size t)" if t: "t \<in> {99, 0, 15}" for t
  proof (intro conjI)
    show "stub_shape (window (text_under d text_va text_size t) (unat entry) 18)" using stub [OF t] by (elim conjE)
    show "t = shift \<longleftrightarrow> stub_score text_va (text_va + text_size) entry (window (text_under d text_va text_size t) (unat entry) 18) = 2"
      using stub [OF t] by (elim conjE)
  qed (rule decrypt_text_under [OF assms(2,3)])
  then have "list_all (\<lambda>t. \<exists>d'. ?P t d') [99, 0, 15]" unfolding list_all_iff list.set by (intro ballI exI)
  moreover note \<open>\<exists>d'. _\<close>
  moreover have "text_va \<le> entry \<and> unat entry + 18 \<le> unat text_va + unat text_size" using stub [of 99] by simp
  ultimately show ?thesis by (intro exI [of _ entry]) (simp only: simp_thms)
qed

definition stub_bytes :: bytes where
  "stub_bytes = [0x48, 0x83, 0xEC, 0x28, 0xE8, 0, 0, 0, 0, 0x48, 0x83, 0xC4, 0x28, 0xE9, 0, 0, 0, 0]"

definition stub_sample :: bytes where
  "stub_sample = replicate 40 0 @ [0x4C, 0, 0, 0] @ replicate 32 0 @ stub_bytes @ replicate 4002 0"

lemma sample_length: "length stub_sample = 4096" by (simp add: stub_sample_def stub_bytes_def)

lemma page0_places: "dd8_place 0 4 = 0x44" "dd8_place 0 5 = 0x5D" "ucast (dd8_key 0 (Suc 5)) = (0x42 :: u8)"
  by code_simp+

lemma sample_bytes: "k < 18 \<Longrightarrow> stub_sample ! (0x4C + k) = stub_bytes ! k"
  by (simp add: stub_sample_def nth_append) (simp add: stub_bytes_def)

lemma page0_mask:
  assumes "k < 18"
  shows "dd8_mask 0 (0x4C + k) = (if k = 17 then 0x42 else 0)"
proof -
  have "(0x4C + k) div 16 = 4 \<or> (0x4C + k) div 16 = 5" using assms by auto
  then show ?thesis using page0_places assms by (auto simp: dd8_mask_def)
qed

lemma stub_sample_decoded:
  "window (text_under stub_sample 0 0x1000 shift) 0x4C 18 = (if shift = 99 then stub_bytes else stub_bytes[17 := 0x42])"
proof (rule nth_equalityI)
  fix k assume "k < length (window (text_under stub_sample 0 0x1000 shift) 0x4C 18)"
  then have k: "k < 18" by (simp add: length_window sample_length)
  then have "stub_sample ! (0x4C + k) = stub_bytes ! k" by (rule sample_bytes)
  moreover have "length stub_bytes = 18" "stub_bytes ! 17 = 0" by (simp_all add: stub_bytes_def)
  ultimately show "window (text_under stub_sample 0 0x1000 shift) 0x4C 18 ! k = (if shift = 99 then stub_bytes else stub_bytes[17 := 0x42]) ! k"
    using k page0_mask [OF k]
    by (auto simp: text_under_def text_pages_def pages_region_def nth_window nth_list_update sample_length simp del: upt_Suc upt_rec_numeral)
qed (simp add: length_window sample_length stub_bytes_def)

lemma sample_score:
  "entry_stub_branch_score stub_sample 0 0x1000 0x4C (if shift = 99 then None else Some shift) = Some (if shift = 99 then 2 else 1)"
proof -
  have "those (map (\<lambda>k. dd8_candidate_byte stub_sample (0x4C + word_of_nat k) (if shift = 99 then None else Some shift)) [0..<18])
      = Some (if shift = 99 then stub_bytes else stub_bytes[17 := 0x42])"
    using candidate_stub [of 0 "0x1000" stub_sample "0x4C" shift] by (simp add: sample_length stub_sample_decoded del: upt_Suc upt_rec_numeral)
  moreover have "stub_shape stub_bytes" "stub_shape (stub_bytes[17 := 0x42])" by (simp_all add: stub_shape_def stub_bytes_def window_def)
  moreover have "stub_score 0 0x1000 0x4C stub_bytes = 2" "stub_score 0 0x1000 0x4C (stub_bytes[17 := 0x42]) = 1"
    by (simp_all add: stub_score_def stub_bytes_def window_def stub_target_def)
  ultimately show ?thesis by (simp add: entry_stub_branch_score_def chk_add_w_def del: upt_Suc upt_rec_numeral)
qed

lemma sample_selected: "select_dd8_by_entry_stub stub_sample 0 0x1000 0xFFFFFFF0 = (Ok (Some (99, [2, 1, 1])) :: (_, unit) res)"
proof -
  have "from_le (replicate 4 0) = (0 :: u32)" "from_le [0x4C, 0, 0, 0] = (0x4C :: u32)" by code_simp+
  then have "entry_from_header stub_sample = Some 0x4C"
    by (simp add: entry_from_header_def dd8_read_u32_def get_le_def get_range_def window_def stub_sample_def stub_bytes_def chk_add_w_def)
  then have "entry_candidates stub_sample 0 0x1000 0xFFFFFFF0 = (Ok [0x4C] :: (_, unit) res)"
    by (simp add: entry_candidates_def metadata_entry_def chk_add_w_def in_text_range_def sat_add_w_def)
  moreover have "select_entry stub_sample 0 0x1000 [0x4C] = Some (99, [2, 1, 1])"
    using sample_score [of 99] sample_score [of 0] sample_score [of 15] by (simp add: best_of_def)
  ultimately show ?thesis by (simp add: select_dd8_by_entry_stub_def)
qed

definition text_section :: pe_section where
  "text_section = \<lparr>s_virtual_address = 0, s_virtual_size = 0x1000, s_raw_offset = 0, s_raw_size = 0x1000, s_characteristics = 0x60000020\<rparr>"

lemma entry_stub_selects_witness:
  "\<exists>entry. 0 \<le> entry \<and> unat entry + 18 \<le> 4096
    \<and> list_all (\<lambda>t. \<exists>d'. decrypt_text stub_sample 0 0x1000 t = (Ok d' :: (bytes, unit) res)
        \<and> stub_shape (window d' (unat entry) 18)
        \<and> (t = 99 \<longleftrightarrow> stub_score 0 0x1000 entry (window d' (unat entry) 18) = 2)) [99, 0, 15]
    \<and> (\<exists>d'. decrypt_text stub_sample 0 0x1000 99 = (Ok d' :: (bytes, unit) res)
        \<and> check_common_entry_branches (window d' (unat entry) 18) entry [text_section] new_report = new_report)"
proof -
  have "list_ex (covers_text 0 0x1000) [text_section]" by (simp add: covers_text_def text_section_def)
  then show ?thesis using entry_stub_selects [OF sample_selected, of "[text_section]" new_report] by (simp add: sample_length)
qed

section \<open>The selection always ends in one of three shifts\<close>

lemma metadata_entry_total:
  assumes "length d \<le> 2 ^ 32"
  shows "\<exists>es'. metadata_entry d text_va text_size info3 k es = (Ok es' :: (u32 list, 'e) res)"
proof (cases "Option.bind (chk_add_w info3 k) (\<lambda>off. chk_add_w off 8)")
  case (Some stop)
  then have u: "unat (info3 + k) = unat info3 + unat k" "unat stop = unat info3 + unat k + 8" "unat info3 + unat k + 8 < 2 ^ 32"
    by (auto simp: bind_eq_Some_conv chk_add_w_Some_conv unat_add_no_wrap)
  show ?thesis
  proof (cases "length d < unat stop")
    case False
    moreover have "unat (info3 + k + 4) = unat info3 + unat k + 4" using u by (simp add: unat_add_no_wrap)
    ultimately obtain e b where "trial_decrypt5_u32 d (info3 + k) = (Ok e :: (u32, 'e) res)" "trial_decrypt5_u32 d (info3 + k + 4) = (Ok b :: (u32, 'e) res)"
      using trial_u32_total [OF _ assms, of "info3 + k", where 'e = 'e] trial_u32_total [OF _ assms, of "info3 + k + 4", where 'e = 'e] u by auto
    then show ?thesis using Some False by (simp add: metadata_entry_def)
  qed (simp add: metadata_entry_def Some)
qed (simp add: metadata_entry_def)

lemma entry_candidates_total:
  assumes "length d \<le> 2 ^ 32"
  shows "\<exists>entries. entry_candidates d text_va text_size info3 = (Ok entries :: (u32 list, 'e) res)"
  unfolding entry_candidates_def using metadata_entry_total [OF assms]
  by (intro foldM_total [where P = "\<lambda>_. True", simplified]) blast

lemma dd8_apply_run:
  "length page = 4096 \<Longrightarrow> dd8_apply page p shift = (Ok (dd8_region (push_bit shift p) 0 256 page) :: (bytes, 'e) res)"
  using data8_loop [of 0 256 page "push_bit shift p", where 'e = 'e] by (simp add: dd8_apply_def del: upt_Suc upt_rec_numeral)

definition page_sum :: "bytes \<Rightarrow> nat \<Rightarrow> u32 list \<Rightarrow> (u32 \<Rightarrow> bytes \<Rightarrow> nat) \<Rightarrow> nat" where
  "page_sum d off pages f = sum_list (map (\<lambda>sp. case page_range d off sp of None \<Rightarrow> 0 | Some page \<Rightarrow> f sp page) pages)"

lemma page_range_length: "page_range d off sp = Some page \<Longrightarrow> length page = 4096"
  by (auto simp: page_range_def get_range_def length_window split: if_splits)

lemma fingerprint_none: "fingerprint_score d off base pages None = (Ok (page_sum d off pages (\<lambda>sp. ret_int3_score)) :: (nat, 'e) res)"
proof -
  have "foldM (fingerprint_page d off base None) pages n = (Ok (n + page_sum d off pages (\<lambda>sp. ret_int3_score)) :: (nat, 'e) res)" for n
    by (induction pages arbitrary: n) (auto simp: fingerprint_page_def page_sum_def split: option.split)
  then show ?thesis by (simp add: fingerprint_score_def)
qed

lemma fingerprint_some:
  "fingerprint_score d off base pages (Some shift)
   = (Ok (page_sum d off pages (\<lambda>sp page. ret_int3_score (dd8_region (push_bit shift (base + sp)) 0 256 page))) :: (nat, 'e) res)"
proof -
  have "foldM (fingerprint_page d off base (Some shift)) pages n
      = (Ok (n + page_sum d off pages (\<lambda>sp page. ret_int3_score (dd8_region (push_bit shift (base + sp)) 0 256 page))) :: (nat, 'e) res)" for n
    by (induction pages arbitrary: n) (auto simp: fingerprint_page_def dd8_apply_run page_range_length page_sum_def split: option.split)
  then show ?thesis by (simp add: fingerprint_score_def)
qed

lemma select_by_padding_run:
  "select_by_padding d text_va pages
   = (let base = drop_bit 12 text_va; off = unat text_va; none = page_sum d off pages (\<lambda>sp. ret_int3_score);
          under = (\<lambda>shift. page_sum d off pages (\<lambda>sp page. ret_int3_score (dd8_region (push_bit shift (base + sp)) 0 256 page)))
      in Ok (if none \<noteq> 0 \<or> under 0 \<noteq> 0 \<or> under 15 \<noteq> 0 then delta_pick none (under 0) (under 15)
             else margin_pick (score_dd8_baseline d off pages) (score_dd8_shift d off text_va pages 0) (score_dd8_shift d off text_va pages 15)) :: (nat, 'e) res)"
  unfolding select_by_padding_def Let_def fingerprint_none fingerprint_some rbind.simps ..

lemma delta_pick_range: "delta_pick n a b \<in> {0, 15, 99}"
  by (simp add: delta_pick_def better_def)

lemma margin_pick_range: "margin_pick n a b \<in> {0, 15, 99}"
  by (simp add: margin_pick_def better_def)

text \<open>On an image of up to 4 GiB the selection panics on nothing, and what it returns is one of the two shifts of the
  packer or the value 99 that leaves the text alone.\<close>

theorem select_dd8_shift_total:
  assumes "length d \<le> 2 ^ 32"
  shows "\<exists>shift. select_dd8_shift d text_va text_size info3 = (Ok shift :: (nat, 'e) res) \<and> shift \<in> {0, 15, 99}"
proof -
  obtain selected where s: "select_dd8_by_entry_stub d text_va text_size info3 = (Ok selected :: (_, 'e) res)"
      and "\<And>shift scores. selected = Some (shift, scores) \<Longrightarrow> shift \<in> {99, 0, 15}"
    using entry_candidates_total [OF assms, of text_va text_size info3, where 'e = 'e] select_entry_sound
    by (fastforce simp: select_dd8_by_entry_stub_def)
  moreover have "\<exists>shift. select_by_padding d text_va pages = (Ok shift :: (nat, 'e) res) \<and> shift \<in> {0, 15, 99}" for pages
  proof -
    have "(if c then delta_pick n a b else margin_pick m x y) \<in> {0, 15, 99}" for c n a b m x y
      using delta_pick_range margin_pick_range by simp
    then show ?thesis unfolding select_by_padding_run Let_def by blast
  qed
  ultimately show ?thesis by (auto simp: select_dd8_shift_def Let_def split: option.split)
qed

section \<open>What the statistics measure\<close>

lemma sample_page_less: "sp \<in> set (shift_sample_pages n) \<Longrightarrow> sp < n"
proof -
  have "sp < n" if "sp \<in> set (map word_of_nat [0..<unat n])"
  proof -
    obtain k where "sp = word_of_nat k" "k < unat n" using \<open>sp \<in> _\<close> by auto
    then show ?thesis using unat_bound [of n] by (simp add: word_less_nat_alt unsigned_of_nat take_bit_nat_eq_self)
  qed
  then show "sp \<in> set (shift_sample_pages n) \<Longrightarrow> sp < n"
    by (auto simp: shift_sample_pages_def Let_def split: if_splits)
qed

lemma shift_hits:
  assumes "n \<le> 256" "length page = 4096"
  shows "fold (shift_hit page) [0..<n] (0, key)
    = (length (filter (\<lambda>bi. page ! dd8_place key bi XOR ucast (dd8_key key (Suc bi)) = 0xCC) [1..<n]), dd8_key key n)"
  using assms(1)
proof (induction n)
  case (Suc n)
  obtain mixed key' where r: "dd8_round (dd8_key key n) (word_of_nat n) = (mixed, key')" by force
  have "unat (word_of_nat n * 16 :: u32) = 16 * n" using Suc.prems by (simp add: unat_word_ariths unat_of_nat)
  moreover have "unat (mixed AND 0xF) < 16" by (rule low_nibble)
  ultimately have "unat (word_of_nat n * 16 + (mixed AND 0xF)) = dd8_place key n"
    using Suc.prems by (simp add: dd8_place_def r unat_add_no_wrap)
  moreover have "dd8_place key n < 4096" using dd8_place_block(3) [where key = key and i = n] Suc.prems by simp
  ultimately show ?case using Suc by (cases "n = 0") (simp_all add: shift_hit_def r split: prod.split)
qed simp

text \<open>How many of the bytes that the cipher changes in a page are padding.\<close>

definition restored_int3 :: "u32 \<Rightarrow> bytes \<Rightarrow> nat" where
  "restored_int3 key page = length (filter (\<lambda>bi. page ! dd8_place key bi = 0xCC) [1..<256])"

lemma restored_after:
  assumes "length page = 4096"
  shows "fst (fold (shift_hit page) [0..<256] (0, key)) = restored_int3 key (dd8_region key 0 256 page)"
proof -
  have "page ! dd8_place key bi XOR ucast (dd8_key key (Suc bi)) = dd8_region key 0 256 page ! dd8_place key bi" if "bi \<in> set [1..<256]" for bi
  proof -
    have "bi \<noteq> 0" "bi < 256" using that by auto
    then have "dd8_place key bi < 4096" "16 \<le> dd8_place key bi" "dd8_place key bi div 16 = bi" using dd8_place_block [where key = key and i = bi] by simp_all
    then show ?thesis using assms by (simp add: dd8_region_nth dd8_mask_def)
  qed
  then have "filter (\<lambda>bi. page ! dd8_place key bi XOR ucast (dd8_key key (Suc bi)) = 0xCC) [1..<256]
      = filter (\<lambda>bi. dd8_region key 0 256 page ! dd8_place key bi = 0xCC) [1..<256]"
    by (intro filter_cong) (simp_all del: upt_Suc upt_rec_numeral)
  then show ?thesis using shift_hits [of 256 page key] assms unfolding restored_int3_def by simp
qed

lemma page_sum_cong:
  "(\<And>sp page. sp \<in> set pages \<Longrightarrow> page_range d off sp = Some page \<Longrightarrow> f sp page = g sp page) \<Longrightarrow> page_sum d off pages f = page_sum d off pages g"
  unfolding page_sum_def by (rule arg_cong [where f = sum_list], rule map_cong) (auto split: option.split)

lemma score_shift_sum:
  "score_dd8_shift d off text_va pages shift
   = page_sum d off pages (\<lambda>sp page. restored_int3 (push_bit shift (drop_bit 12 text_va + sp))
       (dd8_region (push_bit shift (drop_bit 12 text_va + sp)) 0 256 page))"
proof -
  have "score_dd8_shift d off text_va pages shift
      = page_sum d off pages (\<lambda>sp page. fst (fold (shift_hit page) [0..<256] (0, push_bit shift (drop_bit 12 text_va + sp))))"
    by (simp add: score_dd8_shift_def page_sum_def del: upt_Suc upt_rec_numeral)
  also have "\<dots> = page_sum d off pages (\<lambda>sp page. restored_int3 (push_bit shift (drop_bit 12 text_va + sp))
       (dd8_region (push_bit shift (drop_bit 12 text_va + sp)) 0 256 page))"
    by (rule page_sum_cong) (rule restored_after, erule page_range_length)
  finally show ?thesis .
qed

text \<open>The scratch copy of a sample page is the page as the pass leaves it.\<close>

lemma pass_page:
  assumes b: "unat text_va + unat text_size \<le> length d" "unat text_va mod 4096 = 0" and sp: "sp < drop_bit 12 text_size"
  shows "page_range (text_pages shift text_va text_size d) (unat text_va) sp
    = map_option (dd8_region (push_bit shift (drop_bit 12 text_va + sp)) 0 256) (page_range d (unat text_va) sp)"
proof -
  let ?p = "unat text_va div 4096 + unat sp" and ?hi = "(unat text_va + unat text_size) div 4096"
  have va: "4096 * (unat text_va div 4096) = unat text_va" using b(2) by (simp add: minus_mod_eq_mult_div [symmetric])
  have "unat sp < unat text_size div 4096" using sp by (simp add: word_less_nat_alt unat_page_index)
  then have p: "?p < ?hi" using va by (metis div_mult_self4 nat_add_left_cancel_less zero_neq_numeral)
  have off: "unat text_va + unat sp * 0x1000 = 0 + 4096 * ?p" using va by (simp add: algebra_simps)
  have "4096 * ?hi \<le> length d" using b(1) by simp
  then have "window (text_pages shift text_va text_size d) (0 + 4096 * ?p) 4096
      = dd8_region (push_bit shift (word_of_nat ?p)) 0 256 (window d (0 + 4096 * ?p) 4096)"
    unfolding text_pages_def using p by (intro pages_region_window) simp_all
  moreover have "(word_of_nat ?p :: u32) = drop_bit 12 text_va + sp" by (simp add: unat_page_index [symmetric])
  ultimately show ?thesis unfolding page_range_def off get_range_def by (simp add: text_pages_def)
qed

lemma pass_sum:
  assumes b: "unat text_va + unat text_size \<le> length d" "unat text_va mod 4096 = 0"
  shows "page_sum d (unat text_va) (shift_sample_pages (drop_bit 12 text_size)) (\<lambda>sp page. f sp (dd8_region (push_bit shift (drop_bit 12 text_va + sp)) 0 256 page))
    = page_sum (text_pages shift text_va text_size d) (unat text_va) (shift_sample_pages (drop_bit 12 text_size)) f"
  unfolding page_sum_def
proof (rule arg_cong [where f = sum_list], rule map_cong [OF refl])
  fix sp assume sp: "sp \<in> set (shift_sample_pages (drop_bit 12 text_size))"
  show "(case page_range d (unat text_va) sp of None \<Rightarrow> 0 | Some page \<Rightarrow> f sp (dd8_region (push_bit shift (drop_bit 12 text_va + sp)) 0 256 page))
      = (case page_range (text_pages shift text_va text_size d) (unat text_va) sp of None \<Rightarrow> 0 | Some page \<Rightarrow> f sp page)"
    unfolding pass_page [OF b sample_page_less [OF sp]] by (simp split: option.split)
qed

lemma delta_pick_gain: "delta_pick n a b = shift \<Longrightarrow> shift \<noteq> 99 \<Longrightarrow> shift = 0 \<and> n + 8 \<le> a \<or> shift = 15 \<and> n + 8 \<le> b"
  by (auto simp: delta_pick_def better_def MIN_DD8_HITS_def split: if_splits)

lemma margin_pick_gain:
  "margin_pick n a b = shift \<Longrightarrow> shift \<noteq> 99 \<Longrightarrow> shift = 0 \<and> 8 \<le> a \<and> 2 * n \<le> a \<or> shift = 15 \<and> 8 \<le> b \<and> 2 * n \<le> b"
  by (auto simp: margin_pick_def better_def MIN_DD8_HITS_def split: if_splits)

lemma pick_gain:
  assumes "(if c then delta_pick n (u 0) (u 15) else margin_pick m (v 0) (v 15)) = shift" and "shift \<noteq> 99"
  shows "n + 8 \<le> u shift \<or> 8 \<le> v shift \<and> 2 * m \<le> v shift"
  using assms delta_pick_gain [of n "u 0" "u 15" shift] margin_pick_gain [of m "v 0" "v 15" shift] by (auto split: if_splits)

lemma sample_pages_nonempty: "2 \<le> n \<Longrightarrow> shift_sample_pages n \<noteq> []"
proof (cases "n \<le> 4")
  case True
  then show "2 \<le> n \<Longrightarrow> shift_sample_pages n \<noteq> []" by (simp add: shift_sample_pages_def word_le_nat_alt)
next
  case False
  assume "2 \<le> n"
  let ?lo = "max (n div 8) 1" and ?hi = "n - max (n div 8) 1"
  have lo: "?lo < n" using False by (simp add: max_def word_le_nat_alt word_less_nat_alt unat_div)
  then have "\<exists>p\<in>set (map (\<lambda>i. ?lo + word_of_nat i * max ((?hi - ?lo) div 4) 1) [0..<4]). p < n"
    by (intro bexI [of _ ?lo]) (simp_all add: upt_conv_Cons)
  then have "filter (\<lambda>p. p < n) (map (\<lambda>i. ?lo + word_of_nat i * max ((?hi - ?lo) div 4) 1) [0..<4]) \<noteq> []"
    by (simp only: filter_empty_conv) blast
  moreover have "map word_of_nat [0..<unat n] \<noteq> ([] :: u32 list)" using lo by (simp add: word_less_nat_alt)
  ultimately show ?thesis using False unfolding shift_sample_pages_def Let_def by (simp del: filter.simps)
qed

text \<open>When the statistics choose a shift, the pass that the pipeline then runs raises the function-end padding on the sampled
  pages by eight bytes or more; or, when there is no such padding, it leaves at the places it changes at least eight padding bytes
  and twice as many as the baseline counts.\<close>

theorem padding_selection_gains:
  assumes "select_dd8_by_entry_stub d text_va text_size info3 = (Ok None :: (_, 'e) res)"
    and "select_dd8_shift d text_va text_size info3 = (Ok shift :: (nat, 'e) res)" and "shift \<noteq> 99" and "2 \<le> drop_bit 12 text_size"
    and "unat text_va + unat text_size \<le> length d" and "length d < 2 ^ 32" and "unat text_va mod 4096 = 0"
  shows "\<exists>d'. decrypt_text d text_va text_size shift = (Ok d' :: (bytes, 'e) res)
    \<and> (let pages = shift_sample_pages (drop_bit 12 text_size); off = unat text_va;
           restored = page_sum d' off pages (\<lambda>sp. restored_int3 (push_bit shift (drop_bit 12 text_va + sp)))
       in page_sum d off pages (\<lambda>sp. ret_int3_score) + 8 \<le> page_sum d' off pages (\<lambda>sp. ret_int3_score)
          \<or> 8 \<le> restored \<and> 2 * score_dd8_baseline d off pages \<le> restored)"
proof -
  let ?pages = "shift_sample_pages (drop_bit 12 text_size)" and ?d' = "text_pages shift text_va text_size d"
  have run: "decrypt_text d text_va text_size shift = (Ok ?d' :: (bytes, 'e) res)" by (rule decrypt_text_run [OF assms(3,5,6)])
  have "select_by_padding d text_va ?pages = (Ok shift :: (nat, 'e) res)"
    using assms(1,2,4) sample_pages_nonempty [OF assms(4)] by (simp add: select_dd8_shift_def Let_def not_less [symmetric])
  note sel = this [unfolded select_by_padding_run Let_def score_shift_sum
      pass_sum [OF assms(5,7), where f = "\<lambda>sp. ret_int3_score"]
      pass_sum [OF assms(5,7), where f = "\<lambda>sp. restored_int3 (push_bit s (drop_bit 12 text_va + sp))" for s]
      res.inject]
  show ?thesis
    using run pick_gain [where u = "\<lambda>s. page_sum (text_pages s text_va text_size d) (unat text_va) ?pages (\<lambda>sp. ret_int3_score)"
      and v = "\<lambda>s. page_sum (text_pages s text_va text_size d) (unat text_va) ?pages (\<lambda>sp. restored_int3 (push_bit s (drop_bit 12 text_va + sp)))",
      OF sel assms(3)]
    unfolding Let_def by blast
qed

section \<open>The formula of a 32-bit image\<close>

lemma pe32_page_step:
  assumes "bi < 256" "length page = 4096"
  shows "text_step_pe32 0 bi (page, k) = (Ok (pe32_step bi (page, k)) :: (bytes \<times> u32, 'e) res)"
proof -
  let ?ri = "word_rotr 15 k + word_of_nat bi"
  have "unat (word_of_nat bi * 16 :: u32) = 16 * bi" using assms(1) by (simp add: unat_word_ariths unat_of_nat)
  moreover have "unat (?ri AND 0xF) < 16" by (rule low_nibble)
  ultimately have "unat (word_of_nat bi * 16 + (?ri AND 0xF)) < 4096" using assms(1) by (simp add: unat_add_no_wrap)
  then show ?thesis using assms(2) by (simp add: text_step_pe32_def pe32_step_def Let_def idx_in set_at_in)
qed

lemma length_pe32_step: "length (fst (pe32_step bi (page, k))) = length page"
  by (simp add: pe32_step_def Let_def)

lemma pe32_page_fold:
  "list_all (\<lambda>bi. bi < 256) bis \<Longrightarrow> length page = 4096 \<Longrightarrow>
   foldM (text_step_pe32 0) bis (page, k) = (Ok (fold pe32_step bis (page, k)) :: (bytes \<times> u32, 'e) res)"
proof (induction bis arbitrary: page k)
  case (Cons bi bis)
  obtain page' k' where s: "pe32_step bi (page, k) = (page', k')" by force
  then have "length page' = 4096" using length_pe32_step [of bi page k] Cons.prems by simp
  then show ?case using Cons pe32_page_step [of bi page k, where 'e = 'e] s by simp
qed simp

lemma pe32_page_region:
  assumes "length page = 4096"
  shows "pe32_page page key = dd8_region key 0 256 page"
proof -
  have "foldM (text_step_pe32 0) [1..<256] (page, word_rotr 15 key) = (Ok (fold pe32_step [1..<256] (page, word_rotr 15 key)) :: (bytes \<times> u32, unit) res)"
    by (rule pe32_page_fold) (simp_all add: assms list_all_iff del: upt_Suc upt_rec_numeral)
  moreover have "foldM (data8_body 0) [0..<256] (page, key) = (Ok (dd8_region key (unat (0 :: u32)) 256 page, dd8_key key 256) :: (bytes \<times> u32, unit) res)"
    by (rule data8_loop) (simp_all add: assms)
  ultimately have "fold pe32_step [1..<256] (page, word_rotr 15 key) = (dd8_region key 0 256 page, dd8_key key 256)"
    unfolding pe32_loop by (simp del: upt_Suc upt_rec_numeral)
  then show ?thesis by (simp only: pe32_page_def fst_conv)
qed

lemma pe32_sample_less: "sp \<in> set (pe32_sample_pages n) \<Longrightarrow> sp < n"
  by (auto simp: pe32_sample_pages_def Let_def word_less_nat_alt unat_div split: if_splits)

lemma pe32_pass_page:
  assumes b: "unat text_off + unat text_size \<le> length d" "length d < 2 ^ 32" and sp: "sp < text_size div 0x1000"
  shows "get_range (text_pages_pe32 big text_off text_size d) (unat (text_off + sp * 0x1000)) 0x1000
    = map_option (\<lambda>page. pe32_page page (pe32_key big sp)) (get_range d (unat (text_off + sp * 0x1000)) 0x1000)"
proof -
  let ?hi = "unat text_size div 4096"
  have p: "unat sp < ?hi" using sp by (simp add: word_less_nat_alt unat_div)
  then have i: "unat text_off + 4096 * unat sp + 4096 \<le> length d" "unat text_off + 4096 * ?hi \<le> length d" using b(1) by simp_all
  then have off: "unat (text_off + sp * 0x1000) = unat text_off + 4096 * unat sp"
    using b(2) unat_page_offset [of text_off "unat sp"] by simp
  have "window (text_pages_pe32 big text_off text_size d) (unat text_off + 4096 * unat sp) 4096
      = dd8_region (pe32_key big (word_of_nat (unat sp))) 0 256 (window d (unat text_off + 4096 * unat sp) 4096)"
    unfolding text_pages_pe32_def using p i by (intro pages_region_window) simp_all
  then show ?thesis using i by (simp add: get_range_def off text_pages_pe32_def pe32_page_region length_window)
qed

definition int3_sum :: "bytes \<Rightarrow> u32 \<Rightarrow> u32 \<Rightarrow> nat" where
  "int3_sum d text_off text_size = pe32_score d text_off (pe32_sample_pages (text_size div 0x1000)) (\<lambda>sp page. page)"

lemma pe32_score_pass:
  assumes b: "unat text_off + unat text_size \<le> length d" "length d < 2 ^ 32"
  shows "pe32_score d text_off (pe32_sample_pages (text_size div 0x1000)) (\<lambda>sp page. pe32_page page (pe32_key big sp))
    = int3_sum (text_pages_pe32 big text_off text_size d) text_off text_size"
  unfolding int3_sum_def pe32_score_def
proof (rule arg_cong [where f = sum_list], rule map_cong [OF refl])
  fix sp assume sp: "sp \<in> set (pe32_sample_pages (text_size div 0x1000))"
  show "(case get_range d (unat (text_off + sp * 0x1000)) 0x1000 of None \<Rightarrow> 0 | Some page \<Rightarrow> count_cc (pe32_page page (pe32_key big sp)))
      = (case get_range (text_pages_pe32 big text_off text_size d) (unat (text_off + sp * 0x1000)) 0x1000 of None \<Rightarrow> 0 | Some page \<Rightarrow> count_cc page)"
    unfolding pe32_pass_page [OF b pe32_sample_less [OF sp]] by (simp split: option.split)
qed

text \<open>The text of a 32-bit image is left alone, or the pass under the selected key formula has at least 32 padding bytes more on
  the sampled pages than the text had, and no fewer than the pass under the other formula, or there is no page to sample.\<close>

theorem pe32_selection_gains:
  assumes "unat text_off + unat text_size \<le> length d" and "length d < 2 ^ 32"
  shows "case select_dd8_formula_pe32 d text_off text_size of
      None \<Rightarrow> decrypt_text_pe32 d text_off text_size None = (Ok d :: (bytes, 'e) res)
    | Some big \<Rightarrow> \<exists>d' other. decrypt_text_pe32 d text_off text_size (Some big) = (Ok d' :: (bytes, 'e) res)
        \<and> decrypt_text_pe32 d text_off text_size (Some (\<not> big)) = (Ok other :: (bytes, 'e) res)
        \<and> int3_sum other text_off text_size \<le> int3_sum d' text_off text_size
        \<and> (pe32_sample_pages (text_size div 0x1000) = [] \<or> int3_sum d text_off text_size + 32 \<le> int3_sum d' text_off text_size)"
proof (cases "select_dd8_formula_pe32 d text_off text_size")
  case (Some big)
  let ?s = "\<lambda>big. int3_sum (text_pages_pe32 big text_off text_size d) text_off text_size"
  have "big = (?s False < ?s True)"
    and "pe32_sample_pages (text_size div 0x1000) = [] \<or> 32 \<le> int (max (?s False) (?s True)) - int (int3_sum d text_off text_size)"
    using Some unfolding select_dd8_formula_pe32_def Let_def pe32_score_pass [OF assms] int3_sum_def [symmetric] MIN_DD8_NET_GAIN_def
    by (auto split: if_splits)
  then have "?s (\<not> big) \<le> ?s big" and "pe32_sample_pages (text_size div 0x1000) = [] \<or> int3_sum d text_off text_size + 32 \<le> ?s big"
    by (auto simp: max_def split: if_splits)
  then show ?thesis using Some decrypt_text_pe32_run [OF assms, where 'e = 'e] by simp
qed (simp add: decrypt_text_pe32_def)

end
