(* ===== verification/Spec2Isabelle.thy ===== *)
theory Spec2Isabelle
  imports Prelude Crc32 Bytecode ByteMachine AesTables Streams Primitives Aes Decompress Gf32 Protector HuffmanLz Container HeaderCodec
    HuffmanStream ContainerProps ElfHash ElfLayout ElfAppend ElfProps Readers MetaLayout Columns Structural StructuralProps MethodIndices MethodIndexProps
    Rounds MethodTokens MethodTokens39 SeedDiscovery MethodTokenProps SeedDiscoveryProps MethodTokenSafety Keystream Embedded
    Limits Stage1 RecordStream ConstructorProps PageCiphers
    PeHeaders Findings Directories DirectoryProps ClrMetadata ClrProps Integrity DirectorySpec IntegrityProps
    DiscoveryProps Dd8Select Dd8Props
begin

text \<open>
  A verification library for Senbei, a static unpacker for protected Windows PE files and Android AArch64 shared
  libraries.

  \<^bold>\<open>The program.\<close> Everything Senbei does to a file is a chain of byte transformations. On Android a protected module
  is inspected (\<^verbatim>\<open>extract/stage1.rs\<close>), its record stream is decrypted (\<^verbatim>\<open>extract/stream.rs\<close>), the container with the
  original segments is decoded with the key that the runtime of the protector carries
  (\<^verbatim>\<open>senbei-crypto/src/android/protector.rs\<close>), the constructor calls are recovered from the code of the module
  (\<^verbatim>\<open>restore/constructors.rs\<close>), the ELF file is extended by load segments and symbol hash sections (\<^verbatim>\<open>senbei-elf\<close>), and
  the game metadata beside it is unwrapped and repaired (\<^verbatim>\<open>senbei-metadata\<close>). On Windows a payload is decrypted by a
  sequence of small ciphers, AES and byte programs, decompressed, and laid out as an image again
  (\<^verbatim>\<open>senbei-crypto/src/windows\<close>, \<^verbatim>\<open>senbei-engine/src/windows\<close>, \<^verbatim>\<open>senbei-pe\<close>).

  \<^bold>\<open>Conventions\<close> (\<open>Prelude\<close>). A Rust \<open>Result\<close> is the type \<open>res\<close> with a third outcome \<open>Panic\<close> for an index or range outside
  a slice; \<open>usize\<close> is a \<open>nat\<close> with the checked operations bounded by \<open>2 ^ 64\<close>; \<open>u8\<close> to \<open>u64\<close> are machine words, and the
  unchecked operators wrap, as they do in the release profile; a \<open>&mut [u8]\<close> is a list that is returned. A loop that may not
  end is a \<open>partial_function\<close> into \<open>option\<close>, where \<open>None\<close> is a run that never returns. The prelude has the laws of byte
  ranges (\<open>window\<close>, \<open>patch\<close>), of little-endian numbers and of fallible loops, and \<open>ok_with\<close>, through which the
  absence of panics is proved compositionally. Error messages are kept as strings without their numbers.

  \<^bold>\<open>Windows ciphers\<close> (\<^verbatim>\<open>senbei-crypto/src/windows\<close>). \<open>Crc32\<close>: the checksum loop is the bit-serial CRC-32 and detects
  every change within four bytes. \<open>Bytecode\<close>: the compiler of the embedded byte programs and the lookup table that
  replaces their interpreter; \<open>ByteMachine\<close>: both against a machine that executes the x86 code of the programs. \<open>AesTables\<close>, \<open>Aes\<close>: generation of the tables, and the equivalence of the table-driven
  round function and of CBC decryption with the inverse of the cipher of FIPS 197, which is written out with the matrices of
  the standard. \<open>Streams\<close>, \<open>Primitives\<close>: accessors, checksums, and the word and byte ciphers; the locale \<open>word_stream\<close>
  proves once that a run of a step inverts a run of its inverse. \<open>Decompress\<close>: the Huffman/LZ decompressor from a table
  in the buffer or from a snapshot of it, its termination, its frame and the agreement of both. \<open>PageCiphers\<close>: the
  ciphers the two PE pipelines keep for themselves, and the predictors of single bytes and words that the layout discovery
  uses instead of running them.

  \<^bold>\<open>Android container\<close> (\<^verbatim>\<open>protector.rs\<close>). \<open>Gf32\<close>: the multiplication in \<open>GF(2^32)\<close>. \<open>Protector\<close>: configuration and key
  recovery, module descriptor, container header, segment transform. \<open>HeaderCodec\<close>: the inverse of the header.
  \<open>HuffmanLz\<close>, \<open>HuffmanStream\<close>: the buffered decoder and the machine that reads codes off one number, with the
  refinement between them; a decoder may hang on an accepted tree, which is proved. \<open>Container\<close>, \<open>ContainerProps\<close>: the
  writers of every segment, absence of panics, and the round trip of a packed container.

  \<^bold>\<open>Android stages.\<close> \<open>Limits\<close>: the ceilings and budgets (\<^verbatim>\<open>limits.rs\<close>), with the locale \<open>budget\<close> for the three counters.
  \<open>Stage1\<close>, \<open>RecordStream\<close>: header and record parsing, their ranges and their round trips. \<open>Constructors\<close>,
  \<open>ConstructorProps\<close>: the search for selectors and the bounded AArch64 interpreter.

  \<^bold>\<open>ELF files\<close> (\<^verbatim>\<open>senbei-elf\<close>). \<open>Readers\<close>: checked readers. \<open>ElfLayout\<close>, \<open>ElfAppend\<close>, \<open>ElfProps\<close>: parsing a layout,
  appending a load segment in the three ways of making room, and the agreement of layout and file. \<open>ElfHash\<close>: both hash
  sections against the readers of the ELF specification.

  \<^bold>\<open>Metadata\<close> (\<^verbatim>\<open>senbei-metadata\<close>). \<open>MetaLayout\<close>, \<open>Columns\<close>: layouts and columns of tables. \<open>Structural\<close>,
  \<open>StructuralProps\<close>: the structural remap of method tokens. \<open>MethodIndices\<close>, \<open>MethodIndexProps\<close>: restoration of method
  indices. \<open>Rounds\<close>, \<open>MethodTokens\<close>, \<open>MethodTokens39\<close>, \<open>MethodTokenProps\<close>, \<open>MethodTokenSafety\<close>: restoration of method
  tokens under a seed. \<open>SeedDiscovery\<close>, \<open>SeedDiscoveryProps\<close>: the search for the seed, which finds exactly the seeds under
  which the restoration succeeds. \<open>Keystream\<close>, \<open>Embedded\<close>: extraction of embedded metadata.

  \<^bold>\<open>PE images and their check\<close> (\<^verbatim>\<open>senbei-pe\<close>, \<^verbatim>\<open>windows/integrity\<close>, \<^verbatim>\<open>findings.rs\<close>). \<open>PeHeaders\<close>: the header parser and the mapping of
  addresses to file ranges. \<open>Findings\<close>: the bounded sink of messages, with \<open>sunk\<close> (a walk only pushes) and \<open>exact\<close> (a walk is
  silent under exactly one condition). \<open>Directories\<close>, \<open>DirectoryProps\<close>: the walks over the eight data directories; the
  relocation walk is exact, and two fields are read at the wrong place. \<open>ClrMetadata\<close>, \<open>ClrProps\<close>: the walk over the metadata
  of a managed image, which is exact. \<open>DirectorySpec\<close>: what the eight directories of a sound image look like, written out table by
  table, and that the walks report nothing on exactly these images. \<open>Integrity\<close>, \<open>IntegrityProps\<close>: the check of an unpacked
  image; it never panics, and unless a raw range wraps around 32 bits a clean report is equivalent to the condition \<open>image_ok\<close>.

  \<^bold>\<open>Locating the stages\<close> (\<^verbatim>\<open>windows/layout\<close>). \<open>Discovery\<close>, \<open>DiscoveryProps\<close>: the structural locators of \<^verbatim>\<open>discovery.rs\<close>.
  A located byte program is one that the pipeline decrypts and compiles (\<open>Bytecode\<close>, \<open>Primitives\<close>); a located table or
  slot has its ranges inside the image; none of the locators panics on an image of up to 4 GiB. \<open>Dd8Select\<close>, \<open>Dd8Props\<close>: the
  selection of the transform of \<^verbatim>\<open>.text\<close> (\<^verbatim>\<open>dd8.rs\<close>) and the passes that run it. The selection always ends in one of three shifts;
  what each of its oracles promises (sound branches of the entry stub, more function-end padding) holds of the image that the pass leaves.

  \<^bold>\<open>Bounds and fuel.\<close> The interpreter of \<open>Constructors\<close> and its search take the budgets of the code (at most a million
  steps, 100000 instructions), so running out is a behaviour of the program and not of the model. The decompressor of
  \<open>Decompress\<close> and the string cipher \<open>decrypt_data7\<close> are \<open>partial_function\<close>s and are proved to return. The walk of
  \<open>HuffmanLz\<close> below its lookup table has no bound in the code.

  \<^bold>\<open>Not modelled.\<close> The drivers that sequence these transformations (the pipelines under \<^verbatim>\<open>senbei-engine\<close>) beyond the
  functions named above: they interleave the modelled steps with tracing, threads and profile data. The ELF tables that
  the goblin crate parses are a parameter of \<open>Stage1\<close>, and the crates for zip and zlib are left out with their callers.
  File access, reports, progress output, the command line and the web bindings have no content to prove here. Allocation
  does not fail in the model.
\<close>

end
